(* ===== verification/Prelude.thy ===== *)
theory Prelude
  imports Main "HOL-Library.Word" "HOL-Library.Monad_Syntax"
begin

text \<open>
  Shared vocabulary of the development: the machine types of the Rust sources, the checked
  arithmetic of \<open>usize\<close>, byte buffers with slice reads and in-place writes, and the
  little-endian codec that every on-buffer structure of the memtable crate is built from.

  Conventions. A \<open>usize\<close> is a \<open>nat\<close>; only the \<open>checked_*\<close> operations test the 64-bit bound,
  plain sums of in-buffer offsets stay far below it because a Rust slice is at most
  \<open>isize::MAX\<close> bytes long. A fixed-width integer of a value is a \<open>word\<close>; a field of a
  \<open>repr(C)\<close> structure is read as the \<open>nat\<close> its little-endian bytes denote. A panic (an index out
  of range, a failed \<open>copy_from_slice\<close>) is the value \<^term>\<open>None\<close> of an option; a Rust \<open>Result\<close> is
  a sum with the error on the left.
\<close>

named_theorems le_simps "the little-endian codec"
named_theorems buf_simps "reads over writes of a byte buffer"

section \<open>Machine types and checked arithmetic\<close>

type_synonym byte = "8 word"
type_synonym u16 = "16 word"
type_synonym u32 = "32 word"
type_synonym i32 = "32 word"
type_synonym u64 = "64 word"
type_synonym i64 = "64 word"
type_synonym f32 = "32 word"
type_synonym f64 = "64 word"
type_synonym usize = nat
type_synonym buf = "byte list"

definition checked_add :: "usize \<Rightarrow> usize \<Rightarrow> usize option" where
  "checked_add a b = (if a + b < 2 ^ 64 then Some (a + b) else None)"

definition checked_mul :: "usize \<Rightarrow> usize \<Rightarrow> usize option" where
  "checked_mul a b = (if a * b < 2 ^ 64 then Some (a * b) else None)"

definition checked_sub :: "usize \<Rightarrow> usize \<Rightarrow> usize option" where
  "checked_sub a b = (if b \<le> a then Some (a - b) else None)"

lemma checked_add_eq_Some [simp]: "checked_add a b = Some c \<longleftrightarrow> c = a + b \<and> a + b < 2 ^ 64"
  by (auto simp: checked_add_def)

lemma checked_mul_eq_Some [simp]: "checked_mul a b = Some c \<longleftrightarrow> c = a * b \<and> a * b < 2 ^ 64"
  by (auto simp: checked_mul_def)

lemma checked_sub_eq_Some [simp]: "checked_sub a b = Some c \<longleftrightarrow> b \<le> a \<and> c = a - b"
  by (auto simp: checked_sub_def)

text \<open>Division with the remainder cut off rounds a size down to the block it lies in.\<close>

lemma div_mult_le_self [simp]: "(n::nat) div k * k \<le> n"
  using div_mult_mod_eq [of n k] by linarith

lemma block_end_le:
  fixes c :: nat
  assumes "i < n"
  shows "i * c + c \<le> c * n"
proof -
  have "Suc i * c \<le> n * c" using assms by (intro mult_right_mono) auto
  then show ?thesis by (simp add: mult.commute add.commute)
qed

lemma block_disjoint:
  fixes c :: nat
  assumes "i \<noteq> j"
  shows "i * c + c \<le> j * c \<or> j * c + c \<le> i * c"
proof (cases "i < j")
  case True
  from block_end_le [OF True, of c] show ?thesis by (simp add: mult.commute)
next
  case False
  with assms have "j < i" by simp
  from block_end_le [OF this, of c] show ?thesis by (simp add: mult.commute)
qed

section \<open>Slices of a byte buffer and in-place writes\<close>

definition bslice :: "usize \<Rightarrow> usize \<Rightarrow> 'a list \<Rightarrow> 'a list" where
  "bslice off n b = take n (drop off b)"

definition bsplice :: "usize \<Rightarrow> 'a list \<Rightarrow> 'a list \<Rightarrow> 'a list" where
  "bsplice off bs b = take off b @ bs @ drop (off + length bs) b"

text \<open>\<open>b.get(lo..hi)\<close>: the sub-slice, or nothing when the range does not lie in the buffer.\<close>

definition get_range :: "'a list \<Rightarrow> usize \<Rightarrow> usize \<Rightarrow> 'a list option" where
  "get_range b lo hi = (if lo \<le> hi \<and> hi \<le> length b then Some (bslice lo (hi - lo) b) else None)"

text \<open>\<open>b[off..off + bs.len()].copy_from_slice(bs)\<close>: panics outside the buffer.\<close>

definition copy_at :: "usize \<Rightarrow> 'a list \<Rightarrow> 'a list \<Rightarrow> 'a list option" where
  "copy_at off bs b = (if off + length bs \<le> length b then Some (bsplice off bs b) else None)"

lemma length_slice: "length (bslice off n b) = min n (length b - off)"
  by (simp add: bslice_def)

lemma length_slice_in [simp]: "off + n \<le> length b \<Longrightarrow> length (bslice off n b) = n"
  by (simp add: bslice_def)

lemma slice_0 [simp]: "bslice off 0 b = []"
  by (simp add: bslice_def)

lemma slice_add: "bslice off (m + n) b = bslice off m b @ bslice (off + m) n b"
  by (simp add: bslice_def take_add add.commute)

lemma slice_slice: "i + m \<le> n \<Longrightarrow> bslice i m (bslice off n b) = bslice (off + i) m b"
  by (simp add: bslice_def take_drop add.commute min_def)

lemma slice_drop: "k \<le> n \<Longrightarrow> drop k (bslice off n b) = bslice (off + k) (n - k) b"
  by (simp add: bslice_def drop_take add.commute)

lemma slice_prefix: "m \<le> n \<Longrightarrow> bslice off m b = take m (bslice off n b)"
  by (simp add: bslice_def min_def)

lemma slice_append_left: "off + n \<le> length a \<Longrightarrow> bslice off n (a @ b) = bslice off n a"
  by (simp add: bslice_def)

lemma slice_append_right: "length a \<le> off \<Longrightarrow> bslice off n (a @ b) = bslice (off - length a) n b"
  by (simp add: bslice_def)

lemma nth_slice: "i < n \<Longrightarrow> off + n \<le> length b \<Longrightarrow> bslice off n b ! i = b ! (off + i)"
  by (simp add: bslice_def)

lemma slice_full [simp]: "bslice 0 (length b) b = b"
  by (simp add: bslice_def)

lemma slice_Suc: "off < length b \<Longrightarrow> bslice off (Suc n) b = b ! off # bslice (Suc off) n b"
  by (simp add: bslice_def Cons_nth_drop_Suc [symmetric])

lemma length_splice [simp]:
  "off + length bs \<le> length b \<Longrightarrow> length (bsplice off bs b) = length b"
  by (simp add: bsplice_def)

lemma slice_splice_same [buf_simps]:
  assumes "off + length bs \<le> length b" "length bs = n"
  shows "bslice off n (bsplice off bs b) = bs"
proof -
  have "length (take off b) = off" using assms by simp
  then show ?thesis using assms by (simp add: bslice_def bsplice_def)
qed

lemma nth_splice:
  assumes "off + length bs \<le> length b" "i < length b"
  shows "bsplice off bs b ! i =
    (if off \<le> i \<and> i < off + length bs then bs ! (i - off) else b ! i)"
  using assms by (auto simp: bsplice_def nth_append)

lemma slice_splice_other [buf_simps]:
  assumes "off + length bs \<le> length b" "o2 + n \<le> off \<or> off + length bs \<le> o2"
  shows "bslice o2 n (bsplice off bs b) = bslice o2 n b"
proof (rule nth_equalityI)
  show "length (bslice o2 n (bsplice off bs b)) = length (bslice o2 n b)"
    using assms(1) by (simp add: length_slice)
  fix i assume "i < length (bslice o2 n (bsplice off bs b))"
  with assms show "bslice o2 n (bsplice off bs b) ! i = bslice o2 n b ! i"
    by (auto simp: bslice_def nth_splice)
qed

lemma slice_splice_within [buf_simps]:
  assumes "off + length bs \<le> length b" "off \<le> o2" "o2 + n \<le> off + length bs"
  shows "bslice o2 n (bsplice off bs b) = bslice (o2 - off) n bs"
proof (rule nth_equalityI)
  show "length (bslice o2 n (bsplice off bs b)) = length (bslice (o2 - off) n bs)"
    using assms by (simp add: length_slice)
  fix i assume "i < length (bslice o2 n (bsplice off bs b))"
  with assms show "bslice o2 n (bsplice off bs b) ! i = bslice (o2 - off) n bs ! i"
    by (auto simp: bslice_def nth_splice)
qed

lemma splice_Nil [simp]: "bsplice off [] b = b"
  by (simp add: bsplice_def)

lemma splice_splice_adjacent:
  assumes "off + length xs + length ys \<le> length b"
  shows "bsplice (off + length xs) ys (bsplice off xs b) = bsplice off (xs @ ys) b"
  using assms by (simp add: bsplice_def ac_simps)

lemma copy_at_eq_Some [simp]:
  "copy_at off bs b = Some b' \<longleftrightarrow> off + length bs \<le> length b \<and> b' = bsplice off bs b"
  by (auto simp: copy_at_def)

lemma get_range_eq_Some:
  "get_range b lo hi = Some bs \<longleftrightarrow> lo \<le> hi \<and> hi \<le> length b \<and> bs = bslice lo (hi - lo) b"
  by (auto simp: get_range_def)

section \<open>The little-endian codec\<close>

lemma unat_bound: "unat (w::'a::len word) < 2 ^ LENGTH('a)"
  by (rule unsigned_less)

lemma unat_byte_bound: "unat (b::byte) < 256"
  using unat_bound [of b] by simp

fun le_bytes :: "nat \<Rightarrow> nat \<Rightarrow> byte list" where
  "le_bytes 0 v = []"
| "le_bytes (Suc n) v = word_of_nat v # le_bytes n (v div 256)"

fun le_nat :: "byte list \<Rightarrow> nat" where
  "le_nat [] = 0"
| "le_nat (b # bs) = unat b + 256 * le_nat bs"

lemma length_le_bytes [simp]: "length (le_bytes n v) = n"
  by (induction n arbitrary: v) auto

lemma le_nat_le_bytes [le_simps]: "le_nat (le_bytes n v) = v mod 256 ^ n"
proof (induction n arbitrary: v)
  case (Suc n)
  have "unat (word_of_nat v :: byte) = v mod 256"
    by (simp add: unat_of_nat)
  then show ?case using Suc.IH [of "v div 256"] by (simp add: mod_mult2_eq)
qed simp

lemma le_nat_bound: "le_nat bs < 256 ^ length bs"
proof (induction bs)
  case (Cons b bs)
  have "unat b < 256" by (rule unat_byte_bound)
  with Cons.IH have "unat b + 256 * le_nat bs < 256 * (le_nat bs + 1)" by simp
  also have "\<dots> \<le> 256 * 256 ^ length bs"
    using Cons.IH by (intro mult_left_mono) auto
  finally show ?case by simp
qed simp

lemma le_bytes_le_nat [le_simps]: "length bs = n \<Longrightarrow> le_bytes n (le_nat bs) = bs"
proof (induction bs arbitrary: n)
  case (Cons b bs)
  have "unat b < 256" by (rule unat_byte_bound)
  then have "(unat b + 256 * le_nat bs) div 256 = le_nat bs" by simp
  moreover have "(word_of_nat (unat b + 256 * le_nat bs) :: byte) = b"
  proof -
    have "(256 :: byte) = 0" by (simp add: word_eq_iff_unsigned)
    then have "(256 :: byte) * word_of_nat (le_nat bs) = 0" by (simp only: mult_zero_left)
    then show ?thesis by simp
  qed
  ultimately show ?case using Cons by auto
qed simp

lemma le_nat_append: "le_nat (a @ b) = le_nat a + 256 ^ length a * le_nat b"
  by (induction a) (auto simp: algebra_simps)

lemma le_bytes_append_zero: "v < 256 ^ m \<Longrightarrow> le_bytes (m + k) v = le_bytes m v @ replicate k 0"
proof (induction m arbitrary: v)
  case 0
  have "le_bytes k 0 = replicate k 0" by (induction k) auto
  with 0 show ?case by simp
next
  case (Suc m)
  from Suc.prems have "v div 256 < 256 ^ m" by (simp add: less_mult_imp_div_less)
  with Suc.IH show ?case by simp
qed

section \<open>Integer fields at an offset\<close>

text \<open>
  \<open>rd\<close> reads an unsigned field of \<open>n\<close> bytes, \<open>wr\<close> stores one; the stored value is cut to
  the field's width, as an \<open>as u32\<close> cast or an atomic store does.
\<close>

definition rd :: "usize \<Rightarrow> nat \<Rightarrow> buf \<Rightarrow> nat" where
  "rd off n b = le_nat (bslice off n b)"

definition wr :: "usize \<Rightarrow> nat \<Rightarrow> nat \<Rightarrow> buf \<Rightarrow> buf" where
  "wr off n v b = bsplice off (le_bytes n v) b"

lemma length_wr [simp, buf_simps]: "off + n \<le> length b \<Longrightarrow> length (wr off n v b) = length b"
  by (simp add: wr_def)

lemma rd_bound: "rd off n b < 256 ^ n"
proof -
  have "rd off n b < 256 ^ length (bslice off n b)" by (simp add: rd_def le_nat_bound)
  also have "\<dots> \<le> 256 ^ n" by (intro power_increasing) (auto simp: length_slice)
  finally show ?thesis .
qed

lemma rd2_bound: "rd off 2 b < 65536"
  using rd_bound [of off 2 b] by simp

lemma rd4_bound: "rd off 4 b < 4294967296"
  using rd_bound [of off 4 b] by simp

lemma rd8_bound: "rd off 8 b < 18446744073709551616"
  using rd_bound [of off 8 b] by simp

lemma rd_wr_same [buf_simps]: "off + n \<le> length b \<Longrightarrow> rd off n (wr off n v b) = v mod 256 ^ n"
  by (simp add: rd_def wr_def slice_splice_same le_simps)

lemma slice_wr_other [buf_simps]:
  "off + n \<le> length b \<Longrightarrow> o2 + m \<le> off \<or> off + n \<le> o2 \<Longrightarrow> bslice o2 m (wr off n v b) = bslice o2 m b"
  by (simp add: wr_def slice_splice_other)

lemma rd_wr_other [buf_simps]:
  "off + n \<le> length b \<Longrightarrow> o2 + m \<le> off \<or> off + n \<le> o2 \<Longrightarrow> rd o2 m (wr off n v b) = rd o2 m b"
  by (simp add: rd_def slice_wr_other)

lemma rd_splice_other [buf_simps]:
  "off + length bs \<le> length b \<Longrightarrow> o2 + n \<le> off \<or> off + length bs \<le> o2 \<Longrightarrow>
   rd o2 n (bsplice off bs b) = rd o2 n b"
  by (simp add: rd_def slice_splice_other)

lemma rd_slice: "i + m \<le> n \<Longrightarrow> rd i m (bslice off n b) = rd (off + i) m b"
  by (simp add: rd_def slice_slice)

lemma rd_cong: "bslice off n b = bslice off n b' \<Longrightarrow> rd off n b = rd off n b'"
  by (simp add: rd_def)

text \<open>A sequence of field stores at ascending, disjoint offsets.\<close>

definition wr_all :: "(usize \<times> nat \<times> nat) list \<Rightarrow> buf \<Rightarrow> buf" where
  "wr_all ws b = foldl (\<lambda>b (off, n, v). wr off n v b) b ws"

definition ascending :: "(usize \<times> nat \<times> nat) list \<Rightarrow> bool" where
  "ascending ws = sorted_wrt (\<lambda>(off, n, v) (off', n', v'). off + n \<le> off') ws"

lemma wr_all_Cons: "wr_all ((off, n, v) # ws) b = wr_all ws (wr off n v b)"
  by (simp add: wr_all_def)

lemma length_wr_all: "\<forall>(off, n, v) \<in> set ws. off + n \<le> length b \<Longrightarrow> length (wr_all ws b) = length b"
  by (induction ws arbitrary: b) (auto simp: wr_all_Cons, simp add: wr_all_def)

lemma slice_wr_all_other:
  "\<forall>(off, n, v) \<in> set ws. off + n \<le> length b \<and> (o2 + m \<le> off \<or> off + n \<le> o2) \<Longrightarrow>
   bslice o2 m (wr_all ws b) = bslice o2 m b"
proof (induction ws arbitrary: b)
  case (Cons w ws)
  obtain off n v where w: "w = (off, n, v)" by (cases w)
  have "bslice o2 m (wr_all ws (wr off n v b)) = bslice o2 m (wr off n v b)"
    using Cons.prems w by (intro Cons.IH) auto
  also have "\<dots> = bslice o2 m b" using Cons.prems w by (intro slice_wr_other) auto
  finally show ?case by (simp add: w wr_all_Cons)
qed (simp add: wr_all_def)

lemma rd_wr_all:
  assumes "ascending ws" "\<forall>(off, n, v) \<in> set ws. off + n \<le> length b" "(off, n, v) \<in> set ws"
  shows "rd off n (wr_all ws b) = v mod 256 ^ n"
  using assms
proof (induction ws arbitrary: b)
  case (Cons w ws)
  obtain off' n' v' where w: "w = (off', n', v')" by (cases w)
  let ?b = "wr off' n' v' b"
  have b: "off' + n' \<le> length b" "length ?b = length b" using Cons.prems(2) w by auto
  show ?case
  proof (cases "(off, n, v) \<in> set ws")
    case True
    then show ?thesis
      using Cons.IH [of ?b] Cons.prems b(2) by (simp add: w wr_all_Cons ascending_def)
  next
    case False
    then have e: "off' = off" "n' = n" "v' = v" using Cons.prems(3) w by auto
    have "bslice off n (wr_all ws ?b) = bslice off n ?b"
      using Cons.prems(1,2) b(2) w e by (intro slice_wr_all_other) (auto simp: ascending_def)
    then show ?thesis using b(1) e by (simp add: w wr_all_Cons rd_def [of off n "wr_all ws _"])
        (simp add: rd_def [symmetric] rd_wr_same)
  qed
qed simp

text \<open>
  Stores in any order, each to a field that the reads below address as a whole or miss: the value
  read is the last one stored.
\<close>

definition last_store :: "(usize \<times> nat \<times> nat) list \<Rightarrow> usize \<Rightarrow> nat \<Rightarrow> nat option" where
  "last_store ws off m = map_of (rev (map (\<lambda>(o1, n, v). ((o1, n), v)) ws)) (off, m)"

lemma wr_all_append: "wr_all (xs @ ys) b = wr_all ys (wr_all xs b)"
  by (simp add: wr_all_def)

lemma wr_all_Nil [simp]: "wr_all [] b = b"
  by (simp add: wr_all_def)

lemma last_store_Nil [simp]: "last_store [] off m = None"
  by (simp add: last_store_def)

lemma last_store_append:
  "last_store (xs @ ys) off m = (case last_store ys off m of None \<Rightarrow> last_store xs off m | Some v \<Rightarrow> Some v)"
  by (simp add: last_store_def map_add_def split: option.splits)

lemma last_store_Cons:
  "last_store ((o1, n, v) # ws) off m =
    (case last_store ws off m of None \<Rightarrow> if o1 = off \<and> n = m then Some v else None | Some u \<Rightarrow> Some u)"
  using last_store_append [of "[(o1, n, v)]" ws off m] by (simp add: last_store_def split: option.splits)

lemma last_store_None: "\<forall>(o1, n, v) \<in> set ws. o1 \<noteq> off \<Longrightarrow> last_store ws off m = None"
  by (induction ws) (auto simp: last_store_Cons)

lemma last_store_mem: "last_store ws off m = Some v \<Longrightarrow> (off, m, v) \<in> set ws"
  by (induction ws) (auto simp: last_store_Cons split: option.splits if_splits)

lemma rd_wr_all_field:
  assumes "\<forall>(o1, n, v) \<in> set ws. o1 + n \<le> length b \<and> (o1 = off \<and> n = m \<or> o1 + n \<le> off \<or> off + m \<le> o1)"
    and "0 < m"
  shows "rd off m (wr_all ws b) = (case last_store ws off m of Some v \<Rightarrow> v mod 256 ^ m | None \<Rightarrow> rd off m b)"
  using assms(1)
proof (induction ws rule: rev_induct)
  case (snoc w ws)
  obtain o1 n v where w: "w = (o1, n, v)" by (cases w)
  have l: "length (wr_all ws b) = length b" using snoc.prems by (intro length_wr_all) auto
  have s: "wr_all (ws @ [w]) b = wr o1 n v (wr_all ws b)" by (simp add: w wr_all_append wr_all_Cons)
  show ?case
  proof (cases "o1 = off \<and> n = m")
    case True
    then have "rd off m (wr_all (ws @ [w]) b) = v mod 256 ^ m" unfolding s using snoc.prems l w by (simp add: rd_wr_same)
    then show ?thesis using True by (simp add: w last_store_append last_store_Cons)
  next
    case False
    then have "o1 + n \<le> length b" "off + m \<le> o1 \<or> o1 + n \<le> off" using snoc.prems w by auto
    then have "rd off m (wr o1 n v (wr_all ws b)) = rd off m (wr_all ws b)" using l by (simp add: rd_wr_other)
    then have "rd off m (wr_all (ws @ [w]) b) = rd off m (wr_all ws b)" by (simp only: s)
    then show ?thesis using snoc False by (auto simp: w last_store_append last_store_Cons split: option.splits)
  qed
qed simp

text \<open>\<open>r32\<close> and \<open>w32\<close> go through a range index, so they panic outside the buffer.\<close>

definition r32 :: "buf \<Rightarrow> usize \<Rightarrow> nat option" where
  "r32 b off = (if off + 4 \<le> length b then Some (rd off 4 b) else None)"

definition w32 :: "buf \<Rightarrow> usize \<Rightarrow> nat \<Rightarrow> buf option" where
  "w32 b off v = copy_at off (le_bytes 4 v) b"

lemma w32_in: "off + 4 \<le> length b \<Longrightarrow> w32 b off v = Some (wr off 4 v b)"
  by (simp add: w32_def copy_at_def wr_def)

lemma r32_in: "off + 4 \<le> length b \<Longrightarrow> r32 b off = Some (rd off 4 b)"
  by (simp add: r32_def)

section \<open>Fixed-width encodings of machine words\<close>

text \<open>
  The interface every scalar of the crate is stored through: an encoder of constant width and
  a decoder that recovers the value. The clients below are proved once from the two laws.
\<close>

locale fixed_codec =
  fixes enc :: "'v \<Rightarrow> byte list"
    and dec :: "byte list \<Rightarrow> 'v"
    and width :: nat
  assumes enc_length [simp]: "length (enc v) = width"
    and dec_enc [simp]: "dec (enc v) = v"
begin

lemma dec_stored: "off + width \<le> length b \<Longrightarrow> dec (bslice off width (bsplice off (enc v) b)) = v"
  by (simp add: slice_splice_same)

lemma dec_prefix: "dec (take width (enc v @ rest)) = v"
  by simp

lemma drop_prefix: "drop width (enc v @ rest) = rest"
  by simp

lemma enc_inj: "enc v = enc w \<Longrightarrow> v = w"
  using dec_enc by metis

end

definition word_le :: "nat \<Rightarrow> 'a::len word \<Rightarrow> byte list" where
  "word_le n w = le_bytes n (unat w)"

definition word_of_le :: "byte list \<Rightarrow> 'a::len word" where
  "word_of_le bs = word_of_nat (le_nat bs)"

lemma length_word_le [simp]: "length (word_le n w) = n"
  by (simp add: word_le_def)

lemma word_of_le_word_le:
  assumes "2 ^ LENGTH('a) \<le> (256::nat) ^ n"
  shows "word_of_le (word_le n (w::'a::len word)) = w"
proof -
  have "unat w < 256 ^ n" using unat_bound [of w] assms by linarith
  then show ?thesis by (simp add: word_of_le_def word_le_def le_simps)
qed

interpretation u8_codec: fixed_codec "word_le 1 :: byte \<Rightarrow> byte list" word_of_le 1
  by unfold_locales (simp_all add: word_of_le_word_le)

interpretation u16_codec: fixed_codec "word_le 2 :: u16 \<Rightarrow> byte list" word_of_le 2
  by unfold_locales (simp_all add: word_of_le_word_le)

interpretation u32_codec: fixed_codec "word_le 4 :: u32 \<Rightarrow> byte list" word_of_le 4
  by unfold_locales (simp_all add: word_of_le_word_le)

interpretation u64_codec: fixed_codec "word_le 8 :: u64 \<Rightarrow> byte list" word_of_le 8
  by unfold_locales (simp_all add: word_of_le_word_le)

end
