(* ===== verification/Schema.thy ===== *)
theory Schema
  imports Prelude
begin

text \<open>
  Values, column types and schemas of the memtable crate (\<open>probing/memtable/src/schema.rs\<close>):
  the tagged cell, its encoding on the buffer, the column type with its on-disk code, and the
  schema builder. A Rust \<open>&str\<close> is the list of its UTF-8 bytes; the floats are their IEEE bit
  patterns, since the code only ever moves their bytes.
\<close>

section \<open>Text\<close>

text \<open>
  \<open>std::str::from_utf8\<close>: the well-formed byte sequences of Unicode's table 3-7 (no overlong
  forms, no surrogates, nothing above U+10FFFF).
\<close>

definition cont_byte :: "byte \<Rightarrow> bool" where
  "cont_byte b \<longleftrightarrow> 0x80 \<le> b \<and> b \<le> 0xBF"

fun utf8_ok :: "byte list \<Rightarrow> bool" where
  "utf8_ok [] = True"
| "utf8_ok (a # bs) =
    (if a \<le> 0x7F then utf8_ok bs
     else (case bs of
        [] \<Rightarrow> False
      | b # bs1 \<Rightarrow>
          if 0xC2 \<le> a \<and> a \<le> 0xDF then cont_byte b \<and> utf8_ok bs1
          else (case bs1 of
             [] \<Rightarrow> False
           | c # bs2 \<Rightarrow>
               if 0xE0 \<le> a \<and> a \<le> 0xEF then
                 cont_byte b \<and> cont_byte c \<and> (a = 0xE0 \<longrightarrow> 0xA0 \<le> b) \<and> (a = 0xED \<longrightarrow> b \<le> 0x9F)
                   \<and> utf8_ok bs2
               else (case bs2 of
                  [] \<Rightarrow> False
                | d # bs3 \<Rightarrow>
                    0xF0 \<le> a \<and> a \<le> 0xF4 \<and> cont_byte b \<and> cont_byte c \<and> cont_byte d
                      \<and> (a = 0xF0 \<longrightarrow> 0x90 \<le> b) \<and> (a = 0xF4 \<longrightarrow> b \<le> 0x8F) \<and> utf8_ok bs3))))"

definition from_utf8 :: "byte list \<Rightarrow> byte list option" where
  "from_utf8 bs = (if utf8_ok bs then Some bs else None)"

definition str_bytes :: "string \<Rightarrow> byte list" where
  "str_bytes s = map of_char s"

section \<open>Column types\<close>

datatype DType = DU8 | DI32 | DI64 | DF32 | DF64 | DU64 | DU32 | DStr | DBytes

fun dtype_code :: "DType \<Rightarrow> nat" where
  "dtype_code DU8 = 1"
| "dtype_code DI32 = 2"
| "dtype_code DI64 = 3"
| "dtype_code DF32 = 4"
| "dtype_code DF64 = 5"
| "dtype_code DU64 = 6"
| "dtype_code DU32 = 7"
| "dtype_code DStr = 8"
| "dtype_code DBytes = 9"

fun fixed_size :: "DType \<Rightarrow> usize option" where
  "fixed_size DU8 = Some 1"
| "fixed_size DI32 = Some 4"
| "fixed_size DF32 = Some 4"
| "fixed_size DU32 = Some 4"
| "fixed_size DI64 = Some 8"
| "fixed_size DF64 = Some 8"
| "fixed_size DU64 = Some 8"
| "fixed_size DStr = None"
| "fixed_size DBytes = None"

definition is_fixed :: "DType \<Rightarrow> bool" where
  "is_fixed d = (fixed_size d \<noteq> None)"

definition dtype_from_u32 :: "nat \<Rightarrow> DType option" where
  "dtype_from_u32 v =
    (if v = 1 then Some DU8
     else if v = 2 then Some DI32
     else if v = 3 then Some DI64
     else if v = 4 then Some DF32
     else if v = 5 then Some DF64
     else if v = 6 then Some DU64
     else if v = 7 then Some DU32
     else if v = 8 then Some DStr
     else if v = 9 then Some DBytes
     else None)"

fun dtype_name :: "DType \<Rightarrow> string" where
  "dtype_name DU8 = ''u8''"
| "dtype_name DI32 = ''i32''"
| "dtype_name DI64 = ''i64''"
| "dtype_name DF32 = ''f32''"
| "dtype_name DF64 = ''f64''"
| "dtype_name DU64 = ''u64''"
| "dtype_name DU32 = ''u32''"
| "dtype_name DStr = ''str''"
| "dtype_name DBytes = ''bytes''"

section \<open>Values and their encoding\<close>

datatype Value =
    VU8 byte | VU32 u32 | VI32 i32 | VI64 i64 | VF32 f32 | VF64 f64 | VU64 u64
  | VStr "byte list" | VBytes "byte list"

fun value_dtype :: "Value \<Rightarrow> DType" where
  "value_dtype (VU8 _) = DU8"
| "value_dtype (VU32 _) = DU32"
| "value_dtype (VI32 _) = DI32"
| "value_dtype (VI64 _) = DI64"
| "value_dtype (VF32 _) = DF32"
| "value_dtype (VF64 _) = DF64"
| "value_dtype (VU64 _) = DU64"
| "value_dtype (VStr _) = DStr"
| "value_dtype (VBytes _) = DBytes"

fun encoded_size :: "Value \<Rightarrow> usize" where
  "encoded_size (VU8 _) = 1"
| "encoded_size (VU32 _) = 4"
| "encoded_size (VI32 _) = 4"
| "encoded_size (VF32 _) = 4"
| "encoded_size (VI64 _) = 8"
| "encoded_size (VF64 _) = 8"
| "encoded_size (VU64 _) = 8"
| "encoded_size (VStr s) = 4 + length s"
| "encoded_size (VBytes b) = 4 + length b"

fun value_bytes :: "Value \<Rightarrow> byte list" where
  "value_bytes (VU8 v) = [v]"
| "value_bytes (VU32 v) = word_le 4 v"
| "value_bytes (VI32 v) = word_le 4 v"
| "value_bytes (VI64 v) = word_le 8 v"
| "value_bytes (VF32 v) = word_le 4 v"
| "value_bytes (VF64 v) = word_le 8 v"
| "value_bytes (VU64 v) = word_le 8 v"
| "value_bytes (VStr s) = le_bytes 4 (length s) @ s"
| "value_bytes (VBytes b) = le_bytes 4 (length b) @ b"

text \<open>\<open>v.encode(&mut b[off..])\<close>: write the bytes, return the count; panics when they do not fit.\<close>

definition encode_at :: "Value \<Rightarrow> usize \<Rightarrow> buf \<Rightarrow> (buf \<times> usize) option" where
  "encode_at v off b = do { b' \<leftarrow> copy_at off (value_bytes v) b; Some (b', length (value_bytes v)) }"

section \<open>Schemas\<close>

record Col =
  col_name :: "byte list"
  col_dtype :: DType
  col_elem_size :: usize
  col_doc :: "byte list option"

record Schema =
  cols :: "Col list"
  table_doc :: "byte list option"

definition schema_new :: Schema where
  "schema_new = \<lparr>cols = [], table_doc = None\<rparr>"

definition schema_table_doc :: "Schema \<Rightarrow> byte list \<Rightarrow> Schema" where
  "schema_table_doc s doc = s\<lparr>table_doc := Some doc\<rparr>"

definition push_col :: "Schema \<Rightarrow> byte list \<Rightarrow> DType \<Rightarrow> byte list option \<Rightarrow> Schema" where
  "push_col s name d doc =
    (let elem_size = (case fixed_size d of Some n \<Rightarrow> n | None \<Rightarrow> 0)
     in s\<lparr>cols := cols s @
          [\<lparr>col_name = name, col_dtype = d, col_elem_size = elem_size, col_doc = doc\<rparr>]\<rparr>)"

definition schema_col :: "Schema \<Rightarrow> byte list \<Rightarrow> DType \<Rightarrow> Schema" where
  "schema_col s name d = push_col s name d None"

definition schema_col_doc :: "Schema \<Rightarrow> byte list \<Rightarrow> DType \<Rightarrow> byte list \<Rightarrow> Schema" where
  "schema_col_doc s name d doc = push_col s name d (Some doc)"

section \<open>Lemmas\<close>

lemma dtype_from_u32_code [simp]: "dtype_from_u32 (dtype_code d) = Some d"
  by (cases d) (simp_all add: dtype_from_u32_def)

lemma dtype_from_u32_Some: "dtype_from_u32 v = Some d \<longleftrightarrow> v = dtype_code d"
  by (cases d) (auto simp: dtype_from_u32_def split: if_splits)

lemma dtype_code_range: "1 \<le> dtype_code d \<and> dtype_code d \<le> 9"
  by (cases d) auto

lemma dtype_from_u32_defined: "dtype_from_u32 v \<noteq> None \<longleftrightarrow> 1 \<le> v \<and> v \<le> 9"
proof
  assume "dtype_from_u32 v \<noteq> None"
  then show "1 \<le> v \<and> v \<le> 9" using dtype_code_range by (auto simp: dtype_from_u32_Some)
next
  assume "1 \<le> v \<and> v \<le> 9"
  then have "v = 1 \<or> v = 2 \<or> v = 3 \<or> v = 4 \<or> v = 5 \<or> v = 6 \<or> v = 7 \<or> v = 8 \<or> v = 9" by linarith
  then show "dtype_from_u32 v \<noteq> None" by (auto simp: dtype_from_u32_def)
qed

lemma length_value_bytes [simp]: "length (value_bytes v) = encoded_size v"
  by (cases v) simp_all

lemma encoded_size_pos: "0 < encoded_size v"
  by (cases v) simp_all

lemma fixed_size_encoded: "fixed_size (value_dtype v) = Some n \<Longrightarrow> encoded_size v = n"
  by (cases v) auto

lemma fixed_size_pos: "fixed_size d = Some n \<Longrightarrow> 0 < n \<and> n \<le> 8"
  by (cases d) auto

lemma encode_at_eq_Some:
  "encode_at v off b = Some r \<longleftrightarrow>
    off + encoded_size v \<le> length b \<and> r = (bsplice off (value_bytes v) b, encoded_size v)"
  by (cases "off + encoded_size v \<le> length b") (auto simp: encode_at_def copy_at_def)

lemma cols_push_col:
  "cols (push_col s name d doc) = cols s @
     [\<lparr>col_name = name, col_dtype = d, col_elem_size = (case fixed_size d of Some n \<Rightarrow> n | None \<Rightarrow> 0),
       col_doc = doc\<rparr>]"
  by (simp add: push_col_def)

end
