(* ===== verification/Layout.thy ===== *)
theory Layout
  imports Schema
begin

text \<open>
  The on-buffer layout of a MEMT table (\<open>probing/memtable/src/layout.rs\<close>, version 5): the
  128-byte header, the 64-byte column descriptors, the reader leases (16 slots of 16 bytes per
  chunk) and the chunks, each opened by a 40-byte chunk header. A \<open>repr(C)\<close> structure is a record
  read from its byte offsets; a store to one field is the corresponding write. The projections
  carry the code's \<open>debug_assert!\<close> bounds as preconditions of the lemmas about them.
\<close>

section \<open>Constants\<close>

definition MAGIC_MEMT :: nat where "MAGIC_MEMT = 0x4D454D54"
definition VERSION :: nat where "VERSION = 5"
definition READER_LEASE_SLOTS :: nat where "READER_LEASE_SLOTS = 16"
definition BYTE_ORDER_MARK :: "byte list" where "BYTE_ORDER_MARK = [0x01, 0x02]"
definition FLAG_DEDUP :: nat where "FLAG_DEDUP = 1"
definition FLAGS_KNOWN :: nat where "FLAGS_KNOWN = FLAG_DEDUP"
definition HEADER_SIZE :: nat where "HEADER_SIZE = 128"
definition COLUMN_DESC_SIZE :: nat where "COLUMN_DESC_SIZE = 64"
definition CHUNK_HEADER_SIZE :: nat where "CHUNK_HEADER_SIZE = 40"
definition READER_LEASE_SIZE :: nat where "READER_LEASE_SIZE = 16"
definition HEADER_ALIGN :: nat where "HEADER_ALIGN = 8"
definition TS_MIN_INIT :: i64 where "TS_MIN_INIT = 0x7FFFFFFFFFFFFFFF"
definition TS_MAX_INIT :: i64 where "TS_MAX_INIT = 0x8000000000000000"

text \<open>\<open>u16::from_ne_bytes(BYTE_ORDER_MARK)\<close> on the little-endian hosts the crate runs on.\<close>

definition bom_value :: nat where "bom_value = le_nat BYTE_ORDER_MARK"

lemmas layout_consts =
  MAGIC_MEMT_def VERSION_def READER_LEASE_SLOTS_def FLAG_DEDUP_def FLAGS_KNOWN_def HEADER_SIZE_def
  COLUMN_DESC_SIZE_def CHUNK_HEADER_SIZE_def READER_LEASE_SIZE_def HEADER_ALIGN_def

section \<open>Structures\<close>

record Header =
  magic :: nat
  version :: nat
  header_size :: nat
  byte_order :: nat
  ts_col :: nat
  flags :: nat
  num_cols :: nat
  num_chunks :: nat
  chunk_size :: nat
  data_offset :: nat
  write_chunk :: nat
  refcount :: nat
  creator_pid :: nat
  pad0 :: nat
  creator_start_time :: nat
  chunks_recycled :: nat
  rows_overwritten :: nat
  lease_offset :: nat
  lease_slots :: nat
  instance_id :: nat
  writes_blocked :: nat
  reader_lease_failures :: nat

definition header :: "buf \<Rightarrow> Header" where
  "header b = \<lparr>
     magic = rd 0 4 b, version = rd 4 2 b, header_size = rd 6 2 b, byte_order = rd 8 2 b,
     ts_col = rd 10 2 b, flags = rd 12 4 b, num_cols = rd 16 4 b, num_chunks = rd 20 4 b,
     chunk_size = rd 24 4 b, data_offset = rd 28 4 b, write_chunk = rd 32 4 b,
     refcount = rd 36 4 b, creator_pid = rd 40 4 b, pad0 = rd 44 4 b,
     creator_start_time = rd 48 8 b, chunks_recycled = rd 56 4 b, rows_overwritten = rd 60 4 b,
     lease_offset = rd 64 4 b, lease_slots = rd 68 4 b, instance_id = rd 72 8 b,
     writes_blocked = rd 80 8 b, reader_lease_failures = rd 88 8 b\<rparr>"

definition checked_header :: "nat \<Rightarrow> buf \<Rightarrow> Header option" where
  "checked_header addr b =
    (if length b < HEADER_SIZE \<or> addr mod HEADER_ALIGN \<noteq> 0 then None
     else (let h = header b in
       if magic h = MAGIC_MEMT \<and> version h = VERSION \<and> HEADER_SIZE \<le> header_size h
       then Some h else None))"

definition ring_overwrite_stats :: "nat \<Rightarrow> buf \<Rightarrow> nat \<times> nat" where
  "ring_overwrite_stats addr b =
    (case checked_header addr b of None \<Rightarrow> (0, 0) | Some h \<Rightarrow> (chunks_recycled h, rows_overwritten h))"

record ColumnDesc =
  cd_name :: "byte list"
  cd_dtype :: nat
  cd_elem_size :: nat

definition col_desc_off :: "usize \<Rightarrow> usize" where
  "col_desc_off i = HEADER_SIZE + i * COLUMN_DESC_SIZE"

definition col_desc :: "buf \<Rightarrow> usize \<Rightarrow> ColumnDesc" where
  "col_desc b i = (let off = col_desc_off i in
     \<lparr>cd_name = bslice off 56 b, cd_dtype = rd (off + 56) 4 b, cd_elem_size = rd (off + 60) 4 b\<rparr>)"

text \<open>\<open>name_str\<close> slices the 56-byte array, so a stored length above 54 panics.\<close>

definition name_str :: "ColumnDesc \<Rightarrow> byte list option" where
  "name_str cd = (let len = rd 0 2 (cd_name cd) in
     if len = 0 then Some []
     else do {
       bs \<leftarrow> get_range (cd_name cd) 2 (2 + len);
       Some (case from_utf8 bs of Some s \<Rightarrow> s | None \<Rightarrow> [])
     })"

definition set_name :: "byte list \<Rightarrow> byte list" where
  "set_name s = (let n = min (length s) 54 in
     bsplice 2 (take n s) (bsplice 0 (le_bytes 2 n) (replicate 56 0)))"

record ChunkHeader =
  generation :: nat
  used :: nat
  row_count :: nat
  state :: nat
  min_ts :: i64
  max_ts :: i64

definition chunk_header :: "buf \<Rightarrow> usize \<Rightarrow> ChunkHeader" where
  "chunk_header b cs = \<lparr>
     generation = rd cs 8 b, used = rd (cs + 8) 4 b, row_count = rd (cs + 12) 4 b,
     state = rd (cs + 16) 4 b,
     min_ts = word_of_nat (rd (cs + 24) 8 b), max_ts = word_of_nat (rd (cs + 32) 8 b)\<rparr>"

datatype ChunkState = Empty | Writing | Sealed

fun chunk_state_code :: "ChunkState \<Rightarrow> nat" where
  "chunk_state_code Empty = 0"
| "chunk_state_code Writing = 1"
| "chunk_state_code Sealed = 2"

record ReaderLease =
  lease_state :: u64
  owner_start_time :: u64

definition reader_lease_off :: "buf \<Rightarrow> usize \<Rightarrow> usize \<Rightarrow> usize" where
  "reader_lease_off b chunk slot =
     lease_offset (header b) + (chunk * lease_slots (header b) + slot) * READER_LEASE_SIZE"

definition reader_lease :: "buf \<Rightarrow> usize \<Rightarrow> usize \<Rightarrow> ReaderLease" where
  "reader_lease b chunk slot = (let off = reader_lease_off b chunk slot in
     \<lparr>lease_state = word_of_nat (rd off 8 b), owner_start_time = word_of_nat (rd (off + 8) 8 b)\<rparr>)"

section \<open>Offsets\<close>

text \<open>\<open>n & !63\<close>.\<close>

definition clear_low6 :: "usize \<Rightarrow> usize" where
  "clear_low6 n = push_bit 6 (drop_bit 6 n)"

definition align64 :: "usize \<Rightarrow> usize" where
  "align64 n = clear_low6 (n + 63)"

definition checked_lease_offset :: "usize \<Rightarrow> usize option" where
  "checked_lease_offset ncols = do {
     c \<leftarrow> checked_mul COLUMN_DESC_SIZE ncols;
     bytes \<leftarrow> checked_add HEADER_SIZE c;
     bytes \<leftarrow> checked_add bytes 63;
     Some (clear_low6 bytes)
   }"

definition checked_data_offset :: "usize \<Rightarrow> usize \<Rightarrow> usize option" where
  "checked_data_offset ncols nchunks = do {
     lease_off \<leftarrow> checked_lease_offset ncols;
     a \<leftarrow> checked_mul READER_LEASE_SIZE READER_LEASE_SLOTS;
     a \<leftarrow> checked_mul a nchunks;
     a \<leftarrow> checked_add a lease_off;
     a \<leftarrow> checked_add a 63;
     Some (clear_low6 a)
   }"

text \<open>\<open>compute_data_offset\<close> panics where the checked form fails.\<close>

definition compute_data_offset :: "usize \<Rightarrow> usize \<Rightarrow> usize option" where
  "compute_data_offset ncols nchunks = checked_data_offset ncols nchunks"

definition chunk_start_off :: "buf \<Rightarrow> usize \<Rightarrow> usize" where
  "chunk_start_off b chunk = data_offset (header b) + chunk * chunk_size (header b)"

section \<open>Lemmas\<close>

lemmas header_simps = header_def
lemmas chunk_header_simps = chunk_header_def

lemma clear_low6_eq: "clear_low6 n = n div 64 * 64"
  by (simp add: clear_low6_def push_bit_eq_mult drop_bit_eq_div)

lemma clear_low6_bounds: "clear_low6 n \<le> n \<and> n < clear_low6 n + 64 \<and> clear_low6 n mod 64 = 0"
proof -
  have "n mod 64 < 64" by simp
  with div_mult_mod_eq [of n 64] have "n < n div 64 * 64 + 64" by linarith
  then show ?thesis by (simp add: clear_low6_eq)
qed

lemma align64_bounds: "n \<le> align64 n \<and> align64 n < n + 64 \<and> align64 n mod 64 = 0"
  using clear_low6_bounds [of "n + 63"] by (simp add: align64_def)

lemma checked_lease_offset_eq_Some:
  "checked_lease_offset nc = Some off \<longleftrightarrow>
    off = align64 (128 + 64 * nc) \<and> 128 + 64 * nc + 63 < 2 ^ 64"
  by (auto simp: checked_lease_offset_def bind_eq_Some_conv layout_consts align64_def)

lemma checked_data_offset_eq_Some:
  "checked_data_offset nc n = Some off \<longleftrightarrow>
    off = align64 (256 * n + align64 (128 + 64 * nc)) \<and> 128 + 64 * nc + 63 < 2 ^ 64 \<and>
    256 * n + align64 (128 + 64 * nc) + 63 < 2 ^ 64"
  by (auto simp: checked_data_offset_def bind_eq_Some_conv checked_lease_offset_eq_Some
      layout_consts align64_def)

lemma length_set_name [simp]: "length (set_name s) = 56"
  by (simp add: set_name_def Let_def)

lemma rd_set_name: "rd 0 2 (set_name s) = min (length s) 54"
proof -
  have "min (length s) 54 < 256 ^ 2" by (simp add: min_def)
  then have "le_nat (le_bytes 2 (min (length s) 54)) = min (length s) 54" by (simp add: le_simps)
  then show ?thesis
    by (simp add: set_name_def Let_def rd_def bslice_def bsplice_def del: le_bytes.simps)
qed

lemma slice_set_name: "bslice 2 (min (length s) 54) (set_name s) = take (min (length s) 54) s"
  by (simp add: set_name_def Let_def bslice_def bsplice_def)

lemma chunk_start_off_eq:
  "chunk_start_off b i = rd 28 4 b + i * rd 24 4 b"
  by (simp add: chunk_start_off_def header_def)

section \<open>Geometry\<close>

text \<open>
  \<open>table_geom\<close> is the part of \<open>validate_buf\<close> that fixes where things are: it places the column
  descriptors, the leases and the chunks one after the other inside the buffer. \<open>cold_eq\<close> says that
  an operation left length, cold header zone, lease layout and column descriptors alone, so the
  geometry and the schema survive it.
\<close>

definition table_geom :: "buf \<Rightarrow> bool" where
  "table_geom b \<longleftrightarrow> (let h = header b in
     HEADER_SIZE \<le> length b \<and> 0 < num_chunks h \<and> CHUNK_HEADER_SIZE + 8 \<le> chunk_size h \<and>
     chunk_size h mod 8 = 0 \<and> lease_slots h = READER_LEASE_SLOTS \<and>
     lease_offset h = align64 (HEADER_SIZE + COLUMN_DESC_SIZE * num_cols h) \<and>
     data_offset h = align64 (256 * num_chunks h + lease_offset h) \<and>
     data_offset h + chunk_size h * num_chunks h \<le> length b)"

definition cold_eq :: "buf \<Rightarrow> buf \<Rightarrow> bool" where
  "cold_eq b b' \<longleftrightarrow> length b' = length b \<and> bslice 0 32 b' = bslice 0 32 b \<and>
     bslice 64 8 b' = bslice 64 8 b \<and>
     bslice 128 (64 * num_cols (header b)) b' = bslice 128 (64 * num_cols (header b)) b"

lemma table_geomD:
  assumes "table_geom b"
  shows "128 \<le> length b" "0 < rd 20 4 b" "48 \<le> rd 24 4 b" "rd 68 4 b = 16"
    "128 + 64 * rd 16 4 b \<le> rd 64 4 b" "rd 64 4 b + 256 * rd 20 4 b \<le> rd 28 4 b"
    "rd 28 4 b + rd 24 4 b * rd 20 4 b \<le> length b" "rd 24 4 b mod 8 = 0"
  using assms align64_bounds [of "128 + 64 * rd 16 4 b"]
    align64_bounds [of "256 * rd 20 4 b + rd 64 4 b"]
  by (auto simp: table_geom_def Let_def header_def layout_consts)

lemma chunk_bounds:
  assumes "table_geom b" "i < num_chunks (header b)"
  shows "192 \<le> chunk_start_off b i"
    "lease_offset (header b) + 256 * num_chunks (header b) \<le> chunk_start_off b i"
    "chunk_start_off b i + chunk_size (header b) \<le> length b"
proof -
  note g = table_geomD [OF assms(1)]
  have i: "i < rd 20 4 b" using assms(2) by (simp add: header_def)
  show "192 \<le> chunk_start_off b i" using g i by (simp add: chunk_start_off_eq)
  show "lease_offset (header b) + 256 * num_chunks (header b) \<le> chunk_start_off b i"
    using g by (simp add: chunk_start_off_eq header_def)
  show "chunk_start_off b i + chunk_size (header b) \<le> length b"
    using g block_end_le [OF i, of "rd 24 4 b"] by (simp add: chunk_start_off_eq header_def)
qed

lemma chunk_apart:
  assumes "i \<noteq> j"
  shows "chunk_start_off b i + chunk_size (header b) \<le> chunk_start_off b j \<or>
         chunk_start_off b j + chunk_size (header b) \<le> chunk_start_off b i"
  using block_disjoint [OF assms, of "rd 24 4 b"] by (auto simp: chunk_start_off_eq header_def)

lemma lease_bounds:
  assumes "table_geom b" "chunk < num_chunks (header b)" "slot < lease_slots (header b)"
  shows "128 + 64 * num_cols (header b) \<le> reader_lease_off b chunk slot"
    "reader_lease_off b chunk slot + 16 \<le> lease_offset (header b) + 256 * num_chunks (header b)"
    "reader_lease_off b chunk slot + 16 \<le> length b"
proof -
  note g = table_geomD [OF assms(1)]
  have c: "Suc chunk \<le> rd 20 4 b" using assms(2) by (simp add: header_def)
  have s: "slot < 16" using assms(3) g(4) by (simp add: header_def)
  have off: "reader_lease_off b chunk slot = rd 64 4 b + (chunk * 16 + slot) * 16"
    using g(4) by (simp add: reader_lease_off_def header_def layout_consts)
  show "128 + 64 * num_cols (header b) \<le> reader_lease_off b chunk slot"
    using g by (simp add: off header_def)
  show le: "reader_lease_off b chunk slot + 16 \<le> lease_offset (header b) + 256 * num_chunks (header b)"
    using c s by (simp add: off header_def)
  show "reader_lease_off b chunk slot + 16 \<le> length b"
    using le g by (simp add: header_def)
qed

lemma cold_eq_refl [simp]: "cold_eq b b"
  by (simp add: cold_eq_def)

lemma cold_eq_rd:
  assumes "cold_eq b b'"
  shows "off + n \<le> 32 \<Longrightarrow> rd off n b' = rd off n b"
    and "rd 64 4 b' = rd 64 4 b" and "rd 68 4 b' = rd 68 4 b"
proof -
  assume "off + n \<le> 32"
  then show "rd off n b' = rd off n b"
    using assms rd_slice [of off n 32 0 b] rd_slice [of off n 32 0 b'] by (simp add: cold_eq_def)
next
  show "rd 64 4 b' = rd 64 4 b"
    using assms rd_slice [of 0 4 8 64 b] rd_slice [of 0 4 8 64 b'] by (simp add: cold_eq_def)
  show "rd 68 4 b' = rd 68 4 b"
    using assms rd_slice [of 4 4 8 64 b] rd_slice [of 4 4 8 64 b'] by (simp add: cold_eq_def)
qed

lemma cold_eq_header:
  assumes "cold_eq b b'"
  shows "num_cols (header b') = num_cols (header b)" "num_chunks (header b') = num_chunks (header b)"
    "chunk_size (header b') = chunk_size (header b)" "data_offset (header b') = data_offset (header b)"
    "lease_offset (header b') = lease_offset (header b)" "lease_slots (header b') = lease_slots (header b)"
    "ts_col (header b') = ts_col (header b)" "flags (header b') = flags (header b)"
    "magic (header b') = magic (header b)" "version (header b') = version (header b)"
    "header_size (header b') = header_size (header b)" "byte_order (header b') = byte_order (header b)"
  using assms by (simp_all add: header_def cold_eq_rd [OF assms])

lemma cold_eq_length: "cold_eq b b' \<Longrightarrow> length b' = length b"
  by (simp add: cold_eq_def)

lemma cold_eq_trans:
  assumes "cold_eq a b" "cold_eq b c"
  shows "cold_eq a c"
  using assms(1) assms(2) [unfolded cold_eq_def cold_eq_header(1) [OF assms(1)]]
  unfolding cold_eq_def by metis

lemma cold_eq_geom: "cold_eq b b' \<Longrightarrow> table_geom b' = table_geom b"
  by (simp add: table_geom_def Let_def cold_eq_header cold_eq_length)

lemma cold_eq_chunk_start: "cold_eq b b' \<Longrightarrow> chunk_start_off b' i = chunk_start_off b i"
  by (simp add: chunk_start_off_def cold_eq_header)

lemma cold_eq_lease_off: "cold_eq b b' \<Longrightarrow> reader_lease_off b' c s = reader_lease_off b c s"
  by (simp add: reader_lease_off_def cold_eq_header)

lemma cold_eq_col_desc:
  assumes "cold_eq b b'" "i < num_cols (header b)"
  shows "col_desc b' i = col_desc b i"
proof -
  let ?n = "64 * num_cols (header b)"
  have s: "bslice 128 ?n b' = bslice 128 ?n b" using assms(1) by (simp add: cold_eq_def)
  have e: "i * 64 + 64 \<le> ?n" using block_end_le [OF assms(2), of 64] by simp
  have "bslice (128 + i * 64) 56 b' = bslice (128 + i * 64) 56 b"
    using e slice_slice [of "i * 64" 56 ?n 128 b] slice_slice [of "i * 64" 56 ?n 128 b'] s by simp
  moreover have "rd (128 + (i * 64 + k)) 4 b' = rd (128 + (i * 64 + k)) 4 b" if "k + 4 \<le> 64" for k
    using that e rd_slice [of "i * 64 + k" 4 ?n 128 b] rd_slice [of "i * 64 + k" 4 ?n 128 b'] s by simp
  from this [of 56] this [of 60] show ?thesis
    using calculation by (simp add: col_desc_def Let_def col_desc_off_def layout_consts add.assoc)
qed

lemma cold_eq_splice:
  assumes "off + length bs \<le> length b"
    and "128 + 64 * num_cols (header b) \<le> off \<or> 32 \<le> off \<and> off + length bs \<le> 64
       \<or> 72 \<le> off \<and> off + length bs \<le> 128"
  shows "cold_eq b (bsplice off bs b)"
  using assms by (auto simp: cold_eq_def slice_splice_other)

lemma cold_eq_wr:
  assumes "off + n \<le> length b"
    and "128 + 64 * num_cols (header b) \<le> off \<or> 32 \<le> off \<and> off + n \<le> 64 \<or> 72 \<le> off \<and> off + n \<le> 128"
  shows "cold_eq b (wr off n v b)"
  using assms unfolding wr_def by (intro cold_eq_splice) auto

end
