(* ===== verification/Lease.thy ===== *)
theory Lease
  imports Layout
begin

text \<open>
  Reader leases (\<open>probing/memtable/src/row.rs\<close> lines 126-412, with \<open>process_instance_alive\<close> of
  \<open>raw.rs\<close>): the packed 64-bit lease word, acquiring and releasing a process lease, the
  writer's scan for live leases with its reclaim of dead owners, pinning a chunk and re-adopting a
  pin after \<open>fork\<close>. The operations are modelled run to completion by one process, so a
  compare-and-swap on a word just loaded succeeds. The operating system is a parameter: the
  caller's pid, which pids exist and when a process started.
\<close>

unbundle bit_operations_syntax

section \<open>Processes\<close>

record os =
  current_process_id :: u32
  process_exists :: "u32 \<Rightarrow> bool"
  process_start_time :: "u32 \<Rightarrow> u64"

definition process_instance_alive :: "os \<Rightarrow> u32 \<Rightarrow> u64 \<Rightarrow> bool" where
  "process_instance_alive os pid expected_start_time =
    (if \<not> process_exists os pid then False
     else if expected_start_time = 0 then True
     else (let actual = process_start_time os pid in actual = 0 \<or> actual = expected_start_time))"

section \<open>The lease word\<close>

definition pack_lease :: "u32 \<Rightarrow> u32 \<Rightarrow> u64" where
  "pack_lease owner_pid refs = push_bit 32 (ucast owner_pid) OR ucast refs"

definition lease_parts :: "u64 \<Rightarrow> u32 \<times> u32" where
  "lease_parts st = (ucast (drop_bit 32 st), ucast st)"

definition store_state :: "buf \<Rightarrow> usize \<Rightarrow> usize \<Rightarrow> u64 \<Rightarrow> buf" where
  "store_state b chunk slot v = wr (reader_lease_off b chunk slot) 8 (unat v) b"

definition store_owner_start :: "buf \<Rightarrow> usize \<Rightarrow> usize \<Rightarrow> u64 \<Rightarrow> buf" where
  "store_owner_start b chunk slot v = wr (reader_lease_off b chunk slot + 8) 8 (unat v) b"

definition release_process_lease :: "buf \<Rightarrow> usize \<Rightarrow> usize \<Rightarrow> u32 \<Rightarrow> buf" where
  "release_process_lease b chunk slot owner_pid =
    (let (owner, refs) = lease_parts (lease_state (reader_lease b chunk slot)) in
     if owner \<noteq> owner_pid \<or> refs = 0 then b
     else store_state b chunk slot (if refs = 1 then 0 else pack_lease owner (refs - 1)))"

section \<open>Acquiring\<close>

text \<open>
  The claim of a free slot publishes the pid with no references, then the start time, then the
  first reference.
\<close>

definition claim_slot :: "os \<Rightarrow> buf \<Rightarrow> usize \<Rightarrow> usize \<Rightarrow> buf" where
  "claim_slot os b chunk slot =
    (let pid = current_process_id os;
         b1 = store_state b chunk slot (pack_lease pid 0);
         b2 = store_owner_start b1 chunk slot (process_start_time os pid)
     in store_state b2 chunk slot (pack_lease pid 1))"

datatype slot_outcome = Acquired buf | NextSlot buf | GiveUp

text \<open>
  One slot of the search. Clearing a stale word and \<open>continue\<close> re-enters the loop on a zero word,
  which is the claim.
\<close>

definition acquire_slot :: "os \<Rightarrow> buf \<Rightarrow> usize \<Rightarrow> usize \<Rightarrow> slot_outcome" where
  "acquire_slot os b chunk slot =
    (let pid = current_process_id os;
         start_time = process_start_time os pid;
         st = lease_state (reader_lease b chunk slot);
         recorded_start = owner_start_time (reader_lease b chunk slot);
         (owner, refs) = lease_parts st
     in if owner = pid \<and> 0 < refs then
          (if recorded_start \<noteq> start_time then
             (if recorded_start \<noteq> 0 \<and> start_time \<noteq> 0
              then Acquired (claim_slot os (store_state b chunk slot 0) chunk slot)
              else NextSlot b)
           else if refs = -1 then GiveUp
           else Acquired (store_state b chunk slot (pack_lease pid (refs + 1))))
        else if st = 0 then Acquired (claim_slot os b chunk slot)
        else if (if refs = 0 then \<not> process_exists os owner
                 else \<not> process_instance_alive os owner recorded_start)
             then Acquired (claim_slot os (store_state b chunk slot 0) chunk slot)
             else NextSlot b)"

fun acquire_slots :: "os \<Rightarrow> buf \<Rightarrow> usize \<Rightarrow> usize list \<Rightarrow> (usize \<times> buf) option" where
  "acquire_slots os b chunk [] = None"
| "acquire_slots os b chunk (slot # slots) =
    (case acquire_slot os b chunk slot of
       Acquired b' \<Rightarrow> Some (slot, b')
     | NextSlot b' \<Rightarrow> acquire_slots os b' chunk slots
     | GiveUp \<Rightarrow> None)"

definition acquire_process_lease :: "os \<Rightarrow> buf \<Rightarrow> usize \<Rightarrow> (usize \<times> buf) option" where
  "acquire_process_lease os b chunk = acquire_slots os b chunk [0..<lease_slots (header b)]"

section \<open>The writer's scan\<close>

definition lease_live :: "os \<Rightarrow> ReaderLease \<Rightarrow> bool" where
  "lease_live os l = (let (owner, refs) = lease_parts (lease_state l) in
     lease_state l \<noteq> 0 \<and>
     (refs = 0 \<and> process_exists os owner \<or>
      0 < refs \<and> process_instance_alive os owner (owner_start_time l)))"

fun scan_slots :: "os \<Rightarrow> buf \<Rightarrow> usize \<Rightarrow> usize list \<Rightarrow> bool \<Rightarrow> bool \<times> buf" where
  "scan_slots os b chunk [] live = (live, b)"
| "scan_slots os b chunk (slot # slots) live =
    (let l = reader_lease b chunk slot in
     if lease_state l = 0 then scan_slots os b chunk slots live
     else if lease_live os l then scan_slots os b chunk slots True
     else scan_slots os (store_state b chunk slot 0) chunk slots live)"

definition chunk_has_live_leases :: "os \<Rightarrow> buf \<Rightarrow> usize \<Rightarrow> bool \<times> buf" where
  "chunk_has_live_leases os b chunk = scan_slots os b chunk [0..<lease_slots (header b)] False"

section \<open>Pins\<close>

datatype MemtableError = InvalidBuffer string | ReaderLeaseExhausted | NotFileBacked

record ChunkReadPin =
  pin_slot :: usize
  pin_owner_pid :: u32
  pin_chunk_index :: usize
  pin_chunk_start :: usize
  pin_generation :: nat

type_synonym pin_snapshot = "ChunkReadPin \<times> nat \<times> usize"

text \<open>
  The retry loop of \<open>pin_chunk\<close>. The second read of state and generation is a parameter pair
  \<open>(state_after, generation_after)\<close> supplied per attempt by \<open>after\<close>: what another thread may have
  stored in between. \<open>chunk_pins\<close> without interference passes the values just read.
\<close>

fun pin_attempts ::
  "os \<Rightarrow> (nat \<Rightarrow> buf \<Rightarrow> nat \<times> nat) \<Rightarrow> buf \<Rightarrow> usize \<Rightarrow> usize \<Rightarrow> usize \<Rightarrow> nat \<Rightarrow>
   (MemtableError + pin_snapshot option) \<times> buf" where
  "pin_attempts os after b chunk cs cap 0 = (Inr None, b)"
| "pin_attempts os after b chunk cs cap (Suc n) =
    (let state_before = state (chunk_header b cs);
         generation_before = generation (chunk_header b cs)
     in if state_before = chunk_state_code Empty then (Inr None, b)
        else (case acquire_process_lease os b chunk of
          None \<Rightarrow> (Inl ReaderLeaseExhausted, b)
        | Some (slot, b1) \<Rightarrow>
            (let (state_after, generation_after) = after n b1;
                 u = used (chunk_header b1 cs)
             in if state_before = state_after \<and> state_after \<noteq> chunk_state_code Empty
                   \<and> generation_before = generation_after \<and> u \<le> cap
                then (Inr (Some (\<lparr>pin_slot = slot, pin_owner_pid = current_process_id os,
                       pin_chunk_index = chunk, pin_chunk_start = cs,
                       pin_generation = generation_after\<rparr>, generation_after, u)), b1)
                else pin_attempts os after
                       (release_process_lease b1 chunk slot (current_process_id os)) chunk cs cap n)))"

definition pin_chunk_with ::
  "os \<Rightarrow> (nat \<Rightarrow> buf \<Rightarrow> nat \<times> nat) \<Rightarrow> buf \<Rightarrow> usize \<Rightarrow> (MemtableError + pin_snapshot option) \<times> buf" where
  "pin_chunk_with os after b cs =
    (case checked_sub cs (data_offset (header b)) of
       None \<Rightarrow> (Inl (InvalidBuffer ''chunk starts before data region''), b)
     | Some off \<Rightarrow>
         (case checked_sub (chunk_size (header b)) CHUNK_HEADER_SIZE of
            None \<Rightarrow> (Inl (InvalidBuffer ''chunk payload capacity underflow''), b)
          | Some cap \<Rightarrow> pin_attempts os after b (off div chunk_size (header b)) cs cap 64))"

definition pin_chunk :: "os \<Rightarrow> buf \<Rightarrow> usize \<Rightarrow> (MemtableError + pin_snapshot option) \<times> buf" where
  "pin_chunk os b cs =
     pin_chunk_with os (\<lambda>_ b1. (state (chunk_header b1 cs), generation (chunk_header b1 cs))) b cs"

definition drop_pin :: "os \<Rightarrow> buf \<Rightarrow> ChunkReadPin \<Rightarrow> buf" where
  "drop_pin os b p =
    (if pin_owner_pid p \<noteq> current_process_id os then b
     else release_process_lease b (pin_chunk_index p) (pin_slot p) (current_process_id os))"

text \<open>
  \<open>ensure_current_process\<close>: owner 0 marks an adoption in progress in another thread, on which the
  loop spins (\<^term>\<open>None\<close>: no result while that thread does not move); \<open>u32::MAX\<close> marks a pin that
  could not be adopted.
\<close>

definition ensure_current_process :: "os \<Rightarrow> buf \<Rightarrow> ChunkReadPin \<Rightarrow> (bool \<times> ChunkReadPin \<times> buf) option" where
  "ensure_current_process os b p =
    (let pid = current_process_id os; owner = pin_owner_pid p in
     if owner = pid then Some (True, p, b)
     else if owner = -1 then Some (False, p, b)
     else if owner = 0 then None
     else (case acquire_process_lease os b (pin_chunk_index p) of
         None \<Rightarrow> Some (False, p\<lparr>pin_owner_pid := -1\<rparr>, b)
       | Some (slot, b1) \<Rightarrow>
           (let ch = chunk_header b1 (pin_chunk_start p) in
            if state ch \<noteq> chunk_state_code Empty \<and> generation ch = pin_generation p
            then Some (True, p\<lparr>pin_slot := slot, pin_owner_pid := pid\<rparr>, b1)
            else Some (False, p\<lparr>pin_owner_pid := -1\<rparr>,
                   release_process_lease b1 (pin_chunk_index p) slot pid))))"

section \<open>Lemmas\<close>

lemma lease_parts_pack [simp]: "lease_parts (pack_lease p r) = (p, r)"
proof -
  have "ucast (drop_bit 32 (pack_lease p r)) = p"
    by (rule bit_word_eqI) (auto simp: pack_lease_def bit_simps dest: bit_imp_le_length)
  moreover have "ucast (pack_lease p r) = r"
    by (rule bit_word_eqI) (auto simp: pack_lease_def bit_simps)
  ultimately show ?thesis by (simp add: lease_parts_def)
qed

lemma pack_lease_parts: "lease_parts w = (p, r) \<Longrightarrow> pack_lease p r = w"
  unfolding lease_parts_def pack_lease_def
  by (rule bit_word_eqI) (auto simp: bit_simps)

lemma lease_parts_0 [simp]: "lease_parts 0 = (0, 0)"
  by (simp add: lease_parts_def)

text \<open>
  Lease operations touch nothing but the lease array: \<open>lease_frame\<close> is the frame they all keep.
\<close>

definition lease_frame :: "buf \<Rightarrow> buf \<Rightarrow> bool" where
  "lease_frame b b' \<longleftrightarrow> length b' = length b \<and>
    (\<forall>off n. off + n \<le> lease_offset (header b) \<or>
       lease_offset (header b) + 256 * num_chunks (header b) \<le> off \<longrightarrow>
       bslice off n b' = bslice off n b)"

lemma lease_frame_refl [simp]: "lease_frame b b"
  by (simp add: lease_frame_def)

lemma lease_frame_slice:
  "lease_frame b b' \<Longrightarrow> off + n \<le> lease_offset (header b) \<or>
     lease_offset (header b) + 256 * num_chunks (header b) \<le> off \<Longrightarrow> bslice off n b' = bslice off n b"
  unfolding lease_frame_def by blast

lemma lease_frame_rd:
  "lease_frame b b' \<Longrightarrow> off + n \<le> lease_offset (header b) \<or>
     lease_offset (header b) + 256 * num_chunks (header b) \<le> off \<Longrightarrow> rd off n b' = rd off n b"
  by (simp add: rd_def lease_frame_slice)

lemma lease_frame_length: "lease_frame b b' \<Longrightarrow> length b' = length b"
  by (simp add: lease_frame_def)

lemma lease_frame_header:
  assumes "table_geom b" "lease_frame b b'"
  shows "header b' = header b"
proof -
  have "128 \<le> lease_offset (header b)"
    using table_geomD(5) [OF assms(1)] by (simp add: header_def)
  then have "rd off n b' = rd off n b" if "off + n \<le> 128" for off n
    using that lease_frame_rd [OF assms(2), of off n] by simp
  then show ?thesis by (simp add: header_def)
qed

lemma lease_frame_cold:
  assumes "table_geom b" "lease_frame b b'"
  shows "cold_eq b b'"
proof -
  have "128 + 64 * num_cols (header b) \<le> lease_offset (header b)"
    using table_geomD(5) [OF assms(1)] by (simp add: header_def)
  then show ?thesis
    using assms(2) by (simp add: cold_eq_def lease_frame_length lease_frame_slice)
qed

lemma lease_frame_trans:
  assumes "table_geom a" "lease_frame a b" "lease_frame b c"
  shows "lease_frame a c"
  using assms(2,3) by (simp add: lease_frame_def lease_frame_header [OF assms(1,2)])

lemma lease_frame_geom: "table_geom b \<Longrightarrow> lease_frame b b' \<Longrightarrow> table_geom b'"
  using cold_eq_geom lease_frame_cold by blast

lemma lease_frame_chunk_header:
  assumes "table_geom b" "lease_frame b b'" "i < num_chunks (header b)"
  shows "chunk_header b' (chunk_start_off b i) = chunk_header b (chunk_start_off b i)"
  using chunk_bounds(2) [OF assms(1,3)] assms(2)
  unfolding chunk_header_def by (simp add: lease_frame_rd)

lemma lease_frame_store:
  assumes "table_geom b" "chunk < num_chunks (header b)" "slot < lease_slots (header b)"
  shows "lease_frame b (store_state b chunk slot v)"
    and "lease_frame b (store_owner_start b chunk slot v)"
proof -
  note lb = lease_bounds [OF assms]
  have o: "lease_offset (header b) \<le> reader_lease_off b chunk slot"
    by (simp add: reader_lease_off_def)
  show "lease_frame b (store_state b chunk slot v)"
    unfolding lease_frame_def store_state_def using lb o
    by (auto simp: slice_wr_other)
  show "lease_frame b (store_owner_start b chunk slot v)"
    unfolding lease_frame_def store_owner_start_def using lb o
    by (auto simp: slice_wr_other)
qed

lemma reader_lease_off_apart:
  assumes "lease_slots (header b) = 16" "s < 16" "s' < 16" "(c, s) \<noteq> (c', s')"
  shows "reader_lease_off b c s + 16 \<le> reader_lease_off b c' s' \<or>
         reader_lease_off b c' s' + 16 \<le> reader_lease_off b c s"
proof -
  have "c * 16 + s \<noteq> c' * 16 + s'"
  proof
    assume e: "c * 16 + s = c' * 16 + s'"
    have "(c * 16 + s) div 16 = c" "(c' * 16 + s') div 16 = c'" using assms by simp_all
    with e have "c = c'" by simp
    with e assms(4) show False by simp
  qed
  from block_disjoint [OF this, of 16] show ?thesis
    using assms(1) by (auto simp: reader_lease_off_def layout_consts)
qed

lemma reader_lease_store_state:
  assumes "table_geom b" "chunk < num_chunks (header b)" "slot < lease_slots (header b)"
    and "c < num_chunks (header b)" "s < lease_slots (header b)"
  shows "reader_lease (store_state b chunk slot v) c s =
    (if (c, s) = (chunk, slot) then (reader_lease b c s)\<lparr>lease_state := v\<rparr> else reader_lease b c s)"
proof -
  have fr: "lease_frame b (store_state b chunk slot v)" by (rule lease_frame_store(1) [OF assms(1-3)])
  have off: "reader_lease_off (store_state b chunk slot v) c s = reader_lease_off b c s"
    using cold_eq_lease_off [OF lease_frame_cold [OF assms(1) fr]] .
  note lb = lease_bounds [OF assms(1-3)] and lb' = lease_bounds [OF assms(1,4,5)]
  have sl: "lease_slots (header b) = 16" using table_geomD(4) [OF assms(1)] by (simp add: header_def)
  show ?thesis
  proof (cases "(c, s) = (chunk, slot)")
    case True
    have "unat v < 256 ^ 8" using unat_bound [of v] by simp
    with True lb show ?thesis unfolding reader_lease_def off
      by (simp add: store_state_def buf_simps reader_lease_def Let_def)
  next
    case False
    have "reader_lease_off b c s + 16 \<le> reader_lease_off b chunk slot \<or>
          reader_lease_off b chunk slot + 16 \<le> reader_lease_off b c s"
      using reader_lease_off_apart [of b s slot c chunk] False sl assms by auto
    with False lb show ?thesis unfolding reader_lease_def off
      by (auto simp: store_state_def buf_simps)
  qed
qed

lemma reader_lease_store_start:
  assumes "table_geom b" "chunk < num_chunks (header b)" "slot < lease_slots (header b)"
    and "c < num_chunks (header b)" "s < lease_slots (header b)"
  shows "reader_lease (store_owner_start b chunk slot v) c s =
    (if (c, s) = (chunk, slot) then (reader_lease b c s)\<lparr>owner_start_time := v\<rparr> else reader_lease b c s)"
proof -
  have fr: "lease_frame b (store_owner_start b chunk slot v)" by (rule lease_frame_store(2) [OF assms(1-3)])
  have off: "reader_lease_off (store_owner_start b chunk slot v) c s = reader_lease_off b c s"
    using cold_eq_lease_off [OF lease_frame_cold [OF assms(1) fr]] .
  note lb = lease_bounds [OF assms(1-3)] and lb' = lease_bounds [OF assms(1,4,5)]
  have sl: "lease_slots (header b) = 16" using table_geomD(4) [OF assms(1)] by (simp add: header_def)
  show ?thesis
  proof (cases "(c, s) = (chunk, slot)")
    case True
    have "unat v < 256 ^ 8" using unat_bound [of v] by simp
    with True lb show ?thesis unfolding reader_lease_def off
      by (simp add: store_owner_start_def buf_simps reader_lease_def Let_def)
  next
    case False
    have "reader_lease_off b c s + 16 \<le> reader_lease_off b chunk slot \<or>
          reader_lease_off b chunk slot + 16 \<le> reader_lease_off b c s"
      using reader_lease_off_apart [of b s slot c chunk] False sl assms by auto
    with False lb show ?thesis unfolding reader_lease_def off
      by (auto simp: store_owner_start_def buf_simps)
  qed
qed

lemma scan_slots_frame:
  assumes "table_geom b" "chunk < num_chunks (header b)" "set slots \<subseteq> {..<lease_slots (header b)}"
  shows "lease_frame b (snd (scan_slots os b chunk slots live))"
  using assms
proof (induction os b chunk slots live rule: scan_slots.induct)
  case (2 os b chunk slot slots live)
  let ?b = "store_state b chunk slot 0"
  have fr: "lease_frame b ?b" using "2.prems" by (intro lease_frame_store) auto
  have hd: "header ?b = header b" by (rule lease_frame_header [OF "2.prems"(1) fr])
  have "lease_frame b (snd (scan_slots os ?b chunk slots live))"
    if "lease_state (reader_lease b chunk slot) \<noteq> 0" "\<not> lease_live os (reader_lease b chunk slot)"
    using that "2.IH"(3) [OF refl] "2.prems" lease_frame_geom [OF "2.prems"(1) fr] fr
    by (auto simp: hd intro: lease_frame_trans [OF "2.prems"(1) fr])
  then show ?case using "2.IH"(1,2) "2.prems" by (auto simp: Let_def)
qed simp

lemma scan_slots_live:
  assumes "table_geom b" "chunk < num_chunks (header b)" "set slots \<subseteq> {..<lease_slots (header b)}"
    and "distinct slots"
  shows "fst (scan_slots os b chunk slots live) \<longleftrightarrow>
    live \<or> (\<exists>s\<in>set slots. lease_live os (reader_lease b chunk s))"
  using assms
proof (induction os b chunk slots live rule: scan_slots.induct)
  case (2 os b chunk slot slots live)
  let ?b = "store_state b chunk slot 0" and ?l = "reader_lease b chunk slot"
  have fr: "lease_frame b ?b" using "2.prems" by (intro lease_frame_store) auto
  have hd: "header ?b = header b" by (rule lease_frame_header [OF "2.prems"(1) fr])
  have same: "reader_lease ?b chunk s = reader_lease b chunk s" if "s \<in> set slots" for s
    using reader_lease_store_state [OF "2.prems"(1,2), of slot chunk s 0] that "2.prems" by auto
  have z: "\<not> lease_live os ?l" if "lease_state ?l = 0" using that by (simp add: lease_live_def)
  show ?case
  proof (cases "lease_state ?l = 0 \<or> lease_live os ?l")
    case True
    then show ?thesis using "2.IH"(1,2) "2.prems" z by (auto simp: Let_def)
  next
    case False
    with "2.IH"(3) [OF refl] "2.prems" lease_frame_geom [OF "2.prems"(1) fr]
    show ?thesis by (auto simp: Let_def hd same)
  qed
qed simp

lemma scan_slots_lease:
  assumes "table_geom b" "chunk < num_chunks (header b)" "set slots \<subseteq> {..<lease_slots (header b)}"
    and "distinct slots" "c < num_chunks (header b)" "s < lease_slots (header b)"
  shows "reader_lease (snd (scan_slots os b chunk slots live)) c s =
    (if c = chunk \<and> s \<in> set slots \<and> \<not> lease_live os (reader_lease b chunk s)
     then (reader_lease b c s)\<lparr>lease_state := 0\<rparr> else reader_lease b c s)"
  using assms
proof (induction os b chunk slots live rule: scan_slots.induct)
  case (2 os b chunk slot slots live)
  let ?b = "store_state b chunk slot 0" and ?l = "reader_lease b chunk slot"
  have fr: "lease_frame b ?b" using "2.prems" by (intro lease_frame_store) auto
  have hd: "header ?b = header b" by (rule lease_frame_header [OF "2.prems"(1) fr])
  have rl: "reader_lease ?b c' s' =
      (if (c', s') = (chunk, slot) then (reader_lease b c' s')\<lparr>lease_state := 0\<rparr> else reader_lease b c' s')"
    if "c' < num_chunks (header b)" "s' < lease_slots (header b)" for c' s'
    using reader_lease_store_state [OF "2.prems"(1,2) _ that] "2.prems" by simp
  have z: "?l\<lparr>lease_state := 0\<rparr> = ?l" if "lease_state ?l = 0" using that by (cases ?l) simp
  show ?case
  proof (cases "lease_state ?l = 0 \<or> lease_live os ?l")
    case True
    then show ?thesis using "2.IH"(1,2) "2.prems" z by (auto simp: Let_def)
  next
    case False
    have "s \<noteq> slot \<Longrightarrow> reader_lease ?b chunk s = reader_lease b chunk s"
      using rl "2.prems" by simp
    with False "2.IH"(3) [OF refl] "2.prems" lease_frame_geom [OF "2.prems"(1) fr]
    show ?thesis by (auto simp: Let_def hd rl)
  qed
qed simp

lemma claim_slot_props:
  assumes "table_geom b" "chunk < num_chunks (header b)" "slot < lease_slots (header b)"
  shows "lease_frame b (claim_slot os b chunk slot)"
    and "\<lbrakk>c < num_chunks (header b); s < lease_slots (header b)\<rbrakk> \<Longrightarrow>
      reader_lease (claim_slot os b chunk slot) c s =
        (if (c, s) = (chunk, slot)
         then \<lparr>lease_state = pack_lease (current_process_id os) 1,
               owner_start_time = process_start_time os (current_process_id os)\<rparr>
         else reader_lease b c s)"
proof -
  let ?p = "current_process_id os"
  let ?b1 = "store_state b chunk slot (pack_lease ?p 0)"
  let ?b2 = "store_owner_start ?b1 chunk slot (process_start_time os ?p)"
  let ?b3 = "store_state ?b2 chunk slot (pack_lease ?p 1)"
  have f1: "lease_frame b ?b1" by (rule lease_frame_store(1) [OF assms])
  have h1: "header ?b1 = header b" by (rule lease_frame_header [OF assms(1) f1])
  have g1: "table_geom ?b1" by (rule lease_frame_geom [OF assms(1) f1])
  have f2: "lease_frame ?b1 ?b2" using assms by (intro lease_frame_store(2) g1) (simp_all add: h1)
  have h2: "header ?b2 = header b" using lease_frame_header [OF g1 f2] h1 by simp
  have g2: "table_geom ?b2" by (rule lease_frame_geom [OF g1 f2])
  have f3: "lease_frame ?b2 ?b3" using assms by (intro lease_frame_store(1) g2) (simp_all add: h2)
  have cl: "claim_slot os b chunk slot = ?b3" by (simp add: claim_slot_def Let_def)
  show "lease_frame b (claim_slot os b chunk slot)"
    unfolding cl using lease_frame_trans [OF assms(1) lease_frame_trans [OF assms(1) f1 f2] f3] .
  assume cs: "c < num_chunks (header b)" "s < lease_slots (header b)"
  show "reader_lease (claim_slot os b chunk slot) c s =
        (if (c, s) = (chunk, slot)
         then \<lparr>lease_state = pack_lease ?p 1, owner_start_time = process_start_time os ?p\<rparr>
         else reader_lease b c s)"
    unfolding cl using assms cs
    by (cases "reader_lease b chunk slot")
      (simp add: reader_lease_store_state reader_lease_store_start g1 g2 h1 h2)
qed

lemma acquire_slot_props:
  assumes "table_geom b" "chunk < num_chunks (header b)" "slot < lease_slots (header b)"
    and "acquire_slot os b chunk slot = Acquired b'"
  shows "lease_frame b b'"
    and "\<exists>r. 0 < r \<and> reader_lease b' chunk slot =
       \<lparr>lease_state = pack_lease (current_process_id os) r,
        owner_start_time = process_start_time os (current_process_id os)\<rparr>"
    and "\<lbrakk>c < num_chunks (header b); s < lease_slots (header b); (c, s) \<noteq> (chunk, slot)\<rbrakk> \<Longrightarrow>
       reader_lease b' c s = reader_lease b c s"
proof -
  let ?p = "current_process_id os" and ?z = "store_state b chunk slot 0"
  obtain owner refs where parts: "lease_parts (lease_state (reader_lease b chunk slot)) = (owner, refs)"
    by fastforce
  have fz: "lease_frame b ?z" by (rule lease_frame_store(1) [OF assms(1-3)])
  have hz: "header ?z = header b" by (rule lease_frame_header [OF assms(1) fz])
  have gz: "table_geom ?z" by (rule lease_frame_geom [OF assms(1) fz])
  consider (claim) "b' = claim_slot os b chunk slot" | (steal) "b' = claim_slot os ?z chunk slot"
    | (again) "owner = ?p" "0 < refs" "refs \<noteq> -1"
        "owner_start_time (reader_lease b chunk slot) = process_start_time os ?p"
        "b' = store_state b chunk slot (pack_lease ?p (refs + 1))"
    using assms(4) by (auto simp: acquire_slot_def Let_def parts split: if_splits)
  then have "lease_frame b b' \<and> (\<exists>r. 0 < r \<and> reader_lease b' chunk slot =
       \<lparr>lease_state = pack_lease ?p r, owner_start_time = process_start_time os ?p\<rparr>) \<and>
     (\<forall>c s. c < num_chunks (header b) \<longrightarrow> s < lease_slots (header b) \<longrightarrow> (c, s) \<noteq> (chunk, slot) \<longrightarrow>
        reader_lease b' c s = reader_lease b c s)"
  proof cases
    case claim
    then show ?thesis using claim_slot_props [OF assms(1-3)] assms(2,3)
      by (auto intro!: exI [of _ 1])
  next
    case steal
    note cp = claim_slot_props [OF gz, unfolded hz, OF assms(2,3)]
    show ?thesis
    proof (intro conjI allI impI)
      show "lease_frame b b'" unfolding steal by (rule lease_frame_trans [OF assms(1) fz cp(1)])
      show "\<exists>r. 0 < r \<and> reader_lease b' chunk slot =
         \<lparr>lease_state = pack_lease ?p r, owner_start_time = process_start_time os ?p\<rparr>"
        using cp(2) [OF assms(2,3)] unfolding steal by (auto intro!: exI [of _ 1])
      fix c s assume cs: "c < num_chunks (header b)" "s < lease_slots (header b)" "(c, s) \<noteq> (chunk, slot)"
      then show "reader_lease b' c s = reader_lease b c s"
        using cp(2) [OF cs(1,2)] reader_lease_store_state [OF assms(1-3) cs(1,2), of 0]
        unfolding steal by auto
    qed
  next
    case again
    have "0 < refs + 1" using again(3) by (metis add.commute add_eq_0_iff word_neq_0_conv)
    moreover have "reader_lease b' chunk slot =
       \<lparr>lease_state = pack_lease ?p (refs + 1), owner_start_time = process_start_time os ?p\<rparr>"
      using reader_lease_store_state [OF assms(1-3,2,3)] again(4) unfolding again(5)
      by (cases "reader_lease b chunk slot") simp
    ultimately show ?thesis
      using reader_lease_store_state [OF assms(1-3)] lease_frame_store(1) [OF assms(1-3)]
      unfolding again(5) by auto
  qed
  then show "lease_frame b b'"
    and "\<exists>r. 0 < r \<and> reader_lease b' chunk slot =
       \<lparr>lease_state = pack_lease ?p r, owner_start_time = process_start_time os ?p\<rparr>"
    and "\<lbrakk>c < num_chunks (header b); s < lease_slots (header b); (c, s) \<noteq> (chunk, slot)\<rbrakk> \<Longrightarrow>
       reader_lease b' c s = reader_lease b c s"
    by blast+
qed

lemma acquire_slot_next: "acquire_slot os b chunk slot = NextSlot b' \<Longrightarrow> b' = b"
  by (auto simp: acquire_slot_def Let_def split: if_splits prod.splits)

lemma acquire_slots_Some:
  "acquire_slots os b chunk slots = Some (slot, b') \<Longrightarrow>
     slot \<in> set slots \<and> acquire_slot os b chunk slot = Acquired b'"
proof (induction slots arbitrary: b)
  case (Cons a slots)
  then show ?case
    by (auto split: slot_outcome.splits dest: acquire_slot_next)
qed simp

lemma acquire_process_lease_Some:
  assumes "acquire_process_lease os b chunk = Some (slot, b')"
  shows "slot < lease_slots (header b)" "acquire_slot os b chunk slot = Acquired b'"
  using acquire_slots_Some [OF assms [unfolded acquire_process_lease_def]] by auto

lemma release_process_lease_props:
  assumes "table_geom b" "chunk < num_chunks (header b)" "slot < lease_slots (header b)"
  shows "lease_frame b (release_process_lease b chunk slot pid)"
    and "\<lbrakk>c < num_chunks (header b); s < lease_slots (header b); (c, s) \<noteq> (chunk, slot)\<rbrakk> \<Longrightarrow>
      reader_lease (release_process_lease b chunk slot pid) c s = reader_lease b c s"
    and "lease_state (reader_lease b chunk slot) = pack_lease pid r \<Longrightarrow> 0 < r \<Longrightarrow>
      reader_lease (release_process_lease b chunk slot pid) chunk slot =
        (reader_lease b chunk slot)\<lparr>lease_state := (if r = 1 then 0 else pack_lease pid (r - 1))\<rparr>"
proof -
  obtain owner refs where parts: "lease_parts (lease_state (reader_lease b chunk slot)) = (owner, refs)"
    by fastforce
  show "lease_frame b (release_process_lease b chunk slot pid)"
    using lease_frame_store(1) [OF assms] by (simp add: release_process_lease_def parts)
  show "\<lbrakk>c < num_chunks (header b); s < lease_slots (header b); (c, s) \<noteq> (chunk, slot)\<rbrakk> \<Longrightarrow>
      reader_lease (release_process_lease b chunk slot pid) c s = reader_lease b c s"
    using reader_lease_store_state [OF assms] by (auto simp: release_process_lease_def parts)
  show "lease_state (reader_lease b chunk slot) = pack_lease pid r \<Longrightarrow> 0 < r \<Longrightarrow>
      reader_lease (release_process_lease b chunk slot pid) chunk slot =
        (reader_lease b chunk slot)\<lparr>lease_state := (if r = 1 then 0 else pack_lease pid (r - 1))\<rparr>"
    using reader_lease_store_state [OF assms assms(2,3)]
    by (auto simp: release_process_lease_def)
qed

text \<open>What a successful pin guarantees of the buffer it leaves behind.\<close>

definition pin_holds :: "os \<Rightarrow> buf \<Rightarrow> ChunkReadPin \<Rightarrow> bool" where
  "pin_holds os b p \<longleftrightarrow> pin_slot p < lease_slots (header b) \<and> pin_owner_pid p = current_process_id os \<and>
     (\<exists>r. 0 < r \<and> reader_lease b (pin_chunk_index p) (pin_slot p) =
       \<lparr>lease_state = pack_lease (current_process_id os) r,
        owner_start_time = process_start_time os (current_process_id os)\<rparr>)"

lemma pin_attempts_Some:
  assumes "table_geom b" "chunk < num_chunks (header b)" "cs = chunk_start_off b chunk"
    and "pin_attempts os after b chunk cs cap n = (Inr (Some (p, g, u)), b')"
  shows "lease_frame b b' \<and> pin_holds os b' p \<and> pin_chunk_index p = chunk \<and> pin_chunk_start p = cs \<and>
    pin_generation p = g \<and> g = generation (chunk_header b cs) \<and>
    state (chunk_header b cs) \<noteq> chunk_state_code Empty \<and> u = used (chunk_header b cs) \<and> u \<le> cap"
  using assms
proof (induction n arbitrary: b)
  case (Suc n)
  from Suc.prems(4) have ne: "state (chunk_header b cs) \<noteq> chunk_state_code Empty"
    by (auto simp: Let_def split: if_splits)
  from Suc.prems(4) ne obtain slot b1 where acq: "acquire_process_lease os b chunk = Some (slot, b1)"
    by (auto simp: Let_def split: option.splits)
  note sl = acquire_process_lease_Some [OF acq]
  note ap = acquire_slot_props [OF Suc.prems(1,2) sl]
  have h1: "header b1 = header b" by (rule lease_frame_header [OF Suc.prems(1) ap(1)])
  have g1: "table_geom b1" by (rule lease_frame_geom [OF Suc.prems(1) ap(1)])
  have ch1: "chunk_header b1 cs = chunk_header b cs"
    using lease_frame_chunk_header [OF Suc.prems(1) ap(1) Suc.prems(2)] Suc.prems(3) by simp
  obtain sa ga where after: "after n b1 = (sa, ga)" by fastforce
  let ?b2 = "release_process_lease b1 chunk slot (current_process_id os)"
  have f2: "lease_frame b ?b2"
    using lease_frame_trans [OF Suc.prems(1) ap(1) release_process_lease_props(1) [OF g1]]
      Suc.prems(2) sl(1) h1 by simp
  have ch2: "chunk_header ?b2 cs = chunk_header b cs"
    using lease_frame_chunk_header [OF Suc.prems(1) f2 Suc.prems(2)] Suc.prems(3) by simp
  have h2: "header ?b2 = header b" by (rule lease_frame_header [OF Suc.prems(1) f2])
  have cs2: "cs = chunk_start_off ?b2 chunk" using Suc.prems(3) h2 by (simp add: chunk_start_off_def)
  show ?case
  proof (cases "state (chunk_header b cs) = sa \<and> sa \<noteq> chunk_state_code Empty
      \<and> generation (chunk_header b cs) = ga \<and> used (chunk_header b cs) \<le> cap")
    case True
    with Suc.prems(4) ne acq after ch1
    have r: "p = \<lparr>pin_slot = slot, pin_owner_pid = current_process_id os, pin_chunk_index = chunk,
        pin_chunk_start = cs, pin_generation = ga\<rparr>" "g = ga" "u = used (chunk_header b cs)" "b' = b1"
      by (auto simp: Let_def)
    then have "pin_holds os b' p" using ap(2) sl(1) h1 by (simp add: pin_holds_def)
    with r True ap(1) ne show ?thesis by auto
  next
    case False
    then have "pin_attempts os after ?b2 chunk cs cap n = (Inr (Some (p, g, u)), b')"
      using Suc.prems(4) ne acq after ch1 by (auto simp: Let_def split: if_splits)
    with Suc.IH [of ?b2] Suc.prems lease_frame_geom [OF Suc.prems(1) f2] h2 cs2 ch2
    show ?thesis using lease_frame_trans [OF Suc.prems(1) f2] by simp
  qed
qed simp

lemma chunk_index_of_start:
  assumes "table_geom b"
  shows "checked_sub (chunk_start_off b i) (data_offset (header b)) = Some (i * chunk_size (header b))"
    and "i * chunk_size (header b) div chunk_size (header b) = i"
  using table_geomD(3) [OF assms] by (auto simp: chunk_start_off_def header_def)

lemma pin_chunk_with_eq:
  assumes "table_geom b"
  shows "pin_chunk_with os after b (chunk_start_off b i) =
    pin_attempts os after b i (chunk_start_off b i) (chunk_size (header b) - CHUNK_HEADER_SIZE) 64"
proof -
  have cap: "checked_sub (chunk_size (header b)) CHUNK_HEADER_SIZE =
      Some (chunk_size (header b) - CHUNK_HEADER_SIZE)"
    using table_geomD(3) [OF assms] by (simp add: header_def layout_consts)
  show ?thesis
    by (simp only: pin_chunk_with_def cap chunk_index_of_start [OF assms] option.case)
qed

lemma pin_chunk_with_Some:
  assumes "table_geom b" "i < num_chunks (header b)"
    and "pin_chunk_with os after b (chunk_start_off b i) = (Inr (Some (p, g, u)), b')"
  shows "lease_frame b b'" "pin_holds os b' p" "pin_chunk_index p = i" "pin_generation p = g"
    "g = generation (chunk_header b (chunk_start_off b i))"
    "state (chunk_header b (chunk_start_off b i)) \<noteq> chunk_state_code Empty"
    "u = used (chunk_header b (chunk_start_off b i))" "u \<le> chunk_size (header b) - CHUNK_HEADER_SIZE"
  using pin_attempts_Some [OF assms(1,2) refl, of os after] assms(3)
  unfolding pin_chunk_with_eq [OF assms(1)] by blast+

lemma pin_holds_live:
  assumes "pin_holds os b p" "process_instance_alive os' (current_process_id os)
     (process_start_time os (current_process_id os))"
  shows "lease_live os' (reader_lease b (pin_chunk_index p) (pin_slot p))"
proof -
  from assms(1) obtain r where r: "0 < r" "reader_lease b (pin_chunk_index p) (pin_slot p) =
      \<lparr>lease_state = pack_lease (current_process_id os) r,
       owner_start_time = process_start_time os (current_process_id os)\<rparr>"
    by (auto simp: pin_holds_def)
  have "pack_lease (current_process_id os) r \<noteq> 0"
    using r(1) by (metis lease_parts_0 lease_parts_pack less_irrefl prod.inject)
  with r assms(2) show ?thesis by (auto simp: lease_live_def)
qed

lemma live_lease_seen:
  assumes "table_geom b" "i < num_chunks (header b)" "s < lease_slots (header b)"
    and "lease_live os (reader_lease b i s)"
  shows "fst (chunk_has_live_leases os b i)"
proof -
  have "set [0..<lease_slots (header b)] \<subseteq> {..<lease_slots (header b)}" by auto
  from scan_slots_live [OF assms(1,2) this distinct_upt] assms(3,4) show ?thesis
    by (auto simp: chunk_has_live_leases_def)
qed

lemma chunk_has_live_leases_frame:
  assumes "table_geom b" "i < num_chunks (header b)"
  shows "lease_frame b (snd (chunk_has_live_leases os b i))"
  unfolding chunk_has_live_leases_def using assms by (intro scan_slots_frame) auto

lemma chunk_has_live_leases_iff:
  assumes "table_geom b" "i < num_chunks (header b)"
  shows "fst (chunk_has_live_leases os b i) \<longleftrightarrow>
    (\<exists>s<lease_slots (header b). lease_live os (reader_lease b i s))"
proof -
  have "set [0..<lease_slots (header b)] \<subseteq> {..<lease_slots (header b)}" by auto
  from scan_slots_live [OF assms this distinct_upt] show ?thesis
    by (auto simp: chunk_has_live_leases_def)
qed

lemma chunk_has_live_leases_lease:
  assumes "table_geom b" "i < num_chunks (header b)" "c < num_chunks (header b)"
    and "s < lease_slots (header b)"
  shows "reader_lease (snd (chunk_has_live_leases os b i)) c s =
    (if c = i \<and> \<not> lease_live os (reader_lease b i s)
     then (reader_lease b c s)\<lparr>lease_state := 0\<rparr> else reader_lease b c s)"
proof -
  have "set [0..<lease_slots (header b)] \<subseteq> {..<lease_slots (header b)}" by auto
  from scan_slots_lease [OF assms(1,2) this distinct_upt assms(3,4)] assms(4) show ?thesis
    by (simp add: chunk_has_live_leases_def)
qed

end
