(* ===== verification/Raw.thy ===== *)
theory Raw
  imports Lease
begin

text \<open>
  The raw table operations (\<open>probing/memtable/src/raw.rs\<close>): initialising a buffer, validating
  one, appending an encoded row to the current chunk, folding its timestamp into the chunk's
  range, and advancing the ring to the next chunk under the reader-lease protocol. \<^term>\<open>None\<close> is
  a panic; the logging calls are left out. Machine addresses (\<open>buf.as_ptr()\<close>), the clock-derived
  instance id and the operating system are parameters.
\<close>

section \<open>Timestamps\<close>

definition TS_COL_NAMES :: "byte list list" where
  "TS_COL_NAMES = [str_bytes ''timestamp'', str_bytes ''ts'']"

definition note_row_ts :: "buf \<Rightarrow> usize \<Rightarrow> i64 \<Rightarrow> buf" where
  "note_row_ts b cs ts =
    (let b1 = (if sint ts < sint (min_ts (chunk_header b cs)) then wr (cs + 24) 8 (unat ts) b else b)
     in if sint (max_ts (chunk_header b1 cs)) < sint ts then wr (cs + 32) 8 (unat ts) b1 else b1)"

definition row_ts :: "Header \<Rightarrow> Value list \<Rightarrow> i64 option" where
  "row_ts h vs =
    (if ts_col h = 0 then None
     else if ts_col h - 1 < length vs
     then (case vs ! (ts_col h - 1) of VI64 ts \<Rightarrow> Some ts | _ \<Rightarrow> None)
     else None)"

section \<open>Appending a row\<close>

fun encode_all :: "Value list \<Rightarrow> usize \<Rightarrow> buf \<Rightarrow> buf option" where
  "encode_all [] off b = Some b"
| "encode_all (v # vs) off b = do { (b', n) \<leftarrow> encode_at v off b; encode_all vs (off + n) b' }"

definition publish_row :: "buf \<Rightarrow> usize \<Rightarrow> i64 option \<Rightarrow> usize \<Rightarrow> buf" where
  "publish_row b cs ts new_used =
    (let b1 = (case ts of Some t \<Rightarrow> note_row_ts b cs t | None \<Rightarrow> b);
         b2 = wr (cs + 8) 4 new_used b1
     in wr (cs + 12) 4 (row_count (chunk_header b2 cs) + 1) b2)"

definition write_row_bytes :: "buf \<Rightarrow> Value list \<Rightarrow> usize \<Rightarrow> (bool \<times> buf) option" where
  "write_row_bytes b vs row_data =
    (let h = header b;
         csz = chunk_size h;
         cs = data_offset h + write_chunk h * csz;
         u = used (chunk_header b cs);
         total = 4 + row_data
     in if csz < CHUNK_HEADER_SIZE + u + total then Some (False, b)
        else do {
          let row_start = cs + CHUNK_HEADER_SIZE + u;
          b1 \<leftarrow> w32 b row_start row_data;
          b2 \<leftarrow> encode_all vs (row_start + 4) b1;
          Some (True, publish_row b2 cs (row_ts (header b2) vs) (u + total))
        })"

section \<open>Advancing the ring\<close>

datatype AdvanceOutcome = Advanced | ReadersPinned

definition PIN_DRAIN_SPINS :: nat where "PIN_DRAIN_SPINS = 1024"

fun drain_leases :: "os \<Rightarrow> buf \<Rightarrow> usize \<Rightarrow> nat \<Rightarrow> buf" where
  "drain_leases os b chunk 0 = b"
| "drain_leases os b chunk (Suc n) =
    (case chunk_has_live_leases os b chunk of
       (False, b') \<Rightarrow> b'
     | (True, b') \<Rightarrow> drain_leases os b' chunk n)"

definition reset_chunk :: "buf \<Rightarrow> usize \<Rightarrow> buf" where
  "reset_chunk b cs =
    (let b1 = wr cs 8 (generation (chunk_header b cs) + 1) b;
         b2 = wr (cs + 8) 4 0 b1;
         b3 = wr (cs + 12) 4 0 b2;
         b4 = wr (cs + 24) 8 (unat TS_MIN_INIT) b3;
         b5 = wr (cs + 32) 8 (unat TS_MAX_INIT) b4
     in wr (cs + 16) 4 (chunk_state_code Writing) b5)"

definition count_overwrite :: "buf \<Rightarrow> nat \<Rightarrow> buf" where
  "count_overwrite b rows_lost =
    (if 0 < rows_lost
     then (let b1 = wr 56 4 (chunks_recycled (header b) + 1) b
           in wr 60 4 (rows_overwritten (header b1) + rows_lost) b1)
     else b)"

definition advance_chunk_raw_detailed :: "os \<Rightarrow> buf \<Rightarrow> (AdvanceOutcome \<times> buf) option" where
  "advance_chunk_raw_detailed os b =
    (let h = header b;
         wc = write_chunk h;
         cur_cs = data_offset h + wc * chunk_size h
     in if num_chunks h = 0 then None
        else (let new_wc = (wc + 1) mod num_chunks h;
                  cs = data_offset h + new_wc * chunk_size h;
                  previous_state = state (chunk_header b cs);
                  b1 = wr (cs + 16) 4 (chunk_state_code Empty) b;
                  b2 = drain_leases os b1 new_wc PIN_DRAIN_SPINS;
                  (live, b3) = chunk_has_live_leases os b2 new_wc
              in if live
                 then (let b4 = wr (cs + 16) 4 previous_state b3
                       in Some (ReadersPinned, wr 80 8 (writes_blocked (header b4) + 1) b4))
                 else (let b4 = (if cur_cs \<noteq> cs then wr (cur_cs + 16) 4 (chunk_state_code Sealed) b3 else b3);
                           b5 = count_overwrite b4 (row_count (chunk_header b4 cs));
                           b6 = reset_chunk b5 cs
                       in Some (Advanced, wr 32 4 new_wc b6))))"

definition advance_chunk_raw :: "os \<Rightarrow> buf \<Rightarrow> (bool \<times> buf) option" where
  "advance_chunk_raw os b = do {
     (out, b') \<leftarrow> advance_chunk_raw_detailed os b;
     Some (out = Advanced, b')
   }"

section \<open>Row schema check\<close>

definition validate_row_schema :: "buf \<Rightarrow> Value list \<Rightarrow> bool" where
  "validate_row_schema b vs \<longleftrightarrow>
     length vs = num_cols (header b) \<and>
     list_all (\<lambda>(i, v). dtype_from_u32 (cd_dtype (col_desc b i)) = Some (value_dtype v))
       (enumerate 0 vs)"

section \<open>Validation\<close>

text \<open>\<open>i32\<close> read from a length prefix; \<open>-raw as usize\<close> sign-extends the wrapped \<open>i32::MIN\<close>.\<close>

definition i32_at :: "usize \<Rightarrow> buf \<Rightarrow> int" where
  "i32_at off b = sint (word_of_nat (rd off 4 b) :: i32)"

definition neg_as_usize :: "int \<Rightarrow> usize" where
  "neg_as_usize raw = (if raw = - (2 ^ 31) then 2 ^ 64 - 2 ^ 31 else nat (- raw))"

fun validate_cols :: "buf \<Rightarrow> usize \<Rightarrow> usize \<Rightarrow> bool \<Rightarrow> usize \<Rightarrow> usize \<Rightarrow> usize list \<Rightarrow>
   (MemtableError + unit) option" where
  "validate_cols b row_start row_len has_dedup u col_off [] = Some (Inr ())"
| "validate_cols b row_start row_len has_dedup u col_off (ci # cis) =
    (if row_len \<le> col_off then Some (Inr ())
     else (case dtype_from_u32 (cd_dtype (col_desc b ci)) of
        None \<Rightarrow> Some (Inr ())
      | Some dt \<Rightarrow>
          (case fixed_size dt of
             Some sz \<Rightarrow> validate_cols b row_start row_len has_dedup u (col_off + sz) cis
           | None \<Rightarrow>
               if col_off + 4 \<le> row_len then do {
                 _ \<leftarrow> get_range b (row_start + col_off) (row_start + col_off + 4);
                 let raw = i32_at (row_start + col_off) b;
                 if raw < 0 then
                   (if \<not> has_dedup then Some (Inl (InvalidBuffer ''dedup ref in non-dedup table''))
                    else if neg_as_usize raw < CHUNK_HEADER_SIZE \<or> CHUNK_HEADER_SIZE + u \<le> neg_as_usize raw
                    then Some (Inl (InvalidBuffer ''dedup ref outside chunk data region''))
                    else validate_cols b row_start row_len has_dedup u (col_off + 4) cis)
                 else validate_cols b row_start row_len has_dedup u (col_off + 4 + nat raw) cis
               }
               else validate_cols b row_start row_len has_dedup u col_off cis)))"

function validate_chunk_rows_from ::
  "buf \<Rightarrow> usize \<Rightarrow> usize \<Rightarrow> usize \<Rightarrow> bool \<Rightarrow> usize \<Rightarrow> (MemtableError + unit) option" where
  "validate_chunk_rows_from b data_base u nc has_dedup pos =
    (if pos + 4 \<le> u then do {
       row_len \<leftarrow> r32 b (data_base + pos);
       if u < pos + 4 + row_len
       then Some (Inl (InvalidBuffer ''row extends beyond chunk used region''))
       else (case validate_cols b (data_base + pos + 4) row_len has_dedup u 0 [0..<nc] of
           Some (Inr _) \<Rightarrow> validate_chunk_rows_from b data_base u nc has_dedup (pos + 4 + row_len)
         | r \<Rightarrow> r)
     }
     else Some (Inr ()))"
  by pat_completeness auto
termination
  by (relation "measure (\<lambda>(b, base, u, nc, d, pos). u - pos)") auto

definition validate_chunk_rows ::
  "buf \<Rightarrow> usize \<Rightarrow> usize \<Rightarrow> usize \<Rightarrow> bool \<Rightarrow> (MemtableError + unit) option" where
  "validate_chunk_rows b cs u nc has_dedup =
     validate_chunk_rows_from b (cs + CHUNK_HEADER_SIZE) u nc has_dedup 0"

fun validate_col_descs :: "buf \<Rightarrow> usize list \<Rightarrow> MemtableError + unit" where
  "validate_col_descs b [] = Inr ()"
| "validate_col_descs b (i # is) =
    (if 54 < rd 0 2 (cd_name (col_desc b i)) then Inl (InvalidBuffer ''column name length out of range'')
     else if \<not> (1 \<le> cd_dtype (col_desc b i) \<and> cd_dtype (col_desc b i) \<le> 9)
     then Inl (InvalidBuffer ''invalid column dtype'')
     else validate_col_descs b is)"

fun validate_chunks :: "os \<Rightarrow> buf \<Rightarrow> usize \<Rightarrow> bool \<Rightarrow> usize list \<Rightarrow>
   ((MemtableError + unit) \<times> buf) option" where
  "validate_chunks os b expected_off has_dedup [] = Some (Inr (), b)"
| "validate_chunks os b expected_off has_dedup (i # is) =
    (let csz = chunk_size (header b);
         cs = expected_off + i * csz;
         ch = chunk_header b cs
     in if 2 < state ch then Some (Inl (InvalidBuffer ''invalid chunk state''), b)
        else if csz - CHUNK_HEADER_SIZE < used ch
        then Some (Inl (InvalidBuffer ''chunk used exceeds payload capacity''), b)
        else (case pin_chunk os b cs of
            (Inl e, b1) \<Rightarrow> Some (Inl e, b1)
          | (Inr None, b1) \<Rightarrow> validate_chunks os b1 expected_off has_dedup is
          | (Inr (Some (p, _, snap_used)), b1) \<Rightarrow>
              (case (if 0 < snap_used
                     then validate_chunk_rows b1 cs snap_used (num_cols (header b1)) has_dedup
                     else Some (Inr ())) of
                 None \<Rightarrow> None
               | Some (Inl e) \<Rightarrow> Some (Inl e, drop_pin os b1 p)
               | Some (Inr _) \<Rightarrow> validate_chunks os (drop_pin os b1 p) expected_off has_dedup is)))"

text \<open>\<open>validate_buf\<close> up to the column descriptors: the checks that fix the table's geometry.\<close>

definition validate_layout :: "nat \<Rightarrow> buf \<Rightarrow> MemtableError + usize" where
  "validate_layout addr b =
    (if length b < HEADER_SIZE then Inl (InvalidBuffer ''buffer too small for header'')
     else if addr mod HEADER_ALIGN \<noteq> 0
     then Inl (InvalidBuffer ''buffer address does not satisfy header alignment'')
     else let h = header b in
       if magic h \<noteq> MAGIC_MEMT then Inl (InvalidBuffer ''invalid magic'')
       else if version h \<noteq> VERSION then Inl (InvalidBuffer ''unsupported version'')
       else if header_size h < HEADER_SIZE then Inl (InvalidBuffer ''header_size too small'')
       else if byte_order h \<noteq> bom_value
       then Inl (InvalidBuffer ''byte order mismatch (buffer written on different-endian host)'')
       else if drop_bit 1 (flags h) \<noteq> 0 then Inl (InvalidBuffer ''unknown feature flags set'')
       else if num_chunks h = 0 then Inl (InvalidBuffer ''num_chunks must be > 0'')
       else if chunk_size h < CHUNK_HEADER_SIZE + 8 then Inl (InvalidBuffer ''chunk_size too small'')
       else if chunk_size h mod 8 \<noteq> 0
       then Inl (InvalidBuffer ''chunk_size does not satisfy chunk header alignment'')
       else (case checked_lease_offset (num_cols h) of
           None \<Rightarrow> Inl (InvalidBuffer ''column layout overflow'')
         | Some expected_lease_off \<Rightarrow>
             if lease_offset h \<noteq> expected_lease_off \<or> lease_slots h \<noteq> READER_LEASE_SLOTS
             then Inl (InvalidBuffer ''invalid reader lease layout'')
             else (case checked_data_offset (num_cols h) (num_chunks h) of
                 None \<Rightarrow> Inl (InvalidBuffer ''column layout overflow'')
               | Some expected_off \<Rightarrow>
                   if 2 ^ 32 - 1 < expected_off then Inl (InvalidBuffer ''column layout exceeds format'')
                   else if data_offset h \<noteq> expected_off then Inl (InvalidBuffer ''invalid data_offset'')
                   else (case Option.bind (checked_mul (chunk_size h) (num_chunks h))
                                (checked_add expected_off) of
                       None \<Rightarrow> Inl (InvalidBuffer ''table size overflow'')
                     | Some required \<Rightarrow>
                         if length b < required then Inl (InvalidBuffer ''buffer too small for data'')
                         else Inr expected_off))))"

definition validate_buf :: "os \<Rightarrow> nat \<Rightarrow> buf \<Rightarrow> ((MemtableError + unit) \<times> buf) option" where
  "validate_buf os addr b =
    (case validate_layout addr b of
       Inl e \<Rightarrow> Some (Inl e, b)
     | Inr expected_off \<Rightarrow>
         (case validate_col_descs b [0..<num_cols (header b)] of
            Inl e \<Rightarrow> Some (Inl e, b)
          | Inr _ \<Rightarrow>
              (let h = header b in
               if ts_col h \<noteq> 0 \<and> num_cols h < ts_col h
               then Some (Inl (InvalidBuffer ''ts_col out of range''), b)
               else if ts_col h \<noteq> 0 \<and> dtype_from_u32 (cd_dtype (col_desc b (ts_col h - 1))) \<noteq> Some DI64
               then Some (Inl (InvalidBuffer ''ts_col must reference an I64 column''), b)
               else validate_chunks os b expected_off (odd (flags h)) [0..<num_chunks h])))"

section \<open>Initialisation\<close>

fun position :: "('a \<Rightarrow> bool) \<Rightarrow> 'a list \<Rightarrow> usize option" where
  "position p [] = None"
| "position p (x # xs) = (if p x then Some 0 else map_option Suc (position p xs))"

definition find_ts_col :: "Schema \<Rightarrow> nat" where
  "find_ts_col s =
    (case position (\<lambda>c. col_dtype c = DI64 \<and> col_name c \<in> set TS_COL_NAMES) (cols s) of
       Some i \<Rightarrow> (i + 1) mod 2 ^ 16
     | None \<Rightarrow> 0)"

definition init_header :: "os \<Rightarrow> nat \<Rightarrow> nat \<Rightarrow> nat \<Rightarrow> nat \<Rightarrow> nat \<Rightarrow> nat \<Rightarrow> nat \<Rightarrow> buf \<Rightarrow> buf" where
  "init_header os iid tsc nc nch csz data_off lease_off b =
    (let b = wr 0 4 MAGIC_MEMT b;
         b = wr 4 2 VERSION b;
         b = wr 6 2 HEADER_SIZE b;
         b = wr 8 2 bom_value b;
         b = wr 10 2 tsc b;
         b = wr 12 4 0 b;
         b = wr 16 4 nc b;
         b = wr 20 4 nch b;
         b = wr 24 4 csz b;
         b = wr 28 4 data_off b;
         b = wr 32 4 0 b;
         b = wr 36 4 1 b;
         b = wr 40 4 (unat (current_process_id os)) b;
         b = wr 44 4 0 b;
         b = wr 48 8 (unat (process_start_time os (current_process_id os))) b;
         b = wr 56 4 0 b;
         b = wr 60 4 0 b;
         b = wr 64 4 lease_off b;
         b = wr 68 4 READER_LEASE_SLOTS b;
         b = wr 72 8 iid b;
         b = wr 80 8 0 b;
         b = wr 88 8 0 b
     in bsplice 96 (replicate 32 0) b)"

definition init_col :: "Col \<Rightarrow> usize \<Rightarrow> buf \<Rightarrow> buf" where
  "init_col c i b =
    (let off = col_desc_off i
     in wr (off + 60) 4 (col_elem_size c) (wr (off + 56) 4 (dtype_code (col_dtype c))
          (bsplice off (set_name (col_name c)) b)))"

fun init_cols :: "Col list \<Rightarrow> usize \<Rightarrow> buf \<Rightarrow> buf" where
  "init_cols [] i b = b"
| "init_cols (c # cs) i b = init_cols cs (Suc i) (init_col c i b)"

fun init_leases :: "(usize \<times> usize) list \<Rightarrow> buf \<Rightarrow> buf" where
  "init_leases [] b = b"
| "init_leases ((chunk, slot) # rest) b =
     init_leases rest (store_owner_start (store_state b chunk slot 0) chunk slot 0)"

definition init_chunk_header :: "usize \<Rightarrow> buf \<Rightarrow> buf" where
  "init_chunk_header cs b =
    (let b = wr cs 8 0 b;
         b = wr (cs + 8) 4 0 b;
         b = wr (cs + 12) 4 0 b;
         b = wr (cs + 20) 4 0 b;
         b = wr (cs + 24) 8 (unat TS_MIN_INIT) b;
         b = wr (cs + 32) 8 (unat TS_MAX_INIT) b
     in wr (cs + 16) 4 (chunk_state_code Empty) b)"

fun init_chunks :: "usize list \<Rightarrow> buf \<Rightarrow> buf" where
  "init_chunks [] b = b"
| "init_chunks (cs # rest) b = init_chunks rest (init_chunk_header cs b)"

definition init_body :: "os \<Rightarrow> nat \<Rightarrow> Schema \<Rightarrow> nat \<Rightarrow> nat \<Rightarrow> usize \<Rightarrow> usize \<Rightarrow> buf \<Rightarrow> buf" where
  "init_body os iid s csz nch lease_off data_off b =
    (let b1 = init_header os iid (find_ts_col s) (length (cols s)) nch csz data_off lease_off b;
         b2 = init_cols (cols s) 0 b1;
         b3 = init_leases (List.product [0..<nch] [0..<READER_LEASE_SLOTS]) b2;
         b4 = init_chunks (map (\<lambda>i. data_off + i * csz) [0..<nch]) b3
     in wr (data_off + 16) 4 (chunk_state_code Writing) (wr data_off 8 1 b4))"

definition init_buf :: "os \<Rightarrow> nat \<Rightarrow> nat \<Rightarrow> buf \<Rightarrow> Schema \<Rightarrow> nat \<Rightarrow> nat \<Rightarrow> MemtableError + buf" where
  "init_buf os iid addr b s csz nch =
    (if addr mod HEADER_ALIGN \<noteq> 0
     then Inl (InvalidBuffer ''buffer address does not satisfy header alignment'')
     else if nch = 0 then Inl (InvalidBuffer ''num_chunks must be > 0'')
     else if csz mod 8 \<noteq> 0
     then Inl (InvalidBuffer ''chunk_size does not satisfy chunk header alignment'')
     else let nc = length (cols s) in
       if 2 ^ 32 - 1 < nc then Inl (InvalidBuffer ''too many columns'')
       else (case checked_lease_offset nc of
           None \<Rightarrow> Inl (InvalidBuffer ''column layout overflow'')
         | Some lease_off \<Rightarrow>
             (case checked_data_offset nc nch of
                None \<Rightarrow> Inl (InvalidBuffer ''column layout overflow'')
              | Some data_off \<Rightarrow>
                  if 2 ^ 32 - 1 < data_off then Inl (InvalidBuffer ''column layout exceeds format'')
                  else (case Option.bind (checked_mul csz nch) (checked_add data_off) of
                      None \<Rightarrow> Inl (InvalidBuffer ''table size overflow'')
                    | Some required \<Rightarrow>
                        if length b < required then Inl (InvalidBuffer ''buffer too small'')
                        else if csz < CHUNK_HEADER_SIZE + 8
                        then Inl (InvalidBuffer ''chunk_size too small'')
                        else Inr (init_body os iid s csz nch lease_off data_off b)))))"

end
