(* ===== verification/Framing.thy ===== *)
theory Framing
  imports Prelude
begin

text \<open>
  Length-prefixed rows. A chunk's payload is a sequence of \<open>[u32 len][bytes]\<close> frames; \<open>parse_rows\<close>
  is the walk that \<open>RowIter::next\<close> and \<open>validate_chunk_rows\<close> make over it, stopping at the first
  frame that does not fit. \<open>framed\<close> says that a payload is exactly such a sequence.
\<close>

definition frame :: "byte list \<Rightarrow> byte list" where
  "frame r = le_bytes 4 (length r) @ r"

function parse_rows :: "byte list \<Rightarrow> byte list list" where
  "parse_rows bs =
    (if length bs < 4 then []
     else let n = rd 0 4 bs in
       if length bs < 4 + n then [] else bslice 4 n bs # parse_rows (drop (4 + n) bs))"
  by pat_completeness auto
termination
  by (relation "measure length") auto

declare parse_rows.simps [simp del]

definition framed :: "byte list \<Rightarrow> bool" where
  "framed bs \<longleftrightarrow> concat (map frame (parse_rows bs)) = bs"

lemma length_frame [simp]: "length (frame r) = 4 + length r"
  by (simp add: frame_def)

lemma parse_rows_Nil [simp]: "parse_rows [] = []"
  by (simp add: parse_rows.simps)

lemma framed_Nil [simp]: "framed []"
  by (simp add: framed_def)

lemma rd_frame: "length r < 2 ^ 32 \<Longrightarrow> rd 0 4 (frame r @ bs) = length r"
proof -
  assume "length r < 2 ^ 32"
  moreover have "bslice 0 4 (frame r @ bs) = le_bytes 4 (length r)"
    by (simp add: frame_def bslice_def)
  ultimately show ?thesis by (simp add: rd_def le_nat_le_bytes)
qed

lemma parse_rows_frame:
  assumes "length r < 2 ^ 32"
  shows "parse_rows (frame r @ bs) = r # parse_rows bs"
proof -
  have n: "rd 0 4 (frame r @ bs) = length r" by (rule rd_frame [OF assms])
  have "bslice 4 (length r) (frame r @ bs) = r" by (simp add: frame_def bslice_def)
  moreover have "drop (4 + length r) (frame r @ bs) = bs" by (simp add: frame_def)
  ultimately show ?thesis by (subst parse_rows.simps) (simp add: Let_def n)
qed

lemma parse_rows_concat:
  "\<forall>r\<in>set rs. length r < 2 ^ 32 \<Longrightarrow> parse_rows (concat (map frame rs) @ bs) = rs @ parse_rows bs"
  by (induction rs) (simp_all add: parse_rows_frame)

lemma parse_rows_length:
  "r \<in> set (parse_rows bs) \<Longrightarrow> length r < 2 ^ 32"
proof (induction bs rule: parse_rows.induct)
  case (1 bs)
  have b: "length (bslice 4 (rd 0 4 bs) bs) < 2 ^ 32"
    using rd4_bound [of 0 bs] by (simp add: length_slice)
  from "1.prems" have "r = bslice 4 (rd 0 4 bs) bs \<or>
     (\<not> length bs < 4 \<and> \<not> length bs < 4 + rd 0 4 bs \<and> r \<in> set (parse_rows (drop (4 + rd 0 4 bs) bs)))"
    by (subst (asm) parse_rows.simps) (auto simp: Let_def split: if_splits)
  with b "1.IH" show ?case by blast
qed

lemma parse_rows_append:
  "framed bs \<Longrightarrow> parse_rows (bs @ cs) = parse_rows bs @ parse_rows cs"
  using parse_rows_concat [of "parse_rows bs" cs] parse_rows_length
  by (metis framed_def)

lemma framed_append: "framed bs \<Longrightarrow> framed cs \<Longrightarrow> framed (bs @ cs)"
  unfolding framed_def using parse_rows_append framed_def by simp

lemma parse_rows_single: "length r < 2 ^ 32 \<Longrightarrow> parse_rows (frame r) = [r]"
  using parse_rows_frame [of r "[]"] by simp

lemma framed_frame: "length r < 2 ^ 32 \<Longrightarrow> framed (frame r)"
  by (simp add: framed_def parse_rows_single)

lemma parse_rows_snoc:
  "framed bs \<Longrightarrow> length r < 2 ^ 32 \<Longrightarrow> parse_rows (bs @ frame r) = parse_rows bs @ [r]"
  by (simp add: parse_rows_append parse_rows_single)

lemma framed_snoc: "framed bs \<Longrightarrow> length r < 2 ^ 32 \<Longrightarrow> framed (bs @ frame r)"
  by (simp add: framed_append framed_frame)

end
