(* ===== verification/Row.thy ===== *)
theory Row
  imports Raw Framing
begin

text \<open>
  Reading rows (\<open>probing/memtable/src/row.rs\<close>): bounds-checked scalar reads, resolution of
  inline and back-referenced variable-length fields, random access by column (\<open>Row\<close>), the sequential
  \<open>RowCursor\<close> and the chunk iterator \<open>RowIter\<close>. Every call of \<open>is_valid\<close> / \<open>generation_matches\<close> may see
  the chunk recycled (or a pin lost across \<open>fork\<close>); its outcome is a boolean argument of the
  operation, so the lemmas cover every interleaving with a recycling writer.
\<close>

section \<open>Bounds-checked reads\<close>

definition try_read_i32 :: "byte list \<Rightarrow> usize \<Rightarrow> i32 option" where
  "try_read_i32 d off = do {
     hi \<leftarrow> checked_add off 4;
     bs \<leftarrow> get_range d off hi;
     Some (word_of_le bs)
   }"

definition try_read_u32 :: "byte list \<Rightarrow> usize \<Rightarrow> u32 option" where
  "try_read_u32 d off = (if length d < off + 4 then None else Some (word_of_le (bslice off 4 d)))"

definition try_read_i64 :: "byte list \<Rightarrow> usize \<Rightarrow> i64 option" where
  "try_read_i64 d off = (if length d < off + 8 then None else Some (word_of_le (bslice off 8 d)))"

definition try_read_u64 :: "byte list \<Rightarrow> usize \<Rightarrow> u64 option" where
  "try_read_u64 d off = (if length d < off + 8 then None else Some (word_of_le (bslice off 8 d)))"

definition try_read_f32 :: "byte list \<Rightarrow> usize \<Rightarrow> f32 option" where
  "try_read_f32 d off = (if length d < off + 4 then None else Some (word_of_le (bslice off 4 d)))"

definition try_read_f64 :: "byte list \<Rightarrow> usize \<Rightarrow> f64 option" where
  "try_read_f64 d off = (if length d < off + 8 then None else Some (word_of_le (bslice off 8 d)))"

definition try_var_field_size :: "byte list \<Rightarrow> usize \<Rightarrow> usize option" where
  "try_var_field_size d off = do {
     raw \<leftarrow> try_read_i32 d off;
     if sint raw < 0 then Some 4 else checked_add 4 (unat raw)
   }"

text \<open>\<open>i32::checked_neg\<close> fails on \<open>i32::MIN\<close> only.\<close>

definition i32_checked_neg :: "i32 \<Rightarrow> int option" where
  "i32_checked_neg raw = (if sint raw = - (2 ^ 31) then None else Some (- sint raw))"

definition try_resolve_var :: "byte list \<Rightarrow> usize \<Rightarrow> buf \<Rightarrow> usize \<Rightarrow> byte list option" where
  "try_resolve_var row_data row_off b chunk_start = do {
     raw \<leftarrow> try_read_i32 row_data row_off;
     if sint raw < 0 then do {
       ref_delta \<leftarrow> i32_checked_neg raw;
       ref_off \<leftarrow> checked_add chunk_start (nat ref_delta);
       chunk_end \<leftarrow> checked_add chunk_start (chunk_size (header b));
       data_start \<leftarrow> checked_add chunk_start CHUNK_HEADER_SIZE;
       ref_end \<leftarrow> checked_add ref_off 4;
       if ref_off < data_start \<or> chunk_end < ref_end then None
       else do {
         len \<leftarrow> try_read_u32 b ref_off;
         value_start \<leftarrow> checked_add ref_off 4;
         vend \<leftarrow> checked_add value_start (unat len);
         if chunk_end < vend \<or> length b < vend then None
         else Some (bslice value_start (unat len) b)
       }
     } else do {
       value_start \<leftarrow> checked_add row_off 4;
       vend \<leftarrow> checked_add value_start (unat raw);
       get_range row_data value_start vend
     }
   }"

section \<open>Rows\<close>

record Row =
  row_data :: "byte list"
  row_buf :: buf
  row_chunk_start :: usize
  row_generation :: nat

fun col_offset_from :: "Row \<Rightarrow> usize \<Rightarrow> usize list \<Rightarrow> usize option" where
  "col_offset_from r off [] = Some off"
| "col_offset_from r off (i # is) = do {
     dt \<leftarrow> dtype_from_u32 (cd_dtype (col_desc (row_buf r) i));
     sz \<leftarrow> (case fixed_size dt of Some sz \<Rightarrow> Some sz | None \<Rightarrow> try_var_field_size (row_data r) off);
     off' \<leftarrow> checked_add off sz;
     col_offset_from r off' is
   }"

definition try_col_offset :: "Row \<Rightarrow> usize \<Rightarrow> usize option" where
  "try_col_offset r col =
    (if num_cols (header (row_buf r)) \<le> col then None else col_offset_from r 0 [0..<col])"

definition try_resolve_var_col :: "Row \<Rightarrow> usize \<Rightarrow> byte list option" where
  "try_resolve_var_col r col = do {
     off \<leftarrow> try_col_offset r col;
     try_resolve_var (row_data r) off (row_buf r) (row_chunk_start r)
   }"

text \<open>
  The shape shared by the scalar accessors: a validity check, the read, a second check, and the
  type's zero when anything fails. \<open>v1\<close> and \<open>v2\<close> are the outcomes of the two checks.
\<close>

definition guarded :: "bool \<Rightarrow> bool \<Rightarrow> 'a \<Rightarrow> 'a option \<Rightarrow> 'a" where
  "guarded v1 v2 zero x =
    (if \<not> v1 then zero else (case x of None \<Rightarrow> zero | Some v \<Rightarrow> if v2 then v else zero))"

definition col_u8 :: "Row \<Rightarrow> usize \<Rightarrow> bool \<Rightarrow> bool \<Rightarrow> byte" where
  "col_u8 r col v1 v2 = guarded v1 v2 0
     (do { off \<leftarrow> try_col_offset r col;
           if length (row_data r) \<le> off then None else Some (row_data r ! off) })"

definition col_u32 :: "Row \<Rightarrow> usize \<Rightarrow> bool \<Rightarrow> bool \<Rightarrow> u32" where
  "col_u32 r col v1 v2 = guarded v1 v2 0 (try_col_offset r col \<bind> try_read_u32 (row_data r))"

definition col_i32 :: "Row \<Rightarrow> usize \<Rightarrow> bool \<Rightarrow> bool \<Rightarrow> i32" where
  "col_i32 r col v1 v2 = guarded v1 v2 0 (try_col_offset r col \<bind> try_read_i32 (row_data r))"

definition col_i64 :: "Row \<Rightarrow> usize \<Rightarrow> bool \<Rightarrow> bool \<Rightarrow> i64" where
  "col_i64 r col v1 v2 = guarded v1 v2 0 (try_col_offset r col \<bind> try_read_i64 (row_data r))"

definition col_f32 :: "Row \<Rightarrow> usize \<Rightarrow> bool \<Rightarrow> bool \<Rightarrow> f32" where
  "col_f32 r col v1 v2 = guarded v1 v2 0 (try_col_offset r col \<bind> try_read_f32 (row_data r))"

definition col_f64 :: "Row \<Rightarrow> usize \<Rightarrow> bool \<Rightarrow> bool \<Rightarrow> f64" where
  "col_f64 r col v1 v2 = guarded v1 v2 0 (try_col_offset r col \<bind> try_read_f64 (row_data r))"

definition col_u64 :: "Row \<Rightarrow> usize \<Rightarrow> bool \<Rightarrow> bool \<Rightarrow> u64" where
  "col_u64 r col v1 v2 = guarded v1 v2 0 (try_col_offset r col \<bind> try_read_u64 (row_data r))"

definition col_str :: "Row \<Rightarrow> usize \<Rightarrow> bool \<Rightarrow> bool \<Rightarrow> byte list" where
  "col_str r col v1 v2 =
    (let bs = guarded v1 v2 [] (try_resolve_var_col r col)
     in if bs = [] then [] else (case from_utf8 bs of Some s \<Rightarrow> s | None \<Rightarrow> []))"

definition col_bytes :: "Row \<Rightarrow> usize \<Rightarrow> bool \<Rightarrow> bool \<Rightarrow> byte list" where
  "col_bytes r col v1 v2 = guarded v1 v2 [] (try_resolve_var_col r col)"

section \<open>The sequential cursor\<close>

record RowCursor =
  cur_data :: "byte list"
  cur_pos :: usize
  cur_buf :: buf
  cur_chunk_start :: usize
  cur_generation :: nat
  cur_stale :: bool

definition row_cursor :: "Row \<Rightarrow> bool \<Rightarrow> RowCursor" where
  "row_cursor r v = \<lparr>cur_data = row_data r, cur_pos = 0, cur_buf = row_buf r,
     cur_chunk_start = row_chunk_start r, cur_generation = row_generation r, cur_stale = (\<not> v)\<rparr>"

definition cursor_is_stale :: "RowCursor \<Rightarrow> bool \<Rightarrow> bool" where
  "cursor_is_stale c v = (cur_stale c \<or> \<not> v)"

definition mark_stale :: "RowCursor \<Rightarrow> RowCursor" where
  "mark_stale c = c\<lparr>cur_stale := True\<rparr>"

definition read_fixed :: "nat \<Rightarrow> bool \<Rightarrow> bool \<Rightarrow> RowCursor \<Rightarrow> byte list \<times> RowCursor" where
  "read_fixed n v1 v2 c =
    (if cur_stale c \<or> \<not> v1 then (replicate n 0, mark_stale c)
     else (case checked_add (cur_pos c) n of
        None \<Rightarrow> (replicate n 0, mark_stale c)
      | Some end \<Rightarrow>
          if length (cur_data c) < end then (replicate n 0, mark_stale c)
          else (let v = bslice (cur_pos c) n (cur_data c);
                    c' = c\<lparr>cur_pos := cur_pos c + n\<rparr>
                in if v2 then (v, c') else (replicate n 0, mark_stale c'))))"

definition read_lp :: "bool \<Rightarrow> bool \<Rightarrow> bool \<Rightarrow> RowCursor \<Rightarrow> byte list \<times> RowCursor" where
  "read_lp v1 v2 v3 c =
    (if cur_stale c then ([], c)
     else (let (bs, c) = read_fixed 4 v1 v2 c;
               raw = (word_of_le bs :: i32)
           in if cur_stale c then ([], c)
              else if sint raw < 0 then
                (case (do { d \<leftarrow> i32_checked_neg raw; checked_add (cur_chunk_start c) (nat d) }) of
                   None \<Rightarrow> ([], mark_stale c)
                 | Some ref_off \<Rightarrow>
                     (let chunk_end = cur_chunk_start c + chunk_size (header (cur_buf c)) in
                      if ref_off < cur_chunk_start c + CHUNK_HEADER_SIZE \<or> chunk_end < ref_off + 4
                      then ([], mark_stale c)
                      else (case try_read_u32 (cur_buf c) ref_off of
                          None \<Rightarrow> ([], mark_stale c)
                        | Some len \<Rightarrow>
                            (case (do { a \<leftarrow> checked_add ref_off 4; checked_add a (unat len) }) of
                               None \<Rightarrow> ([], mark_stale c)
                             | Some end \<Rightarrow>
                                 if chunk_end < end \<or> length (cur_buf c) < end then ([], mark_stale c)
                                 else if v3 then (bslice (ref_off + 4) (end - (ref_off + 4)) (cur_buf c), c)
                                 else ([], mark_stale c)))))
              else (case checked_add (cur_pos c) (unat raw) of
                  None \<Rightarrow> ([], mark_stale c)
                | Some end \<Rightarrow>
                    if length (cur_data c) < end then ([], mark_stale c)
                    else (let data = bslice (cur_pos c) (unat raw) (cur_data c);
                              c' = c\<lparr>cur_pos := end\<rparr>
                          in if v3 then (data, c') else ([], mark_stale c')))))"

definition next_u8 :: "bool \<Rightarrow> bool \<Rightarrow> RowCursor \<Rightarrow> byte \<times> RowCursor" where
  "next_u8 v1 v2 c = (let (bs, c') = read_fixed 1 v1 v2 c in (hd bs, c'))"

definition next_u32 :: "bool \<Rightarrow> bool \<Rightarrow> RowCursor \<Rightarrow> u32 \<times> RowCursor" where
  "next_u32 v1 v2 c = (let (bs, c') = read_fixed 4 v1 v2 c in (word_of_le bs, c'))"

definition next_i32 :: "bool \<Rightarrow> bool \<Rightarrow> RowCursor \<Rightarrow> i32 \<times> RowCursor" where
  "next_i32 v1 v2 c = (let (bs, c') = read_fixed 4 v1 v2 c in (word_of_le bs, c'))"

definition next_i64 :: "bool \<Rightarrow> bool \<Rightarrow> RowCursor \<Rightarrow> i64 \<times> RowCursor" where
  "next_i64 v1 v2 c = (let (bs, c') = read_fixed 8 v1 v2 c in (word_of_le bs, c'))"

definition next_f32 :: "bool \<Rightarrow> bool \<Rightarrow> RowCursor \<Rightarrow> f32 \<times> RowCursor" where
  "next_f32 v1 v2 c = (let (bs, c') = read_fixed 4 v1 v2 c in (word_of_le bs, c'))"

definition next_f64 :: "bool \<Rightarrow> bool \<Rightarrow> RowCursor \<Rightarrow> f64 \<times> RowCursor" where
  "next_f64 v1 v2 c = (let (bs, c') = read_fixed 8 v1 v2 c in (word_of_le bs, c'))"

definition next_u64 :: "bool \<Rightarrow> bool \<Rightarrow> RowCursor \<Rightarrow> u64 \<times> RowCursor" where
  "next_u64 v1 v2 c = (let (bs, c') = read_fixed 8 v1 v2 c in (word_of_le bs, c'))"

definition next_str :: "bool \<Rightarrow> bool \<Rightarrow> bool \<Rightarrow> RowCursor \<Rightarrow> byte list \<times> RowCursor" where
  "next_str v1 v2 v3 c =
    (let (bs, c') = read_lp v1 v2 v3 c
     in (if bs = [] then [] else (case from_utf8 bs of Some s \<Rightarrow> s | None \<Rightarrow> []), c'))"

definition next_bytes :: "bool \<Rightarrow> bool \<Rightarrow> bool \<Rightarrow> RowCursor \<Rightarrow> byte list \<times> RowCursor" where
  "next_bytes v1 v2 v3 c = read_lp v1 v2 v3 c"

section \<open>The chunk iterator\<close>

record RowIter =
  it_buf :: buf
  it_chunk_start :: usize
  it_pos :: usize
  it_end :: usize
  it_generation :: nat
  it_pin :: "ChunkReadPin option"

text \<open>
  \<open>valid pos\<close> gives the outcomes of the two \<open>ensure_current_process\<close> calls made for the row at \<open>pos\<close>;
  without a pin \<open>is_valid\<close> is false.
\<close>

function row_iter_next :: "(usize \<Rightarrow> bool \<times> bool) \<Rightarrow> RowIter \<Rightarrow> (Row option \<times> RowIter) option" where
  "row_iter_next valid it =
    (if it_pos it + 4 \<le> it_end it then
       (if \<not> (it_pin it \<noteq> None \<and> fst (valid (it_pos it))) then Some (None, it)
        else do {
          row_len \<leftarrow> r32 (it_buf it) (it_pos it);
          if it_end it - it_pos it < 4 + row_len then Some (None, it)
          else do {
            let row_end = it_pos it + (4 + row_len);
            let it' = it\<lparr>it_pos := row_end\<rparr>;
            if it_pin it \<noteq> None \<and> snd (valid (it_pos it)) then do {
              d \<leftarrow> get_range (it_buf it) (it_pos it + 4) row_end;
              Some (Some \<lparr>row_data = d, row_buf = it_buf it, row_chunk_start = it_chunk_start it,
                          row_generation = it_generation it\<rparr>, it')
            }
            else row_iter_next valid it'
          }
        })
     else Some (None, it))"
  by pat_completeness auto
termination
  by (relation "measure (\<lambda>(v, it). it_end it - it_pos it)") auto

declare row_iter_next.simps [simp del]

text \<open>A \<open>for\<close> loop over the iterator: call \<open>next\<close> until it yields nothing, at most \<open>n\<close> times.\<close>

fun row_iter_take :: "nat \<Rightarrow> (usize \<Rightarrow> bool \<times> bool) \<Rightarrow> RowIter \<Rightarrow> Row list option" where
  "row_iter_take 0 valid it = Some []"
| "row_iter_take (Suc n) valid it = do {
     (r, it') \<leftarrow> row_iter_next valid it;
     (case r of
        None \<Rightarrow> Some []
      | Some row \<Rightarrow> do { rs \<leftarrow> row_iter_take n valid it'; Some (row # rs) })
   }"

end
