(* ===== verification/Raw_Append.thy ===== *)
theory Raw_Append
  imports Raw Framing
begin

text \<open>
  What the raw writer does to a chunk. \<open>chunk_only\<close> is the frame of an append (nothing outside the
  chunk changes), \<open>payload\<close> the published bytes of a chunk, and the lemmas give the exact effect of
  \<open>write_row_bytes\<close>, including that it cannot panic on a table of valid geometry.
\<close>

section \<open>Frames and views\<close>

definition chunk_only :: "buf \<Rightarrow> buf \<Rightarrow> usize \<Rightarrow> bool" where
  "chunk_only b b' i \<longleftrightarrow> length b' = length b \<and>
    (\<forall>off n. off + n \<le> chunk_start_off b i \<or> chunk_start_off b i + chunk_size (header b) \<le> off \<longrightarrow>
       bslice off n b' = bslice off n b)"

definition payload :: "buf \<Rightarrow> usize \<Rightarrow> byte list" where
  "payload b i = bslice (chunk_start_off b i + CHUNK_HEADER_SIZE) (used (chunk_header b (chunk_start_off b i))) b"

abbreviation chunk_hdr :: "buf \<Rightarrow> usize \<Rightarrow> ChunkHeader" where
  "chunk_hdr b i \<equiv> chunk_header b (chunk_start_off b i)"

definition row_bytes :: "Value list \<Rightarrow> byte list" where
  "row_bytes vs = concat (map value_bytes vs)"

definition row_data_size :: "Value list \<Rightarrow> usize" where
  "row_data_size vs = sum_list (map encoded_size vs)"

lemma length_row_bytes [simp]: "length (row_bytes vs) = row_data_size vs"
  by (simp add: row_bytes_def row_data_size_def length_concat o_def)

lemma chunk_only_slice:
  "chunk_only b b' i \<Longrightarrow> off + n \<le> chunk_start_off b i \<or> chunk_start_off b i + chunk_size (header b) \<le> off \<Longrightarrow>
   bslice off n b' = bslice off n b"
  unfolding chunk_only_def by blast

lemma chunk_only_rd:
  "chunk_only b b' i \<Longrightarrow> off + n \<le> chunk_start_off b i \<or> chunk_start_off b i + chunk_size (header b) \<le> off \<Longrightarrow>
   rd off n b' = rd off n b"
  by (simp add: rd_def chunk_only_slice)

lemma chunk_only_length: "chunk_only b b' i \<Longrightarrow> length b' = length b"
  by (simp add: chunk_only_def)

lemma chunk_only_header:
  assumes "table_geom b" "i < num_chunks (header b)" "chunk_only b b' i"
  shows "header b' = header b"
proof -
  have "rd off n b' = rd off n b" if "off + n \<le> 128" for off n
    using that chunk_only_rd [OF assms(3), of off n] chunk_bounds(1) [OF assms(1,2)] by simp
  then show ?thesis by (simp add: header_def)
qed

lemma chunk_only_cold:
  assumes "table_geom b" "i < num_chunks (header b)" "chunk_only b b' i"
  shows "cold_eq b b'"
proof -
  have "128 + 64 * num_cols (header b) \<le> chunk_start_off b i"
    using chunk_bounds(2) [OF assms(1,2)] table_geomD(5) [OF assms(1)] by (simp add: header_def)
  then show ?thesis
    using assms(3) by (simp add: cold_eq_def chunk_only_length chunk_only_slice)
qed

lemma chunk_only_other:
  assumes "chunk_only b b' i" "j \<noteq> i" "chunk_start_off b' j = chunk_start_off b j"
    and "40 \<le> chunk_size (header b)"
  shows "chunk_hdr b' j = chunk_hdr b j"
    and "used (chunk_hdr b j) \<le> chunk_size (header b) - 40 \<Longrightarrow> payload b' j = payload b j"
proof -
  let ?cj = "chunk_start_off b j" and ?n = "chunk_size (header b)"
  have ap: "?cj + ?n \<le> chunk_start_off b i \<or> chunk_start_off b i + ?n \<le> ?cj"
    using chunk_apart [OF assms(2), of b] .
  have r: "rd (?cj + k) m b' = rd (?cj + k) m b" if "k + m \<le> ?n" for k m
    using ap that by (intro chunk_only_rd [OF assms(1)]) auto
  show ch: "chunk_hdr b' j = chunk_hdr b j"
    using assms(3,4) r [of 0 8] r [of 8 4] r [of 12 4] r [of 16 4] r [of 24 8] r [of 32 8]
    by (simp add: chunk_header_def)
  assume "used (chunk_hdr b j) \<le> ?n - 40"
  then show "payload b' j = payload b j"
    unfolding payload_def assms(3) ch [unfolded assms(3)]
    using ap assms(4) by (intro chunk_only_slice [OF assms(1)]) (auto simp: layout_consts)
qed

lemma chunk_only_leases:
  assumes "table_geom b" "i < num_chunks (header b)" "chunk_only b b' i"
    and "c < num_chunks (header b)" "s < lease_slots (header b)"
  shows "reader_lease b' c s = reader_lease b c s"
proof -
  have "reader_lease_off b c s + 16 \<le> chunk_start_off b i"
    using lease_bounds(2) [OF assms(1,4,5)] chunk_bounds(2) [OF assms(1,2)] by simp
  moreover have "reader_lease_off b' c s = reader_lease_off b c s"
    using cold_eq_lease_off chunk_only_cold [OF assms(1-3)] by blast
  ultimately show ?thesis
    using chunk_only_rd [OF assms(3)] by (simp add: reader_lease_def Let_def)
qed

lemma chunk_only_refl [simp]: "chunk_only b b i"
  by (simp add: chunk_only_def)

lemma chunk_only_trans:
  assumes "table_geom a" "i < num_chunks (header a)" "chunk_only a b i" "chunk_only b c i"
  shows "chunk_only a c i"
  using assms(3,4)
  by (simp add: chunk_only_def chunk_start_off_def chunk_only_header [OF assms(1-3)])

lemma chunk_only_splice:
  assumes "off + length bs \<le> length b" "chunk_start_off b i \<le> off"
    and "off + length bs \<le> chunk_start_off b i + chunk_size (header b)"
  shows "chunk_only b (bsplice off bs b) i"
  using assms unfolding chunk_only_def by (auto simp: slice_splice_other)

lemma chunk_only_wr:
  assumes "off + n \<le> length b" "chunk_start_off b i \<le> off"
    and "off + n \<le> chunk_start_off b i + chunk_size (header b)"
  shows "chunk_only b (wr off n v b) i"
  using assms unfolding wr_def by (intro chunk_only_splice) auto

section \<open>Encoding a row\<close>

lemma encode_all_eq:
  "off + row_data_size vs \<le> length b \<Longrightarrow> encode_all vs off b = Some (bsplice off (row_bytes vs) b)"
proof (induction vs arbitrary: off b)
  case (Cons v vs)
  from Cons.prems have fit: "off + encoded_size v + row_data_size vs \<le> length b"
    by (simp add: row_data_size_def)
  let ?b = "bsplice off (value_bytes v) b"
  have "encode_at v off b = Some (?b, encoded_size v)"
    using fit by (simp add: encode_at_eq_Some)
  moreover have "encode_all vs (off + encoded_size v) ?b =
      Some (bsplice (off + encoded_size v) (row_bytes vs) ?b)"
    using fit by (intro Cons.IH) simp
  moreover have "bsplice (off + encoded_size v) (row_bytes vs) ?b = bsplice off (row_bytes (v # vs)) b"
    using splice_splice_adjacent [of off "value_bytes v" "row_bytes vs" b] fit
    by (simp add: row_bytes_def row_data_size_def length_concat o_def)
  ultimately show ?case by simp
qed (simp add: row_bytes_def row_data_size_def)

section \<open>Publishing\<close>

definition ts_min :: "i64 \<Rightarrow> i64 \<Rightarrow> i64" where
  "ts_min a b = (if sint b < sint a then b else a)"

definition ts_max :: "i64 \<Rightarrow> i64 \<Rightarrow> i64" where
  "ts_max a b = (if sint a < sint b then b else a)"

lemma u64_fits: "unat (w::64 word) mod 18446744073709551616 = unat w"
  using unat_bound [of w] by simp

lemma note_row_ts_props:
  assumes "cs + 40 \<le> length b"
  shows "length (note_row_ts b cs ts) = length b"
    and "off + n \<le> cs + 24 \<or> cs + 40 \<le> off \<Longrightarrow> bslice off n (note_row_ts b cs ts) = bslice off n b"
    and "chunk_header (note_row_ts b cs ts) cs =
      (chunk_header b cs)\<lparr>min_ts := ts_min (min_ts (chunk_header b cs)) ts,
                          max_ts := ts_max (max_ts (chunk_header b cs)) ts\<rparr>"
  using assms
  by (auto simp: note_row_ts_def Let_def chunk_header_def buf_simps ts_min_def ts_max_def u64_fits)

definition opt_ts_min :: "i64 \<Rightarrow> i64 option \<Rightarrow> i64" where
  "opt_ts_min a t = (case t of Some x \<Rightarrow> ts_min a x | None \<Rightarrow> a)"

definition opt_ts_max :: "i64 \<Rightarrow> i64 option \<Rightarrow> i64" where
  "opt_ts_max a t = (case t of Some x \<Rightarrow> ts_max a x | None \<Rightarrow> a)"

lemma publish_row_props:
  assumes "cs + 40 \<le> length b"
  shows "length (publish_row b cs t u) = length b"
    and "off + n \<le> cs + 8 \<or> cs + 40 \<le> off \<Longrightarrow> bslice off n (publish_row b cs t u) = bslice off n b"
    and "chunk_header (publish_row b cs t u) cs =
      (chunk_header b cs)\<lparr>used := u mod 2 ^ 32, row_count := (row_count (chunk_header b cs) + 1) mod 2 ^ 32,
         min_ts := opt_ts_min (min_ts (chunk_header b cs)) t,
         max_ts := opt_ts_max (max_ts (chunk_header b cs)) t\<rparr>"
proof -
  define b1 where "b1 = (case t of Some x \<Rightarrow> note_row_ts b cs x | None \<Rightarrow> b)"
  have l1: "length b1 = length b"
    using note_row_ts_props(1) [OF assms] by (simp add: b1_def split: option.split)
  have s1: "bslice off n b1 = bslice off n b" if "off + n \<le> cs + 8 \<or> cs + 40 \<le> off" for off n
    using that note_row_ts_props(2) [OF assms, of off n] by (auto simp: b1_def split: option.split)
  have c1: "chunk_header b1 cs = (chunk_header b cs)\<lparr>min_ts := opt_ts_min (min_ts (chunk_header b cs)) t,
         max_ts := opt_ts_max (max_ts (chunk_header b cs)) t\<rparr>"
    using note_row_ts_props(3) [OF assms]
    by (auto simp: b1_def opt_ts_min_def opt_ts_max_def split: option.split)
  have p: "publish_row b cs t u =
      wr (cs + 12) 4 (row_count (chunk_header (wr (cs + 8) 4 u b1) cs) + 1) (wr (cs + 8) 4 u b1)"
    by (simp add: publish_row_def Let_def b1_def)
  have c2: "chunk_header (publish_row b cs t u) cs =
      (chunk_header b1 cs)\<lparr>used := u mod 2 ^ 32, row_count := (row_count (chunk_header b1 cs) + 1) mod 2 ^ 32\<rparr>"
    using assms l1 by (simp add: p chunk_header_def buf_simps)
  show "length (publish_row b cs t u) = length b" using assms l1 by (simp add: p)
  show "chunk_header (publish_row b cs t u) cs =
      (chunk_header b cs)\<lparr>used := u mod 2 ^ 32, row_count := (row_count (chunk_header b cs) + 1) mod 2 ^ 32,
         min_ts := opt_ts_min (min_ts (chunk_header b cs)) t,
         max_ts := opt_ts_max (max_ts (chunk_header b cs)) t\<rparr>"
    by (simp add: c2 c1)
  assume "off + n \<le> cs + 8 \<or> cs + 40 \<le> off"
  with s1 assms l1 show "bslice off n (publish_row b cs t u) = bslice off n b"
    by (auto simp: p slice_wr_other)
qed

section \<open>The effect of an append\<close>

definition appended :: "buf \<Rightarrow> buf \<Rightarrow> usize \<Rightarrow> byte list \<Rightarrow> i64 option \<Rightarrow> bool" where
  "appended b b' i bytes t \<longleftrightarrow> chunk_only b b' i \<and> payload b' i = payload b i @ bytes \<and>
    chunk_hdr b' i = (chunk_hdr b i)\<lparr>used := used (chunk_hdr b i) + length bytes,
       row_count := (row_count (chunk_hdr b i) + 1) mod 2 ^ 32,
       min_ts := opt_ts_min (min_ts (chunk_hdr b i)) t, max_ts := opt_ts_max (max_ts (chunk_hdr b i)) t\<rparr>"

lemma publish_appended:
  assumes "table_geom b" "i < num_chunks (header b)"
    and "CHUNK_HEADER_SIZE + used (chunk_hdr b i) + length bytes \<le> chunk_size (header b)"
  shows "appended b
    (publish_row (bsplice (chunk_start_off b i + CHUNK_HEADER_SIZE + used (chunk_hdr b i)) bytes b)
       (chunk_start_off b i) t (used (chunk_hdr b i) + length bytes)) i bytes t"
proof -
  let ?cs = "chunk_start_off b i" and ?u = "used (chunk_hdr b i)" and ?n = "chunk_size (header b)"
  let ?off = "?cs + 40 + ?u"
  let ?b1 = "bsplice ?off bytes b"
  let ?b2 = "publish_row ?b1 ?cs t (?u + length bytes)"
  have fit: "40 + ?u + length bytes \<le> ?n" using assms(3) by (simp add: layout_consts)
  have inb: "?cs + ?n \<le> length b" by (rule chunk_bounds(3) [OF assms(1,2)])
  have l1: "length ?b1 = length b" using fit inb by simp
  have inb1: "?cs + 40 \<le> length ?b1" using fit inb l1 by simp
  note pp = publish_row_props [OF inb1]
  have co1: "chunk_only b ?b1 i" using fit inb by (intro chunk_only_splice) auto
  have co: "chunk_only b ?b2 i"
    unfolding chunk_only_def
  proof (intro conjI allI impI)
    show "length ?b2 = length b" using pp(1) l1 by simp
    fix off n assume o: "off + n \<le> ?cs \<or> ?cs + ?n \<le> off"
    then have "off + n \<le> ?cs + 8 \<or> ?cs + 40 \<le> off" using fit by auto
    then show "bslice off n ?b2 = bslice off n b"
      using pp(2) chunk_only_slice [OF co1] o by simp
  qed
  have ch1: "chunk_header ?b1 ?cs = chunk_hdr b i"
    using fit inb by (simp add: chunk_header_def rd_splice_other)
  have start: "chunk_start_off ?b2 i = ?cs"
    using cold_eq_chunk_start chunk_only_cold [OF assms(1,2) co] by blast
  have small: "(?u + length bytes) mod 2 ^ 32 = ?u + length bytes"
    using fit rd4_bound [of 24 b] by (simp add: header_def)
  have hdr: "chunk_hdr ?b2 i = (chunk_hdr b i)\<lparr>used := ?u + length bytes,
       row_count := (row_count (chunk_hdr b i) + 1) mod 2 ^ 32,
       min_ts := opt_ts_min (min_ts (chunk_hdr b i)) t, max_ts := opt_ts_max (max_ts (chunk_hdr b i)) t\<rparr>"
    unfolding start pp(3) ch1 small by simp
  have "bslice (?cs + 40) (?u + length bytes) ?b2 = bslice (?cs + 40) (?u + length bytes) ?b1"
    by (intro pp(2)) simp
  also have "\<dots> = bslice (?cs + 40) ?u ?b1 @ bslice ?off (length bytes) ?b1"
    by (simp add: slice_add)
  also have "\<dots> = payload b i @ bytes"
    using fit inb by (simp add: payload_def layout_consts slice_splice_other slice_splice_same)
  finally have "payload ?b2 i = payload b i @ bytes"
    unfolding payload_def start hdr [unfolded start] by (simp add: layout_consts)
  with co hdr show ?thesis by (simp add: appended_def layout_consts)
qed

lemma write_row_bytes_no_room:
  "chunk_size (header b) < CHUNK_HEADER_SIZE + used (chunk_hdr b (write_chunk (header b))) + (4 + n) \<Longrightarrow>
   write_row_bytes b vs n = Some (False, b)"
  by (simp add: write_row_bytes_def Let_def chunk_start_off_def add.assoc)

lemma write_row_bytes_eq:
  assumes "table_geom b" "write_chunk (header b) < num_chunks (header b)"
    and "CHUNK_HEADER_SIZE + used (chunk_hdr b (write_chunk (header b))) + (4 + row_data_size vs)
       \<le> chunk_size (header b)"
  shows "write_row_bytes b vs (row_data_size vs) = Some (True, publish_row
     (bsplice (chunk_start_off b (write_chunk (header b)) + CHUNK_HEADER_SIZE + used (chunk_hdr b (write_chunk (header b))))
        (frame (row_bytes vs)) b)
     (chunk_start_off b (write_chunk (header b))) (row_ts (header b) vs)
     (used (chunk_hdr b (write_chunk (header b))) + (4 + row_data_size vs)))"
proof -
  let ?i = "write_chunk (header b)" and ?n = "row_data_size vs"
  let ?cs = "chunk_start_off b ?i" and ?u = "used (chunk_hdr b ?i)"
  let ?rs = "?cs + CHUNK_HEADER_SIZE + ?u"
  have inb: "?cs + chunk_size (header b) \<le> length b" by (rule chunk_bounds(3) [OF assms(1,2)])
  then have fit: "?rs + 4 + ?n \<le> length b" using assms(3) by linarith
  let ?b1 = "wr ?rs 4 ?n b"
  have w: "w32 b ?rs ?n = Some ?b1" using fit by (intro w32_in) simp
  have e: "encode_all vs (?rs + 4) ?b1 = Some (bsplice (?rs + 4) (row_bytes vs) ?b1)"
    using fit by (intro encode_all_eq) simp
  have j: "bsplice (?rs + 4) (row_bytes vs) ?b1 = bsplice ?rs (frame (row_bytes vs)) b"
    using splice_splice_adjacent [of ?rs "le_bytes 4 ?n" "row_bytes vs" b] fit
    by (simp add: wr_def frame_def)
  have "chunk_only b (bsplice ?rs (frame (row_bytes vs)) b) ?i"
    using assms(3) fit by (intro chunk_only_splice) (auto simp: add.assoc)
  then have h: "header (bsplice ?rs (frame (row_bytes vs)) b) = header b"
    by (rule chunk_only_header [OF assms(1,2)])
  show ?thesis
    using assms(3) w e j h
    by (simp add: write_row_bytes_def Let_def chunk_start_off_def add.assoc)
qed

lemma write_row_bytes_appends:
  assumes "table_geom b" "write_chunk (header b) < num_chunks (header b)"
    and "CHUNK_HEADER_SIZE + used (chunk_hdr b (write_chunk (header b))) + (4 + row_data_size vs)
       \<le> chunk_size (header b)"
  shows "\<exists>b'. write_row_bytes b vs (row_data_size vs) = Some (True, b') \<and>
    appended b b' (write_chunk (header b)) (frame (row_bytes vs)) (row_ts (header b) vs)"
  using write_row_bytes_eq [OF assms]
    publish_appended [OF assms(1,2), of "frame (row_bytes vs)" "row_ts (header b) vs"] assms(3)
  by auto

end
