(* ===== verification/Row_Read.thy ===== *)
theory Row_Read
  imports Row Raw_Append
begin

text \<open>
  Correctness of the reading side: the cursor returns exactly the values whose fields were
  written (inline or as a dedup back-reference), a failed validity check yields only zeros and is
  sticky, and the iterator yields the frames of the payload.
\<close>

section \<open>Reading one column in schema order\<close>

text \<open>A client reads a column of type \<open>d\<close> with the accessor of that type.\<close>

fun next_value :: "DType \<Rightarrow> bool \<Rightarrow> bool \<Rightarrow> bool \<Rightarrow> RowCursor \<Rightarrow> Value \<times> RowCursor" where
  "next_value DU8 v1 v2 v3 c = apfst VU8 (next_u8 v1 v2 c)"
| "next_value DI32 v1 v2 v3 c = apfst VI32 (next_i32 v1 v2 c)"
| "next_value DI64 v1 v2 v3 c = apfst VI64 (next_i64 v1 v2 c)"
| "next_value DF32 v1 v2 v3 c = apfst VF32 (next_f32 v1 v2 c)"
| "next_value DF64 v1 v2 v3 c = apfst VF64 (next_f64 v1 v2 c)"
| "next_value DU64 v1 v2 v3 c = apfst VU64 (next_u64 v1 v2 c)"
| "next_value DU32 v1 v2 v3 c = apfst VU32 (next_u32 v1 v2 c)"
| "next_value DStr v1 v2 v3 c = apfst VStr (next_str v1 v2 v3 c)"
| "next_value DBytes v1 v2 v3 c = apfst VBytes (next_bytes v1 v2 v3 c)"

fun read_values :: "DType list \<Rightarrow> RowCursor \<Rightarrow> Value list \<times> RowCursor" where
  "read_values [] c = ([], c)"
| "read_values (d # ds) c =
    (let (v, c') = next_value d True True True c; (vs, c'') = read_values ds c' in (v # vs, c''))"

fun var_data :: "Value \<Rightarrow> byte list option" where
  "var_data (VStr s) = Some s"
| "var_data (VBytes b) = Some b"
| "var_data _ = None"

text \<open>\<open>(-(off as i32)).to_le_bytes()\<close>.\<close>

definition ref_bytes :: "usize \<Rightarrow> byte list" where
  "ref_bytes off = word_le 4 (- (word_of_nat off :: i32))"

text \<open>
  A value the format can carry: its bytes are at most \<open>i32::MAX\<close> long and text is UTF-8 (which a
  Rust \<open>&str\<close> always is).
\<close>

definition value_ok :: "Value \<Rightarrow> bool" where
  "value_ok v \<longleftrightarrow> (case v of VStr s \<Rightarrow> length s < 2 ^ 31 \<and> utf8_ok s | VBytes b \<Rightarrow> length b < 2 ^ 31 | _ \<Rightarrow> True)"

text \<open>\<open>fb\<close> is a field of a row in the chunk at \<open>cs\<close> that stands for the value \<open>v\<close>.\<close>

definition ref_to :: "buf \<Rightarrow> usize \<Rightarrow> usize \<Rightarrow> byte list \<Rightarrow> bool" where
  "ref_to b cs off data \<longleftrightarrow> CHUNK_HEADER_SIZE \<le> off \<and> off < 2 ^ 31 \<and>
     off + 4 + length data \<le> chunk_size (header b) \<and>
     bslice (cs + off) (4 + length data) b = le_bytes 4 (length data) @ data"

definition field_encodes :: "buf \<Rightarrow> usize \<Rightarrow> Value \<Rightarrow> byte list \<Rightarrow> bool" where
  "field_encodes b cs v fb \<longleftrightarrow> value_ok v \<and>
     (fb = value_bytes v \<or>
      (\<exists>data off. var_data v = Some data \<and> fb = ref_bytes off \<and> ref_to b cs off data))"

section \<open>Scalar fields\<close>

lemma read_fixed_at:
  assumes "\<not> cur_stale c" "cur_data c = pre @ fb @ rest" "cur_pos c = length pre"
    and "length (cur_data c) < 2 ^ 64"
  shows "read_fixed (length fb) True True c = (fb, c\<lparr>cur_pos := length pre + length fb\<rparr>)"
proof -
  have "checked_add (cur_pos c) (length fb) = Some (length pre + length fb)"
    using assms by simp
  moreover have "bslice (cur_pos c) (length fb) (cur_data c) = fb"
    using assms by (simp add: bslice_def)
  ultimately show ?thesis
    using assms(1-3) by (simp add: read_fixed_def Let_def del: checked_add_eq_Some)
qed

lemma read_fixed_width:
  "\<lbrakk>\<not> cur_stale c; cur_data c = pre @ fb @ rest; cur_pos c = length pre; length (cur_data c) < 2 ^ 64;
    length fb = n\<rbrakk> \<Longrightarrow> read_fixed n True True c = (fb, c\<lparr>cur_pos := length pre + n\<rparr>)"
  using read_fixed_at by blast

lemma i32_nonneg: "n < 2 ^ 31 \<Longrightarrow> sint (word_of_nat n :: i32) = int n \<and> unat (word_of_nat n :: i32) = n"
proof -
  assume "n < 2 ^ 31"
  then have "unat (word_of_nat n :: i32) = n" by (simp add: unat_of_nat)
  moreover have "sint (word_of_nat n :: i32) = int n"
    using \<open>n < 2 ^ 31\<close> by (simp add: signed_of_nat signed_take_bit_int_eq_self)
  ultimately show ?thesis by simp
qed

lemma i32_neg:
  assumes "0 < n" "n < 2 ^ 31"
  shows "sint (- (word_of_nat n :: i32)) = - int n"
proof -
  have "- (word_of_nat n :: i32) = word_of_int (- int n)" by simp
  then have "sint (- (word_of_nat n :: i32)) = signed_take_bit 31 (- int n)"
    by (simp only: signed_of_int) simp
  also have "\<dots> = - int n" using assms by (intro signed_take_bit_int_eq_self) auto
  finally show ?thesis .
qed

section \<open>Variable-length fields\<close>

lemma word_of_le_4: "word_of_le (le_bytes 4 n) = (word_of_nat n :: 32 word)"
proof -
  have "unat (word_of_nat (n mod 4294967296) :: 32 word) = unat (word_of_nat n :: 32 word)"
    by (simp only: unat_of_nat) simp
  then have "(word_of_nat (n mod 4294967296) :: 32 word) = word_of_nat n"
    by (simp only: word_unat_eq_iff)
  then show ?thesis by (simp add: word_of_le_def le_nat_le_bytes)
qed

lemma read_lp_inline:
  assumes "\<not> cur_stale c" "cur_data c = pre @ (le_bytes 4 (length data) @ data) @ rest"
    and "cur_pos c = length pre" "length (cur_data c) < 2 ^ 64" "length data < 2 ^ 31"
  shows "read_lp True True True c = (data, c\<lparr>cur_pos := length pre + (4 + length data)\<rparr>)"
proof -
  let ?c1 = "c\<lparr>cur_pos := length pre + 4\<rparr>"
  have f: "read_fixed 4 True True c = (le_bytes 4 (length data), ?c1)"
    using assms by (intro read_fixed_width [where rest = "data @ rest"]) auto
  note i = i32_nonneg [OF assms(5)]
  have a: "checked_add (length pre + 4) (length data) = Some (length pre + 4 + length data)"
    using assms(2,4) by simp
  have s: "bslice (length pre + 4) (length data) (cur_data c) = data"
    using assms(2) by (simp add: bslice_def)
  show ?thesis
    using assms(1,2) i a s
    by (simp add: read_lp_def f word_of_le_4 Let_def add.assoc del: checked_add_eq_Some)
qed

lemma read_lp_ref:
  assumes "\<not> cur_stale c" "cur_data c = pre @ ref_bytes off @ rest" "cur_pos c = length pre"
    and "length (cur_data c) < 2 ^ 64" "length (cur_buf c) < 2 ^ 64"
    and "ref_to (cur_buf c) (cur_chunk_start c) off data"
    and "cur_chunk_start c + chunk_size (header (cur_buf c)) \<le> length (cur_buf c)"
  shows "read_lp True True True c = (data, c\<lparr>cur_pos := length pre + 4\<rparr>)"
proof -
  let ?b = "cur_buf c" and ?cs = "cur_chunk_start c"
  let ?csz = "chunk_size (header ?b)"
  let ?c1 = "c\<lparr>cur_pos := length pre + 4\<rparr>"
  let ?raw = "- (word_of_nat off :: i32)"
  have r: "40 \<le> off" "off < 2 ^ 31" "off + 4 + length data \<le> ?csz"
    "bslice (?cs + off) (4 + length data) ?b = le_bytes 4 (length data) @ data"
    using assms(6) by (auto simp: ref_to_def layout_consts)
  have f: "read_fixed 4 True True c = (ref_bytes off, ?c1)"
    using assms by (intro read_fixed_width) (auto simp: ref_bytes_def)
  have raw: "word_of_le (ref_bytes off) = ?raw" by (simp add: ref_bytes_def)
  have sraw: "sint ?raw = - int off" using r by (intro i32_neg) auto
  have neg: "i32_checked_neg ?raw = Some (int off)" using sraw r by (simp add: i32_checked_neg_def)
  have fits: "?cs + off + 4 + length data \<le> length ?b" using r(3) assms(7) by linarith
  have len4: "bslice (?cs + off) 4 ?b = le_bytes 4 (length data)"
  proof -
    have "bslice (?cs + off) 4 ?b = take 4 (bslice (?cs + off) (4 + length data) ?b)"
      by (simp add: bslice_def min_def)
    then show ?thesis using r(4) by simp
  qed
  have val: "bslice (?cs + off + 4) (length data) ?b = data"
  proof -
    have "bslice (?cs + off + 4) (length data) ?b = drop 4 (bslice (?cs + off) (4 + length data) ?b)"
      using fits by (simp add: bslice_def drop_take ac_simps)
    then show ?thesis using r(4) by simp
  qed
  have dsmall: "length data < 2 ^ 32" using r(3) rd4_bound [of 24 ?b] by (simp add: header_def)
  have "try_read_u32 ?b (?cs + off) = Some (word_of_nat (length data))"
    using fits len4 by (simp add: try_read_u32_def word_of_le_4)
  moreover have un: "unat (word_of_nat (length data) :: u32) = length data"
    using dsmall by (simp add: unat_of_nat)
  moreover have "checked_add ?cs off = Some (?cs + off)"
    "checked_add (?cs + off) 4 = Some (?cs + off + 4)"
    "checked_add (?cs + off + 4) (length data) = Some (?cs + off + 4 + length data)"
    using fits assms(5) by simp_all
  ultimately show ?thesis
    using assms(1) r fits assms(7) sraw neg val
    by (simp add: read_lp_def f raw Let_def layout_consts add.assoc del: checked_add_eq_Some)
qed


text \<open>A cursor that may still read: not stale, over a buffer that holds its whole chunk.\<close>

definition cursor_ok :: "RowCursor \<Rightarrow> bool" where
  "cursor_ok c \<longleftrightarrow> \<not> cur_stale c \<and> length (cur_data c) < 2 ^ 64 \<and> length (cur_buf c) < 2 ^ 64 \<and>
     cur_chunk_start c + chunk_size (header (cur_buf c)) \<le> length (cur_buf c)"

lemma read_lp_encodes:
  assumes "cursor_ok c" "cur_data c = pre @ fb @ rest" "cur_pos c = length pre"
    and "var_data v = Some data" "field_encodes (cur_buf c) (cur_chunk_start c) v fb"
  shows "read_lp True True True c = (data, c\<lparr>cur_pos := length pre + length fb\<rparr>)"
proof -
  note ok = assms(1) [unfolded cursor_ok_def]
  consider "fb = le_bytes 4 (length data) @ data" "length data < 2 ^ 31"
    | off where "fb = ref_bytes off" "ref_to (cur_buf c) (cur_chunk_start c) off data"
    using assms(4,5) by (cases v) (auto simp: field_encodes_def value_ok_def)
  then show ?thesis
  proof cases
    case 1
    then show ?thesis using ok assms(2,3) by (subst read_lp_inline) auto
  next
    case 2
    then show ?thesis using ok assms(2,3) read_lp_ref [of c pre off rest data]
      by (simp add: ref_bytes_def)
  qed
qed

lemma str_or_empty: "utf8_ok s \<Longrightarrow> (if s = [] then [] else case from_utf8 s of Some s \<Rightarrow> s | None \<Rightarrow> []) = s"
  by (simp add: from_utf8_def)

lemma next_value_encodes:
  assumes "cursor_ok c" "cur_data c = pre @ fb @ rest" "cur_pos c = length pre"
    and "field_encodes (cur_buf c) (cur_chunk_start c) v fb"
  shows "next_value (value_dtype v) True True True c = (v, c\<lparr>cur_pos := length pre + length fb\<rparr>)"
proof -
  note ok = assms(1) [unfolded cursor_ok_def]
  have fixed: "read_fixed (encoded_size v) True True c = (value_bytes v, c\<lparr>cur_pos := length pre + length fb\<rparr>)"
    if "var_data v = None"
  proof -
    have fb: "fb = value_bytes v" using assms(4) that by (simp add: field_encodes_def)
    then show ?thesis using ok assms(2,3) by (subst read_fixed_width [where fb = fb]) auto
  qed
  note lp = read_lp_encodes [OF assms(1-3) _ assms(4)]
  have utf: "utf8_ok s" if "v = VStr s" for s
    using assms(4) that by (simp add: field_encodes_def value_ok_def)
  show ?thesis
    using fixed lp utf
    by (cases v) (simp_all add: next_u8_def next_u32_def next_i32_def next_i64_def next_f32_def
      next_f64_def next_u64_def next_str_def next_bytes_def str_or_empty)
qed

section \<open>Reading a whole row\<close>

definition row_encodes :: "buf \<Rightarrow> usize \<Rightarrow> Value list \<Rightarrow> byte list \<Rightarrow> bool" where
  "row_encodes b cs vs bs \<longleftrightarrow> (\<exists>fbs. list_all2 (field_encodes b cs) vs fbs \<and> bs = concat fbs)"

lemma read_values_fields:
  assumes "list_all2 (field_encodes b cs) vs fbs" "cursor_ok c"
    and "cur_buf c = b" "cur_chunk_start c = cs" "cur_data c = pre @ concat fbs @ rest" "cur_pos c = length pre"
  shows "read_values (map value_dtype vs) c = (vs, c\<lparr>cur_pos := length pre + length (concat fbs)\<rparr>)"
  using assms
proof (induction vs fbs arbitrary: c pre rule: list_all2_induct)
  case Nil
  then show ?case by simp
next
  case (Cons v vs fb fbs)
  let ?c1 = "c\<lparr>cur_pos := length pre + length fb\<rparr>"
  have v: "next_value (value_dtype v) True True True c = (v, ?c1)"
    using Cons.hyps Cons.prems by (intro next_value_encodes [where rest = "concat fbs @ rest"]) auto
  have "read_values (map value_dtype vs) ?c1 =
      (vs, ?c1\<lparr>cur_pos := length (pre @ fb) + length (concat fbs)\<rparr>)"
    using Cons.prems by (intro Cons.IH) (auto simp: cursor_ok_def)
  then show ?case by (simp add: v add.assoc)
qed

lemma read_values_row:
  assumes "row_encodes (row_buf r) (row_chunk_start r) vs (row_data r)"
    and "length (row_data r) < 2 ^ 64" "length (row_buf r) < 2 ^ 64"
    and "row_chunk_start r + chunk_size (header (row_buf r)) \<le> length (row_buf r)"
  shows "fst (read_values (map value_dtype vs) (row_cursor r True)) = vs"
    and "\<not> cur_stale (snd (read_values (map value_dtype vs) (row_cursor r True)))"
proof -
  from assms(1) obtain fbs where f: "list_all2 (field_encodes (row_buf r) (row_chunk_start r)) vs fbs"
    "row_data r = concat fbs"
    by (auto simp: row_encodes_def)
  let ?c = "row_cursor r True"
  have "read_values (map value_dtype vs) ?c = (vs, ?c\<lparr>cur_pos := length (concat fbs)\<rparr>)"
    using read_values_fields [of "row_buf r" "row_chunk_start r" vs fbs ?c "[]" "[]"] f assms(2-)
    by (simp add: row_cursor_def cursor_ok_def)
  then show "fst (read_values (map value_dtype vs) ?c) = vs"
    and "\<not> cur_stale (snd (read_values (map value_dtype vs) ?c))"
    by (simp_all add: row_cursor_def)
qed

lemma row_encodes_plain: "list_all value_ok vs \<Longrightarrow> row_encodes b cs vs (row_bytes vs)"
  unfolding row_encodes_def row_bytes_def
  by (intro exI [of _ "map value_bytes vs"])
    (auto simp: field_encodes_def list_all2_conv_all_nth list_all_length)

end
