(* ===== verification/Dedup.thy ===== *)
theory Dedup
  imports Row_Read
begin

text \<open>
  The per-chunk dedup map (\<open>probing/memtable/src/dedup.rs\<close>). The hash \<open>xxh3_64_with_seed\<close> comes
  from a third-party crate and is the parameter \<open>xxh3\<close>; nothing is assumed of it, since \<open>lookup\<close>
  compares the stored bytes before it answers.
\<close>

type_synonym hasher = "byte list \<Rightarrow> u64 \<Rightarrow> u64"

record DedupState =
  seen :: "u64 \<rightharpoonup> usize"
  pending :: "(u64 \<times> usize) list"
  min_dedup_len :: usize

definition dedup_new :: DedupState where
  "dedup_new = \<lparr>seen = Map.empty, pending = [], min_dedup_len = 0\<rparr>"

definition dedup_set_min_len :: "DedupState \<Rightarrow> usize \<Rightarrow> DedupState" where
  "dedup_set_min_len st len = st\<lparr>min_dedup_len := len\<rparr>"

definition dedup_clear :: "DedupState \<Rightarrow> DedupState" where
  "dedup_clear st = st\<lparr>seen := Map.empty, pending := []\<rparr>"

definition dedup_key :: "hasher \<Rightarrow> usize \<Rightarrow> byte list \<Rightarrow> u64" where
  "dedup_key xxh3 col data = xxh3 data (word_of_nat col)"

definition dedup_lookup ::
  "hasher \<Rightarrow> DedupState \<Rightarrow> usize \<Rightarrow> byte list \<Rightarrow> buf \<Rightarrow> usize \<Rightarrow> usize option" where
  "dedup_lookup xxh3 st col data b chunk_start =
    (if length data < min_dedup_len st then None
     else do {
       offset \<leftarrow> seen st (dedup_key xxh3 col data);
       prefix \<leftarrow> checked_add chunk_start offset;
       value_start \<leftarrow> checked_add prefix 4;
       len_bytes \<leftarrow> get_range b prefix value_start;
       value_end \<leftarrow> checked_add value_start (le_nat len_bytes);
       value \<leftarrow> get_range b value_start value_end;
       if value = data then Some offset else None
     })"

definition dedup_insert :: "hasher \<Rightarrow> DedupState \<Rightarrow> usize \<Rightarrow> byte list \<Rightarrow> usize \<Rightarrow> DedupState" where
  "dedup_insert xxh3 st col data chunk_offset =
    (if min_dedup_len st \<le> length data
     then st\<lparr>seen := (seen st)(dedup_key xxh3 col data \<mapsto> chunk_offset)\<rparr> else st)"

definition begin_row :: "DedupState \<Rightarrow> DedupState" where
  "begin_row st = st\<lparr>pending := []\<rparr>"

definition stage_insert :: "hasher \<Rightarrow> DedupState \<Rightarrow> usize \<Rightarrow> byte list \<Rightarrow> usize \<Rightarrow> DedupState" where
  "stage_insert xxh3 st col data chunk_offset =
    (if min_dedup_len st \<le> length data
     then st\<lparr>pending := pending st @ [(dedup_key xxh3 col data, chunk_offset)]\<rparr> else st)"

definition commit_row :: "DedupState \<Rightarrow> DedupState" where
  "commit_row st = st\<lparr>seen := foldl (\<lambda>m (k, off). m(k \<mapsto> off)) (seen st) (pending st), pending := []\<rparr>"

definition rollback_row :: "DedupState \<Rightarrow> DedupState" where
  "rollback_row st = st\<lparr>pending := []\<rparr>"

section \<open>The offsets a chunk may be referenced at\<close>

text \<open>
  \<open>lp_at b cs u off\<close>: at offset \<open>off\<close> of the chunk at \<open>cs\<close> there is a length-prefixed value that lies
  in the first \<open>u\<close> payload bytes. \<open>seen_ok\<close> is the invariant of the map: every remembered offset is
  such a place, so a reference to it stays inside the published region.
\<close>

definition lp_at :: "buf \<Rightarrow> usize \<Rightarrow> usize \<Rightarrow> usize \<Rightarrow> bool" where
  "lp_at b cs u off \<longleftrightarrow> CHUNK_HEADER_SIZE \<le> off \<and> off + 4 + rd (cs + off) 4 b \<le> CHUNK_HEADER_SIZE + u"

definition seen_ok :: "buf \<Rightarrow> usize \<Rightarrow> usize \<Rightarrow> DedupState \<Rightarrow> bool" where
  "seen_ok b cs u st \<longleftrightarrow> (\<forall>k off. seen st k = Some off \<longrightarrow> lp_at b cs u off)"

definition pending_ok :: "buf \<Rightarrow> usize \<Rightarrow> usize \<Rightarrow> DedupState \<Rightarrow> bool" where
  "pending_ok b cs u st \<longleftrightarrow> (\<forall>(k, off) \<in> set (pending st). lp_at b cs u off)"

lemma lp_at_mono: "lp_at b cs u off \<Longrightarrow> u \<le> u' \<Longrightarrow> lp_at b cs u' off"
  by (auto simp: lp_at_def)

lemma lp_at_cong:
  assumes "lp_at b cs u off" "bslice (cs + CHUNK_HEADER_SIZE) u b' = bslice (cs + CHUNK_HEADER_SIZE) u b"
  shows "lp_at b' cs u off"
proof -
  let ?k = "off - CHUNK_HEADER_SIZE"
  have k: "cs + off = cs + CHUNK_HEADER_SIZE + ?k" "?k + 4 \<le> u"
    using assms(1) by (auto simp: lp_at_def)
  have "rd (cs + off) 4 b' = rd (cs + off) 4 b"
    unfolding k(1) using rd_slice [OF k(2), of "cs + CHUNK_HEADER_SIZE"] assms(2) by metis
  then show ?thesis using assms(1) by (simp add: lp_at_def)
qed

lemma seen_ok_cong:
  "seen_ok b cs u st \<Longrightarrow> bslice (cs + CHUNK_HEADER_SIZE) u b' = bslice (cs + CHUNK_HEADER_SIZE) u b \<Longrightarrow>
   seen_ok b' cs u st"
  unfolding seen_ok_def using lp_at_cong by blast

lemma seen_ok_mono: "seen_ok b cs u st \<Longrightarrow> u \<le> u' \<Longrightarrow> seen_ok b cs u' st"
  unfolding seen_ok_def using lp_at_mono by blast

lemma seen_ok_new [simp]: "seen_ok b cs u dedup_new"
  by (simp add: seen_ok_def dedup_new_def)

lemma seen_ok_clear [simp]: "seen_ok b cs u (dedup_clear st)"
  by (simp add: seen_ok_def dedup_clear_def)

lemma seen_ok_set_min [simp]: "seen_ok b cs u (dedup_set_min_len st n) = seen_ok b cs u st"
  by (simp add: seen_ok_def dedup_set_min_len_def)

lemma seen_ok_insert:
  "seen_ok b cs u st \<Longrightarrow> lp_at b cs u off \<Longrightarrow> seen_ok b cs u (dedup_insert xxh3 st col data off)"
  by (auto simp: seen_ok_def dedup_insert_def)

lemma fold_updates:
  "foldl (\<lambda>m (k, off). m(k \<mapsto> off)) m xs k = Some off \<Longrightarrow> m k = Some off \<or> (k, off) \<in> set xs"
proof (induction xs arbitrary: m)
  case (Cons x xs)
  obtain k' o' where x: "x = (k', o')" by force
  from Cons.prems have "foldl (\<lambda>m (k, off). m(k \<mapsto> off)) (m(k' \<mapsto> o')) xs k = Some off"
    by (simp only: x foldl_Cons prod.case)
  from Cons.IH [OF this] show ?case by (auto simp: x split: if_splits)
qed simp

lemma seen_ok_commit: "seen_ok b cs u st \<Longrightarrow> pending_ok b cs u st \<Longrightarrow> seen_ok b cs u (commit_row st)"
  using fold_updates [of "seen st" "pending st"]
  by (fastforce simp: seen_ok_def pending_ok_def commit_row_def)

lemma pending_ok_begin [simp]: "pending_ok b cs u (begin_row st)"
  by (simp add: pending_ok_def begin_row_def)

lemma seen_ok_row [simp]:
  "seen_ok b cs u (begin_row st) = seen_ok b cs u st"
  "seen_ok b cs u (rollback_row st) = seen_ok b cs u st"
  "seen_ok b cs u (stage_insert xxh3 st col data off) = seen_ok b cs u st"
  by (auto simp: seen_ok_def begin_row_def rollback_row_def stage_insert_def)

lemma pending_ok_stage:
  "pending_ok b cs u st \<Longrightarrow> lp_at b cs u off \<Longrightarrow> pending_ok b cs u (stage_insert xxh3 st col data off)"
  by (auto simp: pending_ok_def stage_insert_def)

lemma pending_ok_cong:
  "pending_ok b cs u st \<Longrightarrow> bslice (cs + CHUNK_HEADER_SIZE) u b' = bslice (cs + CHUNK_HEADER_SIZE) u b \<Longrightarrow>
   pending_ok b' cs u st"
  unfolding pending_ok_def using lp_at_cong by fast

lemma pending_ok_mono: "pending_ok b cs u st \<Longrightarrow> u \<le> u' \<Longrightarrow> pending_ok b cs u' st"
  unfolding pending_ok_def using lp_at_mono by fast

section \<open>What a successful lookup means\<close>

text \<open>
  Whatever the hash does, an offset the map returns holds exactly the looked-up bytes.
\<close>

lemma dedup_lookup_bytes:
  assumes "dedup_lookup xxh3 st col data b cs = Some off"
  shows "seen st (dedup_key xxh3 col data) = Some off" "min_dedup_len st \<le> length data"
    and "bslice (cs + off) (4 + length data) b = le_bytes 4 (length data) @ data"
    and "rd (cs + off) 4 b = length data" "cs + off + 4 + length data \<le> length b"
proof -
  have *: "seen st (dedup_key xxh3 col data) = Some off \<and> min_dedup_len st \<le> length data \<and>
     rd (cs + off) 4 b = length data \<and> cs + off + 4 + length data \<le> length b \<and>
     bslice (cs + off + 4) (length data) b = data"
    using assms
    by (auto simp: dedup_lookup_def bind_eq_Some_conv get_range_eq_Some rd_def split: if_splits)
  then have len: "bslice (cs + off) 4 b = le_bytes 4 (length data)"
    using le_bytes_le_nat [of "bslice (cs + off) 4 b" 4] by (simp add: rd_def)
  show "bslice (cs + off) (4 + length data) b = le_bytes 4 (length data) @ data"
    using * len by (simp add: slice_add)
  show "seen st (dedup_key xxh3 col data) = Some off" "min_dedup_len st \<le> length data"
    "rd (cs + off) 4 b = length data" "cs + off + 4 + length data \<le> length b"
    using * by auto
qed

lemma dedup_lookup_ref_to:
  assumes "dedup_lookup xxh3 st col data b cs = Some off" "seen_ok b cs u st"
    and "CHUNK_HEADER_SIZE + u \<le> chunk_size (header b)" "chunk_size (header b) \<le> 2 ^ 31"
  shows "ref_to b cs off data" "off + 4 + length data \<le> CHUNK_HEADER_SIZE + u"
proof -
  note l = dedup_lookup_bytes [OF assms(1)]
  from assms(2) l(1) have "lp_at b cs u off" by (auto simp: seen_ok_def)
  then have a: "CHUNK_HEADER_SIZE \<le> off" "off + 4 + length data \<le> CHUNK_HEADER_SIZE + u"
    using l(4) by (auto simp: lp_at_def)
  then show "ref_to b cs off data" using l(3) assms(3,4) by (simp add: ref_to_def)
  show "off + 4 + length data \<le> CHUNK_HEADER_SIZE + u" by (rule a(2))
qed

lemma dedup_lookup_pending [simp]: "dedup_lookup xxh3 (st\<lparr>pending := p\<rparr>) = dedup_lookup xxh3 st"
  by (simp add: dedup_lookup_def fun_eq_iff)

text \<open>A value that was inserted and is still in place is found again.\<close>

lemma dedup_lookup_insert:
  assumes "min_dedup_len st \<le> length data" "length data < 2 ^ 32"
    and "cs + off + 4 + length data \<le> length b" "length b < 2 ^ 64"
    and "bslice (cs + off) (4 + length data) b = le_bytes 4 (length data) @ data"
  shows "dedup_lookup xxh3 (dedup_insert xxh3 st col data off) col data b cs = Some off"
proof -
  have "bslice (cs + off) 4 b = le_bytes 4 (length data)"
    using slice_prefix [of 4 "4 + length data" "cs + off" b] assms(5) by simp
  then have "le_nat (bslice (cs + off) 4 b) = length data" using assms(2) by (simp add: le_simps)
  moreover have "bslice (cs + off + 4) (length data) b = data"
    using assms(5) by (simp add: slice_add \<open>bslice (cs + off) 4 b = le_bytes 4 (length data)\<close>)
  ultimately show ?thesis
    using assms(1,3,4)
    by (simp add: dedup_lookup_def dedup_insert_def checked_add_def get_range_def)
qed

end
