(* ===== verification/Writer.thy ===== *)
theory Writer
  imports Dedup
begin

text \<open>
  The streaming writer \<open>RowWriter\<close> (\<open>probing/memtable/src/writer.rs\<close>, with \<open>make_row_writer\<close> of
  \<open>memtable.rs\<close>). The borrowed buffer and dedup map are fields of the record; \<open>finish\<close> and \<open>drop\<close>
  hand them back. \<^term>\<open>None\<close> is a panic (a slice index out of range).
\<close>

record RowWriter =
  rw_buf :: buf
  rw_dedup :: "DedupState option"
  rw_chunk_start :: usize
  rw_chunk_size :: usize
  rw_row_start :: usize
  rw_pos :: usize
  rw_overflow :: bool
  rw_done :: bool
  rw_col_idx :: usize
  rw_ts_col :: nat
  rw_pending_ts :: "i64 option"

definition make_row_writer :: "buf \<Rightarrow> DedupState option \<Rightarrow> RowWriter" where
  "make_row_writer b dedup =
    (let h = header b;
         cs = data_offset h + write_chunk h * chunk_size h;
         u = used (chunk_header b cs)
     in \<lparr>rw_buf = b, rw_dedup = map_option begin_row dedup, rw_chunk_start = cs,
         rw_chunk_size = chunk_size h, rw_row_start = cs + CHUNK_HEADER_SIZE + u,
         rw_pos = cs + CHUNK_HEADER_SIZE + u + 4, rw_overflow = False, rw_done = False,
         rw_col_idx = 0, rw_ts_col = ts_col h, rw_pending_ts = None\<rparr>)"

definition can_write :: "RowWriter \<Rightarrow> usize \<Rightarrow> bool" where
  "can_write w n \<longleftrightarrow> \<not> rw_overflow w \<and> rw_pos w + n \<le> rw_chunk_start w + rw_chunk_size w"

definition write_raw :: "RowWriter \<Rightarrow> byte list \<Rightarrow> RowWriter option" where
  "write_raw w bytes =
    (if can_write w (length bytes) then do {
       b \<leftarrow> copy_at (rw_pos w) bytes (rw_buf w);
       Some (w\<lparr>rw_buf := b, rw_pos := rw_pos w + length bytes\<rparr>)
     }
     else Some (w\<lparr>rw_overflow := True\<rparr>))"

definition write_lp :: "RowWriter \<Rightarrow> byte list \<Rightarrow> RowWriter option" where
  "write_lp w data =
    (if can_write w (4 + length data) then do {
       b \<leftarrow> w32 (rw_buf w) (rw_pos w) (length data);
       b \<leftarrow> copy_at (rw_pos w + 4) data b;
       Some (w\<lparr>rw_buf := b, rw_pos := rw_pos w + (4 + length data)\<rparr>)
     }
     else Some (w\<lparr>rw_overflow := True\<rparr>))"

definition write_str_dedup :: "hasher \<Rightarrow> RowWriter \<Rightarrow> byte list \<Rightarrow> RowWriter option" where
  "write_str_dedup xxh3 w data =
    (case (if rw_overflow w then None
           else (case rw_dedup w of
               None \<Rightarrow> None
             | Some d \<Rightarrow> dedup_lookup xxh3 d (rw_col_idx w) data (rw_buf w) (rw_chunk_start w))) of
       Some off \<Rightarrow> write_raw w (ref_bytes off)
     | None \<Rightarrow> do {
         let chunk_off = rw_pos w - rw_chunk_start w;
         w \<leftarrow> write_lp w data;
         Some (if rw_overflow w then w
               else w\<lparr>rw_dedup := map_option (\<lambda>d. stage_insert xxh3 d (rw_col_idx w) data chunk_off)
                       (rw_dedup w)\<rparr>)
       })"

definition next_col :: "RowWriter \<Rightarrow> RowWriter" where
  "next_col w = w\<lparr>rw_col_idx := rw_col_idx w + 1\<rparr>"

definition put_var :: "hasher \<Rightarrow> RowWriter \<Rightarrow> byte list \<Rightarrow> RowWriter option" where
  "put_var xxh3 w data =
     map_option next_col (if rw_dedup w \<noteq> None then write_str_dedup xxh3 w data else write_lp w data)"

text \<open>One clause per typed method \<open>put_u8\<close> ... \<open>put_bytes\<close>.\<close>

fun put_value :: "hasher \<Rightarrow> RowWriter \<Rightarrow> Value \<Rightarrow> RowWriter option" where
  "put_value xxh3 w (VU8 v) = map_option next_col (write_raw w [v])"
| "put_value xxh3 w (VU32 v) = map_option next_col (write_raw w (word_le 4 v))"
| "put_value xxh3 w (VI32 v) = map_option next_col (write_raw w (word_le 4 v))"
| "put_value xxh3 w (VI64 v) =
     (let w' = (if rw_ts_col w = rw_col_idx w + 1 then w\<lparr>rw_pending_ts := Some v\<rparr> else w)
      in map_option next_col (write_raw w' (word_le 8 v)))"
| "put_value xxh3 w (VF32 v) = map_option next_col (write_raw w (word_le 4 v))"
| "put_value xxh3 w (VF64 v) = map_option next_col (write_raw w (word_le 8 v))"
| "put_value xxh3 w (VU64 v) = map_option next_col (write_raw w (word_le 8 v))"
| "put_value xxh3 w (VStr s) = put_var xxh3 w s"
| "put_value xxh3 w (VBytes b) = put_var xxh3 w b"

fun put_values :: "hasher \<Rightarrow> RowWriter \<Rightarrow> Value list \<Rightarrow> RowWriter option" where
  "put_values xxh3 w [] = Some w"
| "put_values xxh3 w (v # vs) = do { w \<leftarrow> put_value xxh3 w v; put_values xxh3 w vs }"

definition finish :: "RowWriter \<Rightarrow> (bool \<times> RowWriter) option" where
  "finish w =
    (if rw_done w then Some (False, w)
     else if rw_overflow w
     then Some (False, w\<lparr>rw_done := True, rw_dedup := map_option rollback_row (rw_dedup w)\<rparr>)
     else do {
       let row_data = rw_pos w - rw_row_start w - 4;
       b \<leftarrow> w32 (rw_buf w) (rw_row_start w) row_data;
       let new_used = rw_pos w - rw_chunk_start w - CHUNK_HEADER_SIZE;
       Some (True, w\<lparr>rw_done := True, rw_buf := publish_row b (rw_chunk_start w) (rw_pending_ts w) new_used,
                     rw_dedup := map_option commit_row (rw_dedup w)\<rparr>)
     })"

definition drop_row_writer :: "RowWriter \<Rightarrow> buf \<times> DedupState option" where
  "drop_row_writer w =
    (rw_buf w, if rw_done w then rw_dedup w else map_option rollback_row (rw_dedup w))"

end
