(* ===== verification/Raw_Advance.thy ===== *)
theory Raw_Advance
  imports Raw_Append
begin

text \<open>
  What advancing the ring does (\<open>advance_chunk_raw_detailed\<close>). \<open>chunk_view\<close> is a chunk's header with
  its published payload; the lemmas say which views, header fields and leases each store keeps,
  and then give the outcome and effect of an advance on both branches.
\<close>

section \<open>Views of chunks\<close>

definition chunk_view :: "buf \<Rightarrow> usize \<Rightarrow> ChunkHeader \<times> byte list" where
  "chunk_view b i = (chunk_hdr b i, payload b i)"

lemma chunk_view_eq_iff:
  "chunk_view b i = chunk_view b' j \<longleftrightarrow> chunk_hdr b i = chunk_hdr b' j \<and> payload b i = payload b' j"
  by (simp add: chunk_view_def)

lemma chunk_view_by_slices:
  assumes "chunk_start_off b' i = chunk_start_off b i"
    and "\<And>off n. chunk_start_off b i \<le> off \<Longrightarrow> bslice off n b' = bslice off n b"
  shows "chunk_view b' i = chunk_view b i"
proof -
  have r: "rd (chunk_start_off b i + k) n b' = rd (chunk_start_off b i + k) n b" for k n
    by (rule rd_cong) (simp add: assms(2))
  have "chunk_hdr b' i = chunk_hdr b i"
    using assms(1) r [of 0 8] r by (simp add: chunk_header_def)
  then show ?thesis
    using assms by (simp add: chunk_view_def payload_def)
qed

lemma lease_frame_view:
  assumes "table_geom b" "lease_frame b b'" "i < num_chunks (header b)"
  shows "chunk_view b' i = chunk_view b i"
proof (rule chunk_view_by_slices)
  show "chunk_start_off b' i = chunk_start_off b i"
    using cold_eq_chunk_start lease_frame_cold [OF assms(1,2)] by blast
  show "bslice off n b' = bslice off n b" if "chunk_start_off b i \<le> off" for off n
    using that chunk_bounds(2) [OF assms(1,3)] by (intro lease_frame_slice [OF assms(2)]) linarith
qed

lemma chunk_only_view:
  assumes "table_geom b" "i < num_chunks (header b)" "chunk_only b b' i" "j \<noteq> i"
    and "used (chunk_hdr b j) \<le> chunk_size (header b) - 40"
  shows "chunk_view b' j = chunk_view b j"
proof -
  have "chunk_start_off b' j = chunk_start_off b j"
    using cold_eq_chunk_start chunk_only_cold [OF assms(1-3)] by blast
  moreover have "40 \<le> chunk_size (header b)"
    using table_geomD(3) [OF assms(1)] by (simp add: header_def)
  ultimately show ?thesis
    using chunk_only_other [OF assms(3,4)] assms(5) by (simp add: chunk_view_def)
qed

lemma hot_wr:
  assumes "table_geom b" "32 \<le> off \<and> off + n \<le> 64 \<or> 72 \<le> off \<and> off + n \<le> 128"
  shows "cold_eq b (wr off n v b)"
    and "i < num_chunks (header b) \<Longrightarrow> chunk_view (wr off n v b) i = chunk_view b i"
    and "c < num_chunks (header b) \<Longrightarrow> s < lease_slots (header b) \<Longrightarrow>
      reader_lease (wr off n v b) c s = reader_lease b c s"
proof -
  have len: "128 \<le> length b" by (rule table_geomD(1) [OF assms(1)])
  show c: "cold_eq b (wr off n v b)" using assms(2) len by (intro cold_eq_wr) auto
  show "chunk_view (wr off n v b) i = chunk_view b i" if "i < num_chunks (header b)"
  proof (rule chunk_view_by_slices)
    show "chunk_start_off (wr off n v b) i = chunk_start_off b i" by (rule cold_eq_chunk_start [OF c])
    show "bslice o2 m (wr off n v b) = bslice o2 m b" if "chunk_start_off b i \<le> o2" for o2 m
      using that assms(2) len chunk_bounds(1) [OF assms(1) \<open>i < num_chunks (header b)\<close>]
      by (intro slice_wr_other) auto
  qed
  assume s: "c < num_chunks (header b)" "s < lease_slots (header b)"
  have "rd (reader_lease_off b c s + k) m (wr off n v b) = rd (reader_lease_off b c s + k) m b" for k m
    using lease_bounds(1) [OF assms(1) s] assms(2) len by (intro rd_wr_other) auto
  from this [of 0] this show "reader_lease (wr off n v b) c s = reader_lease b c s"
    by (simp add: reader_lease_def Let_def cold_eq_lease_off [OF c])
qed

section \<open>Draining\<close>

lemma lease_live_cleared [simp]: "\<not> lease_live os (l\<lparr>lease_state := 0\<rparr>)"
  by (simp add: lease_live_def)

lemma scan_keeps_live:
  assumes "table_geom b" "i < num_chunks (header b)" "c < num_chunks (header b)" "s < lease_slots (header b)"
  shows "lease_live os (reader_lease (snd (chunk_has_live_leases os b i)) c s) =
    lease_live os (reader_lease b c s)"
  using chunk_has_live_leases_lease [OF assms] by auto

lemma drain_leases_props:
  assumes "table_geom b" "i < num_chunks (header b)"
  shows "lease_frame b (drain_leases os b i n) \<and>
    (\<forall>s<lease_slots (header b). lease_live os (reader_lease (drain_leases os b i n) i s) =
       lease_live os (reader_lease b i s))"
  using assms
proof (induction n arbitrary: b)
  case (Suc n)
  obtain live b' where sc: "chunk_has_live_leases os b i = (live, b')" by fastforce
  have fr: "lease_frame b b'" using chunk_has_live_leases_frame [OF Suc.prems, of os] sc by simp
  have lv: "lease_live os (reader_lease b' i s) = lease_live os (reader_lease b i s)"
    if "s < lease_slots (header b)" for s
    using scan_keeps_live [OF Suc.prems Suc.prems(2) that, of os] sc by simp
  have h: "header b' = header b" by (rule lease_frame_header [OF Suc.prems(1) fr])
  have "lease_frame b' (drain_leases os b' i n) \<and>
    (\<forall>s<lease_slots (header b'). lease_live os (reader_lease (drain_leases os b' i n) i s) =
       lease_live os (reader_lease b' i s))"
    using Suc.IH [OF lease_frame_geom [OF Suc.prems(1) fr]] Suc.prems(2) h by simp
  then show ?case
    using sc fr lv h lease_frame_trans [OF Suc.prems(1) fr] by (cases live) auto
qed simp

section \<open>The two outcomes of an advance\<close>

text \<open>Every chunk's published extent lies inside its payload area.\<close>

definition chunks_fit :: "buf \<Rightarrow> bool" where
  "chunks_fit b \<longleftrightarrow>
     (\<forall>i<num_chunks (header b). used (chunk_hdr b i) \<le> chunk_size (header b) - 40)"

lemma chunks_fitD:
  "chunks_fit b \<Longrightarrow> i < num_chunks (header b) \<Longrightarrow> used (chunk_hdr b i) \<le> chunk_size (header b) - 40"
  by (simp add: chunks_fit_def)

definition next_chunk :: "buf \<Rightarrow> usize" where
  "next_chunk b = (write_chunk (header b) + 1) mod num_chunks (header b)"

definition chunk_pinned :: "os \<Rightarrow> buf \<Rightarrow> usize \<Rightarrow> bool" where
  "chunk_pinned os b i \<longleftrightarrow> (\<exists>s<lease_slots (header b). lease_live os (reader_lease b i s))"

text \<open>The buffer after the target was marked empty and its leases scanned.\<close>

definition swept :: "os \<Rightarrow> buf \<Rightarrow> buf" where
  "swept os b = snd (chunk_has_live_leases os
     (drain_leases os (wr (chunk_start_off b (next_chunk b) + 16) 4 (chunk_state_code Empty) b)
        (next_chunk b) PIN_DRAIN_SPINS) (next_chunk b))"

lemma next_chunk_less: "table_geom b \<Longrightarrow> next_chunk b < num_chunks (header b)"
  using table_geomD(2) [of b] by (simp add: next_chunk_def header_def)

lemma wr_state_chunk_hdr:
  assumes "cs + 40 \<le> length b"
  shows "chunk_header (wr (cs + 16) 4 v b) cs = (chunk_header b cs)\<lparr>state := v mod 2 ^ 32\<rparr>"
  using assms by (simp add: chunk_header_def buf_simps)

lemma mark_state:
  fixes v :: nat
  assumes "table_geom b" "i < num_chunks (header b)"
  defines "b' \<equiv> wr (chunk_start_off b i + 16) 4 v b"
  shows "chunk_only b b' i" "chunk_hdr b' i = (chunk_hdr b i)\<lparr>state := v mod 2 ^ 32\<rparr>"
    "payload b' i = payload b i" "table_geom b'" "header b' = header b"
    "chunk_start_off b' j = chunk_start_off b j"
proof -
  have "48 \<le> chunk_size (header b)" using table_geomD(3) [OF assms(1)] by (simp add: header_def)
  then have in40: "chunk_start_off b i + 40 \<le> length b" and in20: "20 \<le> chunk_size (header b)"
    using chunk_bounds(3) [OF assms(1,2)] by linarith+
  show co: "chunk_only b b' i"
    unfolding b'_def using in40 in20 by (intro chunk_only_wr) auto
  show "header b' = header b" by (rule chunk_only_header [OF assms(1,2) co])
  have st: "chunk_start_off b' k = chunk_start_off b k" for k
    using cold_eq_chunk_start chunk_only_cold [OF assms(1,2) co] by blast
  then show "chunk_start_off b' j = chunk_start_off b j" .
  show ch: "chunk_hdr b' i = (chunk_hdr b i)\<lparr>state := v mod 2 ^ 32\<rparr>"
    unfolding st unfolding b'_def by (rule wr_state_chunk_hdr [OF in40])
  have "used (chunk_hdr b' i) = used (chunk_hdr b i)" by (simp add: ch)
  moreover have "bslice (chunk_start_off b i + 40) n b' = bslice (chunk_start_off b i + 40) n b" for n
    unfolding b'_def using in40 by (intro slice_wr_other) auto
  ultimately show "payload b' i = payload b i" by (simp add: payload_def st layout_consts)
  show "table_geom b'" using cold_eq_geom chunk_only_cold [OF assms(1,2) co] assms(1) by blast
qed

lemma swept_props:
  assumes "table_geom b"
  defines "t \<equiv> next_chunk b"
  defines "b1 \<equiv> wr (chunk_start_off b t + 16) 4 (chunk_state_code Empty) b"
  shows "lease_frame b1 (swept os b)"
    and "fst (chunk_has_live_leases os (drain_leases os b1 t PIN_DRAIN_SPINS) t) = chunk_pinned os b t"
    and "table_geom (swept os b)" "header (swept os b) = header b"
    and "chunk_hdr (swept os b) t = (chunk_hdr b t)\<lparr>state := chunk_state_code Empty\<rparr>"
    and "payload (swept os b) t = payload b t"
    and "chunk_start_off (swept os b) i = chunk_start_off b i"
    and "\<lbrakk>i < num_chunks (header b); i \<noteq> t; used (chunk_hdr b i) \<le> chunk_size (header b) - 40\<rbrakk> \<Longrightarrow>
      chunk_view (swept os b) i = chunk_view b i"
proof -
  have t: "t < num_chunks (header b)" unfolding t_def by (rule next_chunk_less [OF assms(1)])
  note ms = mark_state [OF assms(1) t, of "chunk_state_code Empty", folded b1_def]
  let ?b2 = "drain_leases os b1 t PIN_DRAIN_SPINS"
  have t1: "t < num_chunks (header b1)" using t ms(5) by simp
  note dr = drain_leases_props [OF ms(4) t1, of os PIN_DRAIN_SPINS]
  have fr2: "lease_frame b1 ?b2" using dr by blast
  have h2: "header ?b2 = header b1" by (rule lease_frame_header [OF ms(4) fr2])
  have g2: "table_geom ?b2" by (rule lease_frame_geom [OF ms(4) fr2])
  have t2: "t < num_chunks (header ?b2)" using t1 h2 by simp
  have sw: "swept os b = snd (chunk_has_live_leases os ?b2 t)"
    by (simp add: swept_def b1_def t_def)
  show fr: "lease_frame b1 (swept os b)"
    unfolding sw using lease_frame_trans [OF ms(4) fr2 chunk_has_live_leases_frame [OF g2 t2]] .
  have "lease_live os (reader_lease ?b2 t s) = lease_live os (reader_lease b t s)"
    if "s < lease_slots (header b)" for s
    using dr that ms(5) chunk_only_leases [OF assms(1) t ms(1) t that] by simp
  then show "fst (chunk_has_live_leases os ?b2 t) = chunk_pinned os b t"
    using chunk_has_live_leases_iff [OF g2 t2, of os] h2 ms(5) by (auto simp: chunk_pinned_def)
  show "table_geom (swept os b)" by (rule lease_frame_geom [OF ms(4) fr])
  show "header (swept os b) = header b" using lease_frame_header [OF ms(4) fr] ms(5) by simp
  have v: "chunk_view (swept os b) t = chunk_view b1 t" by (rule lease_frame_view [OF ms(4) fr t1])
  show "chunk_hdr (swept os b) t = (chunk_hdr b t)\<lparr>state := chunk_state_code Empty\<rparr>"
    using v ms(2) by (simp add: chunk_view_def)
  show "payload (swept os b) t = payload b t"
    using v ms(3) by (simp add: chunk_view_def)
  show "chunk_start_off (swept os b) i = chunk_start_off b i"
    using cold_eq_chunk_start [OF lease_frame_cold [OF ms(4) fr], of i] ms(6) by simp
  assume i: "i < num_chunks (header b)" "i \<noteq> t" "used (chunk_hdr b i) \<le> chunk_size (header b) - 40"
  have "chunk_view (swept os b) i = chunk_view b1 i"
    using i(1) ms(5) by (intro lease_frame_view [OF ms(4) fr]) simp
  also have "\<dots> = chunk_view b i" by (rule chunk_only_view [OF assms(1) t ms(1) i(2,3)])
  finally show "chunk_view (swept os b) i = chunk_view b i" .
qed

lemma advance_unfold:
  assumes "table_geom b"
  shows "advance_chunk_raw_detailed os b =
    (let t = next_chunk b; cs = chunk_start_off b t; b3 = swept os b;
         wc = write_chunk (header b) in
     if chunk_pinned os b t
     then (let b4 = wr (cs + 16) 4 (state (chunk_hdr b t)) b3
           in Some (ReadersPinned, wr 80 8 (writes_blocked (header b4) + 1) b4))
     else (let b4 = (if chunk_start_off b wc \<noteq> cs
                     then wr (chunk_start_off b wc + 16) 4 (chunk_state_code Sealed) b3 else b3);
               b5 = count_overwrite b4 (row_count (chunk_header b4 cs))
           in Some (Advanced, wr 32 4 t (reset_chunk b5 cs))))"
proof -
  have "0 < num_chunks (header b)" using table_geomD(2) [OF assms] by (simp add: header_def)
  moreover obtain live b3 where sc: "chunk_has_live_leases os
      (drain_leases os (wr (chunk_start_off b (next_chunk b) + 16) 4 (chunk_state_code Empty) b)
        (next_chunk b) PIN_DRAIN_SPINS) (next_chunk b) = (live, b3)" by fastforce
  moreover have "live = chunk_pinned os b (next_chunk b)" "b3 = swept os b"
    using swept_props(2) [OF assms, of os] sc by (simp_all add: swept_def)
  ultimately show ?thesis
    unfolding advance_chunk_raw_detailed_def Let_def
    by (simp add: next_chunk_def chunk_start_off_def)
qed

section \<open>Effect of the recycling stores\<close>

definition fresh_header :: "ChunkHeader \<Rightarrow> ChunkHeader" where
  "fresh_header ch = \<lparr>generation = (generation ch + 1) mod 2 ^ 64, used = 0, row_count = 0,
     state = chunk_state_code Writing, min_ts = TS_MIN_INIT, max_ts = TS_MAX_INIT\<rparr>"

lemma reset_chunk_hdr:
  assumes "cs + 40 \<le> length b"
  shows "length (reset_chunk b cs) = length b"
    and "off + n \<le> cs \<or> cs + 40 \<le> off \<Longrightarrow> bslice off n (reset_chunk b cs) = bslice off n b"
    and "chunk_header (reset_chunk b cs) cs = fresh_header (chunk_header b cs)"
proof -
  show "length (reset_chunk b cs) = length b"
    using assms by (simp add: reset_chunk_def Let_def)
  show "bslice off n (reset_chunk b cs) = bslice off n b" if "off + n \<le> cs \<or> cs + 40 \<le> off"
    using assms that by (auto simp: reset_chunk_def Let_def slice_wr_other)
  show "chunk_header (reset_chunk b cs) cs = fresh_header (chunk_header b cs)"
    using assms
    by (simp add: reset_chunk_def Let_def chunk_header_def buf_simps fresh_header_def u64_fits)
qed

lemma reset_chunk_props:
  assumes "table_geom b" "i < num_chunks (header b)"
  defines "b' \<equiv> reset_chunk b (chunk_start_off b i)"
  shows "chunk_only b b' i" "chunk_view b' i = (fresh_header (chunk_hdr b i), [])"
    "table_geom b'" "header b' = header b"
proof -
  have c48: "48 \<le> chunk_size (header b)" using table_geomD(3) [OF assms(1)] by (simp add: header_def)
  then have in40: "chunk_start_off b i + 40 \<le> length b"
    using chunk_bounds(3) [OF assms(1,2)] by linarith
  show co: "chunk_only b b' i"
    unfolding chunk_only_def b'_def using reset_chunk_hdr(1,2) [OF in40] c48 by auto
  show "header b' = header b" by (rule chunk_only_header [OF assms(1,2) co])
  have st: "chunk_start_off b' i = chunk_start_off b i"
    using cold_eq_chunk_start chunk_only_cold [OF assms(1,2) co] by blast
  show "chunk_view b' i = (fresh_header (chunk_hdr b i), [])"
    using reset_chunk_hdr(3) [OF in40, folded b'_def]
    by (simp add: chunk_view_def payload_def st fresh_header_def)
  show "table_geom b'" using cold_eq_geom chunk_only_cold [OF assms(1,2) co] assms(1) by blast
qed

lemma count_overwrite_props:
  assumes "table_geom b"
  shows "cold_eq b (count_overwrite b n)"
    and "i < num_chunks (header b) \<Longrightarrow> chunk_view (count_overwrite b n) i = chunk_view b i"
    and "header (count_overwrite b n) = (header b)\<lparr>
       chunks_recycled := (if 0 < n then (chunks_recycled (header b) + 1) mod 2 ^ 32 else chunks_recycled (header b)),
       rows_overwritten := (if 0 < n then (rows_overwritten (header b) + n) mod 2 ^ 32
         else rows_overwritten (header b))\<rparr>"
    and "c < num_chunks (header b) \<Longrightarrow> s < lease_slots (header b) \<Longrightarrow>
      reader_lease (count_overwrite b n) c s = reader_lease b c s"
proof -
  let ?b1 = "wr 56 4 (chunks_recycled (header b) + 1) b"
  let ?b2 = "wr 60 4 (rows_overwritten (header ?b1) + n) ?b1"
  have co: "count_overwrite b n = (if 0 < n then ?b2 else b)" by (simp add: count_overwrite_def Let_def)
  note h1 = hot_wr [OF assms, where off = 56 and n = 4 and v = "chunks_recycled (header b) + 1", simplified]
  have g1: "table_geom ?b1" using cold_eq_geom [OF h1(1)] assms by simp
  note h2 = hot_wr [OF g1, where off = 60 and n = 4 and v = "rows_overwritten (header ?b1) + n", simplified]
  note ch = cold_eq_header [OF h1(1)]
  show "cold_eq b (count_overwrite b n)" using cold_eq_trans [OF h1(1) h2(1)] by (simp add: co)
  show "chunk_view (count_overwrite b n) i = chunk_view b i" if "i < num_chunks (header b)"
    using that h1(2) h2(2) by (simp add: co ch)
  show "reader_lease (count_overwrite b n) c s = reader_lease b c s"
    if "c < num_chunks (header b)" "s < lease_slots (header b)"
    using that h1(3) h2(3) by (simp add: co ch)
  show "header (count_overwrite b n) = (header b)\<lparr>
       chunks_recycled := (if 0 < n then (chunks_recycled (header b) + 1) mod 2 ^ 32 else chunks_recycled (header b)),
       rows_overwritten := (if 0 < n then (rows_overwritten (header b) + n) mod 2 ^ 32
         else rows_overwritten (header b))\<rparr>"
    using table_geomD(1) [OF assms] by (simp add: co header_def buf_simps)
qed

lemma start_eq_iff:
  assumes "table_geom b"
  shows "chunk_start_off b i = chunk_start_off b j \<longleftrightarrow> i = j"
  using table_geomD(3) [OF assms] by (auto simp: chunk_start_off_eq)

lemma swept_leases_cleared:
  assumes "table_geom b" "\<not> chunk_pinned os b (next_chunk b)" "s < lease_slots (header b)"
  shows "lease_state (reader_lease (swept os b) (next_chunk b) s) = 0"
proof -
  let ?t = "next_chunk b"
  let ?b1 = "wr (chunk_start_off b ?t + 16) 4 (chunk_state_code Empty) b"
  let ?b2 = "drain_leases os ?b1 ?t PIN_DRAIN_SPINS"
  have t: "?t < num_chunks (header b)" by (rule next_chunk_less [OF assms(1)])
  note ms = mark_state [OF assms(1) t, of "chunk_state_code Empty"]
  have t1: "?t < num_chunks (header ?b1)" using t ms(5) by simp
  have fr2: "lease_frame ?b1 ?b2" using drain_leases_props [OF ms(4) t1] by blast
  have h2: "header ?b2 = header b" using lease_frame_header [OF ms(4) fr2] ms(5) by simp
  have g2: "table_geom ?b2" by (rule lease_frame_geom [OF ms(4) fr2])
  have "\<not> lease_live os (reader_lease ?b2 ?t s)"
    using swept_props(2) [OF assms(1), of os] chunk_has_live_leases_iff [OF g2, of ?t os] assms(2,3) t h2
    by auto
  then show ?thesis
    using chunk_has_live_leases_lease [OF g2, of ?t ?t s os] t h2 assms(3) by (simp add: swept_def)
qed

section \<open>Outcomes\<close>

lemma advance_pinned:
  assumes "table_geom b" "chunk_pinned os b (next_chunk b)"
    and "chunks_fit b"
  shows "\<exists>b'. advance_chunk_raw_detailed os b = Some (ReadersPinned, b') \<and> cold_eq b b' \<and>
    header b' = (header b)\<lparr>writes_blocked := (writes_blocked (header b) + 1) mod 2 ^ 64\<rparr> \<and>
    (\<forall>i<num_chunks (header b). chunk_view b' i = chunk_view b i)"
proof -
  let ?t = "next_chunk b" and ?b3 = "swept os b"
  let ?cs = "chunk_start_off b ?t"
  let ?b4 = "wr (?cs + 16) 4 (state (chunk_hdr b ?t)) ?b3"
  let ?b5 = "wr 80 8 (writes_blocked (header ?b4) + 1) ?b4"
  have t: "?t < num_chunks (header b)" by (rule next_chunk_less [OF assms(1)])
  note sp = swept_props [OF assms(1), where os = os]
  have c3: "?cs = chunk_start_off ?b3 ?t" using sp(7) by simp
  note ms = mark_state [OF sp(3), of ?t "state (chunk_hdr b ?t)", folded c3, unfolded sp(4), OF t]
  have small: "state (chunk_hdr b ?t) mod 2 ^ 32 = state (chunk_hdr b ?t)"
    using rd4_bound by (simp add: chunk_header_def)
  have vt: "chunk_view ?b4 ?t = chunk_view b ?t"
    using ms(2,3) sp(5) [folded c3] sp(6) small by (simp add: chunk_view_def)
  have vi: "chunk_view ?b4 i = chunk_view b i" if i: "i < num_chunks (header b)" for i
  proof (cases "i = ?t")
    case False
    have e: "chunk_view ?b3 i = chunk_view b i" using sp(8) [OF i False chunks_fitD [OF assms(3) i]] .
    moreover have "chunk_view ?b4 i = chunk_view ?b3 i"
      using chunk_only_view [OF sp(3), of ?t ?b4 i] ms(1) t sp(4) False chunks_fitD [OF assms(3) i] e
      by (simp add: chunk_view_def)
    ultimately show ?thesis by simp
  qed (simp add: vt)
  have hot: "32 \<le> (80::nat) \<and> 80 + 8 \<le> (64::nat) \<or> 72 \<le> (80::nat) \<and> 80 + 8 \<le> (128::nat)" by simp
  note hw = hot_wr [OF ms(4) hot, where v = "writes_blocked (header ?b4) + 1"]
  have cold4: "cold_eq b ?b4"
  proof -
    let ?b1 = "wr (?cs + 16) 4 (chunk_state_code Empty) b"
    note m1 = mark_state [OF assms(1) t, of "chunk_state_code Empty"]
    have "cold_eq b ?b1" by (rule chunk_only_cold [OF assms(1) t m1(1)])
    moreover have "cold_eq ?b1 ?b3" by (rule lease_frame_cold [OF m1(4) sp(1)])
    moreover have "cold_eq ?b3 ?b4" by (rule chunk_only_cold [OF sp(3) _ ms(1)]) (simp add: sp(4) t)
    ultimately show ?thesis using cold_eq_trans by blast
  qed
  have "advance_chunk_raw_detailed os b = Some (ReadersPinned, ?b5)"
    using advance_unfold [OF assms(1), of os] assms(2) by (simp add: Let_def)
  moreover have "cold_eq b ?b5" by (rule cold_eq_trans [OF cold4 hw(1)])
  moreover have "header ?b5 = (header b)\<lparr>writes_blocked := (writes_blocked (header b) + 1) mod 2 ^ 64\<rparr>"
  proof -
    have "header ?b5 = (header ?b4)\<lparr>writes_blocked := (writes_blocked (header ?b4) + 1) mod 2 ^ 64\<rparr>"
      using table_geomD(1) [OF ms(4)] by (simp add: header_def buf_simps)
    then show ?thesis using ms(5) sp(4) by simp
  qed
  moreover have "\<forall>i<num_chunks (header b). chunk_view ?b5 i = chunk_view b i"
    using hw(2) vi ms(5) sp(4) by simp
  ultimately show ?thesis by blast
qed

definition sealed_view :: "buf \<Rightarrow> usize \<Rightarrow> ChunkHeader \<times> byte list" where
  "sealed_view b i = (if i = write_chunk (header b)
     then ((chunk_hdr b i)\<lparr>state := chunk_state_code Sealed\<rparr>, payload b i) else chunk_view b i)"

lemma sealed_props:
  fixes os :: os
  assumes "table_geom b" "write_chunk (header b) < num_chunks (header b)"
    and fit: "chunks_fit b"
  defines "t \<equiv> next_chunk b"
  defines "b4 \<equiv> (if chunk_start_off b (write_chunk (header b)) \<noteq> chunk_start_off b t
     then wr (chunk_start_off b (write_chunk (header b)) + 16) 4 (chunk_state_code Sealed) (swept os b)
     else swept os b)"
  shows "table_geom b4" "header b4 = header b" "chunk_start_off b4 i = chunk_start_off b i"
    and "cold_eq (swept os b) b4"
    and "row_count (chunk_hdr b4 t) = row_count (chunk_hdr b t) \<and>
         generation (chunk_hdr b4 t) = generation (chunk_hdr b t)"
    and "i < num_chunks (header b) \<Longrightarrow> i \<noteq> t \<Longrightarrow> chunk_view b4 i = sealed_view b i"
    and "c < num_chunks (header b) \<Longrightarrow> s < lease_slots (header b) \<Longrightarrow>
      reader_lease b4 c s = reader_lease (swept os b) c s"
proof -
  let ?wc = "write_chunk (header b)" and ?b3 = "swept os b"
  have t: "t < num_chunks (header b)" unfolding t_def by (rule next_chunk_less [OF assms(1)])
  note sp = swept_props [OF assms(1), where os = os, folded t_def]
  have c3: "chunk_start_off b i = chunk_start_off ?b3 i" for i using sp(7) by simp
  have b4: "b4 = (if ?wc \<noteq> t then wr (chunk_start_off ?b3 ?wc + 16) 4 (chunk_state_code Sealed) ?b3 else ?b3)"
    using start_eq_iff [OF assms(1)] by (simp add: b4_def c3 [symmetric])
  have wc3: "?wc < num_chunks (header ?b3)" using assms(2) sp(4) by simp
  note ms = mark_state [OF sp(3) wc3, where v = "chunk_state_code Sealed"]
  show g4: "table_geom b4" using ms(4) sp(3) by (simp add: b4)
  show h4: "header b4 = header b" using ms(5) sp(4) by (simp add: b4)
  show st4: "chunk_start_off b4 i = chunk_start_off b i" for i using ms(6) sp(7) by (simp add: b4)
  have co: "?wc \<noteq> t \<Longrightarrow> chunk_only ?b3 b4 ?wc" using ms(1) by (simp add: b4)
  show "cold_eq ?b3 b4" using co chunk_only_cold [OF sp(3) wc3] b4 by (cases "?wc = t") auto
  have v3: "chunk_view ?b3 i = chunk_view b i" if "i < num_chunks (header b)" "i \<noteq> t" for i
    using sp(8) [OF that chunks_fitD [OF fit that(1)]] .
  have ut: "used (chunk_hdr ?b3 i) \<le> chunk_size (header ?b3) - 40" if "i < num_chunks (header b)" for i
    using chunks_fitD [OF fit that] sp(4,5) v3 [OF that] by (cases "i = t") (auto simp: chunk_view_def)
  show "row_count (chunk_hdr b4 t) = row_count (chunk_hdr b t) \<and>
      generation (chunk_hdr b4 t) = generation (chunk_hdr b t)"
  proof (cases "?wc = t")
    case False
    have "chunk_view b4 t = chunk_view ?b3 t"
      using chunk_only_view [OF sp(3) wc3 co [OF False] False [symmetric] ut [OF t]] .
    then show ?thesis using sp(5) by (simp add: chunk_view_def)
  qed (use sp(5) in \<open>simp add: b4\<close>)
  show "reader_lease b4 c s = reader_lease ?b3 c s" if "c < num_chunks (header b)" "s < lease_slots (header b)"
  proof (cases "?wc = t")
    case False
    show ?thesis using that sp(4) by (intro chunk_only_leases [OF sp(3) wc3 co [OF False]]) simp_all
  qed (simp add: b4)
  assume i: "i < num_chunks (header b)" "i \<noteq> t"
  show "chunk_view b4 i = sealed_view b i"
  proof (cases "i = ?wc")
    case True
    with i ms(2,3) v3 [OF i] show ?thesis by (simp add: b4 sealed_view_def chunk_view_def)
  next
    case False
    have "chunk_view b4 i = chunk_view ?b3 i"
    proof (cases "?wc = t")
      case False
      then show ?thesis using chunk_only_view [OF sp(3) wc3 co _ ut [OF i(1)]] \<open>i \<noteq> ?wc\<close> by simp
    qed (simp add: b4)
    with v3 [OF i] False show ?thesis by (simp add: sealed_view_def)
  qed
qed

lemma advance_recycles:
  assumes "table_geom b" "write_chunk (header b) < num_chunks (header b)"
    and fit: "chunks_fit b"
    and "\<not> chunk_pinned os b (next_chunk b)"
  defines "lost \<equiv> row_count (chunk_hdr b (next_chunk b))"
  shows "\<exists>b'. advance_chunk_raw_detailed os b = Some (Advanced, b') \<and> cold_eq b b' \<and>
    header b' = (header b)\<lparr>write_chunk := next_chunk b,
       chunks_recycled := (if 0 < lost then (chunks_recycled (header b) + 1) mod 2 ^ 32 else chunks_recycled (header b)),
       rows_overwritten := (if 0 < lost then (rows_overwritten (header b) + lost) mod 2 ^ 32
         else rows_overwritten (header b))\<rparr> \<and>
    chunk_view b' (next_chunk b) = (fresh_header (chunk_hdr b (next_chunk b)), []) \<and>
    (\<forall>i<num_chunks (header b). i \<noteq> next_chunk b \<longrightarrow> chunk_view b' i = sealed_view b i) \<and>
    (\<forall>s<lease_slots (header b). lease_state (reader_lease b' (next_chunk b) s) = 0)"
proof -
  define t where "t = next_chunk b"
  define b4 where "b4 = (if chunk_start_off b (write_chunk (header b)) \<noteq> chunk_start_off b t
     then wr (chunk_start_off b (write_chunk (header b)) + 16) 4 (chunk_state_code Sealed) (swept os b)
     else swept os b)"
  have t: "t < num_chunks (header b)" unfolding t_def by (rule next_chunk_less [OF assms(1)])
  note se = sealed_props [OF assms(1,2) fit, where os = os, folded t_def, folded b4_def]
  let ?b5 = "count_overwrite b4 (row_count (chunk_hdr b4 t))"
  note cp = count_overwrite_props [OF se(1), where n = "row_count (chunk_hdr b4 t)"]
  note ch5 = cold_eq_header [OF cp(1)]
  have g5: "table_geom ?b5" using cold_eq_geom [OF cp(1)] se(1) by simp
  have st5: "chunk_start_off ?b5 i = chunk_start_off b i" for i
    using cold_eq_chunk_start [OF cp(1)] se(3) by simp
  have n5: "num_chunks (header ?b5) = num_chunks (header b)" using ch5(2) se(2) by simp
  let ?b6 = "reset_chunk ?b5 (chunk_start_off b t)"
  note rp = reset_chunk_props [OF g5, of t, unfolded st5 n5, OF t]
  let ?b7 = "wr 32 4 t ?b6"
  note hw = hot_wr [OF rp(3), where off = 32 and n = 4 and v = t, simplified]
  have n6: "num_chunks (header ?b6) = num_chunks (header b)" "lease_slots (header ?b6) = lease_slots (header b)"
    using rp(4) n5 ch5(6) se(2) by simp_all
  have adv: "advance_chunk_raw_detailed os b = Some (Advanced, ?b7)"
    using advance_unfold [OF assms(1), of os] assms(4) se(3)
    by (simp add: Let_def t_def [symmetric] b4_def)
  have "cold_eq b ?b7"
  proof -
    let ?b1 = "wr (chunk_start_off b t + 16) 4 (chunk_state_code Empty) b"
    note m1 = mark_state [OF assms(1) t, where v = "chunk_state_code Empty"]
    have "cold_eq b ?b1" by (rule chunk_only_cold [OF assms(1) t m1(1)])
    moreover have "cold_eq ?b1 (swept os b)"
      using lease_frame_cold [OF m1(4)] swept_props(1) [OF assms(1), of os] by (simp add: t_def)
    moreover have "cold_eq ?b5 ?b6" using chunk_only_cold [OF g5 _ rp(1)] t n5 by simp
    ultimately show ?thesis using se(4) cp(1) hw(1) cold_eq_trans by blast
  qed
  moreover have "header ?b7 = (header b)\<lparr>write_chunk := t,
       chunks_recycled := (if 0 < lost then (chunks_recycled (header b) + 1) mod 2 ^ 32 else chunks_recycled (header b)),
       rows_overwritten := (if 0 < lost then (rows_overwritten (header b) + lost) mod 2 ^ 32
         else rows_overwritten (header b))\<rparr>"
  proof -
    have "t mod 2 ^ 32 = t" using t rd4_bound [of 20 b] by (simp add: header_def)
    then have "header ?b7 = (header ?b6)\<lparr>write_chunk := t\<rparr>"
      using table_geomD(1) [OF rp(3)] by (simp add: header_def buf_simps)
    then show ?thesis using rp(4) cp(3) se(2,5) by (simp add: lost_def t_def)
  qed
  moreover have "chunk_view ?b7 t = (fresh_header (chunk_hdr b t), [])"
  proof -
    have v5: "chunk_hdr ?b5 t = chunk_hdr b4 t"
      using cp(2) [of t] t se(2) by (simp add: chunk_view_def)
    have "chunk_view ?b7 t = chunk_view ?b6 t" using hw(2) t n6(1) by simp
    also have "\<dots> = (fresh_header (chunk_hdr b4 t), [])" using rp(2) v5 st5 by simp
    finally show ?thesis using se(5) by (simp add: fresh_header_def)
  qed
  moreover have "chunk_view ?b7 i = sealed_view b i" if i: "i < num_chunks (header b)" "i \<noteq> t" for i
  proof -
    have v4: "chunk_view b4 i = sealed_view b i" by (rule se(6) [OF i])
    have v5: "chunk_view ?b5 i = chunk_view b4 i" using cp(2) i(1) se(2) by simp
    have "used (chunk_hdr ?b5 i) \<le> chunk_size (header ?b5) - 40"
      using v5 v4 chunks_fitD [OF fit i(1)] ch5(3) se(2)
      by (simp add: chunk_view_def sealed_view_def split: if_splits)
    then have "chunk_view ?b6 i = chunk_view ?b5 i"
      using chunk_only_view [OF g5 _ rp(1) i(2)] t n5 by simp
    then show ?thesis using hw(2) i(1) n6(1) v5 v4 by simp
  qed
  moreover have "lease_state (reader_lease ?b7 t s) = 0" if s: "s < lease_slots (header b)" for s
  proof -
    have "reader_lease ?b7 t s = reader_lease ?b6 t s" using hw(3) t s n6 by simp
    also have "\<dots> = reader_lease ?b5 t s" using chunk_only_leases [OF g5 _ rp(1)] t s n5 ch5(6) se(2) by simp
    also have "\<dots> = reader_lease b4 t s" using cp(4) t s se(2) by simp
    also have "\<dots> = reader_lease (swept os b) t s" using se(7) t s by simp
    finally show ?thesis using swept_leases_cleared [OF assms(1,4) s] by (simp add: t_def)
  qed
  ultimately show ?thesis using adv unfolding t_def by blast
qed

end
