(* ===== verification/Row_Iter.thy ===== *)
theory Row_Iter
  imports Row_Read
begin

text \<open>
  The iterator and the random-access side of row reading: \<open>RowIter\<close> yields the frames of the
  snapshotted payload, in order, whatever the outcomes of its validity checks cut off; a stale
  cursor reads zeros for ever; and \<open>Row::col_*\<close> finds the same field as the cursor.
\<close>

section \<open>Stale cursors\<close>

fun zero_value :: "DType \<Rightarrow> Value" where
  "zero_value DU8 = VU8 0"
| "zero_value DI32 = VI32 0"
| "zero_value DI64 = VI64 0"
| "zero_value DF32 = VF32 0"
| "zero_value DF64 = VF64 0"
| "zero_value DU64 = VU64 0"
| "zero_value DU32 = VU32 0"
| "zero_value DStr = VStr []"
| "zero_value DBytes = VBytes []"

lemma word_of_le_zeros [simp]: "word_of_le (replicate n 0) = (0 :: 'a::len word)"
proof -
  have "le_nat (replicate n 0) = 0" by (induction n) auto
  then show ?thesis by (simp add: word_of_le_def)
qed

lemma read_fixed_stale:
  "cur_stale (snd (read_fixed n v1 v2 c)) \<Longrightarrow> fst (read_fixed n v1 v2 c) = replicate n 0"
  by (auto simp: read_fixed_def checked_add_def mark_stale_def Let_def split: option.splits if_splits)

lemma read_fixed_fresh:
  "\<not> cur_stale (snd (read_fixed n v1 v2 c)) \<Longrightarrow> \<not> cur_stale c \<and> v1 \<and> v2"
  by (auto simp: read_fixed_def checked_add_def mark_stale_def Let_def split: option.splits if_splits)

lemma read_lp_stale: "cur_stale (snd (read_lp v1 v2 v3 c)) \<Longrightarrow> fst (read_lp v1 v2 v3 c) = []"
  by (auto simp: read_lp_def checked_add_def mark_stale_def Let_def split: option.splits if_splits prod.splits)

lemma read_lp_fresh: "\<not> cur_stale (snd (read_lp v1 v2 v3 c)) \<Longrightarrow> \<not> cur_stale c \<and> v1 \<and> v2 \<and> v3"
  using read_fixed_fresh [of 4 v1 v2 c]
  by (auto simp: read_lp_def checked_add_def mark_stale_def Let_def split: option.splits if_splits prod.splits)

lemmas next_defs = next_u8_def next_u32_def next_i32_def next_i64_def next_f32_def next_f64_def
  next_u64_def next_str_def next_bytes_def

lemma next_value_stale:
  "cur_stale (snd (next_value d v1 v2 v3 c)) \<Longrightarrow> fst (next_value d v1 v2 v3 c) = zero_value d"
  using read_fixed_stale [of 1 v1 v2 c] read_fixed_stale [of 4 v1 v2 c] read_fixed_stale [of 8 v1 v2 c]
    read_lp_stale [of v1 v2 v3 c]
  by (cases d) (auto simp: next_defs case_prod_beta)

lemma next_value_fresh:
  "\<not> cur_stale (snd (next_value d v1 v2 v3 c)) \<Longrightarrow> \<not> cur_stale c \<and> v1 \<and> v2 \<and> (is_fixed d \<or> v3)"
  using read_fixed_fresh [of 1 v1 v2 c] read_fixed_fresh [of 4 v1 v2 c] read_fixed_fresh [of 8 v1 v2 c]
    read_lp_fresh [of v1 v2 v3 c]
  by (cases d) (auto simp: next_defs is_fixed_def case_prod_beta)

section \<open>The iterator\<close>

text \<open>The bytes the iterator has still to walk.\<close>

definition it_rest :: "RowIter \<Rightarrow> byte list" where
  "it_rest it = bslice (it_pos it) (it_end it - it_pos it) (it_buf it)"

lemma row_iter_next_valid:
  assumes "it_end it \<le> length (it_buf it)" "it_pin it \<noteq> None" "\<And>p. valid p = (True, True)"
  shows "row_iter_next valid it =
    (case parse_rows (it_rest it) of
       [] \<Rightarrow> Some (None, it)
     | r # rs \<Rightarrow> Some (Some \<lparr>row_data = r, row_buf = it_buf it, row_chunk_start = it_chunk_start it,
                          row_generation = it_generation it\<rparr>,
                      it\<lparr>it_pos := it_pos it + (4 + length r)\<rparr>))"
    and "parse_rows (it_rest it) = r # rs \<Longrightarrow>
      rs = parse_rows (it_rest (it\<lparr>it_pos := it_pos it + (4 + length r)\<rparr>)) \<and>
      it_pos it + (4 + length r) \<le> it_end it"
proof -
  let ?p = "it_pos it" and ?e = "it_end it" and ?b = "it_buf it"
  let ?n = "rd ?p 4 ?b"
  have len: "length (it_rest it) = ?e - ?p" if "?p \<le> ?e"
    using assms(1) that by (simp add: it_rest_def)
  have pos: "rd 0 4 (it_rest it) = ?n" if "?p + 4 \<le> ?e"
    using that rd_slice [of 0 4 "?e - ?p" ?p ?b] by (simp add: it_rest_def)
  have sl: "bslice 4 ?n (it_rest it) = bslice (?p + 4) ?n ?b" if "4 + ?n \<le> ?e - ?p"
    using that slice_slice [of 4 ?n "?e - ?p" ?p ?b] by (simp add: it_rest_def)
  consider (short) "\<not> ?p + 4 \<le> ?e" | (cut) "?p + 4 \<le> ?e" "?e - ?p < 4 + ?n"
    | (row) "?p + 4 \<le> ?e" "4 + ?n \<le> ?e - ?p"
    by linarith
  then have main: "row_iter_next valid it =
    (case parse_rows (it_rest it) of
       [] \<Rightarrow> Some (None, it)
     | r # rs \<Rightarrow> Some (Some \<lparr>row_data = r, row_buf = it_buf it, row_chunk_start = it_chunk_start it,
                          row_generation = it_generation it\<rparr>,
                      it\<lparr>it_pos := it_pos it + (4 + length r)\<rparr>)) \<and>
    (\<forall>r rs. parse_rows (it_rest it) = r # rs \<longrightarrow>
      rs = parse_rows (it_rest (it\<lparr>it_pos := it_pos it + (4 + length r)\<rparr>)) \<and> ?p + (4 + length r) \<le> ?e)"
  proof cases
    case short
    then have "length (it_rest it) < 4" by (simp add: it_rest_def length_slice)
    then show ?thesis using short by (simp add: row_iter_next.simps parse_rows.simps [of "it_rest it"])
  next
    case cut
    then have "parse_rows (it_rest it) = []"
      using len pos by (simp add: parse_rows.simps [of "it_rest it"])
    then show ?thesis
      using cut assms r32_in [of ?p ?b] by (simp add: row_iter_next.simps)
  next
    case row
    have d: "drop (4 + ?n) (it_rest it) = it_rest (it\<lparr>it_pos := ?p + (4 + ?n)\<rparr>)"
      using row slice_drop [of "4 + ?n" "?e - ?p" ?p ?b] by (simp add: it_rest_def)
    have parse: "parse_rows (it_rest it) =
        bslice (?p + 4) ?n ?b # parse_rows (it_rest (it\<lparr>it_pos := ?p + (4 + ?n)\<rparr>))"
      using row len pos sl d by (subst parse_rows.simps) (simp add: Let_def)
    have l: "length (bslice (?p + 4) ?n ?b) = ?n" using row assms(1) by simp
    have g: "get_range ?b (?p + 4) (?p + (4 + ?n)) = Some (bslice (?p + 4) ?n ?b)"
      using row assms(1) by (simp add: get_range_def)
    show ?thesis
      using row assms r32_in [of ?p ?b] l g unfolding parse
      by (subst row_iter_next.simps) (auto simp: Let_def)
  qed
  show "row_iter_next valid it =
    (case parse_rows (it_rest it) of
       [] \<Rightarrow> Some (None, it)
     | r # rs \<Rightarrow> Some (Some \<lparr>row_data = r, row_buf = it_buf it, row_chunk_start = it_chunk_start it,
                          row_generation = it_generation it\<rparr>,
                      it\<lparr>it_pos := it_pos it + (4 + length r)\<rparr>))"
    using main by blast
  show "parse_rows (it_rest it) = r # rs \<Longrightarrow>
      rs = parse_rows (it_rest (it\<lparr>it_pos := it_pos it + (4 + length r)\<rparr>)) \<and>
      it_pos it + (4 + length r) \<le> it_end it"
    using main by blast
qed

lemma row_iter_take_valid:
  assumes "it_end it \<le> length (it_buf it)" "it_pin it \<noteq> None" "\<And>p. valid p = (True, True)"
    and "length (parse_rows (it_rest it)) < n"
  shows "row_iter_take n valid it =
    Some (map (\<lambda>r. \<lparr>row_data = r, row_buf = it_buf it, row_chunk_start = it_chunk_start it,
                     row_generation = it_generation it\<rparr>) (parse_rows (it_rest it)))"
  using assms
proof (induction n arbitrary: it)
  case (Suc n)
  note nx = row_iter_next_valid [OF Suc.prems(1-3)]
  show ?case
  proof (cases "parse_rows (it_rest it)")
    case Nil
    then show ?thesis by (simp add: nx(1))
  next
    case (Cons r rs)
    let ?it = "it\<lparr>it_pos := it_pos it + (4 + length r)\<rparr>"
    from nx(2) [OF Cons] have rs: "rs = parse_rows (it_rest ?it)" by simp
    have "row_iter_take n valid ?it = Some (map (\<lambda>r. \<lparr>row_data = r, row_buf = it_buf ?it,
        row_chunk_start = it_chunk_start ?it, row_generation = it_generation ?it\<rparr>) (parse_rows (it_rest ?it)))"
      using Suc.prems Cons rs by (intro Suc.IH) auto
    then show ?thesis using Cons rs by (simp add: nx(1))
  qed
qed simp


section \<open>Random access\<close>

fun col_value :: "DType \<Rightarrow> Row \<Rightarrow> usize \<Rightarrow> bool \<Rightarrow> bool \<Rightarrow> Value" where
  "col_value DU8 r i v1 v2 = VU8 (col_u8 r i v1 v2)"
| "col_value DI32 r i v1 v2 = VI32 (col_i32 r i v1 v2)"
| "col_value DI64 r i v1 v2 = VI64 (col_i64 r i v1 v2)"
| "col_value DF32 r i v1 v2 = VF32 (col_f32 r i v1 v2)"
| "col_value DF64 r i v1 v2 = VF64 (col_f64 r i v1 v2)"
| "col_value DU64 r i v1 v2 = VU64 (col_u64 r i v1 v2)"
| "col_value DU32 r i v1 v2 = VU32 (col_u32 r i v1 v2)"
| "col_value DStr r i v1 v2 = VStr (col_str r i v1 v2)"
| "col_value DBytes r i v1 v2 = VBytes (col_bytes r i v1 v2)"

lemmas col_defs = col_u8_def col_i32_def col_i64_def col_f32_def col_f64_def col_u64_def col_u32_def
  col_str_def col_bytes_def

lemma slice_mid: "bslice (length pre) (length fb) (pre @ fb @ rest) = fb"
  by (simp add: bslice_def)

lemma try_read_i32_mid:
  assumes "d = pre @ fb @ rest" "4 \<le> length fb" "length d < 2 ^ 64"
  shows "try_read_i32 d (length pre) = Some (word_of_le (take 4 fb))"
proof -
  have "checked_add (length pre) 4 = Some (length pre + 4)" using assms by simp
  moreover have "get_range d (length pre) (length pre + 4) = Some (take 4 fb)"
    using assms by (simp add: get_range_def bslice_def)
  ultimately show ?thesis by (simp add: try_read_i32_def del: checked_add_eq_Some)
qed

text \<open>The two readings of a length prefix: a length, or the negated chunk offset of the value.\<close>

lemma var_field_raw:
  assumes "var_data v = Some data" "field_encodes b cs v fb"
  obtains (inline) "fb = le_bytes 4 (length data) @ data" "length data < 2 ^ 31"
      "word_of_le (take 4 fb) = (word_of_nat (length data) :: i32)"
    | (ref) off where "fb = ref_bytes off" "ref_to b cs off data"
      "word_of_le (take 4 fb) = - (word_of_nat off :: i32)"
      "sint (- (word_of_nat off :: i32)) = - int off" "40 \<le> off" "off < 2 ^ 31"
proof -
  consider "fb = le_bytes 4 (length data) @ data" "length data < 2 ^ 31"
    | off where "fb = ref_bytes off" "ref_to b cs off data"
    using assms by (cases v) (auto simp: field_encodes_def value_ok_def)
  then show ?thesis
  proof cases
    case 1
    then show ?thesis by (intro inline) (simp_all add: word_of_le_4)
  next
    case 2
    then have "40 \<le> off" "off < 2 ^ 31" by (auto simp: ref_to_def layout_consts)
    with 2 show ?thesis by (intro ref) (simp_all add: ref_bytes_def i32_neg)
  qed
qed

lemma try_var_field_size_mid:
  assumes "var_data v = Some data" "field_encodes b cs v fb" "d = pre @ fb @ rest" "length d < 2 ^ 64"
  shows "try_var_field_size d (length pre) = Some (length fb)"
  using assms(1,2)
proof (cases rule: var_field_raw)
  case inline
  have "try_read_i32 d (length pre) = Some (word_of_nat (length data))"
    using try_read_i32_mid [OF assms(3) _ assms(4)] inline by simp
  moreover note i32_nonneg [OF inline(2)]
  ultimately show ?thesis using inline by (simp add: try_var_field_size_def)
next
  case (ref off)
  have "try_read_i32 d (length pre) = Some (- (word_of_nat off))"
    using try_read_i32_mid [OF assms(3) _ assms(4)] ref by (simp add: ref_bytes_def)
  then show ?thesis using ref(1,4,5) by (simp add: try_var_field_size_def ref_bytes_def)
qed

lemma try_resolve_var_mid:
  assumes "var_data v = Some data" "field_encodes b cs v fb" "d = pre @ fb @ rest" "length d < 2 ^ 64"
    and "length b < 2 ^ 64" "cs + chunk_size (header b) \<le> length b"
  shows "try_resolve_var d (length pre) b cs = Some data"
  using assms(1,2)
proof (cases rule: var_field_raw)
  case inline
  have r: "try_read_i32 d (length pre) = Some (word_of_nat (length data))"
    using try_read_i32_mid [OF assms(3) _ assms(4)] inline by simp
  have "bslice (length pre + 4) (length data) d = data"
    using inline assms(3) by (simp add: bslice_def)
  then show ?thesis
    using inline r i32_nonneg [OF inline(2)] assms(3,4)
    by (simp add: try_resolve_var_def checked_add_def get_range_def)
next
  case (ref off)
  let ?L = "length data"
  have r: "try_read_i32 d (length pre) = Some (- (word_of_nat off))"
    using try_read_i32_mid [OF assms(3) _ assms(4)] ref by (simp add: ref_bytes_def)
  have t: "off + 4 + ?L \<le> chunk_size (header b)"
    "bslice (cs + off) (4 + ?L) b = le_bytes 4 ?L @ data"
    using ref(2) by (auto simp: ref_to_def)
  have fits: "cs + off + 4 + ?L \<le> length b" using t(1) assms(6) by linarith
  have "bslice (cs + off) 4 b = le_bytes 4 ?L" using slice_prefix [of 4 "4 + ?L" "cs + off" b] t(2) by simp
  then have len: "try_read_u32 b (cs + off) = Some (word_of_nat ?L)"
    using fits by (simp add: try_read_u32_def word_of_le_4)
  have "?L < 2 ^ 32" using t(1) rd4_bound [of 24 b] by (simp add: header_def)
  then have un: "unat (word_of_nat ?L :: u32) = ?L" by (simp add: unat_of_nat)
  have val: "bslice (cs + off + 4) ?L b = data"
    using slice_drop [of 4 "4 + ?L" "cs + off" b] t(2) by simp
  have neg: "i32_checked_neg (- word_of_nat off) = Some (int off)"
    using ref(4-6) by (simp add: i32_checked_neg_def)
  show ?thesis
    using ref(4-6) t(1) fits assms(5,6) val
    by (simp add: try_resolve_var_def checked_add_def r neg len un layout_consts)
qed

lemma col_offset_from_append:
  "col_offset_from r off (is @ js) = col_offset_from r off is \<bind> (\<lambda>o'. col_offset_from r o' js)"
  by (induction "is" arbitrary: off) (auto split: Option.bind_split)

lemma field_size_at:
  assumes "field_encodes (row_buf r) (row_chunk_start r) v fb" "row_data r = pre @ fb @ rest"
    and "length (row_data r) < 2 ^ 64" "dtype_from_u32 (cd_dtype (col_desc (row_buf r) i)) = Some (value_dtype v)"
  shows "col_offset_from r (length pre) [i] = Some (length pre + length fb)"
proof -
  have "(case fixed_size (value_dtype v) of Some sz \<Rightarrow> Some sz
      | None \<Rightarrow> try_var_field_size (row_data r) (length pre)) = Some (length fb)"
  proof (cases "var_data v")
    case None
    then have "fb = value_bytes v" using assms(1) by (simp add: field_encodes_def)
    then show ?thesis using None by (cases v) simp_all
  next
    case (Some data)
    then have "fixed_size (value_dtype v) = None" by (cases v) simp_all
    then show ?thesis using try_var_field_size_mid [OF Some assms(1-3)] by simp
  qed
  moreover have "checked_add (length pre) (length fb) = Some (length pre + length fb)"
    using assms(2,3) by simp
  ultimately show ?thesis using assms(4) by (simp del: checked_add_eq_Some)
qed

lemma try_col_offset_fields:
  assumes "list_all2 (field_encodes (row_buf r) (row_chunk_start r)) vs fbs" "row_data r = concat fbs"
    and "length (row_data r) < 2 ^ 64" "validate_row_schema (row_buf r) vs" "i \<le> length vs"
  shows "col_offset_from r 0 [0..<i] = Some (length (concat (take i fbs)))"
  using assms(5)
proof (induction i)
  case (Suc i)
  have len: "length fbs = length vs" using assms(1) by (simp add: list_all2_lengthD)
  have f: "field_encodes (row_buf r) (row_chunk_start r) (vs ! i) (fbs ! i)"
    using assms(1) Suc.prems by (simp add: list_all2_conv_all_nth)
  have d: "row_data r = concat (take i fbs) @ fbs ! i @ concat (drop (Suc i) fbs)"
    using assms(2) Suc.prems len by (metis Suc_le_eq concat.simps(2) concat_append id_take_nth_drop)
  have t: "dtype_from_u32 (cd_dtype (col_desc (row_buf r) i)) = Some (value_dtype (vs ! i))"
    using assms(4) Suc.prems by (auto simp: validate_row_schema_def list_all_length nth_enumerate_eq)
  have "concat (take (Suc i) fbs) = concat (take i fbs) @ fbs ! i"
    using Suc.prems len by (simp add: take_Suc_conv_app_nth)
  with Suc field_size_at [OF f d assms(3) t] show ?case
    by (simp add: col_offset_from_append)
qed simp

lemma col_value_fields:
  assumes "row_encodes (row_buf r) (row_chunk_start r) vs (row_data r)"
    and "length (row_data r) < 2 ^ 64" "length (row_buf r) < 2 ^ 64"
    and "row_chunk_start r + chunk_size (header (row_buf r)) \<le> length (row_buf r)"
    and "validate_row_schema (row_buf r) vs" "i < length vs"
  shows "col_value (value_dtype (vs ! i)) r i True True = vs ! i"
proof -
  from assms(1) obtain fbs where f: "list_all2 (field_encodes (row_buf r) (row_chunk_start r)) vs fbs"
    "row_data r = concat fbs" by (auto simp: row_encodes_def)
  let ?v = "vs ! i" and ?fb = "fbs ! i" and ?pre = "concat (take i fbs)"
  have len: "length fbs = length vs" using f(1) by (simp add: list_all2_lengthD)
  have e: "field_encodes (row_buf r) (row_chunk_start r) ?v ?fb"
    using f(1) assms(6) by (simp add: list_all2_conv_all_nth)
  have d: "row_data r = ?pre @ ?fb @ concat (drop (Suc i) fbs)"
    using f(2) assms(6) len by (metis concat.simps(2) concat_append id_take_nth_drop)
  have off: "try_col_offset r i = Some (length ?pre)"
    using try_col_offset_fields [OF f assms(2,5), of i] assms(5,6)
    by (simp add: try_col_offset_def validate_row_schema_def)
  have fits: "length ?pre + length ?fb \<le> length (row_data r)" using d by simp
  have sl: "bslice (length ?pre) (length ?fb) (row_data r) = ?fb" by (subst d) (rule slice_mid)
  have lt: "i < length fbs" using len assms(6) by simp
  show ?thesis
  proof (cases "var_data ?v")
    case (Some data)
    have "try_resolve_var_col r i = Some data"
      using off try_resolve_var_mid [OF Some e d assms(2-4)] by (simp add: try_resolve_var_col_def)
    moreover have "utf8_ok s" if "?v = VStr s" for s
      using e that by (simp add: field_encodes_def value_ok_def)
    ultimately show ?thesis using Some
      by (cases ?v) (simp_all add: col_defs guarded_def str_or_empty)
  next
    case None
    then have fb: "?fb = value_bytes ?v" using e by (simp add: field_encodes_def)
    have nth: "row_data r ! length ?pre = ?fb ! 0" if "0 < length ?fb"
      using that by (subst d) (simp add: nth_append)
    have chk: "checked_add (length ?pre) (length ?fb) = Some (length ?pre + length ?fb)"
      using fits assms(2) by simp
    show ?thesis
      using None off fits sl nth chk fb
      by (cases ?v) (simp_all add: col_defs guarded_def try_read_i32_def try_read_u32_def
        try_read_i64_def try_read_u64_def try_read_f32_def try_read_f64_def get_range_def
        del: checked_add_eq_Some length_concat)
  qed
qed

end
