(* ===== verification/Memtable.thy ===== *)
theory Memtable
  imports Writer Raw_Advance Row_Iter "HOL-Library.Product_Lexorder"
begin

text \<open>
  The table API (\<open>probing/memtable/src/memtable.rs\<close>): the read accessors shared by \<open>MemTable\<close>,
  \<open>MemTableView\<close> and \<open>MemTableWriter\<close>, the plain and the dedup write paths with their automatic
  advance, the owned table with its storage kinds and the borrowed \<open>MemTableWriter\<close>. Opening,
  mapping and locking files is the operating system's and is not modelled; what \<open>Drop\<close> would remove
  is returned as a value.
\<close>

section \<open>Read accessors\<close>

definition chunk_used :: "buf \<Rightarrow> usize \<Rightarrow> usize" where
  "chunk_used b chunk = used (chunk_header b (chunk_start_off b chunk))"

definition chunk_generation :: "buf \<Rightarrow> usize \<Rightarrow> nat" where
  "chunk_generation b chunk = generation (chunk_header b (chunk_start_off b chunk))"

definition chunk_state :: "buf \<Rightarrow> usize \<Rightarrow> nat" where
  "chunk_state b chunk = state (chunk_header b (chunk_start_off b chunk))"

definition num_rows :: "buf \<Rightarrow> usize \<Rightarrow> usize" where
  "num_rows b chunk = row_count (chunk_header b (chunk_start_off b chunk))"

definition table_ts_col :: "buf \<Rightarrow> usize option" where
  "table_ts_col b = (if ts_col (header b) = 0 then None else Some (ts_col (header b) - 1))"

definition chunk_ts_range :: "buf \<Rightarrow> usize \<Rightarrow> (i64 \<times> i64) option" where
  "chunk_ts_range b chunk = do {
     _ \<leftarrow> table_ts_col b;
     let ch = chunk_header b (chunk_start_off b chunk);
     if sint (max_ts ch) < sint (min_ts ch) then None else Some (min_ts ch, max_ts ch)
   }"

definition try_rows :: "os \<Rightarrow> buf \<Rightarrow> usize \<Rightarrow> (MemtableError + RowIter) \<times> buf" where
  "try_rows os b chunk =
    (if num_chunks (header b) \<le> chunk then (Inl (InvalidBuffer ''chunk index out of range''), b)
     else (let cs = chunk_start_off b chunk; data_start = cs + CHUNK_HEADER_SIZE in
       (case pin_chunk os b cs of
          (Inr (Some (pin, gen, u)), b1) \<Rightarrow>
            (Inr \<lparr>it_buf = b1, it_chunk_start = cs, it_pos = data_start, it_end = data_start + u,
                  it_generation = gen, it_pin = Some pin\<rparr>, b1)
        | (Inr None, b1) \<Rightarrow>
            (Inr \<lparr>it_buf = b1, it_chunk_start = cs, it_pos = data_start, it_end = data_start,
                  it_generation = 0, it_pin = None\<rparr>, b1)
        | (Inl e, b1) \<Rightarrow>
            (Inl e, if e = ReaderLeaseExhausted
                    then wr 88 8 (reader_lease_failures (header b1) + 1) b1 else b1))))"

definition table_rows :: "os \<Rightarrow> buf \<Rightarrow> usize \<Rightarrow> RowIter \<times> buf" where
  "table_rows os b chunk =
    (case try_rows os b chunk of
       (Inr it, b1) \<Rightarrow> (it, b1)
     | (Inl e, b1) \<Rightarrow> (\<lparr>it_buf = b1, it_chunk_start = 0, it_pos = 0, it_end = 0, it_generation = 0,
                        it_pin = None\<rparr>, b1))"

definition chunks_logical :: "buf \<Rightarrow> usize list" where
  "chunks_logical b =
    (let order = [(chunk_generation b i, i). i \<leftarrow> [0..<num_chunks (header b)],
                    \<not> (chunk_generation b i = 0 \<or> num_rows b i = 0)]
     in map snd (sort order))"

definition table_schema :: "buf \<Rightarrow> Schema option" where
  "table_schema b = do {
     cs \<leftarrow> those (map (\<lambda>i. do { n \<leftarrow> name_str (col_desc b i);
             Some (map_option (\<lambda>d. \<lparr>col_name = n, col_dtype = d,
               col_elem_size = cd_elem_size (col_desc b i), col_doc = None\<rparr>)
               (dtype_from_u32 (cd_dtype (col_desc b i)))) })
           [0..<num_cols (header b)]);
     Some (schema_new\<lparr>cols := map the (filter (\<lambda>c. c \<noteq> None) cs)\<rparr>)
   }"

section \<open>Plain writes\<close>

datatype WriteOutcome = Written | SchemaMismatch | RowTooLarge | WriteReadersPinned

definition is_written :: "WriteOutcome \<Rightarrow> bool" where
  "is_written o' = (o' = Written)"

definition push_plain_row_detailed :: "os \<Rightarrow> buf \<Rightarrow> Value list \<Rightarrow> (WriteOutcome \<times> buf) option" where
  "push_plain_row_detailed os b vs = do {
     let row_data = row_data_size vs;
     (ok, b) \<leftarrow> write_row_bytes b vs row_data;
     if ok then Some (Written, b)
     else do {
       (out, b) \<leftarrow> advance_chunk_raw_detailed os b;
       if out = ReadersPinned then Some (WriteReadersPinned, b)
       else do {
         (ok, b) \<leftarrow> write_row_bytes b vs row_data;
         Some (if ok then Written else RowTooLarge, b)
       }
     }
   }"

section \<open>Dedup writes\<close>

definition MAX_DEDUP_COLS :: nat where "MAX_DEDUP_COLS = 64"

definition value_lookup :: "hasher \<Rightarrow> DedupState \<Rightarrow> buf \<Rightarrow> usize \<Rightarrow> usize \<Rightarrow> Value \<Rightarrow> usize option" where
  "value_lookup xxh3 st b cs i v =
    (case var_data v of Some data \<Rightarrow> dedup_lookup xxh3 st i data b cs | None \<Rightarrow> None)"

definition dedup_lookups ::
  "hasher \<Rightarrow> DedupState \<Rightarrow> buf \<Rightarrow> usize \<Rightarrow> Value list \<Rightarrow> (nat \<times> Value \<times> usize option) list" where
  "dedup_lookups xxh3 st b cs vs = map (\<lambda>(i, v). (i, v, value_lookup xxh3 st b cs i v)) (enumerate 0 vs)"

fun field_size :: "nat \<times> Value \<times> usize option \<Rightarrow> usize" where
  "field_size (i, v, dup) = (if dup \<noteq> None then 4 else encoded_size v)"

fun write_dedup_cols :: "hasher \<Rightarrow> usize \<Rightarrow> (nat \<times> Value \<times> usize option) list \<Rightarrow> usize \<Rightarrow> buf \<Rightarrow>
   DedupState \<Rightarrow> (buf \<times> DedupState) option" where
  "write_dedup_cols xxh3 cs [] off b st = Some (b, st)"
| "write_dedup_cols xxh3 cs ((i, v, dup) # fs) off b st =
    (case var_data v of
       Some data \<Rightarrow>
         (case dup of
            Some ref_off \<Rightarrow> do {
              b \<leftarrow> copy_at off (ref_bytes ref_off) b;
              write_dedup_cols xxh3 cs fs (off + 4) b st
            }
          | None \<Rightarrow> do {
              let chunk_off = off - cs;
              (b, n) \<leftarrow> encode_at v off b;
              write_dedup_cols xxh3 cs fs (off + n) b (dedup_insert xxh3 st i data chunk_off)
            })
     | None \<Rightarrow> do {
         (b, n) \<leftarrow> encode_at v off b;
         write_dedup_cols xxh3 cs fs (off + n) b st
       })"

definition append_row_dedup_bytes ::
  "hasher \<Rightarrow> buf \<Rightarrow> DedupState \<Rightarrow> Value list \<Rightarrow> (bool \<times> buf \<times> DedupState) option" where
  "append_row_dedup_bytes xxh3 b st vs =
    (if MAX_DEDUP_COLS < length vs then Some (False, b, st)
     else (let h = header b;
               csz = chunk_size h;
               cs = data_offset h + write_chunk h * csz;
               u = used (chunk_header b cs);
               fs = dedup_lookups xxh3 st b cs vs;
               row_data = sum_list (map field_size fs);
               total = 4 + row_data
           in if csz < CHUNK_HEADER_SIZE + u + total then Some (False, b, st)
              else do {
                let row_start = cs + CHUNK_HEADER_SIZE + u;
                b1 \<leftarrow> w32 b row_start row_data;
                (b2, st') \<leftarrow> write_dedup_cols xxh3 cs fs (row_start + 4) b1 st;
                Some (True, publish_row b2 cs (row_ts (header b2) vs) (u + total), st')
              }))"

section \<open>The borrowed writer\<close>

record MemTableWriter =
  mw_buf :: buf
  mw_dedup :: "DedupState option"

definition writer_new :: "os \<Rightarrow> nat \<Rightarrow> buf \<Rightarrow> (MemtableError + MemTableWriter) option" where
  "writer_new os addr b = do {
     (r, b) \<leftarrow> validate_buf os addr b;
     Some (case r of Inl e \<Rightarrow> Inl e | Inr _ \<Rightarrow> Inr \<lparr>mw_buf = b, mw_dedup = None\<rparr>)
   }"

definition writer_init :: "os \<Rightarrow> nat \<Rightarrow> nat \<Rightarrow> buf \<Rightarrow> Schema \<Rightarrow> nat \<Rightarrow> nat \<Rightarrow> MemtableError + MemTableWriter" where
  "writer_init os iid addr b s csz nch =
    (case init_buf os iid addr b s csz nch of
       Inl e \<Rightarrow> Inl e
     | Inr b \<Rightarrow> Inr \<lparr>mw_buf = b, mw_dedup = None\<rparr>)"

definition writer_dedup :: "MemTableWriter \<Rightarrow> MemTableWriter" where
  "writer_dedup w = w\<lparr>mw_buf := wr 12 4 (flags (header (mw_buf w)) OR FLAG_DEDUP) (mw_buf w),
                      mw_dedup := Some dedup_new\<rparr>"

definition writer_set_min_dedup_len :: "MemTableWriter \<Rightarrow> usize \<Rightarrow> MemTableWriter" where
  "writer_set_min_dedup_len w len = w\<lparr>mw_dedup := map_option (\<lambda>s. dedup_set_min_len s len) (mw_dedup w)\<rparr>"

definition writer_row_writer :: "MemTableWriter \<Rightarrow> RowWriter" where
  "writer_row_writer w = make_row_writer (mw_buf w) (mw_dedup w)"

definition try_push_inner :: "hasher \<Rightarrow> os \<Rightarrow> MemTableWriter \<Rightarrow> Value list \<Rightarrow>
   (WriteOutcome \<times> MemTableWriter) option" where
  "try_push_inner xxh3 os w vs =
    (case mw_dedup w of
       Some st \<Rightarrow> do {
         (ok, b, st) \<leftarrow> append_row_dedup_bytes xxh3 (mw_buf w) st vs;
         if ok then Some (Written, \<lparr>mw_buf = b, mw_dedup = Some st\<rparr>)
         else do {
           (out, b) \<leftarrow> advance_chunk_raw_detailed os b;
           if out = ReadersPinned then Some (WriteReadersPinned, \<lparr>mw_buf = b, mw_dedup = Some st\<rparr>)
           else do {
             (ok, b, st) \<leftarrow> append_row_dedup_bytes xxh3 b (dedup_clear st) vs;
             Some (if ok then Written else RowTooLarge, \<lparr>mw_buf = b, mw_dedup = Some st\<rparr>)
           }
         }
       }
     | None \<Rightarrow> do {
         (out, b) \<leftarrow> push_plain_row_detailed os (mw_buf w) vs;
         Some (out, w\<lparr>mw_buf := b\<rparr>)
       })"

definition writer_try_push_row :: "hasher \<Rightarrow> os \<Rightarrow> MemTableWriter \<Rightarrow> Value list \<Rightarrow>
   (WriteOutcome \<times> MemTableWriter) option" where
  "writer_try_push_row xxh3 os w vs =
    (if \<not> validate_row_schema (mw_buf w) vs then Some (SchemaMismatch, w)
     else try_push_inner xxh3 os w vs)"

definition writer_push_row :: "hasher \<Rightarrow> os \<Rightarrow> MemTableWriter \<Rightarrow> Value list \<Rightarrow>
   (bool \<times> MemTableWriter) option" where
  "writer_push_row xxh3 os w vs = map_option (apfst is_written) (writer_try_push_row xxh3 os w vs)"

definition writer_advance_chunk :: "os \<Rightarrow> MemTableWriter \<Rightarrow> (bool \<times> MemTableWriter) option" where
  "writer_advance_chunk os w = do {
     (advanced, b) \<leftarrow> advance_chunk_raw os (mw_buf w);
     Some (advanced, \<lparr>mw_buf = b,
        mw_dedup = (if advanced then map_option dedup_clear (mw_dedup w) else mw_dedup w)\<rparr>)
   }"

definition writer_append_row :: "hasher \<Rightarrow> MemTableWriter \<Rightarrow> Value list \<Rightarrow>
   (bool \<times> MemTableWriter) option" where
  "writer_append_row xxh3 w vs =
    (if \<not> validate_row_schema (mw_buf w) vs then Some (False, w)
     else (case mw_dedup w of
         Some st \<Rightarrow> do {
           (ok, b, st) \<leftarrow> append_row_dedup_bytes xxh3 (mw_buf w) st vs;
           Some (ok, \<lparr>mw_buf = b, mw_dedup = Some st\<rparr>)
         }
       | None \<Rightarrow> do {
           (ok, b) \<leftarrow> write_row_bytes (mw_buf w) vs (row_data_size vs);
           Some (ok, w\<lparr>mw_buf := b\<rparr>)
         }))"

section \<open>The owned table\<close>

datatype BackingKind = KHeap | KShm | KFile

datatype Backing =
    Heap buf
  | Shm buf string bool
  | File buf string "string option" bool
  | FileRead buf string

fun backing_bytes :: "Backing \<Rightarrow> buf" where
  "backing_bytes (Heap b) = b"
| "backing_bytes (Shm b name unlink) = b"
| "backing_bytes (File b path dir unlink) = b"
| "backing_bytes (FileRead b path) = b"

text \<open>\<open>bytes_mut\<close> panics on a read-only attachment; the update writes the bytes back.\<close>

fun with_bytes_mut :: "(buf \<Rightarrow> ('r \<times> buf) option) \<Rightarrow> Backing \<Rightarrow> ('r \<times> Backing) option" where
  "with_bytes_mut f (Heap b) = map_option (apsnd Heap) (f b)"
| "with_bytes_mut f (Shm b name unlink) = map_option (apsnd (\<lambda>b. Shm b name unlink)) (f b)"
| "with_bytes_mut f (File b path dir unlink) = map_option (apsnd (\<lambda>b. File b path dir unlink)) (f b)"
| "with_bytes_mut f (FileRead b path) = None"

fun backing_kind :: "Backing \<Rightarrow> BackingKind" where
  "backing_kind (Heap _) = KHeap"
| "backing_kind (Shm _ _ _) = KShm"
| "backing_kind (File _ _ _ _) = KFile"
| "backing_kind (FileRead _ _) = KFile"

fun is_shared :: "Backing \<Rightarrow> bool" where
  "is_shared (Heap _) = False"
| "is_shared (Shm _ _ _) = True"
| "is_shared (File _ _ _ _) = True"
| "is_shared (FileRead _ _) = True"

fun table_path :: "Backing \<Rightarrow> string option" where
  "table_path (File _ path _ _) = Some path"
| "table_path (FileRead _ path) = Some path"
| "table_path _ = None"

fun shm_name :: "Backing \<Rightarrow> string option" where
  "shm_name (Shm _ name _) = Some name"
| "shm_name _ = None"

text \<open>The normalised shm name, or nothing where the code reports \<open>InvalidInput\<close>.\<close>

definition shm_name_cstring :: "string \<Rightarrow> string option" where
  "shm_name_cstring name =
    (let normalised = (if take 1 name = ''/'' then name else CHR ''/'' # name)
     in if CHR ''/'' \<in> set (tl normalised) then None
        else if CHR 0x00 \<in> set normalised then None
        else Some normalised)"

definition required_size :: "Schema \<Rightarrow> usize \<Rightarrow> usize \<Rightarrow> usize option" where
  "required_size s csz nch = map_option (\<lambda>off. off + csz * nch) (compute_data_offset (length (cols s)) nch)"

definition checked_required_size :: "Schema \<Rightarrow> nat \<Rightarrow> nat \<Rightarrow> MemtableError + usize" where
  "checked_required_size s csz nch =
    (case checked_data_offset (length (cols s)) nch of
       None \<Rightarrow> Inl (InvalidBuffer ''column layout overflow'')
     | Some off \<Rightarrow>
         (case Option.bind (checked_mul csz nch) (checked_add off) of
            None \<Rightarrow> Inl (InvalidBuffer ''table size overflow'')
          | Some sz \<Rightarrow> Inr sz))"

text \<open>
  \<open>alloc\<close> is the allocator: the address a buffer of the given size gets, or nothing when
  \<open>try_reserve_exact\<close> fails.
\<close>

definition table_new :: "os \<Rightarrow> nat \<Rightarrow> (usize \<Rightarrow> nat option) \<Rightarrow> Schema \<Rightarrow> nat \<Rightarrow> nat \<Rightarrow> MemtableError + Backing" where
  "table_new os iid alloc s csz nch =
    (case checked_required_size s csz nch of
       Inl e \<Rightarrow> Inl e
     | Inr sz \<Rightarrow>
         (case alloc sz of
            None \<Rightarrow> Inl (InvalidBuffer ''table allocation exceeds address space'')
          | Some addr \<Rightarrow>
              (case init_buf os iid addr (replicate sz 0) s csz nch of
                 Inl e \<Rightarrow> Inl e
               | Inr b \<Rightarrow> Inr (Heap b))))"

definition table_from_buf :: "os \<Rightarrow> nat \<Rightarrow> buf \<Rightarrow> (MemtableError + Backing) option" where
  "table_from_buf os addr b = do {
     (r, b) \<leftarrow> validate_buf os addr b;
     Some (case r of Inl e \<Rightarrow> Inl e | Inr _ \<Rightarrow> Inr (Heap b))
   }"

definition table_append_row :: "Backing \<Rightarrow> Value list \<Rightarrow> (bool \<times> Backing) option" where
  "table_append_row t vs =
    (if \<not> validate_row_schema (backing_bytes t) vs then Some (False, t)
     else with_bytes_mut (\<lambda>b. write_row_bytes b vs (row_data_size vs)) t)"

definition table_advance_chunk :: "os \<Rightarrow> Backing \<Rightarrow> (bool \<times> Backing) option" where
  "table_advance_chunk os t = with_bytes_mut (advance_chunk_raw os) t"

definition try_push_row_unchecked :: "os \<Rightarrow> Backing \<Rightarrow> Value list \<Rightarrow> (WriteOutcome \<times> Backing) option" where
  "try_push_row_unchecked os t vs = with_bytes_mut (\<lambda>b. push_plain_row_detailed os b vs) t"

definition try_push_row :: "os \<Rightarrow> Backing \<Rightarrow> Value list \<Rightarrow> (WriteOutcome \<times> Backing) option" where
  "try_push_row os t vs =
    (if \<not> validate_row_schema (backing_bytes t) vs then Some (SchemaMismatch, t)
     else try_push_row_unchecked os t vs)"

definition push_row :: "os \<Rightarrow> Backing \<Rightarrow> Value list \<Rightarrow> (bool \<times> Backing) option" where
  "push_row os t vs = map_option (apfst is_written) (try_push_row os t vs)"

text \<open>What \<open>Drop for MemTable\<close> asks the operating system to remove.\<close>

datatype removal = ShmUnlink string | RemoveFile string | RemoveDirIfEmpty string

fun drop_table :: "Backing \<Rightarrow> removal list" where
  "drop_table (Heap b) = []"
| "drop_table (Shm b name unlink) = (if unlink \<and> CHR 0x00 \<notin> set name then [ShmUnlink name] else [])"
| "drop_table (File b path dir unlink) =
    (if unlink then RemoveFile path # (case dir of Some d \<Rightarrow> [RemoveDirIfEmpty d] | None \<Rightarrow> []) else [])"
| "drop_table (FileRead b path) = []"

end
