(* ===== verification/Payload.thy ===== *)
theory Payload
  imports Memtable
begin

text \<open>
  A chunk as a list of rows of values. \<open>holds p rows\<close> says that the published payload \<open>p\<close> is a
  sequence of frames which stand, one by one, for the rows \<open>rows\<close>; it mentions no buffer, so it
  survives everything that leaves the payload alone, and it is extended by an append on the plain
  and on the dedup path alike.
\<close>

section \<open>Rows of a payload\<close>

definition pay_ref :: "byte list \<Rightarrow> usize \<Rightarrow> byte list \<Rightarrow> bool" where
  "pay_ref p off data \<longleftrightarrow> CHUNK_HEADER_SIZE \<le> off \<and> off < 2 ^ 31 \<and>
     off - CHUNK_HEADER_SIZE + (4 + length data) \<le> length p \<and>
     bslice (off - CHUNK_HEADER_SIZE) (4 + length data) p = le_bytes 4 (length data) @ data"

definition pay_field :: "byte list \<Rightarrow> Value \<Rightarrow> byte list \<Rightarrow> bool" where
  "pay_field p v fb \<longleftrightarrow> value_ok v \<and>
     (fb = value_bytes v \<or>
      (\<exists>data off. var_data v = Some data \<and> fb = ref_bytes off \<and> pay_ref p off data))"

definition pay_row :: "byte list \<Rightarrow> Value list \<Rightarrow> byte list \<Rightarrow> bool" where
  "pay_row p vs bs \<longleftrightarrow> (\<exists>fbs. list_all2 (pay_field p) vs fbs \<and> bs = concat fbs)"

definition holds :: "byte list \<Rightarrow> Value list list \<Rightarrow> bool" where
  "holds p rows \<longleftrightarrow> framed p \<and> list_all2 (pay_row p) rows (parse_rows p)"

lemma pay_ref_append: "pay_ref p off data \<Longrightarrow> pay_ref (p @ q) off data"
  by (auto simp: pay_ref_def slice_append_left)

lemma pay_field_append: "pay_field p v fb \<Longrightarrow> pay_field (p @ q) v fb"
  unfolding pay_field_def using pay_ref_append by blast

lemma pay_row_append: "pay_row p vs bs \<Longrightarrow> pay_row (p @ q) vs bs"
  unfolding pay_row_def using pay_field_append list_all2_mono by metis

lemma pay_row_plain: "list_all value_ok vs \<Longrightarrow> pay_row p vs (row_bytes vs)"
  unfolding pay_row_def row_bytes_def
  by (intro exI [of _ "map value_bytes vs"])
    (auto simp: pay_field_def list_all2_conv_all_nth list_all_length)

lemma holds_Nil [simp]: "holds [] []"
  by (simp add: holds_def)

lemma holds_Nil_iff [simp]: "holds [] rows \<longleftrightarrow> rows = []"
  by (simp add: holds_def)

lemma holds_snoc:
  assumes "holds p rows" "pay_row p vs bs" "length bs < 2 ^ 32"
  shows "holds (p @ frame bs) (rows @ [vs])"
proof -
  have f: "framed p" and l: "list_all2 (pay_row p) rows (parse_rows p)"
    using assms(1) by (auto simp: holds_def)
  have "list_all2 (pay_row (p @ frame bs)) rows (parse_rows p)"
    using l by (rule list_all2_mono) (rule pay_row_append)
  then show ?thesis
    using pay_row_append [OF assms(2)] f assms(3)
    by (simp add: holds_def framed_snoc parse_rows_snoc list_all2_appendI)
qed

lemma frames_min_size: "4 * length (parse_rows p) \<le> length p"
proof (induction p rule: parse_rows.induct)
  case (1 p)
  then show ?case by (subst parse_rows.simps) (fastforce simp: Let_def)
qed

lemma holds_count: "holds p rows \<Longrightarrow> 4 * length rows \<le> length p"
  using frames_min_size [of p] by (auto simp: holds_def dest: list_all2_lengthD)

section \<open>Payload and buffer\<close>

lemma pay_ref_buffer:
  assumes "pay_ref (payload b i) off data" "used (chunk_hdr b i) \<le> chunk_size (header b) - CHUNK_HEADER_SIZE"
    and "CHUNK_HEADER_SIZE \<le> chunk_size (header b)"
  shows "ref_to b (chunk_start_off b i) off data"
proof -
  let ?u = "used (chunk_hdr b i)" and ?k = "off - CHUNK_HEADER_SIZE" and ?n = "4 + length data"
  have p: "CHUNK_HEADER_SIZE \<le> off" "off < 2 ^ 31" "?k + ?n \<le> length (payload b i)"
    "bslice ?k ?n (payload b i) = le_bytes 4 (length data) @ data"
    using assms(1) by (auto simp: pay_ref_def)
  have "length (payload b i) \<le> ?u" by (simp add: payload_def length_slice)
  with p(3) have ku: "?k + ?n \<le> ?u" by linarith
  have "bslice ?k ?n (payload b i) = bslice (chunk_start_off b i + off) ?n b"
    using slice_slice [OF ku, of "chunk_start_off b i + CHUNK_HEADER_SIZE" b] p(1)
    by (simp add: payload_def)
  moreover have "off + 4 + length data \<le> chunk_size (header b)"
    using ku p(1) assms(2,3) by linarith
  ultimately show ?thesis using p by (simp add: ref_to_def)
qed

lemma pay_row_buffer:
  assumes "pay_row (payload b i) vs bs" "used (chunk_hdr b i) \<le> chunk_size (header b) - CHUNK_HEADER_SIZE"
    and "CHUNK_HEADER_SIZE \<le> chunk_size (header b)"
  shows "row_encodes b (chunk_start_off b i) vs bs"
proof -
  have "field_encodes b (chunk_start_off b i) v fb" if "pay_field (payload b i) v fb" for v fb
    using that pay_ref_buffer [OF _ assms(2,3)] unfolding pay_field_def field_encodes_def by blast
  then show ?thesis
    using assms(1) list_all2_mono [of "pay_field (payload b i)" vs _ "field_encodes b (chunk_start_off b i)"]
    unfolding pay_row_def row_encodes_def by blast
qed

section \<open>The dedup path\<close>

fun field_bytes :: "nat \<times> Value \<times> usize option \<Rightarrow> byte list" where
  "field_bytes (i, v, Some off) = ref_bytes off"
| "field_bytes (i, v, None) = value_bytes v"

definition field_wf :: "nat \<times> Value \<times> usize option \<Rightarrow> bool" where
  "field_wf f = (case f of (i, v, dup) \<Rightarrow> dup \<noteq> None \<longrightarrow> var_data v \<noteq> None)"

lemma length_field_bytes [simp]: "length (field_bytes f) = field_size f"
  by (cases f rule: field_bytes.cases) (simp_all add: ref_bytes_def)

lemma length_concat_fields: "length (concat (map field_bytes fs)) = sum_list (map field_size fs)"
  by (simp add: length_concat o_def)

lemma lookups_wf: "list_all field_wf (dedup_lookups xxh3 st b cs vs)"
  by (auto simp: dedup_lookups_def list_all_iff field_wf_def value_lookup_def split: option.splits)

lemma var_data_value_bytes: "var_data v = Some data \<Longrightarrow> value_bytes v = le_bytes 4 (length data) @ data"
  by (cases v) auto

lemma lp_at_written:
  assumes "cs + 40 \<le> off" "off + (4 + length data) \<le> length b"
    and "var_data v = Some data"
  shows "lp_at (bsplice off (value_bytes v) b) cs (off + encoded_size v - cs - 40) (off - cs)"
proof -
  let ?b = "bsplice off (value_bytes v) b"
  have vb: "value_bytes v = le_bytes 4 (length data) @ data" by (rule var_data_value_bytes [OF assms(3)])
  have es: "encoded_size v = 4 + length data" using assms(3) by (cases v) auto
  have "bslice off 4 ?b = le_bytes 4 (length data)"
    using assms(2) slice_splice_within [of off "value_bytes v" b off 4] by (simp add: vb bslice_def)
  then have "rd off 4 ?b \<le> length data" by (simp add: rd_def le_simps)
  then show ?thesis using assms(1) es unfolding lp_at_def layout_consts by auto
qed

lemma seen_ok_splice_after:
  assumes "seen_ok b cs (off - cs - 40) st" "cs + 40 \<le> off" "off + length bs \<le> length b"
  shows "seen_ok (bsplice off bs b) cs (off + length bs - cs - 40) st"
proof -
  have "seen_ok (bsplice off bs b) cs (off - cs - 40) st"
    using assms by (intro seen_ok_cong [OF assms(1)] slice_splice_other) (auto simp: layout_consts)
  then show ?thesis by (rule seen_ok_mono) simp
qed

lemma write_dedup_cols_eq:
  assumes "list_all field_wf fs" "cs + 40 \<le> off" "off + sum_list (map field_size fs) \<le> length b"
    and "seen_ok b cs (off - cs - 40) st"
  shows "\<exists>st'. write_dedup_cols xxh3 cs fs off b st = Some (bsplice off (concat (map field_bytes fs)) b, st') \<and>
    seen_ok (bsplice off (concat (map field_bytes fs)) b) cs (off + sum_list (map field_size fs) - cs - 40) st'"
  using assms
proof (induction fs arbitrary: off b st)
  case (Cons f fs)
  obtain i v dup where f: "f = (i, v, dup)" by (cases f)
  let ?m = "field_size f" and ?b = "bsplice off (field_bytes f) b"
  have fit: "off + ?m + sum_list (map field_size fs) \<le> length b" using Cons.prems(3) by simp
  have fitm: "off + length (field_bytes f) \<le> length b" using fit by simp
  define st1 where "st1 = (case (var_data v, dup) of (Some data, None) \<Rightarrow> dedup_insert xxh3 st i data (off - cs) | _ \<Rightarrow> st)"
  have s0: "seen_ok ?b cs (off + ?m - cs - 40) st"
    using seen_ok_splice_after [OF Cons.prems(4,2) fitm] by simp
  have s1: "seen_ok ?b cs (off + ?m - cs - 40) st1"
  proof (cases "\<exists>data. var_data v = Some data \<and> dup = None")
    case True
    then obtain data where d: "var_data v = Some data" "dup = None" by blast
    have "off + (4 + length data) \<le> length b"
      using fitm d var_data_value_bytes [OF d(1)] by (metis f field_bytes.simps(2) length_append length_le_bytes)
    then have "lp_at ?b cs (off + ?m - cs - 40) (off - cs)"
      using lp_at_written [OF Cons.prems(2) _ d(1)] d f by simp
    then show ?thesis using s0 d by (simp add: st1_def seen_ok_insert)
  next
    case False
    then have "st1 = st" by (auto simp: st1_def split: option.splits)
    with s0 show ?thesis by simp
  qed
  have step: "write_dedup_cols xxh3 cs (f # fs) off b st = write_dedup_cols xxh3 cs fs (off + ?m) ?b st1"
    using fitm Cons.prems(1)
    by (auto simp: f st1_def field_wf_def copy_at_def encode_at_def ref_bytes_def split: option.splits)
  have j: "bsplice (off + ?m) (concat (map field_bytes fs)) ?b = bsplice off (concat (map field_bytes (f # fs))) b"
    using splice_splice_adjacent [of off "field_bytes f" "concat (map field_bytes fs)" b] fit
    by (simp add: length_concat o_def)
  from Cons.IH [of "off + ?m" ?b st1] Cons.prems(1,2) fit fitm s1
  show ?case unfolding step j by (simp add: add.assoc)
qed simp

lemma lookups_pay_row:
  assumes "seen_ok b cs u st" "payload b i = bslice (cs + CHUNK_HEADER_SIZE) u b"
    and "length (payload b i) = u" "CHUNK_HEADER_SIZE + u \<le> 2 ^ 31" "list_all value_ok vs"
  shows "pay_row (payload b i) vs (concat (map field_bytes (dedup_lookups xxh3 st b cs vs)))"
proof -
  let ?p = "payload b i"
  have ref: "pay_ref ?p off data" if "dedup_lookup xxh3 st col data b cs = Some off" for col data off
  proof -
    note l = dedup_lookup_bytes [OF that]
    from assms(1) l(1) have "lp_at b cs u off" by (auto simp: seen_ok_def)
    then have a: "CHUNK_HEADER_SIZE \<le> off" "off - CHUNK_HEADER_SIZE + (4 + length data) \<le> u"
      using l(4) by (auto simp: lp_at_def)
    have "bslice (off - CHUNK_HEADER_SIZE) (4 + length data) ?p = bslice (cs + off) (4 + length data) b"
      using slice_slice [OF a(2), of "cs + CHUNK_HEADER_SIZE" b] a(1) assms(2) by simp
    then show ?thesis using a l(3) assms(3,4) by (simp add: pay_ref_def)
  qed
  have "pay_field ?p (vs ! j) (field_bytes (j, vs ! j, value_lookup xxh3 st b cs j (vs ! j)))"
    if "j < length vs" for j
  proof (cases "value_lookup xxh3 st b cs j (vs ! j)")
    case None
    then show ?thesis using assms(5) that by (simp add: pay_field_def list_all_length)
  next
    case (Some off)
    then show ?thesis using assms(5) that ref
      by (auto simp: pay_field_def list_all_length value_lookup_def split: option.splits)
  qed
  then have "list_all2 (pay_field ?p) vs (map field_bytes (dedup_lookups xxh3 st b cs vs))"
    by (auto simp: list_all2_conv_all_nth dedup_lookups_def nth_enumerate_eq)
  then show ?thesis unfolding pay_row_def by blast
qed

end
