(* ===== verification/Ring.thy ===== *)
theory Ring
  imports Memtable
begin

text \<open>
  The abstract ring a MEMT table promises to be: a fixed number of chunks, each a list of rows, a
  current chunk, the lap of the ring and the number of rows lost to recycling. \<open>ring_step\<close> is
  what one push may do; its consequence is that the content, oldest to newest, is the history of
  written rows without its first \<open>ring_lost\<close> entries. The locale \<open>ring_table\<close> is the interface
  between this specification and the two write paths that implement it.
\<close>

section \<open>The ring\<close>

record 'r ring =
  ring_chunks :: "'r list list"
  ring_cur :: nat
  ring_lap :: nat
  ring_lost :: nat

definition ring_init :: "nat \<Rightarrow> 'r ring" where
  "ring_init n = \<lparr>ring_chunks = replicate n [], ring_cur = 0, ring_lap = 1, ring_lost = 0\<rparr>"

definition ring_next :: "'r ring \<Rightarrow> nat" where
  "ring_next s = (ring_cur s + 1) mod length (ring_chunks s)"

definition ring_append :: "'r \<Rightarrow> 'r ring \<Rightarrow> 'r ring" where
  "ring_append r s = s\<lparr>ring_chunks := (ring_chunks s)[ring_cur s := ring_chunks s ! ring_cur s @ [r]]\<rparr>"

definition ring_advance :: "'r ring \<Rightarrow> 'r ring" where
  "ring_advance s = s\<lparr>ring_chunks := (ring_chunks s)[ring_next s := []], ring_cur := ring_next s,
     ring_lap := (if ring_cur s + 1 = length (ring_chunks s) then ring_lap s + 1 else ring_lap s),
     ring_lost := ring_lost s + length (ring_chunks s ! ring_next s)\<rparr>"

definition ring_order :: "'r ring \<Rightarrow> nat list" where
  "ring_order s = [ring_cur s + 1..<length (ring_chunks s)] @ [0..<ring_cur s + 1]"

definition ring_contents :: "'r ring \<Rightarrow> 'r list" where
  "ring_contents s = concat (map (nth (ring_chunks s)) (ring_order s))"

definition ring_wf :: "'r ring \<Rightarrow> bool" where
  "ring_wf s \<longleftrightarrow> ring_cur s < length (ring_chunks s) \<and> 1 \<le> ring_lap s \<and>
     (ring_lap s = 1 \<longrightarrow> (\<forall>i<length (ring_chunks s). ring_cur s < i \<longrightarrow> ring_chunks s ! i = []))"

lemma ring_contents_eq:
  "ring_cur s < length (ring_chunks s) \<Longrightarrow>
   ring_contents s = concat (drop (ring_cur s + 1) (ring_chunks s)) @ concat (take (ring_cur s + 1) (ring_chunks s))"
proof -
  assume l: "ring_cur s < length (ring_chunks s)"
  let ?xs = "ring_chunks s"
  have "map (nth ?xs) [k..<length ?xs] = drop k ?xs" if "k \<le> length ?xs" for k
    using that by (intro nth_equalityI) auto
  moreover have "map (nth ?xs) [0..<k] = take k ?xs" if "k \<le> length ?xs" for k
    using that by (intro nth_equalityI) auto
  ultimately show ?thesis using l by (simp add: ring_contents_def ring_order_def del: upt_Suc)
qed

lemma ring_wf_init: "0 < n \<Longrightarrow> ring_wf (ring_init n)"
  by (simp add: ring_wf_def ring_init_def)

lemma ring_contents_init [simp]: "0 < n \<Longrightarrow> ring_contents (ring_init n) = []"
  by (simp add: ring_contents_def ring_init_def ring_order_def concat_eq_Nil_conv)

lemma ring_wf_append: "ring_wf s \<Longrightarrow> ring_wf (ring_append r s)"
  by (auto simp: ring_wf_def ring_append_def)

lemma ring_next_less: "ring_wf s \<Longrightarrow> ring_next s < length (ring_chunks s)"
  by (auto simp: ring_wf_def ring_next_def intro: mod_less_divisor)

lemma ring_wf_advance:
  assumes "ring_wf s"
  shows "ring_wf (ring_advance s)"
proof (cases "ring_cur s + 1 = length (ring_chunks s)")
  case True
  then have "ring_next s = 0" by (simp add: ring_next_def)
  then show ?thesis using assms True by (auto simp: ring_wf_def ring_advance_def)
next
  case False
  with assms have "ring_next s = ring_cur s + 1" by (auto simp: ring_wf_def ring_next_def)
  then show ?thesis using assms False by (auto simp: ring_wf_def ring_advance_def nth_list_update)
qed

lemma ring_contents_append:
  assumes "ring_wf s"
  shows "ring_contents (ring_append r s) = ring_contents s @ [r]"
proof -
  have l: "ring_cur s < length (ring_chunks s)" using assms by (simp add: ring_wf_def)
  have "take (ring_cur s + 1) ((ring_chunks s)[ring_cur s := x]) = take (ring_cur s) (ring_chunks s) @ [x]" for x
    using l by (simp add: take_Suc_conv_app_nth)
  moreover have "take (ring_cur s + 1) (ring_chunks s) = take (ring_cur s) (ring_chunks s) @ [ring_chunks s ! ring_cur s]"
    using l by (simp add: take_Suc_conv_app_nth)
  ultimately show ?thesis
    using l by (subst (1 2) ring_contents_eq) (simp_all add: ring_append_def)
qed

lemma ring_contents_advance:
  assumes "ring_wf s"
  shows "ring_contents (ring_advance s) = drop (length (ring_chunks s ! ring_next s)) (ring_contents s)"
proof -
  let ?xs = "ring_chunks s"
  have l: "ring_cur s < length ?xs" using assms by (simp add: ring_wf_def)
  show ?thesis
  proof (cases "ring_cur s + 1 = length ?xs")
    case True
    then have n: "ring_next s = 0" by (simp add: ring_next_def)
    obtain y ys where xs: "?xs = y # ys" using l by (cases ?xs) auto
    have "ring_contents s = concat ?xs" using ring_contents_eq [OF l] True by simp
    moreover have "ring_contents (ring_advance s) = concat ys"
      using ring_contents_eq [of "ring_advance s"] n xs by (simp add: ring_advance_def)
    ultimately show ?thesis by (simp add: n xs)
  next
    case False
    let ?k = "ring_cur s + 1"
    have k: "?k < length ?xs" using l False by simp
    have n: "ring_next s = ?k" using k by (simp add: ring_next_def)
    have d: "drop ?k ?xs = ?xs ! ?k # drop (Suc ?k) ?xs" using k by (simp add: Cons_nth_drop_Suc)
    have t: "take (?k + 1) (?xs[?k := []]) = take ?k ?xs @ [[]]"
      using k by (simp add: take_Suc_conv_app_nth)
    have "ring_contents (ring_advance s) = concat (drop (?k + 1) ?xs) @ concat (take ?k ?xs)"
      using ring_contents_eq [of "ring_advance s"] k t by (simp add: ring_advance_def n)
    then show ?thesis using ring_contents_eq [OF l] d by (simp add: n)
  qed
qed

section \<open>One push\<close>

inductive ring_step :: "'r \<Rightarrow> 'r ring \<Rightarrow> WriteOutcome \<Rightarrow> 'r ring \<Rightarrow> bool" where
  step_fits: "ring_step r s Written (ring_append r s)"
| step_recycled: "ring_step r s Written (ring_append r (ring_advance s))"
| step_pinned: "ring_step r s WriteReadersPinned s"
| step_too_large: "ring_step r s RowTooLarge (ring_advance s)"

inductive_cases ring_stepE: "ring_step r s out s'"

text \<open>\<open>ring_log s hist\<close>: the ring holds the history up to the rows lost so far.\<close>

definition ring_log :: "'r ring \<Rightarrow> 'r list \<Rightarrow> bool" where
  "ring_log s hist \<longleftrightarrow> ring_lost s \<le> length hist \<and> ring_contents s = drop (ring_lost s) hist"

definition logged :: "'r \<Rightarrow> WriteOutcome \<Rightarrow> 'r list" where
  "logged r out = (if is_written out then [r] else [])"

lemma ring_log_append: "ring_wf s \<Longrightarrow> ring_log s hist \<Longrightarrow> ring_log (ring_append r s) (hist @ [r])"
  by (auto simp: ring_log_def ring_contents_append) (auto simp: ring_append_def)

lemma ring_next_chunk_small: "ring_wf s \<Longrightarrow> length (ring_chunks s ! ring_next s) \<le> length (ring_contents s)"
proof -
  assume wf: "ring_wf s"
  have "ring_next s \<in> set (ring_order s)"
    using ring_next_less [OF wf] by (auto simp: ring_order_def)
  then have "length (ring_chunks s ! ring_next s) \<in> set (map length (map (nth (ring_chunks s)) (ring_order s)))"
    by simp
  then show ?thesis unfolding ring_contents_def length_concat by (rule member_le_sum_list) simp
qed

lemma ring_log_advance: "ring_wf s \<Longrightarrow> ring_log s hist \<Longrightarrow> ring_log (ring_advance s) hist"
  using ring_next_chunk_small [of s]
  by (auto simp: ring_log_def ring_contents_advance) (auto simp: ring_advance_def add.commute)

lemma ring_step_wf: "ring_step r s out s' \<Longrightarrow> ring_wf s \<Longrightarrow> ring_wf s'"
  by (auto elim!: ring_stepE simp: ring_wf_append ring_wf_advance)

lemma ring_step_log:
  "ring_step r s out s' \<Longrightarrow> ring_wf s \<Longrightarrow> ring_log s hist \<Longrightarrow> ring_log s' (hist @ logged r out)"
  by (auto elim!: ring_stepE simp: logged_def is_written_def ring_log_append ring_log_advance ring_wf_advance)

lemma ring_step_lap: "ring_step r s out s' \<Longrightarrow> ring_lap s' \<le> ring_lap s + 1"
  by (auto elim!: ring_stepE simp: ring_append_def ring_advance_def)

section \<open>The interface of a ring table\<close>

text \<open>A sequence of pushes, each in its own environment, with the outcome of each.\<close>

fun push_all :: "('e \<Rightarrow> 't \<Rightarrow> 'r \<Rightarrow> (WriteOutcome \<times> 't) option) \<Rightarrow> 't \<Rightarrow> ('e \<times> 'r) list \<Rightarrow>
   (WriteOutcome list \<times> 't) option" where
  "push_all push t [] = Some ([], t)"
| "push_all push t ((e, r) # rs) = do {
     (out, t') \<leftarrow> push e t r;
     (outs, t'') \<leftarrow> push_all push t' rs;
     Some (out # outs, t'')
   }"

text \<open>
  A table that is written by pushes: \<open>rep t s\<close> relates it to the ring it stands for, \<open>accepts t r\<close>
  is the row's admissibility, and \<open>push e t r\<close> runs in an environment \<open>e\<close>. The lap bound keeps the
  64-bit chunk generation from wrapping.
\<close>

locale ring_table =
  fixes rep :: "'t \<Rightarrow> 'r ring \<Rightarrow> bool"
    and accepts :: "'t \<Rightarrow> 'r \<Rightarrow> bool"
    and push :: "'e \<Rightarrow> 't \<Rightarrow> 'r \<Rightarrow> (WriteOutcome \<times> 't) option"
  assumes rep_wf: "rep t s \<Longrightarrow> ring_wf s"
    and push_step: "rep t s \<Longrightarrow> accepts t r \<Longrightarrow> ring_lap s + 1 < 2 ^ 64 \<Longrightarrow>
      \<exists>out t' s'. push e t r = Some (out, t') \<and> ring_step r s out s' \<and> rep t' s' \<and> accepts t' = accepts t"
begin

lemma push_all_log:
  assumes "rep t s" "ring_log s hist" "ring_lap s + length rs < 2 ^ 64" "\<forall>(e, r) \<in> set rs. accepts t r"
  shows "\<exists>outs t' s'. push_all push t rs = Some (outs, t') \<and> length outs = length rs \<and> rep t' s' \<and>
    ring_log s' (hist @ concat (map2 (\<lambda>(e, r) out. logged r out) rs outs))"
  using assms
proof (induction rs arbitrary: t s hist)
  case Nil
  then show ?case by auto
next
  case (Cons er rs)
  obtain e r where er: "er = (e, r)" by force
  have acc: "accepts t r" and lap: "ring_lap s + 1 < 2 ^ 64" using Cons.prems er by auto
  from push_step [OF Cons.prems(1) acc lap, of e] obtain out t1 s1 where
    p: "push e t r = Some (out, t1)" "ring_step r s out s1" "rep t1 s1" "accepts t1 = accepts t"
    by blast
  have log1: "ring_log s1 (hist @ logged r out)"
    by (rule ring_step_log [OF p(2) rep_wf [OF Cons.prems(1)] Cons.prems(2)])
  have "ring_lap s1 + length rs < 2 ^ 64" using ring_step_lap [OF p(2)] Cons.prems(3) by simp
  from Cons.IH [OF p(3) log1 this] p(4) Cons.prems(4) obtain outs t' s' where
    q: "push_all push t1 rs = Some (outs, t')" "length outs = length rs" "rep t' s'"
    "ring_log s' ((hist @ logged r out) @ concat (map2 (\<lambda>(e, r) out. logged r out) rs outs))"
    by auto
  then show ?case using p(1) er by (intro exI [of _ "out # outs"] exI [of _ t'] exI [of _ s']) auto
qed

end

end
