(* ===== verification/Table_Refine.thy ===== *)
theory Table_Refine
  imports Payload Ring
begin

text \<open>
  The buffer implements the ring. \<open>represents b s\<close> relates a table buffer to the abstract ring it
  stands for: geometry, current chunk, every chunk's rows, row count, generation, state and
  timestamp range, and the overwrite counter. The lemmas show that an append and both outcomes of an
  advance preserve it.
\<close>

section \<open>The relation\<close>

definition rows_min :: "Header \<Rightarrow> Value list list \<Rightarrow> i64" where
  "rows_min h rows = foldl (\<lambda>m r. opt_ts_min m (row_ts h r)) TS_MIN_INIT rows"

definition rows_max :: "Header \<Rightarrow> Value list list \<Rightarrow> i64" where
  "rows_max h rows = foldl (\<lambda>m r. opt_ts_max m (row_ts h r)) TS_MAX_INIT rows"

definition ring_state :: "'r ring \<Rightarrow> nat \<Rightarrow> ChunkState" where
  "ring_state s i = (if i = ring_cur s then Writing else if ring_cur s < i \<and> ring_lap s = 1 then Empty else Sealed)"

definition ring_generation :: "'r ring \<Rightarrow> nat \<Rightarrow> nat" where
  "ring_generation s i = (if i \<le> ring_cur s then ring_lap s else ring_lap s - 1)"

definition chunk_rep :: "Header \<Rightarrow> ChunkHeader \<times> byte list \<Rightarrow> Value list ring \<Rightarrow> nat \<Rightarrow> bool" where
  "chunk_rep h v s i \<longleftrightarrow> (let rows = ring_chunks s ! i in
     holds (snd v) rows \<and> row_count (fst v) = length rows \<and> generation (fst v) = ring_generation s i \<and>
     state (fst v) = chunk_state_code (ring_state s i) \<and> min_ts (fst v) = rows_min h rows \<and>
     max_ts (fst v) = rows_max h rows)"

definition represents :: "buf \<Rightarrow> Value list ring \<Rightarrow> bool" where
  "represents b s \<longleftrightarrow> table_geom b \<and> length b < 2 ^ 64 \<and> chunks_fit b \<and> ring_wf s \<and>
     length (ring_chunks s) = num_chunks (header b) \<and> ring_cur s = write_chunk (header b) \<and>
     ring_lap s < 2 ^ 64 \<and> rows_overwritten (header b) = ring_lost s mod 2 ^ 32 \<and>
     (\<forall>i<num_chunks (header b). chunk_rep (header b) (chunk_view b i) s i) \<and>
     (\<forall>i<num_chunks (header b). list_all (validate_row_schema b) (ring_chunks s ! i))"

lemma representsD:
  assumes "represents b s"
  shows "table_geom b" "chunks_fit b" "ring_wf s" "length (ring_chunks s) = num_chunks (header b)"
    "ring_cur s = write_chunk (header b)" "write_chunk (header b) < num_chunks (header b)"
    "rows_overwritten (header b) = ring_lost s mod 2 ^ 32" "ring_lap s < 2 ^ 64"
    "i < num_chunks (header b) \<Longrightarrow> chunk_rep (header b) (chunk_view b i) s i"
    "i < num_chunks (header b) \<Longrightarrow> list_all (validate_row_schema b) (ring_chunks s ! i)"
    "length b < 2 ^ 64"
  using assms by (auto simp: represents_def ring_wf_def)

lemma row_ts_cong: "ts_col h' = ts_col h \<Longrightarrow> row_ts h' = row_ts h"
  by (auto simp: row_ts_def fun_eq_iff)

lemma rows_range_cong:
  assumes "ts_col h' = ts_col h"
  shows "rows_min h' = rows_min h" "rows_max h' = rows_max h"
  unfolding rows_min_def [abs_def] rows_max_def [abs_def] row_ts_cong [OF assms] by (rule refl)+

lemma chunk_rep_cong: "ts_col h' = ts_col h \<Longrightarrow> chunk_rep h' = chunk_rep h"
proof -
  assume c: "ts_col h' = ts_col h"
  show ?thesis unfolding chunk_rep_def [abs_def] rows_range_cong [OF c] by (rule refl)
qed

lemma validate_row_schema_cong:
  assumes "cold_eq b b'"
  shows "validate_row_schema b' = validate_row_schema b"
proof (rule ext)
  fix vs
  show "validate_row_schema b' vs = validate_row_schema b vs"
    using cold_eq_header(1) [OF assms] cold_eq_col_desc [OF assms]
    by (auto simp: validate_row_schema_def list_all_length nth_enumerate_eq)
qed

lemma length_payload:
  assumes "table_geom b" "chunks_fit b" "i < num_chunks (header b)"
  shows "length (payload b i) = used (chunk_hdr b i)"
proof -
  have "48 \<le> chunk_size (header b)" using table_geomD(3) [OF assms(1)] by (simp add: header_def)
  then show ?thesis
    using chunk_bounds(3) [OF assms(1,3)] chunks_fitD [OF assms(2,3)]
    unfolding payload_def by (intro length_slice_in) (simp add: layout_consts)
qed

section \<open>Append\<close>

lemma represents_appended:
  assumes "represents b s" "appended b b' (write_chunk (header b)) (frame bs) (row_ts (header b) vs)"
    and "pay_row (payload b (write_chunk (header b))) vs bs"
    and "CHUNK_HEADER_SIZE + used (chunk_hdr b (write_chunk (header b))) + (4 + length bs) \<le> chunk_size (header b)"
    and "validate_row_schema b vs"
  shows "represents b' (ring_append vs s)" "cold_eq b b'"
    "used (chunk_hdr b' (write_chunk (header b))) = used (chunk_hdr b (write_chunk (header b))) + (4 + length bs)"
proof -
  note r = representsD [OF assms(1)]
  let ?i = "write_chunk (header b)"
  note a = assms(2) [unfolded appended_def]
  have co: "chunk_only b b' ?i" using a by simp
  have h: "header b' = header b" by (rule chunk_only_header [OF r(1,6) co])
  show cold: "cold_eq b b'" by (rule chunk_only_cold [OF r(1,6) co])
  have small: "length bs < 2 ^ 32" using assms(4) rd4_bound [of 24 b] by (simp add: header_def)
  have other: "chunk_view b' j = chunk_view b j" if "j < num_chunks (header b)" "j \<noteq> ?i" for j
    using chunk_only_view [OF r(1,6) co that(2)] chunks_fitD [OF r(2) that(1)] by simp
  have u: "used (chunk_hdr b' ?i) = used (chunk_hdr b ?i) + (4 + length bs)" using a by simp
  then show "used (chunk_hdr b' ?i) = used (chunk_hdr b ?i) + (4 + length bs)" .
  have fit: "chunks_fit b'"
    unfolding chunks_fit_def h
  proof (intro allI impI)
    fix j assume j: "j < num_chunks (header b)"
    show "used (chunk_hdr b' j) \<le> chunk_size (header b) - 40"
      using u assms(4) other [OF j] chunks_fitD [OF r(2) j]
      by (cases "j = ?i") (auto simp: chunk_view_def layout_consts)
  qed
  have rep: "chunk_rep (header b') (chunk_view b' j) (ring_append vs s) j" if j: "j < num_chunks (header b)" for j
  proof (cases "j = ?i")
    case False
    then show ?thesis
      using r(9) [OF j] other [OF j] r(5)
      by (simp add: h chunk_rep_def Let_def ring_append_def ring_state_def ring_generation_def)
  next
    case True
    let ?rows = "ring_chunks s ! ?i"
    have c: "chunk_rep (header b) (chunk_view b ?i) s ?i" by (rule r(9) [OF r(6)])
    then have hold: "holds (payload b ?i) ?rows" "row_count (chunk_hdr b ?i) = length ?rows"
      by (auto simp: chunk_rep_def Let_def chunk_view_def)
    have rows: "ring_chunks (ring_append vs s) ! ?i = ?rows @ [vs]"
      using r(4,5,6) by (simp add: ring_append_def)
    have "holds (payload b' ?i) (?rows @ [vs])"
      using holds_snoc [OF hold(1) assms(3) small] a by simp
    moreover have "4 * length (?rows @ [vs]) \<le> used (chunk_hdr b' ?i)"
      using holds_count [OF hold(1)] length_payload [OF r(1,2,6)] u by simp
    then have "length ?rows + 1 < 2 ^ 32" using rd4_bound [of "chunk_start_off b' ?i + 8" b']
      by (simp add: chunk_header_def)
    ultimately show ?thesis
      using c a hold(2) r(5) unfolding True
      by (simp add: h chunk_rep_def Let_def chunk_view_def rows ring_state_def ring_generation_def
          rows_min_def rows_max_def ring_append_def [of vs s, THEN arg_cong [of _ _ ring_cur]]
          ring_append_def [of vs s, THEN arg_cong [of _ _ ring_lap]])
  qed
  have schema: "list_all (validate_row_schema b') (ring_chunks (ring_append vs s) ! j)"
    if j: "j < num_chunks (header b)" for j
    using r(10) [OF j] r(4,5) assms(5) j
    by (cases "j = ?i") (simp_all add: validate_row_schema_cong [OF cold] ring_append_def)
  have wf: "ring_wf (ring_append vs s)" using r(3) by (rule ring_wf_append)
  show "represents b' (ring_append vs s)"
    unfolding represents_def h
    using cold_eq_geom [OF cold] cold_eq_length [OF cold] r(1,4,5,7,8,11) fit wf rep schema unfolding h
    by (simp add: ring_append_def)
qed

section \<open>Advance\<close>

lemma represents_pinned:
  assumes "represents b s" "chunk_pinned os b (next_chunk b)"
  shows "\<exists>b'. advance_chunk_raw_detailed os b = Some (ReadersPinned, b') \<and> represents b' s \<and> cold_eq b b' \<and>
    (\<forall>i<num_chunks (header b). chunk_view b' i = chunk_view b i) \<and> write_chunk (header b') = write_chunk (header b)"
proof -
  note r = representsD [OF assms(1)]
  from advance_pinned [OF r(1) assms(2) r(2)] obtain b' where
    b': "advance_chunk_raw_detailed os b = Some (ReadersPinned, b')" "cold_eq b b'"
    "header b' = (header b)\<lparr>writes_blocked := (writes_blocked (header b) + 1) mod 2 ^ 64\<rparr>"
    "\<forall>i<num_chunks (header b). chunk_view b' i = chunk_view b i"
    by blast
  have "chunks_fit b'" using r(2) b'(3,4) by (simp add: chunks_fit_def chunk_view_def)
  moreover have "chunk_rep (header b') = chunk_rep (header b)" using b'(3) by (intro chunk_rep_cong) simp
  ultimately have "represents b' s"
    using assms(1) b'(3,4) cold_eq_geom [OF b'(2)] cold_eq_length [OF b'(2)] validate_row_schema_cong [OF b'(2)]
    by (simp add: represents_def)
  then show ?thesis using b' by auto
qed

lemma represents_recycled:
  assumes "represents b s" "\<not> chunk_pinned os b (next_chunk b)" "ring_lap s + 1 < 2 ^ 64"
  shows "\<exists>b'. advance_chunk_raw_detailed os b = Some (Advanced, b') \<and> represents b' (ring_advance s) \<and>
    cold_eq b b' \<and> used (chunk_hdr b' (write_chunk (header b'))) = 0"
proof -
  note r = representsD [OF assms(1)]
  let ?n = "next_chunk b" and ?N = "num_chunks (header b)"
  from advance_recycles [OF r(1,6,2) assms(2)] obtain b' where
    b': "advance_chunk_raw_detailed os b = Some (Advanced, b')" "cold_eq b b'"
    "header b' = (header b)\<lparr>write_chunk := ?n,
       chunks_recycled := (if 0 < row_count (chunk_hdr b ?n) then (chunks_recycled (header b) + 1) mod 2 ^ 32 else chunks_recycled (header b)),
       rows_overwritten := (if 0 < row_count (chunk_hdr b ?n) then (rows_overwritten (header b) + row_count (chunk_hdr b ?n)) mod 2 ^ 32
         else rows_overwritten (header b))\<rparr>"
    "chunk_view b' ?n = (fresh_header (chunk_hdr b ?n), [])"
    "\<forall>i<?N. i \<noteq> ?n \<longrightarrow> chunk_view b' i = sealed_view b i"
    by metis
  have nn: "?n < ?N" by (rule next_chunk_less [OF r(1)])
  have ns: "ring_next s = ?n" using r(4,5) by (simp add: ring_next_def next_chunk_def)
  have N: "num_chunks (header b') = ?N" "chunk_size (header b') = chunk_size (header b)"
    "write_chunk (header b') = ?n" "ts_col (header b') = ts_col (header b)"
    using b'(3) by simp_all
  have cnt: "row_count (chunk_hdr b ?n) = length (ring_chunks s ! ?n)"
    using r(9) [OF nn] by (simp add: chunk_rep_def Let_def chunk_view_def)
  have used0: "used (chunk_hdr b' ?n) = 0" using b'(4) by (simp add: chunk_view_def fresh_header_def)
  have fit: "chunks_fit b'"
    unfolding chunks_fit_def N
  proof (intro allI impI)
    fix j assume j: "j < ?N"
    show "used (chunk_hdr b' j) \<le> chunk_size (header b) - 40"
    proof (cases "j = ?n")
      case False
      then have "chunk_view b' j = sealed_view b j" using b'(5) j by blast
      then show ?thesis using chunks_fitD [OF r(2) j] by (auto simp: chunk_view_def sealed_view_def split: if_splits)
    qed (simp add: used0)
  qed
  have cur: "ring_cur (ring_advance s) = ?n" by (simp add: ring_advance_def ns)
  have rep: "chunk_rep (header b') (chunk_view b' j) (ring_advance s) j" if j: "j < ?N" for j
  proof (cases "j = ?n")
    case True
    have "generation (chunk_hdr b ?n) = ring_generation s ?n"
      using r(9) [OF nn] by (simp add: chunk_rep_def Let_def chunk_view_def)
    moreover have "ring_generation s ?n + 1 = ring_lap (ring_advance s)"
      using r(3-6) by (auto simp: ring_generation_def ring_advance_def next_chunk_def ring_wf_def)
    ultimately have "(generation (chunk_hdr b ?n) + 1) mod 2 ^ 64 = ring_lap (ring_advance s)"
      using assms(3) by (simp add: ring_advance_def split: if_splits)
    then show ?thesis
      using b'(4) r(4) nn unfolding True
      by (simp add: chunk_rep_def Let_def fresh_header_def ring_state_def ring_generation_def cur
          ns rows_min_def rows_max_def ring_advance_def)
  next
    case False
    have v: "chunk_view b' j = sealed_view b j" using b'(5) j False by blast
    have rows: "ring_chunks (ring_advance s) ! j = ring_chunks s ! j" using False ns by (simp add: ring_advance_def)
    have g: "ring_generation (ring_advance s) j = ring_generation s j"
      using r(4-6) False j by (auto simp: ring_generation_def ring_advance_def ns next_chunk_def mod_Suc split: if_splits)
    have st: "ring_state (ring_advance s) j = (if j = ring_cur s then Sealed else ring_state s j)"
      using r(3-6) False j by (auto simp: ring_state_def ring_advance_def ns next_chunk_def mod_Suc ring_wf_def split: if_splits)
    show ?thesis
      using r(9) [OF j] r(5) unfolding v chunk_rep_cong [OF N(4)]
      by (auto simp: chunk_rep_def Let_def rows g st sealed_view_def chunk_view_def)
  qed
  have schema: "list_all (validate_row_schema b') (ring_chunks (ring_advance s) ! j)" if "j < ?N" for j
    using r(10) [OF that] r(4) nn that ns
    by (cases "j = ?n") (simp_all add: validate_row_schema_cong [OF b'(2)] ring_advance_def)
  have lost: "rows_overwritten (header b') = ring_lost (ring_advance s) mod 2 ^ 32"
    using b'(3) r(7) cnt by (simp add: ring_advance_def ns mod_add_left_eq)
  have "represents b' (ring_advance s)"
    unfolding represents_def N
    using cold_eq_geom [OF b'(2)] cold_eq_length [OF b'(2)] r(1,4,11) fit ring_wf_advance [OF r(3)] cur lost rep schema assms(3)
    by (simp add: ring_advance_def N)
  then show ?thesis using b'(1,2) used0 N(3) by auto
qed

end
