(* ===== verification/Table_Push.thy ===== *)
theory Table_Push
  imports Table_Refine
begin

text \<open>
  Both write paths refine the ring: the plain push of \<open>MemTable\<close> and the push of
  \<open>MemTableWriter\<close> with or without dedup. Each is shown to be one \<open>ring_step\<close>, with the outcome
  decided by room and reader leases, and both are interpretations of the interface \<open>ring_table\<close>.
\<close>

section \<open>The plain path\<close>

definition row_ok :: "buf \<Rightarrow> Value list \<Rightarrow> bool" where
  "row_ok b vs \<longleftrightarrow> validate_row_schema b vs \<and> list_all value_ok vs"

definition row_fits :: "buf \<Rightarrow> usize \<Rightarrow> bool" where
  "row_fits b n \<longleftrightarrow>
     CHUNK_HEADER_SIZE + used (chunk_hdr b (write_chunk (header b))) + (4 + n) \<le> chunk_size (header b)"

lemma row_ok_cong: "cold_eq b b' \<Longrightarrow> row_ok b' = row_ok b"
  by (simp add: row_ok_def validate_row_schema_cong fun_eq_iff)

lemma write_row_bytes_full: "\<not> row_fits b n \<Longrightarrow> write_row_bytes b vs n = Some (False, b)"
  using write_row_bytes_no_room [of b n vs] by (simp add: row_fits_def)

lemma write_row_bytes_represents:
  assumes "represents b s" "row_ok b vs" "row_fits b (row_data_size vs)"
  shows "\<exists>b'. write_row_bytes b vs (row_data_size vs) = Some (True, b') \<and>
    represents b' (ring_append vs s) \<and> cold_eq b b'"
proof -
  note r = representsD [OF assms(1)]
  from write_row_bytes_appends [OF r(1,6) assms(3) [unfolded row_fits_def]]
  obtain b' where b': "write_row_bytes b vs (row_data_size vs) = Some (True, b')"
    "appended b b' (write_chunk (header b)) (frame (row_bytes vs)) (row_ts (header b) vs)" by blast
  have ok: "list_all value_ok vs" "validate_row_schema b vs" using assms(2) by (auto simp: row_ok_def)
  note ra = represents_appended [OF assms(1) b'(2) pay_row_plain [OF ok(1)] _ ok(2)]
  show ?thesis using ra assms(3) b'(1) by (simp add: row_fits_def)
qed

lemma row_fits_fresh:
  assumes "cold_eq b b'" "used (chunk_hdr b' (write_chunk (header b'))) = 0"
  shows "row_fits b' n \<longleftrightarrow> CHUNK_HEADER_SIZE + (4 + n) \<le> chunk_size (header b)"
  using assms(2) cold_eq_header(3) [OF assms(1)] by (simp add: row_fits_def)

text \<open>The outcome of a plain push, on each branch, with the ring it leaves.\<close>

lemma push_plain_cases:
  fixes os :: os
  assumes "represents b s" "row_ok b vs" "ring_lap s + 1 < 2 ^ 64"
  defines "n \<equiv> row_data_size vs" and "pin \<equiv> chunk_pinned os b (next_chunk b)"
  defines "big \<equiv> chunk_size (header b) < CHUNK_HEADER_SIZE + (4 + n)"
  shows "\<exists>b'. push_plain_row_detailed os b vs =
      Some (if row_fits b n then Written else if pin then WriteReadersPinned
            else if big then RowTooLarge else Written, b') \<and> cold_eq b b' \<and>
    represents b' (if row_fits b n then ring_append vs s else if pin then s
       else if big then ring_advance s else ring_append vs (ring_advance s))"
proof (cases "row_fits b n")
  case True
  with write_row_bytes_represents [OF assms(1,2)] show ?thesis
    by (auto simp: push_plain_row_detailed_def n_def)
next
  case full: False
  note w = write_row_bytes_full [OF full, of vs]
  show ?thesis
  proof (cases pin)
    case True
    with represents_pinned [OF assms(1), of os] w full show ?thesis
      by (auto simp: push_plain_row_detailed_def n_def pin_def)
  next
    case False
    from represents_recycled [OF assms(1) _ assms(3), of os] False obtain b1 where
      b1: "advance_chunk_raw_detailed os b = Some (Advanced, b1)" "represents b1 (ring_advance s)" "cold_eq b b1"
      "used (chunk_hdr b1 (write_chunk (header b1))) = 0"
      by (auto simp: pin_def)
    have fits: "row_fits b1 n = (\<not> big)" unfolding row_fits_fresh [OF b1(3,4)] big_def by linarith
    have ok: "row_ok b1 vs" using row_ok_cong [OF b1(3)] assms(2) by simp
    show ?thesis
    proof (cases big)
      case True
      then have "\<not> row_fits b1 n" using fits by simp
      from write_row_bytes_full [OF this] have "write_row_bytes b1 vs n = Some (False, b1)" .
      then have "push_plain_row_detailed os b vs = Some (RowTooLarge, b1)"
        using w b1(1) by (simp add: push_plain_row_detailed_def n_def)
      then show ?thesis using b1(2,3) full False True by simp
    next
      case small: False
      with write_row_bytes_represents [OF b1(2) ok] fits obtain b2 where
        b2: "write_row_bytes b1 vs n = Some (True, b2)" "represents b2 (ring_append vs (ring_advance s))" "cold_eq b1 b2"
        by (auto simp: n_def)
      then show ?thesis using w b1(1) full False small cold_eq_trans [OF b1(3) b2(3)]
        by (auto simp: push_plain_row_detailed_def n_def)
    qed
  qed
qed

lemma push_plain_step:
  assumes "represents b s" "row_ok b vs" "ring_lap s + 1 < 2 ^ 64"
  shows "\<exists>out b' s'. push_plain_row_detailed os b vs = Some (out, b') \<and> ring_step vs s out s' \<and>
    represents b' s' \<and> cold_eq b b'"
  using push_plain_cases [OF assms, of os]
  by (auto split: if_splits intro: ring_step.intros)

interpretation plain_table: ring_table represents row_ok push_plain_row_detailed
proof unfold_locales
  show "ring_wf s" if "represents b s" for b s by (rule representsD(3) [OF that])
  fix b s vs os assume "represents b s" "row_ok b vs" "ring_lap s + 1 < 2 ^ 64"
  from push_plain_step [OF this, of os] row_ok_cong
  show "\<exists>out b' s'. push_plain_row_detailed os b vs = Some (out, b') \<and> ring_step vs s out s' \<and>
    represents b' s' \<and> row_ok b' = row_ok b"
    by blast
qed

section \<open>The dedup path\<close>

text \<open>The dedup map belongs to the current chunk and refers only into its published payload.\<close>

definition dedup_inv :: "buf \<Rightarrow> DedupState \<Rightarrow> bool" where
  "dedup_inv b st \<longleftrightarrow> chunk_size (header b) \<le> 2 ^ 31 \<and>
     seen_ok b (chunk_start_off b (write_chunk (header b))) (used (chunk_hdr b (write_chunk (header b)))) st"

definition dedup_row_size :: "hasher \<Rightarrow> DedupState \<Rightarrow> buf \<Rightarrow> Value list \<Rightarrow> usize" where
  "dedup_row_size xxh3 st b vs =
     sum_list (map field_size (dedup_lookups xxh3 st b (chunk_start_off b (write_chunk (header b))) vs))"

lemma append_dedup_full:
  "MAX_DEDUP_COLS < length vs \<or> \<not> row_fits b (dedup_row_size xxh3 st b vs) \<Longrightarrow>
   append_row_dedup_bytes xxh3 b st vs = Some (False, b, st)"
  by (auto simp: append_row_dedup_bytes_def Let_def row_fits_def dedup_row_size_def chunk_start_off_def)

lemma append_dedup_eq:
  assumes "table_geom b" "write_chunk (header b) < num_chunks (header b)" "dedup_inv b st"
    and "length vs \<le> MAX_DEDUP_COLS" "row_fits b (dedup_row_size xxh3 st b vs)"
  defines "cs \<equiv> chunk_start_off b (write_chunk (header b))"
  defines "bs \<equiv> concat (map field_bytes (dedup_lookups xxh3 st b cs vs))"
  shows "\<exists>b' st'. append_row_dedup_bytes xxh3 b st vs = Some (True, b', st') \<and>
    b' = publish_row (bsplice (cs + 40 + used (chunk_hdr b (write_chunk (header b)))) (frame bs) b) cs
       (row_ts (header b) vs) (used (chunk_hdr b (write_chunk (header b))) + (4 + length bs)) \<and>
    write_dedup_cols xxh3 cs (dedup_lookups xxh3 st b cs vs)
       (cs + 40 + used (chunk_hdr b (write_chunk (header b))) + 4)
       (wr (cs + 40 + used (chunk_hdr b (write_chunk (header b)))) 4 (length bs) b) st =
      Some (bsplice (cs + 40 + used (chunk_hdr b (write_chunk (header b)))) (frame bs) b, st') \<and>
    appended b b' (write_chunk (header b)) (frame bs) (row_ts (header b) vs) \<and>
    seen_ok b' cs (used (chunk_hdr b (write_chunk (header b))) + (4 + length bs)) st'"
proof -
  let ?i = "write_chunk (header b)" and ?fs = "dedup_lookups xxh3 st b cs vs"
  let ?u = "used (chunk_hdr b ?i)" and ?n = "dedup_row_size xxh3 st b vs"
  let ?rs = "cs + 40 + ?u"
  have n: "length bs = ?n" "?n = sum_list (map field_size ?fs)"
    by (simp_all add: bs_def length_concat_fields dedup_row_size_def cs_def)
  have room: "40 + ?u + (4 + ?n) \<le> chunk_size (header b)" using assms(5) by (simp add: row_fits_def layout_consts)
  have fit: "?rs + 4 + ?n \<le> length b" using room chunk_bounds(3) [OF assms(1,2)] by (simp add: cs_def)
  let ?b1 = "wr ?rs 4 ?n b"
  have w: "w32 b ?rs ?n = Some ?b1" using fit by (intro w32_in) simp
  have so: "seen_ok b cs ?u st" using assms(3) by (simp add: dedup_inv_def cs_def)
  have s1: "seen_ok ?b1 cs (?rs + 4 - cs - 40) st"
    using seen_ok_splice_after [of b cs ?rs st "le_bytes 4 ?n"] so fit by (simp add: wr_def)
  from write_dedup_cols_eq [OF lookups_wf [of xxh3 st b cs vs] _ _ s1, where ?xxh3.0 = xxh3] fit n(2)
  obtain st' where st': "write_dedup_cols xxh3 cs ?fs (?rs + 4) ?b1 st = Some (bsplice (?rs + 4) bs ?b1, st')"
    "seen_ok (bsplice (?rs + 4) bs ?b1) cs (?rs + 4 + ?n - cs - 40) st'"
    by (auto simp: bs_def [symmetric])
  have j: "bsplice (?rs + 4) bs ?b1 = bsplice ?rs (frame bs) b"
    using splice_splice_adjacent [of ?rs "le_bytes 4 ?n" bs b] fit n(1) by (simp add: wr_def frame_def)
  have co: "chunk_only b (bsplice ?rs (frame bs) b) ?i"
    using room fit n(1) by (intro chunk_only_splice) (auto simp: cs_def)
  have h: "header (bsplice ?rs (frame bs) b) = header b" by (rule chunk_only_header [OF assms(1,2) co])
  let ?b' = "publish_row (bsplice ?rs (frame bs) b) cs (row_ts (header b) vs) (?u + (4 + ?n))"
  have eq: "append_row_dedup_bytes xxh3 b st vs = Some (True, ?b', st')"
    using assms(4) room w st'(1) j h n(2)
    by (simp add: append_row_dedup_bytes_def Let_def chunk_start_off_def cs_def [unfolded chunk_start_off_def, symmetric]
        layout_consts(8) add.assoc)
  have app: "appended b ?b' ?i (frame bs) (row_ts (header b) vs)"
    using publish_appended [OF assms(1,2), of "frame bs" "row_ts (header b) vs"] room n(1)
    by (simp add: cs_def layout_consts)
  have len: "cs + 40 \<le> length (bsplice ?rs (frame bs) b)" using fit n(1) by simp
  have "seen_ok ?b' cs (?rs + 4 + ?n - cs - 40) st'"
    using st'(2) [unfolded j] publish_row_props(2) [OF len]
    by (elim seen_ok_cong) (simp add: layout_consts)
  moreover have e: "?rs + 4 + ?n - cs - 40 = ?u + (4 + length bs)" by (simp add: n(1))
  ultimately have "seen_ok ?b' cs (?u + (4 + length bs)) st'" by metis
  then show ?thesis using eq app st'(1) unfolding j n(1) by blast
qed

lemma append_dedup_represents:
  assumes "represents b s" "row_ok b vs" "dedup_inv b st"
    and "length vs \<le> MAX_DEDUP_COLS" "row_fits b (dedup_row_size xxh3 st b vs)"
  shows "\<exists>b' st'. append_row_dedup_bytes xxh3 b st vs = Some (True, b', st') \<and>
    represents b' (ring_append vs s) \<and> cold_eq b b' \<and> dedup_inv b' st'"
proof -
  note r = representsD [OF assms(1)]
  let ?i = "write_chunk (header b)"
  let ?cs = "chunk_start_off b ?i"
  let ?bs = "concat (map field_bytes (dedup_lookups xxh3 st b ?cs vs))"
  from append_dedup_eq [OF r(1,6) assms(3-5)] obtain b' st' where
    b': "append_row_dedup_bytes xxh3 b st vs = Some (True, b', st')"
    "appended b b' ?i (frame ?bs) (row_ts (header b) vs)"
    "seen_ok b' ?cs (used (chunk_hdr b ?i) + (4 + length ?bs)) st'"
    by blast
  have ok: "list_all value_ok vs" "validate_row_schema b vs" using assms(2) by (auto simp: row_ok_def)
  have di: "chunk_size (header b) \<le> 2 ^ 31" "seen_ok b ?cs (used (chunk_hdr b ?i)) st"
    using assms(3) by (auto simp: dedup_inv_def)
  have c40: "40 \<le> chunk_size (header b)" using table_geomD(3) [OF r(1)] by (simp add: header_def)
  have pr: "pay_row (payload b ?i) vs ?bs"
    using lookups_pay_row [OF di(2) _ length_payload [OF r(1,2,6)] _ ok(1), where ?xxh3.0 = xxh3] di(1)
      chunks_fitD [OF r(2,6)] c40
    by (simp add: payload_def layout_consts)
  have room: "CHUNK_HEADER_SIZE + used (chunk_hdr b ?i) + (4 + length ?bs) \<le> chunk_size (header b)"
    using assms(5) unfolding row_fits_def dedup_row_size_def length_concat_fields by simp
  note ra = represents_appended [OF assms(1) b'(2) pr room ok(2)]
  have "chunk_only b b' ?i" using b'(2) by (simp add: appended_def)
  then have h: "header b' = header b" by (rule chunk_only_header [OF r(1,6)])
  have "dedup_inv b' st'"
    using b'(3) di(1)
    unfolding dedup_inv_def h cold_eq_chunk_start [OF ra(2)] ra(3) [unfolded cold_eq_chunk_start [OF ra(2)]] by blast
  then show ?thesis using b'(1) ra(1,2) by blast
qed

lemma dedup_inv_clear: "dedup_inv b (dedup_clear st) \<longleftrightarrow> chunk_size (header b) \<le> 2 ^ 31"
  by (simp add: dedup_inv_def)

lemma dedup_inv_pinned:
  assumes "table_geom b" "chunks_fit b" "write_chunk (header b) < num_chunks (header b)" "dedup_inv b st"
    and "cold_eq b b'" "write_chunk (header b') = write_chunk (header b)"
    and "chunk_view b' (write_chunk (header b)) = chunk_view b (write_chunk (header b))"
  shows "dedup_inv b' st"
proof -
  let ?i = "write_chunk (header b)"
  have "payload b' ?i = payload b ?i" "chunk_hdr b' ?i = chunk_hdr b ?i"
    using assms(7) by (auto simp: chunk_view_def)
  then have "bslice (chunk_start_off b ?i + CHUNK_HEADER_SIZE) (used (chunk_hdr b ?i)) b' =
      bslice (chunk_start_off b ?i + CHUNK_HEADER_SIZE) (used (chunk_hdr b ?i)) b"
    using cold_eq_chunk_start [OF assms(5)] by (simp add: payload_def)
  with assms(4) have "seen_ok b' (chunk_start_off b ?i) (used (chunk_hdr b ?i)) st"
    using seen_ok_cong by (auto simp: dedup_inv_def)
  then show ?thesis
    using assms(4,6,7) cold_eq_chunk_start [OF assms(5)] cold_eq_header(3) [OF assms(5)]
    by (simp add: dedup_inv_def chunk_view_def)
qed

section \<open>The borrowed writer\<close>

definition writer_rep :: "MemTableWriter \<Rightarrow> Value list ring \<Rightarrow> bool" where
  "writer_rep w s \<longleftrightarrow> represents (mw_buf w) s \<and>
     (case mw_dedup w of Some st \<Rightarrow> dedup_inv (mw_buf w) st | None \<Rightarrow> True)"

lemma push_dedup_step:
  assumes "represents b s" "row_ok b vs" "ring_lap s + 1 < 2 ^ 64" "dedup_inv b st"
  shows "\<exists>out b' st' s'. try_push_inner xxh3 os \<lparr>mw_buf = b, mw_dedup = Some st\<rparr> vs =
      Some (out, \<lparr>mw_buf = b', mw_dedup = Some st'\<rparr>) \<and> ring_step vs s out s' \<and> represents b' s' \<and>
      dedup_inv b' st' \<and> cold_eq b b'"
proof (cases "length vs \<le> MAX_DEDUP_COLS \<and> row_fits b (dedup_row_size xxh3 st b vs)")
  case True
  with append_dedup_represents [OF assms(1,2,4)] show ?thesis
    by (fastforce simp: try_push_inner_def intro: ring_step.intros)
next
  case full: False
  then have w: "append_row_dedup_bytes xxh3 b st vs = Some (False, b, st)"
    by (intro append_dedup_full) auto
  note r = representsD [OF assms(1)]
  show ?thesis
  proof (cases "chunk_pinned os b (next_chunk b)")
    case True
    from represents_pinned [OF assms(1) True] obtain b' where
      b': "advance_chunk_raw_detailed os b = Some (ReadersPinned, b')" "represents b' s" "cold_eq b b'"
      "\<forall>i<num_chunks (header b). chunk_view b' i = chunk_view b i" "write_chunk (header b') = write_chunk (header b)"
      by blast
    have "dedup_inv b' st" using dedup_inv_pinned [OF r(1,2,6) assms(4) b'(3,5)] b'(4) r(6) by simp
    then show ?thesis using w b' by (auto simp: try_push_inner_def intro: ring_step.intros)
  next
    case False
    from represents_recycled [OF assms(1) False assms(3)] obtain b1 where
      b1: "advance_chunk_raw_detailed os b = Some (Advanced, b1)" "represents b1 (ring_advance s)" "cold_eq b b1"
      by blast
    have di: "dedup_inv b1 (dedup_clear st)"
      using assms(4) cold_eq_header(3) [OF b1(3)] by (simp add: dedup_inv_clear dedup_inv_def)
    have ok: "row_ok b1 vs" using row_ok_cong [OF b1(3)] assms(2) by simp
    show ?thesis
    proof (cases "length vs \<le> MAX_DEDUP_COLS \<and> row_fits b1 (dedup_row_size xxh3 (dedup_clear st) b1 vs)")
      case True
      with append_dedup_represents [OF b1(2) ok di] obtain b2 st2 where
        b2: "append_row_dedup_bytes xxh3 b1 (dedup_clear st) vs = Some (True, b2, st2)"
        "represents b2 (ring_append vs (ring_advance s))" "cold_eq b1 b2" "dedup_inv b2 st2" by blast
      then show ?thesis using w b1(1) cold_eq_trans [OF b1(3) b2(3)]
        by (auto simp: try_push_inner_def intro: ring_step.intros)
    next
      case False
      then have "append_row_dedup_bytes xxh3 b1 (dedup_clear st) vs = Some (False, b1, dedup_clear st)"
        by (intro append_dedup_full) auto
      then show ?thesis using w b1 di by (auto simp: try_push_inner_def intro: ring_step.intros)
    qed
  qed
qed

lemma writer_push_step:
  assumes "writer_rep w s" "row_ok (mw_buf w) vs" "ring_lap s + 1 < 2 ^ 64"
  shows "\<exists>out w' s'. writer_try_push_row xxh3 os w vs = Some (out, w') \<and> ring_step vs s out s' \<and>
    writer_rep w' s' \<and> row_ok (mw_buf w') = row_ok (mw_buf w)"
proof -
  have v: "validate_row_schema (mw_buf w) vs" using assms(2) by (simp add: row_ok_def)
  have rep: "represents (mw_buf w) s" using assms(1) by (simp add: writer_rep_def)
  show ?thesis
  proof (cases "mw_dedup w")
    case None
    from push_plain_step [OF rep assms(2,3), of os] obtain out b' s' where
      p: "push_plain_row_detailed os (mw_buf w) vs = Some (out, b')" "ring_step vs s out s'"
      "represents b' s'" "cold_eq (mw_buf w) b'" by blast
    then show ?thesis
      using None v row_ok_cong [OF p(4)] by (auto simp: writer_try_push_row_def try_push_inner_def writer_rep_def)
  next
    case (Some st)
    then have w: "w = \<lparr>mw_buf = mw_buf w, mw_dedup = Some st\<rparr>" by simp
    have di: "dedup_inv (mw_buf w) st" using assms(1) Some by (simp add: writer_rep_def)
    from push_dedup_step [OF rep assms(2,3) di, of xxh3 os, folded w] obtain out b' st' s' where
      p: "try_push_inner xxh3 os w vs = Some (out, \<lparr>mw_buf = b', mw_dedup = Some st'\<rparr>)"
      "ring_step vs s out s'" "represents b' s'" "dedup_inv b' st'" "cold_eq (mw_buf w) b'" by blast
    then show ?thesis using v row_ok_cong [OF p(5)] by (auto simp: writer_try_push_row_def writer_rep_def)
  qed
qed

text \<open>The environment of a push is the hash and the state of the operating system.\<close>

definition writer_push_env :: "hasher \<times> os \<Rightarrow> MemTableWriter \<Rightarrow> Value list \<Rightarrow> (WriteOutcome \<times> MemTableWriter) option" where
  "writer_push_env e w vs = writer_try_push_row (fst e) (snd e) w vs"

interpretation writer_table: ring_table writer_rep "\<lambda>w. row_ok (mw_buf w)" writer_push_env
proof unfold_locales
  show "ring_wf s" if "writer_rep w s" for w s
    using that representsD(3) by (auto simp: writer_rep_def)
  fix w s vs e assume "writer_rep w s" "row_ok (mw_buf w) vs" "ring_lap s + 1 < 2 ^ 64"
  from writer_push_step [OF this, of "fst e" "snd e"]
  show "\<exists>out w' s'. writer_push_env e w vs = Some (out, w') \<and> ring_step vs s out s' \<and> writer_rep w' s' \<and>
    row_ok (mw_buf w') = row_ok (mw_buf w)"
    by (simp add: writer_push_env_def)
qed

end
