(* ===== verification/Table_Read.thy ===== *)
theory Table_Read
  imports Table_Push "HOL-Library.Multiset"
begin

text \<open>
  Reading a table back: the chunk order of \<open>chunks_logical\<close> is the ring's write order, a chunk's
  payload decodes to exactly its rows, and what a reader gets through \<open>try_rows\<close> and \<open>RowIter\<close> is
  that payload, row by row.
\<close>

section \<open>Decoding a chunk\<close>

definition table_dtypes :: "buf \<Rightarrow> DType list" where
  "table_dtypes b = map (\<lambda>i. the (dtype_from_u32 (cd_dtype (col_desc b i)))) [0..<num_cols (header b)]"

definition decode_row :: "buf \<Rightarrow> Row \<Rightarrow> Value list" where
  "decode_row b r = fst (read_values (table_dtypes b) (row_cursor r True))"

definition chunk_row :: "buf \<Rightarrow> usize \<Rightarrow> nat \<Rightarrow> byte list \<Rightarrow> Row" where
  "chunk_row b cs g bs = \<lparr>row_data = bs, row_buf = b, row_chunk_start = cs, row_generation = g\<rparr>"

definition decode_chunk :: "buf \<Rightarrow> usize \<Rightarrow> Value list list" where
  "decode_chunk b i = map (\<lambda>bs. decode_row b (chunk_row b (chunk_start_off b i) (chunk_generation b i) bs))
     (parse_rows (payload b i))"

lemma table_dtypes_row:
  assumes "validate_row_schema b vs"
  shows "table_dtypes b = map value_dtype vs"
  using assms by (intro nth_equalityI)
    (auto simp: table_dtypes_def validate_row_schema_def list_all_length nth_enumerate_eq)

lemma geom_chunk_size: "table_geom b \<Longrightarrow> 48 \<le> chunk_size (header b)"
  using table_geomD(3) [of b] by (simp add: header_def)

lemma decode_row_rep:
  assumes "table_geom b" "chunks_fit b" "i < num_chunks (header b)" "length b < 2 ^ 64"
    and "pay_row (payload b i) vs bs" "validate_row_schema b vs" "length bs < 2 ^ 64"
  shows "decode_row b (chunk_row b (chunk_start_off b i) g bs) = vs"
proof -
  have "row_encodes b (chunk_start_off b i) vs bs"
    using pay_row_buffer [OF assms(5)] chunks_fitD [OF assms(2,3)] geom_chunk_size [OF assms(1)]
    by (simp add: layout_consts)
  then show ?thesis
    using read_values_row(1) [of "chunk_row b (chunk_start_off b i) g bs" vs] assms(4,7)
      chunk_bounds(3) [OF assms(1,3)] table_dtypes_row [OF assms(6)]
    by (simp add: decode_row_def chunk_row_def)
qed

lemma parse_rows_mem_length: "bs \<in> set (parse_rows p) \<Longrightarrow> length bs < 2 ^ 64"
  using parse_rows_length [of bs p] by simp

lemma decode_rows_rep:
  assumes "represents b s" "i < num_chunks (header b)"
  shows "map (\<lambda>bs. decode_row b (chunk_row b (chunk_start_off b i) g bs)) (parse_rows (payload b i)) = ring_chunks s ! i"
proof -
  note r = representsD [OF assms(1)]
  let ?rows = "ring_chunks s ! i" and ?ps = "parse_rows (payload b i)"
  have l: "list_all2 (pay_row (payload b i)) ?rows ?ps"
    using r(9) [OF assms(2)] by (simp add: chunk_rep_def Let_def chunk_view_def holds_def)
  show ?thesis
  proof (rule nth_equalityI)
    show "length (map (\<lambda>bs. decode_row b (chunk_row b (chunk_start_off b i) g bs)) ?ps) = length ?rows"
      using list_all2_lengthD [OF l] by simp
    fix k assume "k < length (map (\<lambda>bs. decode_row b (chunk_row b (chunk_start_off b i) g bs)) ?ps)"
    then have k: "k < length ?ps" "k < length ?rows" using list_all2_lengthD [OF l] by simp_all
    have "decode_row b (chunk_row b (chunk_start_off b i) g (?ps ! k)) = ?rows ! k"
      using decode_row_rep [OF r(1,2) assms(2) r(11) list_all2_nthD2 [OF l k(1)]] r(10) [OF assms(2)] k
        parse_rows_mem_length [of "?ps ! k" "payload b i"]
      by (simp add: list_all_length)
    then show "map (\<lambda>bs. decode_row b (chunk_row b (chunk_start_off b i) g bs)) ?ps ! k = ?rows ! k"
      using k by simp
  qed
qed

lemma decode_chunk_rep:
  "represents b s \<Longrightarrow> i < num_chunks (header b) \<Longrightarrow> decode_chunk b i = ring_chunks s ! i"
  unfolding decode_chunk_def by (rule decode_rows_rep)

section \<open>Logical order\<close>

lemma comprehension_filter: "concat (map (\<lambda>i. if P i then [f i] else []) xs) = map f (filter P xs)"
  by (induction xs) auto

lemma sorted_map_pair:
  assumes "sorted_wrt (<) xs" "\<And>i j. i \<in> set xs \<Longrightarrow> j \<in> set xs \<Longrightarrow> g i = g j"
  shows "sorted (map (\<lambda>i::nat. (g i :: nat, i)) xs)"
  unfolding sorted_map
proof (rule sorted_wrt_mono_rel [OF _ assms(1)])
  fix i j assume "i \<in> set xs" "j \<in> set xs" "i < j"
  then show "(g i, i) \<le> (g j, j)" using assms(2) [of i j] by simp
qed

lemma sort_rotated:
  fixes g :: "nat \<Rightarrow> nat"
  assumes "c < n" "1 \<le> l" "\<And>i. i < n \<Longrightarrow> g i = (if i \<le> c then l else l - 1)"
  shows "map snd (sort (map (\<lambda>i. (g i, i)) (filter P [0..<n]))) = filter P ([c + 1..<n] @ [0..<c + 1])"
proof -
  let ?f = "\<lambda>i. (g i, i)" and ?ys = "filter P ([c + 1..<n] @ [0..<c + 1])"
  have sp: "[0..<n] = [0..<c + 1] @ [c + 1..<n]"
    using assms(1) upt_add_eq_append [of 0 "c + 1" "n - (c + 1)"] by simp
  have "mset ?ys = mset (filter P [0..<n])" unfolding sp by (simp add: add.commute)
  then have m: "mset (map ?f ?ys) = mset (map ?f (filter P [0..<n]))" by (metis mset_map)
  have a: "sorted (map ?f (filter P [c + 1..<n]))"
    using assms(3) by (intro sorted_map_pair) (auto simp: sorted_wrt_filter)
  have b: "sorted (map ?f (filter P [0..<c + 1]))"
    using assms by (intro sorted_map_pair) (auto simp: sorted_wrt_filter simp del: upt_Suc)
  have "x \<le> y" if "x \<in> set (map ?f (filter P [c + 1..<n]))" "y \<in> set (map ?f (filter P [0..<c + 1]))" for x y
    using that assms by (auto simp del: upt_Suc)
  then have "sorted (map ?f ?ys)"
    using a b by (simp only: filter_append map_append sorted_append) blast
  from properties_for_sort [OF m this] show ?thesis by (simp add: o_def)
qed

lemma chunks_logical_rep:
  assumes "represents b s"
  shows "chunks_logical b = filter (\<lambda>i. ring_chunks s ! i \<noteq> []) (ring_order s)"
proof -
  note r = representsD [OF assms]
  let ?N = "num_chunks (header b)"
  let ?P = "\<lambda>i. \<not> (chunk_generation b i = 0 \<or> num_rows b i = 0)"
  have rep: "chunk_generation b i = ring_generation s i" "num_rows b i = length (ring_chunks s ! i)"
    if "i < ?N" for i
    using r(9) [OF that] by (simp_all add: chunk_rep_def Let_def chunk_view_def chunk_generation_def num_rows_def)
  have ring_order_less: "i < ?N" if "i \<in> set (ring_order s)" for i
    using that r(5,6) by (auto simp: ring_order_def r(4))
  have P: "?P i \<longleftrightarrow> ring_chunks s ! i \<noteq> []" if "i < ?N" for i
    using rep [OF that] that r(3,4) by (auto simp: ring_generation_def ring_wf_def)
  have "chunks_logical b = map snd (sort (map (\<lambda>i. (chunk_generation b i, i)) (filter ?P [0..<?N])))"
    unfolding chunks_logical_def Let_def comprehension_filter ..
  also have "\<dots> = filter ?P ([ring_cur s + 1..<?N] @ [0..<ring_cur s + 1])"
    using r(3,5,6) rep(1) by (intro sort_rotated [where l = "ring_lap s"]) (auto simp: ring_generation_def ring_wf_def)
  also have "\<dots> = filter (\<lambda>i. ring_chunks s ! i \<noteq> []) (ring_order s)"
  proof (rule filter_cong)
    show "[ring_cur s + 1..<?N] @ [0..<ring_cur s + 1] = ring_order s" by (simp only: ring_order_def r(4))
    fix i assume "i \<in> set (ring_order s)"
    then have "i < ?N" by (rule ring_order_less)
    then show "?P i = (ring_chunks s ! i \<noteq> [])" by (rule P)
  qed
  finally show ?thesis .
qed

lemma concat_filter_nonempty: "concat (map f (filter (\<lambda>i. f i \<noteq> []) xs)) = concat (map f xs)"
  by (induction xs) auto

lemma logical_contents:
  assumes "represents b s"
  shows "concat (map (decode_chunk b) (chunks_logical b)) = ring_contents s"
proof -
  note r = representsD [OF assms(1)]
  have "map (decode_chunk b) (chunks_logical b) = map (nth (ring_chunks s)) (chunks_logical b)"
  proof (rule map_cong [OF refl])
    fix i assume "i \<in> set (chunks_logical b)"
    then have "i < num_chunks (header b)"
      using r(4-6) unfolding chunks_logical_rep [OF assms(1)] ring_order_def set_filter set_append set_upt by auto
    then show "decode_chunk b i = ring_chunks s ! i" by (rule decode_chunk_rep [OF assms(1)])
  qed
  then show ?thesis
    unfolding chunks_logical_rep [OF assms(1)] ring_contents_def
    by (simp only: concat_filter_nonempty [where f = "nth (ring_chunks s)"])
qed

section \<open>Reading through a pin\<close>

lemma payload_lease_frame:
  "table_geom b \<Longrightarrow> lease_frame b b' \<Longrightarrow> i < num_chunks (header b) \<Longrightarrow>
   payload b' i = payload b i \<and> chunk_hdr b' i = chunk_hdr b i"
  using lease_frame_view [of b b' i] by (simp add: chunk_view_def)

lemma represents_lease_frame:
  assumes "represents b s" "lease_frame b b'"
  shows "represents b' s"
proof -
  note r = representsD [OF assms(1)]
  have h: "header b' = header b" by (rule lease_frame_header [OF r(1) assms(2)])
  have c: "cold_eq b b'" by (rule lease_frame_cold [OF r(1) assms(2)])
  have v: "chunk_view b' i = chunk_view b i" if "i < num_chunks (header b)" for i
    by (rule lease_frame_view [OF r(1) assms(2) that])
  have "chunks_fit b'" using r(2) v by (simp add: chunks_fit_def chunk_view_def h)
  then show ?thesis
    using assms(1) lease_frame_geom [OF r(1) assms(2)] lease_frame_length [OF assms(2)] v validate_row_schema_cong [OF c]
    by (simp add: represents_def h)
qed

text \<open>
  An iterator that \<open>try_rows\<close> hands out yields every row of the chunk, in order, with the values
  that were written. \<open>n\<close> bounds the number of \<open>next\<close> calls; the row count plus one is enough.
\<close>

lemma try_rows_pinned:
  assumes "represents b s" "i < num_chunks (header b)" "try_rows os b i = (Inr it, b1)"
    and "it_pin it = Some p"
  shows "lease_frame b b1 \<and> it_buf it = b1 \<and> it_chunk_start it = chunk_start_off b i \<and>
    it_rest it = payload b i \<and> it_end it \<le> length b1 \<and> pin_holds os b1 p \<and> pin_chunk_index p = i"
proof -
  note r = representsD [OF assms(1)]
  let ?cs = "chunk_start_off b i"
  from assms(2-4) obtain g u where
    pin: "pin_chunk os b ?cs = (Inr (Some (p, g, u)), b1)" and
    it: "it = \<lparr>it_buf = b1, it_chunk_start = ?cs, it_pos = ?cs + CHUNK_HEADER_SIZE,
       it_end = ?cs + CHUNK_HEADER_SIZE + u, it_generation = g, it_pin = Some p\<rparr>"
    by (auto simp: try_rows_def Let_def split: sum.splits option.splits prod.splits)
  note ps = pin_chunk_with_Some [OF r(1) assms(2) pin [unfolded pin_chunk_def]]
  have pl: "payload b1 i = payload b i" using payload_lease_frame [OF r(1) ps(1) assms(2)] by simp
  have st: "chunk_start_off b1 i = ?cs" using cold_eq_chunk_start lease_frame_cold [OF r(1) ps(1)] by blast
  have u: "u = used (chunk_hdr b1 i)" using ps(7) payload_lease_frame [OF r(1) ps(1) assms(2)] by simp
  have "it_rest it = payload b1 i" unfolding it_rest_def payload_def st u by (simp add: it u [unfolded st])
  moreover have "?cs + chunk_size (header b) \<le> length b1"
    using chunk_bounds(3) [OF r(1) assms(2)] lease_frame_length [OF ps(1)] by simp
  then have "it_end it \<le> length b1" using ps(8) geom_chunk_size [OF r(1)] by (simp add: it layout_consts)
  ultimately show ?thesis using it ps(1-3) pl by simp
qed

lemma read_through_pin:
  assumes "represents b s" "i < num_chunks (header b)"
    and "try_rows os b i = (Inr it, b1)" "it_pin it = Some p"
    and "\<And>q. valid q = (True, True)" "length (ring_chunks s ! i) < n"
  shows "\<exists>rows. row_iter_take n valid it = Some rows \<and> map (decode_row b1) rows = ring_chunks s ! i"
proof -
  note r = representsD [OF assms(1)]
  note tr = try_rows_pinned [OF assms(1,2,3,4)]
  have rep1: "represents b1 s" using represents_lease_frame [OF assms(1)] tr by blast
  have h: "header b1 = header b" using lease_frame_header [OF r(1)] tr by blast
  have st: "chunk_start_off b1 i = chunk_start_off b i"
    using cold_eq_chunk_start lease_frame_cold [OF r(1)] tr by blast
  have pl: "payload b1 i = payload b i" using payload_lease_frame [OF r(1) _ assms(2)] tr by blast
  have lb: "length b1 = length b" using lease_frame_length tr by blast
  have dec: "map (\<lambda>bs. decode_row b1 (chunk_row b1 (chunk_start_off b i) (it_generation it) bs)) (parse_rows (payload b i))
      = ring_chunks s ! i"
    using decode_rows_rep [OF rep1, of i "it_generation it"] assms(2) lb h st pl by simp
  have len: "length (parse_rows (payload b i)) = length (ring_chunks s ! i)" using arg_cong [OF dec, of length] by simp
  have "row_iter_take n valid it = Some (map (chunk_row b1 (chunk_start_off b i) (it_generation it)) (parse_rows (payload b i)))"
    using row_iter_take_valid [of it valid n] tr assms(4-6) len by (simp add: chunk_row_def [abs_def])
  then show ?thesis using dec by (simp add: o_def)
qed

text \<open>A chunk without a pin is one that was never written; its iterator is exhausted at once.\<close>

lemma pin_chunk_unpinned:
  assumes "table_geom b" "chunks_fit b" "i < num_chunks (header b)"
    and "pin_chunk os b (chunk_start_off b i) = (Inr None, b1)"
  shows "state (chunk_hdr b i) = chunk_state_code Empty \<and> b1 = b"
proof (rule ccontr)
  assume c: "\<not> (state (chunk_hdr b i) = chunk_state_code Empty \<and> b1 = b)"
  let ?cs = "chunk_start_off b i"
  let ?after = "\<lambda>(_::nat) b1. (state (chunk_header b1 ?cs), generation (chunk_header b1 ?cs))"
  have eq: "pin_attempts os ?after b i ?cs (chunk_size (header b) - CHUNK_HEADER_SIZE) (Suc 63) = (Inr None, b1)"
    using assms(4) pin_chunk_with_eq [OF assms(1), of os ?after i] by (simp add: pin_chunk_def)
  note eq = eq [unfolded pin_attempts.simps(2) Let_def]
  show False
  proof (cases "state (chunk_hdr b i) = chunk_state_code Empty")
    case True
    then show ?thesis using eq c by (simp add: Let_def)
  next
    case False
    then obtain slot b2 where ac: "acquire_process_lease os b i = Some (slot, b2)"
      using eq by (auto simp: Let_def split: option.splits prod.splits)
    have lf: "lease_frame b b2" using acquire_process_lease_Some [OF ac] acquire_slot_props(1) [OF assms(1,3)] by blast
    have ch: "chunk_header b2 ?cs = chunk_header b ?cs"
      using payload_lease_frame [OF assms(1) lf assms(3)] cold_eq_chunk_start [OF lease_frame_cold [OF assms(1) lf]]
      by simp
    show ?thesis using eq False ac ch chunks_fitD [OF assms(2,3)] by (simp add: Let_def layout_consts)
  qed
qed

lemma try_rows_unpinned:
  assumes "represents b s" "i < num_chunks (header b)" "try_rows os b i = (Inr it, b1)" "it_pin it = None"
  shows "ring_chunks s ! i = [] \<and> b1 = b \<and> row_iter_next valid it = Some (None, it)"
proof -
  note r = representsD [OF assms(1)]
  from assms(2-4) have pin: "pin_chunk os b (chunk_start_off b i) = (Inr None, b1)" and e: "it_pos it = it_end it"
    by (auto simp: try_rows_def Let_def split: sum.splits option.splits prod.splits)
  from pin_chunk_unpinned [OF r(1,2) assms(2) pin]
  have st: "state (chunk_hdr b i) = chunk_state_code Empty" "b1 = b" by auto
  moreover have "state (chunk_hdr b i) = chunk_state_code (ring_state s i)"
    using r(9) [OF assms(2)] by (simp add: chunk_rep_def Let_def chunk_view_def)
  ultimately have "ring_cur s < i \<and> ring_lap s = 1" by (auto simp: ring_state_def split: if_splits)
  then have "ring_chunks s ! i = []" using r(3,4) assms(2) by (simp add: ring_wf_def)
  then show ?thesis using st(2) e by (simp add: row_iter_next.simps)
qed

end
