(* ===== verification/Raw_Init.thy ===== *)
theory Raw_Init
  imports Table_Read
begin

text \<open>
  What \<open>init_buf\<close> builds: a table of valid geometry whose header and column descriptors carry the
  schema, whose leases are free and whose chunks are empty, so it represents the initial ring.
\<close>

section \<open>The header\<close>

definition header_stores :: "os \<Rightarrow> nat \<Rightarrow> nat \<Rightarrow> nat \<Rightarrow> nat \<Rightarrow> nat \<Rightarrow> nat \<Rightarrow> nat \<Rightarrow> (usize \<times> nat \<times> nat) list" where
  "header_stores os iid tsc nc nch csz doff loff =
    [(0, 4, MAGIC_MEMT), (4, 2, VERSION), (6, 2, HEADER_SIZE), (8, 2, bom_value), (10, 2, tsc), (12, 4, 0),
     (16, 4, nc), (20, 4, nch), (24, 4, csz), (28, 4, doff), (32, 4, 0), (36, 4, 1),
     (40, 4, unat (current_process_id os)), (44, 4, 0),
     (48, 8, unat (process_start_time os (current_process_id os))), (56, 4, 0), (60, 4, 0), (64, 4, loff),
     (68, 4, READER_LEASE_SLOTS), (72, 8, iid), (80, 8, 0), (88, 8, 0)]"

lemma init_header_eq:
  "init_header os iid tsc nc nch csz doff loff b =
     bsplice 96 (replicate 32 0) (wr_all (header_stores os iid tsc nc nch csz doff loff) b)"
  by (simp add: init_header_def Let_def header_stores_def wr_all_Cons)

lemma header_stores_ascending: "ascending (header_stores os iid tsc nc nch csz doff loff)"
  by (simp add: ascending_def header_stores_def)

lemma header_stores_bounds:
  "\<forall>(off, n, v) \<in> set (header_stores os iid tsc nc nch csz doff loff). off + n \<le> 96"
  by (simp add: header_stores_def)

lemma init_header_length:
  assumes "128 \<le> length b"
  shows "length (init_header os iid tsc nc nch csz doff loff b) = length b"
proof -
  have "length (wr_all (header_stores os iid tsc nc nch csz doff loff) b) = length b"
    using header_stores_bounds [of os iid tsc nc nch csz doff loff] assms by (intro length_wr_all) auto
  then show ?thesis using assms by (simp add: init_header_eq)
qed

lemma init_header_other:
  assumes "128 \<le> length b" "128 \<le> off"
  shows "bslice off n (init_header os iid tsc nc nch csz doff loff b) = bslice off n b"
proof -
  let ?b = "wr_all (header_stores os iid tsc nc nch csz doff loff) b"
  have "length ?b = length b"
    using header_stores_bounds [of os iid tsc nc nch csz doff loff] assms by (intro length_wr_all) auto
  then have "bslice off n (init_header os iid tsc nc nch csz doff loff b) = bslice off n ?b"
    using assms unfolding init_header_eq by (intro slice_splice_other) auto
  also have "\<dots> = bslice off n b"
    using header_stores_bounds [of os iid tsc nc nch csz doff loff] assms by (intro slice_wr_all_other) fastforce
  finally show ?thesis .
qed

lemma rd_init_header:
  assumes "128 \<le> length b" "(off, n, v) \<in> set (header_stores os iid tsc nc nch csz doff loff)"
  shows "rd off n (init_header os iid tsc nc nch csz doff loff b) = v mod 256 ^ n"
proof -
  let ?ws = "header_stores os iid tsc nc nch csz doff loff"
  have in_b: "\<forall>(off, n, v) \<in> set ?ws. off + n \<le> length b"
    using header_stores_bounds [of os iid tsc nc nch csz doff loff] assms(1) by fastforce
  have "off + n \<le> 96" using header_stores_bounds [of os iid tsc nc nch csz doff loff] assms(2) by fastforce
  then have "rd off n (init_header os iid tsc nc nch csz doff loff b) = rd off n (wr_all ?ws b)"
    unfolding init_header_eq using length_wr_all [OF in_b] assms(1) by (intro rd_splice_other) auto
  then show ?thesis using rd_wr_all [OF header_stores_ascending in_b assms(2)] by simp
qed

lemma init_header_header:
  fixes os :: os and iid :: nat
  assumes "128 \<le> length b" "tsc < 2 ^ 16" "nc < 2 ^ 32" "nch < 2 ^ 32" "csz < 2 ^ 32" "doff < 2 ^ 32" "loff < 2 ^ 32"
  defines "h \<equiv> header (init_header os iid tsc nc nch csz doff loff b)"
  shows "magic h = MAGIC_MEMT" "version h = VERSION" "header_size h = HEADER_SIZE" "byte_order h = bom_value"
    "ts_col h = tsc" "flags h = 0" "num_cols h = nc" "num_chunks h = nch" "chunk_size h = csz"
    "data_offset h = doff" "write_chunk h = 0" "rows_overwritten h = 0" "lease_offset h = loff"
    "lease_slots h = READER_LEASE_SLOTS" "refcount h = 1"
proof -
  note r = rd_init_header [OF assms(1), of _ _ _ os iid tsc nc nch csz doff loff]
  have m: "(off, n, v) \<in> set (header_stores os iid tsc nc nch csz doff loff) \<Longrightarrow> v < 256 ^ n \<Longrightarrow>
      rd off n (init_header os iid tsc nc nch csz doff loff b) = v" for off n v
    using r by simp
  show "magic h = MAGIC_MEMT" "version h = VERSION" "header_size h = HEADER_SIZE" "byte_order h = bom_value"
    "ts_col h = tsc" "flags h = 0" "num_cols h = nc" "num_chunks h = nch" "chunk_size h = csz"
    "data_offset h = doff" "write_chunk h = 0" "rows_overwritten h = 0" "lease_offset h = loff"
    "lease_slots h = READER_LEASE_SLOTS" "refcount h = 1"
    using assms(2-7) unfolding h_def header_def Header.simps
    by (auto intro!: m simp: header_stores_def layout_consts bom_value_def BYTE_ORDER_MARK_def)
qed

section \<open>Column descriptors\<close>

definition desc_of :: "Col \<Rightarrow> ColumnDesc" where
  "desc_of c = \<lparr>cd_name = set_name (col_name c), cd_dtype = dtype_code (col_dtype c),
     cd_elem_size = col_elem_size c mod 2 ^ 32\<rparr>"

lemma init_col_props:
  assumes "128 + i * 64 + 64 \<le> length b"
  shows "length (init_col c i b) = length b"
    and "off + n \<le> 128 + i * 64 \<or> 128 + i * 64 + 64 \<le> off \<Longrightarrow> bslice off n (init_col c i b) = bslice off n b"
    and "col_desc (init_col c i b) i = desc_of c"
proof -
  have o: "col_desc_off i = 128 + i * 64" by (simp add: col_desc_off_def layout_consts)
  show "length (init_col c i b) = length b" using assms by (simp add: init_col_def Let_def o)
  show "off + n \<le> 128 + i * 64 \<or> 128 + i * 64 + 64 \<le> off \<Longrightarrow> bslice off n (init_col c i b) = bslice off n b"
    using assms by (auto simp: init_col_def Let_def o slice_wr_other slice_splice_other)
  have "dtype_code (col_dtype c) mod 2 ^ 32 = dtype_code (col_dtype c)" by (cases "col_dtype c") simp_all
  then show "col_desc (init_col c i b) i = desc_of c"
    using assms by (simp add: col_desc_def init_col_def Let_def o desc_of_def buf_simps)
qed

lemma col_desc_cong:
  assumes "bslice (128 + i * 64) 64 b' = bslice (128 + i * 64) 64 b"
  shows "col_desc b' i = col_desc b i"
proof -
  have "bslice (128 + i * 64 + k) n b' = bslice (128 + i * 64 + k) n b" if "k + n \<le> 64" for k n
    using slice_slice [OF that, of "128 + i * 64"] assms by metis
  from this [of 0 56] this [of 56 4] this [of 60 4] show ?thesis
    by (simp add: col_desc_def Let_def col_desc_off_def layout_consts rd_def add.assoc)
qed

lemma init_cols_props:
  assumes "128 + (i + length cs) * 64 \<le> length b"
  shows "length (init_cols cs i b) = length b \<and>
    (\<forall>off n. off + n \<le> 128 + i * 64 \<or> 128 + (i + length cs) * 64 \<le> off \<longrightarrow>
       bslice off n (init_cols cs i b) = bslice off n b) \<and>
    (\<forall>j<length cs. col_desc (init_cols cs i b) (i + j) = desc_of (cs ! j))"
  using assms
proof (induction cs arbitrary: i b)
  case (Cons c cs)
  let ?b = "init_col c i b"
  have fit: "128 + i * 64 + 64 \<le> length b" using Cons.prems by simp
  note ip = init_col_props [OF fit]
  have IH: "length (init_cols cs (Suc i) ?b) = length ?b"
    "\<forall>off n. off + n \<le> 128 + Suc i * 64 \<or> 128 + (Suc i + length cs) * 64 \<le> off \<longrightarrow>
       bslice off n (init_cols cs (Suc i) ?b) = bslice off n ?b"
    "\<forall>j<length cs. col_desc (init_cols cs (Suc i) ?b) (Suc i + j) = desc_of (cs ! j)"
    using Cons.IH [of "Suc i" ?b] Cons.prems ip(1) by simp_all
  have "col_desc (init_cols cs (Suc i) ?b) i = col_desc ?b i"
    using IH(2) by (intro col_desc_cong) simp
  then have "col_desc (init_cols (c # cs) i b) (i + j) = desc_of ((c # cs) ! j)" if "j < length (c # cs)" for j
    using that IH(3) ip(3) by (cases j) simp_all
  moreover have "bslice off n (init_cols (c # cs) i b) = bslice off n b"
    if "off + n \<le> 128 + i * 64 \<or> 128 + (i + length (c # cs)) * 64 \<le> off" for off n
    using that IH(2) ip(2) by auto
  ultimately show ?case using IH(1) ip(1) by simp
qed simp

section \<open>Leases\<close>

lemma init_leases_props:
  assumes "table_geom b" "\<forall>(c, s) \<in> set cs. c < num_chunks (header b) \<and> s < lease_slots (header b)"
  shows "lease_frame b (init_leases cs b) \<and>
    (\<forall>c<num_chunks (header b). \<forall>s<lease_slots (header b).
       reader_lease (init_leases cs b) c s =
         (if (c, s) \<in> set cs then \<lparr>lease_state = 0, owner_start_time = 0\<rparr> else reader_lease b c s))"
  using assms
proof (induction cs arbitrary: b)
  case (Cons x cs)
  obtain c s where x: "x = (c, s)" by force
  have cs: "c < num_chunks (header b)" "s < lease_slots (header b)" using Cons.prems(2) x by auto
  let ?b1 = "store_state b c s 0"
  have f1: "lease_frame b ?b1" by (rule lease_frame_store(1) [OF Cons.prems(1) cs])
  have g1: "table_geom ?b1" by (rule lease_frame_geom [OF Cons.prems(1) f1])
  have h1: "header ?b1 = header b" by (rule lease_frame_header [OF Cons.prems(1) f1])
  let ?b2 = "store_owner_start ?b1 c s 0"
  have f2: "lease_frame ?b1 ?b2" using lease_frame_store(2) [OF g1] cs h1 by simp
  have g2: "table_geom ?b2" by (rule lease_frame_geom [OF g1 f2])
  have h2: "header ?b2 = header b" using lease_frame_header [OF g1 f2] h1 by simp
  have r: "reader_lease ?b2 c' s' = (if (c', s') = (c, s) then \<lparr>lease_state = 0, owner_start_time = 0\<rparr> else reader_lease b c' s')"
    if "c' < num_chunks (header b)" "s' < lease_slots (header b)" for c' s'
    using reader_lease_store_start [OF g1, of c s c' s' 0] reader_lease_store_state [OF Cons.prems(1) cs that, of 0]
      cs that h1 by auto
  have "lease_frame ?b2 (init_leases cs ?b2) \<and>
    (\<forall>c<num_chunks (header b). \<forall>s<lease_slots (header b).
       reader_lease (init_leases cs ?b2) c s =
         (if (c, s) \<in> set cs then \<lparr>lease_state = 0, owner_start_time = 0\<rparr> else reader_lease ?b2 c s))"
    using Cons.IH [OF g2] Cons.prems(2) unfolding h2 by auto
  then show ?case
    using r x lease_frame_trans [OF Cons.prems(1) f1 lease_frame_trans [OF g1 f2]] by auto
qed simp

section \<open>Chunks\<close>

definition blank_chunk :: ChunkHeader where
  "blank_chunk = \<lparr>generation = 0, used = 0, row_count = 0, state = chunk_state_code Empty,
     min_ts = TS_MIN_INIT, max_ts = TS_MAX_INIT\<rparr>"

lemma init_chunk_header_props:
  assumes "cs + 40 \<le> length b"
  shows "length (init_chunk_header cs b) = length b"
    and "off + n \<le> cs \<or> cs + 40 \<le> off \<Longrightarrow> bslice off n (init_chunk_header cs b) = bslice off n b"
    and "chunk_header (init_chunk_header cs b) cs = blank_chunk"
  using assms
  by (auto simp: init_chunk_header_def Let_def slice_wr_other chunk_header_def buf_simps blank_chunk_def u64_fits)

lemma init_chunks_props:
  assumes "table_geom b" "distinct is" "\<forall>i\<in>set is. i < num_chunks (header b)"
  shows "length (init_chunks (map (chunk_start_off b) is) b) = length b \<and>
    (\<forall>off n. off + n \<le> data_offset (header b) \<longrightarrow>
       bslice off n (init_chunks (map (chunk_start_off b) is) b) = bslice off n b) \<and>
    (\<forall>i<num_chunks (header b). chunk_header (init_chunks (map (chunk_start_off b) is) b) (chunk_start_off b i) =
       (if i \<in> set is then blank_chunk else chunk_hdr b i))"
  using assms(2,3)
proof (induction "is" rule: rev_induct)
  case (snoc k ks)
  let ?b = "init_chunks (map (chunk_start_off b) ks) b" and ?cs = "chunk_start_off b k"
  have app: "init_chunks (xs @ ys) b = init_chunks ys (init_chunks xs b)" for xs ys b
    by (induction xs arbitrary: b) auto
  have eq: "init_chunks (map (chunk_start_off b) (ks @ [k])) b = init_chunk_header ?cs ?b" by (simp add: app)
  have IH: "length ?b = length b" "\<forall>off n. off + n \<le> data_offset (header b) \<longrightarrow> bslice off n ?b = bslice off n b"
    "\<forall>i<num_chunks (header b). chunk_header ?b (chunk_start_off b i) = (if i \<in> set ks then blank_chunk else chunk_hdr b i)"
    using snoc by auto
  have k: "k < num_chunks (header b)" "k \<notin> set ks" using snoc.prems by auto
  have cz: "48 \<le> chunk_size (header b)" by (rule geom_chunk_size [OF assms(1)])
  have fit: "?cs + 40 \<le> length ?b" using chunk_bounds(3) [OF assms(1) k(1)] cz IH(1) by simp
  note ip = init_chunk_header_props [OF fit]
  have oth: "chunk_header (init_chunk_header ?cs ?b) (chunk_start_off b i) = chunk_header ?b (chunk_start_off b i)"
    if "i \<noteq> k" for i
  proof -
    have s: "bslice (chunk_start_off b i + m) n (init_chunk_header ?cs ?b) = bslice (chunk_start_off b i + m) n ?b"
      if "m + n \<le> 40" for m n
      using that chunk_apart [OF \<open>i \<noteq> k\<close>, of b] cz by (intro ip(2)) auto
    show ?thesis
      using s [of 0 8] s [of 8 4] s [of 12 4] s [of 16 4] s [of 24 8] s [of 32 8]
      by (simp add: chunk_header_def rd_def)
  qed
  have hdr: "chunk_header (init_chunk_header ?cs ?b) (chunk_start_off b i) =
      (if i \<in> set (ks @ [k]) then blank_chunk else chunk_hdr b i)" if "i < num_chunks (header b)" for i
    using oth [of i] IH(3) that ip(3) by (cases "i = k") auto
  have "data_offset (header b) \<le> ?cs" by (simp add: chunk_start_off_def)
  then have "bslice off n (init_chunk_header ?cs ?b) = bslice off n b" if "off + n \<le> data_offset (header b)" for off n
    using that ip(2) IH(2) by simp
  with hdr show ?case unfolding eq using IH(1) ip(1) by simp
qed simp


section \<open>The whole buffer\<close>

definition init_ok :: "nat \<Rightarrow> buf \<Rightarrow> Schema \<Rightarrow> nat \<Rightarrow> nat \<Rightarrow> usize \<Rightarrow> usize \<Rightarrow> bool" where
  "init_ok addr b s csz nch lease_off data_off \<longleftrightarrow>
     addr mod HEADER_ALIGN = 0 \<and> 0 < nch \<and> csz mod 8 = 0 \<and> CHUNK_HEADER_SIZE + 8 \<le> csz \<and>
     length (cols s) < 2 ^ 32 \<and> lease_off = align64 (128 + 64 * length (cols s)) \<and>
     data_off = align64 (256 * nch + lease_off) \<and> data_off < 2 ^ 32 \<and> data_off + csz * nch \<le> length b"

lemma init_buf_Inr:
  assumes "init_buf os iid addr b s csz nch = Inr b'"
  shows "\<exists>lease_off data_off. init_ok addr b s csz nch lease_off data_off \<and>
    b' = init_body os iid s csz nch lease_off data_off b"
  using assms
  by (auto simp: init_buf_def Let_def init_ok_def checked_lease_offset_eq_Some checked_data_offset_eq_Some
      bind_eq_Some_conv split: if_splits option.splits)

text \<open>The table right after the descriptors were written: its geometry is final.\<close>

definition init_stage :: "os \<Rightarrow> nat \<Rightarrow> Schema \<Rightarrow> nat \<Rightarrow> nat \<Rightarrow> usize \<Rightarrow> usize \<Rightarrow> buf \<Rightarrow> buf" where
  "init_stage os iid s csz nch lease_off data_off b =
     init_cols (cols s) 0 (init_header os iid (find_ts_col s) (length (cols s)) nch csz data_off lease_off b)"

lemma header_cong: "(\<And>off n. off + n \<le> 128 \<Longrightarrow> bslice off n b' = bslice off n b) \<Longrightarrow> header b' = header b"
  by (simp add: header_def rd_def)

lemma find_ts_col_bound: "find_ts_col s < 2 ^ 16"
  by (simp add: find_ts_col_def split: option.split)

lemma init_stage_props:
  fixes os :: os and iid :: nat
  assumes "init_ok addr b s csz nch lease_off data_off" "csz < 2 ^ 32" "nch < 2 ^ 32"
  defines "b2 \<equiv> init_stage os iid s csz nch lease_off data_off b"
  shows "length b2 = length b" "table_geom b2"
    "header b2 = header (init_header os iid (find_ts_col s) (length (cols s)) nch csz data_off lease_off b)"
    "j < length (cols s) \<Longrightarrow> col_desc b2 j = desc_of (cols s ! j)"
proof -
  let ?b1 = "init_header os iid (find_ts_col s) (length (cols s)) nch csz data_off lease_off b"
  note ok = assms(1) [unfolded init_ok_def]
  have lo: "128 + 64 * length (cols s) \<le> lease_off" "lease_off \<le> data_off"
    using ok align64_bounds [of "128 + 64 * length (cols s)"] align64_bounds [of "256 * nch + lease_off"] by auto
  have len: "128 + 64 * length (cols s) \<le> length b" using ok lo by linarith
  then have l1: "length ?b1 = length b" by (intro init_header_length) simp
  have "128 + (0 + length (cols s)) * 64 \<le> length ?b1" using len l1 by simp
  note ic = init_cols_props [OF this, folded init_stage_def, folded b2_def]
  show "length b2 = length b" using ic l1 by simp
  show h: "header b2 = header ?b1" using ic by (intro header_cong) simp
  show "j < length (cols s) \<Longrightarrow> col_desc b2 j = desc_of (cols s ! j)" using ic by simp
  have b128: "128 \<le> length b" using len by simp
  have lt: "lease_off < 2 ^ 32" "data_off < 2 ^ 32" using ok lo by linarith+
  have nc32: "length (cols s) < 2 ^ 32" using ok by blast
  note ih = init_header_header [OF b128 find_ts_col_bound [of s] nc32 assms(3,2) lt(2,1), where os = os and iid = iid]
  have l2: "length b2 = length b" using ic l1 by simp
  show "table_geom b2"
    unfolding table_geom_def Let_def h ih l2 using ok b128 unfolding layout_consts by blast
qed

definition first_chunk :: ChunkHeader where
  "first_chunk = blank_chunk\<lparr>generation := 1, state := chunk_state_code Writing\<rparr>"

lemma init_body_props:
  fixes os :: os and iid :: nat
  assumes "init_ok addr b s csz nch lease_off data_off" "csz < 2 ^ 32" "nch < 2 ^ 32"
  defines "b' \<equiv> init_body os iid s csz nch lease_off data_off b"
  shows "cold_eq (init_stage os iid s csz nch lease_off data_off b) b'"
    "header b' = header (init_stage os iid s csz nch lease_off data_off b)"
    "i < nch \<Longrightarrow> chunk_hdr b' i = (if i = 0 then first_chunk else blank_chunk)"
    "i < nch \<Longrightarrow> k < READER_LEASE_SLOTS \<Longrightarrow> reader_lease b' i k = \<lparr>lease_state = 0, owner_start_time = 0\<rparr>"
proof -
  let ?b2 = "init_stage os iid s csz nch lease_off data_off b"
  note st = init_stage_props [OF assms(1-3), where os = os and iid = iid]
  note ok = assms(1) [unfolded init_ok_def]
  have lo: "lease_off \<le> data_off" "128 \<le> lease_off" using ok align64_bounds [of "256 * nch + lease_off"]
      align64_bounds [of "128 + 64 * length (cols s)"] by auto
  have b128: "128 \<le> length b" using ok lo by linarith
  have nc32: "length (cols s) < 2 ^ 32" and d32: "data_off < 2 ^ 32" "lease_off < 2 ^ 32" using ok lo by auto
  note ih = init_header_header [OF b128 find_ts_col_bound [of s] nc32 assms(3,2) d32, where os = os and iid = iid, folded st(3)]
  let ?ls = "List.product [0..<nch] [0..<READER_LEASE_SLOTS]"
  let ?b3 = "init_leases ?ls ?b2"
  have il: "lease_frame ?b2 ?b3" "\<And>c k. c < nch \<Longrightarrow> k < READER_LEASE_SLOTS \<Longrightarrow>
      reader_lease ?b3 c k = \<lparr>lease_state = 0, owner_start_time = 0\<rparr>"
    using init_leases_props [OF st(2), of ?ls] ih(8,14) by auto
  have g3: "table_geom ?b3" by (rule lease_frame_geom [OF st(2) il(1)])
  have h3: "header ?b3 = header ?b2" by (rule lease_frame_header [OF st(2) il(1)])
  have starts: "map (\<lambda>i. data_off + i * csz) [0..<nch] = map (chunk_start_off ?b3) [0..<nch]"
    using ih by (simp add: chunk_start_off_def h3)
  let ?b4 = "init_chunks (map (chunk_start_off ?b3) [0..<nch]) ?b3"
  have ic: "length ?b4 = length ?b3" "\<And>off n. off + n \<le> data_off \<Longrightarrow> bslice off n ?b4 = bslice off n ?b3"
    "\<And>i. i < nch \<Longrightarrow> chunk_header ?b4 (chunk_start_off ?b3 i) = blank_chunk"
    using init_chunks_props [OF g3, of "[0..<nch]"] ih by (auto simp: h3)
  have c4: "cold_eq ?b3 ?b4"
    using ic(1,2) lo st(1) table_geomD(5,6) [OF g3] ih h3
    by (auto simp: cold_eq_def header_def)
  have g4: "table_geom ?b4" using cold_eq_geom [OF c4] g3 by simp
  have h4: "header ?b4 = header ?b2" using ic(2) lo h3 by (intro trans [OF header_cong h3]) auto
  have s4: "chunk_start_off ?b4 i = chunk_start_off ?b3 i" for i by (rule cold_eq_chunk_start [OF c4])
  have zero: "chunk_start_off ?b4 0 = data_off" using ih by (simp add: chunk_start_off_def h4)
  let ?b5 = "wr data_off 8 1 ?b4" and ?b6 = "wr (data_off + 16) 4 (chunk_state_code Writing) (wr data_off 8 1 ?b4)"
  have b': "b' = ?b6"
    by (simp add: b'_def init_body_def Let_def init_stage_def [symmetric] starts)
  have n0: "0 < num_chunks (header ?b4)" unfolding h4 ih(8) using ok by blast
  have cz: "48 \<le> chunk_size (header ?b4)" by (rule geom_chunk_size [OF g4])
  have fit: "data_off + 48 \<le> length ?b4" using chunk_bounds(3) [OF g4 n0] cz zero by linarith
  have o5: "chunk_only ?b4 ?b5 0" using fit zero cz by (intro chunk_only_wr) auto
  have h5: "header ?b5 = header ?b4" by (rule chunk_only_header [OF g4 n0 o5])
  have z5: "chunk_start_off ?b5 0 = data_off" using zero unfolding chunk_start_off_def h5 .
  have o6: "chunk_only ?b5 ?b6 0" using fit z5 cz h5 by (intro chunk_only_wr) auto
  have o: "chunk_only ?b4 b' 0" unfolding b' by (rule chunk_only_trans [OF g4 n0 o5 o6])
  show hd: "header b' = header ?b2" using chunk_only_header [OF g4 n0 o] h4 by simp
  have c: "cold_eq ?b4 b'" by (rule chunk_only_cold [OF g4 n0 o])
  show "cold_eq ?b2 b'"
    using cold_eq_trans [OF lease_frame_cold [OF st(2) il(1)] cold_eq_trans [OF c4 c]] .
  show "chunk_hdr b' i = (if i = 0 then first_chunk else blank_chunk)" if "i < nch"
  proof (cases "i = 0")
    case True
    have "chunk_header ?b6 data_off = first_chunk"
      using ic(3) [OF that] fit True zero s4 
      by (simp add: chunk_header_def buf_simps first_chunk_def blank_chunk_def)
    then show ?thesis using True zero cold_eq_chunk_start [OF c] by (simp add: b')
  next
    case False
    have "chunk_hdr b' i = chunk_hdr ?b4 i"
      using chunk_only_other(1) [OF o False cold_eq_chunk_start [OF c]] cz by simp
    then show ?thesis using ic(3) [OF that] s4 False by simp
  qed
  show "reader_lease b' i k = \<lparr>lease_state = 0, owner_start_time = 0\<rparr>" if ik: "i < nch" "k < READER_LEASE_SLOTS"
  proof -
    have iks: "i < num_chunks (header ?b3)" "k < lease_slots (header ?b3)" using ik ih by (simp_all add: h3)
    have "reader_lease b' i k = reader_lease ?b4 i k"
      using chunk_only_leases [OF g4 n0 o] iks h4 h3 by simp
    also have "\<dots> = reader_lease ?b3 i k"
    proof -
      have "reader_lease_off ?b3 i k + 16 \<le> data_off"
        using lease_bounds(2) [OF g3 iks] table_geomD(6) [OF g3] ih(10) h3 by (simp add: header_def)
      then show ?thesis
        using ic(2) cold_eq_lease_off [OF c4] by (simp add: reader_lease_def Let_def rd_def)
    qed
    finally show ?thesis using il(2) [OF ik] by simp
  qed
qed


section \<open>The initial ring\<close>

lemma table_schema_init:
  assumes "table_geom b" "num_cols (header b) = length cs" "\<And>j. j < length cs \<Longrightarrow> col_desc b j = desc_of (cs ! j)"
    and "\<And>c. c \<in> set cs \<Longrightarrow> length (col_name c) \<le> 54 \<and> utf8_ok (col_name c) \<and> col_elem_size c < 2 ^ 32"
  shows "table_schema b = Some \<lparr>cols = map (\<lambda>c. c\<lparr>col_doc := None\<rparr>) cs, table_doc = None\<rparr>"
proof -
  have name: "name_str (desc_of c) = Some (col_name c)" if "c \<in> set cs" for c
  proof (cases "col_name c = []")
    case True
    then show ?thesis by (simp add: name_str_def desc_of_def rd_set_name Let_def)
  next
    case False
    have n: "min (length (col_name c)) 54 = length (col_name c)" using assms(4) [OF that] by simp
    have "bslice 2 (length (col_name c)) (set_name (col_name c)) = col_name c"
      using slice_set_name [of "col_name c"] n by simp
    then show ?thesis
      using False assms(4) [OF that] n
      by (simp add: name_str_def desc_of_def rd_set_name Let_def get_range_def from_utf8_def)
  qed
  define f where "f = (\<lambda>i. do { n \<leftarrow> name_str (col_desc b i);
             Some (map_option (\<lambda>d. \<lparr>col_name = n, col_dtype = d,
               col_elem_size = cd_elem_size (col_desc b i), col_doc = None\<rparr>)
               (dtype_from_u32 (cd_dtype (col_desc b i)))) })"
  have "f i = Some (Some ((cs ! i)\<lparr>col_doc := None\<rparr>))" if "i < length cs" for i
    using name [of "cs ! i"] assms(3) [OF that] assms(4) [of "cs ! i"] that
    by (simp add: f_def) (simp add: desc_of_def)
  then have "map f [0..<length cs] = map (\<lambda>c. Some (Some (c\<lparr>col_doc := None\<rparr>))) cs"
    by (intro nth_equalityI) auto
  moreover have "those (map (\<lambda>c. Some (g c)) xs) = Some (map g xs)" for g :: "Col \<Rightarrow> Col option" and xs
    by (induction xs) auto
  ultimately have "those (map f [0..<length cs]) = Some (map (\<lambda>c. Some (c\<lparr>col_doc := None\<rparr>)) cs)" by simp
  moreover have "map the (filter (\<lambda>c. c \<noteq> None) (map (\<lambda>c. Some (c\<lparr>col_doc := None\<rparr>)) cs)) = map (\<lambda>c. c\<lparr>col_doc := None\<rparr>) cs"
    by (induction cs) auto
  ultimately show ?thesis
    unfolding table_schema_def assms(2) f_def [symmetric] by (simp add: schema_new_def)
qed

lemma init_buf_props:
  assumes "init_buf os iid addr b s csz nch = Inr b'" "csz < 2 ^ 32" "nch < 2 ^ 32" "length b < 2 ^ 64"
  shows "length b' = length b" "represents b' (ring_init nch)" "num_chunks (header b') = nch"
    "chunk_size (header b') = csz" "num_cols (header b') = length (cols s)" "ts_col (header b') = find_ts_col s"
    "flags (header b') = 0" "refcount (header b') = 1"
    "magic (header b') = MAGIC_MEMT \<and> version (header b') = VERSION \<and> header_size (header b') = HEADER_SIZE \<and>
       byte_order (header b') = bom_value"
    "\<forall>j<length (cols s). col_desc b' j = desc_of (cols s ! j)"
    "\<forall>i<nch. \<forall>k<READER_LEASE_SLOTS. lease_state (reader_lease b' i k) = 0"
    "addr mod HEADER_ALIGN = 0"
proof -
  from init_buf_Inr [OF assms(1)] obtain lo d where ok: "init_ok addr b s csz nch lo d"
    and b': "b' = init_body os iid s csz nch lo d b" by blast
  let ?b2 = "init_stage os iid s csz nch lo d b"
  note st = init_stage_props [OF ok assms(2,3), where os = os and iid = iid]
  note bd = init_body_props [OF ok assms(2,3), where os = os and iid = iid, folded b']
  note okd = ok [unfolded init_ok_def]
  have lt: "128 \<le> length b" "d < 2 ^ 32" "lo < 2 ^ 32" "length (cols s) < 2 ^ 32" "0 < nch"
    using okd align64_bounds [of "256 * nch + lo"] align64_bounds [of "128 + 64 * length (cols s)"] by linarith+
  note ih = init_header_header [OF lt(1) find_ts_col_bound [of s] lt(4) assms(3,2) lt(2,3), where os = os and iid = iid,
      folded st(3), folded bd(2)]
  have len: "length b' = length b" using cold_eq_length [OF bd(1)] st(1) by simp
  then show "length b' = length b" .
  show "num_chunks (header b') = nch" "chunk_size (header b') = csz" "num_cols (header b') = length (cols s)"
    "ts_col (header b') = find_ts_col s" "flags (header b') = 0" "refcount (header b') = 1" by (rule ih)+
  show "magic (header b') = MAGIC_MEMT \<and> version (header b') = VERSION \<and> header_size (header b') = HEADER_SIZE \<and>
       byte_order (header b') = bom_value" using ih(1-4) by blast
  show "addr mod HEADER_ALIGN = 0" using okd by blast
  show "\<forall>i<nch. \<forall>k<READER_LEASE_SLOTS. lease_state (reader_lease b' i k) = 0" using bd(4) by simp
  show "\<forall>j<length (cols s). col_desc b' j = desc_of (cols s ! j)"
    using st(4) cold_eq_col_desc [OF bd(1)] ih(7) bd(2) by simp
  have g: "table_geom b'" using cold_eq_geom [OF bd(1)] st(2) by simp
  have u0: "used (chunk_hdr b' i) = 0" if "i < nch" for i
    using bd(3) [OF that] by (simp add: first_chunk_def blank_chunk_def)
  have "chunk_rep (header b') (chunk_view b' i) (ring_init nch) i" if "i < nch" for i
    using bd(3) [OF that] u0 [OF that] that
    by (auto simp: chunk_rep_def chunk_view_def payload_def ring_init_def ring_generation_def ring_state_def
        rows_min_def rows_max_def first_chunk_def blank_chunk_def)
  moreover have "chunks_fit b'" using u0 by (simp add: chunks_fit_def ih(8))
  moreover have "ring_wf (ring_init nch)" using lt(5) by (rule ring_wf_init)
  moreover have "list_all (validate_row_schema b') (ring_chunks (ring_init nch) ! i)" if "i < nch" for i
    using that by (simp add: ring_init_def)
  ultimately show "represents b' (ring_init nch)"
    using g lt(5) len assms(4) unfolding represents_def ih(8,11,12) by (simp add: ring_init_def)
qed

end
