(* ===== verification/Table_Writer.thy ===== *)
theory Table_Writer
  imports Raw_Init
begin

text \<open>
  The life of a borrowed writer: \<open>MemTableWriter::init\<close> starts at the empty ring, \<open>dedup()\<close> and
  \<open>set_min_dedup_len\<close> keep the ring, \<open>advance_chunk\<close> and \<open>append_row\<close> are ring steps.
\<close>

section \<open>Setting a feature flag\<close>

lemma wr_flags_slice:
  "128 \<le> length b \<Longrightarrow> off + n \<le> 12 \<or> 16 \<le> off \<Longrightarrow> bslice off n (wr 12 4 v b) = bslice off n b"
  by (rule slice_wr_other) auto

lemma wr_flags_header:
  assumes "128 \<le> length b"
  shows "header (wr 12 4 v b) = (header b)\<lparr>flags := v mod 2 ^ 32\<rparr>"
  using assms by (simp add: header_def buf_simps)

lemma wr_flags_view:
  assumes "table_geom b" "i < num_chunks (header b)"
  shows "chunk_view (wr 12 4 v b) i = chunk_view b i"
proof (rule chunk_view_by_slices)
  have l: "128 \<le> length b" by (rule table_geomD(1) [OF assms(1)])
  show "chunk_start_off (wr 12 4 v b) i = chunk_start_off b i"
    by (simp add: chunk_start_off_def wr_flags_header [OF l])
  show "bslice off n (wr 12 4 v b) = bslice off n b" if "chunk_start_off b i \<le> off" for off n
    using that chunk_bounds(1) [OF assms] l by (intro wr_flags_slice) auto
qed

lemma wr_flags_col_desc:
  assumes "128 \<le> length b"
  shows "col_desc (wr 12 4 v b) i = col_desc b i"
  using assms by (intro col_desc_cong wr_flags_slice) auto

lemma represents_flags:
  assumes "represents b s"
  shows "represents (wr 12 4 v b) s"
proof -
  note r = representsD [OF assms]
  have l: "128 \<le> length b" by (rule table_geomD(1) [OF r(1)])
  note h = wr_flags_header [OF l, of v]
  have lw: "length (wr 12 4 v b) = length b" using l by simp
  have "table_geom (wr 12 4 v b) = table_geom b" by (simp add: table_geom_def Let_def h lw)
  then have g: "table_geom (wr 12 4 v b)" using r(1) by simp
  have f: "chunks_fit (wr 12 4 v b)"
    using r(2) wr_flags_view [OF r(1)] by (simp add: chunks_fit_def h chunk_view_def)
  have sc: "validate_row_schema (wr 12 4 v b) = validate_row_schema b"
    using wr_flags_col_desc [OF l] by (simp add: validate_row_schema_def h fun_eq_iff)
  have cr: "chunk_rep (header (wr 12 4 v b)) = chunk_rep (header b)" by (rule chunk_rep_cong) (simp add: h)
  show ?thesis
    using assms g f wr_flags_view [OF r(1)] unfolding represents_def sc cr lw by (simp add: h)
qed

section \<open>Life of a writer\<close>

lemma writer_init_rep:
  assumes "writer_init os iid addr b s csz nch = Inr w" "csz < 2 ^ 32" "nch < 2 ^ 32" "length b < 2 ^ 64"
  shows "writer_rep w (ring_init nch)" "length (mw_buf w) = length b" "chunk_size (header (mw_buf w)) = csz"
    "mw_dedup w = None" "init_buf os iid addr b s csz nch = Inr (mw_buf w)"
proof -
  from assms(1) have i: "init_buf os iid addr b s csz nch = Inr (mw_buf w)" and n: "mw_dedup w = None"
    by (auto simp: writer_init_def split: sum.splits)
  note ip = init_buf_props [OF i assms(2-4)]
  show "writer_rep w (ring_init nch)" using ip(2) n by (simp add: writer_rep_def)
  show "length (mw_buf w) = length b" "chunk_size (header (mw_buf w)) = csz" by (rule ip(1), rule ip(4))
  show "mw_dedup w = None" by (rule n)
  show "init_buf os iid addr b s csz nch = Inr (mw_buf w)" by (rule i)
qed

lemma writer_dedup_rep:
  assumes "writer_rep w s" "chunk_size (header (mw_buf w)) \<le> 2 ^ 31"
  shows "writer_rep (writer_dedup w) s" "length (mw_buf (writer_dedup w)) = length (mw_buf w)"
proof -
  have r: "represents (mw_buf w) s" using assms(1) by (simp add: writer_rep_def)
  have l: "128 \<le> length (mw_buf w)" by (rule table_geomD(1) [OF representsD(1) [OF r]])
  show "writer_rep (writer_dedup w) s"
    using represents_flags [OF r] assms(2)
    by (simp add: writer_rep_def writer_dedup_def dedup_inv_def wr_flags_header [OF l])
  show "length (mw_buf (writer_dedup w)) = length (mw_buf w)" using l by (simp add: writer_dedup_def)
qed

lemma writer_min_len_rep: "writer_rep (writer_set_min_dedup_len w n) s = writer_rep w s"
  by (auto simp: writer_rep_def writer_set_min_dedup_len_def dedup_inv_def split: option.split)

lemma writer_advance_rep:
  assumes "writer_rep w s" "ring_lap s + 1 < 2 ^ 64"
  shows "\<exists>w'. writer_advance_chunk os w = Some (\<not> chunk_pinned os (mw_buf w) (next_chunk (mw_buf w)), w') \<and>
    writer_rep w' (if chunk_pinned os (mw_buf w) (next_chunk (mw_buf w)) then s else ring_advance s)"
proof (cases "chunk_pinned os (mw_buf w) (next_chunk (mw_buf w))")
  have r: "represents (mw_buf w) s" using assms(1) by (simp add: writer_rep_def)
  note rd = representsD [OF r]
  {
    case True
    from represents_pinned [OF r True] obtain b' where
      b': "advance_chunk_raw_detailed os (mw_buf w) = Some (ReadersPinned, b')" "represents b' s" "cold_eq (mw_buf w) b'"
      "\<forall>i<num_chunks (header (mw_buf w)). chunk_view b' i = chunk_view (mw_buf w) i"
      "write_chunk (header b') = write_chunk (header (mw_buf w))" by blast
    have "dedup_inv b' st" if "mw_dedup w = Some st" for st
      using dedup_inv_pinned [OF rd(1,2,6) _ b'(3,5)] b'(4) rd(6) assms(1) that by (simp add: writer_rep_def)
    then show ?thesis using True b' 
      by (auto simp: writer_advance_chunk_def advance_chunk_raw_def writer_rep_def split: option.split)
  next
    case False
    from represents_recycled [OF r False assms(2)] obtain b' where
      b': "advance_chunk_raw_detailed os (mw_buf w) = Some (Advanced, b')" "represents b' (ring_advance s)"
      "cold_eq (mw_buf w) b'" by blast
    have "dedup_inv b' (dedup_clear st)" if "mw_dedup w = Some st" for st
      using assms(1) that cold_eq_header(3) [OF b'(3)] by (simp add: dedup_inv_clear writer_rep_def dedup_inv_def)
    then show ?thesis using False b'
      by (auto simp: writer_advance_chunk_def advance_chunk_raw_def writer_rep_def split: option.split)
  }
qed

end
