(* ===== verification/Writer_Equiv.thy ===== *)
theory Writer_Equiv
  imports Table_Writer
begin

text \<open>
  The streaming \<open>RowWriter\<close> against the batch writers: putting the values of a row one by one and
  calling \<open>finish\<close> leaves the same buffer (and the same dedup map) as \<open>append_row\<close>, reports \<open>false\<close> in
  the same cases, and in those leaves the published part of the table alone.
\<close>

section \<open>The fields a row is written as\<close>

definition row_fields :: "hasher \<Rightarrow> DedupState option \<Rightarrow> buf \<Rightarrow> usize \<Rightarrow> nat \<Rightarrow> Value list \<Rightarrow>
   (nat \<times> Value \<times> usize option) list" where
  "row_fields xxh3 ded b cs k vs = map (\<lambda>(i, v). (i, v,
     (case ded of Some st \<Rightarrow> value_lookup xxh3 st b cs i v | None \<Rightarrow> None))) (enumerate k vs)"

lemma row_fields_simps [simp]:
  "row_fields xxh3 ded b cs k [] = []"
  "row_fields xxh3 ded b cs k (v # vs) =
     (k, v, (case ded of Some st \<Rightarrow> value_lookup xxh3 st b cs k v | None \<Rightarrow> None)) # row_fields xxh3 ded b cs (Suc k) vs"
  by (simp_all add: row_fields_def)

text \<open>The dedup entries a row stages, and the timestamp it captures.\<close>

fun staged :: "hasher \<Rightarrow> usize \<Rightarrow> usize \<Rightarrow> (nat \<times> Value \<times> usize option) list \<Rightarrow> usize \<Rightarrow> (u64 \<times> usize) list" where
  "staged xxh3 m cs [] off = []"
| "staged xxh3 m cs ((i, v, dup) # fs) off =
    (case (var_data v, dup) of
       (Some data, None) \<Rightarrow> if m \<le> length data then [(dedup_key xxh3 i data, off - cs)] else []
     | _ \<Rightarrow> []) @ staged xxh3 m cs fs (off + field_size (i, v, dup))"

fun captured :: "nat \<Rightarrow> nat \<Rightarrow> i64 option \<Rightarrow> Value list \<Rightarrow> i64 option" where
  "captured tsc k t [] = t"
| "captured tsc k t (v # vs) =
    captured tsc (Suc k) (case v of VI64 x \<Rightarrow> if tsc = k + 1 then Some x else t | _ \<Rightarrow> t) vs"

lemma captured_past: "tsc \<le> k \<Longrightarrow> captured tsc k t vs = t"
  by (induction vs arbitrary: k t) (auto split: Value.split)

lemma captured_row_ts:
  "k < tsc \<Longrightarrow> captured tsc k None vs =
    (if tsc - 1 - k < length vs then (case vs ! (tsc - 1 - k) of VI64 x \<Rightarrow> Some x | _ \<Rightarrow> None) else None)"
proof (induction vs arbitrary: k)
  case (Cons v vs)
  show ?case
  proof (cases "tsc = k + 1")
    case True
    then show ?thesis using captured_past [of tsc "Suc k"] by (cases v) auto
  next
    case False
    with Cons.prems have "tsc - 1 - k = Suc (tsc - 1 - Suc k)" "Suc k < tsc" by auto
    then show ?thesis using Cons.IH [of "Suc k"] False by (cases v) auto
  qed
qed simp

lemma captured_eq: "captured (ts_col h) 0 None vs = row_ts h vs"
proof (cases "ts_col h = 0")
  case True
  then show ?thesis using captured_past [of "ts_col h" 0 None vs] by (simp add: row_ts_def)
next
  case False
  then show ?thesis using captured_row_ts [of 0 "ts_col h" vs] by (simp add: row_ts_def)
qed

section \<open>Lookups during the row\<close>

lemma dedup_lookup_cong:
  assumes "seen_ok b cs u st" "length b' = length b" "cs + CHUNK_HEADER_SIZE + u \<le> length b"
    and "bslice (cs + CHUNK_HEADER_SIZE) u b' = bslice (cs + CHUNK_HEADER_SIZE) u b"
  shows "dedup_lookup xxh3 st col data b' cs = dedup_lookup xxh3 st col data b cs"
proof (cases "seen st (dedup_key xxh3 col data)")
  case (Some off)
  have lp: "lp_at b cs u off" using assms(1) Some by (auto simp: seen_ok_def)
  let ?k = "off - CHUNK_HEADER_SIZE"
  have k: "cs + off = cs + CHUNK_HEADER_SIZE + ?k" "?k + (4 + rd (cs + off) 4 b) \<le> u"
    using lp by (auto simp: lp_at_def)
  have s: "bslice (cs + off + j) n b' = bslice (cs + off + j) n b" if "j + n \<le> 4 + rd (cs + off) 4 b" for j n
  proof -
    have "(?k + j) + n \<le> u" using k(2) that by simp
    from slice_slice [OF this, of "cs + CHUNK_HEADER_SIZE"] assms(4) show ?thesis
      using k(1) by (metis add.assoc)
  qed
  have len: "le_nat (bslice (cs + off) 4 b') = le_nat (bslice (cs + off) 4 b)" using s [of 0 4] by simp
  have val: "bslice (cs + off + 4) (le_nat (bslice (cs + off) 4 b)) b' = bslice (cs + off + 4) (le_nat (bslice (cs + off) 4 b)) b"
    using s [of 4 "le_nat (bslice (cs + off) 4 b)"] by (simp add: rd_def)
  show ?thesis
    using Some len val assms(2)
    by (simp add: dedup_lookup_def checked_add_def get_range_def split: if_splits)
qed (simp add: dedup_lookup_def)

section \<open>A row that fits\<close>

text \<open>
  What a writer looks like while a row is written: \<open>st\<close> is the dedup map at the start of the row,
  \<open>b\<close> the buffer at the start, \<open>u\<close> its published extent.
\<close>

definition mid_row :: "buf \<Rightarrow> DedupState option \<Rightarrow> usize \<Rightarrow> RowWriter \<Rightarrow> bool" where
  "mid_row b ded u w \<longleftrightarrow> \<not> rw_overflow w \<and> \<not> rw_done w \<and> length (rw_buf w) = length b \<and>
     rw_chunk_start w + rw_chunk_size w \<le> length b \<and>
     rw_chunk_start w + CHUNK_HEADER_SIZE + u \<le> length b \<and>
     rw_chunk_start w + CHUNK_HEADER_SIZE + u \<le> rw_pos w \<and>
     bslice (rw_chunk_start w + CHUNK_HEADER_SIZE) u (rw_buf w) = bslice (rw_chunk_start w + CHUNK_HEADER_SIZE) u b \<and>
     (case ded of
        None \<Rightarrow> rw_dedup w = None
      | Some st \<Rightarrow> seen_ok b (rw_chunk_start w) u st \<and>
          (\<exists>p. rw_dedup w = Some (st\<lparr>pending := p\<rparr>)))"

definition capture :: "RowWriter \<Rightarrow> Value \<Rightarrow> i64 option" where
  "capture w v = (case v of VI64 x \<Rightarrow> if rw_ts_col w = rw_col_idx w + 1 then Some x else rw_pending_ts w
     | _ \<Rightarrow> rw_pending_ts w)"

definition put_field :: "hasher \<Rightarrow> RowWriter \<Rightarrow> nat \<times> Value \<times> usize option \<Rightarrow> RowWriter" where
  "put_field xxh3 w f = (case f of (i, v, dup) \<Rightarrow>
     w\<lparr>rw_buf := bsplice (rw_pos w) (field_bytes f) (rw_buf w),
       rw_pos := rw_pos w + field_size f,
       rw_dedup := map_option (\<lambda>d. d\<lparr>pending := pending d @
          staged xxh3 (min_dedup_len d) (rw_chunk_start w) [f] (rw_pos w)\<rparr>) (rw_dedup w),
       rw_col_idx := rw_col_idx w + 1,
       rw_pending_ts := capture w v\<rparr>)"

definition next_field :: "hasher \<Rightarrow> DedupState option \<Rightarrow> buf \<Rightarrow> RowWriter \<Rightarrow> Value \<Rightarrow> nat \<times> Value \<times> usize option" where
  "next_field xxh3 ded b w v = (rw_col_idx w, v,
     (case ded of Some st \<Rightarrow> value_lookup xxh3 st b (rw_chunk_start w) (rw_col_idx w) v | None \<Rightarrow> None))"

lemma write_raw_fits:
  assumes "\<not> rw_overflow w" "rw_pos w + length bs \<le> rw_chunk_start w + rw_chunk_size w"
    and "rw_chunk_start w + rw_chunk_size w \<le> length (rw_buf w)"
  shows "write_raw w bs = Some (w\<lparr>rw_buf := bsplice (rw_pos w) bs (rw_buf w), rw_pos := rw_pos w + length bs\<rparr>)"
  using assms by (simp add: write_raw_def can_write_def copy_at_def)

lemma write_lp_fits:
  assumes "\<not> rw_overflow w" "rw_pos w + (4 + length data) \<le> rw_chunk_start w + rw_chunk_size w"
    and "rw_chunk_start w + rw_chunk_size w \<le> length (rw_buf w)"
  shows "write_lp w data = Some (w\<lparr>rw_buf := bsplice (rw_pos w) (le_bytes 4 (length data) @ data) (rw_buf w),
     rw_pos := rw_pos w + (4 + length data)\<rparr>)"
proof -
  have "w32 (rw_buf w) (rw_pos w) (length data) = Some (wr (rw_pos w) 4 (length data) (rw_buf w))"
    using assms by (intro w32_in) simp
  moreover have "bsplice (rw_pos w + 4) data (wr (rw_pos w) 4 (length data) (rw_buf w)) =
      bsplice (rw_pos w) (le_bytes 4 (length data) @ data) (rw_buf w)"
    using splice_splice_adjacent [of "rw_pos w" "le_bytes 4 (length data)" data "rw_buf w"] assms
    by (simp add: wr_def)
  ultimately show ?thesis using assms by (simp add: write_lp_def can_write_def copy_at_def)
qed

lemma put_value_scalar:
  "var_data v = None \<Longrightarrow>
   put_value xxh3 w v = map_option next_col (write_raw (w\<lparr>rw_pending_ts := capture w v\<rparr>) (value_bytes v))"
  by (cases v) (simp_all add: capture_def)

lemma put_value_fits:
  assumes "mid_row b ded u w" "rw_pos w + field_size (next_field xxh3 ded b w v) \<le> rw_chunk_start w + rw_chunk_size w"
  shows "put_value xxh3 w v = Some (put_field xxh3 w (next_field xxh3 ded b w v))"
proof -
  note m = assms(1) [unfolded mid_row_def]
  have lookup: "dedup_lookup xxh3 st col data (rw_buf w) (rw_chunk_start w) =
      dedup_lookup xxh3 st col data b (rw_chunk_start w)" if "ded = Some st" for st col data
    using dedup_lookup_cong [of b "rw_chunk_start w" u st "rw_buf w"] m that by simp
  show ?thesis
  proof (cases "var_data v")
    case None
    then have f: "next_field xxh3 ded b w v = (rw_col_idx w, v, None)"
      by (cases ded) (simp_all add: next_field_def value_lookup_def)
    have fits: "rw_pos w + length (value_bytes v) \<le> rw_chunk_start w + rw_chunk_size w" using assms(2) f by simp
    have "write_raw (w\<lparr>rw_pending_ts := capture w v\<rparr>) (value_bytes v) =
        Some (w\<lparr>rw_pending_ts := capture w v, rw_buf := bsplice (rw_pos w) (value_bytes v) (rw_buf w),
                 rw_pos := rw_pos w + encoded_size v\<rparr>)"
      using fits m by (subst write_raw_fits) simp_all
    then show ?thesis
      unfolding put_value_scalar [OF None] f
      by (cases "rw_dedup w") (simp_all add: put_field_def next_col_def None)
  next
    case (Some data)
    have pv: "put_value xxh3 w v = put_var xxh3 w data" using Some by (cases v) auto
    have vb: "value_bytes v = le_bytes 4 (length data) @ data" and es: "encoded_size v = 4 + length data"
      using Some by (cases v; auto)+
    have ts: "capture w v = rw_pending_ts w" using Some by (cases v) (auto simp: capture_def)
    show ?thesis
    proof (cases ded)
      case None
      then have f: "next_field xxh3 ded b w v = (rw_col_idx w, v, None)" by (simp add: next_field_def)
      have "rw_dedup w = None" using m None by simp
      then show ?thesis
        using assms(2) m write_lp_fits [of w data] es
        unfolding f pv by (simp add: put_var_def put_field_def next_col_def vb ts)
    next
      case ds: (Some st)
      then obtain p where p: "rw_dedup w = Some (st\<lparr>pending := p\<rparr>)" using m by auto
      let ?l = "dedup_lookup xxh3 st (rw_col_idx w) data b (rw_chunk_start w)"
      have f: "next_field xxh3 ded b w v = (rw_col_idx w, v, ?l)"
        using ds Some by (simp add: next_field_def value_lookup_def)
      show ?thesis
      proof (cases ?l)
        case None
        then show ?thesis
          using assms(2) m p write_lp_fits [of w data] es lookup [OF ds]
          unfolding f pv
          by (simp add: put_var_def write_str_dedup_def put_field_def next_col_def vb ts Some stage_insert_def Let_def)
      next
        case (Some off)
        then show ?thesis
          using assms(2) m p write_raw_fits [of w "ref_bytes off"] lookup [OF ds] \<open>var_data v = Some data\<close>
          unfolding f pv
          by (simp add: put_var_def write_str_dedup_def put_field_def next_col_def ts ref_bytes_def)
      qed
    qed
  qed
qed


definition put_fields :: "hasher \<Rightarrow> RowWriter \<Rightarrow> (nat \<times> Value \<times> usize option) list \<Rightarrow> RowWriter" where
  "put_fields xxh3 w fs =
     w\<lparr>rw_buf := bsplice (rw_pos w) (concat (map field_bytes fs)) (rw_buf w),
       rw_pos := rw_pos w + sum_list (map field_size fs),
       rw_dedup := map_option (\<lambda>d. d\<lparr>pending := pending d @
          staged xxh3 (min_dedup_len d) (rw_chunk_start w) fs (rw_pos w)\<rparr>) (rw_dedup w),
       rw_col_idx := rw_col_idx w + length fs,
       rw_pending_ts := captured (rw_ts_col w) (rw_col_idx w) (rw_pending_ts w) (map (fst \<circ> snd) fs)\<rparr>"

lemma mid_row_put_field:
  assumes "mid_row b ded u w" "rw_pos w + field_size f \<le> rw_chunk_start w + rw_chunk_size w"
  shows "mid_row b ded u (put_field xxh3 w f)"
proof -
  note m = assms(1) [unfolded mid_row_def]
  obtain i v dup where f: "f = (i, v, dup)" by (cases f)
  have "rw_pos w + length (field_bytes f) \<le> length (rw_buf w)" using m assms(2) by simp
  moreover from this have "bslice (rw_chunk_start w + CHUNK_HEADER_SIZE) u (bsplice (rw_pos w) (field_bytes f) (rw_buf w)) =
      bslice (rw_chunk_start w + CHUNK_HEADER_SIZE) u (rw_buf w)"
    using m by (intro slice_splice_other) auto
  moreover have "case ded of None \<Rightarrow> rw_dedup (put_field xxh3 w f) = None
      | Some st \<Rightarrow> seen_ok b (rw_chunk_start w) u st \<and> (\<exists>p. rw_dedup (put_field xxh3 w f) = Some (st\<lparr>pending := p\<rparr>))"
    using m by (cases ded) (auto simp: put_field_def f)
  moreover have "rw_chunk_start (put_field xxh3 w f) = rw_chunk_start w" "rw_chunk_size (put_field xxh3 w f) = rw_chunk_size w"
    "rw_buf (put_field xxh3 w f) = bsplice (rw_pos w) (field_bytes f) (rw_buf w)"
    "rw_pos (put_field xxh3 w f) = rw_pos w + field_size f"
    "rw_overflow (put_field xxh3 w f) = rw_overflow w" "rw_done (put_field xxh3 w f) = rw_done w"
    by (simp_all add: put_field_def f)
  ultimately show ?thesis using m unfolding mid_row_def by (cases ded) simp_all
qed

lemma put_fields_Cons:
  assumes "rw_pos w + (field_size f + sum_list (map field_size fs)) \<le> length (rw_buf w)"
  shows "put_fields xxh3 (put_field xxh3 w f) fs = put_fields xxh3 w (f # fs)"
proof -
  obtain i v dup where f: "f = (i, v, dup)" by (cases f)
  have "bsplice (rw_pos w + length (field_bytes f)) (concat (map field_bytes fs)) (bsplice (rw_pos w) (field_bytes f) (rw_buf w)) =
      bsplice (rw_pos w) (field_bytes f @ concat (map field_bytes fs)) (rw_buf w)"
    using assms by (intro splice_splice_adjacent) (simp add: length_concat o_def)
  moreover have "captured (rw_ts_col w) (Suc (rw_col_idx w)) (capture w v) vs =
      captured (rw_ts_col w) (rw_col_idx w) (rw_pending_ts w) (v # vs)" for vs
    by (simp add: capture_def)
  ultimately show ?thesis
    by (cases "rw_dedup w") (simp_all add: put_fields_def put_field_def f add.assoc del: captured.simps)
qed

lemma put_values_fits:
  assumes "mid_row b ded u w"
    and "rw_pos w + sum_list (map field_size (row_fields xxh3 ded b (rw_chunk_start w) (rw_col_idx w) vs))
       \<le> rw_chunk_start w + rw_chunk_size w"
  shows "put_values xxh3 w vs = Some (put_fields xxh3 w (row_fields xxh3 ded b (rw_chunk_start w) (rw_col_idx w) vs))"
  using assms
proof (induction vs arbitrary: w)
  case Nil
  then show ?case by (cases "rw_dedup w") (simp_all add: put_fields_def)
next
  case (Cons v vs)
  let ?f = "next_field xxh3 ded b w v"
  let ?fs = "row_fields xxh3 ded b (rw_chunk_start w) (Suc (rw_col_idx w)) vs"
  have rf: "row_fields xxh3 ded b (rw_chunk_start w) (rw_col_idx w) (v # vs) = ?f # ?fs"
    by (simp add: next_field_def)
  have fits: "rw_pos w + (field_size ?f + sum_list (map field_size ?fs)) \<le> rw_chunk_start w + rw_chunk_size w"
    using Cons.prems(2) unfolding rf by simp
  let ?w = "put_field xxh3 w ?f"
  have pf: "rw_chunk_start ?w = rw_chunk_start w" "rw_col_idx ?w = Suc (rw_col_idx w)"
    "rw_pos ?w = rw_pos w + field_size ?f" "rw_chunk_size ?w = rw_chunk_size w"
    by (simp_all add: put_field_def next_field_def)
  have "put_value xxh3 w v = Some ?w" using fits by (intro put_value_fits [OF Cons.prems(1)]) simp
  moreover have "put_values xxh3 ?w vs = Some (put_fields xxh3 ?w ?fs)"
    using Cons.IH [of ?w] mid_row_put_field [OF Cons.prems(1)] fits unfolding pf by simp
  moreover have "put_fields xxh3 ?w ?fs = put_fields xxh3 w (?f # ?fs)"
    using fits Cons.prems(1) by (intro put_fields_Cons) (simp add: mid_row_def)
  ultimately show ?case unfolding rf by simp
qed

section \<open>A row that does not fit\<close>

lemma put_value_overflows:
  assumes "rw_overflow w \<or> (mid_row b ded u w \<and>
     rw_chunk_start w + rw_chunk_size w < rw_pos w + field_size (next_field xxh3 ded b w v))"
  shows "\<exists>w'. put_value xxh3 w v = Some w' \<and> rw_overflow w' \<and> rw_buf w' = rw_buf w \<and>
    rw_done w' = rw_done w \<and> rw_dedup w' = rw_dedup w"
proof -
  have raw: "\<not> can_write w (length bs) \<Longrightarrow> write_raw w bs = Some (w\<lparr>rw_overflow := True\<rparr>)" for bs
    by (simp add: write_raw_def)
  have lp: "\<not> can_write w (4 + length bs) \<Longrightarrow> write_lp w bs = Some (w\<lparr>rw_overflow := True\<rparr>)" for bs
    by (simp add: write_lp_def)
  have cw: "\<not> can_write w (field_size (next_field xxh3 ded b w v))"
    if "\<not> rw_overflow w" using assms that by (auto simp: can_write_def)
  show ?thesis
  proof (cases "var_data v")
    case None
    let ?w = "w\<lparr>rw_pending_ts := capture w v\<rparr>"
    have "\<not> can_write ?w (length (value_bytes v))"
    proof (cases "rw_overflow w")
      case False
      have "next_field xxh3 ded b w v = (rw_col_idx w, v, None)"
        using None by (cases ded) (simp_all add: next_field_def value_lookup_def)
      with cw [OF False] show ?thesis by (simp add: can_write_def)
    qed (simp add: can_write_def)
    then show ?thesis unfolding put_value_scalar [OF None] by (simp add: write_raw_def next_col_def)
  next
    case (Some data)
    have pv: "put_value xxh3 w v = put_var xxh3 w data" using Some by (cases v) auto
    have es: "encoded_size v = 4 + length data" using Some by (cases v; auto)
    show ?thesis
    proof (cases "rw_overflow w")
      case True
      then have "\<not> can_write w (4 + length data)" by (simp add: can_write_def)
      from lp [OF this] True show ?thesis
        by (auto simp: pv put_var_def write_str_dedup_def next_col_def)
    next
      case False
      then have mid: "mid_row b ded u w" using assms by blast
      note m = mid [unfolded mid_row_def]
      note cw = cw [OF False]
      show ?thesis
      proof (cases ded)
        case None
        have "rw_dedup w = None" using m None by simp
        moreover have "\<not> can_write w (4 + length data)" using cw es None by (simp add: next_field_def)
        ultimately show ?thesis using lp by (simp add: pv put_var_def next_col_def)
      next
        case ds: (Some st)
        then obtain p where p: "rw_dedup w = Some (st\<lparr>pending := p\<rparr>)" using m by auto
        let ?l = "dedup_lookup xxh3 st (rw_col_idx w) data b (rw_chunk_start w)"
        have l: "dedup_lookup xxh3 (st\<lparr>pending := p\<rparr>) (rw_col_idx w) data (rw_buf w) (rw_chunk_start w) = ?l"
          using dedup_lookup_cong [of b "rw_chunk_start w" u st "rw_buf w"] m ds by simp
        have f: "next_field xxh3 ded b w v = (rw_col_idx w, v, ?l)"
          using ds Some by (simp add: next_field_def value_lookup_def)
        show ?thesis
        proof (cases ?l)
          case None
          then have "\<not> can_write w (4 + length data)" using cw es by (simp add: f)
          from lp [OF this] show ?thesis using None p l False
            by (simp add: pv put_var_def write_str_dedup_def next_col_def Let_def)
        next
          case (Some off)
          then have "\<not> can_write w (length (ref_bytes off))" using cw by (simp add: f ref_bytes_def)
          from raw [OF this] show ?thesis using Some p l False
            by (simp add: pv put_var_def write_str_dedup_def next_col_def)
        qed
      qed
    qed
  qed
qed

lemma put_values_overflowed:
  "rw_overflow w \<Longrightarrow> \<exists>w'. put_values xxh3 w vs = Some w' \<and> rw_overflow w' \<and> rw_buf w' = rw_buf w \<and>
    rw_done w' = rw_done w \<and> rw_dedup w' = rw_dedup w"
proof (induction vs arbitrary: w)
  case (Cons v vs)
  from put_value_overflows [of w] Cons.prems obtain w1 where
    "put_value xxh3 w v = Some w1" "rw_overflow w1" "rw_buf w1 = rw_buf w" "rw_done w1 = rw_done w" "rw_dedup w1 = rw_dedup w"
    by blast
  with Cons.IH [of w1] show ?case by simp
qed simp

lemma put_values_too_big:
  assumes "mid_row b ded u w" "vs \<noteq> []"
    and "rw_chunk_start w + rw_chunk_size w <
       rw_pos w + sum_list (map field_size (row_fields xxh3 ded b (rw_chunk_start w) (rw_col_idx w) vs))"
  shows "\<exists>w' bs. put_values xxh3 w vs = Some w' \<and> rw_overflow w' \<and> \<not> rw_done w' \<and>
    rw_buf w' = bsplice (rw_pos w) bs (rw_buf w) \<and> (bs \<noteq> [] \<longrightarrow> rw_pos w + length bs \<le> rw_chunk_start w + rw_chunk_size w) \<and>
    map_option (\<lambda>d. d\<lparr>pending := []\<rparr>) (rw_dedup w') = map_option (\<lambda>d. d\<lparr>pending := []\<rparr>) (rw_dedup w)"
  using assms
proof (induction vs arbitrary: w)
  case (Cons v vs)
  let ?f = "next_field xxh3 ded b w v"
  let ?fs = "row_fields xxh3 ded b (rw_chunk_start w) (Suc (rw_col_idx w)) vs"
  let ?lim = "rw_chunk_start w + rw_chunk_size w"
  have nd: "\<not> rw_done w" using Cons.prems(1) by (simp add: mid_row_def)
  show ?case
  proof (cases "?lim < rw_pos w + field_size ?f")
    case True
    with put_value_overflows [of w b ded u] Cons.prems(1) obtain w1 where
      w1: "put_value xxh3 w v = Some w1" "rw_overflow w1" "rw_buf w1 = rw_buf w" "rw_done w1 = rw_done w" "rw_dedup w1 = rw_dedup w"
      by blast
    with put_values_overflowed [of w1 xxh3 vs] nd show ?thesis by (auto intro!: exI [of _ "[]"])
  next
    case False
    let ?w = "put_field xxh3 w ?f"
    have pf: "rw_chunk_start ?w = rw_chunk_start w" "rw_col_idx ?w = Suc (rw_col_idx w)"
      "rw_pos ?w = rw_pos w + field_size ?f" "rw_chunk_size ?w = rw_chunk_size w"
      "rw_buf ?w = bsplice (rw_pos w) (field_bytes ?f) (rw_buf w)"
      "map_option (\<lambda>d. d\<lparr>pending := []\<rparr>) (rw_dedup ?w) = map_option (\<lambda>d. d\<lparr>pending := []\<rparr>) (rw_dedup w)"
      by (simp_all add: put_field_def next_field_def option.map_comp o_def)
    have p: "put_value xxh3 w v = Some ?w" using False by (intro put_value_fits [OF Cons.prems(1)]) simp
    have big: "?lim < rw_pos w + field_size ?f + sum_list (map field_size ?fs)"
      using Cons.prems(3) by (simp add: next_field_def)
    then have "vs \<noteq> []" using False by auto
    moreover have "mid_row b ded u ?w" using False by (intro mid_row_put_field [OF Cons.prems(1)]) simp
    ultimately obtain w' bs where
      w': "put_values xxh3 ?w vs = Some w'" "rw_overflow w'" "\<not> rw_done w'"
      "rw_buf w' = bsplice (rw_pos w + length (field_bytes ?f)) bs (bsplice (rw_pos w) (field_bytes ?f) (rw_buf w))"
      "bs \<noteq> [] \<longrightarrow> rw_pos w + field_size ?f + length bs \<le> ?lim"
      "map_option (\<lambda>d. d\<lparr>pending := []\<rparr>) (rw_dedup w') = map_option (\<lambda>d. d\<lparr>pending := []\<rparr>) (rw_dedup w)"
      using Cons.IH [of ?w] big unfolding pf length_field_bytes by blast
    have "rw_buf w' = bsplice (rw_pos w) (field_bytes ?f @ bs) (rw_buf w)"
    proof (cases "bs = []")
      case False
      then show ?thesis
        using w'(4,5) splice_splice_adjacent [of "rw_pos w" "field_bytes ?f" bs "rw_buf w"] Cons.prems(1)
        by (simp add: mid_row_def)
    qed (simp add: w'(4))
    then show ?thesis using p w' False by (intro exI [of _ w'] exI [of _ "field_bytes ?f @ bs"]) (cases "bs = []"; simp)
  qed
qed simp


section \<open>Finishing the row\<close>

lemma mid_row_start:
  assumes "table_geom b" "chunks_fit b" "write_chunk (header b) < num_chunks (header b)"
    and "case ded of Some st \<Rightarrow> dedup_inv b st | None \<Rightarrow> True"
  shows "mid_row b (map_option begin_row ded) (used (chunk_hdr b (write_chunk (header b)))) (make_row_writer b ded)"
proof -
  let ?i = "write_chunk (header b)"
  have cb: "chunk_start_off b ?i + chunk_size (header b) \<le> length b" by (rule chunk_bounds(3) [OF assms(1,3)])
  have "used (chunk_hdr b ?i) \<le> chunk_size (header b) - 40" by (rule chunks_fitD [OF assms(2,3)])
  then have "chunk_start_off b ?i + CHUNK_HEADER_SIZE + used (chunk_hdr b ?i) \<le> length b"
    using cb geom_chunk_size [OF assms(1)] by (simp add: layout_consts)
  moreover have "\<exists>p. begin_row st = (begin_row st)\<lparr>pending := p\<rparr>" for st
    by (intro exI [of _ "[]"]) (simp add: begin_row_def)
  ultimately show ?thesis
    using cb assms(4) by (cases ded) (auto simp: mid_row_def make_row_writer_def Let_def chunk_start_off_def dedup_inv_def)
qed

lemma value_lookup_begin: "value_lookup xxh3 (begin_row st) = value_lookup xxh3 st"
  unfolding value_lookup_def [abs_def] begin_row_def dedup_lookup_pending by (rule refl)

lemma row_fields_begin: "row_fields xxh3 (map_option begin_row ded) b cs k vs = row_fields xxh3 ded b cs k vs"
  by (cases ded) (simp_all add: row_fields_def value_lookup_begin)

definition writer_row_size :: "hasher \<Rightarrow> DedupState option \<Rightarrow> buf \<Rightarrow> Value list \<Rightarrow> usize" where
  "writer_row_size xxh3 ded b vs =
     sum_list (map field_size (row_fields xxh3 ded b (chunk_start_off b (write_chunk (header b))) 0 vs))"

lemma splice_before:
  assumes "length xs = k" "off + k + length bs \<le> length b"
  shows "bsplice off xs (bsplice (off + k) bs b) = bsplice off (xs @ bs) b"
  using assms by (simp add: bsplice_def min_def ac_simps)

text \<open>The row as \<open>put_*\<close> and \<open>finish\<close> leave it when it fits.\<close>

lemma row_writer_fits:
  fixes xxh3 :: hasher and vs :: "Value list" and ded :: "DedupState option"
  assumes "table_geom b" "chunks_fit b" "write_chunk (header b) < num_chunks (header b)"
    and "case ded of Some st \<Rightarrow> dedup_inv b st | None \<Rightarrow> True"
    and "row_fits b (writer_row_size xxh3 ded b vs)"
  defines "cs \<equiv> chunk_start_off b (write_chunk (header b))"
  defines "u \<equiv> used (chunk_hdr b (write_chunk (header b)))"
  defines "fs \<equiv> row_fields xxh3 ded b cs 0 vs"
  shows "\<exists>w1 w2. put_values xxh3 (make_row_writer b ded) vs = Some w1 \<and> finish w1 = Some (True, w2) \<and>
    rw_done w2 \<and>
    rw_buf w2 = publish_row (bsplice (cs + 40 + u) (frame (concat (map field_bytes fs))) b) cs (row_ts (header b) vs)
      (u + (4 + writer_row_size xxh3 ded b vs)) \<and>
    rw_dedup w2 = map_option (\<lambda>st. st\<lparr>seen := foldl (\<lambda>m (k, off). m(k \<mapsto> off)) (seen st)
       (staged xxh3 (min_dedup_len st) cs fs (cs + 40 + u + 4)), pending := []\<rparr>) ded"
proof -
  let ?w = "make_row_writer b ded" and ?n = "writer_row_size xxh3 ded b vs"
  let ?bs = "concat (map field_bytes fs)"
  have w: "rw_buf ?w = b" "rw_chunk_start ?w = cs" "rw_pos ?w = cs + 40 + u + 4" "rw_chunk_size ?w = chunk_size (header b)"
    "rw_col_idx ?w = 0" "rw_row_start ?w = cs + 40 + u" "rw_ts_col ?w = ts_col (header b)" "rw_pending_ts ?w = None"
    "rw_dedup ?w = map_option begin_row ded" "\<not> rw_overflow ?w" "\<not> rw_done ?w"
    by (simp_all add: make_row_writer_def Let_def cs_def u_def chunk_start_off_def layout_consts)
  have room: "40 + u + (4 + ?n) \<le> chunk_size (header b)" using assms(5) by (simp add: row_fits_def u_def layout_consts)
  have inb: "cs + chunk_size (header b) \<le> length b" unfolding cs_def by (rule chunk_bounds(3) [OF assms(1,3)])
  have n: "sum_list (map field_size fs) = ?n" by (simp add: fs_def writer_row_size_def cs_def)
  have ln: "length ?bs = ?n" by (simp add: length_concat_fields n)
  have p: "put_values xxh3 ?w vs = Some (put_fields xxh3 ?w fs)"
    using put_values_fits [OF mid_row_start [OF assms(1-4)], of xxh3 vs] room n
    unfolding w row_fields_begin fs_def [symmetric] by simp
  let ?w1 = "put_fields xxh3 ?w fs"
  have fsv: "map (fst \<circ> snd) fs = vs" by (simp add: fs_def row_fields_def o_def case_prod_beta map_snd_enumerate)
  have w1: "rw_buf ?w1 = bsplice (cs + 40 + u + 4) ?bs b" "rw_pos ?w1 = cs + 40 + u + 4 + ?n"
    "rw_row_start ?w1 = cs + 40 + u" "rw_chunk_start ?w1 = cs" "\<not> rw_overflow ?w1" "\<not> rw_done ?w1"
    "rw_pending_ts ?w1 = row_ts (header b) vs"
    by (simp_all add: put_fields_def w n fsv captured_eq)
  have d1: "map_option commit_row (rw_dedup ?w1) = map_option (\<lambda>st. st\<lparr>seen := foldl (\<lambda>m (k, off). m(k \<mapsto> off)) (seen st)
       (staged xxh3 (min_dedup_len st) cs fs (cs + 40 + u + 4)), pending := []\<rparr>) ded"
  proof -
    have "rw_dedup ?w1 = map_option (\<lambda>st. st\<lparr>pending := staged xxh3 (min_dedup_len st) cs fs (cs + 40 + u + 4)\<rparr>) ded"
      by (simp add: put_fields_def w(2,3,9) option.map_comp o_def begin_row_def)
    then show ?thesis by (simp only: option.map_comp o_def) (simp add: commit_row_def)
  qed
  have hdr: "w32 (rw_buf ?w1) (cs + 40 + u) ?n = Some (bsplice (cs + 40 + u) (frame ?bs) b)"
  proof -
    have "w32 (rw_buf ?w1) (cs + 40 + u) ?n = Some (wr (cs + 40 + u) 4 ?n (rw_buf ?w1))"
      using room inb ln by (intro w32_in) (simp add: w1)
    moreover have "wr (cs + 40 + u) 4 ?n (bsplice (cs + 40 + u + 4) ?bs b) = bsplice (cs + 40 + u) (frame ?bs) b"
      unfolding wr_def frame_def ln using room inb ln
      by (intro splice_before) simp_all
    ultimately show ?thesis by (simp add: w1)
  qed
  have "rw_pos ?w1 - rw_row_start ?w1 - 4 = ?n" "rw_pos ?w1 - rw_chunk_start ?w1 - CHUNK_HEADER_SIZE = u + (4 + ?n)"
    by (simp_all add: w1 layout_consts)
  then have "finish ?w1 = Some (True, ?w1\<lparr>rw_done := True,
      rw_buf := publish_row (bsplice (cs + 40 + u) (frame ?bs) b) cs (row_ts (header b) vs) (u + (4 + ?n)),
      rw_dedup := map_option commit_row (rw_dedup ?w1)\<rparr>)"
    using hdr w1 by (simp add: finish_def)
  then show ?thesis using p d1 by auto
qed


lemma row_writer_too_big:
  assumes "table_geom b" "chunks_fit b" "write_chunk (header b) < num_chunks (header b)"
    and "case ded of Some st \<Rightarrow> dedup_inv b st | None \<Rightarrow> True"
    and "\<not> row_fits b (writer_row_size xxh3 ded b vs)" "vs \<noteq> []"
  shows "\<exists>w1 w2. put_values xxh3 (make_row_writer b ded) vs = Some w1 \<and> finish w1 = Some (False, w2) \<and>
    chunk_only b (rw_buf w2) (write_chunk (header b)) \<and>
    chunk_view (rw_buf w2) (write_chunk (header b)) = chunk_view b (write_chunk (header b)) \<and>
    rw_dedup w2 = map_option begin_row ded"
proof -
  let ?w = "make_row_writer b ded" and ?i = "write_chunk (header b)"
  let ?cs = "chunk_start_off b ?i" and ?u = "used (chunk_hdr b ?i)"
  have w: "rw_buf ?w = b" "rw_chunk_start ?w = ?cs" "rw_pos ?w = ?cs + 40 + ?u + 4" "rw_chunk_size ?w = chunk_size (header b)"
    "rw_col_idx ?w = 0" "rw_dedup ?w = map_option begin_row ded"
    by (simp_all add: make_row_writer_def Let_def chunk_start_off_def layout_consts)
  have inb: "?cs + chunk_size (header b) \<le> length b" by (rule chunk_bounds(3) [OF assms(1,3)])
  have big: "?cs + chunk_size (header b) < ?cs + 40 + ?u + 4 + writer_row_size xxh3 ded b vs"
    using assms(5) by (simp add: row_fits_def layout_consts)
  from put_values_too_big [OF mid_row_start [OF assms(1-4)] assms(6), of xxh3] big obtain w1 bs where
    w1: "put_values xxh3 ?w vs = Some w1" "rw_overflow w1" "\<not> rw_done w1"
    "rw_buf w1 = bsplice (?cs + 40 + ?u + 4) bs b" "bs \<noteq> [] \<longrightarrow> ?cs + 40 + ?u + 4 + length bs \<le> ?cs + chunk_size (header b)"
    "map_option (\<lambda>d. d\<lparr>pending := []\<rparr>) (rw_dedup w1) = map_option (\<lambda>d. d\<lparr>pending := []\<rparr>) (map_option begin_row ded)"
    unfolding w row_fields_begin writer_row_size_def by blast
  have fin: "finish w1 = Some (False, w1\<lparr>rw_done := True, rw_dedup := map_option rollback_row (rw_dedup w1)\<rparr>)"
    using w1(2,3) by (simp add: finish_def)
  have ded: "map_option rollback_row (rw_dedup w1) = map_option begin_row ded"
    using w1(6) by (simp add: rollback_row_def [abs_def] begin_row_def [abs_def] option.map_comp o_def)
  have co: "chunk_only b (rw_buf w1) ?i"
  proof (cases "bs = []")
    case False
    then show ?thesis unfolding w1(4) using w1(5) inb by (intro chunk_only_splice) auto
  qed (simp add: w1(4))
  have st: "chunk_start_off (rw_buf w1) ?i = ?cs" using cold_eq_chunk_start chunk_only_cold [OF assms(1,3) co] by blast
  have s: "bslice off n (rw_buf w1) = bslice off n b" if "off + n \<le> ?cs + 40 + ?u + 4" for off n
  proof (cases "bs = []")
    case False
    then show ?thesis unfolding w1(4) using w1(5) inb that by (intro slice_splice_other) auto
  qed (simp add: w1(4))
  have hdr: "chunk_hdr (rw_buf w1) ?i = chunk_hdr b ?i" unfolding st chunk_header_def rd_def by (simp add: s)
  have "payload (rw_buf w1) ?i = payload b ?i"
    unfolding payload_def st hdr [unfolded st] by (rule s) (simp add: layout_consts)
  then show ?thesis using w1(1) fin ded co hdr by (auto simp: chunk_view_def)
qed

section \<open>Agreement with the batch writers\<close>

lemma row_fields_None: "map field_bytes (row_fields xxh3 None b cs k vs) = map value_bytes vs"
  "map field_size (row_fields xxh3 None b cs k vs) = map encoded_size vs"
  by (induction vs arbitrary: k) simp_all

lemma row_fields_Some: "row_fields xxh3 (Some st) b cs 0 vs = dedup_lookups xxh3 st b cs vs"
  by (simp add: row_fields_def dedup_lookups_def)

lemma writer_row_size_None: "writer_row_size xxh3 None b vs = row_data_size vs"
  by (simp add: writer_row_size_def row_fields_None row_data_size_def)

lemma writer_row_size_Some: "writer_row_size xxh3 (Some st) b vs = dedup_row_size xxh3 st b vs"
  by (simp add: writer_row_size_def row_fields_Some dedup_row_size_def)

lemma write_dedup_cols_seen:
  assumes "write_dedup_cols xxh3 cs fs off b st = Some (b', st')" "list_all field_wf fs"
  shows "st' = st\<lparr>seen := foldl (\<lambda>m (k, off). m(k \<mapsto> off)) (seen st) (staged xxh3 (min_dedup_len st) cs fs off)\<rparr>"
  using assms
proof (induction fs arbitrary: off b st)
  case (Cons f fs)
  obtain i v dup where f: "f = (i, v, dup)" by (cases f)
  define st1 where "st1 = (case (var_data v, dup) of (Some data, None) \<Rightarrow> dedup_insert xxh3 st i data (off - cs) | _ \<Rightarrow> st)"
  from Cons.prems obtain b1 where b1: "write_dedup_cols xxh3 cs fs (off + field_size f) b1 st1 = Some (b', st')"
    by (auto simp: f st1_def field_wf_def encode_at_eq_Some ref_bytes_def bind_eq_Some_conv split: option.splits)
  have IH: "st' = st1\<lparr>seen := foldl (\<lambda>m (k, off). m(k \<mapsto> off)) (seen st1)
      (staged xxh3 (min_dedup_len st1) cs fs (off + field_size f))\<rparr>"
    using Cons.prems(2) by (intro Cons.IH [OF b1]) simp
  have m: "min_dedup_len st1 = min_dedup_len st" by (simp add: st1_def dedup_insert_def split: option.splits)
  have "st1 = st\<lparr>seen := foldl (\<lambda>m (k, off). m(k \<mapsto> off)) (seen st) (staged xxh3 (min_dedup_len st) cs [f] off)\<rparr>"
    by (auto simp: st1_def f dedup_insert_def split: option.splits)
  moreover have "staged xxh3 (min_dedup_len st) cs (f # fs) off =
      staged xxh3 (min_dedup_len st) cs [f] off @ staged xxh3 (min_dedup_len st) cs fs (off + field_size f)"
    by (simp add: f)
  ultimately show ?case using IH unfolding m by (simp only: foldl_append) simp
qed simp

lemma row_writer_plain:
  assumes "table_geom b" "chunks_fit b" "write_chunk (header b) < num_chunks (header b)"
    and "row_fits b (row_data_size vs)"
  shows "\<exists>w1 w2 b'. put_values xxh3 (make_row_writer b None) vs = Some w1 \<and> finish w1 = Some (True, w2) \<and>
    write_row_bytes b vs (row_data_size vs) = Some (True, b') \<and> rw_buf w2 = b'"
proof -
  from row_writer_fits [OF assms(1-3), of None xxh3 vs] assms(4)
  obtain w1 w2 where "put_values xxh3 (make_row_writer b None) vs = Some w1" "finish w1 = Some (True, w2)"
    "rw_buf w2 = publish_row (bsplice (chunk_start_off b (write_chunk (header b)) + 40 + used (chunk_hdr b (write_chunk (header b))))
      (frame (row_bytes vs)) b) (chunk_start_off b (write_chunk (header b))) (row_ts (header b) vs)
      (used (chunk_hdr b (write_chunk (header b))) + (4 + row_data_size vs))"
    by (auto simp: writer_row_size_None row_fields_None row_bytes_def)
  then show ?thesis
    using write_row_bytes_eq [OF assms(1,3) assms(4) [unfolded row_fits_def]] by (simp add: layout_consts)
qed

lemma row_writer_dedup:
  assumes "table_geom b" "chunks_fit b" "write_chunk (header b) < num_chunks (header b)" "dedup_inv b st"
    and "length vs \<le> MAX_DEDUP_COLS" "row_fits b (dedup_row_size xxh3 st b vs)"
  shows "\<exists>w1 w2 b' st'. put_values xxh3 (make_row_writer b (Some st)) vs = Some w1 \<and> finish w1 = Some (True, w2) \<and>
    append_row_dedup_bytes xxh3 b st vs = Some (True, b', st') \<and> rw_buf w2 = b' \<and>
    rw_dedup w2 = Some (st'\<lparr>pending := []\<rparr>)"
proof -
  let ?cs = "chunk_start_off b (write_chunk (header b))" and ?u = "used (chunk_hdr b (write_chunk (header b)))"
  let ?fs = "dedup_lookups xxh3 st b ?cs vs"
  let ?bs = "concat (map field_bytes ?fs)"
  from append_dedup_eq [OF assms(1,3-6)] obtain b' st' where
    a: "append_row_dedup_bytes xxh3 b st vs = Some (True, b', st')"
    "b' = publish_row (bsplice (?cs + 40 + ?u) (frame ?bs) b) ?cs (row_ts (header b) vs) (?u + (4 + length ?bs))"
    "write_dedup_cols xxh3 ?cs ?fs (?cs + 40 + ?u + 4) (wr (?cs + 40 + ?u) 4 (length ?bs) b) st =
      Some (bsplice (?cs + 40 + ?u) (frame ?bs) b, st')"
    by blast
  note st' = write_dedup_cols_seen [OF a(3) lookups_wf]
  have n: "length ?bs = dedup_row_size xxh3 st b vs" by (simp add: length_concat_fields dedup_row_size_def)
  from row_writer_fits [OF assms(1-3), of "Some st" xxh3 vs] assms(4,6)
  obtain w1 w2 where "put_values xxh3 (make_row_writer b (Some st)) vs = Some w1" "finish w1 = Some (True, w2)"
    "rw_buf w2 = publish_row (bsplice (?cs + 40 + ?u) (frame ?bs) b) ?cs (row_ts (header b) vs) (?u + (4 + dedup_row_size xxh3 st b vs))"
    "rw_dedup w2 = Some (st\<lparr>seen := foldl (\<lambda>m (k, off). m(k \<mapsto> off)) (seen st)
       (staged xxh3 (min_dedup_len st) ?cs ?fs (?cs + 40 + ?u + 4)), pending := []\<rparr>)"
    by (auto simp: writer_row_size_Some row_fields_Some)
  then show ?thesis using a(1,2) n st' by auto
qed

end
