(* ===== verification/Table_Guarantees.thy ===== *)
theory Table_Guarantees
  imports Writer_Equiv
begin

text \<open>
  Consequences that combine the components: a pinned chunk survives every advance, a reader that
  finds a free lease slot gets its iterator, and the timestamp range of a chunk is the exact range
  of the timestamps committed to it.
\<close>

section \<open>Pins against the writer\<close>

lemma pin_blocks_advance:
  assumes "represents b s" "i < num_chunks (header b)" "try_rows os b i = (Inr it, b1)" "it_pin it = Some p"
    and "process_instance_alive os' (current_process_id os) (process_start_time os (current_process_id os))"
  shows "chunk_pinned os' b1 i"
proof -
  note r = representsD [OF assms(1)]
  note tr = try_rows_pinned [OF assms(1-4)]
  have "pin_slot p < lease_slots (header b1)" using tr by (simp add: pin_holds_def)
  moreover have "lease_live os' (reader_lease b1 i (pin_slot p))"
    using pin_holds_live [of os b1 p os'] tr assms(5) by auto
  ultimately show ?thesis by (auto simp: chunk_pinned_def)
qed

section \<open>Getting a lease\<close>

definition slot_saturated :: "os \<Rightarrow> ReaderLease \<Rightarrow> bool" where
  "slot_saturated os l \<longleftrightarrow> lease_parts (lease_state l) = (current_process_id os, -1)"

lemma acquire_slot_free: "lease_state (reader_lease b c k) = 0 \<Longrightarrow> \<exists>b'. acquire_slot os b c k = Acquired b'"
  by (simp add: acquire_slot_def)

lemma acquire_slot_giveup: "acquire_slot os b c k = GiveUp \<Longrightarrow> slot_saturated os (reader_lease b c k)"
  by (auto simp: acquire_slot_def slot_saturated_def Let_def split: prod.splits if_splits)

lemma acquire_slots_some:
  assumes "k \<in> set ks" "lease_state (reader_lease b c k) = 0" "\<forall>k\<in>set ks. \<not> slot_saturated os (reader_lease b c k)"
  shows "acquire_slots os b c ks \<noteq> None"
  using assms
proof (induction ks)
  case (Cons k' ks)
  show ?case
  proof (cases "acquire_slot os b c k'")
    case (NextSlot b')
    then have "b' = b" by (rule acquire_slot_next)
    moreover have "k' \<noteq> k" using acquire_slot_free [of b c k os] Cons.prems(2) NextSlot by auto
    ultimately show ?thesis using NextSlot Cons by simp
  next
    case GiveUp
    then show ?thesis using acquire_slot_giveup [OF GiveUp] Cons.prems(3) by simp
  qed simp
qed simp

lemma try_rows_succeeds:
  assumes "represents b s" "i < num_chunks (header b)" "ring_chunks s ! i \<noteq> [] \<or> i = ring_cur s"
    and "k < lease_slots (header b)" "lease_state (reader_lease b i k) = 0"
    and "\<forall>k<lease_slots (header b). \<not> slot_saturated os (reader_lease b i k)"
  shows "\<exists>it b1 p. try_rows os b i = (Inr it, b1) \<and> it_pin it = Some p"
proof -
  note r = representsD [OF assms(1)]
  let ?cs = "chunk_start_off b i"
  have "acquire_slots os b i [0..<lease_slots (header b)] \<noteq> None"
    using assms(4-6) by (intro acquire_slots_some [of k]) auto
  then obtain slot b1 where ac: "acquire_process_lease os b i = Some (slot, b1)"
    by (auto simp: acquire_process_lease_def)
  have lf: "lease_frame b b1"
    using acquire_process_lease_Some [OF ac] acquire_slot_props(1) [OF r(1) assms(2)] by blast
  have ch: "chunk_header b1 ?cs = chunk_header b ?cs"
    using payload_lease_frame [OF r(1) lf assms(2)] cold_eq_chunk_start [OF lease_frame_cold [OF r(1) lf]] by simp
  have "state (chunk_hdr b i) = chunk_state_code (ring_state s i)"
    using r(9) [OF assms(2)] by (simp add: chunk_rep_def Let_def chunk_view_def)
  moreover have "ring_state s i \<noteq> Empty"
    using assms(2,3) r(3,4) by (auto simp: ring_state_def ring_wf_def)
  ultimately have st: "state (chunk_hdr b i) \<noteq> chunk_state_code Empty" by (cases "ring_state s i") simp_all
  let ?after = "\<lambda>(_::nat) b1. (state (chunk_header b1 ?cs), generation (chunk_header b1 ?cs))"
  have "pin_chunk os b ?cs = pin_attempts os ?after b i ?cs (chunk_size (header b) - CHUNK_HEADER_SIZE) (Suc 63)"
    using pin_chunk_with_eq [OF r(1), of os ?after i] by (simp add: pin_chunk_def)
  also have "\<dots> = (Inr (Some (\<lparr>pin_slot = slot, pin_owner_pid = current_process_id os, pin_chunk_index = i,
      pin_chunk_start = ?cs, pin_generation = generation (chunk_hdr b i)\<rparr>, generation (chunk_hdr b i), used (chunk_hdr b i))), b1)"
    unfolding pin_attempts.simps(2) Let_def using st ac ch chunks_fitD [OF r(2) assms(2)] by (simp add: layout_consts)
  finally show ?thesis using assms(2) by (simp add: try_rows_def Let_def)
qed

section \<open>Timestamp ranges\<close>

lemma ts_min_le: "sint (ts_min a t) \<le> sint a" "sint (ts_min a t) \<le> sint t" "ts_min a t = a \<or> ts_min a t = t"
  by (auto simp: ts_min_def)

lemma ts_max_ge: "sint a \<le> sint (ts_max a t)" "sint t \<le> sint (ts_max a t)" "ts_max a t = a \<or> ts_max a t = t"
  by (auto simp: ts_max_def)

lemma fold_ts_min:
  "sint (foldl (\<lambda>m r. opt_ts_min m (row_ts h r)) a rows) \<le> sint a"
  "r \<in> set rows \<Longrightarrow> row_ts h r = Some t \<Longrightarrow> sint (foldl (\<lambda>m r. opt_ts_min m (row_ts h r)) a rows) \<le> sint t"
  "foldl (\<lambda>m r. opt_ts_min m (row_ts h r)) a rows = a \<or>
     (\<exists>r\<in>set rows. row_ts h r = Some (foldl (\<lambda>m r. opt_ts_min m (row_ts h r)) a rows))"
proof -
  show le: "sint (foldl (\<lambda>m r. opt_ts_min m (row_ts h r)) a rows) \<le> sint a" for a
    by (induction rows arbitrary: a) (auto simp: opt_ts_min_def split: option.splits intro: order_trans ts_min_le(1))
  show "r \<in> set rows \<Longrightarrow> row_ts h r = Some t \<Longrightarrow> sint (foldl (\<lambda>m r. opt_ts_min m (row_ts h r)) a rows) \<le> sint t"
  proof (induction rows arbitrary: a)
    case (Cons x xs)
    have "sint (foldl (\<lambda>m r. opt_ts_min m (row_ts h r)) c xs) \<le> sint c" for c
      by (induction xs arbitrary: c) (auto simp: opt_ts_min_def split: option.splits intro: order_trans ts_min_le(1))
    from this [of "ts_min a t"] show ?case
      using Cons ts_min_le(2) [of a t] by (auto simp: opt_ts_min_def)
  qed simp
  show "foldl (\<lambda>m r. opt_ts_min m (row_ts h r)) a rows = a \<or>
     (\<exists>r\<in>set rows. row_ts h r = Some (foldl (\<lambda>m r. opt_ts_min m (row_ts h r)) a rows))"
  proof (induction rows arbitrary: a)
    case (Cons x xs)
    show ?case
      using Cons.IH [of "opt_ts_min a (row_ts h x)"] ts_min_le(3) [of a]
      by (auto simp: opt_ts_min_def split: option.splits) metis
  qed simp
qed

lemma fold_ts_max:
  "sint a \<le> sint (foldl (\<lambda>m r. opt_ts_max m (row_ts h r)) a rows)"
  "r \<in> set rows \<Longrightarrow> row_ts h r = Some t \<Longrightarrow> sint t \<le> sint (foldl (\<lambda>m r. opt_ts_max m (row_ts h r)) a rows)"
  "foldl (\<lambda>m r. opt_ts_max m (row_ts h r)) a rows = a \<or>
     (\<exists>r\<in>set rows. row_ts h r = Some (foldl (\<lambda>m r. opt_ts_max m (row_ts h r)) a rows))"
proof -
  show ge: "sint a \<le> sint (foldl (\<lambda>m r. opt_ts_max m (row_ts h r)) a rows)" for a
    by (induction rows arbitrary: a) (auto simp: opt_ts_max_def split: option.splits intro: order_trans ts_max_ge(1))
  show "r \<in> set rows \<Longrightarrow> row_ts h r = Some t \<Longrightarrow> sint t \<le> sint (foldl (\<lambda>m r. opt_ts_max m (row_ts h r)) a rows)"
  proof (induction rows arbitrary: a)
    case (Cons x xs)
    have "sint c \<le> sint (foldl (\<lambda>m r. opt_ts_max m (row_ts h r)) c xs)" for c
      by (induction xs arbitrary: c) (auto simp: opt_ts_max_def split: option.splits intro: order_trans ts_max_ge(1))
    from this [of "ts_max a t"] show ?case
      using Cons ts_max_ge(2) [of t a] by (auto simp: opt_ts_max_def)
  qed simp
  show "foldl (\<lambda>m r. opt_ts_max m (row_ts h r)) a rows = a \<or>
     (\<exists>r\<in>set rows. row_ts h r = Some (foldl (\<lambda>m r. opt_ts_max m (row_ts h r)) a rows))"
  proof (induction rows arbitrary: a)
    case (Cons x xs)
    show ?case
      using Cons.IH [of "opt_ts_max a (row_ts h x)"] ts_max_ge(3) [of a]
      by (auto simp: opt_ts_max_def split: option.splits) metis
  qed simp
qed

lemma i64_extremes: "sint (t::i64) \<le> sint TS_MIN_INIT" "sint TS_MAX_INIT \<le> sint (t::i64)"
proof -
  have m: "sint TS_MIN_INIT = 2 ^ 63 - 1" "sint TS_MAX_INIT = - (2 ^ 63)" by (simp_all add: TS_MIN_INIT_def TS_MAX_INIT_def)
  show "sint t \<le> sint TS_MIN_INIT" using sint_less [of t] m by simp
  show "sint TS_MAX_INIT \<le> sint t" using sint_ge [of t] m by simp
qed

lemma chunk_ts_range_rep:
  assumes "represents b s" "i < num_chunks (header b)"
  defines "rows \<equiv> ring_chunks s ! i"
  shows "case chunk_ts_range b i of
     Some (lo, hi) \<Rightarrow> (\<forall>r\<in>set rows. \<forall>t. row_ts (header b) r = Some t \<longrightarrow> sint lo \<le> sint t \<and> sint t \<le> sint hi) \<and>
       (\<exists>r\<in>set rows. row_ts (header b) r = Some lo) \<and> (\<exists>r\<in>set rows. row_ts (header b) r = Some hi)
   | None \<Rightarrow> \<forall>r\<in>set rows. row_ts (header b) r = None"
proof -
  let ?h = "header b"
  have c: "min_ts (chunk_hdr b i) = rows_min ?h rows" "max_ts (chunk_hdr b i) = rows_max ?h rows"
    using representsD(9) [OF assms(1,2)] by (simp_all add: chunk_rep_def Let_def chunk_view_def rows_def)
  have bound: "sint (rows_min ?h rows) \<le> sint t \<and> sint t \<le> sint (rows_max ?h rows)"
    if "r \<in> set rows" "row_ts ?h r = Some t" for r t
    using fold_ts_min(2) [OF that] fold_ts_max(2) [OF that] by (simp add: rows_min_def rows_max_def)
  have att: "rows_min ?h rows = TS_MIN_INIT \<or> (\<exists>r\<in>set rows. row_ts ?h r = Some (rows_min ?h rows))"
    "rows_max ?h rows = TS_MAX_INIT \<or> (\<exists>r\<in>set rows. row_ts ?h r = Some (rows_max ?h rows))"
    unfolding rows_min_def rows_max_def by (rule fold_ts_min(3), rule fold_ts_max(3))
  show ?thesis
  proof (cases "ts_col ?h = 0")
    case True
    then show ?thesis by (simp add: chunk_ts_range_def table_ts_col_def row_ts_def)
  next
    case False
    then have tc: "table_ts_col b = Some (ts_col ?h - 1)" by (simp add: table_ts_col_def)
    show ?thesis
    proof (cases "\<exists>r\<in>set rows. \<exists>t. row_ts ?h r = Some t")
      case True
      then obtain r t where rt: "r \<in> set rows" "row_ts ?h r = Some t" by blast
      have le: "\<not> sint (rows_max ?h rows) < sint (rows_min ?h rows)" using bound [OF rt] by linarith
      have lo: "\<exists>r\<in>set rows. row_ts ?h r = Some (rows_min ?h rows)"
      proof -
        have "t = TS_MIN_INIT" if "rows_min ?h rows = TS_MIN_INIT"
        proof -
          have "sint t = sint TS_MIN_INIT" using bound [OF rt] i64_extremes(1) [of t] that by simp
          then show ?thesis by (rule signed_word_eqI)
        qed
        then show ?thesis using att(1) rt by auto
      qed
      have hi: "\<exists>r\<in>set rows. row_ts ?h r = Some (rows_max ?h rows)"
      proof -
        have "t = TS_MAX_INIT" if "rows_max ?h rows = TS_MAX_INIT"
        proof -
          have "sint t = sint TS_MAX_INIT" using bound [OF rt] i64_extremes(2) [of t] that by simp
          then show ?thesis by (rule signed_word_eqI)
        qed
        then show ?thesis using att(2) rt by auto
      qed
      show ?thesis using le lo hi bound by (simp add: chunk_ts_range_def tc c)
    next
      case False
      then have none: "\<forall>r\<in>set rows. row_ts ?h r = None" by auto
      then have "rows_min ?h rows = TS_MIN_INIT" "rows_max ?h rows = TS_MAX_INIT" using att by auto
      then have "sint (rows_max ?h rows) < sint (rows_min ?h rows)" by (simp add: TS_MIN_INIT_def TS_MAX_INIT_def)
      then show ?thesis using none by (simp add: chunk_ts_range_def tc c)
    qed
  qed
qed

section \<open>Random access\<close>

text \<open>Random access to a column of a row obtained from the iterator.\<close>

lemma col_value_rep:
  assumes "represents b s" "i < num_chunks (header b)" "try_rows os b i = (Inr it, b1)" "it_pin it = Some p"
    and "length (ring_chunks s ! i) < n" "row_iter_take n (\<lambda>_. (True, True)) it = Some rows"
    and "k < length rows" "j < num_cols (header b)"
  shows "col_value (table_dtypes b1 ! j) (rows ! k) j True True = ring_chunks s ! i ! k ! j"
proof -
  note r = representsD [OF assms(1)]
  note tr = try_rows_pinned [OF assms(1,2,3,4)]
  have rep1: "represents b1 s" using represents_lease_frame [OF assms(1)] tr by blast
  note r1 = representsD [OF rep1]
  have h: "header b1 = header b" using lease_frame_header [OF r(1)] tr by blast
  have i1: "i < num_chunks (header b1)" using assms(2) h by simp
  have st: "chunk_start_off b1 i = chunk_start_off b i"
    using cold_eq_chunk_start lease_frame_cold [OF r(1)] tr by blast
  let ?ps = "parse_rows (payload b1 i)" and ?vs = "ring_chunks s ! i ! k"
  have pl: "payload b1 i = payload b i" using payload_lease_frame [OF r(1) _ assms(2)] tr by blast
  have h1: "list_all2 (pay_row (payload b1 i)) (ring_chunks s ! i) ?ps"
    using r1(9) [OF i1] by (simp add: chunk_rep_def Let_def chunk_view_def holds_def)
  have "row_iter_take n (\<lambda>_. (True, True)) it = Some (map (chunk_row b1 (chunk_start_off b i) (it_generation it)) ?ps)"
    using row_iter_take_valid [of it "\<lambda>_. (True, True)" n] tr assms(4,5) list_all2_lengthD [OF h1] pl
    by (simp add: chunk_row_def [abs_def])
  then have rows: "rows = map (chunk_row b1 (chunk_start_off b i) (it_generation it)) ?ps" using assms(6) by simp
  let ?r = "chunk_row b1 (chunk_start_off b i) (it_generation it) (?ps ! k)"
  have k: "k < length ?ps" "k < length (ring_chunks s ! i)" using assms(7) list_all2_lengthD [OF h1] by (simp_all add: rows)
  have pr: "pay_row (payload b1 i) ?vs (?ps ! k)" using h1 k by (simp add: list_all2_conv_all_nth)
  have enc: "row_encodes b1 (chunk_start_off b i) ?vs (?ps ! k)"
    using pay_row_buffer [OF pr] chunks_fitD [OF r1(2) i1] geom_chunk_size [OF r1(1)] st by (simp add: layout_consts)
  have sch: "validate_row_schema b1 ?vs" using r1(10) [OF i1] k(2) by (simp add: list_all_length)
  then have j: "j < length ?vs" using assms(8) h by (simp add: validate_row_schema_def)
  have "col_value (value_dtype (?vs ! j)) ?r j True True = ?vs ! j"
    using enc sch j parse_rows_mem_length [OF nth_mem [OF k(1)]] r1(11) chunk_bounds(3) [OF r1(1) i1] st
    by (intro col_value_fields) (simp_all add: chunk_row_def)
  then show ?thesis using table_dtypes_row [OF sch] j k(1) by (simp add: rows)
qed

end
