(* ===== verification/Table_Validate.thy ===== *)
theory Table_Validate
  imports Table_Guarantees
begin

text \<open>
  \<open>validate_buf\<close> on an arbitrary buffer (a file another process left behind, truncated or corrupt):
  it always returns, it touches nothing but the lease area, and what it accepts has the geometry
  and the chunk bounds that the reading operations rely on, so that a reader of an accepted buffer
  never indexes outside it. Conversely a table written by this library is accepted when nobody reads it.
\<close>

section \<open>The reading loops stay inside the buffer\<close>

lemma validate_cols_total:
  "row_start + row_len \<le> length b \<Longrightarrow> \<exists>r. validate_cols b row_start row_len d u col_off cis = Some r"
  by (induction b row_start row_len d u col_off cis rule: validate_cols.induct)
    (auto simp: Let_def get_range_def split: option.splits)

lemma validate_chunk_rows_total:
  "data_base + u \<le> length b \<Longrightarrow> \<exists>r. validate_chunk_rows_from b data_base u nc d pos = Some r"
proof (induction b data_base u nc d pos rule: validate_chunk_rows_from.induct)
  case (1 b data_base u nc d pos)
  show ?case
  proof (cases "pos + 4 \<le> u")
    case True
    let ?n = "rd (data_base + pos) 4 b"
    have r: "r32 b (data_base + pos) = Some ?n" using True "1.prems" r32_in [of "data_base + pos" b] by simp
    obtain v where v: "u < pos + 4 + ?n \<or> validate_cols b (data_base + pos + 4) ?n d u 0 [0..<nc] = Some v"
      using validate_cols_total [of "data_base + pos + 4" ?n b d u 0 "[0..<nc]"] "1.prems" by fastforce
    show ?thesis
      using True r v "1.IH" [OF True r] "1.prems"
      by (subst validate_chunk_rows_from.simps) (auto split: sum.splits)
  qed (simp add: validate_chunk_rows_from.simps)
qed

lemma row_iter_next_total:
  "it_end it \<le> length (it_buf it) \<Longrightarrow>
   \<exists>r it'. row_iter_next valid it = Some (r, it') \<and> it_buf it' = it_buf it \<and> it_end it' = it_end it"
proof (induction valid it rule: row_iter_next.induct)
  case (1 valid it)
  let ?p = "it_pos it" and ?n = "rd (it_pos it) 4 (it_buf it)"
  let ?it = "it\<lparr>it_pos := ?p + (4 + ?n)\<rparr>"
  show ?case
  proof (cases "?p + 4 \<le> it_end it \<and> it_pin it \<noteq> None \<and> fst (valid ?p) \<and> \<not> it_end it - ?p < 4 + ?n")
    case True
    have r: "r32 (it_buf it) ?p = Some ?n" using True "1.prems" r32_in [of ?p "it_buf it"] by simp
    have "?p + (4 + ?n) \<le> length (it_buf it)" using True "1.prems" by linarith
    then have g: "get_range (it_buf it) (?p + 4) (?p + (4 + ?n)) = Some (bslice (?p + 4) ?n (it_buf it))"
      by (simp add: get_range_def)
    have ih: "\<not> snd (valid ?p) \<Longrightarrow> \<exists>r it'. row_iter_next valid ?it = Some (r, it') \<and> it_buf it' = it_buf ?it \<and> it_end it' = it_end ?it"
      using True r "1.prems" by (intro "1.IH" [OF _ _ r _ refl refl]) auto
    show ?thesis using True r g ih by (subst row_iter_next.simps) (auto simp: Let_def)
  next
    case False
    then show ?thesis using "1.prems" r32_in [of ?p "it_buf it"] by (subst row_iter_next.simps) auto
  qed
qed

lemma row_iter_take_total:
  "it_end it \<le> length (it_buf it) \<Longrightarrow> \<exists>rows. row_iter_take n valid it = Some rows"
proof (induction n arbitrary: it)
  case (Suc n)
  from row_iter_next_total [OF Suc.prems] obtain r it' where
    nx: "row_iter_next valid it = Some (r, it')" "it_end it' \<le> length (it_buf it')" using Suc.prems by metis
  from Suc.IH [OF nx(2)] nx(1) show ?case by (cases r) auto
qed simp

section \<open>Pinning touches only the lease area\<close>

lemma pin_attempts_frame:
  assumes "table_geom b" "chunk < num_chunks (header b)"
  shows "lease_frame b (snd (pin_attempts os after b chunk cs cap n))"
  using assms
proof (induction n arbitrary: b)
  case (Suc n)
  show ?case
  proof (cases "acquire_process_lease os b chunk")
    case None
    then show ?thesis by (simp add: Let_def)
  next
    case (Some sb)
    obtain slot b1 where sb: "sb = (slot, b1)" by (cases sb)
    note sl = acquire_process_lease_Some [OF Some [unfolded sb]]
    note ap = acquire_slot_props(1) [OF Suc.prems sl]
    have h1: "header b1 = header b" by (rule lease_frame_header [OF Suc.prems(1) ap])
    let ?b2 = "release_process_lease b1 chunk slot (current_process_id os)"
    have f2: "lease_frame b ?b2"
      using lease_frame_trans [OF Suc.prems(1) ap release_process_lease_props(1) [OF lease_frame_geom [OF Suc.prems(1) ap]]]
        Suc.prems(2) sl(1) h1 by simp
    have "lease_frame ?b2 (snd (pin_attempts os after ?b2 chunk cs cap n))"
      using Suc.prems lease_frame_geom [OF Suc.prems(1) f2] lease_frame_header [OF Suc.prems(1) f2]
      by (intro Suc.IH) auto
    from lease_frame_trans [OF Suc.prems(1) f2 this] Some sb ap show ?thesis
      by (auto simp: Let_def split: prod.splits)
  qed
qed simp

lemma pin_chunk_frame:
  assumes "table_geom b" "i < num_chunks (header b)"
  shows "lease_frame b (snd (pin_chunk os b (chunk_start_off b i)))"
  unfolding pin_chunk_def pin_chunk_with_eq [OF assms(1)] by (rule pin_attempts_frame [OF assms])

lemma drop_pin_frame:
  assumes "table_geom b" "pin_chunk_index p < num_chunks (header b)" "pin_slot p < lease_slots (header b)"
  shows "lease_frame b (drop_pin os b p)"
  using release_process_lease_props(1) [OF assms] by (simp add: drop_pin_def)

section \<open>Validation is total and sound\<close>

lemma validate_layout_geom:
  assumes "validate_layout addr b = Inr off"
  shows "table_geom b" "off = data_offset (header b)"
  using assms
  by (auto simp: validate_layout_def Let_def table_geom_def checked_lease_offset_eq_Some
      checked_data_offset_eq_Some bind_eq_Some_conv layout_consts split: if_splits option.splits)

lemma validate_chunks_total:
  assumes "table_geom b" "set is \<subseteq> {..<num_chunks (header b)}" "off = data_offset (header b)"
  shows "\<exists>r b'. validate_chunks os b off d is = Some (r, b') \<and> lease_frame b b' \<and>
    (r = Inr () \<longrightarrow> (\<forall>i\<in>set is. used (chunk_hdr b i) \<le> chunk_size (header b) - 40 \<and> state (chunk_hdr b i) \<le> 2))"
  using assms
proof (induction "is" arbitrary: b)
  case (Cons i "is")
  let ?cs = "chunk_start_off b i"
  have i: "i < num_chunks (header b)" using Cons.prems(2) by simp
  have cs: "off + i * chunk_size (header b) = ?cs" using Cons.prems(3) by (simp add: chunk_start_off_def)
  obtain q b1 where p: "pin_chunk os b ?cs = (q, b1)" by fastforce
  have f1: "lease_frame b b1" using pin_chunk_frame [OF Cons.prems(1) i, of os] p by simp
  have step: "\<exists>r b'. validate_chunks os b2 off d is = Some (r, b') \<and> lease_frame b b' \<and>
      (r = Inr () \<longrightarrow> (\<forall>j\<in>set is. used (chunk_hdr b j) \<le> chunk_size (header b) - 40 \<and> state (chunk_hdr b j) \<le> 2))"
    if fr: "lease_frame b b2" for b2
  proof -
    have h: "header b2 = header b" by (rule lease_frame_header [OF Cons.prems(1) fr])
    from Cons.IH [OF lease_frame_geom [OF Cons.prems(1) fr]] Cons.prems h obtain r b' where
      *: "validate_chunks os b2 off d is = Some (r, b')" "lease_frame b2 b'"
      "r = Inr () \<longrightarrow> (\<forall>j\<in>set is. used (chunk_hdr b2 j) \<le> chunk_size (header b) - 40 \<and> state (chunk_hdr b2 j) \<le> 2)"
      by auto
    have "chunk_hdr b2 j = chunk_hdr b j" if "j \<in> set is" for j
      using payload_lease_frame [OF Cons.prems(1) fr] Cons.prems(2) that by auto
    with * lease_frame_trans [OF Cons.prems(1) fr *(2)] show ?thesis by auto
  qed
  show ?case
  proof (cases "2 < state (chunk_hdr b i) \<or> chunk_size (header b) - CHUNK_HEADER_SIZE < used (chunk_hdr b i)")
    case True
    then show ?thesis by (auto simp: Let_def cs)
  next
    case ok: False
    then have ok': "used (chunk_hdr b i) \<le> chunk_size (header b) - 40" "state (chunk_hdr b i) \<le> 2"
      by (auto simp: CHUNK_HEADER_SIZE_def)
    consider (err) e where "q = Inl e" | (none) "q = Inr None" | (pin) pn g u where "q = Inr (Some (pn, g, u))"
      by (cases q) (auto split: option.splits, metis option.exhaust prod_cases3)
    then show ?thesis
    proof cases
      case err
      then show ?thesis using ok p f1 by (auto simp: Let_def cs)
    next
      case none
      then show ?thesis using ok ok' p step [OF f1] by (auto simp: Let_def cs)
    next
      case pin
      note ps = pin_chunk_with_Some [OF Cons.prems(1) i p [unfolded pin pin_chunk_def]]
      have h1: "header b1 = header b" by (rule lease_frame_header [OF Cons.prems(1) f1])
      have g1: "table_geom b1" by (rule lease_frame_geom [OF Cons.prems(1) f1])
      have "?cs + 40 + u \<le> length b1"
        using chunk_bounds(3) [OF Cons.prems(1) i] lease_frame_length [OF f1] ps(8) geom_chunk_size [OF Cons.prems(1)]
        by (simp add: CHUNK_HEADER_SIZE_def)
      then obtain v where v: "validate_chunk_rows b1 ?cs u (num_cols (header b1)) d = Some v"
        using validate_chunk_rows_total [of "?cs + 40" u b1 "num_cols (header b1)" d 0]
        by (auto simp: validate_chunk_rows_def CHUNK_HEADER_SIZE_def)
      have "lease_frame b1 (drop_pin os b1 pn)"
        using ps(2,3) i h1 by (intro drop_pin_frame g1) (auto simp: pin_holds_def)
      then have f2: "lease_frame b (drop_pin os b1 pn)" by (rule lease_frame_trans [OF Cons.prems(1) f1])
      show ?thesis using ok ok' p pin v f2 step [OF f2] by (auto simp: Let_def cs split: sum.splits)
    qed
  qed
qed simp

lemma validate_col_descs_dtypes:
  "validate_col_descs b is = Inr u \<Longrightarrow> i \<in> set is \<Longrightarrow> \<exists>d. dtype_from_u32 (cd_dtype (col_desc b i)) = Some d"
proof (induction "is")
  case (Cons a "is")
  then show ?case by (auto simp: dtype_from_u32_def split: if_splits)
qed simp


lemma validate_buf_total:
  "\<exists>r b'. validate_buf os addr b = Some (r, b') \<and> length b' = length b \<and>
    (b' = b \<or> table_geom b \<and> lease_frame b b') \<and>
    (r = Inr () \<longrightarrow> table_geom b \<and> chunks_fit b \<and> table_geom b' \<and> chunks_fit b' \<and> header b' = header b \<and>
      (\<forall>c<num_cols (header b). \<exists>d. dtype_from_u32 (cd_dtype (col_desc b c)) = Some d))"
proof (cases "validate_layout addr b")
  case (Inl e)
  then show ?thesis by (auto simp: validate_buf_def)
next
  case (Inr off)
  note g = validate_layout_geom [OF Inr]
  show ?thesis
  proof (cases "validate_col_descs b [0..<num_cols (header b)]")
    case (Inl e)
    then show ?thesis using Inr by (auto simp: validate_buf_def)
  next
    case cols: (Inr u)
    have up: "set [0..<num_chunks (header b)] \<subseteq> {..<num_chunks (header b)}" by auto
    from validate_chunks_total [OF g(1) up g(2), of os "odd (flags (header b))"]
    obtain r b' where v: "validate_chunks os b off (odd (flags (header b))) [0..<num_chunks (header b)] = Some (r, b')"
      "lease_frame b b'" "r = Inr () \<longrightarrow> chunks_fit b" by (auto simp: chunks_fit_def)
    have h: "header b' = header b" by (rule lease_frame_header [OF g(1) v(2)])
    have "chunks_fit b \<Longrightarrow> chunks_fit b'"
      using payload_lease_frame [OF g(1) v(2)] by (simp add: chunks_fit_def h)
    then show ?thesis
      using Inr cols v h g(1) lease_frame_geom [OF g(1) v(2)] lease_frame_length [OF v(2)] validate_col_descs_dtypes [OF cols]
      by (auto simp: validate_buf_def Let_def)
  qed
qed

text \<open>A reader of an accepted buffer: the iterator it is handed stays inside the buffer.\<close>

lemma try_rows_in_buffer:
  assumes "table_geom b" "try_rows os b i = (Inr it, b1)"
  shows "it_end it \<le> length (it_buf it)"
proof -
  have i: "i < num_chunks (header b)" using assms(2) by (auto simp: try_rows_def split: if_splits)
  have fr: "lease_frame b (snd (pin_chunk os b (chunk_start_off b i)))" by (rule pin_chunk_frame [OF assms(1) i])
  note cb = chunk_bounds(3) [OF assms(1) i] geom_chunk_size [OF assms(1)]
  show ?thesis
  proof (cases "pin_chunk os b (chunk_start_off b i)")
    case (Pair q b2)
    then have lb: "length b2 = length b" using fr lease_frame_length by auto
    show ?thesis
    proof (cases "\<exists>p g u. q = Inr (Some (p, g, u))")
      case True
      then obtain p g u where q: "q = Inr (Some (p, g, u))" by blast
      note ps = pin_chunk_with_Some [OF assms(1) i Pair [unfolded q pin_chunk_def]]
      then show ?thesis using assms(2) Pair q i cb lb by (auto simp: try_rows_def Let_def CHUNK_HEADER_SIZE_def)
    next
      case False
      then show ?thesis using assms(2) Pair i cb lb
        by (auto simp: try_rows_def Let_def CHUNK_HEADER_SIZE_def split: sum.splits option.splits)
    qed
  qed
qed

lemma pin_attempts_error: "pin_attempts os after b c cs cap n = (Inl e, b') \<Longrightarrow> e = ReaderLeaseExhausted"
  by (induction n arbitrary: b) (auto simp: Let_def split: if_splits option.splits prod.splits)

lemma pin_chunk_error: "table_geom b \<Longrightarrow> pin_chunk os b (chunk_start_off b i) = (Inl e, b') \<Longrightarrow> e = ReaderLeaseExhausted"
  using pin_attempts_error unfolding pin_chunk_def by (simp add: pin_chunk_with_eq)

lemma try_rows_error:
  "table_geom b \<Longrightarrow> try_rows os b i = (Inl e, b1) \<Longrightarrow>
   e = InvalidBuffer ''chunk index out of range'' \<or> e = ReaderLeaseExhausted"
  using pin_chunk_error [of b os i]
  by (auto simp: try_rows_def Let_def split: if_splits sum.splits option.splits prod.splits)

section \<open>A written table is accepted\<close>

lemma field_step:
  assumes "pay_field p v fb" "bslice (row_start + off) (length fb) b = fb" "row_start + off + length fb \<le> length b"
    and "d \<or> fb = value_bytes v" "length p \<le> u"
  shows "case fixed_size (value_dtype v) of Some sz \<Rightarrow> length fb = sz
    | None \<Rightarrow> 4 \<le> length fb \<and> (let raw = i32_at (row_start + off) b in
       if raw < 0 then d \<and> CHUNK_HEADER_SIZE \<le> neg_as_usize raw \<and> neg_as_usize raw < CHUNK_HEADER_SIZE + u \<and> length fb = 4
       else length fb = 4 + nat raw)"
proof (cases "var_data v")
  case None
  then have "fb = value_bytes v" using assms(1) by (simp add: pay_field_def)
  then show ?thesis using None by (cases v) simp_all
next
  case (Some data)
  then have fs: "fixed_size (value_dtype v) = None" by (cases v) simp_all
  have rd: "4 \<le> length fb \<Longrightarrow> i32_at (row_start + off) b = sint (word_of_le (take 4 fb) :: i32)"
    using assms(2) slice_prefix [of 4 "length fb" "row_start + off" b]
    by (simp add: i32_at_def rd_def word_of_le_def)
  consider (inl) "fb = le_bytes 4 (length data) @ data" "length data < 2 ^ 31"
    | (ref) o' where "fb = ref_bytes o'" "pay_ref p o' data" "fb \<noteq> value_bytes v"
    using assms(1) Some by (cases v) (auto simp: pay_field_def value_ok_def)
  then show ?thesis
  proof cases
    case inl
    then show ?thesis using fs rd i32_nonneg [OF inl(2)] by (simp add: word_of_le_4)
  next
    case ref
    have o: "40 \<le> o'" "o' < 2 ^ 31" "o' < 40 + u" using ref(2) assms(5) by (auto simp: pay_ref_def layout_consts)
    have "i32_at (row_start + off) b = - int o'"
      using rd ref(1) i32_neg [of o'] o(1,2) by (simp add: ref_bytes_def)
    then show ?thesis using fs ref(1,3) assms(4) o by (simp add: ref_bytes_def neg_as_usize_def layout_consts)
  qed
qed

lemma validate_cols_accepts:
  assumes "list_all2 (pay_field p) vs fbs" "bslice row_start row_len b = pre @ concat fbs"
    and "row_start + row_len \<le> length b"
    and "\<And>j. j < length vs \<Longrightarrow> dtype_from_u32 (cd_dtype (col_desc b (k + j))) = Some (value_dtype (vs ! j))"
    and "d \<or> fbs = map value_bytes vs" "length p \<le> u"
  shows "validate_cols b row_start row_len d u (length pre) [k..<k + length vs] = Some (Inr ())"
  using assms(1,2,4,5)
proof (induction vs fbs arbitrary: pre k rule: list_all2_induct)
  case (Cons v vs fb fbs)
  have len: "length pre + length fb + length (concat fbs) = row_len"
    using arg_cong [OF Cons.prems(1), of length] assms(3) by simp
  have "bslice (length pre) (length fb) (bslice row_start row_len b) = fb" unfolding Cons.prems(1) by (simp add: bslice_def)
  then have sl: "bslice (row_start + length pre) (length fb) b = fb" using len by (simp add: slice_slice)
  define js where "js = [Suc k..<Suc k + length vs]"
  have up: "[k..<k + length (v # vs)] = k # js" by (simp add: js_def upt_rec)
  have ty: "dtype_from_u32 (cd_dtype (col_desc b k)) = Some (value_dtype v)" using Cons.prems(2) [of 0] by simp
  have ih: "validate_cols b row_start row_len d u (length pre + length fb) js = Some (Inr ())"
    unfolding js_def length_append [symmetric]
  proof (rule Cons.IH)
    show "bslice row_start row_len b = (pre @ fb) @ concat fbs" using Cons.prems(1) by simp
    show "dtype_from_u32 (cd_dtype (col_desc b (Suc k + j))) = Some (value_dtype (vs ! j))" if "j < length vs" for j
      using Cons.prems(2) [of "Suc j"] that by simp
    show "d \<or> fbs = map value_bytes vs" using Cons.prems(3) by auto
  qed
  have st: "case fixed_size (value_dtype v) of Some sz \<Rightarrow> length fb = sz
    | None \<Rightarrow> 4 \<le> length fb \<and> (let raw = i32_at (row_start + length pre) b in
       if raw < 0 then d \<and> CHUNK_HEADER_SIZE \<le> neg_as_usize raw \<and> neg_as_usize raw < CHUNK_HEADER_SIZE + u \<and> length fb = 4
       else length fb = 4 + nat raw)"
    using len assms(3) Cons.prems(3) by (intro field_step [OF Cons.hyps(1) sl _ _ assms(6)]) auto
  show ?case
  proof (cases "row_len \<le> length pre")
    case True
    then show ?thesis unfolding up by simp
  next
    case False
    show ?thesis
    proof (cases "fixed_size (value_dtype v)")
      case (Some sz)
      then show ?thesis unfolding up using ty ih st False by simp
    next
      case None
      then have four: "length pre + 4 \<le> row_len" using st len by simp
      then have "get_range b (row_start + length pre) (row_start + length pre + 4) \<noteq> None"
        using assms(3) by (simp add: get_range_def)
      then show ?thesis unfolding up using ty ih st False None four by (auto simp: Let_def not_le not_less add.assoc split: if_splits)
    qed
  qed
qed simp

lemma pay_row_fields:
  assumes "pay_row p vs bs" "d \<or> bs = row_bytes vs"
  shows "\<exists>fbs. list_all2 (pay_field p) vs fbs \<and> bs = concat fbs \<and> (d \<or> fbs = map value_bytes vs)"
proof (cases d)
  case False
  from assms(1) have "list_all value_ok vs"
    by (auto simp: pay_row_def pay_field_def list_all2_conv_all_nth list_all_length)
  then show ?thesis using assms(2) False
    by (intro exI [of _ "map value_bytes vs"])
      (auto simp: row_bytes_def pay_field_def list_all2_conv_all_nth list_all_length)
qed (use assms(1) in \<open>auto simp: pay_row_def\<close>)

lemma validate_rows_accepts:
  assumes "list_all2 (pay_row p) rows rs" "bslice (base + pos) (u - pos) b = concat (map frame rs)"
    and "pos \<le> u" "base + u \<le> length b" "\<forall>r\<in>set rs. length r < 2 ^ 32"
    and "list_all (validate_row_schema b) rows" "d \<or> rs = map row_bytes rows" "length p \<le> u"
  shows "validate_chunk_rows_from b base u (num_cols (header b)) d pos = Some (Inr ())"
  using assms(1,2,3,5,6,7)
proof (induction rows rs arbitrary: pos rule: list_all2_induct)
  case Nil
  have "length (bslice (base + pos) (u - pos) b) = u - pos" using assms(4) Nil.prems(2) by simp
  then have "\<not> pos + 4 \<le> u" using Nil.prems(1) by simp
  then show ?case by (subst validate_chunk_rows_from.simps) simp
next
  case (Cons vs rows bs rs)
  let ?n = "length bs"
  have l: "length (bslice (base + pos) (u - pos) b) = u - pos" using Cons.prems(2) assms(4) by simp
  have len: "pos + 4 + ?n + length (concat (map frame rs)) = u"
    using l Cons.prems(1,2) by simp
  have hd4: "bslice (base + pos) 4 b = le_bytes 4 ?n"
    using slice_prefix [of 4 "u - pos" "base + pos" b] Cons.prems(1) len by (simp add: frame_def)
  have n: "rd (base + pos) 4 b = ?n" using hd4 Cons.prems(3) by (simp add: rd_def le_simps)
  then have r: "r32 b (base + pos) = Some ?n" using len assms(4) r32_in [of "base + pos" b] by simp
  have body: "bslice (base + pos + 4) ?n b = bs"
    using slice_slice [of 4 ?n "u - pos" "base + pos" b] Cons.prems(1) len by (simp add: frame_def bslice_def)
  have rest: "bslice (base + (pos + 4 + ?n)) (u - (pos + 4 + ?n)) b = concat (map frame rs)"
  proof -
    have "drop (4 + ?n) (bslice (base + pos) (u - pos) b) = concat (map frame rs)" using Cons.prems(1) by simp
    moreover have "4 + ?n \<le> u - pos" using len by linarith
    ultimately show ?thesis using slice_drop [of "4 + ?n" "u - pos" "base + pos" b] by (simp add: ac_simps)
  qed
  obtain fbs where f: "list_all2 (pay_field p) vs fbs" "bs = concat fbs" "d \<or> fbs = map value_bytes vs"
    using pay_row_fields [OF Cons.hyps(1), of d] Cons.prems(5) by auto
  have sch: "length vs = num_cols (header b)"
    "\<And>j. j < length vs \<Longrightarrow> dtype_from_u32 (cd_dtype (col_desc b (0 + j))) = Some (value_dtype (vs ! j))"
    using Cons.prems(4) by (auto simp: validate_row_schema_def list_all_length nth_enumerate_eq)
  have "validate_cols b (base + pos + 4) ?n d u (length ([] :: byte list)) [0..<0 + length vs] = Some (Inr ())"
    using body f len assms(4) sch by (intro validate_cols_accepts [OF f(1) _ _ _ f(3) assms(8)]) auto
  moreover have "validate_chunk_rows_from b base u (num_cols (header b)) d (pos + 4 + ?n) = Some (Inr ())"
    using Cons.prems len rest by (intro Cons.IH) auto
  ultimately show ?case using len r sch(1) by (subst validate_chunk_rows_from.simps) simp
qed

text \<open>
  Rows that contain references are accepted only under the dedup flag; a plain table has none.
\<close>

definition refs_declared :: "buf \<Rightarrow> Value list ring \<Rightarrow> bool" where
  "refs_declared b s \<longleftrightarrow> odd (flags (header b)) \<or>
     (\<forall>i<num_chunks (header b). parse_rows (payload b i) = map row_bytes (ring_chunks s ! i))"

lemma validate_chunk_accepts:
  assumes "represents b s" "i < num_chunks (header b)" "d \<or> parse_rows (payload b i) = map row_bytes (ring_chunks s ! i)"
  shows "validate_chunk_rows b (chunk_start_off b i) (used (chunk_hdr b i)) (num_cols (header b)) d = Some (Inr ())"
proof -
  note r = representsD [OF assms(1)]
  let ?p = "payload b i" and ?u = "used (chunk_hdr b i)" and ?cs = "chunk_start_off b i"
  have h: "framed ?p" "list_all2 (pay_row ?p) (ring_chunks s ! i) (parse_rows ?p)"
    using r(9) [OF assms(2)] by (auto simp: chunk_rep_def Let_def chunk_view_def holds_def)
  have in_b: "?cs + 40 + ?u \<le> length b"
    using chunks_fitD [OF r(2) assms(2)] chunk_bounds(3) [OF r(1) assms(2)] geom_chunk_size [OF r(1)] by linarith
  have sl: "bslice (?cs + 40 + 0) (?u - 0) b = concat (map frame (parse_rows ?p))"
    using h(1) by (simp add: framed_def) (simp add: payload_def CHUNK_HEADER_SIZE_def)
  have lp: "length ?p \<le> ?u" by (simp add: payload_def length_slice)
  show ?thesis
    unfolding validate_chunk_rows_def CHUNK_HEADER_SIZE_def
    using in_b lp assms(3) r(10) [OF assms(2)] parse_rows_length
    by (intro validate_rows_accepts [OF h(2) sl]) auto
qed

text \<open>
  On a table whose lease slots are all free, \<open>validate_buf\<close> cannot run out of slots: each chunk it
  pins takes slot 0, and dropping the pin frees it again.
\<close>

definition leases_free :: "buf \<Rightarrow> bool" where
  "leases_free b \<longleftrightarrow> (\<forall>i<num_chunks (header b). \<forall>k<lease_slots (header b). lease_state (reader_lease b i k) = 0)"

lemma pin_chunk_free:
  assumes "table_geom b" "chunks_fit b" "leases_free b" "i < num_chunks (header b)"
  shows "pin_chunk os b (chunk_start_off b i) =
    (if state (chunk_hdr b i) = chunk_state_code Empty then (Inr None, b)
     else (Inr (Some (\<lparr>pin_slot = 0, pin_owner_pid = current_process_id os, pin_chunk_index = i,
       pin_chunk_start = chunk_start_off b i, pin_generation = generation (chunk_hdr b i)\<rparr>,
       generation (chunk_hdr b i), used (chunk_hdr b i))), claim_slot os b i 0))"
proof -
  let ?cs = "chunk_start_off b i"
  have sl: "0 < lease_slots (header b)" using table_geomD(4) [OF assms(1)] by (simp add: header_def layout_consts)
  have "lease_state (reader_lease b i 0) = 0" using assms(3,4) sl by (simp add: leases_free_def)
  then have "acquire_slot os b i 0 = Acquired (claim_slot os b i 0)" by (simp add: acquire_slot_def)
  then have ac: "acquire_process_lease os b i = Some (0, claim_slot os b i 0)"
    using sl by (simp add: acquire_process_lease_def upt_conv_Cons)
  have lf: "lease_frame b (claim_slot os b i 0)" by (rule claim_slot_props(1) [OF assms(1,4) sl])
  have ch: "chunk_header (claim_slot os b i 0) ?cs = chunk_hdr b i"
    using lease_frame_chunk_header [OF assms(1) lf assms(4)] by simp
  let ?after = "\<lambda>(_::nat) b1. (state (chunk_header b1 ?cs), generation (chunk_header b1 ?cs))"
  have "pin_chunk os b ?cs = pin_attempts os ?after b i ?cs (chunk_size (header b) - CHUNK_HEADER_SIZE) (Suc 63)"
    using pin_chunk_with_eq [OF assms(1), of os ?after i] by (simp add: pin_chunk_def)
  then show ?thesis
    unfolding pin_attempts.simps(2) Let_def using ac ch chunks_fitD [OF assms(2,4)] by (simp add: layout_consts)
qed

lemma drop_claimed_free:
  assumes "table_geom b" "leases_free b" "i < num_chunks (header b)"
    and "pin_slot p = 0" "pin_owner_pid p = current_process_id os" "pin_chunk_index p = i"
  shows "lease_frame b (drop_pin os (claim_slot os b i 0) p)" "leases_free (drop_pin os (claim_slot os b i 0) p)"
proof -
  let ?b1 = "claim_slot os b i 0" and ?pid = "current_process_id os"
  let ?b2 = "release_process_lease ?b1 i 0 ?pid"
  have d: "drop_pin os ?b1 p = ?b2" using assms(4-6) by (simp add: drop_pin_def)
  have sl: "0 < lease_slots (header b)" using table_geomD(4) [OF assms(1)] by (simp add: header_def layout_consts)
  note c = claim_slot_props [OF assms(1,3) sl, where os = os]
  have h1: "header ?b1 = header b" and g1: "table_geom ?b1"
    by (rule lease_frame_header [OF assms(1) c(1)], rule lease_frame_geom [OF assms(1) c(1)])
  have i1: "i < num_chunks (header ?b1)" "0 < lease_slots (header ?b1)" using assms(3) sl h1 by simp_all
  note rl = release_process_lease_props [OF g1 i1, where pid = ?pid]
  have f2: "lease_frame b ?b2" by (rule lease_frame_trans [OF assms(1) c(1) rl(1)])
  then show "lease_frame b (drop_pin os ?b1 p)" by (simp add: d)
  have h2: "header ?b2 = header b" by (rule lease_frame_header [OF assms(1) f2])
  have "lease_state (reader_lease ?b2 j k) = 0" if jk: "j < num_chunks (header b)" "k < lease_slots (header b)" for j k
  proof (cases "(j, k) = (i, 0)")
    case True
    have "lease_state (reader_lease ?b1 i 0) = pack_lease ?pid 1" using c(2) [OF assms(3) sl] by simp
    from rl(3) [OF this] show ?thesis using True by simp
  next
    case False
    then have "reader_lease ?b2 j k = reader_lease b j k" using rl(2) c(2) jk h1 by auto
    then show ?thesis using assms(2) jk by (simp add: leases_free_def)
  qed
  then show "leases_free (drop_pin os ?b1 p)" by (simp add: d leases_free_def h2)
qed

lemma validate_chunks_opens:
  assumes "represents b s" "leases_free b" "set is \<subseteq> {..<num_chunks (header b)}" "off = data_offset (header b)"
    and "d \<or> (\<forall>i<num_chunks (header b). parse_rows (payload b i) = map row_bytes (ring_chunks s ! i))"
  shows "\<exists>b'. validate_chunks os b off d is = Some (Inr (), b') \<and> lease_frame b b' \<and> leases_free b'"
  using assms
proof (induction "is" arbitrary: b)
  case (Cons i "is")
  note r = representsD [OF Cons.prems(1)]
  let ?cs = "chunk_start_off b i"
  have i: "i < num_chunks (header b)" using Cons.prems(3) by simp
  have cs: "off + i * chunk_size (header b) = ?cs" using Cons.prems(4) by (simp add: chunk_start_off_def)
  have ok: "\<not> 2 < state (chunk_hdr b i)" "\<not> chunk_size (header b) - CHUNK_HEADER_SIZE < used (chunk_hdr b i)"
    using r(9) [OF i] chunks_fitD [OF r(2) i]
    by (cases "ring_state s i"; simp add: chunk_rep_def Let_def chunk_view_def CHUNK_HEADER_SIZE_def)+
  have step: "\<exists>b'. validate_chunks os b2 off d is = Some (Inr (), b') \<and> lease_frame b b' \<and> leases_free b'"
    if fr: "lease_frame b b2" "leases_free b2" for b2
  proof -
    have h: "header b2 = header b" by (rule lease_frame_header [OF r(1) fr(1)])
    have pl: "payload b2 j = payload b j" if "j < num_chunks (header b)" for j
      using payload_lease_frame [OF r(1) fr(1) that] by simp
    from Cons.IH [OF represents_lease_frame [OF Cons.prems(1) fr(1)] fr(2)] Cons.prems h pl
    show ?thesis using lease_frame_trans [OF r(1) fr(1)] by auto
  qed
  note p = pin_chunk_free [OF r(1,2) Cons.prems(2) i, where os = os]
  show ?case
  proof (cases "state (chunk_hdr b i) = chunk_state_code Empty")
    case True
    then show ?thesis using ok p step [OF lease_frame_refl Cons.prems(2)] by (auto simp: Let_def cs)
  next
    case False
    let ?b1 = "claim_slot os b i 0"
    let ?p = "\<lparr>pin_slot = 0, pin_owner_pid = current_process_id os, pin_chunk_index = i,
       pin_chunk_start = ?cs, pin_generation = generation (chunk_hdr b i)\<rparr>"
    have f1: "lease_frame b ?b1"
      using claim_slot_props(1) [OF r(1) i] table_geomD(4) [OF r(1)] by (simp add: header_def layout_consts)
    have h1: "header ?b1 = header b" by (rule lease_frame_header [OF r(1) f1])
    have st: "chunk_start_off ?b1 i = ?cs" using cold_eq_chunk_start lease_frame_cold [OF r(1) f1] by blast
    have v: "validate_chunk_rows ?b1 ?cs (used (chunk_hdr b i)) (num_cols (header ?b1)) d = Some (Inr ())"
      using validate_chunk_accepts [OF represents_lease_frame [OF Cons.prems(1) f1], of i d]
        payload_lease_frame [OF r(1) f1 i] i h1 Cons.prems(5) st by auto
    note dr = drop_claimed_free [OF r(1) Cons.prems(2) i, where p = ?p and os = os]
    show ?thesis
      using ok p False v h1 step [OF dr] by (auto simp: Let_def cs)
  qed
qed simp

lemma validate_buf_chunks:
  assumes "validate_layout addr b = Inr off" "validate_col_descs b [0..<num_cols (header b)] = Inr ()"
    and "ts_col (header b) = 0 \<or> ts_col (header b) \<le> num_cols (header b) \<and>
       dtype_from_u32 (cd_dtype (col_desc b (ts_col (header b) - 1))) = Some DI64"
  shows "validate_buf os addr b = validate_chunks os b off (odd (flags (header b))) [0..<num_chunks (header b)]"
  using assms by (auto simp: validate_buf_def Let_def)

lemma validate_buf_opens:
  assumes "represents b s" "leases_free b" "refs_declared b s" "validate_layout addr b = Inr off"
    and "validate_col_descs b [0..<num_cols (header b)] = Inr ()"
    and "ts_col (header b) = 0 \<or> ts_col (header b) \<le> num_cols (header b) \<and>
       dtype_from_u32 (cd_dtype (col_desc b (ts_col (header b) - 1))) = Some DI64"
  shows "\<exists>b'. validate_buf os addr b = Some (Inr (), b') \<and> represents b' s \<and> lease_frame b b' \<and> leases_free b'"
proof -
  have "set [0..<num_chunks (header b)] \<subseteq> {..<num_chunks (header b)}" by auto
  from validate_chunks_opens [OF assms(1,2) this validate_layout_geom(2) [OF assms(4)], of "odd (flags (header b))" os]
    assms(3) obtain b' where
    v: "validate_chunks os b off (odd (flags (header b))) [0..<num_chunks (header b)] = Some (Inr (), b')"
      "lease_frame b b'" "leases_free b'"
    by (auto simp: refs_declared_def)
  show ?thesis unfolding validate_buf_chunks [OF assms(4-6)] using v represents_lease_frame [OF assms(1) v(2)] by auto
qed

section \<open>Opening a fresh table\<close>

lemma position_nth: "position P xs = Some i \<Longrightarrow> i < length xs \<and> P (xs ! i)"
  by (induction xs arbitrary: i) (auto split: if_splits)

lemma validate_col_descs_ok:
  "\<forall>i\<in>set is. rd 0 2 (cd_name (col_desc b i)) \<le> 54 \<and> 1 \<le> cd_dtype (col_desc b i) \<and> cd_dtype (col_desc b i) \<le> 9 \<Longrightarrow>
   validate_col_descs b is = Inr ()"
  by (induction "is") auto

lemma validate_layout_ok:
  assumes "table_geom b" "length b < 2 ^ 64" "addr mod HEADER_ALIGN = 0" "drop_bit 1 (flags (header b)) = 0"
    and "magic (header b) = MAGIC_MEMT" "version (header b) = VERSION" "header_size (header b) = HEADER_SIZE"
    and "byte_order (header b) = bom_value"
  shows "validate_layout addr b = Inr (data_offset (header b))"
proof -
  let ?h = "header b"
  note g = assms(1) [unfolded table_geom_def Let_def] and d = table_geomD [OF assms(1)]
  have bd: "num_cols ?h < 2 ^ 32" "num_chunks ?h < 2 ^ 32" "data_offset ?h < 2 ^ 32" "lease_offset ?h < 2 ^ 32"
    using rd4_bound [of 16 b] rd4_bound [of 20 b] rd4_bound [of 28 b] rd4_bound [of 64 b] by (simp_all add: header_def)
  have l: "checked_lease_offset (num_cols ?h) = Some (lease_offset ?h)"
    using g bd by (simp add: checked_lease_offset_eq_Some layout_consts)
  have "checked_data_offset (num_cols ?h) (num_chunks ?h) = Some (data_offset ?h)"
    using g bd by (simp add: checked_data_offset_eq_Some layout_consts)
  moreover have "Option.bind (checked_mul (chunk_size ?h) (num_chunks ?h)) (checked_add (data_offset ?h)) =
      Some (data_offset ?h + chunk_size ?h * num_chunks ?h)"
  proof -
    have "data_offset ?h + chunk_size ?h * num_chunks ?h < 2 ^ 64" using d(7) assms(2) by (simp add: header_def)
    then show ?thesis by (simp add: checked_mul_def checked_add_def)
  qed
  moreover have "HEADER_SIZE \<le> length b" "0 < num_chunks ?h" "CHUNK_HEADER_SIZE + 8 \<le> chunk_size ?h" "chunk_size ?h mod 8 = 0"
    "lease_slots ?h = READER_LEASE_SLOTS" "data_offset ?h + chunk_size ?h * num_chunks ?h \<le> length b"
    using g by blast+
  ultimately show ?thesis using bd(3) l assms(3-8) by (simp add: validate_layout_def Let_def)
qed

lemma init_buf_checks:
  assumes "init_buf os iid addr b s csz nch = Inr b'" "csz < 2 ^ 32" "nch < 2 ^ 32" "length b < 2 ^ 64"
    and "length (cols s) < 2 ^ 16"
  shows "validate_layout addr b' = Inr (data_offset (header b'))"
    and "validate_col_descs b' [0..<num_cols (header b')] = Inr ()"
    and "ts_col (header b') = 0 \<or> ts_col (header b') \<le> num_cols (header b') \<and>
       dtype_from_u32 (cd_dtype (col_desc b' (ts_col (header b') - 1))) = Some DI64"
proof -
  note p = init_buf_props [OF assms(1-4)]
  note r = representsD [OF p(2)]
  let ?h = "header b'"
  show "validate_layout addr b' = Inr (data_offset ?h)"
    using p(7,9,12) r(11) by (intro validate_layout_ok [OF r(1)]) auto
  show "validate_col_descs b' [0..<num_cols ?h] = Inr ()"
  proof (rule validate_col_descs_ok, rule ballI)
    fix i assume "i \<in> set [0..<num_cols ?h]"
    then have "col_desc b' i = desc_of (cols s ! i)" using p(5,10) by simp
    then show "rd 0 2 (cd_name (col_desc b' i)) \<le> 54 \<and> 1 \<le> cd_dtype (col_desc b' i) \<and> cd_dtype (col_desc b' i) \<le> 9"
      by (cases "col_dtype (cols s ! i)") (simp_all add: desc_of_def rd_set_name)
  qed
  show "ts_col ?h = 0 \<or> ts_col ?h \<le> num_cols ?h \<and> dtype_from_u32 (cd_dtype (col_desc b' (ts_col ?h - 1))) = Some DI64"
  proof (cases "position (\<lambda>c. col_dtype c = DI64 \<and> col_name c \<in> set TS_COL_NAMES) (cols s)")
    case None
    then show ?thesis using p(6) by (simp add: find_ts_col_def)
  next
    case (Some i)
    note q = position_nth [OF Some]
    then have "find_ts_col s = i + 1" using assms(5) by (simp add: find_ts_col_def Some)
    then show ?thesis using q p(5,6,10) by (simp add: desc_of_def dtype_from_u32_def)
  qed
qed

lemma init_buf_opens:
  assumes "init_buf os iid addr b s csz nch = Inr b'" "csz < 2 ^ 32" "nch < 2 ^ 32" "length b < 2 ^ 64"
    and "length (cols s) < 2 ^ 16"
  shows "\<exists>b''. validate_buf os' addr b' = Some (Inr (), b'') \<and> represents b'' (ring_init nch) \<and>
    (\<forall>i<nch. \<forall>k<READER_LEASE_SLOTS. lease_state (reader_lease b'' i k) = 0)"
proof -
  note p = init_buf_props [OF assms(1-4)]
  note r = representsD [OF p(2)]
  have sl: "lease_slots (header b') = READER_LEASE_SLOTS" using table_geomD(4) [OF r(1)] by (simp add: header_def layout_consts)
  have "parse_rows (payload b' i) = map row_bytes (ring_chunks (ring_init nch) ! i)" if "i < num_chunks (header b')" for i
    using r(9) [OF that] that p(3)
    by (simp add: chunk_rep_def Let_def chunk_view_def ring_init_def holds_def)
  then have rd: "refs_declared b' (ring_init nch)" by (simp add: refs_declared_def)
  have fr: "leases_free b'" using p(11) by (simp add: leases_free_def sl p(3))
  from validate_buf_opens [OF p(2) fr rd init_buf_checks [OF assms]] obtain b'' where
    v: "validate_buf os' addr b' = Some (Inr (), b'')" "represents b'' (ring_init nch)" "lease_frame b' b''" "leases_free b''" by blast
  have "header b'' = header b'" by (rule lease_frame_header [OF r(1) v(3)])
  then show ?thesis using v(1,2,4) by (auto simp: leases_free_def sl p(3))
qed

section \<open>An empty row in a full chunk\<close>

text \<open>
  \<open>RowWriter\<close> tests for room only when a column is put: \<open>finish\<close> on a writer without columns writes
  the four bytes of the row length whether or not they fit.
\<close>

lemma finish_empty_row:
  assumes "represents b s" "\<not> row_fits b 0"
  defines "cs \<equiv> chunk_start_off b (write_chunk (header b))"
  defines "u \<equiv> used (chunk_hdr b (write_chunk (header b)))"
  shows "cs + 40 + u + 4 \<le> length b \<Longrightarrow>
      \<exists>w. finish (make_row_writer b None) = Some (True, w) \<and> header (rw_buf w) = header b \<and>
        used (chunk_header (rw_buf w) cs) = u + 4 \<and> \<not> chunks_fit (rw_buf w)"
    and "length b < cs + 40 + u + 4 \<Longrightarrow> finish (make_row_writer b None) = None"
proof -
  note r = representsD [OF assms(1)]
  let ?i = "write_chunk (header b)" and ?w = "make_row_writer b None"
  have w: "rw_buf ?w = b" "rw_chunk_start ?w = cs" "rw_pos ?w = cs + 40 + u + 4" "rw_row_start ?w = cs + 40 + u"
    "rw_dedup ?w = None" "\<not> rw_overflow ?w" "\<not> rw_done ?w" "rw_pending_ts ?w = None"
    by (simp_all add: make_row_writer_def Let_def cs_def u_def chunk_start_off_def layout_consts)
  have big: "chunk_size (header b) < 40 + u + 4" using assms(2) by (simp add: row_fits_def u_def layout_consts)
  have fit: "u \<le> chunk_size (header b) - 40" unfolding u_def by (rule chunks_fitD [OF r(2,6)])
  have c48: "48 \<le> chunk_size (header b)" by (rule geom_chunk_size [OF r(1)])
  have cs192: "192 \<le> cs" unfolding cs_def by (rule chunk_bounds(1) [OF r(1,6)])
  have small: "u + 4 < 2 ^ 32"
  proof -
    have "chunk_size (header b) < 2 ^ 32" using rd4_bound [of 24 b] by (simp add: header_def)
    moreover have "chunk_size (header b) mod 8 = 0" using table_geomD(8) [OF r(1)] by (simp add: header_def)
    ultimately show ?thesis using fit c48 by linarith
  qed
  show "finish ?w = None" if "length b < cs + 40 + u + 4"
    using that by (simp add: finish_def w Let_def w32_def copy_at_def)
  assume inb: "cs + 40 + u + 4 \<le> length b"
  let ?b1 = "wr (cs + 40 + u) 4 0 b"
  let ?b2 = "publish_row ?b1 cs None (u + 4)"
  let ?w2 = "?w\<lparr>rw_done := True, rw_buf := ?b2, rw_dedup := None\<rparr>"
  have in1: "cs + 40 \<le> length ?b1" using inb by simp
  note pp = publish_row_props [OF in1, where t = None and u = "u + 4"]
  have f: "finish ?w = Some (True, ?w2)"
    using w32_in [OF inb] by (simp add: finish_def w Let_def CHUNK_HEADER_SIZE_def add.commute [of 4 u])
  have sl: "bslice off n ?b2 = bslice off n b" if "off + n \<le> 128" for off n
    using pp(2) [where off = off and n = n] that cs192 inb by (simp add: slice_wr_other)
  have h: "header ?b2 = header b" by (simp add: header_def rd_def sl)
  have uu: "used (chunk_header ?b2 cs) = u + 4" using small by (simp add: pp(3))
  moreover have "\<not> chunks_fit ?b2"
  proof
    assume "chunks_fit ?b2"
    then have fit2: "used (chunk_hdr ?b2 ?i) \<le> chunk_size (header ?b2) - 40"
      by (rule chunks_fitD) (use r(6) h in simp)
    have "chunk_start_off ?b2 ?i = cs" using h by (simp only: chunk_start_off_def cs_def)
    then have "used (chunk_header ?b2 cs) \<le> chunk_size (header b) - 40" using fit2 by (simp only: h)
    then show False using uu big by linarith
  qed
  ultimately show "\<exists>w. finish ?w = Some (True, w) \<and> header (rw_buf w) = header b \<and>
        used (chunk_header (rw_buf w) cs) = u + 4 \<and> \<not> chunks_fit (rw_buf w)"
    using f h by (intro exI [of _ ?w2]) simp
qed

end
