(* ===== verification/Example_Tables.thy ===== *)
theory Example_Tables
  imports Table_Validate
begin

text \<open>
  A concrete table small enough to reason about by hand, at which the theorems of the root theory
  are applied.
\<close>

section \<open>Example tables\<close>

text \<open>A one-column table of one 64-byte chunk, used by the witnesses.\<close>

definition demo_os :: os where
  "demo_os = \<lparr>current_process_id = 7, process_exists = (\<lambda>p. p = 7), process_start_time = (\<lambda>p. 1)\<rparr>"

definition demo_schema :: Schema where
  "demo_schema = schema_col schema_new [0x74, 0x73] DI64"

definition demo_buf :: buf where
  "demo_buf = init_body demo_os 0 demo_schema 64 1 192 448 (replicate 512 0)"

definition demo_hash :: hasher where
  "demo_hash data seed = word_of_nat (length data) + seed"

definition demo_writer :: MemTableWriter where
  "demo_writer = \<lparr>mw_buf = demo_buf, mw_dedup = None\<rparr>"

lemma demo_init: "init_buf demo_os 0 0 (replicate 512 0) demo_schema 64 1 = Inr demo_buf"
  by (simp add: init_buf_def demo_buf_def demo_schema_def schema_col_def schema_new_def push_col_def Let_def
      checked_lease_offset_def checked_data_offset_def checked_add_def checked_mul_def clear_low6_eq layout_consts)

lemma demo_writer_init: "writer_init demo_os 0 0 (replicate 512 0) demo_schema 64 1 = Inr demo_writer"
  unfolding writer_init_def demo_init demo_writer_def by simp

lemma demo_props:
  "represents demo_buf (ring_init 1)" "num_cols (header demo_buf) = 1" "num_chunks (header demo_buf) = 1"
  "col_desc demo_buf 0 = desc_of \<lparr>col_name = [0x74, 0x73], col_dtype = DI64, col_elem_size = 8, col_doc = None\<rparr>"
  "chunk_size (header demo_buf) = 64" "write_chunk (header demo_buf) = 0"
  "i < 16 \<Longrightarrow> lease_state (reader_lease demo_buf 0 i) = 0"
  using init_buf_props [OF demo_init]
  by (auto simp: demo_schema_def schema_col_def schema_new_def push_col_def READER_LEASE_SLOTS_def
      dest: representsD(5) simp: ring_init_def)

lemma demo_row_ok: "row_ok demo_buf [VI64 t]"
  by (simp add: row_ok_def validate_row_schema_def demo_props(2) demo_props(4) [simplified] desc_of_def
      value_ok_def dtype_from_u32_def)


text \<open>The same table with dedup switched on, and two rows to write.\<close>

definition demo_dedup :: MemTableWriter where
  "demo_dedup = writer_set_min_dedup_len (writer_dedup demo_writer) 0"

definition demo_rows :: "((hasher \<times> os) \<times> Value list) list" where
  "demo_rows = [((demo_hash, demo_os), [VI64 5]), ((demo_hash, demo_os), [VI64 6])]"

lemma demo_length: "128 \<le> length demo_buf"
  by (rule table_geomD(1) [OF representsD(1) [OF demo_props(1)]])

lemma demo_rows_ok: "\<forall>(e, vs) \<in> set demo_rows. row_ok (mw_buf demo_dedup) vs"
proof -
  have "mw_buf demo_dedup = wr 12 4 (flags (header demo_buf) OR FLAG_DEDUP) demo_buf"
    by (simp add: demo_dedup_def writer_set_min_dedup_len_def writer_dedup_def demo_writer_def)
  then have "row_ok (mw_buf demo_dedup) [VI64 t]" for t
    using demo_row_ok [of t] wr_flags_col_desc [OF demo_length] wr_flags_header [OF demo_length]
    by (simp add: row_ok_def validate_row_schema_def)
  then show ?thesis by (simp add: demo_rows_def)
qed

lemma demo_slots: "lease_slots (header demo_buf) = 16"
  using table_geomD(4) [OF representsD(1) [OF demo_props(1)]] by (simp add: header_def)

lemma demo_unsaturated: "\<forall>k<lease_slots (header demo_buf). \<not> slot_saturated demo_os (reader_lease demo_buf 0 k)"
  using demo_props(7) by (simp add: demo_slots slot_saturated_def demo_os_def)

lemma demo_try_rows: "\<exists>it b1 p. try_rows demo_os demo_buf 0 = (Inr it, b1) \<and> it_pin it = Some p"
  using try_rows_succeeds [OF demo_props(1) _ _ _ _ demo_unsaturated, of 0] demo_props(7) [of 0] demo_slots
  by (simp add: demo_props(3) [simplified] ring_init_def)

section \<open>Room in the example chunk\<close>

lemma payload_empty_used:
  assumes "represents b s" "i < num_chunks (header b)" "payload b i = []"
  shows "used (chunk_hdr b i) = 0"
proof -
  note r = representsD [OF assms(1)]
  have "chunk_start_off b i + 40 + used (chunk_hdr b i) \<le> length b"
    using chunks_fitD [OF r(2) assms(2)] chunk_bounds(3) [OF r(1) assms(2)] geom_chunk_size [OF r(1)] by linarith
  then have "length (payload b i) = used (chunk_hdr b i)" by (simp add: payload_def CHUNK_HEADER_SIZE_def)
  then show ?thesis using assms(3) by simp
qed

lemma demo_used: "used (chunk_hdr demo_buf 0) = 0"
proof -
  have i: "0 < num_chunks (header demo_buf)" using demo_props(3) by simp
  have "holds (payload demo_buf 0) []"
    using representsD(9) [OF demo_props(1) i] by (simp add: chunk_rep_def Let_def chunk_view_def ring_init_def)
  then have "payload demo_buf 0 = []" by (auto simp: holds_def framed_def)
  then show ?thesis by (rule payload_empty_used [OF demo_props(1) i])
qed

lemma demo_fits: "row_fits demo_buf n \<longleftrightarrow> n \<le> 20"
  by (auto simp: row_fits_def demo_props(5,6) demo_used layout_consts)

definition demo_state :: DedupState where
  "demo_state = dedup_new"

lemma demo_state_inv: "dedup_inv demo_buf demo_state"
  by (simp add: dedup_inv_def demo_state_def demo_props(5))

lemma demo_dedup_fits: "row_fits demo_buf (dedup_row_size demo_hash demo_state demo_buf [VI64 t])"
  by (simp add: demo_fits dedup_row_size_def dedup_lookups_def enumerate_eq_zip)

lemma demo_too_big: "\<not> row_fits demo_buf (writer_row_size demo_hash None demo_buf [VI64 1, VI64 2, VI64 3])"
  by (simp add: demo_fits writer_row_size_def row_fields_def enumerate_eq_zip)

text \<open>The table with one row of eight zero bytes, whose first four bytes read as an empty string.\<close>

definition demo_hit_buf :: buf where
  "demo_hit_buf = snd (the (write_row_bytes demo_buf [VI64 0] 8))"

definition demo_hit_state :: DedupState where
  "demo_hit_state = dedup_insert demo_hash dedup_new 0 [] 44"

lemma demo_hit_appended:
  "appended demo_buf demo_hit_buf 0 (frame (row_bytes [VI64 0])) (row_ts (header demo_buf) [VI64 0])"
  "represents demo_hit_buf (ring_append [VI64 0] (ring_init 1))" "cold_eq demo_buf demo_hit_buf"
proof -
  note r = representsD [OF demo_props(1)]
  have n: "row_data_size [VI64 0] = 8" by (simp add: row_data_size_def)
  have f: "row_fits demo_buf (row_data_size [VI64 0])" by (simp add: demo_fits n)
  from write_row_bytes_appends [OF r(1,6) f [unfolded row_fits_def]]
  show "appended demo_buf demo_hit_buf 0 (frame (row_bytes [VI64 0])) (row_ts (header demo_buf) [VI64 0])"
    by (auto simp: demo_hit_buf_def n demo_props(6))
  from write_row_bytes_represents [OF demo_props(1) demo_row_ok f]
  show "represents demo_hit_buf (ring_append [VI64 0] (ring_init 1))" "cold_eq demo_buf demo_hit_buf"
    by (auto simp: demo_hit_buf_def n)
qed

lemma le_bytes_zero: "le_bytes n 0 = replicate n 0"
  by (induction n) simp_all

lemma demo_hit:
  "write_chunk (header demo_hit_buf) = 0" "num_chunks (header demo_hit_buf) = 1"
  "chunk_size (header demo_hit_buf) = 64"
  "used (chunk_hdr demo_hit_buf 0) = 12" "payload demo_hit_buf 0 = frame (replicate 8 0)"
proof -
  note r = representsD [OF demo_props(1)] and a = demo_hit_appended(1) [unfolded appended_def]
  have i: "0 < num_chunks (header demo_buf)" using demo_props(3) by simp
  have z: "row_bytes [VI64 0] = replicate 8 0"
    by (simp add: row_bytes_def word_le_def le_bytes_zero)
  have "header demo_hit_buf = header demo_buf" using chunk_only_header [OF r(1) i] a by blast
  then show "write_chunk (header demo_hit_buf) = 0" "num_chunks (header demo_hit_buf) = 1"
    "chunk_size (header demo_hit_buf) = 64" by (simp_all add: demo_props)
  show "used (chunk_hdr demo_hit_buf 0) = 12" using a by (simp add: demo_used z)
  show "payload demo_hit_buf 0 = frame (replicate 8 0)"
  proof -
    have "payload demo_buf 0 = []" by (simp add: payload_def demo_used)
    then show ?thesis using a z by simp
  qed
qed

lemma demo_hit_bytes: "bslice (chunk_start_off demo_hit_buf 0 + 44) 4 demo_hit_buf = le_bytes 4 0"
proof -
  have "bslice 4 4 (payload demo_hit_buf 0) = bslice (chunk_start_off demo_hit_buf 0 + 40 + 4) 4 demo_hit_buf"
    by (simp add: payload_def demo_hit(4) CHUNK_HEADER_SIZE_def slice_slice)
  then show ?thesis
    by (simp add: demo_hit(5) frame_def bslice_def le_bytes_zero add.assoc)
qed

lemma demo_hit_inv: "dedup_inv demo_hit_buf demo_hit_state"
proof -
  have "lp_at demo_hit_buf (chunk_start_off demo_hit_buf 0) 12 44"
    by (simp add: lp_at_def rd_def demo_hit_bytes le_simps CHUNK_HEADER_SIZE_def)
  then show ?thesis
    by (simp add: dedup_inv_def demo_hit_state_def demo_hit seen_ok_insert)
qed

lemma demo_hit_lookup:
  "dedup_lookup demo_hash demo_hit_state 0 [] demo_hit_buf (chunk_start_off demo_hit_buf 0) = Some 44"
proof -
  have i: "0 < num_chunks (header demo_hit_buf)" by (simp add: demo_hit(2))
  note r = representsD [OF demo_hit_appended(2)]
  have "chunk_start_off demo_hit_buf 0 + 48 \<le> length demo_hit_buf"
    using chunk_bounds(3) [OF r(1) i] demo_hit(3) by simp
  then show ?thesis unfolding demo_hit_state_def using demo_hit_bytes r(11)
    by (intro dedup_lookup_insert) (simp_all add: dedup_new_def)
qed

text \<open>The table with a second row, which fills the chunk.\<close>

lemma appended_used: "appended b b' i bytes t \<Longrightarrow> used (chunk_hdr b' i) = used (chunk_hdr b i) + length bytes"
  by (simp add: appended_def)

definition demo_full_buf :: buf where
  "demo_full_buf = snd (the (write_row_bytes demo_hit_buf [VI64 0] 8))"

lemma demo_full:
  "represents demo_full_buf (ring_append [VI64 0] (ring_append [VI64 0] (ring_init 1)))" "\<not> row_fits demo_full_buf 0"
proof -
  note r = representsD [OF demo_hit_appended(2)]
  have n: "row_data_size [VI64 0] = 8" by (simp add: row_data_size_def)
  have f: "row_fits demo_hit_buf (row_data_size [VI64 0])" by (simp add: row_fits_def demo_hit n layout_consts)
  have ok: "row_ok demo_hit_buf [VI64 0]" using demo_row_ok row_ok_cong [OF demo_hit_appended(3)] by simp
  from write_row_bytes_represents [OF demo_hit_appended(2) ok f]
  show "represents demo_full_buf (ring_append [VI64 0] (ring_append [VI64 0] (ring_init 1)))"
    by (auto simp: demo_full_buf_def n)
  from write_row_bytes_appends [OF r(1,6) f [unfolded row_fits_def]] obtain b' where
    b': "write_row_bytes demo_hit_buf [VI64 0] 8 = Some (True, b')"
    "appended demo_hit_buf b' 0 (frame (row_bytes [VI64 0])) (row_ts (header demo_hit_buf) [VI64 0])"
    unfolding n demo_hit(1) by blast
  have "demo_full_buf = b'" unfolding demo_full_buf_def b'(1) by simp
  with b'(2) have a: "appended demo_hit_buf demo_full_buf 0 (frame (row_bytes [VI64 0])) (row_ts (header demo_hit_buf) [VI64 0])"
    by (simp only:)
  have i: "0 < num_chunks (header demo_hit_buf)" by (simp add: demo_hit(2))
  have h: "header demo_full_buf = header demo_hit_buf"
    by (rule chunk_only_header [OF r(1) i]) (rule a [unfolded appended_def, THEN conjunct1])
  have "used (chunk_hdr demo_full_buf 0) = 24" using appended_used [OF a] by (simp add: demo_hit(4) row_bytes_def)
  then show "\<not> row_fits demo_full_buf 0" by (simp add: row_fits_def h demo_hit layout_consts)
qed

lemma demo_hit_try_rows: "\<exists>it b1 p. try_rows demo_os demo_hit_buf 0 = (Inr it, b1) \<and> it_pin it = Some p"
proof -
  note r = representsD [OF demo_props(1)]
  have i: "0 < num_chunks (header demo_buf)" using demo_props(3) by simp
  have co: "chunk_only demo_buf demo_hit_buf 0" using demo_hit_appended(1) by (simp add: appended_def)
  have l: "reader_lease demo_hit_buf 0 k = reader_lease demo_buf 0 k" if "k < 16" for k
    using chunk_only_leases [OF r(1) i co i, of k] that demo_slots by simp
  have n: "lease_slots (header demo_hit_buf) = 16"
    using chunk_only_header [OF r(1) i co] demo_slots by simp
  have z: "lease_state (reader_lease demo_hit_buf 0 k) = 0" if "k < 16" for k using l [OF that] demo_props(7) [OF that] by simp
  then have "\<forall>k<lease_slots (header demo_hit_buf). \<not> slot_saturated demo_os (reader_lease demo_hit_buf 0 k)"
    by (simp add: n slot_saturated_def demo_os_def)
  then show ?thesis
    using try_rows_succeeds [OF demo_hit_appended(2), of 0 0 demo_os] z [of 0] n
    by (simp add: demo_hit(2) [simplified] ring_append_def ring_init_def)
qed

text \<open>Opening the empty table succeeds.\<close>

lemma demo_validates: "\<exists>b'. validate_buf demo_os 0 demo_buf = Some (Inr (), b')"
proof -
  note r = representsD [OF demo_props(1)]
  have n: "length (cols demo_schema) < 2 ^ 16" by (simp add: demo_schema_def schema_col_def schema_new_def push_col_def)
  have ck: "validate_layout 0 demo_buf = Inr (data_offset (header demo_buf))"
    "validate_col_descs demo_buf [0..<num_cols (header demo_buf)] = Inr ()"
    "ts_col (header demo_buf) = 0 \<or> ts_col (header demo_buf) \<le> num_cols (header demo_buf) \<and>
       dtype_from_u32 (cd_dtype (col_desc demo_buf (ts_col (header demo_buf) - 1))) = Some DI64"
    using init_buf_checks [OF demo_init _ _ _ n] by simp_all
  let ?cs = "chunk_start_off demo_buf 0"
  have cs: "data_offset (header demo_buf) = ?cs" by (simp add: chunk_start_off_def)
  from demo_try_rows obtain p g u b1 where pin: "pin_chunk demo_os demo_buf ?cs = (Inr (Some (p, g, u)), b1)"
    by (auto simp: try_rows_def demo_props(3) [simplified] Let_def split: sum.splits option.splits prod.splits)
  have i: "0 < num_chunks (header demo_buf)" using demo_props(3) by simp
  have u: "u = 0" using pin_chunk_with_Some(7) [OF r(1) i pin [unfolded pin_chunk_def]] demo_used by simp
  have "state (chunk_hdr demo_buf 0) = chunk_state_code (ring_state (ring_init 1 :: Value list ring) 0)"
    using r(9) [OF i] by (simp add: chunk_rep_def Let_def chunk_view_def)
  then have st: "\<not> 2 < state (chunk_hdr demo_buf 0)" by (simp add: ring_state_def ring_init_def)
  show ?thesis
    unfolding validate_buf_chunks [OF ck]
    using pin st u demo_used by (simp add: demo_props(3) [simplified] Let_def cs)
qed

end
