(* ===== verification/Memh_Codec.thy ===== *)
theory Memh_Codec
  imports Schema
begin

text \<open>
  Arena records of the MEMH key-value table (\<open>probing/memtable/src/memh/codec.rs\<close>): the 28-byte
  record header, the three kinds of record (a key with its value, a key whose scalar value lives
  in the slot, a deletion), the 8-byte inline form of a scalar, and their decoders. The hash
  \<open>xxh3_64_with_seed\<close> belongs to another crate and is an argument of \<open>hash_key\<close>.
\<close>

unbundle bit_operations_syntax

section \<open>Constants and structures\<close>

definition FLAG_PUT :: nat where "FLAG_PUT = 1"
definition FLAG_TOMBSTONE :: nat where "FLAG_TOMBSTONE = 2"
definition FLAG_PUT_INLINE :: nat where "FLAG_PUT_INLINE = 3"
definition DTYPE_NONE :: nat where "DTYPE_NONE = 0xFFFFFFFF"
definition NO_PREV :: nat where "NO_PREV = 0xFFFFFFFF"
definition ARENA_HDR_SIZE :: nat where "ARENA_HDR_SIZE = 28"

lemmas codec_consts =
  FLAG_PUT_def FLAG_TOMBSTONE_def FLAG_PUT_INLINE_def DTYPE_NONE_def NO_PREV_def ARENA_HDR_SIZE_def

record ArenaRecordHeader =
  record_len :: nat
  rec_slot_idx :: nat
  hash_lo :: nat
  hash_hi :: nat
  prev_off :: nat
  rec_flags :: nat
  rec_key_len :: nat
  rec_val_dtype :: nat

definition rec_hash :: "ArenaRecordHeader \<Rightarrow> u64" where
  "rec_hash h = word_of_nat (hash_lo h) OR push_bit 32 (word_of_nat (hash_hi h))"

datatype TypedValue =
    TU8 byte | TI32 i32 | TI64 i64 | TF32 f32 | TF64 f64 | TU64 u64 | TU32 u32
  | TStr "byte list" | TBytes "byte list"

fun typed_dtype :: "TypedValue \<Rightarrow> DType" where
  "typed_dtype (TU8 _) = DU8"
| "typed_dtype (TI32 _) = DI32"
| "typed_dtype (TI64 _) = DI64"
| "typed_dtype (TF32 _) = DF32"
| "typed_dtype (TF64 _) = DF64"
| "typed_dtype (TU64 _) = DU64"
| "typed_dtype (TU32 _) = DU32"
| "typed_dtype (TStr _) = DStr"
| "typed_dtype (TBytes _) = DBytes"

section \<open>Helpers\<close>

fun is_scalar_dtype :: "DType \<Rightarrow> bool" where
  "is_scalar_dtype DStr = False"
| "is_scalar_dtype DBytes = False"
| "is_scalar_dtype _ = True"

text \<open>\<open>(n + 3) & !3\<close>.\<close>

definition align4 :: "usize \<Rightarrow> usize" where
  "align4 n = push_bit 2 (drop_bit 2 (n + 3))"

definition hash_key :: "(u64 \<Rightarrow> byte list \<Rightarrow> u64) \<Rightarrow> u64 \<Rightarrow> byte list \<Rightarrow> u64" where
  "hash_key xxh3 seed key = xxh3 seed key"

section \<open>Inline scalars\<close>

definition encode_inline_bytes :: "Value \<Rightarrow> (nat \<times> byte list) option" where
  "encode_inline_bytes v =
    (if \<not> is_scalar_dtype (value_dtype v) then None
     else do {
       (out, n) \<leftarrow> encode_at v 0 (replicate 8 0);
       Some (dtype_code (value_dtype v), out)
     })"

definition decode_inline_value :: "nat \<Rightarrow> byte list \<Rightarrow> TypedValue option" where
  "decode_inline_value val_dtype vb = do {
     dt \<leftarrow> dtype_from_u32 val_dtype;
     (case dt of
        DU8 \<Rightarrow> Some (TU8 (vb ! 0))
      | DI32 \<Rightarrow> Some (TI32 (word_of_le (take 4 vb)))
      | DI64 \<Rightarrow> Some (TI64 (word_of_le (take 8 vb)))
      | DF32 \<Rightarrow> Some (TF32 (word_of_le (take 4 vb)))
      | DF64 \<Rightarrow> Some (TF64 (word_of_le (take 8 vb)))
      | DU64 \<Rightarrow> Some (TU64 (word_of_le (take 8 vb)))
      | DU32 \<Rightarrow> Some (TU32 (word_of_le (take 4 vb)))
      | DStr \<Rightarrow> None
      | DBytes \<Rightarrow> None)
   }"

definition slot_inline_value :: "nat \<Rightarrow> byte list \<Rightarrow> TypedValue option" where
  "slot_inline_value val_dtype vb = decode_inline_value val_dtype vb"

section \<open>Value payloads\<close>

definition payload_bytes :: "byte list \<Rightarrow> byte list option" where
  "payload_bytes p = do {
     l \<leftarrow> get_range p 0 4;
     hi \<leftarrow> checked_add 4 (le_nat l);
     get_range p 4 hi
   }"

fun decode_value_payload :: "DType \<Rightarrow> byte list \<Rightarrow> TypedValue option" where
  "decode_value_payload DU8 p = (case p of [] \<Rightarrow> None | x # _ \<Rightarrow> Some (TU8 x))"
| "decode_value_payload DI32 p = map_option (\<lambda>bs. TI32 (word_of_le bs)) (get_range p 0 4)"
| "decode_value_payload DI64 p = map_option (\<lambda>bs. TI64 (word_of_le bs)) (get_range p 0 8)"
| "decode_value_payload DF32 p = map_option (\<lambda>bs. TF32 (word_of_le bs)) (get_range p 0 4)"
| "decode_value_payload DF64 p = map_option (\<lambda>bs. TF64 (word_of_le bs)) (get_range p 0 8)"
| "decode_value_payload DU64 p = map_option (\<lambda>bs. TU64 (word_of_le bs)) (get_range p 0 8)"
| "decode_value_payload DU32 p = map_option (\<lambda>bs. TU32 (word_of_le bs)) (get_range p 0 4)"
| "decode_value_payload DStr p = do { bs \<leftarrow> payload_bytes p; s \<leftarrow> from_utf8 bs; Some (TStr s) }"
| "decode_value_payload DBytes p = do { bs \<leftarrow> payload_bytes p; Some (TBytes bs) }"

section \<open>Encoding records\<close>

definition write_hdr :: "byte list \<Rightarrow> nat \<Rightarrow> nat \<Rightarrow> u64 \<Rightarrow> nat \<Rightarrow> nat \<Rightarrow> nat \<Rightarrow> nat \<Rightarrow> byte list" where
  "write_hdr out rlen slot h prev fl klen dt =
    out @ le_bytes 4 rlen @ le_bytes 4 slot @ le_bytes 4 (unat h) @ le_bytes 4 (unat (drop_bit 32 h)) @
    le_bytes 4 prev @ le_bytes 2 fl @ le_bytes 2 klen @ le_bytes 4 dt"

text \<open>\<open>out.resize(n, 0)\<close>, for \<open>n\<close> no shorter than the vector.\<close>

definition resize0 :: "byte list \<Rightarrow> usize \<Rightarrow> byte list" where
  "resize0 out n = take n out @ replicate (n - length out) 0"

definition encode_put_record ::
  "byte list \<Rightarrow> Value \<Rightarrow> nat \<Rightarrow> u64 \<Rightarrow> nat \<Rightarrow> byte list \<Rightarrow> (usize \<times> byte list) option" where
  "encode_put_record key v slot h prev out =
    (let val_sz = encoded_size v;
         rlen = align4 (ARENA_HDR_SIZE + (length key + val_sz));
         start = length out;
         out = write_hdr out rlen slot h prev FLAG_PUT (length key) (dtype_code (value_dtype v)) @ key;
         prv = length out
     in do {
       (out, _) \<leftarrow> encode_at v prv (resize0 out (prv + val_sz));
       let cur = length out - start;
       Some (align4 cur, resize0 out (start + align4 cur))
     })"

definition encode_put_inline_record ::
  "byte list \<Rightarrow> nat \<Rightarrow> u64 \<Rightarrow> nat \<Rightarrow> byte list \<Rightarrow> usize \<times> byte list" where
  "encode_put_inline_record key slot h prev out =
    (let rlen = align4 (ARENA_HDR_SIZE + length key);
         start = length out;
         out = write_hdr out rlen slot h prev FLAG_PUT_INLINE (length key) DTYPE_NONE @ key;
         cur = length out - start
     in (align4 cur, resize0 out (start + align4 cur)))"

definition encode_tombstone_record ::
  "byte list \<Rightarrow> nat \<Rightarrow> u64 \<Rightarrow> nat \<Rightarrow> byte list \<Rightarrow> usize \<times> byte list" where
  "encode_tombstone_record key slot h prev out =
    (let rlen = align4 (ARENA_HDR_SIZE + length key);
         start = length out;
         out = write_hdr out rlen slot h prev FLAG_TOMBSTONE (length key) DTYPE_NONE @ key;
         cur = length out - start
     in (align4 cur, resize0 out (start + align4 cur)))"

section \<open>Decoding records\<close>

definition read_record_header :: "byte list \<Rightarrow> ArenaRecordHeader option" where
  "read_record_header data = do {
     d \<leftarrow> get_range data 0 ARENA_HDR_SIZE;
     Some \<lparr>record_len = rd 0 4 d, rec_slot_idx = rd 4 4 d, hash_lo = rd 8 4 d, hash_hi = rd 12 4 d,
           prev_off = rd 16 4 d, rec_flags = rd 20 2 d, rec_key_len = rd 22 2 d, rec_val_dtype = rd 24 4 d\<rparr>
   }"

definition record_key :: "ArenaRecordHeader \<Rightarrow> byte list \<Rightarrow> byte list option" where
  "record_key h data =
    (if record_len h < ARENA_HDR_SIZE \<or> length data < record_len h then None
     else do {
       key_end \<leftarrow> checked_add ARENA_HDR_SIZE (rec_key_len h);
       (if record_len h < key_end then None
        else do { bs \<leftarrow> get_range data ARENA_HDR_SIZE key_end; from_utf8 bs })
     })"

definition record_value :: "ArenaRecordHeader \<Rightarrow> byte list \<Rightarrow> TypedValue option" where
  "record_value h data =
    (if rec_flags h \<noteq> FLAG_PUT then None
     else do {
       dt \<leftarrow> dtype_from_u32 (rec_val_dtype h);
       p \<leftarrow> get_range data (ARENA_HDR_SIZE + rec_key_len h) (record_len h);
       decode_value_payload dt p
     })"

fun typed_value_to_value :: "TypedValue \<Rightarrow> Value" where
  "typed_value_to_value (TU8 v) = VU8 v"
| "typed_value_to_value (TI32 v) = VI32 v"
| "typed_value_to_value (TI64 v) = VI64 v"
| "typed_value_to_value (TF32 v) = VF32 v"
| "typed_value_to_value (TF64 v) = VF64 v"
| "typed_value_to_value (TU64 v) = VU64 v"
| "typed_value_to_value (TU32 v) = VU32 v"
| "typed_value_to_value (TStr s) = VStr s"
| "typed_value_to_value (TBytes b) = VBytes b"

section \<open>Round trips\<close>

text \<open>
  What a reader should get for a stored value, and the values the format can hold: text is UTF-8
  (as every Rust \<open>&str\<close> is) and a byte string is shorter than \<open>2^32\<close>.
\<close>

fun typed_of :: "Value \<Rightarrow> TypedValue" where
  "typed_of (VU8 v) = TU8 v"
| "typed_of (VU32 v) = TU32 v"
| "typed_of (VI32 v) = TI32 v"
| "typed_of (VI64 v) = TI64 v"
| "typed_of (VF32 v) = TF32 v"
| "typed_of (VF64 v) = TF64 v"
| "typed_of (VU64 v) = TU64 v"
| "typed_of (VStr s) = TStr s"
| "typed_of (VBytes b) = TBytes b"

fun storable :: "Value \<Rightarrow> bool" where
  "storable (VStr s) = (utf8_ok s \<and> length s < 2 ^ 32)"
| "storable (VBytes b) = (length b < 2 ^ 32)"
| "storable _ = True"

abbreviation scalar :: "Value \<Rightarrow> bool" where
  "scalar v \<equiv> is_scalar_dtype (value_dtype v)"

lemma typed_value_to_value_of [simp]: "typed_value_to_value (typed_of v) = v"
  by (cases v) simp_all

lemma typed_of_to_value [simp]: "typed_of (typed_value_to_value t) = t"
  by (cases t) simp_all

lemma typed_of_inj [simp]: "typed_of v = typed_of w \<longleftrightarrow> v = w"
  by (metis typed_value_to_value_of)

lemma typed_dtype_of [simp]: "typed_dtype (typed_of v) = value_dtype v"
  by (cases v) simp_all

lemma align4_eq: "align4 n = (n + 3) div 4 * 4"
  by (simp add: align4_def push_bit_eq_mult drop_bit_eq_div)

lemma align4_bounds: "n \<le> align4 n" "align4 n < n + 4" "align4 n mod 4 = 0"
  unfolding align4_eq by (presburger, presburger, simp)

lemma scalar_size: "scalar v \<Longrightarrow> encoded_size v \<le> 8"
  by (cases v) simp_all

lemma encode_inline_bytes_eq:
  "encode_inline_bytes v =
    (if scalar v then Some (dtype_code (value_dtype v), value_bytes v @ replicate (8 - encoded_size v) 0)
     else None)"
  using scalar_size [of v]
  by (auto simp: encode_inline_bytes_def encode_at_def copy_at_def bsplice_def)

lemma inline_round_trip:
  "encode_inline_bytes v = Some (dt, bs) \<Longrightarrow> slot_inline_value dt bs = Some (typed_of v)"
  by (cases v) (auto simp: encode_inline_bytes_eq slot_inline_value_def decode_inline_value_def
      u64_codec.dec_prefix u32_codec.dec_prefix dtype_from_u32_def word_of_le_word_le)

lemma inline_bytes_length: "encode_inline_bytes v = Some (dt, bs) \<Longrightarrow> length bs = 8 \<and> dt < 256"
  using scalar_size [of v] dtype_code_range [of "value_dtype v"]
  by (auto simp: encode_inline_bytes_eq split: if_splits)

lemma get_range_prefix: "length a = n \<Longrightarrow> get_range (a @ b) 0 n = Some a"
  by (auto simp: get_range_eq_Some bslice_def)

lemma payload_bytes_append:
  assumes "length s < 2 ^ 32"
  shows "payload_bytes ((le_bytes 4 (length s) @ s) @ pad) = Some s"
proof -
  have l: "le_nat (le_bytes 4 (length s)) = length s" using assms by (simp add: le_simps)
  have g: "get_range (le_bytes 4 (length s) @ s @ pad) 4 (4 + length s) = Some s"
    by (simp add: get_range_def bslice_def)
  then show ?thesis using assms by (simp add: payload_bytes_def get_range_prefix l checked_add_def)
qed

lemma payload_round_trip:
  "storable v \<Longrightarrow> decode_value_payload (value_dtype v) (value_bytes v @ pad) = Some (typed_of v)"
  by (cases v) (auto simp: get_range_prefix word_of_le_word_le payload_bytes_append
      payload_bytes_append [simplified] from_utf8_def word_le_def [symmetric] simp del: append_assoc)

text \<open>
  The bytes every encoder produces: header, key, payload and zeros up to a multiple of four. The
  declared length is the length of the record.
\<close>

definition arena_record :: "byte list \<Rightarrow> nat \<Rightarrow> u64 \<Rightarrow> nat \<Rightarrow> nat \<Rightarrow> nat \<Rightarrow> byte list \<Rightarrow> byte list" where
  "arena_record key slot h prev fl dt payload =
    (let n = ARENA_HDR_SIZE + (length key + length payload) in
     write_hdr [] (align4 n) slot h prev fl (length key) dt @ key @ payload @ replicate (align4 n - n) 0)"

lemma length_write_hdr [simp]: "length (write_hdr out rlen slot h prev fl klen dt) = length out + 28"
  by (simp add: write_hdr_def)

lemma write_hdr_append: "write_hdr out rlen slot h prev fl klen dt = out @ write_hdr [] rlen slot h prev fl klen dt"
  by (simp add: write_hdr_def)

lemma length_arena_record:
  "length (arena_record key slot h prev fl dt payload) = align4 (28 + (length key + length payload))"
  using align4_bounds(1) [of "28 + (length key + length payload)"]
  by (simp add: arena_record_def Let_def codec_consts)

lemma encode_put_record_eq:
  "encode_put_record key v slot h prev out =
    Some (align4 (28 + (length key + encoded_size v)),
          out @ arena_record key slot h prev FLAG_PUT (dtype_code (value_dtype v)) (value_bytes v))"
proof -
  let ?n = "28 + (length key + encoded_size v)"
  let ?w = "write_hdr [] (align4 ?n) slot h prev FLAG_PUT (length key) (dtype_code (value_dtype v))"
  let ?o = "out @ ?w @ key"
  have e: "encode_at v (length ?o) (resize0 ?o (length ?o + encoded_size v)) = Some (?o @ value_bytes v, encoded_size v)"
    by (simp add: encode_at_eq_Some resize0_def bsplice_def)
  have r: "resize0 (?o @ value_bytes v) (length out + align4 ?n) = out @ arena_record key slot h prev FLAG_PUT (dtype_code (value_dtype v)) (value_bytes v)"
    using align4_bounds(1) [of ?n] by (simp add: resize0_def arena_record_def Let_def ARENA_HDR_SIZE_def)
  show ?thesis
    using e r by (simp add: encode_put_record_def Let_def write_hdr_append [of out] ARENA_HDR_SIZE_def add.assoc)
qed

lemma encode_key_record_eq:
  "encode_put_inline_record key slot h prev out =
    (align4 (28 + length key), out @ arena_record key slot h prev FLAG_PUT_INLINE DTYPE_NONE [])"
  "encode_tombstone_record key slot h prev out =
    (align4 (28 + length key), out @ arena_record key slot h prev FLAG_TOMBSTONE DTYPE_NONE [])"
  using align4_bounds(1) [of "28 + length key"]
  by (simp_all add: encode_put_inline_record_def encode_tombstone_record_def Let_def resize0_def
      arena_record_def write_hdr_append [of out] ARENA_HDR_SIZE_def)

text \<open>Reading a field of the header back.\<close>

lemma rd_field: "length a = off \<Longrightarrow> rd off n (a @ le_bytes n v @ c) = v mod 256 ^ n"
  by (simp add: rd_def bslice_def le_simps)

lemma rd_hdr_fields:
  fixes h :: u64 and rlen slot prev fl klen dt :: nat
  defines "H \<equiv> write_hdr [] rlen slot h prev fl klen dt"
  shows "rd 0 4 H = rlen mod 2 ^ 32" "rd 4 4 H = slot mod 2 ^ 32"
    "rd 8 4 H = unat h mod 2 ^ 32" "rd 12 4 H = unat (drop_bit 32 h) mod 2 ^ 32"
    "rd 16 4 H = prev mod 2 ^ 32" "rd 20 2 H = fl mod 2 ^ 16" "rd 22 2 H = klen mod 2 ^ 16"
    "rd 24 4 H = dt mod 2 ^ 32"
proof -
  let ?f = "le_bytes 4 rlen" and ?s = "le_bytes 4 slot" and ?l = "le_bytes 4 (unat h)"
    and ?h = "le_bytes 4 (unat (drop_bit 32 h))" and ?p = "le_bytes 4 prev" and ?g = "le_bytes 2 fl"
    and ?k = "le_bytes 2 klen" and ?d = "le_bytes 4 dt"
  show "rd 0 4 H = rlen mod 2 ^ 32" using rd_field [of "[]" 0 4 rlen "?s @ ?l @ ?h @ ?p @ ?g @ ?k @ ?d"] by (simp add: H_def write_hdr_def)
  show "rd 4 4 H = slot mod 2 ^ 32" using rd_field [of "?f" 4 4 slot "?l @ ?h @ ?p @ ?g @ ?k @ ?d"] by (simp add: H_def write_hdr_def)
  show "rd 8 4 H = unat h mod 2 ^ 32" using rd_field [of "?f @ ?s" 8 4 "unat h" "?h @ ?p @ ?g @ ?k @ ?d"] by (simp add: H_def write_hdr_def)
  show "rd 12 4 H = unat (drop_bit 32 h) mod 2 ^ 32" using rd_field [of "?f @ ?s @ ?l" 12 4 "unat (drop_bit 32 h)" "?p @ ?g @ ?k @ ?d"] by (simp add: H_def write_hdr_def)
  show "rd 16 4 H = prev mod 2 ^ 32" using rd_field [of "?f @ ?s @ ?l @ ?h" 16 4 prev "?g @ ?k @ ?d"] by (simp add: H_def write_hdr_def)
  show "rd 20 2 H = fl mod 2 ^ 16" using rd_field [of "?f @ ?s @ ?l @ ?h @ ?p" 20 2 fl "?k @ ?d"] by (simp add: H_def write_hdr_def)
  show "rd 22 2 H = klen mod 2 ^ 16" using rd_field [of "?f @ ?s @ ?l @ ?h @ ?p @ ?g" 22 2 klen "?d"] by (simp add: H_def write_hdr_def)
  show "rd 24 4 H = dt mod 2 ^ 32" using rd_field [of "?f @ ?s @ ?l @ ?h @ ?p @ ?g @ ?k" 24 4 dt "[]"] by (simp add: H_def write_hdr_def)
qed

text \<open>The header the decoder sees; every field is cut to its width.\<close>

definition record_hdr :: "byte list \<Rightarrow> nat \<Rightarrow> u64 \<Rightarrow> nat \<Rightarrow> nat \<Rightarrow> nat \<Rightarrow> usize \<Rightarrow> ArenaRecordHeader" where
  "record_hdr key slot h prev fl dt plen =
    \<lparr>record_len = align4 (28 + (length key + plen)) mod 2 ^ 32, rec_slot_idx = slot mod 2 ^ 32,
     hash_lo = unat h mod 2 ^ 32, hash_hi = unat (drop_bit 32 h) mod 2 ^ 32, prev_off = prev mod 2 ^ 32,
     rec_flags = fl mod 2 ^ 16, rec_key_len = length key mod 2 ^ 16, rec_val_dtype = dt mod 2 ^ 32\<rparr>"

lemma read_record_header_arena:
  "read_record_header (arena_record key slot h prev fl dt payload @ rest) =
    Some (record_hdr key slot h prev fl dt (length payload))"
proof -
  let ?n = "28 + (length key + length payload)"
  let ?H = "write_hdr [] (align4 ?n) slot h prev fl (length key) dt"
  have "get_range (arena_record key slot h prev fl dt payload @ rest) 0 28 = Some ?H"
    by (simp add: arena_record_def Let_def ARENA_HDR_SIZE_def get_range_prefix)
  then show ?thesis
    by (simp add: read_record_header_def ARENA_HDR_SIZE_def rd_hdr_fields record_hdr_def)
qed

lemma rec_hash_record_hdr: "rec_hash (record_hdr key slot h prev fl dt n) = h"
proof -
  have hi: "unat (drop_bit 32 h) < 2 ^ 32"
    using unat_bound [of h] by (simp add: drop_bit_eq_div unat_div_distrib less_mult_imp_div_less)
  have "unat (take_bit 32 h) = unat h mod 2 ^ 32"
    by (simp add: take_bit_eq_mod unat_mod_distrib)
  moreover have "word_of_nat (unat (take_bit 32 h)) = take_bit 32 h" by (simp del: unsigned_take_bit_eq)
  ultimately have "word_of_nat (unat h mod 2 ^ 32) = take_bit 32 h" by (simp only:)
  then have lo: "word_of_nat (hash_lo (record_hdr key slot h prev fl dt n)) = take_bit 32 h"
    by (simp add: record_hdr_def)
  have "word_of_nat (hash_hi (record_hdr key slot h prev fl dt n)) = drop_bit 32 h"
    using hi by (simp add: record_hdr_def)
  moreover have "take_bit 32 h OR push_bit 32 (drop_bit 32 h) = h"
  proof (rule bit_word_eqI)
    fix n assume "n < LENGTH(64)"
    then show "bit (take_bit 32 h OR push_bit 32 (drop_bit 32 h)) n = bit h n"
      by (cases "n < 32") (auto simp: bit_or_iff bit_take_bit_iff bit_push_bit_iff bit_drop_bit_eq)
  qed
  ultimately show ?thesis using lo by (simp add: rec_hash_def)
qed

lemma record_key_arena:
  assumes "length key < 2 ^ 16" "utf8_ok key" "align4 (28 + (length key + length payload)) < 2 ^ 32"
  shows "record_key (record_hdr key slot h prev fl dt (length payload))
      (arena_record key slot h prev fl dt payload @ rest) = Some key"
proof -
  let ?n = "28 + (length key + length payload)"
  have a: "?n \<le> align4 ?n" by (rule align4_bounds)
  have "get_range (arena_record key slot h prev fl dt payload @ rest) 28 (28 + length key) = Some key"
    using a by (simp add: get_range_def arena_record_def Let_def ARENA_HDR_SIZE_def bslice_def)
  then show ?thesis
    using assms a by (simp add: record_key_def record_hdr_def ARENA_HDR_SIZE_def length_arena_record checked_add_def from_utf8_def)
qed

lemma record_key_length: "record_key h data = Some k \<Longrightarrow> length k = rec_key_len h"
  by (auto simp: record_key_def from_utf8_def get_range_eq_Some bind_eq_Some_conv length_slice split: if_splits)

lemma record_value_arena:
  assumes "length key < 2 ^ 16" "storable v" "align4 (28 + (length key + encoded_size v)) < 2 ^ 32"
  shows "record_value (record_hdr key slot h prev FLAG_PUT (dtype_code (value_dtype v)) (encoded_size v))
      (arena_record key slot h prev FLAG_PUT (dtype_code (value_dtype v)) (value_bytes v) @ rest) = Some (typed_of v)"
proof -
  let ?n = "28 + (length key + encoded_size v)"
  let ?r = "arena_record key slot h prev FLAG_PUT (dtype_code (value_dtype v)) (value_bytes v) @ rest"
  have a: "?n \<le> align4 ?n" by (rule align4_bounds)
  have "get_range ?r (28 + length key) (align4 ?n) = Some (value_bytes v @ replicate (align4 ?n - ?n) 0)"
    using a by (simp add: get_range_def arena_record_def Let_def ARENA_HDR_SIZE_def bslice_def)
  moreover have "dtype_code (value_dtype v) mod 2 ^ 32 = dtype_code (value_dtype v)"
    using dtype_code_range [of "value_dtype v"] by simp
  ultimately show ?thesis
    using assms payload_round_trip [OF assms(2)]
    by (simp add: record_value_def record_hdr_def codec_consts)
qed

lemma record_value_key_only: "fl < 2 ^ 16 \<Longrightarrow> fl \<noteq> FLAG_PUT \<Longrightarrow> record_value (record_hdr key slot h prev fl dt n) data = None"
  by (simp add: record_value_def record_hdr_def)

end
