(* ===== verification/Memh_Layout.thy ===== *)
theory Memh_Layout
  imports Lease Memh_Codec
begin

text \<open>
  The buffer of a MEMH key-value table (\<open>probing/memtable/src/memh/layout.rs\<close>): the 128-byte header
  with the writer's owner fields and the recovery journal, the metadata, the 32-byte bucket slots
  as four 64-bit words, and the operations on them.

  The slot mutators are given as the sequence of atomic stores they make (offset, width, value), in
  program order; running to completion performs them all, a writer that dies has performed a
  prefix. What they load (the journal image, the control word, the first word) is not stored to
  before it is loaded, so it is read from the buffer at entry. \<open>acquire_writer\<close> and \<open>read_slot\<close> run
  without interference here (\<open>Seqlock\<close> treats the interleaved read); the spin loop of \<open>read_slot\<close>
  gets a bound on its iterations and is \<^term>\<open>None\<close> when the slot is still busy after it.
\<close>

section \<open>Constants and structures\<close>

definition MAGIC_MEMH :: nat where "MAGIC_MEMH = 0x484D454D"
definition VERSION_MEMH :: nat where "VERSION_MEMH = 5"
definition SLOT_STRIDE :: nat where "SLOT_STRIDE = 32"
definition SLOT_EMPTY :: nat where "SLOT_EMPTY = 0"
definition SLOT_TOMBSTONE :: nat where "SLOT_TOMBSTONE = 1"
definition SLOT_OCCUPIED :: nat where "SLOT_OCCUPIED = 2"
definition SLOT_INLINE :: nat where "SLOT_INLINE = 3"
definition SLOT_WORDS :: nat where "SLOT_WORDS = SLOT_STRIDE div 8"
definition MEMH_HEADER_SIZE :: nat where "MEMH_HEADER_SIZE = 128"
definition MEMH_META_SIZE :: nat where "MEMH_META_SIZE = 32"
definition MEMH_ALIGN :: nat where "MEMH_ALIGN = 8"

lemmas memh_consts =
  MAGIC_MEMH_def VERSION_MEMH_def SLOT_STRIDE_def SLOT_EMPTY_def SLOT_TOMBSTONE_def SLOT_OCCUPIED_def
  SLOT_INLINE_def SLOT_WORDS_def MEMH_HEADER_SIZE_def MEMH_META_SIZE_def MEMH_ALIGN_def

record MemhHeader =
  mh_magic :: nat
  mh_version :: nat
  mh_header_size :: nat
  mh_byte_order :: nat
  mh_flags :: nat
  num_buckets :: nat
  mh_data_offset :: nat
  arena_bump :: nat
  mh_refcount :: nat
  writer_pid :: u32
  journal_state :: nat
  writer_start_time :: u64
  mh_creator_pid :: nat
  mh_creator_start_time :: nat
  journal_slot_off :: nat
  writer_claim :: u32

record MemhMeta =
  slot_stride :: nat
  arena_start :: nat
  arena_cap :: nat
  hash_seed :: u64

definition memh_header :: "buf \<Rightarrow> MemhHeader" where
  "memh_header b = \<lparr>
     mh_magic = rd 0 4 b, mh_version = rd 4 2 b, mh_header_size = rd 6 2 b, mh_byte_order = rd 8 2 b,
     mh_flags = rd 12 4 b, num_buckets = rd 16 4 b, mh_data_offset = rd 20 4 b,
     arena_bump = rd 32 4 b, mh_refcount = rd 36 4 b, writer_pid = word_of_nat (rd 40 4 b),
     journal_state = rd 44 4 b, writer_start_time = word_of_nat (rd 48 8 b),
     mh_creator_pid = rd 56 4 b, mh_creator_start_time = rd 64 8 b, journal_slot_off = rd 72 4 b,
     writer_claim = word_of_nat (rd 76 4 b)\<rparr>"

definition journal_word :: "buf \<Rightarrow> nat \<Rightarrow> u64" where
  "journal_word b w = word_of_nat (rd (80 + w * 8) 8 b)"

section \<open>Offsets\<close>

definition meta_offset :: usize where
  "meta_offset = MEMH_HEADER_SIZE"

definition memh_meta :: "buf \<Rightarrow> MemhMeta" where
  "memh_meta b = \<lparr>
     slot_stride = rd meta_offset 4 b, arena_start = rd (meta_offset + 8) 4 b,
     arena_cap = rd (meta_offset + 12) 4 b, hash_seed = word_of_nat (rd (meta_offset + 16) 8 b)\<rparr>"

definition memh_data_offset :: usize where
  "memh_data_offset = align64 (meta_offset + MEMH_META_SIZE)"

definition arena_start_abs :: "nat \<Rightarrow> usize \<Rightarrow> usize" where
  "arena_start_abs nb data_off = data_off + nb * SLOT_STRIDE"

definition required_total_size :: "nat \<Rightarrow> usize \<Rightarrow> usize" where
  "required_total_size nb cap = arena_start_abs nb memh_data_offset + cap"

definition slot_off :: "usize \<Rightarrow> usize \<Rightarrow> usize" where
  "slot_off data_off idx = data_off + idx * SLOT_STRIDE"

section \<open>The words of a slot\<close>

definition slot_word :: "buf \<Rightarrow> usize \<Rightarrow> nat \<Rightarrow> u64" where
  "slot_word b slot_offset w = word_of_nat (rd (slot_offset + w * 8) 8 b)"

definition control_parts :: "u64 \<Rightarrow> u32 \<times> u32" where
  "control_parts control = (let bytes = word_le 8 control in
     (word_of_le (take 4 bytes), word_of_le (drop 4 bytes)))"

definition pack_control :: "u32 \<Rightarrow> u32 \<Rightarrow> u64" where
  "pack_control head_off gen = word_of_le (word_le 4 head_off @ word_le 4 gen)"

type_synonym stores = "(usize \<times> nat \<times> nat) list"

text \<open>A store of word \<open>w\<close> of the slot at \<open>o\<close>.\<close>

definition slot_store :: "usize \<Rightarrow> nat \<Rightarrow> u64 \<Rightarrow> usize \<times> nat \<times> nat" where
  "slot_store o1 w v = (o1 + w * 8, 8, unat v)"

definition begin_slot_write :: "buf \<Rightarrow> usize \<Rightarrow> stores \<times> u32 \<times> u32" where
  "begin_slot_write b o1 =
    (let (head_off, gen) = control_parts (slot_word b o1 2);
         odd_gen = (gen + 1) OR 1
     in (map (\<lambda>w. (80 + w * 8, 8, unat (slot_word b o1 w))) [0..<SLOT_WORDS] @
         [(72, 4, o1), (44, 4, 1), slot_store o1 2 (pack_control head_off odd_gen)],
         head_off, odd_gen))"

definition finish_slot_write :: "usize \<Rightarrow> u32 \<Rightarrow> u32 \<Rightarrow> stores" where
  "finish_slot_write o1 head_off odd_gen =
    [slot_store o1 2 (pack_control head_off ((odd_gen + 1) AND NOT 1)), (44, 4, 0)]"

definition recover_slot_journal :: "buf \<Rightarrow> bool \<times> buf" where
  "recover_slot_journal b =
    (let h = memh_header b in
     if journal_state h = 0 then (True, b)
     else
       let o1 = journal_slot_off h;
           slots_end = mh_data_offset h + num_buckets h * SLOT_STRIDE
       in if o1 < mh_data_offset h \<or> slots_end < o1 + SLOT_STRIDE \<or> o1 mod 8 \<noteq> 0 then (False, b)
          else
            let b1 = (if snd (control_parts (slot_word b o1 2)) AND 1 \<noteq> 0
                      then wr_all (map (\<lambda>w. slot_store o1 w (journal_word b w)) [0..<SLOT_WORDS]) b
                      else b)
            in (True, wr 44 4 0 b1))"

section \<open>The cross-process writer\<close>

text \<open>\<open>compare_exchange\<close> on a 32-bit field: whether it succeeded, and the buffer after.\<close>

definition cas32 :: "usize \<Rightarrow> u32 \<Rightarrow> u32 \<Rightarrow> buf \<Rightarrow> bool \<times> buf" where
  "cas32 off old new b =
    (if (word_of_nat (rd off 4 b) :: u32) = old then (True, wr off 4 (unat new) b) else (False, b))"

text \<open>Dropping the \<open>MemhWriteGuard\<close>.\<close>

definition drop_write_guard :: "buf \<Rightarrow> buf" where
  "drop_write_guard b = wr 40 4 0 (wr 48 8 0 b)"

fun acquire_loop :: "os \<Rightarrow> nat \<Rightarrow> buf \<Rightarrow> bool \<times> buf" where
  "acquire_loop os 0 b = (False, b)"
| "acquire_loop os (Suc n) b =
    (let claimant = writer_claim (memh_header b); my_pid = current_process_id os in
     if claimant \<noteq> 0 then
       (if process_exists os claimant then (False, b)
        else acquire_loop os n (snd (cas32 76 claimant 0 b)))
     else
       (case cas32 76 0 my_pid b of
          (False, b1) \<Rightarrow> acquire_loop os n b1
        | (True, b1) \<Rightarrow>
            let owner = writer_pid (memh_header b1);
                can_claim = (owner = 0 \<or>
                  \<not> process_instance_alive os owner (writer_start_time (memh_header b1)))
            in if \<not> can_claim then (False, wr 76 4 0 b1)
               else
                 let b2 = wr 48 8 (unat (process_start_time os my_pid)) b1;
                     b3 = wr 40 4 (unat my_pid) b2;
                     b4 = wr 76 4 0 b3
                 in (case recover_slot_journal b4 of
                       (True, b5) \<Rightarrow> (True, b5)
                     | (False, b5) \<Rightarrow> (False, drop_write_guard b5))))"

definition acquire_writer :: "os \<Rightarrow> buf \<Rightarrow> bool \<times> buf" where
  "acquire_writer os b = acquire_loop os 64 b"

section \<open>Reading a slot\<close>

record Slot =
  tag :: nat
  val_dtype :: nat
  key_len :: nat
  slot_hash :: u64
  head_off :: nat
  val_bytes :: "byte list"

definition slot_fields :: "u64 \<Rightarrow> u64 \<Rightarrow> u64 \<Rightarrow> u64 \<Rightarrow> Slot" where
  "slot_fields w0 w1 control w3 =
    (let bytes = word_le 8 w0 in
     \<lparr>tag = unat (bytes ! 0), val_dtype = unat (bytes ! 1), key_len = le_nat (bslice 4 4 bytes),
      slot_hash = w1, head_off = unat (fst (control_parts control)), val_bytes = word_le 8 w3\<rparr>)"

fun read_slot_loop :: "os \<Rightarrow> nat \<Rightarrow> nat \<Rightarrow> buf \<Rightarrow> usize \<Rightarrow> (Slot \<times> buf) option" where
  "read_slot_loop os 0 retries b o1 = None"
| "read_slot_loop os (Suc n) retries b o1 =
    (let control = slot_word b o1 2 in
     if snd (control_parts control) AND 1 \<noteq> 0 then
       let b1 = (if 64 \<le> retries \<and> retries mod 1024 = 64
                 then (case acquire_writer os b of (True, b') \<Rightarrow> drop_write_guard b' | (False, b') \<Rightarrow> b')
                 else b)
       in read_slot_loop os n (retries + 1) b1 o1
     else Some (slot_fields (slot_word b o1 0) (slot_word b o1 1) control (slot_word b o1 3), b))"

definition read_slot :: "os \<Rightarrow> nat \<Rightarrow> buf \<Rightarrow> usize \<Rightarrow> usize \<Rightarrow> (Slot \<times> buf) option" where
  "read_slot os spin b data_off idx = read_slot_loop os spin 0 b (slot_off data_off idx)"

definition read_slot_tag_acquire :: "os \<Rightarrow> nat \<Rightarrow> buf \<Rightarrow> usize \<Rightarrow> usize \<Rightarrow> (nat \<times> buf) option" where
  "read_slot_tag_acquire os spin b data_off idx =
    do { (s, b) \<leftarrow> read_slot os spin b data_off idx; Some (tag s, b) }"

section \<open>Writing a slot\<close>

definition commit_slot_stores ::
  "buf \<Rightarrow> usize \<Rightarrow> usize \<Rightarrow> nat \<Rightarrow> nat \<Rightarrow> nat \<Rightarrow> u64 \<Rightarrow> nat \<Rightarrow> byte list \<Rightarrow> stores" where
  "commit_slot_stores b data_off idx tg vdt klen h head vb =
    (let o1 = slot_off data_off idx; (st, _, odd_gen) = begin_slot_write b o1;
         word0 = [word_of_nat tg, word_of_nat vdt, 0, 0] @ le_bytes 4 klen
     in st @ [slot_store o1 0 (word_of_le word0), slot_store o1 1 h, slot_store o1 3 (word_of_le vb)] @
        finish_slot_write o1 (word_of_nat head) odd_gen)"

definition commit_slot ::
  "buf \<Rightarrow> usize \<Rightarrow> usize \<Rightarrow> nat \<Rightarrow> nat \<Rightarrow> nat \<Rightarrow> u64 \<Rightarrow> nat \<Rightarrow> byte list \<Rightarrow> buf" where
  "commit_slot b data_off idx tg vdt klen h head vb =
    wr_all (commit_slot_stores b data_off idx tg vdt klen h head vb) b"

definition commit_slot_head_stores :: "buf \<Rightarrow> usize \<Rightarrow> usize \<Rightarrow> nat \<Rightarrow> nat \<Rightarrow> stores" where
  "commit_slot_head_stores b data_off idx tg head =
    (let o1 = slot_off data_off idx; (st, _, odd_gen) = begin_slot_write b o1;
         word0 = (word_le 8 (slot_word b o1 0))[0 := word_of_nat tg]
     in st @ [slot_store o1 0 (word_of_le word0)] @ finish_slot_write o1 (word_of_nat head) odd_gen)"

definition commit_slot_head :: "buf \<Rightarrow> usize \<Rightarrow> usize \<Rightarrow> nat \<Rightarrow> nat \<Rightarrow> buf" where
  "commit_slot_head b data_off idx tg head = wr_all (commit_slot_head_stores b data_off idx tg head) b"

definition update_slot_inline_stores :: "buf \<Rightarrow> usize \<Rightarrow> usize \<Rightarrow> nat \<Rightarrow> byte list \<Rightarrow> stores" where
  "update_slot_inline_stores b data_off idx vdt vb =
    (let o1 = slot_off data_off idx; (st, head, odd_gen) = begin_slot_write b o1;
         word0 = (word_le 8 (slot_word b o1 0))[0 := word_of_nat SLOT_INLINE, 1 := word_of_nat vdt]
     in st @ [slot_store o1 0 (word_of_le word0), slot_store o1 3 (word_of_le vb)] @
        finish_slot_write o1 head odd_gen)"

definition update_slot_inline_value :: "buf \<Rightarrow> usize \<Rightarrow> usize \<Rightarrow> nat \<Rightarrow> byte list \<Rightarrow> buf" where
  "update_slot_inline_value b data_off idx vdt vb = wr_all (update_slot_inline_stores b data_off idx vdt vb) b"

definition clear_slot_stores :: "buf \<Rightarrow> usize \<Rightarrow> usize \<Rightarrow> bool \<Rightarrow> stores" where
  "clear_slot_stores b data_off idx tombstone =
    (let o1 = slot_off data_off idx; (st, _, odd_gen) = begin_slot_write b o1;
         tg = (if tombstone then SLOT_TOMBSTONE else SLOT_EMPTY)
     in st @ [slot_store o1 0 (word_of_nat tg), slot_store o1 1 0, slot_store o1 3 0] @
        finish_slot_write o1 0 odd_gen)"

definition clear_slot :: "buf \<Rightarrow> usize \<Rightarrow> usize \<Rightarrow> bool \<Rightarrow> buf" where
  "clear_slot b data_off idx tombstone = wr_all (clear_slot_stores b data_off idx tombstone) b"

section \<open>Initialisation\<close>

definition memh_init_header :: "os \<Rightarrow> nat \<Rightarrow> nat \<Rightarrow> buf \<Rightarrow> buf" where
  "memh_init_header os nb data_off =
    wr_all [(0, 4, MAGIC_MEMH), (4, 2, VERSION_MEMH), (6, 2, MEMH_HEADER_SIZE), (8, 2, bom_value),
      (10, 2, 0), (12, 4, 0), (16, 4, nb), (20, 4, data_off), (24, 4, 0), (28, 4, 0), (32, 4, 0),
      (36, 4, 1), (40, 4, 0), (44, 4, 0), (48, 8, 0), (56, 4, unat (current_process_id os)), (60, 4, 0),
      (64, 8, unat (process_start_time os (current_process_id os))), (72, 4, 0), (76, 4, 0),
      (80, 8, 0), (88, 8, 0), (96, 8, 0), (104, 8, 0), (112, 8, 0), (120, 8, 0)]"

definition memh_init_meta :: "nat \<Rightarrow> nat \<Rightarrow> u64 \<Rightarrow> buf \<Rightarrow> buf" where
  "memh_init_meta start cap seed =
    wr_all [(meta_offset, 4, SLOT_STRIDE), (meta_offset + 4, 4, 0), (meta_offset + 8, 4, start),
      (meta_offset + 12, 4, cap), (meta_offset + 16, 8, unat seed), (meta_offset + 24, 8, 0)]"

end
