(* ===== verification/Memh_Table.thy ===== *)
theory Memh_Table
  imports Memh_Layout
begin

text \<open>
  The MEMH key-value table (\<open>probing/memtable/src/memh/table.rs\<close>): initialisation, validation, the
  read view (\<open>get\<close>, \<open>iter\<close>, \<open>len\<close>), the writer (\<open>insert\<close>, \<open>remove\<close>), compaction and the mutex-guarded
  writer. A reader may repair a slot that a dead writer left odd, so the read operations return
  the buffer too. The outer \<^term>\<open>None\<close> is a panic or a slot that stays busy longer than \<open>spin\<close>
  iterations. \<open>addr\<close> is the machine address of the buffer; \<open>xxh3\<close> the seeded hash.
\<close>

section \<open>Errors\<close>

datatype MemhInitError =
    MhBufferTooSmall usize usize | MhInitMisaligned usize | BucketsNotPowerOfTwo nat | BucketsZero
  | ArenaTooSmall | ArenaTooLarge

datatype MemhValidateError =
    MhTooShort | MhMisaligned usize | MhWrongMagic nat | MhUnsupportedVersion nat
  | MhInvalidLayout string | CorruptEntry usize

datatype InsertResult = Inserted | Updated

datatype InsertError = TableFull | ArenaFull | InvalidValue | WriterBusy

section \<open>Initialisation and validation\<close>

definition U32_MAX :: nat where "U32_MAX = 0xFFFFFFFF"

definition is_power_of_two :: "nat \<Rightarrow> bool" where
  "is_power_of_two n \<longleftrightarrow> n \<noteq> 0 \<and> n AND (n - 1) = 0"

definition memh_init_buf :: "os \<Rightarrow> nat \<Rightarrow> buf \<Rightarrow> nat \<Rightarrow> usize \<Rightarrow> u64 \<Rightarrow> MemhInitError + buf" where
  "memh_init_buf os addr b nb cap seed =
    (if addr mod MEMH_ALIGN \<noteq> 0 then Inl (MhInitMisaligned MEMH_ALIGN)
     else if nb = 0 then Inl BucketsZero
     else if nb AND (nb - 1) \<noteq> 0 then Inl (BucketsNotPowerOfTwo nb)
     else if cap = 0 then Inl ArenaTooSmall
     else if U32_MAX < cap then Inl ArenaTooLarge
     else
       (case do { slots \<leftarrow> checked_mul nb SLOT_STRIDE; checked_add memh_data_offset slots } of
          None \<Rightarrow> Inl ArenaTooLarge
        | Some start \<Rightarrow>
            (case checked_add start cap of
               None \<Rightarrow> Inl ArenaTooLarge
             | Some need \<Rightarrow>
                 if length b < need then Inl (MhBufferTooSmall need (length b))
                 else
                   let b1 = bsplice 0 (replicate need 0) b;
                       b2 = memh_init_header os nb memh_data_offset b1
                   in Inr (memh_init_meta start cap seed b2))))"

definition validate_slot :: "buf \<Rightarrow> usize \<Rightarrow> usize \<Rightarrow> Slot \<Rightarrow> MemhValidateError + unit" where
  "validate_slot b start idx s =
    (if SLOT_INLINE < tag s then Inl (CorruptEntry idx)
     else if tag s = SLOT_EMPTY then Inr ()
     else if tag s = SLOT_TOMBSTONE \<and> head_off s = U32_MAX then Inr ()
     else
       (let ho = head_off s in
        case checked_add ho ARENA_HDR_SIZE of
          None \<Rightarrow> Inl (CorruptEntry idx)
        | Some header_end \<Rightarrow>
            (let live_end = start + arena_bump (memh_header b) in
             if ho < start \<or> live_end < header_end then Inl (CorruptEntry idx)
             else
               (case read_record_header (bslice ho (live_end - ho) b) of
                  None \<Rightarrow> Inl (CorruptEntry idx)
                | Some r \<Rightarrow>
                    (case checked_add ho (record_len r) of
                       None \<Rightarrow> Inl (CorruptEntry idx)
                     | Some record_end \<Rightarrow>
                         if record_len r < ARENA_HDR_SIZE \<or> live_end < record_end \<or> rec_slot_idx r \<noteq> idx \<or>
                            record_key r (bslice ho (record_end - ho) b) = None
                         then Inl (CorruptEntry idx) else Inr ())))))"

fun validate_slots ::
  "os \<Rightarrow> nat \<Rightarrow> usize \<Rightarrow> usize \<Rightarrow> usize list \<Rightarrow> buf \<Rightarrow> ((MemhValidateError + unit) \<times> buf) option" where
  "validate_slots os spin data_off start [] b = Some (Inr (), b)"
| "validate_slots os spin data_off start (i # is) b = do {
     (s, b) \<leftarrow> read_slot os spin b data_off i;
     (case validate_slot b start i s of
        Inl e \<Rightarrow> Some (Inl e, b)
      | Inr _ \<Rightarrow> validate_slots os spin data_off start is b)
   }"

definition validate_memh :: "os \<Rightarrow> nat \<Rightarrow> nat \<Rightarrow> buf \<Rightarrow> ((MemhValidateError + unit) \<times> buf) option" where
  "validate_memh os spin addr b =
    (let err = (\<lambda>e. Some (Inl e, b)); h = memh_header b; m = memh_meta b in
     if length b < MEMH_HEADER_SIZE + MEMH_META_SIZE then err MhTooShort
     else if addr mod MEMH_ALIGN \<noteq> 0 then err (MhMisaligned MEMH_ALIGN)
     else if mh_magic h \<noteq> MAGIC_MEMH then err (MhWrongMagic (mh_magic h))
     else if mh_version h \<noteq> VERSION_MEMH then err (MhUnsupportedVersion (mh_version h))
     else if mh_header_size h \<noteq> MEMH_HEADER_SIZE then err (MhInvalidLayout ''invalid header_size'')
     else if mh_byte_order h \<noteq> bom_value then err (MhInvalidLayout ''byte order mismatch'')
     else if num_buckets h = 0 \<or> \<not> is_power_of_two (num_buckets h)
       then err (MhInvalidLayout ''num_buckets must be a non-zero power of two'')
     else if mh_data_offset h \<noteq> memh_data_offset then err (MhInvalidLayout ''invalid data_offset'')
     else if slot_stride m \<noteq> SLOT_STRIDE then err (MhInvalidLayout ''invalid slot_stride'')
     else
       (case do { slots \<leftarrow> checked_mul (num_buckets h) SLOT_STRIDE; checked_add (mh_data_offset h) slots } of
          None \<Rightarrow> err (MhInvalidLayout ''bucket layout overflow'')
        | Some expected \<Rightarrow>
            if arena_start m \<noteq> expected then err (MhInvalidLayout ''invalid arena_start'')
            else
              (case checked_add (arena_start m) (arena_cap m) of
                 None \<Rightarrow> err (MhInvalidLayout ''arena layout overflow'')
               | Some arena_end \<Rightarrow>
                   if length b < arena_end then err (MhInvalidLayout ''arena exceeds buffer'')
                   else if arena_cap m < arena_bump h then err (MhInvalidLayout ''arena bump exceeds capacity'')
                   else validate_slots os spin (mh_data_offset h) (arena_start m) [0..<num_buckets h] b)))"

section \<open>The read view\<close>

record MemhView =
  mv_data_off :: usize
  mv_num_buckets :: usize
  mv_mask :: usize
  mv_arena_start :: usize
  mv_hash_seed :: u64

definition view_of :: "buf \<Rightarrow> MemhView" where
  "view_of b = (let h = memh_header b; m = memh_meta b in
     \<lparr>mv_data_off = mh_data_offset h, mv_num_buckets = num_buckets h, mv_mask = num_buckets h - 1,
      mv_arena_start = arena_start m, mv_hash_seed = hash_seed m\<rparr>)"

definition view_new :: "os \<Rightarrow> nat \<Rightarrow> nat \<Rightarrow> buf \<Rightarrow> ((MemhValidateError + MemhView) \<times> buf) option" where
  "view_new os spin addr b = do {
     (r, b) \<leftarrow> validate_memh os spin addr b;
     (case r of Inl e \<Rightarrow> Some (Inl e, b) | Inr _ \<Rightarrow> Some (Inr (view_of b), b))
   }"

text \<open>The record a live slot points to, with the checks of \<open>get\<close>; \<^term>\<open>None\<close> is \<open>get\<close>'s early return.\<close>

definition live_record :: "MemhView \<Rightarrow> buf \<Rightarrow> Slot \<Rightarrow> (ArenaRecordHeader \<times> byte list) option" where
  "live_record v b s =
    (let ho = head_off s; bump = arena_bump (memh_header b) in do {
       live_end \<leftarrow> checked_add (mv_arena_start v) bump;
       header_end \<leftarrow> checked_add ho ARENA_HDR_SIZE;
       (if ho < mv_arena_start v \<or> live_end < header_end then None
        else do {
          data \<leftarrow> get_range b ho live_end;
          hdr \<leftarrow> read_record_header data;
          record_end \<leftarrow> checked_add ho (record_len hdr);
          (if record_len hdr < ARENA_HDR_SIZE \<or> live_end < record_end then None
           else do { data \<leftarrow> get_range b ho record_end; Some (hdr, data) })
        })
     })"

fun get_probes ::
  "os \<Rightarrow> nat \<Rightarrow> MemhView \<Rightarrow> byte list \<Rightarrow> u64 \<Rightarrow> usize \<Rightarrow> usize list \<Rightarrow> buf \<Rightarrow> (TypedValue option \<times> buf) option" where
  "get_probes os spin v key kh start [] b = Some (None, b)"
| "get_probes os spin v key kh start (p # ps) b = do {
     (s, b) \<leftarrow> read_slot os spin b (mv_data_off v) ((start + p) AND mv_mask v);
     (if tag s = SLOT_EMPTY then Some (None, b)
      else if tag s = SLOT_TOMBSTONE then get_probes os spin v key kh start ps b
      else if tag s = SLOT_OCCUPIED \<or> tag s = SLOT_INLINE then
        (if slot_hash s \<noteq> kh then get_probes os spin v key kh start ps b
         else if key_len s \<noteq> length key then get_probes os spin v key kh start ps b
         else
           (case do { (hdr, data) \<leftarrow> live_record v b s; rkey \<leftarrow> record_key hdr data; Some (hdr, data, rkey) } of
              None \<Rightarrow> Some (None, b)
            | Some (hdr, data, rkey) \<Rightarrow>
                if rkey \<noteq> key then get_probes os spin v key kh start ps b
                else if tag s = SLOT_INLINE then Some (slot_inline_value (val_dtype s) (val_bytes s), b)
                else Some (record_value hdr data, b)))
      else get_probes os spin v key kh start ps b)
   }"

definition memh_get ::
  "(u64 \<Rightarrow> byte list \<Rightarrow> u64) \<Rightarrow> os \<Rightarrow> nat \<Rightarrow> MemhView \<Rightarrow> buf \<Rightarrow> byte list \<Rightarrow> (TypedValue option \<times> buf) option" where
  "memh_get xxh3 os spin v b key =
    (let kh = hash_key xxh3 (mv_hash_seed v) key
     in get_probes os spin v key kh (unat kh AND mv_mask v) [0..<mv_num_buckets v] b)"

text \<open>
  One slot of \<open>iter\<close>: skip it (\<^term>\<open>Some None\<close>), yield a pair, or end the iteration (\<^term>\<open>None\<close>),
  which is what the \<open>?\<close> operator inside the closure does.
\<close>

definition iter_slot :: "MemhView \<Rightarrow> buf \<Rightarrow> usize \<Rightarrow> Slot \<Rightarrow> (byte list \<times> TypedValue) option option" where
  "iter_slot v b idx s =
    (if tag s \<noteq> SLOT_OCCUPIED \<and> tag s \<noteq> SLOT_INLINE then Some None
     else
       (let pos = head_off s; bump = arena_bump (memh_header b) in do {
          live_end \<leftarrow> checked_add (mv_arena_start v) bump;
          header_end \<leftarrow> checked_add pos ARENA_HDR_SIZE;
          (if pos < mv_arena_start v \<or> live_end < header_end then Some None
           else do {
             data \<leftarrow> get_range b pos live_end;
             hdr \<leftarrow> read_record_header data;
             record_end \<leftarrow> checked_add pos (record_len hdr);
             (if record_len hdr < ARENA_HDR_SIZE \<or> live_end < record_end \<or> rec_slot_idx hdr \<noteq> idx then Some None
              else do {
                data \<leftarrow> get_range b pos record_end;
                key \<leftarrow> record_key hdr data;
                (if tag s = SLOT_OCCUPIED \<and> rec_flags hdr = FLAG_PUT
                 then do { value \<leftarrow> record_value hdr data; Some (Some (key, value)) }
                 else if tag s = SLOT_INLINE \<and> rec_flags hdr = FLAG_PUT_INLINE
                 then do { value \<leftarrow> slot_inline_value (val_dtype s) (val_bytes s); Some (Some (key, value)) }
                 else Some None)
              })
           })
        }))"

fun iter_slots ::
  "os \<Rightarrow> nat \<Rightarrow> MemhView \<Rightarrow> usize list \<Rightarrow> buf \<Rightarrow> ((byte list \<times> TypedValue) list \<times> buf) option" where
  "iter_slots os spin v [] b = Some ([], b)"
| "iter_slots os spin v (i # is) b = do {
     (s, b) \<leftarrow> read_slot os spin b (mv_data_off v) i;
     (case iter_slot v b i s of
        None \<Rightarrow> Some ([], b)
      | Some None \<Rightarrow> iter_slots os spin v is b
      | Some (Some kv) \<Rightarrow> do { (kvs, b) \<leftarrow> iter_slots os spin v is b; Some (kv # kvs, b) })
   }"

definition memh_iter :: "os \<Rightarrow> nat \<Rightarrow> MemhView \<Rightarrow> buf \<Rightarrow> ((byte list \<times> TypedValue) list \<times> buf) option" where
  "memh_iter os spin v b = iter_slots os spin v [0..<mv_num_buckets v] b"

fun count_live :: "os \<Rightarrow> nat \<Rightarrow> MemhView \<Rightarrow> usize list \<Rightarrow> buf \<Rightarrow> (usize \<times> buf) option" where
  "count_live os spin v [] b = Some (0, b)"
| "count_live os spin v (i # is) b = do {
     (t, b) \<leftarrow> read_slot_tag_acquire os spin b (mv_data_off v) i;
     (n, b) \<leftarrow> count_live os spin v is b;
     Some (if t = SLOT_OCCUPIED \<or> t = SLOT_INLINE then n + 1 else n, b)
   }"

definition memh_len :: "os \<Rightarrow> nat \<Rightarrow> MemhView \<Rightarrow> buf \<Rightarrow> (usize \<times> buf) option" where
  "memh_len os spin v b = count_live os spin v [0..<mv_num_buckets v] b"

definition memh_is_empty :: "os \<Rightarrow> nat \<Rightarrow> MemhView \<Rightarrow> buf \<Rightarrow> (bool \<times> buf) option" where
  "memh_is_empty os spin v b = do { (n, b) \<leftarrow> memh_len os spin v b; Some (n = 0, b) }"

section \<open>The writer\<close>

text \<open>The \<open>scratch\<close> vector is cleared before each use and is not part of the state.\<close>

record MemhWriter =
  hw_buf :: buf
  hw_data_off :: usize
  hw_num_buckets :: usize
  hw_mask :: usize
  hw_arena_start :: usize
  hw_arena_cap :: usize
  hw_hash_seed :: u64

definition memh_writer_unchecked :: "buf \<Rightarrow> MemhWriter" where
  "memh_writer_unchecked b = (let h = memh_header b; m = memh_meta b in
     \<lparr>hw_buf = b, hw_data_off = mh_data_offset h, hw_num_buckets = num_buckets h,
      hw_mask = num_buckets h - 1, hw_arena_start = arena_start m, hw_arena_cap = arena_cap m,
      hw_hash_seed = hash_seed m\<rparr>)"

definition memh_writer_new :: "os \<Rightarrow> nat \<Rightarrow> nat \<Rightarrow> buf \<Rightarrow> ((MemhValidateError + MemhWriter) \<times> buf) option" where
  "memh_writer_new os spin addr b = do {
     (r, b) \<leftarrow> validate_memh os spin addr b;
     (case r of Inl e \<Rightarrow> Some (Inl e, b) | Inr _ \<Rightarrow> Some (Inr (memh_writer_unchecked b), b))
   }"

text \<open>Appending a record to the arena: where it went and the buffer, or \<open>ArenaFull\<close>.\<close>

definition append_record :: "MemhWriter \<Rightarrow> usize \<Rightarrow> usize \<Rightarrow> byte list \<Rightarrow> ((usize \<times> buf) option) option" where
  "append_record w bump rec_len scratch =
    (if hw_arena_cap w < bump + rec_len then Some None
     else do {
       let pos = hw_arena_start w + bump;
       b1 \<leftarrow> copy_at pos scratch (hw_buf w);
       Some (Some (pos, wr 32 4 (bump + rec_len) b1))
     })"

definition entry_record ::
  "byte list \<Rightarrow> Value \<Rightarrow> usize \<Rightarrow> u64 \<Rightarrow> nat \<Rightarrow> bool \<Rightarrow> (usize \<times> byte list) option" where
  "entry_record key val idx kh prev is_scalar =
    (if is_scalar then Some (encode_put_inline_record key idx kh prev [])
     else encode_put_record key val idx kh prev [])"

definition write_new_entry ::
  "MemhWriter \<Rightarrow> usize \<Rightarrow> byte list \<Rightarrow> Value \<Rightarrow> u64 \<Rightarrow> usize \<Rightarrow> bool \<Rightarrow> ((InsertError + unit) \<times> MemhWriter) option" where
  "write_new_entry w idx key val kh bump is_scalar = do {
     (rec_len, scratch) \<leftarrow> entry_record key val idx kh NO_PREV is_scalar;
     a \<leftarrow> append_record w bump rec_len scratch;
     (case a of
        None \<Rightarrow> Some (Inl ArenaFull, w)
      | Some (pos, b) \<Rightarrow>
          if is_scalar then
            (case encode_inline_bytes val of
               None \<Rightarrow> Some (Inl InvalidValue, w\<lparr>hw_buf := b\<rparr>)
             | Some (dt, vb) \<Rightarrow>
                 Some (Inr (), w\<lparr>hw_buf := commit_slot b (hw_data_off w) idx SLOT_INLINE dt (length key) kh pos vb\<rparr>))
          else
            Some (Inr (), w\<lparr>hw_buf := commit_slot b (hw_data_off w) idx SLOT_OCCUPIED 0 (length key) kh pos (replicate 8 0)\<rparr>))
   }"

definition write_update ::
  "MemhWriter \<Rightarrow> usize \<Rightarrow> nat \<Rightarrow> byte list \<Rightarrow> Value \<Rightarrow> u64 \<Rightarrow> usize \<Rightarrow> bool \<Rightarrow> nat \<Rightarrow>
    ((InsertError + unit) \<times> MemhWriter) option" where
  "write_update w idx old_tag key val kh bump is_scalar old_head =
    (if old_tag = SLOT_INLINE \<and> is_scalar then
       (case encode_inline_bytes val of
          None \<Rightarrow> Some (Inl InvalidValue, w)
        | Some (dt, vb) \<Rightarrow> Some (Inr (), w\<lparr>hw_buf := update_slot_inline_value (hw_buf w) (hw_data_off w) idx dt vb\<rparr>))
     else do {
       (rec_len, scratch) \<leftarrow> entry_record key val idx kh old_head is_scalar;
       a \<leftarrow> append_record w bump rec_len scratch;
       (case a of
          None \<Rightarrow> Some (Inl ArenaFull, w)
        | Some (pos, b) \<Rightarrow>
            if is_scalar then
              (case encode_inline_bytes val of
                 None \<Rightarrow> Some (Inl InvalidValue, w\<lparr>hw_buf := b\<rparr>)
               | Some (dt, vb) \<Rightarrow>
                   Some (Inr (), w\<lparr>hw_buf := commit_slot b (hw_data_off w) idx SLOT_INLINE dt (length key) kh pos vb\<rparr>))
            else Some (Inr (), w\<lparr>hw_buf := commit_slot_head b (hw_data_off w) idx SLOT_OCCUPIED pos\<rparr>))
     })"

text \<open>The key test of the writer's probe loops; it looks at everything from \<open>head_off\<close> to the end.\<close>

definition slot_matches :: "buf \<Rightarrow> Slot \<Rightarrow> byte list \<Rightarrow> bool" where
  "slot_matches b s key =
    (case do {
       data \<leftarrow> get_range b (head_off s) (length b);
       hdr \<leftarrow> read_record_header data;
       record_key hdr data
     } of Some k \<Rightarrow> k = key | None \<Rightarrow> False)"

fun insert_probes ::
  "os \<Rightarrow> nat \<Rightarrow> byte list \<Rightarrow> Value \<Rightarrow> u64 \<Rightarrow> usize \<Rightarrow> bool \<Rightarrow> usize \<Rightarrow> usize option \<Rightarrow> usize list \<Rightarrow> MemhWriter \<Rightarrow>
    ((InsertError + InsertResult) \<times> MemhWriter) option" where
  "insert_probes os spin key val kh bump is_scalar start tomb [] w =
    (case tomb of
       Some t \<Rightarrow> do { (r, w) \<leftarrow> write_new_entry w t key val kh bump is_scalar; Some (map_sum id (\<lambda>_. Inserted) r, w) }
     | None \<Rightarrow> Some (Inl TableFull, w))"
| "insert_probes os spin key val kh bump is_scalar start tomb (p # ps) w = do {
     let idx = (start + p) AND hw_mask w;
     (s, b) \<leftarrow> read_slot os spin (hw_buf w) (hw_data_off w) idx;
     let w = w\<lparr>hw_buf := b\<rparr>;
     (if tag s = SLOT_EMPTY then do {
        (r, w) \<leftarrow> write_new_entry w (case tomb of Some t \<Rightarrow> t | None \<Rightarrow> idx) key val kh bump is_scalar;
        Some (map_sum id (\<lambda>_. Inserted) r, w) }
      else if tag s = SLOT_TOMBSTONE then
        insert_probes os spin key val kh bump is_scalar start (case tomb of None \<Rightarrow> Some idx | Some t \<Rightarrow> Some t) ps w
      else if tag s = SLOT_OCCUPIED \<or> tag s = SLOT_INLINE then
        (if slot_hash s \<noteq> kh then insert_probes os spin key val kh bump is_scalar start tomb ps w
         else if key_len s \<noteq> length key then insert_probes os spin key val kh bump is_scalar start tomb ps w
         else if \<not> slot_matches b s key then insert_probes os spin key val kh bump is_scalar start tomb ps w
         else do {
           (r, w) \<leftarrow> write_update w idx (tag s) key val kh bump is_scalar (head_off s);
           Some (map_sum id (\<lambda>_. Updated) r, w) })
      else insert_probes os spin key val kh bump is_scalar start tomb ps w)
   }"

definition insert_locked ::
  "(u64 \<Rightarrow> byte list \<Rightarrow> u64) \<Rightarrow> os \<Rightarrow> nat \<Rightarrow> MemhWriter \<Rightarrow> byte list \<Rightarrow> Value \<Rightarrow>
    ((InsertError + InsertResult) \<times> MemhWriter) option" where
  "insert_locked xxh3 os spin w key val =
    (let kh = hash_key xxh3 (hw_hash_seed w) key; bump = arena_bump (memh_header (hw_buf w))
     in insert_probes os spin key val kh bump (is_scalar_dtype (value_dtype val)) (unat kh AND hw_mask w) None
          [0..<hw_num_buckets w] w)"

definition memh_insert ::
  "(u64 \<Rightarrow> byte list \<Rightarrow> u64) \<Rightarrow> os \<Rightarrow> nat \<Rightarrow> MemhWriter \<Rightarrow> byte list \<Rightarrow> Value \<Rightarrow>
    ((InsertError + InsertResult) \<times> MemhWriter) option" where
  "memh_insert xxh3 os spin w key val =
    (case acquire_writer os (hw_buf w) of
       (False, b) \<Rightarrow> Some (Inl WriterBusy, w\<lparr>hw_buf := b\<rparr>)
     | (True, b) \<Rightarrow> do {
         (r, w) \<leftarrow> insert_locked xxh3 os spin (w\<lparr>hw_buf := b\<rparr>) key val;
         Some (r, w\<lparr>hw_buf := drop_write_guard (hw_buf w)\<rparr>) })"

definition remove_entry :: "MemhWriter \<Rightarrow> usize \<Rightarrow> byte list \<Rightarrow> u64 \<Rightarrow> nat \<Rightarrow> MemhWriter option" where
  "remove_entry w idx key kh head =
    (let bump = arena_bump (memh_header (hw_buf w));
         (rec_len, scratch) = encode_tombstone_record key idx kh head []
     in do {
       a \<leftarrow> append_record w bump rec_len scratch;
       (case a of
          Some (pos, b) \<Rightarrow> Some (w\<lparr>hw_buf := commit_slot_head b (hw_data_off w) idx SLOT_TOMBSTONE pos\<rparr>)
        | None \<Rightarrow> Some (w\<lparr>hw_buf := commit_slot_head (hw_buf w) (hw_data_off w) idx SLOT_TOMBSTONE U32_MAX\<rparr>))
     })"

fun remove_probes ::
  "os \<Rightarrow> nat \<Rightarrow> byte list \<Rightarrow> u64 \<Rightarrow> usize \<Rightarrow> usize list \<Rightarrow> MemhWriter \<Rightarrow> (bool \<times> MemhWriter) option" where
  "remove_probes os spin key kh start [] w = Some (False, w)"
| "remove_probes os spin key kh start (p # ps) w = do {
     let idx = (start + p) AND hw_mask w;
     (s, b) \<leftarrow> read_slot os spin (hw_buf w) (hw_data_off w) idx;
     let w = w\<lparr>hw_buf := b\<rparr>;
     (if tag s = SLOT_EMPTY then Some (False, w)
      else if tag s = SLOT_TOMBSTONE then remove_probes os spin key kh start ps w
      else if tag s = SLOT_OCCUPIED \<or> tag s = SLOT_INLINE then
        (if slot_hash s \<noteq> kh then remove_probes os spin key kh start ps w
         else if key_len s \<noteq> length key then remove_probes os spin key kh start ps w
         else if \<not> slot_matches b s key then remove_probes os spin key kh start ps w
         else do { w \<leftarrow> remove_entry w idx key kh (head_off s); Some (True, w) })
      else remove_probes os spin key kh start ps w)
   }"

definition remove_locked ::
  "(u64 \<Rightarrow> byte list \<Rightarrow> u64) \<Rightarrow> os \<Rightarrow> nat \<Rightarrow> MemhWriter \<Rightarrow> byte list \<Rightarrow> (bool \<times> MemhWriter) option" where
  "remove_locked xxh3 os spin w key =
    (let kh = hash_key xxh3 (hw_hash_seed w) key
     in remove_probes os spin key kh (unat kh AND hw_mask w) [0..<hw_num_buckets w] w)"

definition memh_remove ::
  "(u64 \<Rightarrow> byte list \<Rightarrow> u64) \<Rightarrow> os \<Rightarrow> nat \<Rightarrow> MemhWriter \<Rightarrow> byte list \<Rightarrow> (bool \<times> MemhWriter) option" where
  "memh_remove xxh3 os spin w key =
    (case acquire_writer os (hw_buf w) of
       (False, b) \<Rightarrow> Some (False, w\<lparr>hw_buf := b\<rparr>)
     | (True, b) \<Rightarrow> do {
         (r, w) \<leftarrow> remove_locked xxh3 os spin (w\<lparr>hw_buf := b\<rparr>) key;
         Some (r, w\<lparr>hw_buf := drop_write_guard (hw_buf w)\<rparr>) })"

section \<open>Compaction\<close>

fun insert_entries ::
  "(u64 \<Rightarrow> byte list \<Rightarrow> u64) \<Rightarrow> os \<Rightarrow> nat \<Rightarrow> (byte list \<times> TypedValue) list \<Rightarrow> usize \<Rightarrow> MemhWriter \<Rightarrow>
    ((MemhInitError + usize) \<times> MemhWriter) option" where
  "insert_entries xxh3 os spin [] count w = Some (Inr count, w)"
| "insert_entries xxh3 os spin ((k, v) # kvs) count w = do {
     (r, w) \<leftarrow> memh_insert xxh3 os spin w k (typed_value_to_value v);
     (case r of
        Inl _ \<Rightarrow> Some (Inl ArenaTooSmall, w)
      | Inr _ \<Rightarrow> insert_entries xxh3 os spin kvs (count + 1) w)
   }"

text \<open>
  \<open>compact\<close>: the result, the source buffer (which a repair may have touched) and the destination.
  The iterator is lazy in the source; it reads the source buffer only and the insertions write the
  destination only, so the pairs are the same when it is drained first.
\<close>

definition compact ::
  "(u64 \<Rightarrow> byte list \<Rightarrow> u64) \<Rightarrow> os \<Rightarrow> nat \<Rightarrow> nat \<Rightarrow> nat \<Rightarrow> buf \<Rightarrow> buf \<Rightarrow> nat \<Rightarrow> usize \<Rightarrow> u64 \<Rightarrow>
    ((MemhInitError + usize) \<times> buf \<times> buf) option" where
  "compact xxh3 os spin src_addr dst_addr src dst nb cap seed =
    (case memh_init_buf os dst_addr dst nb cap seed of
       Inl e \<Rightarrow> Some (Inl e, src, dst)
     | Inr dst \<Rightarrow> do {
         (vr, src) \<leftarrow> view_new os spin src_addr src;
         (case vr of
            Inl _ \<Rightarrow> Some (Inl ArenaTooSmall, src, dst)
          | Inr v \<Rightarrow> do {
              (hr, dst) \<leftarrow> memh_writer_new os spin dst_addr dst;
              (case hr of
                 Inl _ \<Rightarrow> Some (Inl ArenaTooSmall, src, dst)
               | Inr w \<Rightarrow> do {
                   (kvs, src) \<leftarrow> memh_iter os spin v src;
                   (r, w) \<leftarrow> insert_entries xxh3 os spin kvs 0 w;
                   Some (r, src, hw_buf w)
                 })
            })
       })"

section \<open>The mutex-guarded writer\<close>

text \<open>
  \<open>SharedMemhWriter\<close> is a mutex around the buffer; each operation is one critical section on it,
  so the state is the buffer between critical sections.
\<close>

definition shared_new :: "os \<Rightarrow> nat \<Rightarrow> nat \<Rightarrow> buf \<Rightarrow> ((MemhValidateError + unit) \<times> buf) option" where
  "shared_new os spin addr b = validate_memh os spin addr b"

definition shared_insert ::
  "(u64 \<Rightarrow> byte list \<Rightarrow> u64) \<Rightarrow> os \<Rightarrow> nat \<Rightarrow> buf \<Rightarrow> byte list \<Rightarrow> Value \<Rightarrow>
    ((InsertError + InsertResult) \<times> buf) option" where
  "shared_insert xxh3 os spin b key val =
    do { (r, w) \<leftarrow> memh_insert xxh3 os spin (memh_writer_unchecked b) key val; Some (r, hw_buf w) }"

definition shared_remove ::
  "(u64 \<Rightarrow> byte list \<Rightarrow> u64) \<Rightarrow> os \<Rightarrow> nat \<Rightarrow> buf \<Rightarrow> byte list \<Rightarrow> (bool \<times> buf) option" where
  "shared_remove xxh3 os spin b key =
    do { (r, w) \<leftarrow> memh_remove xxh3 os spin (memh_writer_unchecked b) key; Some (r, hw_buf w) }"

definition shared_with_view ::
  "os \<Rightarrow> nat \<Rightarrow> nat \<Rightarrow> buf \<Rightarrow> (MemhView \<Rightarrow> buf \<Rightarrow> ('r \<times> buf) option) \<Rightarrow> ((MemhValidateError + 'r) \<times> buf) option" where
  "shared_with_view os spin addr b f = do {
     (vr, b) \<leftarrow> view_new os spin addr b;
     (case vr of
        Inl e \<Rightarrow> Some (Inl e, b)
      | Inr v \<Rightarrow> do { (r, b) \<leftarrow> f v b; Some (Inr r, b) })
   }"

end
