(* ===== verification/Memh_Slot.thy ===== *)
theory Memh_Slot
  imports Memh_Layout
begin

text \<open>
  The slot transaction of MEMH. Every mutator is one transaction on a slot: journal the four words,
  make the generation odd, store some words, make it even, clear the journal. The theory shows what
  the finished transaction does, that it touches nothing but the slot and the journal, and that
  \<open>recover_slot_journal\<close> after a crash at any store leaves the slot as it was or as it would be.
\<close>

section \<open>The control word\<close>

lemma control_parts_pack [simp]: "control_parts (pack_control h g) = (h, g)"
proof -
  have "word_le 8 (pack_control h g) = word_le 4 h @ word_le 4 g"
  proof -
    let ?bs = "word_le 4 h @ word_le 4 g"
    have "le_nat ?bs < 256 ^ length ?bs" by (rule le_nat_bound)
    then have "unat (word_of_nat (le_nat ?bs) :: u64) = le_nat ?bs" by (simp add: unat_of_nat)
    then show ?thesis by (simp add: pack_control_def word_of_le_def word_le_def le_bytes_le_nat)
  qed
  then show ?thesis by (simp add: control_parts_def word_of_le_word_le)
qed

lemma pack_control_inj [simp]: "pack_control h g = pack_control h' g' \<longleftrightarrow> h = h' \<and> g = g'"
  by (metis control_parts_pack prod.inject)

definition even_gen :: "u64 \<Rightarrow> bool" where
  "even_gen control \<longleftrightarrow> snd (control_parts control) AND 1 = 0"

lemma odd_gen_odd: "((g::u32) + 1 OR 1) AND 1 \<noteq> 0"
proof -
  have "(g + 1 OR 1) AND 1 = 1" by (rule bit_word_eqI) (auto simp: bit_and_iff bit_or_iff)
  then show ?thesis by simp
qed

lemma even_gen_even: "((g::u32) AND NOT 1) AND 1 = 0"
  by (rule bit_word_eqI) (auto simp: bit_and_iff bit_not_iff bit_1_iff)

section \<open>Transactions\<close>

definition slot_tx :: "buf \<Rightarrow> usize \<Rightarrow> (nat \<times> u64) list \<Rightarrow> u32 \<Rightarrow> stores" where
  "slot_tx b o1 ws head =
    (let (st, _, odd_gen) = begin_slot_write b o1
     in st @ map (\<lambda>(w, v). slot_store o1 w v) ws @ finish_slot_write o1 head odd_gen)"

lemma commit_slot_tx:
  "commit_slot_stores b d i tg vdt klen h head vb =
    slot_tx b (slot_off d i)
      [(0, word_of_le ([word_of_nat tg, word_of_nat vdt, 0, 0] @ le_bytes 4 klen)), (1, h), (3, word_of_le vb)]
      (word_of_nat head)"
  by (simp add: commit_slot_stores_def slot_tx_def Let_def split: prod.splits)

lemma commit_slot_head_tx:
  "commit_slot_head_stores b d i tg head =
    slot_tx b (slot_off d i)
      [(0, word_of_le ((word_le 8 (slot_word b (slot_off d i) 0))[0 := word_of_nat tg]))] (word_of_nat head)"
  by (simp add: commit_slot_head_stores_def slot_tx_def Let_def split: prod.splits)

lemma update_slot_inline_tx:
  "update_slot_inline_stores b d i vdt vb =
    slot_tx b (slot_off d i)
      [(0, word_of_le ((word_le 8 (slot_word b (slot_off d i) 0))[0 := word_of_nat SLOT_INLINE, 1 := word_of_nat vdt])),
       (3, word_of_le vb)]
      (fst (control_parts (slot_word b (slot_off d i) 2)))"
  by (simp add: update_slot_inline_stores_def slot_tx_def begin_slot_write_def Let_def split: prod.splits)

lemma clear_slot_tx:
  "clear_slot_stores b d i tomb =
    slot_tx b (slot_off d i)
      [(0, word_of_nat (if tomb then SLOT_TOMBSTONE else SLOT_EMPTY)), (1, 0), (3, 0)] 0"
  by (simp add: clear_slot_stores_def slot_tx_def Let_def split: prod.splits)

text \<open>The parts of a transaction, in order.\<close>

definition tx_odd :: "buf \<Rightarrow> usize \<Rightarrow> u32" where
  "tx_odd b o1 = (snd (control_parts (slot_word b o1 2)) + 1) OR 1"

definition tx_even :: "buf \<Rightarrow> usize \<Rightarrow> u32" where
  "tx_even b o1 = (tx_odd b o1 + 1) AND NOT 1"

definition tx_journal :: "buf \<Rightarrow> usize \<Rightarrow> stores" where
  "tx_journal b o1 = [(80, 8, unat (slot_word b o1 0)), (88, 8, unat (slot_word b o1 1)),
     (96, 8, unat (slot_word b o1 2)), (104, 8, unat (slot_word b o1 3)), (72, 4, o1), (44, 4, 1)]"

definition tx_open :: "buf \<Rightarrow> usize \<Rightarrow> usize \<times> nat \<times> nat" where
  "tx_open b o1 = slot_store o1 2 (pack_control (fst (control_parts (slot_word b o1 2))) (tx_odd b o1))"

definition tx_body :: "usize \<Rightarrow> (nat \<times> u64) list \<Rightarrow> stores" where
  "tx_body o1 ws = map (\<lambda>(w, v). slot_store o1 w v) ws"

definition tx_close :: "buf \<Rightarrow> usize \<Rightarrow> u32 \<Rightarrow> usize \<times> nat \<times> nat" where
  "tx_close b o1 head = slot_store o1 2 (pack_control head (tx_even b o1))"

lemma slot_tx_parts:
  "slot_tx b o1 ws head = tx_journal b o1 @ tx_open b o1 # tx_body o1 ws @ [tx_close b o1 head, (44, 4, 0)]"
proof -
  have "[0..<SLOT_WORDS] = [0, 1, 2, 3]" by (simp add: SLOT_WORDS_def SLOT_STRIDE_def upt_rec)
  then show ?thesis
    by (simp add: slot_tx_def begin_slot_write_def finish_slot_write_def tx_journal_def tx_open_def
        tx_body_def tx_close_def tx_odd_def tx_even_def Let_def split: prod.splits)
qed

lemma length_tx_journal [simp]: "length (tx_journal b o1) = 6"
  by (simp add: tx_journal_def)

lemma length_tx_body [simp]: "length (tx_body o1 ws) = length ws"
  by (simp add: tx_body_def)

text \<open>
  A slot is clear of the header and inside the buffer; a body stores words 0, 1 and 3, each at
  most once.
\<close>

definition slot_in :: "buf \<Rightarrow> usize \<Rightarrow> bool" where
  "slot_in b o1 \<longleftrightarrow> 128 \<le> o1 \<and> o1 + 32 \<le> length b \<and> o1 < 2 ^ 32"

definition body_ok :: "(nat \<times> u64) list \<Rightarrow> bool" where
  "body_ok ws \<longleftrightarrow> distinct (map fst ws) \<and> fst ` set ws \<subseteq> {0, 1, 3}"

lemma word_of_nat_unat_mod [simp]: "(word_of_nat (unat (v::u64) mod 256 ^ 8) :: u64) = v"
proof -
  have "unat v mod 256 ^ 8 = unat v" using unat_bound [of v] by simp
  then show ?thesis by (simp only:) simp
qed

lemmas word_of_nat_unat_mod_num [simp] = word_of_nat_unat_mod [simplified]

text \<open>Where the stores of a transaction may go.\<close>

definition tx_field :: "usize \<Rightarrow> usize \<times> nat \<times> nat \<Rightarrow> bool" where
  "tx_field o1 st = (case st of (off, n, v) \<Rightarrow>
     (off, n) \<in> {(44, 4), (72, 4), (80, 8), (88, 8), (96, 8), (104, 8), (o1, 8), (o1 + 8, 8), (o1 + 16, 8), (o1 + 24, 8)})"

lemma tx_fields:
  assumes "body_ok ws" "st \<in> set (slot_tx b o1 ws head)"
  shows "tx_field o1 st"
proof -
  have body: "tx_field o1 st" if "st \<in> set (tx_body o1 ws)" for st
  proof -
    from that obtain w v where w: "(w, v) \<in> set ws" "st = slot_store o1 w v" by (auto simp: tx_body_def)
    then have "w \<in> fst ` set ws" by force
    then have "w \<in> {0, 1, 3}" using assms(1) by (auto simp: body_ok_def)
    then show ?thesis using w(2) by (auto simp: slot_store_def tx_field_def)
  qed
  consider "st \<in> set (tx_journal b o1)" | "st = tx_open b o1" | "st \<in> set (tx_body o1 ws)" |
    "st = tx_close b o1 head" | "st = (44, 4, 0)" using assms(2) by (auto simp: slot_tx_parts)
  then show ?thesis
  proof cases
    case 1
    then show ?thesis by (auto simp: tx_journal_def tx_field_def)
  next
    case 3
    then show ?thesis by (rule body)
  qed (simp_all add: body tx_open_def tx_close_def slot_store_def tx_field_def)
qed

lemma tx_slice_other:
  assumes "slot_in b o1" "\<forall>st \<in> set ss. tx_field o1 st"
    and "off + n \<le> 44 \<or> 48 \<le> off \<and> off + n \<le> 72 \<or> 76 \<le> off \<and> off + n \<le> 80 \<or>
      112 \<le> off \<and> off + n \<le> o1 \<or> o1 + 32 \<le> off"
  shows "bslice off n (wr_all ss b) = bslice off n b" "length (wr_all ss b) = length b"
proof -
  have f: "a + k \<le> length b \<and> (off + n \<le> a \<or> a + k \<le> off)" if "(a, k, v) \<in> set ss" for a k v
    using assms(1,3) bspec [OF assms(2) that] by (auto simp: tx_field_def slot_in_def)
  show "bslice off n (wr_all ss b) = bslice off n b" using f by (intro slice_wr_all_other) auto
  show "length (wr_all ss b) = length b" using f by (intro length_wr_all) auto
qed

text \<open>Reading a field of the journal or a word of the slot after some stores of a transaction.\<close>

lemma tx_read:
  assumes "slot_in b o1" "\<forall>st \<in> set ss. tx_field o1 st"
    and "(off, m) \<in> {(44, 4), (72, 4), (80, 8), (88, 8), (96, 8), (104, 8), (o1, 8), (o1 + 8, 8), (o1 + 16, 8), (o1 + 24, 8)}"
  shows "rd off m (wr_all ss b) = (case last_store ss off m of Some v \<Rightarrow> v mod 256 ^ m | None \<Rightarrow> rd off m b)"
proof (rule rd_wr_all_field)
  show "0 < m" using assms(3) by auto
  have "a + k \<le> length b \<and> (a = off \<and> k = m \<or> a + k \<le> off \<or> off + m \<le> a)" if "(a, k, v) \<in> set ss" for a k v
    using assms(1,3) bspec [OF assms(2) that] by (auto simp: tx_field_def slot_in_def)
  then show "\<forall>(a, k, v) \<in> set ss. a + k \<le> length b \<and> (a = off \<and> k = m \<or> a + k \<le> off \<or> off + m \<le> a)" by auto
qed

lemma tx_slot_word:
  assumes "slot_in b o1" "\<forall>st \<in> set ss. tx_field o1 st" "w < 4"
  shows "slot_word (wr_all ss b) o1 w =
    (case last_store ss (o1 + w * 8) 8 of Some v \<Rightarrow> word_of_nat (v mod 256 ^ 8) | None \<Rightarrow> slot_word b o1 w)"
proof -
  have "w = 0 \<or> w = 1 \<or> w = 2 \<or> w = 3" using assms(3) by linarith
  then have "(o1 + w * 8, 8) \<in> {(44, 4), (72, 4), (80, 8), (88, 8), (96, 8), (104, 8), (o1, 8), (o1 + 8, 8), (o1 + 16, 8), (o1 + 24, 8::nat)}"
    by auto
  from tx_read [OF assms(1,2) this] show ?thesis by (simp add: slot_word_def split: option.splits)
qed

section \<open>The finished transaction\<close>

lemma last_store_body:
  "distinct (map fst ws) \<Longrightarrow> last_store (tx_body o1 ws) (o1 + w * 8) 8 = map_option unat (map_of ws w)"
proof (induction ws)
  case (Cons x ws)
  obtain w' v where x: "x = (w', v)" by (cases x)
  have "w' = w \<Longrightarrow> map_of ws w = None" using Cons.prems x by (auto simp: map_of_eq_None_iff)
  then show ?case
    using Cons x by (auto simp: tx_body_def slot_store_def last_store_Cons split: option.splits)
qed (simp add: tx_body_def)

lemma last_store_journal_slot:
  "slot_in b o1 \<Longrightarrow> last_store (tx_journal b' o1) (o1 + off) n = None"
  by (rule last_store_None) (auto simp: tx_journal_def slot_in_def)

lemma last_store_tail:
  assumes "slot_in b o1"
  shows "last_store [tx_open b o1] (o1 + w * 8) 8 =
      (if w = 2 then Some (unat (pack_control (fst (control_parts (slot_word b o1 2))) (tx_odd b o1))) else None)"
    "last_store [tx_close b o1 head, (44, 4, 0)] (o1 + w * 8) 8 =
      (if w = 2 then Some (unat (pack_control head (tx_even b o1))) else None)"
    "last_store [tx_close b o1 head] (o1 + w * 8) 8 =
      (if w = 2 then Some (unat (pack_control head (tx_even b o1))) else None)"
  using assms by (auto simp: last_store_Cons tx_open_def tx_close_def slot_store_def slot_in_def)

definition tx_word :: "buf \<Rightarrow> usize \<Rightarrow> (nat \<times> u64) list \<Rightarrow> u32 \<Rightarrow> nat \<Rightarrow> u64" where
  "tx_word b o1 ws head w =
    (if w = 2 then pack_control head (tx_even b o1)
     else case map_of ws w of Some v \<Rightarrow> v | None \<Rightarrow> slot_word b o1 w)"

lemma even_gen_tx_word [simp]: "even_gen (tx_word b o1 ws head 2)"
  unfolding even_gen_def tx_word_def tx_even_def
  by (simp only: simp_thms if_True control_parts_pack snd_conv even_gen_even)

lemma body_word2: "body_ok ws \<Longrightarrow> map_of ws 2 = None"
  by (force simp: body_ok_def map_of_eq_None_iff)

lemma tx_done_word:
  assumes "slot_in b o1" "body_ok ws" "w < 4" "tail = [tx_close b o1 head, (44, 4, 0)] \<or> tail = [tx_close b o1 head]"
  shows "slot_word (wr_all (tx_journal b o1 @ tx_open b o1 # tx_body o1 ws @ tail) b) o1 w = tx_word b o1 ws head w"
proof -
  have "set (tx_journal b o1 @ tx_open b o1 # tx_body o1 ws @ tail) \<subseteq> set (slot_tx b o1 ws head)"
    using assms(4) by (auto simp: slot_tx_parts)
  then have f: "\<forall>st \<in> set (tx_journal b o1 @ tx_open b o1 # tx_body o1 ws @ tail). tx_field o1 st"
    using tx_fields [OF assms(2)] by blast
  have e: "tx_journal b o1 @ tx_open b o1 # tx_body o1 ws @ tail = tx_journal b o1 @ [tx_open b o1] @ tx_body o1 ws @ tail" by simp
  have d: "distinct (map fst ws)" using assms(2) by (simp add: body_ok_def)
  have t: "last_store tail (o1 + w * 8) 8 = (if w = 2 then Some (unat (pack_control head (tx_even b o1))) else None)"
    using assms(4) last_store_tail(2,3) [OF assms(1), of head w] by (elim disjE) (simp_all only:)
  show ?thesis
    unfolding tx_slot_word [OF assms(1) f assms(3)] unfolding e last_store_append t
      last_store_tail(1) [OF assms(1)] last_store_body [OF d] last_store_journal_slot [OF assms(1)]
    using body_word2 [OF assms(2)] by (simp add: tx_word_def split: option.splits)
qed

lemma slot_tx_word:
  assumes "slot_in b o1" "body_ok ws" "w < 4"
  shows "slot_word (wr_all (slot_tx b o1 ws head) b) o1 w = tx_word b o1 ws head w"
  using tx_done_word [OF assms] by (simp add: slot_tx_parts)

lemma last_store_state:
  assumes "slot_in b o1"
  shows "last_store (tx_journal b o1) 44 4 = Some 1" "last_store [tx_open b o1] 44 4 = None"
    "last_store [tx_close b o1 head] 44 4 = None" "last_store (tx_body o1 ws) 44 4 = None"
proof -
  show "last_store (tx_journal b o1) 44 4 = Some 1" by (simp add: tx_journal_def last_store_Cons)
  show "last_store [tx_open b o1] 44 4 = None" "last_store [tx_close b o1 head] 44 4 = None"
    by (simp_all add: tx_open_def tx_close_def slot_store_def last_store_Cons)
  show "last_store (tx_body o1 ws) 44 4 = None"
    by (induction ws) (auto simp: tx_body_def slot_store_def last_store_Cons)
qed

lemma slot_tx_state:
  assumes "slot_in b o1" "body_ok ws"
  shows "rd 44 4 (wr_all (slot_tx b o1 ws head) b) = 0"
proof -
  have f: "\<forall>st \<in> set (slot_tx b o1 ws head). tx_field o1 st" using tx_fields [OF assms(2)] by blast
  have "last_store (slot_tx b o1 ws head) 44 4 = Some 0"
    using last_store_append [of "tx_journal b o1 @ tx_open b o1 # tx_body o1 ws @ [tx_close b o1 head]" "[(44, 4, 0)]"]
    by (simp add: slot_tx_parts last_store_Cons)
  then show ?thesis using tx_read [OF assms(1) f, of 44 4] by simp
qed

section \<open>Crash and recovery\<close>

lemma tx_journal_reads:
  assumes "slot_in b o1" "body_ok ws" "ss = tx_journal b o1 @ tx_open b o1 # take j (tx_body o1 ws)"
  shows "rd 44 4 (wr_all ss b) = 1" "rd 72 4 (wr_all ss b) = o1"
    "w < 4 \<Longrightarrow> journal_word (wr_all ss b) w = slot_word b o1 w"
    "snd (control_parts (slot_word (wr_all ss b) o1 2)) AND 1 \<noteq> 0"
proof -
  have "set ss \<subseteq> set (slot_tx b o1 ws head)" using assms(3) by (auto simp: slot_tx_parts dest: in_set_takeD)
  then have f: "\<forall>st \<in> set ss. tx_field o1 st" using tx_fields [OF assms(2)] by blast
  have tl: "last_store (tx_open b o1 # take j (tx_body o1 ws)) off n = None" if "off < 128" for off n
    using that assms(1) by (intro last_store_None)
      (auto simp: tx_open_def tx_body_def slot_store_def slot_in_def dest!: in_set_takeD)
  have l: "last_store ss off n = last_store (tx_journal b o1) off n" if "off < 128" for off n
    by (simp only: assms(3) last_store_append tl [OF that] option.case)
  note r = tx_read [OF assms(1) f]
  show "rd 44 4 (wr_all ss b) = 1" using r [of 44 4] by (simp add: l last_store_state(1) [OF assms(1)])
  show "rd 72 4 (wr_all ss b) = o1"
    using r [of 72 4] assms(1) by (simp add: l tx_journal_def last_store_Cons slot_in_def)
  show "w < 4 \<Longrightarrow> journal_word (wr_all ss b) w = slot_word b o1 w"
  proof -
    assume "w < 4"
    then have w: "w = 0 \<or> w = 1 \<or> w = 2 \<or> w = 3" by linarith
    then have "last_store (tx_journal b o1) (80 + w * 8) 8 = Some (unat (slot_word b o1 w))"
      by (auto simp: tx_journal_def last_store_Cons)
    moreover have "rd (80 + w * 8) 8 (wr_all ss b) =
        (case last_store ss (80 + w * 8) 8 of Some v \<Rightarrow> v mod 256 ^ 8 | None \<Rightarrow> rd (80 + w * 8) 8 b)"
      using w by (intro r) auto
    moreover have "last_store ss (80 + w * 8) 8 = last_store (tx_journal b o1) (80 + w * 8) 8" using w by (intro l) auto
    ultimately show ?thesis by (simp only: journal_word_def option.case word_of_nat_unat_mod)
  qed
  have b2: "last_store (take j (tx_body o1 ws)) (o1 + 2 * 8) 8 = None"
  proof (rule last_store_None, clarify)
    fix n v assume "(o1 + 2 * 8, n, v) \<in> set (take j (tx_body o1 ws))"
    then obtain w u where "(w, u) \<in> set ws" "o1 + w * 8 = o1 + 2 * 8"
      by (auto simp: tx_body_def slot_store_def dest!: in_set_takeD)
    then show False using assms(2) by (force simp: body_ok_def)
  qed
  have "last_store ss (o1 + 2 * 8) 8 = Some (unat (pack_control (fst (control_parts (slot_word b o1 2))) (tx_odd b o1)))"
    using last_store_tail(1) [OF assms(1), of 2] last_store_append [of "[tx_open b o1]" "take j (tx_body o1 ws)"]
    by (simp add: assms(3) last_store_append b2 [simplified])
  then have "slot_word (wr_all ss b) o1 2 = pack_control (fst (control_parts (slot_word b o1 2))) (tx_odd b o1)"
    using tx_slot_word [OF assms(1) f, of 2] by simp
  then show "snd (control_parts (slot_word (wr_all ss b) o1 2)) AND 1 \<noteq> 0"
    by (simp add: tx_odd_def odd_gen_odd)
qed

text \<open>What recovery does in each state of the journal.\<close>

lemma recover_idle: "rd 44 4 b = 0 \<Longrightarrow> recover_slot_journal b = (True, b)"
  by (simp add: recover_slot_journal_def memh_header_def Let_def)

definition journal_valid :: "buf \<Rightarrow> usize \<Rightarrow> bool" where
  "journal_valid b o1 \<longleftrightarrow> rd 44 4 b \<noteq> 0 \<and> rd 72 4 b = o1 \<and> rd 20 4 b \<le> o1 \<and>
     o1 + 32 \<le> rd 20 4 b + rd 16 4 b * 32 \<and> o1 mod 8 = 0"

lemma recover_committed:
  "journal_valid b o1 \<Longrightarrow> even_gen (slot_word b o1 2) \<Longrightarrow> recover_slot_journal b = (True, wr 44 4 0 b)"
  by (simp add: recover_slot_journal_def memh_header_def Let_def journal_valid_def even_gen_def SLOT_STRIDE_def)

lemma recover_restores:
  assumes "journal_valid b o1" "\<not> even_gen (slot_word b o1 2)"
  shows "recover_slot_journal b =
    (True, wr_all (tx_body o1 [(0, journal_word b 0), (1, journal_word b 1), (2, journal_word b 2), (3, journal_word b 3)] @ [(44, 4, 0)]) b)"
proof -
  have "[0..<SLOT_WORDS] = [0, 1, 2, 3]" by (simp add: SLOT_WORDS_def SLOT_STRIDE_def upt_rec)
  then show ?thesis
    using assms by (simp add: recover_slot_journal_def memh_header_def Let_def journal_valid_def even_gen_def
        SLOT_STRIDE_def tx_body_def slot_store_def wr_all_append wr_all_Cons)
qed

text \<open>
  The outcome of recovery: it succeeds, the journal is empty, the slot's words are \<open>f\<close>, and outside
  the slot and the journal the buffer is the one the transaction began with.
\<close>

definition recovered :: "buf \<Rightarrow> usize \<Rightarrow> (nat \<Rightarrow> u64) \<Rightarrow> bool \<times> buf \<Rightarrow> bool" where
  "recovered b o1 f r \<longleftrightarrow> (\<exists>b'. r = (True, b') \<and> length b' = length b \<and> rd 44 4 b' = 0 \<and>
     (\<forall>w<4. slot_word b' o1 w = f w) \<and>
     (\<forall>off n. off + n \<le> 44 \<or> 48 \<le> off \<and> off + n \<le> 72 \<or> 76 \<le> off \<and> off + n \<le> 80 \<or>
        112 \<le> off \<and> off + n \<le> o1 \<or> o1 + 32 \<le> off \<longrightarrow> bslice off n b' = bslice off n b))"

lemma recoveredI:
  assumes "slot_in b o1" "\<forall>st \<in> set ss. tx_field o1 st" "r = (True, wr_all ss b)" "last_store ss 44 4 = Some 0 \<or> last_store ss 44 4 = None \<and> rd 44 4 b = 0"
    and "\<And>w. w < 4 \<Longrightarrow> (case last_store ss (o1 + w * 8) 8 of Some v \<Rightarrow> word_of_nat (v mod 256 ^ 8) | None \<Rightarrow> slot_word b o1 w) = f w"
  shows "recovered b o1 f r"
proof -
  have "rd 44 4 (wr_all ss b) = 0" using tx_read [OF assms(1,2), of 44 4] assms(4) by auto
  moreover have "length (wr_all ss b) = length b" using tx_slice_other(2) [OF assms(1,2), of 0 0] by simp
  ultimately show ?thesis
    unfolding recovered_def using tx_slice_other(1) [OF assms(1,2)] tx_slot_word [OF assms(1,2)] assms(3,5)
    by (intro exI [of _ "wr_all ss b"]) simp
qed

definition in_slots :: "buf \<Rightarrow> usize \<Rightarrow> bool" where
  "in_slots b o1 \<longleftrightarrow> slot_in b o1 \<and> rd 20 4 b \<le> o1 \<and> o1 + 32 \<le> rd 20 4 b + rd 16 4 b * 32 \<and> o1 mod 8 = 0"

lemma journal_valid_wr_all:
  assumes "in_slots b o1" "\<forall>st \<in> set ss. tx_field o1 st" "rd 44 4 (wr_all ss b) \<noteq> 0" "rd 72 4 (wr_all ss b) = o1"
  shows "journal_valid (wr_all ss b) o1"
proof -
  have s: "slot_in b o1" using assms(1) by (simp add: in_slots_def)
  have "rd 20 4 (wr_all ss b) = rd 20 4 b" "rd 16 4 (wr_all ss b) = rd 16 4 b"
    by (rule rd_cong, rule tx_slice_other(1) [OF s assms(2)], simp)+
  then show ?thesis using assms by (simp add: journal_valid_def in_slots_def)
qed

text \<open>A crash before the generation turns odd.\<close>

lemma crash_before_open:
  assumes "in_slots b o1" "even_gen (slot_word b o1 2)" "rd 44 4 b = 0" "k \<le> 6"
  shows "recovered b o1 (slot_word b o1) (recover_slot_journal (wr_all (take k (tx_journal b o1)) b))"
proof -
  have s: "slot_in b o1" using assms(1) by (simp add: in_slots_def)
  have f: "\<forall>st \<in> set (tx_journal b o1). tx_field o1 st"
    by (simp add: tx_journal_def tx_field_def)
  have ft: "\<forall>st \<in> set (take k (tx_journal b o1)). tx_field o1 st" using f by (meson in_set_takeD)
  have ls: "last_store (take k (tx_journal b o1)) (o1 + off) n = None" for off n
    using s by (intro last_store_None) (auto simp: tx_journal_def slot_in_def dest!: in_set_takeD)
  show ?thesis
  proof (cases "k = 6")
    case False
    then have k: "k = 0 \<or> k = 1 \<or> k = 2 \<or> k = 3 \<or> k = 4 \<or> k = 5" using assms(4) by linarith
    have n: "last_store (take k (tx_journal b o1)) 44 4 = None"
      using k by (elim disjE) (simp_all add: tx_journal_def last_store_Cons)
    then have "rd 44 4 (wr_all (take k (tx_journal b o1)) b) = 0"
      using tx_read [OF s ft, of 44 4] assms(3) by simp
    then show ?thesis using n assms(3) ls
      by (intro recoveredI [OF s ft]) (simp_all add: recover_idle)
  next
    case True
    let ?b = "wr_all (tx_journal b o1) b"
    have st: "rd 44 4 ?b = 1" "rd 72 4 ?b = o1"
      using tx_read [OF s f, of 44 4] tx_read [OF s f, of 72 4] s
      by (simp_all add: tx_journal_def last_store_Cons slot_in_def)
    have v: "journal_valid ?b o1" by (rule journal_valid_wr_all [OF assms(1) f]) (simp_all add: st)
    have "slot_word ?b o1 2 = slot_word b o1 2"
      using tx_slot_word [OF s f, of 2] last_store_journal_slot [OF s, of b 16 8] by simp
    then have r: "recover_slot_journal ?b = (True, wr_all (tx_journal b o1 @ [(44, 4, 0)]) b)"
      using recover_committed [OF v] assms(2) by (simp add: wr_all_append wr_all_Cons)
    show ?thesis
      using True r f ls
      by (intro recoveredI [OF s, of "tx_journal b o1 @ [(44, 4, 0)]"])
        (auto simp: last_store_append last_store_Cons tx_field_def last_store_journal_slot [OF s] split: option.splits)
  qed
qed

text \<open>A crash while the generation is odd: the journal image is put back.\<close>

lemma crash_while_open:
  assumes "in_slots b o1" "body_ok ws"
  shows "recovered b o1 (slot_word b o1)
    (recover_slot_journal (wr_all (tx_journal b o1 @ tx_open b o1 # take j (tx_body o1 ws)) b))"
proof -
  let ?ss = "tx_journal b o1 @ tx_open b o1 # take j (tx_body o1 ws)"
  let ?b = "wr_all ?ss b"
  have s: "slot_in b o1" using assms(1) by (simp add: in_slots_def)
  have "set ?ss \<subseteq> set (slot_tx b o1 ws 0)" by (auto simp: slot_tx_parts dest: in_set_takeD)
  then have f: "\<forall>st \<in> set ?ss. tx_field o1 st" using tx_fields [OF assms(2)] by blast
  note j = tx_journal_reads [OF s assms(2) refl, where j = j]
  have v: "journal_valid ?b o1" by (rule journal_valid_wr_all [OF assms(1) f]) (unfold j(1,2), simp_all)
  let ?old = "[(0, slot_word b o1 0), (1, slot_word b o1 1), (2, slot_word b o1 2), (3, slot_word b o1 3)]"
  have "journal_word ?b 0 = slot_word b o1 0" "journal_word ?b 1 = slot_word b o1 1"
    "journal_word ?b 2 = slot_word b o1 2" "journal_word ?b 3 = slot_word b o1 3" by (rule j(3), simp)+
  then have r: "recover_slot_journal ?b = (True, wr_all (?ss @ tx_body o1 ?old @ [(44, 4, 0)]) b)"
    using recover_restores [OF v] j(4) by (simp only: even_gen_def wr_all_append simp_thms)
  have fo: "\<forall>st \<in> set (tx_body o1 ?old @ [(44, 4, 0)]). tx_field o1 st"
    by (simp add: tx_body_def slot_store_def tx_field_def)
  have lo: "last_store (tx_body o1 ?old @ [(44, 4, 0)]) (o1 + w * 8) 8 = Some (unat (slot_word b o1 w))" if "w < 4" for w
  proof -
    have "w = 0 \<or> w = 1 \<or> w = 2 \<or> w = 3" using that by linarith
    then show ?thesis using s by (auto simp: tx_body_def slot_store_def last_store_Cons slot_in_def)
  qed
  have l: "last_store (?ss @ tx_body o1 ?old @ [(44, 4, 0)]) 44 4 = Some 0"
    using last_store_append [of "?ss @ tx_body o1 ?old" "[(44, 4, 0)]"] by (simp add: last_store_Cons)
  show ?thesis
  proof (rule recoveredI [OF s _ r])
    show "\<forall>st \<in> set (?ss @ tx_body o1 ?old @ [(44, 4, 0)]). tx_field o1 st" using f fo by (simp only: set_append ball_Un simp_thms)
  next
    fix w :: nat assume "w < 4"
    then show "(case last_store (?ss @ tx_body o1 ?old @ [(44, 4, 0)]) (o1 + w * 8) 8 of
        Some v \<Rightarrow> word_of_nat (v mod 256 ^ 8) | None \<Rightarrow> slot_word b o1 w) = slot_word b o1 w"
      by (simp only: last_store_append [of ?ss] lo option.case word_of_nat_unat_mod)
  qed (use l in simp)
qed

text \<open>A crash after the generation turned even again: the transaction stands.\<close>

lemma crash_after_close:
  assumes "in_slots b o1" "body_ok ws"
  shows "recovered b o1 (tx_word b o1 ws head)
    (recover_slot_journal (wr_all (tx_journal b o1 @ tx_open b o1 # tx_body o1 ws @ [tx_close b o1 head]) b))"
proof -
  let ?ss = "tx_journal b o1 @ tx_open b o1 # tx_body o1 ws @ [tx_close b o1 head]"
  let ?b = "wr_all ?ss b"
  have s: "slot_in b o1" using assms(1) by (simp add: in_slots_def)
  have "set ?ss \<subseteq> set (slot_tx b o1 ws head)" by (auto simp: slot_tx_parts)
  then have f: "\<forall>st \<in> set ?ss. tx_field o1 st" using tx_fields [OF assms(2)] by blast
  have p: "?ss = (tx_journal b o1 @ tx_open b o1 # take (length ws) (tx_body o1 ws)) @ [tx_close b o1 head]" by simp
  have n: "last_store [tx_close b o1 head] off m = None" if "off < 128" for off m
    using that s by (intro last_store_None) (auto simp: tx_close_def slot_store_def slot_in_def)
  have ff: "\<forall>st \<in> set (tx_journal b o1 @ tx_open b o1 # take (length ws) (tx_body o1 ws)). tx_field o1 st" using f by simp
  have rds: "rd 44 4 ?b = 1" "rd 72 4 ?b = o1"
    using tx_journal_reads(1,2) [OF s assms(2) refl, of "length ws"] tx_read [OF s f, of 44 4] tx_read [OF s f, of 72 4]
      tx_read [OF s ff, of 44 4] tx_read [OF s ff, of 72 4] n [of 44] n [of 72]
    by (simp_all only: p last_store_append option.case insertCI simp_thms insert_iff)
  have v: "journal_valid ?b o1" by (rule journal_valid_wr_all [OF assms(1) f]) (unfold rds, simp_all)
  have w: "slot_word ?b o1 w = tx_word b o1 ws head w" if "w < 4" for w
    by (rule tx_done_word [OF s assms(2) that]) simp
  have "even_gen (slot_word ?b o1 2)" using w [of 2] by simp
  then have r: "recover_slot_journal ?b = (True, wr_all (slot_tx b o1 ws head) b)"
    using recover_committed [OF v] by (simp add: slot_tx_parts wr_all_append wr_all_Cons tx_open_def tx_close_def slot_store_def)
  have ft: "\<forall>st \<in> set (slot_tx b o1 ws head). tx_field o1 st" using tx_fields [OF assms(2)] by blast
  show ?thesis
  proof (rule recoveredI [OF s ft r])
    show "last_store (slot_tx b o1 ws head) 44 4 = Some 0 \<or> last_store (slot_tx b o1 ws head) 44 4 = None \<and> rd 44 4 b = 0"
      using last_store_append [of ?ss "[(44, 4, 0)]" 44 4] by (simp add: slot_tx_parts last_store_Cons)
  next
    fix w :: nat assume w4: "w < 4"
    show "(case last_store (slot_tx b o1 ws head) (o1 + w * 8) 8 of
        Some v \<Rightarrow> word_of_nat (v mod 256 ^ 8) | None \<Rightarrow> slot_word b o1 w) = tx_word b o1 ws head w"
      using tx_slot_word [OF s ft w4] slot_tx_word [OF s assms(2) w4] by simp
  qed
qed

text \<open>All crash points together.\<close>

theorem slot_tx_crash_atomic:
  assumes "in_slots b o1" "body_ok ws" "even_gen (slot_word b o1 2)" "rd 44 4 b = 0"
  shows "recovered b o1 (if k < 8 + length ws then slot_word b o1 else tx_word b o1 ws head)
    (recover_slot_journal (wr_all (take k (slot_tx b o1 ws head)) b))"
proof -
  have s: "slot_in b o1" using assms(1) by (simp add: in_slots_def)
  consider "k \<le> 6" | j where "k = 7 + j" "j \<le> length ws" | "k = 8 + length ws" | "8 + length ws < k"
  proof -
    have "k \<le> 6 \<or> (k = 7 + (k - 7) \<and> k - 7 \<le> length ws) \<or> k = 8 + length ws \<or> 8 + length ws < k" by linarith
    then show thesis using that by blast
  qed
  then show ?thesis
  proof cases
    case 1
    then have "take k (slot_tx b o1 ws head) = take k (tx_journal b o1)" by (simp add: slot_tx_parts)
    then show ?thesis using 1 crash_before_open [OF assms(1,3,4) 1] by simp
  next
    case (2 j)
    then have "take k (slot_tx b o1 ws head) = tx_journal b o1 @ tx_open b o1 # take j (tx_body o1 ws)" by (simp add: slot_tx_parts)
    then show ?thesis using 2 crash_while_open [OF assms(1,2), of j] by simp
  next
    case 3
    then have "take k (slot_tx b o1 ws head) = tx_journal b o1 @ tx_open b o1 # tx_body o1 ws @ [tx_close b o1 head]"
      by (simp add: slot_tx_parts)
    then show ?thesis using 3 crash_after_close [OF assms(1,2), of head] by simp
  next
    case 4
    have ft: "\<forall>st \<in> set (slot_tx b o1 ws head). tx_field o1 st" using tx_fields [OF assms(2)] by blast
    have t: "take k (slot_tx b o1 ws head) = slot_tx b o1 ws head" using 4 by (simp add: slot_tx_parts)
    have l: "last_store (slot_tx b o1 ws head) 44 4 = Some 0"
      using last_store_append [of "tx_journal b o1 @ tx_open b o1 # tx_body o1 ws @ [tx_close b o1 head]" "[(44, 4, 0)]" 44 4]
      by (simp add: slot_tx_parts last_store_Cons)
    have "recovered b o1 (tx_word b o1 ws head) (recover_slot_journal (wr_all (slot_tx b o1 ws head) b))"
    proof (rule recoveredI [OF s ft])
      fix w :: nat assume w4: "w < 4"
      show "(case last_store (slot_tx b o1 ws head) (o1 + w * 8) 8 of
          Some v \<Rightarrow> word_of_nat (v mod 256 ^ 8) | None \<Rightarrow> slot_word b o1 w) = tx_word b o1 ws head w"
        using tx_slot_word [OF s ft w4] slot_tx_word [OF s assms(2) w4] by simp
    qed (simp_all add: l recover_idle [OF slot_tx_state [OF s assms(2)]])
    then show ?thesis using 4 t by simp
  qed
qed

end
