(* ===== verification/Probing.thy ===== *)
theory Probing
  imports Prelude
begin

text \<open>
  Open addressing with tombstones, on an abstract bucket array: the search that every MEMH operation
  makes, the invariant that keeps a key reachable from its home bucket, and the finite map the
  array stands for. The home bucket of a key is an argument: the refinement instantiates it with
  the masked xxh3 hash.
\<close>

datatype ('k, 'v) bucket = Free | Dead | Live 'k 'v

datatype probe_result = Found nat | Vacant nat | NoRoom

definition probe :: "nat \<Rightarrow> nat \<Rightarrow> nat \<Rightarrow> nat" where
  "probe n s p = (s + p) mod n"

fun probe_find :: "('k, 'v) bucket list \<Rightarrow> 'k \<Rightarrow> nat \<Rightarrow> nat option \<Rightarrow> nat list \<Rightarrow> probe_result" where
  "probe_find B key s tomb [] = (case tomb of Some t \<Rightarrow> Vacant t | None \<Rightarrow> NoRoom)"
| "probe_find B key s tomb (p # ps) =
    (let i = probe (length B) s p in
     case B ! i of
       Free \<Rightarrow> Vacant (case tomb of Some t \<Rightarrow> t | None \<Rightarrow> i)
     | Dead \<Rightarrow> probe_find B key s (case tomb of None \<Rightarrow> Some i | Some t \<Rightarrow> Some t) ps
     | Live k v \<Rightarrow> if k = key then Found i else probe_find B key s tomb ps)"

definition holds_key :: "('k, 'v) bucket list \<Rightarrow> nat \<Rightarrow> 'k \<Rightarrow> bool" where
  "holds_key B i key \<longleftrightarrow> i < length B \<and> (\<exists>v. B ! i = Live key v)"

definition bucket_map :: "('k, 'v) bucket list \<Rightarrow> 'k \<Rightarrow> 'v option" where
  "bucket_map B key = map_of (concat (map (\<lambda>x. case x of Live k v \<Rightarrow> [(k, v)] | _ \<Rightarrow> []) B)) key"

text \<open>Bucket \<open>i\<close> is reached from home \<open>s\<close> without passing a free bucket.\<close>

definition reached :: "('k, 'v) bucket list \<Rightarrow> nat \<Rightarrow> nat \<Rightarrow> bool" where
  "reached B s i \<longleftrightarrow> (\<exists>p<length B. probe (length B) s p = i \<and> (\<forall>q<p. B ! probe (length B) s q \<noteq> Free))"

definition probe_inv :: "('k \<Rightarrow> nat) \<Rightarrow> ('k, 'v) bucket list \<Rightarrow> bool" where
  "probe_inv home B \<longleftrightarrow>
    (\<forall>i j key. holds_key B i key \<and> holds_key B j key \<longrightarrow> i = j) \<and>
    (\<forall>i key. holds_key B i key \<longrightarrow> reached B (home key) i)"

section \<open>The search\<close>

lemma probe_less: "0 < n \<Longrightarrow> probe n s p < n"
  by (simp add: probe_def)

lemma probe_inj:
  assumes "probe n s p = probe n s q" "p < n" "q < n"
  shows "p = q"
proof (rule ccontr)
  assume "p \<noteq> q"
  then consider "p < q" | "q < p" by linarith
  then have "n dvd (if p < q then q - p else p - q)"
    using assms(1) mod_eq_dvd_iff_nat [of "s + p" "s + q" n] mod_eq_dvd_iff_nat [of "s + q" "s + p" n]
    by cases (simp_all add: probe_def)
  then show False using assms(2,3) \<open>p \<noteq> q\<close> by (auto dest: dvd_imp_le split: if_splits)
qed

text \<open>
  What a search over probes \<open>m..<n\<close> finds, when probes below \<open>m\<close> showed neither a free bucket nor the
  key: the bucket of the key, or else a bucket to insert it at.
\<close>

definition vacant_at :: "('k, 'v) bucket list \<Rightarrow> nat \<Rightarrow> nat \<Rightarrow> bool" where
  "vacant_at B s i \<longleftrightarrow> i < length B \<and> (B ! i = Free \<or> B ! i = Dead) \<and> reached B s i"

lemma probe_find_spec:
  assumes "m \<le> length B" "0 < length B"
    and "\<forall>q<m. B ! probe (length B) s q \<noteq> Free \<and> \<not> holds_key B (probe (length B) s q) key"
    and "\<And>t. tomb = Some t \<Longrightarrow> vacant_at B s t"
    and "tomb = None \<Longrightarrow> \<forall>q<m. B ! probe (length B) s q \<noteq> Dead"
  shows "case probe_find B key s tomb [m..<length B] of
      Found i \<Rightarrow> holds_key B i key
    | Vacant i \<Rightarrow> vacant_at B s i \<and> (\<forall>j. holds_key B j key \<longrightarrow> \<not> reached B s j)
    | NoRoom \<Rightarrow> \<forall>q<length B. \<exists>k v. B ! probe (length B) s q = Live k v \<and> k \<noteq> key"
  using assms
proof (induction "length B - m" arbitrary: m tomb)
  case 0
  then have m: "m = length B" by simp
  show ?case
  proof (cases tomb)
    case None
    have "\<exists>k v. B ! probe (length B) s q = Live k v \<and> k \<noteq> key" if "q < length B" for q
    proof -
      have "B ! probe (length B) s q \<noteq> Free" "\<not> holds_key B (probe (length B) s q) key"
        "B ! probe (length B) s q \<noteq> Dead" using 0 that m None by auto
      then show ?thesis using probe_less [OF "0.prems"(2), of s q]
        by (cases "B ! probe (length B) s q") (auto simp: holds_key_def)
    qed
    then show ?thesis using m None by simp
  next
    case (Some t)
    then show ?thesis using 0 m by (auto simp: reached_def)
  qed
next
  case (Suc d)
  then have m: "m < length B" by linarith
  let ?i = "probe (length B) s m"
  have i: "?i < length B" by (rule probe_less [OF Suc.prems(2)])
  have u: "[m..<length B] = m # [Suc m..<length B]" using m by (simp add: upt_conv_Cons)
  have d: "d = length B - Suc m" using Suc.hyps(2) by linarith
  show ?case
  proof (cases "B ! ?i")
    case Free
    have "reached B s ?i" using m Suc.prems(3) by (auto simp: reached_def)
    then have "vacant_at B s (case tomb of Some t \<Rightarrow> t | None \<Rightarrow> ?i)"
      using Suc.prems(4) Free i by (auto simp: vacant_at_def split: option.splits)
    moreover have "\<not> reached B s j" if h: "holds_key B j key" for j
    proof
      assume "reached B s j"
      then obtain p where p: "p < length B" "probe (length B) s p = j" "\<forall>q<p. B ! probe (length B) s q \<noteq> Free"
        by (auto simp: reached_def)
      from p(3) Free have "p \<le> m" by (meson not_le)
      moreover have "p \<noteq> m" using h Free p(2) by (auto simp: holds_key_def)
      ultimately show False using Suc.prems(3) p(2) h by (metis nat_less_le)
    qed
    ultimately show ?thesis using Free u by (simp add: Let_def)
  next
    case Dead
    have "reached B s ?i" using m Suc.prems(3) by (auto simp: reached_def)
    then have v: "vacant_at B s ?i" using i Dead by (simp add: vacant_at_def)
    have "\<forall>q<Suc m. B ! probe (length B) s q \<noteq> Free \<and> \<not> holds_key B (probe (length B) s q) key"
      using Suc.prems(3) Dead by (auto simp: less_Suc_eq holds_key_def)
    from Suc.hyps(1) [OF d _ Suc.prems(2) this, of "case tomb of None \<Rightarrow> Some ?i | Some t \<Rightarrow> Some t"]
    show ?thesis using m v Suc.prems(4) Dead u by (auto simp: Let_def split: option.splits)
  next
    case (Live k v)
    show ?thesis
    proof (cases "k = key")
      case True
      then show ?thesis using Live u i by (auto simp: Let_def holds_key_def)
    next
      case False
      have "\<forall>q<Suc m. B ! probe (length B) s q \<noteq> Free \<and> \<not> holds_key B (probe (length B) s q) key"
        using Suc.prems(3) Live False by (auto simp: less_Suc_eq holds_key_def)
      moreover have "tomb = None \<Longrightarrow> \<forall>q<Suc m. B ! probe (length B) s q \<noteq> Dead"
        using Suc.prems(5) Live by (auto simp: less_Suc_eq)
      ultimately show ?thesis using Suc.hyps(1) [OF d _ Suc.prems(2), of tomb] m Suc.prems(4) Live False u
        by (simp add: Let_def)
    qed
  qed
qed

section \<open>The map of a bucket array\<close>

definition live_pairs :: "('k, 'v) bucket list \<Rightarrow> ('k \<times> 'v) list" where
  "live_pairs B = concat (map (\<lambda>x. case x of Live k v \<Rightarrow> [(k, v)] | _ \<Rightarrow> []) B)"

lemma bucket_map_pairs: "bucket_map B = map_of (live_pairs B)"
  by (rule ext) (simp add: bucket_map_def live_pairs_def)

lemma live_pairs_Cons: "live_pairs (x # B) = (case x of Live k v \<Rightarrow> [(k, v)] | _ \<Rightarrow> []) @ live_pairs B"
  by (simp add: live_pairs_def)

lemma set_live_pairs: "(key, v) \<in> set (live_pairs B) \<longleftrightarrow> (\<exists>i<length B. B ! i = Live key v)"
proof
  assume "(key, v) \<in> set (live_pairs B)"
  then have "Live key v \<in> set B" by (auto simp: live_pairs_def split: bucket.splits)
  then show "\<exists>i<length B. B ! i = Live key v" by (simp add: in_set_conv_nth)
next
  assume "\<exists>i<length B. B ! i = Live key v"
  then have "Live key v \<in> set B" by (auto simp: in_set_conv_nth)
  then show "(key, v) \<in> set (live_pairs B)" by (force simp: live_pairs_def)
qed

lemma bucket_map_None: "bucket_map B key = None \<longleftrightarrow> (\<forall>i. \<not> holds_key B i key)"
proof -
  have "key \<in> fst ` set (live_pairs B) \<longleftrightarrow> (\<exists>v. (key, v) \<in> set (live_pairs B))" by force
  then show ?thesis
    by (auto simp: bucket_map_pairs map_of_eq_None_iff set_live_pairs holds_key_def)
qed

definition keys_once :: "('k, 'v) bucket list \<Rightarrow> bool" where
  "keys_once B \<longleftrightarrow> (\<forall>i j key. holds_key B i key \<and> holds_key B j key \<longrightarrow> i = j)"

lemma bucket_map_Some:
  assumes "keys_once B"
  shows "bucket_map B key = Some v \<longleftrightarrow> (\<exists>i<length B. B ! i = Live key v)"
proof
  assume "bucket_map B key = Some v"
  then have "(key, v) \<in> set (live_pairs B)" by (simp add: bucket_map_pairs map_of_SomeD)
  then show "\<exists>i<length B. B ! i = Live key v" by (simp add: set_live_pairs)
next
  assume "\<exists>i<length B. B ! i = Live key v"
  then obtain i where i: "i < length B" "B ! i = Live key v" by blast
  then obtain u where u: "bucket_map B key = Some u" using bucket_map_None [of B key]
    by (cases "bucket_map B key") (auto simp: holds_key_def)
  then have "(key, u) \<in> set (live_pairs B)" by (simp add: bucket_map_pairs map_of_SomeD)
  then obtain j where j: "j < length B" "B ! j = Live key u" by (auto simp: set_live_pairs)
  then have "i = j" using i assms unfolding keys_once_def holds_key_def by blast
  then show "bucket_map B key = Some v" using i j u by simp
qed

lemma holds_key_update:
  "holds_key (B[i := x]) j key \<longleftrightarrow> j < length B \<and> (if i = j then \<exists>v. x = Live key v else holds_key B j key)"
  by (auto simp: holds_key_def nth_list_update)

lemma ex_live_update:
  assumes "\<And>v. x \<noteq> Live k v" "\<And>v. B ! i \<noteq> Live k v"
  shows "(\<exists>j<length (B[i := x]). B[i := x] ! j = Live k u) \<longleftrightarrow> (\<exists>j<length B. B ! j = Live k u)"
proof -
  have "j < length B \<Longrightarrow> B[i := x] ! j = Live k u \<longleftrightarrow> B ! j = Live k u" for j
    using assms by (cases "j = i") auto
  then show ?thesis by auto
qed

lemma bucket_map_live:
  assumes "keys_once B" "i < length B" "\<forall>j. holds_key B j key \<longrightarrow> j = i" "\<And>k v. B ! i = Live k v \<Longrightarrow> k = key"
  shows "keys_once (B[i := Live key v])" "bucket_map (B[i := Live key v]) = (bucket_map B)(key \<mapsto> v)"
proof -
  have "a = b" if "holds_key (B[i := Live key v]) a k" "holds_key (B[i := Live key v]) b k" for a b k
    using that assms(1,3) unfolding holds_key_update keys_once_def by (auto split: if_splits)
  then show ko: "keys_once (B[i := Live key v])" by (auto simp: keys_once_def)
  show "bucket_map (B[i := Live key v]) = (bucket_map B)(key \<mapsto> v)"
  proof (rule ext)
    fix k
    show "bucket_map (B[i := Live key v]) k = ((bucket_map B)(key \<mapsto> v)) k"
    proof (cases "k = key")
      case True
      have "bucket_map (B[i := Live key v]) key = Some v"
        unfolding bucket_map_Some [OF ko] using assms(2) by (intro exI [of _ i]) simp
      then show ?thesis using True by simp
    next
      case False
      have "bucket_map (B[i := Live key v]) k = Some u \<longleftrightarrow> bucket_map B k = Some u" for u
        unfolding bucket_map_Some [OF ko] bucket_map_Some [OF assms(1)]
        using False assms(4) by (intro ex_live_update) auto
      then have "bucket_map (B[i := Live key v]) k = bucket_map B k" by (metis not_None_eq)
      then show ?thesis using False by simp
    qed
  qed
qed

lemma bucket_map_dead:
  assumes "keys_once B" "i < length B" "B ! i = Live key v"
  shows "keys_once (B[i := Dead])" "bucket_map (B[i := Dead]) = (bucket_map B)(key := None)"
proof -
  have "a = b" if "holds_key (B[i := Dead]) a k" "holds_key (B[i := Dead]) b k" for a b k
    using that assms(1) unfolding holds_key_update keys_once_def by (auto split: if_splits)
  then show ko: "keys_once (B[i := Dead])" by (auto simp: keys_once_def)
  show "bucket_map (B[i := Dead]) = (bucket_map B)(key := None)"
  proof (rule ext)
    fix k
    show "bucket_map (B[i := Dead]) k = ((bucket_map B)(key := None)) k"
    proof (cases "k = key")
      case True
      have "\<not> holds_key (B[i := Dead]) j key" for j
        using assms unfolding holds_key_update keys_once_def by (auto simp: holds_key_def)
      then have "bucket_map (B[i := Dead]) key = None" by (simp add: bucket_map_None)
      then show ?thesis using True by simp
    next
      case False
      have "bucket_map (B[i := Dead]) k = Some u \<longleftrightarrow> bucket_map B k = Some u" for u
        unfolding bucket_map_Some [OF ko] bucket_map_Some [OF assms(1)]
        using False assms(3) by (intro ex_live_update) auto
      then have "bucket_map (B[i := Dead]) k = bucket_map B k" by (metis not_None_eq)
      then show ?thesis using False by simp
    qed
  qed
qed

section \<open>Operations keep the invariant\<close>

lemma reached_update:
  assumes "reached B s j" "x \<noteq> Free"
  shows "reached (B[i := x]) s j"
proof -
  from assms(1) obtain p where p: "p < length B" "probe (length B) s p = j" "\<forall>q<p. B ! probe (length B) s q \<noteq> Free"
    by (auto simp: reached_def)
  have "B[i := x] ! probe (length B) s q \<noteq> Free" if "q < p" for q
  proof -
    have "probe (length B) s q < length B" using p(1) by (intro probe_less) linarith
    then show ?thesis using p(3) that assms(2) by (cases "probe (length B) s q = i") auto
  qed
  then show ?thesis using p by (auto simp: reached_def)
qed

lemma probe_invD:
  assumes "probe_inv home B"
  shows "keys_once B" "holds_key B i key \<Longrightarrow> reached B (home key) i"
  using assms by (auto simp: probe_inv_def keys_once_def)

lemma probe_find_inv:
  assumes "probe_inv home B" "0 < length B"
  shows "case probe_find B key (home key) None [0..<length B] of
      Found i \<Rightarrow> holds_key B i key
    | Vacant i \<Rightarrow> vacant_at B (home key) i \<and> bucket_map B key = None
    | NoRoom \<Rightarrow> bucket_map B key = None \<and> (\<forall>q<length B. \<exists>k v. B ! probe (length B) (home key) q = Live k v)"
proof -
  have h: "\<not> holds_key B j key" if "\<forall>q<length B. \<exists>k v. B ! probe (length B) (home key) q = Live k v \<and> k \<noteq> key" for j
  proof
    assume "holds_key B j key"
    moreover from this obtain p where "p < length B" "probe (length B) (home key) p = j"
      using probe_invD(2) [OF assms(1)] by (auto simp: reached_def)
    ultimately show False using that by (auto simp: holds_key_def)
  qed
  show ?thesis
    using probe_find_spec [of 0 B "home key" key None] assms(2) probe_invD(2) [OF assms(1)] h
    by (auto simp: bucket_map_None split: probe_result.splits)
qed

lemma put_vacant:
  assumes "probe_inv home B" "vacant_at B (home key) i" "bucket_map B key = None"
  shows "probe_inv home (B[i := Live key v])" "bucket_map (B[i := Live key v]) = (bucket_map B)(key \<mapsto> v)"
proof -
  have i: "i < length B" "B ! i = Free \<or> B ! i = Dead" "reached B (home key) i" using assms(2) by (auto simp: vacant_at_def)
  have n: "\<not> holds_key B j key" for j using assms(3) by (simp add: bucket_map_None)
  note m = bucket_map_live [OF probe_invD(1) [OF assms(1)] i(1), of key v]
  show "bucket_map (B[i := Live key v]) = (bucket_map B)(key \<mapsto> v)" using m(2) n i(2) by auto
  have "keys_once (B[i := Live key v])" using m(1) n i(2) by auto
  moreover have "reached (B[i := Live key v]) (home k) j" if "holds_key (B[i := Live key v]) j k" for j k
    using that probe_invD(2) [OF assms(1)] i(3)
    by (intro reached_update) (auto simp: holds_key_update split: if_splits)
  ultimately show "probe_inv home (B[i := Live key v])" by (auto simp: probe_inv_def keys_once_def)
qed

lemma put_found:
  assumes "probe_inv home B" "holds_key B i key"
  shows "probe_inv home (B[i := Live key v])" "bucket_map (B[i := Live key v]) = (bucket_map B)(key \<mapsto> v)"
proof -
  have i: "i < length B" "\<exists>u. B ! i = Live key u" using assms(2) by (auto simp: holds_key_def)
  have n: "holds_key B j key \<longrightarrow> j = i" for j using probe_invD(1) [OF assms(1)] assms(2) unfolding keys_once_def by blast
  note m = bucket_map_live [OF probe_invD(1) [OF assms(1)] i(1), of key v]
  show "bucket_map (B[i := Live key v]) = (bucket_map B)(key \<mapsto> v)" using m(2) n i(2) by auto
  have "keys_once (B[i := Live key v])" using m(1) n i(2) by auto
  moreover have "reached (B[i := Live key v]) (home k) j" if "holds_key (B[i := Live key v]) j k" for j k
    using that probe_invD(2) [OF assms(1)] assms(2)
    by (intro reached_update) (auto simp: holds_key_update split: if_splits)
  ultimately show "probe_inv home (B[i := Live key v])" by (auto simp: probe_inv_def keys_once_def)
qed

lemma del_found:
  assumes "probe_inv home B" "holds_key B i key"
  shows "probe_inv home (B[i := Dead])" "bucket_map (B[i := Dead]) = (bucket_map B)(key := None)"
proof -
  obtain v where i: "i < length B" "B ! i = Live key v" using assms(2) by (auto simp: holds_key_def)
  note m = bucket_map_dead [OF probe_invD(1) [OF assms(1)] i]
  show "bucket_map (B[i := Dead]) = (bucket_map B)(key := None)" by (rule m(2))
  have "reached (B[i := Dead]) (home k) j" if "holds_key (B[i := Dead]) j k" for j k
    using that probe_invD(2) [OF assms(1)]
    by (intro reached_update) (auto simp: holds_key_update split: if_splits)
  then show "probe_inv home (B[i := Dead])" using m(1) by (auto simp: probe_inv_def keys_once_def)
qed

lemma probe_inv_empty:
  fixes home :: "'k \<Rightarrow> nat" and n :: nat
  defines "E \<equiv> replicate n (Free :: ('k, 'v) bucket)"
  shows "probe_inv home E" "bucket_map E = Map.empty"
proof -
  have h: "\<not> holds_key E i key" for i key unfolding E_def by (auto simp: holds_key_def)
  then show "probe_inv home E" unfolding probe_inv_def by blast
  show "bucket_map E = Map.empty" using h by (intro ext) (simp add: bucket_map_None)
qed

section \<open>Counting\<close>

lemma keys_once_Cons:
  assumes "keys_once (x # B)"
  shows "keys_once B" "x = Live k v \<Longrightarrow> \<not> holds_key B j k"
proof -
  have u: "i = j" if "holds_key (x # B) i key" "holds_key (x # B) j key" for i j key
    using assms that unfolding keys_once_def by blast
  show "keys_once B" unfolding keys_once_def
  proof clarify
    fix i j key assume "holds_key B i key" "holds_key B j key"
    then show "i = j" using u [of "Suc i" key "Suc j"] by (auto simp: holds_key_def)
  qed
  show "\<not> holds_key B j k" if "x = Live k v"
    using u [of 0 k "Suc j"] that by (auto simp: holds_key_def)
qed

lemma keys_once_distinct: "keys_once B \<Longrightarrow> distinct (map fst (live_pairs B))"
proof (induction B)
  case (Cons x B)
  note k = keys_once_Cons [OF Cons.prems]
  show ?case
  proof (cases x)
    case (Live key v)
    have "key \<notin> fst ` set (live_pairs B)" using k(2) [OF Live] by (force simp: set_live_pairs holds_key_def)
    then show ?thesis using Cons.IH [OF k(1)] Live by (simp add: live_pairs_Cons)
  qed (use Cons.IH [OF k(1)] in \<open>simp_all add: live_pairs_Cons\<close>)
qed (simp add: live_pairs_def)

lemma card_bucket_map: "keys_once B \<Longrightarrow> card (dom (bucket_map B)) = length (live_pairs B)"
  using distinct_card [OF keys_once_distinct, of B] by (simp add: bucket_map_pairs dom_map_of_conv_image_fst)

lemma all_live: "\<forall>x\<in>set B. \<exists>k v. x = Live k v \<Longrightarrow> length (live_pairs B) = length B"
  by (induction B) (auto simp: live_pairs_Cons, simp add: live_pairs_def)

lemma no_room_full:
  assumes "\<forall>q<length B. \<exists>k v. B ! probe (length B) s q = Live k v"
  shows "length (live_pairs B) = length B"
proof (rule all_live, clarify)
  fix x assume "x \<in> set B"
  then obtain i where i: "i < length B" "B ! i = x" by (auto simp: in_set_conv_nth)
  have "inj_on (probe (length B) s) {..<length B}" by (rule inj_onI) (auto intro: probe_inj)
  moreover have "probe (length B) s ` {..<length B} \<subseteq> {..<length B}" using i(1) by (auto intro!: probe_less)
  ultimately have "probe (length B) s ` {..<length B} = {..<length B}" by (intro endo_inj_surj) auto
  then obtain q where "q < length B" "probe (length B) s q = i" using i(1) by (metis imageE lessThan_iff)
  then show "\<exists>k v. x = Live k v" using assms i(2) by auto
qed

end
