(* ===== verification/Memh_Refine.thy ===== *)
theory Memh_Refine
  imports Memh_Table Memh_Slot Probing
begin

text \<open>
  The refinement between the bytes of a MEMH table and the abstract bucket array of \<open>Probing\<close>: what
  it means for a buffer to represent an array of buckets, that reading a slot or following a head
  offset sees the bucket, and that appending a record and running a slot transaction change the
  buffer as the array is changed.
\<close>

section \<open>The relation\<close>

abbreviation nb :: "buf \<Rightarrow> nat" where "nb b \<equiv> rd 16 4 b"
abbreviation ast :: "buf \<Rightarrow> nat" where "ast b \<equiv> rd 136 4 b"
abbreviation acap :: "buf \<Rightarrow> nat" where "acap b \<equiv> rd 140 4 b"
abbreviation bump :: "buf \<Rightarrow> nat" where "bump b \<equiv> rd 32 4 b"
abbreviation so :: "usize \<Rightarrow> usize" where "so i \<equiv> 192 + i * 32"

definition memh_geom :: "buf \<Rightarrow> bool" where
  "memh_geom b \<longleftrightarrow>
    rd 0 4 b = MAGIC_MEMH \<and> rd 4 2 b = VERSION_MEMH \<and> rd 6 2 b = MEMH_HEADER_SIZE \<and> rd 8 2 b = bom_value \<and>
    is_power_of_two (nb b) \<and> rd 20 4 b = 192 \<and> rd 128 4 b = SLOT_STRIDE \<and> ast b = 192 + nb b * 32 \<and>
    ast b + acap b < 2 ^ 32 \<and> ast b + acap b \<le> length b \<and> bump b \<le> acap b"

definition slot_at :: "buf \<Rightarrow> usize \<Rightarrow> Slot" where
  "slot_at b i = slot_fields (slot_word b (so i) 0) (slot_word b (so i) 1) (slot_word b (so i) 2) (slot_word b (so i) 3)"

definition key_ok :: "byte list \<Rightarrow> bool" where
  "key_ok k \<longleftrightarrow> utf8_ok k \<and> length k < 2 ^ 16"

definition holds_record :: "buf \<Rightarrow> usize \<Rightarrow> byte list \<Rightarrow> bool" where
  "holds_record b pos rcd \<longleftrightarrow>
    ast b \<le> pos \<and> pos + length rcd \<le> ast b + bump b \<and> bslice pos (length rcd) b = rcd"

definition value_record :: "byte list \<Rightarrow> usize \<Rightarrow> u64 \<Rightarrow> nat \<Rightarrow> Value \<Rightarrow> byte list" where
  "value_record k i h prev v =
    (if scalar v then arena_record k i h prev FLAG_PUT_INLINE DTYPE_NONE []
     else arena_record k i h prev FLAG_PUT (dtype_code (value_dtype v)) (value_bytes v))"

fun bucket_rep :: "(byte list \<Rightarrow> u64) \<Rightarrow> buf \<Rightarrow> usize \<Rightarrow> Slot \<Rightarrow> (byte list, Value) bucket \<Rightarrow> bool" where
  "bucket_rep h b i s Free \<longleftrightarrow> tag s = SLOT_EMPTY"
| "bucket_rep h b i s Dead \<longleftrightarrow> tag s = SLOT_TOMBSTONE \<and>
    (head_off s = U32_MAX \<or>
     (\<exists>k prev. key_ok k \<and> holds_record b (head_off s) (arena_record k i (h k) prev FLAG_TOMBSTONE DTYPE_NONE [])))"
| "bucket_rep h b i s (Live k v) \<longleftrightarrow>
    slot_hash s = h k \<and> key_len s = length k \<and> key_ok k \<and> storable v \<and>
    tag s = (if scalar v then SLOT_INLINE else SLOT_OCCUPIED) \<and>
    (scalar v \<longrightarrow> encode_inline_bytes v = Some (val_dtype s, val_bytes s)) \<and>
    (\<exists>prev. holds_record b (head_off s) (value_record k i (h k) prev v))"

definition slots_rep :: "(byte list \<Rightarrow> u64) \<Rightarrow> buf \<Rightarrow> (byte list, Value) bucket list \<Rightarrow> bool" where
  "slots_rep h b B \<longleftrightarrow> memh_geom b \<and> rd 44 4 b = 0 \<and> length B = nb b \<and>
    (\<forall>i<nb b. even_gen (slot_word b (so i) 2) \<and> bucket_rep h b i (slot_at b i) (B ! i))"

section \<open>Masks\<close>

lemma power_of_two_exp: "is_power_of_two n \<Longrightarrow> \<exists>k. n = 2 ^ k"
proof (induction n rule: less_induct)
  case (less n)
  have n: "0 < n" "n AND (n - 1) = 0" using less.prems by (auto simp: is_power_of_two_def)
  show ?case
  proof (cases "even n")
    case True
    then obtain m where m: "n = 2 * m" by blast
    have bits: "bit (m AND (m - 1)) j = bit (n AND (n - 1)) (Suc j)" for j
    proof -
      have "(n - 1) div 2 = m - 1" using m n(1) by simp
      then have "bit (n - 1) (Suc j) = bit (m - 1) j" by (simp add: bit_Suc)
      moreover have "bit n (Suc j) = bit m j" using m by (simp add: bit_Suc)
      ultimately show ?thesis by (simp add: bit_and_iff)
    qed
    have "m AND (m - 1) = 0" by (rule bit_eqI) (unfold bits n(2), simp)
    then have "is_power_of_two m" using n(1) m by (simp add: is_power_of_two_def)
    then obtain k where "m = 2 ^ k" using less.IH [of m] m n(1) by auto
    then show ?thesis using m by (intro exI [of _ "Suc k"]) simp
  next
    case False
    then obtain m where m: "n = 2 * m + 1" by (metis oddE)
    have "m = 0"
    proof (rule ccontr)
      assume "m \<noteq> 0"
      then obtain j where "bit m j" by (metis bit_eqI bit_0_eq bot_apply bot_bool_def)
      then have "bit n (Suc j)" "bit (n - 1) (Suc j)" using m by (simp_all add: bit_Suc)
      then have "bit (n AND (n - 1)) (Suc j)" by (simp add: bit_and_iff)
      then show False using n(2) by simp
    qed
    then show ?thesis using m by (intro exI [of _ 0]) simp
  qed
qed

lemma mask_mod: "is_power_of_two n \<Longrightarrow> x AND (n - 1) = x mod n"
proof -
  assume "is_power_of_two n"
  then obtain k where k: "n = 2 ^ k" using power_of_two_exp by blast
  have "x AND mask k = take_bit k x" by (simp add: take_bit_eq_mask)
  then show ?thesis by (simp add: k mask_eq_exp_minus_1 take_bit_eq_mod)
qed

section \<open>Geometry\<close>

lemma geomD:
  assumes "memh_geom b"
  shows "0 < nb b" "is_power_of_two (nb b)" "rd 20 4 b = 192" "ast b = 192 + nb b * 32"
    "ast b + acap b < 2 ^ 32" "ast b + acap b \<le> length b" "bump b \<le> acap b"
  using assms by (auto simp: memh_geom_def is_power_of_two_def)

lemma slot_in_geom:
  assumes "memh_geom b" "i < nb b"
  shows "in_slots b (so i)" "slot_in b (so i)" "so i + 32 \<le> ast b"
proof -
  have "i * 32 + 32 \<le> nb b * 32" using block_end_le [OF assms(2), of 32] by (simp add: mult.commute)
  then show "slot_in b (so i)" "so i + 32 \<le> ast b" using geomD [OF assms(1)] by (auto simp: slot_in_def)
  then show "in_slots b (so i)" using geomD [OF assms(1)] by (simp add: in_slots_def mod_add_eq [symmetric])
qed

lemma memh_data_offset_192 [simp]: "memh_data_offset = 192"
  by (simp add: memh_data_offset_def align64_def clear_low6_eq meta_offset_def memh_consts)

lemma slot_off_so [simp]: "slot_off 192 i = so i"
  by (simp add: slot_off_def SLOT_STRIDE_def)

lemma view_of_fields [simp]:
  "mv_data_off (view_of b) = rd 20 4 b" "mv_num_buckets (view_of b) = nb b" "mv_mask (view_of b) = nb b - 1"
  "mv_arena_start (view_of b) = ast b" "mv_hash_seed (view_of b) = word_of_nat (rd 144 8 b)"
  by (simp_all add: view_of_def Let_def memh_header_def memh_meta_def meta_offset_def memh_consts)

lemma writer_of_fields [simp]:
  "hw_buf (memh_writer_unchecked b) = b" "hw_data_off (memh_writer_unchecked b) = rd 20 4 b"
  "hw_num_buckets (memh_writer_unchecked b) = nb b" "hw_mask (memh_writer_unchecked b) = nb b - 1"
  "hw_arena_start (memh_writer_unchecked b) = ast b" "hw_arena_cap (memh_writer_unchecked b) = acap b"
  "hw_hash_seed (memh_writer_unchecked b) = word_of_nat (rd 144 8 b)"
  by (simp_all add: memh_writer_unchecked_def Let_def memh_header_def memh_meta_def meta_offset_def memh_consts)

lemma arena_bump_rd [simp]: "arena_bump (memh_header b) = bump b"
  by (simp add: memh_header_def)

text \<open>A buffer that agrees with \<open>b\<close> on the geometry, the arena in use and the slots.\<close>

lemma slot_word_cong: "bslice (o1 + w * 8) 8 b = bslice (o1 + w * 8) 8 b' \<Longrightarrow> slot_word b o1 w = slot_word b' o1 w"
  by (simp add: slot_word_def rd_def)

lemma slice_sub:
  assumes "bslice off n b = bslice off n b'" "off \<le> o2" "o2 + m \<le> off + n"
  shows "bslice o2 m b = bslice o2 m b'"
proof -
  have "bslice (o2 - off) m (bslice off n b) = bslice (o2 - off) m (bslice off n b')" using assms(1) by simp
  then show ?thesis using assms(2,3) by (simp add: slice_slice)
qed

definition same_base :: "buf \<Rightarrow> buf \<Rightarrow> bool" where
  "same_base b b' \<longleftrightarrow> bslice 0 32 b' = bslice 0 32 b \<and> bslice 128 64 b' = bslice 128 64 b \<and> length b' = length b"

lemma same_base_rd:
  assumes "same_base b b'"
  shows "off + n \<le> 32 \<Longrightarrow> rd off n b' = rd off n b" "128 \<le> off \<Longrightarrow> off + n \<le> 192 \<Longrightarrow> rd off n b' = rd off n b"
  using assms by (auto simp: same_base_def intro!: rd_cong elim: slice_sub)

lemma same_base_geom:
  assumes "same_base b b'" "memh_geom b" "bump b' \<le> acap b"
  shows "memh_geom b'"
  using assms(2,3) assms(1) [unfolded same_base_def] same_base_rd [OF assms(1)] by (simp add: memh_geom_def)

lemma same_base_view:
  "same_base b b' \<Longrightarrow> view_of b' = view_of b"
  using same_base_rd [of b b'] by (simp add: view_of_def Let_def memh_header_def memh_meta_def meta_offset_def memh_consts)

lemma holds_record_mono:
  assumes "same_base b b'" "holds_record b pos rcd" "bump b \<le> bump b'"
    and "bslice (ast b) (bump b) b' = bslice (ast b) (bump b) b"
  shows "holds_record b' pos rcd"
proof -
  have h: "ast b \<le> pos" "pos + length rcd \<le> ast b + bump b" using assms(2) unfolding holds_record_def by simp_all
  have "bslice pos (length rcd) b' = bslice pos (length rcd) b" by (rule slice_sub [OF assms(4) h])
  moreover have "ast b' = ast b" by (rule same_base_rd(2) [OF assms(1)]) simp_all
  ultimately show ?thesis using assms(2,3) unfolding holds_record_def by simp
qed

lemma bucket_rep_mono:
  assumes "same_base b b'" "bucket_rep h b i s x" "bump b \<le> bump b'"
    and "bslice (ast b) (bump b) b' = bslice (ast b) (bump b) b"
  shows "bucket_rep h b' i s x"
  using assms(2) holds_record_mono [OF assms(1) _ assms(3,4)] by (cases x) auto

text \<open>Changing the ownership fields of the header keeps the table.\<close>

lemma slots_rep_frame:
  assumes "slots_rep h b B" "length b' = length b" "bslice 0 36 b' = bslice 0 36 b" "rd 44 4 b' = 0"
    and "bslice 128 (length b - 128) b' = bslice 128 (length b - 128) b"
  shows "slots_rep h b' B" "same_base b b'"
proof -
  have g: "memh_geom b" using assms(1) by (simp add: slots_rep_def)
  have l: "192 \<le> length b" using geomD [OF g] by simp
  have hi: "bslice off n b' = bslice off n b" if "128 \<le> off" "off + n \<le> length b" for off n
    using that by (intro slice_sub [OF assms(5)]) auto
  show sb: "same_base b b'" using assms(2) hi [of 128 64] l slice_sub [OF assms(3), of 0 32]
    by (simp add: same_base_def)
  have bp: "bump b' = bump b" using slice_sub [OF assms(3), of 32 4] by (simp add: rd_def)
  have g': "memh_geom b'" by (rule same_base_geom [OF sb g]) (simp add: bp geomD(7) [OF g])
  have n: "nb b' = nb b" by (rule same_base_rd(1) [OF sb]) simp
  have w: "slot_word b' (so i) w = slot_word b (so i) w" if "i < nb b" "w < 4" for i w
    using slot_in_geom [OF g that(1)] that(2) by (intro slot_word_cong hi) (auto simp: slot_in_def)
  have "bslice (ast b) (bump b) b' = bslice (ast b) (bump b) b" using geomD [OF g] by (intro hi) auto
  then have "bucket_rep h b' i (slot_at b i) (B ! i)" if "i < nb b" for i
    using bucket_rep_mono [OF sb] bp assms(1) that by (auto simp: slots_rep_def)
  then show "slots_rep h b' B" using assms(1,4) g' n w by (simp add: slots_rep_def slot_at_def)
qed

section \<open>Following a head offset\<close>

lemma record_len_ok:
  assumes "memh_geom b" "holds_record b pos rcd"
  shows "length rcd < 2 ^ 32" "pos + length rcd < 2 ^ 32" "pos + length rcd \<le> length b"
  using geomD [OF assms(1)] assms(2) by (auto simp: holds_record_def)

lemma record_at_end:
  assumes "memh_geom b" "holds_record b pos rcd" "pos + length rcd \<le> e" "e \<le> length b"
  shows "get_range b pos e = Some (rcd @ bslice (pos + length rcd) (e - pos - length rcd) b)"
proof -
  have "bslice pos (e - pos) b = bslice pos (length rcd) b @ bslice (pos + length rcd) (e - pos - length rcd) b"
    using slice_add [of pos "length rcd" "e - pos - length rcd" b] assms(3) by simp
  then show ?thesis using assms by (simp add: get_range_def holds_record_def)
qed

lemma record_at:
  assumes "memh_geom b" "holds_record b pos rcd"
  shows "get_range b pos (pos + length rcd) = Some rcd"
  using record_at_end [OF assms order_refl record_len_ok(3) [OF assms]] by simp

text \<open>The three ways the code gets at a record: the view, the validator and the writer's key test.\<close>

lemma live_record_at:
  assumes "memh_geom b" "holds_record b (head_off s) (arena_record k i hh prev fl dt pl)"
  shows "live_record (view_of b) b s = Some (record_hdr k i hh prev fl dt (length pl), arena_record k i hh prev fl dt pl)"
proof -
  let ?r = "arena_record k i hh prev fl dt pl"
  note g = geomD [OF assms(1)] and l = record_len_ok [OF assms]
  have rl: "record_len (record_hdr k i hh prev fl dt (length pl)) = length ?r"
    using l(1) by (simp add: record_hdr_def length_arena_record)
  have n28: "28 \<le> length ?r" using align4_bounds(1) [of "28 + (length k + length pl)"] by (simp add: length_arena_record)
  have h: "ast b \<le> head_off s" "head_off s + length ?r \<le> ast b + bump b" using assms(2) by (auto simp: holds_record_def)
  have e1: "get_range b (head_off s) (ast b + bump b) =
      Some (?r @ bslice (head_off s + length ?r) (ast b + bump b - head_off s - length ?r) b)"
    using g h by (intro record_at_end [OF assms]) auto
  show ?thesis
    using g(5,7) h l n28 record_at [OF assms]
    by (simp add: live_record_def Let_def checked_add_def e1 rl ARENA_HDR_SIZE_def read_record_header_arena)
qed

lemma record_key_at:
  assumes "memh_geom b" "holds_record b pos (arena_record k i hh prev fl dt pl)" "key_ok k"
  shows "record_key (record_hdr k i hh prev fl dt (length pl)) (arena_record k i hh prev fl dt pl @ rest) = Some k"
  using record_len_ok(1) [OF assms(1,2)] assms(3) by (intro record_key_arena) (auto simp: key_ok_def length_arena_record)

lemma slot_matches_at:
  assumes "memh_geom b" "holds_record b (head_off s) (arena_record k i hh prev fl dt pl)" "key_ok k"
  shows "slot_matches b s key \<longleftrightarrow> k = key"
  using record_at_end [OF assms(1,2) record_len_ok(3) [OF assms(1,2)] order_refl] record_key_at [OF assms]
  by (simp add: slot_matches_def read_record_header_arena)

lemma bucket_record:
  assumes "bucket_rep h b i s (Live k v)"
  obtains prev fl dt pl where "holds_record b (head_off s) (arena_record k i (h k) prev fl dt pl)"
    "key_ok k" "arena_record k i (h k) prev fl dt pl = value_record k i (h k) prev v"
    "fl = (if scalar v then FLAG_PUT_INLINE else FLAG_PUT)" "dt = (if scalar v then DTYPE_NONE else dtype_code (value_dtype v))"
    "pl = (if scalar v then [] else value_bytes v)"
proof -
  obtain prev where "holds_record b (head_off s) (value_record k i (h k) prev v)" "key_ok k" using assms by auto
  then show thesis using that [of prev] by (cases "scalar v") (simp_all add: value_record_def)
qed

text \<open>The value a matching slot yields to \<open>get\<close>.\<close>

lemma bucket_value:
  assumes "memh_geom b" "bucket_rep h b i s (Live k v)"
  shows "\<exists>hdr data. live_record (view_of b) b s = Some (hdr, data) \<and> record_key hdr data = Some k \<and>
    (if tag s = SLOT_INLINE then slot_inline_value (val_dtype s) (val_bytes s) else record_value hdr data) = Some (typed_of v)"
proof -
  from bucket_record [OF assms(2)] obtain prev fl dt pl where r:
    "holds_record b (head_off s) (arena_record k i (h k) prev fl dt pl)" "key_ok k"
    "arena_record k i (h k) prev fl dt pl = value_record k i (h k) prev v" "fl = (if scalar v then FLAG_PUT_INLINE else FLAG_PUT)" "dt = (if scalar v then DTYPE_NONE else dtype_code (value_dtype v))"
    "pl = (if scalar v then [] else value_bytes v)" .
  note l = record_len_ok(1) [OF assms(1) r(1)]
  have v: "(if tag s = SLOT_INLINE then slot_inline_value (val_dtype s) (val_bytes s)
      else record_value (record_hdr k i (h k) prev fl dt (length pl)) (arena_record k i (h k) prev fl dt pl)) = Some (typed_of v)"
  proof (cases "scalar v")
    case True
    then show ?thesis using assms(2) inline_round_trip [of v] by simp
  next
    case False
    then show ?thesis
      using assms(2) r(4-6) l record_value_arena [of k v i "h k" prev "[]"]
      by (simp add: key_ok_def length_arena_record memh_consts)
  qed
  show ?thesis
    using live_record_at [OF assms(1) r(1)] record_key_at [OF assms(1) r(1,2), of "[]"] v by auto
qed

end
