(* ===== verification/Memh_Read.thy ===== *)
theory Memh_Read
  imports Memh_Refine
begin

text \<open>
  The read side of a MEMH table that represents a bucket array: \<open>validate_memh\<close> accepts it, \<open>get\<close>
  follows the abstract search, \<open>iter\<close> yields the live pairs in bucket order and \<open>len\<close> counts them;
  none of them changes the buffer.
\<close>

lemma slots_repD:
  assumes "slots_rep h b B"
  shows "memh_geom b" "rd 44 4 b = 0" "length B = nb b" "i < nb b \<Longrightarrow> even_gen (slot_word b (so i) 2)"
    "i < nb b \<Longrightarrow> bucket_rep h b i (slot_at b i) (B ! i)"
  using assms by (auto simp: slots_rep_def)

lemma read_slot_rep:
  assumes "slots_rep h b B" "i < nb b" "0 < spin"
  shows "read_slot os spin b 192 i = Some (slot_at b i, b)"
proof -
  obtain n where "spin = Suc n" using assms(3) by (cases spin) auto
  then show ?thesis
    using slots_repD(4) [OF assms(1,2)] by (simp add: read_slot_def Let_def even_gen_def slot_at_def)
qed

lemma probe_mask:
  assumes "memh_geom b"
  shows "(s + p) AND (nb b - 1) = probe (nb b) s p" "probe (nb b) s p < nb b"
    "unat kh AND (nb b - 1) = unat kh mod nb b"
  using mask_mod [OF geomD(2) [OF assms]] probe_less [OF geomD(1) [OF assms]] by (simp_all add: probe_def)

section \<open>Lookup\<close>

definition find_value :: "(byte list, Value) bucket list \<Rightarrow> probe_result \<Rightarrow> TypedValue option" where
  "find_value B r = (case r of Found i \<Rightarrow> (case B ! i of Live k v \<Rightarrow> Some (typed_of v) | _ \<Rightarrow> None) | _ \<Rightarrow> None)"

lemma get_probes_rep:
  assumes "slots_rep h b B" "0 < spin"
  shows "get_probes os spin (view_of b) key (h key) s ps b = Some (find_value B (probe_find B key s tomb ps), b)"
proof (induction ps arbitrary: tomb)
  case Nil
  show ?case by (simp add: find_value_def split: option.splits)
next
  case (Cons p ps)
  note r = slots_repD [OF assms(1)]
  let ?i = "probe (nb b) s p"
  have i: "?i < nb b" by (rule probe_mask(2) [OF r(1)])
  let ?s = "slot_at b ?i"
  have rs: "read_slot os spin b (mv_data_off (view_of b)) ((s + p) AND mv_mask (view_of b)) = Some (?s, b)"
    using read_slot_rep [OF assms(1) i assms(2)] geomD(3) [OF r(1)] probe_mask(1) [OF r(1)] by simp
  have br: "bucket_rep h b ?i ?s (B ! ?i)" by (rule r(5) [OF i])
  show ?case
  proof (cases "B ! ?i")
    case Free
    then show ?thesis using br rs by (simp add: r(3) find_value_def Let_def)
  next
    case Dead
    then show ?thesis using br rs Cons.IH by (simp add: r(3) memh_consts Let_def)
  next
    case (Live k v)
    have t: "tag ?s = SLOT_OCCUPIED \<or> tag ?s = SLOT_INLINE" "slot_hash ?s = h k" "key_len ?s = length k"
      using br Live by auto
    have te: "tag ?s \<noteq> SLOT_EMPTY" "tag ?s \<noteq> SLOT_TOMBSTONE" using t(1) by (auto simp: memh_consts)
    from bucket_value [OF r(1), of h ?i ?s k v] br Live obtain hdr data where v:
      "live_record (view_of b) b ?s = Some (hdr, data)" "record_key hdr data = Some k"
      "(if tag ?s = SLOT_INLINE then slot_inline_value (val_dtype ?s) (val_bytes ?s) else record_value hdr data) = Some (typed_of v)"
      by auto
    show ?thesis
    proof (cases "k = key")
      case True
      then show ?thesis using rs t te v Live by (auto simp: r(3) find_value_def Let_def split: if_splits)
    next
      case False
      then show ?thesis using rs t te v Live Cons.IH by (auto simp: r(3) Let_def)
    qed
  qed
qed

text \<open>The home bucket of a key.\<close>

definition home_of :: "(byte list \<Rightarrow> u64) \<Rightarrow> nat \<Rightarrow> byte list \<Rightarrow> nat" where
  "home_of h n key = unat (h key) mod n"

definition memh_rep :: "(byte list \<Rightarrow> u64) \<Rightarrow> buf \<Rightarrow> (byte list, Value) bucket list \<Rightarrow> bool" where
  "memh_rep h b B \<longleftrightarrow> slots_rep h b B \<and> probe_inv (home_of h (length B)) B"

abbreviation table_hash :: "(u64 \<Rightarrow> byte list \<Rightarrow> u64) \<Rightarrow> buf \<Rightarrow> byte list \<Rightarrow> u64" where
  "table_hash xxh3 b \<equiv> hash_key xxh3 (word_of_nat (rd 144 8 b))"

lemma memh_repD:
  assumes "memh_rep h b B"
  shows "slots_rep h b B" "probe_inv (home_of h (length B)) B" "0 < length B" "memh_geom b" "length B = nb b"
  using assms geomD(1) by (auto simp: memh_rep_def slots_rep_def)

lemma find_value_map:
  assumes "probe_inv home B" "0 < length B"
  shows "find_value B (probe_find B key (home key) None [0..<length B]) = map_option typed_of (bucket_map B key)"
proof -
  note f = probe_find_inv [OF assms, of key]
  show ?thesis
  proof (cases "probe_find B key (home key) None [0..<length B]")
    case (Found i)
    then have "holds_key B i key" using f by simp
    then obtain v where "i < length B" "B ! i = Live key v" by (auto simp: holds_key_def)
    moreover from this have "bucket_map B key = Some v"
      using bucket_map_Some [OF probe_invD(1) [OF assms(1)]] by blast
    ultimately show ?thesis using Found by (simp add: find_value_def)
  qed (use f in \<open>simp_all add: find_value_def\<close>)
qed

lemma memh_get_rep:
  assumes "memh_rep (table_hash xxh3 b) b B" "0 < spin"
  shows "memh_get xxh3 os spin (view_of b) b key = Some (map_option typed_of (bucket_map B key), b)"
proof -
  note r = memh_repD [OF assms(1)]
  let ?h = "table_hash xxh3 b"
  have "memh_get xxh3 os spin (view_of b) b key =
      get_probes os spin (view_of b) key (?h key) (home_of ?h (length B) key) [0..<length B] b"
    by (simp add: memh_get_def Let_def probe_mask(3) [OF r(4), unfolded One_nat_def] home_of_def r(5))
  also have "\<dots> = Some (map_option typed_of (bucket_map B key), b)"
    using get_probes_rep [OF r(1) assms(2), of os key _ _ None] find_value_map [OF r(2,3), of key] by simp
  finally show ?thesis .
qed

section \<open>Iteration and counting\<close>

lemma iter_slot_rep:
  assumes "slots_rep h b B" "i < nb b"
  shows "iter_slot (view_of b) b i (slot_at b i) =
    Some (case B ! i of Live k v \<Rightarrow> Some (k, typed_of v) | _ \<Rightarrow> None)"
proof -
  note r = slots_repD [OF assms(1)]
  let ?s = "slot_at b i"
  have br: "bucket_rep h b i ?s (B ! i)" by (rule r(5) [OF assms(2)])
  show ?thesis
  proof (cases "B ! i")
    case (Live k v)
    from bucket_record [OF br [unfolded Live]] obtain prev fl dt pl where q:
      "holds_record b (head_off ?s) (arena_record k i (h k) prev fl dt pl)" "key_ok k"
      "arena_record k i (h k) prev fl dt pl = value_record k i (h k) prev v"
      "fl = (if scalar v then FLAG_PUT_INLINE else FLAG_PUT)" "dt = (if scalar v then DTYPE_NONE else dtype_code (value_dtype v))"
      "pl = (if scalar v then [] else value_bytes v)" .
    let ?r = "arena_record k i (h k) prev fl dt pl" and ?hd = "record_hdr k i (h k) prev fl dt (length pl)"
    note l = record_len_ok [OF r(1) q(1)]
    from bucket_value [OF r(1), of h i ?s k v] br Live live_record_at [OF r(1) q(1)]
    have v: "record_key ?hd ?r = Some k"
      "(if tag ?s = SLOT_INLINE then slot_inline_value (val_dtype ?s) (val_bytes ?s) else record_value ?hd ?r) = Some (typed_of v)"
      by auto
    have i32: "i < 2 ^ 32" using assms(2) rd4_bound [of 16 b] by simp
    have rl: "record_len ?hd = length ?r" "rec_slot_idx ?hd = i" "rec_flags ?hd = fl"
      using l(1) i32 q(4) by (auto simp: record_hdr_def length_arena_record codec_consts)
    have n28: "28 \<le> length ?r" using align4_bounds(1) [of "28 + (length k + length pl)"] by (simp add: length_arena_record)
    have hh: "ast b \<le> head_off ?s" "head_off ?s + length ?r \<le> ast b + bump b" using q(1) by (auto simp: holds_record_def)
    have e1: "get_range b (head_off ?s) (ast b + bump b) =
        Some (?r @ bslice (head_off ?s + length ?r) (ast b + bump b - head_off ?s - length ?r) b)"
      using geomD(6,7) [OF r(1)] hh by (intro record_at_end [OF r(1) q(1)]) auto
    have tg: "tag ?s = (if scalar v then SLOT_INLINE else SLOT_OCCUPIED)" using br Live by simp
    have fin: "(if tag ?s = SLOT_OCCUPIED \<and> rec_flags ?hd = FLAG_PUT
         then do { value \<leftarrow> record_value ?hd ?r; Some (Some (k, value)) }
         else if tag ?s = SLOT_INLINE \<and> rec_flags ?hd = FLAG_PUT_INLINE
         then do { value \<leftarrow> slot_inline_value (val_dtype ?s) (val_bytes ?s); Some (Some (k, value)) }
         else Some None) = Some (Some (k, typed_of v))"
      using v(2) tg rl(3) q(4) by (cases "scalar v") (simp_all add: memh_consts codec_consts)
    show ?thesis
      using hh l n28 geomD(5,7) [OF r(1)] record_at [OF r(1) q(1)] tg fin Live v(1)
      by (simp add: iter_slot_def Let_def checked_add_def e1 rl(1,2) ARENA_HDR_SIZE_def read_record_header_arena)
  qed (use br in \<open>simp_all add: iter_slot_def memh_consts\<close>)
qed

lemma iter_slots_rep:
  assumes "slots_rep h b B" "0 < spin" "\<forall>i\<in>set is. i < nb b"
  shows "iter_slots os spin (view_of b) is b =
    Some (map (\<lambda>(k, v). (k, typed_of v)) (live_pairs (map ((!) B) is)), b)"
  using assms(3)
proof (induction "is")
  case (Cons i "is")
  have "read_slot os spin b (mv_data_off (view_of b)) i = Some (slot_at b i, b)"
    using read_slot_rep [OF assms(1) _ assms(2)] Cons.prems geomD(3) [OF slots_repD(1) [OF assms(1)]] by simp
  then show ?case
    using iter_slot_rep [OF assms(1), of i] Cons by (simp add: live_pairs_Cons split: bucket.splits)
qed (simp add: live_pairs_def)

lemma memh_iter_rep:
  assumes "slots_rep h b B" "0 < spin"
  shows "memh_iter os spin (view_of b) b = Some (map (\<lambda>(k, v). (k, typed_of v)) (live_pairs B), b)"
proof -
  have "map ((!) B) [0..<nb b] = B" using slots_repD(3) [OF assms(1)] by (metis map_nth)
  then show ?thesis using iter_slots_rep [OF assms, of "[0..<nb b]" os] by (simp add: memh_iter_def)
qed

lemma memh_len_rep:
  assumes "slots_rep h b B" "0 < spin"
  shows "memh_len os spin (view_of b) b = Some (length (live_pairs B), b)"
proof -
  have "count_live os spin (view_of b) is b = Some (length (live_pairs (map ((!) B) is)), b)"
    if "\<forall>i\<in>set is. i < nb b" for "is" using that
  proof (induction "is")
    case (Cons i "is")
    note r = slots_repD [OF assms(1)]
    have "read_slot os spin b (mv_data_off (view_of b)) i = Some (slot_at b i, b)"
      using read_slot_rep [OF assms(1) _ assms(2)] Cons.prems geomD(3) [OF r(1)] by simp
    moreover have "bucket_rep h b i (slot_at b i) (B ! i)" using r(5) Cons.prems by simp
    ultimately show ?case
      using Cons by (cases "B ! i") (auto simp: live_pairs_Cons read_slot_tag_acquire_def memh_consts)
  qed (simp add: live_pairs_def)
  moreover have "map ((!) B) [0..<nb b] = B" using slots_repD(3) [OF assms(1)] by (metis map_nth)
  ultimately show ?thesis by (simp add: memh_len_def)
qed

section \<open>Validation\<close>

lemma validate_record:
  assumes "memh_geom b" "holds_record b (head_off s) (arena_record k i hh prev fl dt pl)" "key_ok k" "i < nb b" "tag s \<le> SLOT_INLINE"
  shows "validate_slot b (ast b) i s = Inr ()"
proof -
  let ?r = "arena_record k i hh prev fl dt pl" and ?hd = "record_hdr k i hh prev fl dt (length pl)"
  note l = record_len_ok [OF assms(1,2)]
  have i32: "i < 2 ^ 32" using assms(4) rd4_bound [of 16 b] by simp
  have rl: "record_len ?hd = length ?r" "rec_slot_idx ?hd = i"
    using l(1) i32 by (auto simp: record_hdr_def length_arena_record)
  have n28: "28 \<le> length ?r" using align4_bounds(1) [of "28 + (length k + length pl)"] by (simp add: length_arena_record)
  have h: "ast b \<le> head_off s" "head_off s + length ?r \<le> ast b + bump b" using assms(2) by (auto simp: holds_record_def)
  have "get_range b (head_off s) (ast b + bump b) =
      Some (?r @ bslice (head_off s + length ?r) (ast b + bump b - head_off s - length ?r) b)"
    using geomD(6,7) [OF assms(1)] h by (intro record_at_end [OF assms(1,2)]) auto
  then have e1: "bslice (head_off s) (ast b + bump b - head_off s) b =
      ?r @ bslice (head_off s + length ?r) (ast b + bump b - head_off s - length ?r) b"
    by (auto simp: get_range_eq_Some)
  have e2: "bslice (head_off s) (length ?r) b = ?r" using assms(2) by (simp add: holds_record_def)
  have k: "record_key ?hd ?r = Some k" using record_key_at [OF assms(1-3), of "[]"] by simp
  show ?thesis
    using l n28 h assms(5)
    by (simp add: validate_slot_def Let_def checked_add_def e1 e2 k rl ARENA_HDR_SIZE_def read_record_header_arena)
qed

lemma validate_slot_rep:
  assumes "slots_rep h b B" "i < nb b"
  shows "validate_slot b (ast b) i (slot_at b i) = Inr ()"
proof -
  note r = slots_repD [OF assms(1)]
  have br: "bucket_rep h b i (slot_at b i) (B ! i)" by (rule r(5) [OF assms(2)])
  show ?thesis
  proof (cases "B ! i")
    case Free
    then show ?thesis using br by (simp add: validate_slot_def memh_consts)
  next
    case Dead
    show ?thesis
    proof (cases "head_off (slot_at b i) = U32_MAX")
      case True
      then show ?thesis using br Dead by (simp add: validate_slot_def memh_consts)
    next
      case False
      then obtain k prev where "key_ok k"
        "holds_record b (head_off (slot_at b i)) (arena_record k i (h k) prev FLAG_TOMBSTONE DTYPE_NONE [])"
        using br Dead by auto
      then show ?thesis using br Dead validate_record [OF r(1) _ _ assms(2)] by (simp add: memh_consts)
    qed
  next
    case (Live k v)
    from bucket_record [OF br [unfolded Live]] obtain prev fl dt pl where
      "holds_record b (head_off (slot_at b i)) (arena_record k i (h k) prev fl dt pl)" "key_ok k" by metis
    then show ?thesis using validate_record [OF r(1) _ _ assms(2)] br Live by (simp add: memh_consts)
  qed
qed

lemma validate_slots_rep:
  assumes "slots_rep h b B" "0 < spin" "\<forall>i\<in>set is. i < nb b"
  shows "validate_slots os spin 192 (ast b) is b = Some (Inr (), b)"
  using assms(3)
  by (induction "is") (simp_all add: read_slot_rep [OF assms(1) _ assms(2)] validate_slot_rep [OF assms(1)])

lemma validate_memh_rep:
  assumes "slots_rep h b B" "0 < spin" "addr mod 8 = 0"
  shows "validate_memh os spin addr b = Some (Inr (), b)"
proof -
  note g = geomD [OF slots_repD(1) [OF assms(1)]] and gd = slots_repD(1) [OF assms(1), unfolded memh_geom_def]
  have f: "mh_data_offset (memh_header b) = 192" "num_buckets (memh_header b) = nb b" "arena_start (memh_meta b) = ast b"
    "arena_cap (memh_meta b) = acap b"
    using g(3) by (simp_all add: memh_header_def memh_meta_def meta_offset_def memh_consts)
  have c: "do { slots \<leftarrow> checked_mul (nb b) SLOT_STRIDE; checked_add 192 slots } = Some (ast b)"
    using g(4,5) by (simp add: checked_mul_def checked_add_def SLOT_STRIDE_def)
  have "192 \<le> length b" using g(4,6) by linarith
  then show ?thesis
    using gd g(1,2) assms(3) validate_slots_rep [OF assms(1,2), of "[0..<nb b]" os]
    unfolding validate_memh_def Let_def f c
    by (simp add: checked_add_def memh_header_def memh_meta_def meta_offset_def MEMH_HEADER_SIZE_def MEMH_META_SIZE_def MEMH_ALIGN_def)
qed

end
