(* ===== verification/Memh_Write.thy ===== *)
theory Memh_Write
  imports Memh_Read
begin

text \<open>
  The write side of MEMH: appending a record to the arena, committing a slot, and with them
  \<open>insert\<close> and \<open>remove\<close> against the abstract search and the finite map.
\<close>

section \<open>The fields of a slot after a transaction\<close>

lemma word_le_8_of_le: "length bs = 8 \<Longrightarrow> word_le 8 (word_of_le bs :: u64) = bs"
proof -
  assume l: "length bs = 8"
  have "le_nat bs < 256 ^ length bs" by (rule le_nat_bound)
  then have "unat (word_of_nat (le_nat bs) :: u64) = le_nat bs" by (simp add: unat_of_nat l)
  then show ?thesis by (simp add: word_of_le_def word_le_def le_bytes_le_nat l)
qed

lemma slot_fields_commit:
  assumes "tg < 256" "vdt < 256" "klen < 2 ^ 32" "head < 2 ^ 32" "length vb = 8"
  shows "slot_fields (word_of_le ([word_of_nat tg, word_of_nat vdt, 0, 0] @ le_bytes 4 klen)) hh
      (pack_control (word_of_nat head) g) (word_of_le vb) =
    \<lparr>tag = tg, val_dtype = vdt, key_len = klen, slot_hash = hh, head_off = head, val_bytes = vb\<rparr>"
proof -
  let ?w = "[word_of_nat tg, word_of_nat vdt, 0, 0] @ le_bytes 4 klen :: byte list"
  have "word_le 8 (word_of_le ?w :: u64) = ?w" by (rule word_le_8_of_le) simp
  moreover have "le_nat (bslice 4 4 ?w) = klen" using assms(3) by (simp add: bslice_def le_simps)
  ultimately show ?thesis
    using assms by (simp add: slot_fields_def Let_def word_le_8_of_le unat_of_nat)
qed

lemma slot_fields_head:
  assumes "tg < 256" "head < 2 ^ 32"
  shows "slot_fields (word_of_le ((word_le 8 w0)[0 := word_of_nat tg])) w1 (pack_control (word_of_nat head) g) w3 =
    (slot_fields w0 w1 c w3)\<lparr>tag := tg, head_off := head\<rparr>"
proof -
  have "word_le 8 (word_of_le ((word_le 8 w0)[0 := word_of_nat tg]) :: u64) = (word_le 8 w0)[0 := word_of_nat tg]"
    by (rule word_le_8_of_le) simp
  moreover have "bslice 4 4 ((word_le 8 w0)[0 := word_of_nat tg]) = bslice 4 4 (word_le 8 w0)"
    by (simp add: bslice_def drop_update_cancel)
  ultimately show ?thesis using assms by (simp add: slot_fields_def Let_def unat_of_nat)
qed

lemma slot_fields_inline:
  assumes "vdt < 256" "length vb = 8"
  shows "slot_fields (word_of_le ((word_le 8 w0)[0 := word_of_nat SLOT_INLINE, 1 := word_of_nat vdt])) w1
      (pack_control (fst (control_parts c)) g) (word_of_le vb) =
    (slot_fields w0 w1 c w3)\<lparr>tag := SLOT_INLINE, val_dtype := vdt, val_bytes := vb\<rparr>"
proof -
  let ?w = "(word_le 8 w0)[0 := word_of_nat SLOT_INLINE, 1 := word_of_nat vdt] :: byte list"
  have "word_le 8 (word_of_le ?w :: u64) = ?w" by (rule word_le_8_of_le) simp
  moreover have "bslice 4 4 ?w = bslice 4 4 (word_le 8 w0)"
    by (simp add: bslice_def drop_update_cancel)
  ultimately show ?thesis using assms
    by (simp add: slot_fields_def Let_def unat_of_nat word_le_8_of_le SLOT_INLINE_def)
qed

section \<open>A slot transaction on a table\<close>

lemma slot_tx_rep:
  assumes "slots_rep h b B" "i < nb b" "body_ok ws"
    and "bucket_rep h b i (slot_fields (tx_word b (so i) ws head 0) (tx_word b (so i) ws head 1)
      (tx_word b (so i) ws head 2) (tx_word b (so i) ws head 3)) x"
  defines "b' \<equiv> wr_all (slot_tx b (so i) ws head) b"
  shows "slots_rep h b' (B[i := x])" "same_base b b'" "bump b' = bump b"
    "bslice 36 8 b' = bslice 36 8 b" "bslice 48 24 b' = bslice 48 24 b" "bslice 76 4 b' = bslice 76 4 b"
proof -
  note r = slots_repD [OF assms(1)]
  note g = geomD [OF r(1)] and si = slot_in_geom [OF r(1) assms(2)]
  have f: "\<forall>st \<in> set (slot_tx b (so i) ws head). tx_field (so i) st" using tx_fields [OF assms(3)] by blast
  note o = tx_slice_other [OF si(2) f, folded b'_def]
  have l: "length b' = length b" using o(2) [of 0 0] by simp
  have z: "bslice 0 32 b' = bslice 0 32 b" by (rule o(1)) simp
  have m: "bslice 128 64 b' = bslice 128 64 b" by (rule o(1)) simp
  show sb: "same_base b b'" using z m l by (simp add: same_base_def)
  show bp: "bump b' = bump b" by (rule rd_cong, rule o(1)) simp
  show "bslice 36 8 b' = bslice 36 8 b" "bslice 48 24 b' = bslice 48 24 b" "bslice 76 4 b' = bslice 76 4 b"
    by (rule o(1), simp)+
  have gm: "memh_geom b'" by (rule same_base_geom [OF sb r(1)]) (simp add: bp g(7))
  have n: "nb b' = nb b" by (rule same_base_rd(1) [OF sb]) simp
  have ar: "bslice (ast b) (bump b) b' = bslice (ast b) (bump b) b" using si(3) by (intro o(1)) simp
  have wi: "slot_word b' (so i) w = tx_word b (so i) ws head w" if "w < 4" for w
    unfolding b'_def by (rule slot_tx_word [OF si(2) assms(3) that])
  have wj: "slot_word b' (so j) w = slot_word b (so j) w" if "j < nb b" "j \<noteq> i" "w < 4" for j w
  proof (rule slot_word_cong, rule o(1))
    show "so j + w * 8 + 8 \<le> 44 \<or> 48 \<le> so j + w * 8 \<and> so j + w * 8 + 8 \<le> 72 \<or> 76 \<le> so j + w * 8 \<and> so j + w * 8 + 8 \<le> 80 \<or>
      112 \<le> so j + w * 8 \<and> so j + w * 8 + 8 \<le> so i \<or> so i + 32 \<le> so j + w * 8"
      using block_disjoint [OF that(2), of 32] that(3) by linarith
  qed
  have "even_gen (slot_word b' (so j) 2) \<and> bucket_rep h b' j (slot_at b' j) (B[i := x] ! j)" if "j < nb b" for j
  proof (cases "j = i")
    case True
    have "bucket_rep h b' i (slot_at b' i) x"
      using bucket_rep_mono [OF sb assms(4) _ ar] bp wi by (simp add: slot_at_def)
    then show ?thesis using True wi assms(2) r(3) by simp
  next
    case False
    have "slot_at b' j = slot_at b j" using wj [OF that False] by (simp add: slot_at_def)
    then show ?thesis
      using bucket_rep_mono [OF sb r(5) [OF that] _ ar] bp wj [OF that False, of 2] r(4) [OF that] False by simp
  qed
  then show "slots_rep h b' (B[i := x])"
    using gm n r(3) slot_tx_state [OF si(2) assms(3), of head] by (simp add: slots_rep_def b'_def)
qed

section \<open>Appending to the arena\<close>

lemma append_record_rep:
  assumes "slots_rep h b B" "bump b + length rcd \<le> acap b"
  defines "b' \<equiv> wr 32 4 (bump b + length rcd) (bsplice (ast b + bump b) rcd b)"
  shows "slots_rep h b' B" "holds_record b' (ast b + bump b) rcd" "same_base b b'"
    "bump b' = bump b + length rcd" "bslice 36 92 b' = bslice 36 92 b"
proof -
  note r = slots_repD [OF assms(1)]
  note g = geomD [OF r(1)]
  let ?p = "ast b + bump b"
  let ?c = "bsplice ?p rcd b"
  have in1: "?p + length rcd \<le> length b" using g(6) assms(2) by linarith
  have lc: "length ?c = length b" using in1 by simp
  have l192: "192 \<le> length b" using g(4,6) by linarith
  have l: "length b' = length b" using l192 by (simp add: b'_def lc)
  have sl: "bslice off n b' = bslice off n b" if "off + n \<le> 32 \<or> 36 \<le> off" "off + n \<le> ?p" for off n
  proof -
    have "bslice off n b' = bslice off n ?c" unfolding b'_def using that(1) lc l192 by (intro slice_wr_other) auto
    also have "\<dots> = bslice off n b" using in1 that(2) by (intro slice_splice_other) auto
    finally show ?thesis .
  qed
  have p192: "192 \<le> ?p" using g(4) by linarith
  have z: "bslice 0 32 b' = bslice 0 32 b" "bslice 128 64 b' = bslice 128 64 b" using p192 by (intro sl; simp)+
  show sb: "same_base b b'" using z l by (simp add: same_base_def)
  show "bslice 36 92 b' = bslice 36 92 b" using p192 by (intro sl) auto
  have "(bump b + length rcd) mod 256 ^ 4 = bump b + length rcd" using g(5) assms(2) by simp
  then show bp: "bump b' = bump b + length rcd" using l192 lc unfolding b'_def by (simp add: rd_wr_same)
  have gm: "memh_geom b'" by (rule same_base_geom [OF sb r(1)]) (simp add: bp assms(2))
  have n: "nb b' = nb b" by (rule same_base_rd(1) [OF sb]) simp
  have ab: "ast b' = ast b" by (rule same_base_rd(2) [OF sb]) simp_all
  have "bslice ?p (length rcd) b' = bslice ?p (length rcd) ?c"
    unfolding b'_def using p192 lc l192 by (intro slice_wr_other) auto
  then have "bslice ?p (length rcd) b' = rcd" using in1 by (simp add: slice_splice_same)
  then show "holds_record b' ?p rcd" by (simp add: holds_record_def ab bp)
  have ar: "bslice (ast b) (bump b) b' = bslice (ast b) (bump b) b" using g(4) by (intro sl) auto
  have w: "slot_word b' (so j) w = slot_word b (so j) w" if "j < nb b" "w < 4" for j w
    using slot_in_geom(3) [OF r(1) that(1)] that(2) by (intro slot_word_cong sl) auto
  have s: "rd 44 4 b' = 0" using p192 r(2) sl [of 44 4] by (simp add: rd_def)
  have "bucket_rep h b' j (slot_at b' j) (B ! j)" if "j < nb b" for j
    using bucket_rep_mono [OF sb r(5) [OF that] _ ar] bp w [OF that] by (simp add: slot_at_def)
  then show "slots_rep h b' B" using gm n r(3,4) s w by (simp add: slots_rep_def)
qed

section \<open>Writing an entry\<close>

text \<open>The geometry and the ownership fields stay; the arena and the slots may change.\<close>

definition owner_frame :: "buf \<Rightarrow> buf \<Rightarrow> bool" where
  "owner_frame b b' \<longleftrightarrow> same_base b b' \<and> bslice 36 8 b' = bslice 36 8 b \<and> bslice 48 24 b' = bslice 48 24 b \<and>
     bslice 76 4 b' = bslice 76 4 b"

lemma owner_frame_refl [simp]: "owner_frame b b"
  by (simp add: owner_frame_def same_base_def)

lemma owner_frame_trans: "owner_frame a b \<Longrightarrow> owner_frame b c \<Longrightarrow> owner_frame a c"
  by (simp add: owner_frame_def same_base_def)

lemma same_base_writer:
  assumes "same_base b b'"
  shows "(memh_writer_unchecked b)\<lparr>hw_buf := b'\<rparr> = memh_writer_unchecked b'"
  using same_base_rd [OF assms]
  by (simp add: memh_writer_unchecked_def Let_def memh_header_def memh_meta_def meta_offset_def memh_consts)

definition entry_size :: "byte list \<Rightarrow> Value \<Rightarrow> usize" where
  "entry_size key v = align4 (28 + (length key + (if scalar v then 0 else encoded_size v)))"

lemma length_value_record [simp]: "length (value_record key i hh prev v) = entry_size key v"
  by (simp add: value_record_def entry_size_def length_arena_record)

lemma entry_record_eq:
  "entry_record key v i hh prev (scalar v) = Some (entry_size key v, value_record key i hh prev v)"
  by (simp add: entry_record_def encode_put_record_eq encode_key_record_eq value_record_def entry_size_def)

lemma append_record_eq:
  assumes "memh_geom b"
  shows "append_record (memh_writer_unchecked b) (bump b) (length rcd) rcd =
    Some (if acap b < bump b + length rcd then None
          else Some (ast b + bump b, wr 32 4 (bump b + length rcd) (bsplice (ast b + bump b) rcd b)))"
  using geomD(6) [OF assms] by (simp add: append_record_def copy_at_def Let_def)

lemma append_frame:
  assumes "slots_rep h b B" "bump b + length rcd \<le> acap b"
  shows "owner_frame b (wr 32 4 (bump b + length rcd) (bsplice (ast b + bump b) rcd b))"
  using append_record_rep(3,5) [OF assms] by (auto simp: owner_frame_def intro: slice_sub)

lemma commit_slot_rep:
  assumes "slots_rep h b B" "i < nb b" "tg < 256" "vdt < 256" "klen < 2 ^ 32" "head < 2 ^ 32" "length vb = 8"
    and "bucket_rep h b i \<lparr>tag = tg, val_dtype = vdt, key_len = klen, slot_hash = hh, head_off = head, val_bytes = vb\<rparr> x"
  shows "slots_rep h (commit_slot b 192 i tg vdt klen hh head vb) (B[i := x])"
    "owner_frame b (commit_slot b 192 i tg vdt klen hh head vb)"
proof -
  let ?ws = "[(0, word_of_le ([word_of_nat tg, word_of_nat vdt, 0, 0] @ le_bytes 4 klen)), (1, hh), (3, word_of_le vb)] :: (nat \<times> u64) list"
  have "body_ok ?ws" by (simp add: body_ok_def)
  moreover have "bucket_rep h b i (slot_fields (tx_word b (so i) ?ws (word_of_nat head) 0) (tx_word b (so i) ?ws (word_of_nat head) 1)
      (tx_word b (so i) ?ws (word_of_nat head) 2) (tx_word b (so i) ?ws (word_of_nat head) 3)) x"
    using slot_fields_commit [OF assms(3-7)] assms(8) by (simp add: tx_word_def)
  ultimately show "slots_rep h (commit_slot b 192 i tg vdt klen hh head vb) (B[i := x])"
    "owner_frame b (commit_slot b 192 i tg vdt klen hh head vb)"
    using slot_tx_rep [OF assms(1,2), of ?ws "word_of_nat head" x]
    by (simp_all add: commit_slot_def commit_slot_tx owner_frame_def)
qed

lemma commit_slot_head_rep:
  assumes "slots_rep h b B" "i < nb b" "tg < 256" "head < 2 ^ 32"
    and "bucket_rep h b i ((slot_at b i)\<lparr>tag := tg, head_off := head\<rparr>) x"
  shows "slots_rep h (commit_slot_head b 192 i tg head) (B[i := x])" "owner_frame b (commit_slot_head b 192 i tg head)"
proof -
  let ?ws = "[(0, word_of_le ((word_le 8 (slot_word b (so i) 0))[0 := word_of_nat tg]))] :: (nat \<times> u64) list"
  have "body_ok ?ws" by (simp add: body_ok_def)
  moreover have "bucket_rep h b i (slot_fields (tx_word b (so i) ?ws (word_of_nat head) 0) (tx_word b (so i) ?ws (word_of_nat head) 1)
      (tx_word b (so i) ?ws (word_of_nat head) 2) (tx_word b (so i) ?ws (word_of_nat head) 3)) x"
    using slot_fields_head [OF assms(3,4), where c = "slot_word b (so i) 2"] assms(5) by (simp add: tx_word_def slot_at_def)
  ultimately show "slots_rep h (commit_slot_head b 192 i tg head) (B[i := x])" "owner_frame b (commit_slot_head b 192 i tg head)"
    using slot_tx_rep [OF assms(1,2), of ?ws "word_of_nat head" x]
    by (simp_all add: commit_slot_head_def commit_slot_head_tx owner_frame_def)
qed

lemma update_slot_inline_rep:
  assumes "slots_rep h b B" "i < nb b" "vdt < 256" "length vb = 8"
    and "bucket_rep h b i ((slot_at b i)\<lparr>tag := SLOT_INLINE, val_dtype := vdt, val_bytes := vb\<rparr>) x"
  shows "slots_rep h (update_slot_inline_value b 192 i vdt vb) (B[i := x])"
    "owner_frame b (update_slot_inline_value b 192 i vdt vb)"
proof -
  let ?ws = "[(0, word_of_le ((word_le 8 (slot_word b (so i) 0))[0 := word_of_nat SLOT_INLINE, 1 := word_of_nat vdt])),
     (3, word_of_le vb)] :: (nat \<times> u64) list"
  let ?hd = "fst (control_parts (slot_word b (so i) 2))"
  have "body_ok ?ws" by (simp add: body_ok_def)
  moreover have "bucket_rep h b i (slot_fields (tx_word b (so i) ?ws ?hd 0) (tx_word b (so i) ?ws ?hd 1)
      (tx_word b (so i) ?ws ?hd 2) (tx_word b (so i) ?ws ?hd 3)) x"
    using slot_fields_inline [OF assms(3,4), where ?w3.0 = "slot_word b (so i) 3"] assms(5) by (simp add: tx_word_def slot_at_def)
  ultimately show "slots_rep h (update_slot_inline_value b 192 i vdt vb) (B[i := x])"
    "owner_frame b (update_slot_inline_value b 192 i vdt vb)"
    using slot_tx_rep [OF assms(1,2), of ?ws ?hd x]
    by (simp_all add: update_slot_inline_value_def update_slot_inline_tx owner_frame_def)
qed

text \<open>The bucket written for a fresh record, scalar or not.\<close>

definition put_done :: "(byte list \<Rightarrow> u64) \<Rightarrow> buf \<Rightarrow> (byte list, Value) bucket list \<Rightarrow> nat \<Rightarrow> byte list \<Rightarrow> Value \<Rightarrow> MemhWriter \<Rightarrow> bool" where
  "put_done h b B i key v w \<longleftrightarrow>
    (\<exists>b'. w = memh_writer_unchecked b' \<and> slots_rep h b' (B[i := Live key v]) \<and> owner_frame b b')"

lemma scalar_commit_rep:
  assumes "slots_rep h b B" "i < nb b" "key_ok key" "storable v" "holds_record b pos (value_record key i (h key) prev v)"
    and "scalar v" "encode_inline_bytes v = Some (dt, vb)"
  shows "slots_rep h (commit_slot b 192 i SLOT_INLINE dt (length key) (h key) pos vb) (B[i := Live key v])"
    "owner_frame b (commit_slot b 192 i SLOT_INLINE dt (length key) (h key) pos vb)"
proof -
  have a: "SLOT_INLINE < 256" "dt < 256" "length vb = 8" "length key < 2 ^ 32" "pos < 2 ^ 32"
    using inline_bytes_length [OF assms(7)] assms(3) record_len_ok(2) [OF slots_repD(1) [OF assms(1)] assms(5)]
    by (auto simp: memh_consts key_ok_def)
  have "bucket_rep h b i \<lparr>tag = SLOT_INLINE, val_dtype = dt, key_len = length key, slot_hash = h key, head_off = pos, val_bytes = vb\<rparr> (Live key v)"
    using assms(3-7) by auto
  from commit_slot_rep [OF assms(1,2) a(1,2,4,5,3) this]
  show "slots_rep h (commit_slot b 192 i SLOT_INLINE dt (length key) (h key) pos vb) (B[i := Live key v])"
    "owner_frame b (commit_slot b 192 i SLOT_INLINE dt (length key) (h key) pos vb)" by blast+
qed

lemma write_new_entry_rep:
  assumes "slots_rep h b B" "i < nb b" "key_ok key" "storable v"
  shows "\<exists>w. write_new_entry (memh_writer_unchecked b) i key v (h key) (bump b) (scalar v) =
      Some (if acap b < bump b + entry_size key v then (Inl ArenaFull, memh_writer_unchecked b) else (Inr (), w)) \<and>
    (bump b + entry_size key v \<le> acap b \<longrightarrow> put_done h b B i key v w)"
proof (cases "acap b < bump b + entry_size key v")
  case True
  then show ?thesis
    using append_record_eq [OF slots_repD(1) [OF assms(1)], of "value_record key i (h key) NO_PREV v"]
    by (simp add: write_new_entry_def entry_record_eq)
next
  case False
  let ?r = "value_record key i (h key) NO_PREV v"
  let ?p = "ast b + bump b"
  let ?b = "wr 32 4 (bump b + length ?r) (bsplice ?p ?r b)"
  have fit: "bump b + length ?r \<le> acap b" using False by simp
  note a = append_record_rep [OF assms(1) fit] and fr = append_frame [OF assms(1) fit]
  have n: "nb ?b = nb b" by (rule same_base_rd(1) [OF a(3)]) simp
  have d: "rd 20 4 b = 192" by (rule geomD(3) [OF slots_repD(1) [OF assms(1)]])
  note ap = append_record_eq [OF slots_repD(1) [OF assms(1)], of ?r]
  note l = record_len_ok(2) [OF slots_repD(1) [OF a(1)] a(2)]
  show ?thesis
  proof (cases "scalar v")
    case True
    then obtain dt vb where e: "encode_inline_bytes v = Some (dt, vb)" by (simp add: encode_inline_bytes_eq)
    note c = scalar_commit_rep [OF a(1) _ assms(3,4) a(2) True e, unfolded n, OF assms(2)]
    let ?c = "commit_slot ?b 192 i SLOT_INLINE dt (length key) (h key) ?p vb"
    have "(memh_writer_unchecked b)\<lparr>hw_buf := ?c\<rparr> = memh_writer_unchecked ?c"
      using owner_frame_trans [OF fr c(2)] by (intro same_base_writer) (simp add: owner_frame_def)
    moreover have "put_done h b B i key v (memh_writer_unchecked ?c)"
      using c(1) owner_frame_trans [OF fr c(2)] unfolding put_done_def by blast
    ultimately show ?thesis using False True e ap d
      by (intro exI [of _ "memh_writer_unchecked ?c"]) (simp add: write_new_entry_def entry_record_eq [of key v, simplified True])
  next
    case ns: False
    have br: "bucket_rep h ?b i \<lparr>tag = SLOT_OCCUPIED, val_dtype = 0, key_len = length key, slot_hash = h key, head_off = ?p, val_bytes = replicate 8 0\<rparr> (Live key v)"
      using assms(3,4) a(2) ns by auto
    have a3: "SLOT_OCCUPIED < 256" "(0::nat) < 256" "length key < 2 ^ 32" "?p < 2 ^ 32" "length (replicate 8 (0::byte)) = 8"
      using assms(3) l by (auto simp: memh_consts key_ok_def)
    note c = commit_slot_rep [OF a(1) _ a3 br, unfolded n, OF assms(2)]
    let ?c = "commit_slot ?b 192 i SLOT_OCCUPIED 0 (length key) (h key) ?p (replicate 8 0)"
    have "(memh_writer_unchecked b)\<lparr>hw_buf := ?c\<rparr> = memh_writer_unchecked ?c"
      using owner_frame_trans [OF fr c(2)] by (intro same_base_writer) (simp add: owner_frame_def)
    moreover have "put_done h b B i key v (memh_writer_unchecked ?c)"
      using c(1) owner_frame_trans [OF fr c(2)] unfolding put_done_def by blast
    ultimately show ?thesis using False ns ap d
      by (intro exI [of _ "memh_writer_unchecked ?c"]) (simp add: write_new_entry_def entry_record_eq [of key v, simplified ns])
  qed
qed

lemma put_doneI:
  assumes "slots_rep h b' (B[i := Live key v])" "owner_frame b b'"
  shows "(memh_writer_unchecked b)\<lparr>hw_buf := b'\<rparr> = memh_writer_unchecked b' \<and> put_done h b B i key v (memh_writer_unchecked b')"
  using assms same_base_writer [of b b'] by (auto simp: put_done_def owner_frame_def)

text \<open>An update needs arena space unless an inline scalar replaces an inline scalar.\<close>

definition update_size :: "nat \<Rightarrow> byte list \<Rightarrow> Value \<Rightarrow> usize" where
  "update_size old_tag key v = (if old_tag = SLOT_INLINE \<and> scalar v then 0 else entry_size key v)"

lemma write_update_inline_rep:
  assumes "slots_rep h b B" "i < nb b" "B ! i = Live key u" "storable v" "tag (slot_at b i) = SLOT_INLINE" "scalar v"
  shows "\<exists>w. write_update (memh_writer_unchecked b) i SLOT_INLINE key v (h key) (bump b) True head = Some (Inr (), w) \<and>
    put_done h b B i key v w"
proof -
  note r = slots_repD [OF assms(1)]
  obtain dt vb where e: "encode_inline_bytes v = Some (dt, vb)" using assms(6) by (simp add: encode_inline_bytes_eq)
  have br: "bucket_rep h b i (slot_at b i) (Live key u)" using r(5) [OF assms(2)] assms(3) by simp
  have "tag (slot_at b i) = (if scalar u then SLOT_INLINE else SLOT_OCCUPIED)" using br unfolding bucket_rep.simps by blast
  then have su: "scalar u" using assms(5) by (cases "scalar u") (simp_all add: SLOT_INLINE_def SLOT_OCCUPIED_def)
  have "bucket_rep h b i ((slot_at b i)\<lparr>tag := SLOT_INLINE, val_dtype := dt, val_bytes := vb\<rparr>) (Live key v)"
    using br assms(4,6) e su by (auto simp: value_record_def)
  note c = update_slot_inline_rep [OF assms(1,2) _ _ this]
  have "dt < 256" "length vb = 8" using inline_bytes_length [OF e] by auto
  note p = put_doneI [OF c(1) c(2), OF this this]
  have "rd 20 4 b = 192" by (rule geomD(3) [OF r(1)])
  then show ?thesis using p e by (simp add: write_update_def)
qed

lemma write_update_append_rep:
  assumes "slots_rep h b B" "i < nb b" "B ! i = Live key u" "storable v"
    and "\<not> (tg = SLOT_INLINE \<and> scalar v)" "bump b + entry_size key v \<le> acap b"
  shows "\<exists>w. write_update (memh_writer_unchecked b) i tg key v (h key) (bump b) (scalar v) head = Some (Inr (), w) \<and>
    put_done h b B i key v w"
proof -
  note r = slots_repD [OF assms(1)]
  let ?r = "value_record key i (h key) head v"
  let ?p = "ast b + bump b"
  let ?b = "wr 32 4 (bump b + length ?r) (bsplice ?p ?r b)"
  have fit: "bump b + length ?r \<le> acap b" using assms(6) by simp
  note a = append_record_rep [OF assms(1) fit] and fr = append_frame [OF assms(1) fit]
  have n: "nb ?b = nb b" by (rule same_base_rd(1) [OF a(3)]) simp
  have d: "rd 20 4 b = 192" by (rule geomD(3) [OF r(1)])
  note ap = append_record_eq [OF r(1), of ?r]
  note l = record_len_ok(2) [OF slots_repD(1) [OF a(1)] a(2)]
  have br: "bucket_rep h ?b i (slot_at ?b i) (Live key u)"
    using slots_repD(5) [OF a(1), unfolded n, OF assms(2)] assms(3) by simp
  have ko: "key_ok key" using br by simp
  show ?thesis
  proof (cases "scalar v")
    case True
    then obtain dt vb where e: "encode_inline_bytes v = Some (dt, vb)" by (simp add: encode_inline_bytes_eq)
    note c = scalar_commit_rep [OF a(1) _ ko assms(4) a(2) True e, unfolded n, OF assms(2)]
    note p = put_doneI [OF c(1) owner_frame_trans [OF fr c(2)]]
    show ?thesis using p assms(5) True e ap d fit
      by (simp add: write_update_def entry_record_eq [of key v, simplified True])
  next
    case False
    have "bucket_rep h ?b i ((slot_at ?b i)\<lparr>tag := SLOT_OCCUPIED, head_off := ?p\<rparr>) (Live key v)"
      using br assms(4) a(2) False by auto
    note c = commit_slot_head_rep [OF a(1) _ _ _ this, unfolded n, OF assms(2)]
    have "SLOT_OCCUPIED < 256" "?p < 2 ^ 32" using l by (auto simp: memh_consts)
    note c2 = c [OF this]
    note p = put_doneI [OF c2(1) owner_frame_trans [OF fr c2(2)]]
    show ?thesis using p assms(5) False ap d fit
      by (simp add: write_update_def entry_record_eq [of key v, simplified False])
  qed
qed

lemma write_update_rep:
  assumes "slots_rep h b B" "i < nb b" "B ! i = Live key u" "storable v"
  shows "\<exists>w. write_update (memh_writer_unchecked b) i (tag (slot_at b i)) key v (h key) (bump b) (scalar v) head =
      Some (if update_size (tag (slot_at b i)) key v \<noteq> 0 \<and> acap b < bump b + entry_size key v
            then (Inl ArenaFull, memh_writer_unchecked b) else (Inr (), w)) \<and>
    (update_size (tag (slot_at b i)) key v = 0 \<or> bump b + entry_size key v \<le> acap b \<longrightarrow> put_done h b B i key v w)"
proof -
  let ?t = "tag (slot_at b i)"
  have es: "entry_size key v \<noteq> 0"
    using align4_bounds(1) [of "28 + (length key + (if scalar v then 0 else encoded_size v))"] by (simp add: entry_size_def)
  consider "?t = SLOT_INLINE \<and> scalar v" | "\<not> (?t = SLOT_INLINE \<and> scalar v)" "bump b + entry_size key v \<le> acap b" |
    "\<not> (?t = SLOT_INLINE \<and> scalar v)" "acap b < bump b + entry_size key v" by linarith
  then show ?thesis
  proof cases
    case 1
    then show ?thesis using write_update_inline_rep [OF assms, of head] by (auto simp: update_size_def)
  next
    case 2
    then show ?thesis using write_update_append_rep [OF assms 2, of head] es by (auto simp: update_size_def)
  next
    case 3
    then show ?thesis
      using es append_record_eq [OF slots_repD(1) [OF assms(1)], of "value_record key i (h key) head v"]
      by (auto simp: write_update_def entry_record_eq update_size_def)
  qed
qed

lemma remove_entry_rep:
  assumes "slots_rep h b B" "i < nb b" "B ! i = Live key u"
  shows "\<exists>b'. remove_entry (memh_writer_unchecked b) i key (h key) head = Some (memh_writer_unchecked b') \<and>
    slots_rep h b' (B[i := Dead]) \<and> owner_frame b b'"
proof -
  note r = slots_repD [OF assms(1)]
  have d: "rd 20 4 b = 192" by (rule geomD(3) [OF r(1)])
  let ?r = "arena_record key i (h key) head FLAG_TOMBSTONE DTYPE_NONE []"
  have lr: "length ?r = align4 (28 + length key)" by (simp add: length_arena_record)
  note ap = append_record_eq [OF r(1), of ?r, unfolded lr]
  have ko: "key_ok key" using r(5) [OF assms(2)] assms(3) by simp
  have t: "SLOT_TOMBSTONE < 256" by (simp add: memh_consts)
  show ?thesis
  proof (cases "acap b < bump b + align4 (28 + length key)")
    case True
    have "bucket_rep h b i ((slot_at b i)\<lparr>tag := SLOT_TOMBSTONE, head_off := U32_MAX\<rparr>) Dead" by simp
    from commit_slot_head_rep [OF assms(1,2) t _ this]
    have c: "slots_rep h (commit_slot_head b 192 i SLOT_TOMBSTONE U32_MAX) (B[i := Dead])"
      "owner_frame b (commit_slot_head b 192 i SLOT_TOMBSTONE U32_MAX)" by (simp_all add: U32_MAX_def)
    then show ?thesis using True ap d same_base_writer [of b]
      by (auto simp: remove_entry_def encode_key_record_eq Let_def owner_frame_def)
  next
    case False
    let ?p = "ast b + bump b"
    let ?b = "wr 32 4 (bump b + length ?r) (bsplice ?p ?r b)"
    have fit: "bump b + length ?r \<le> acap b" using False lr by simp
    note a = append_record_rep [OF assms(1) fit] and fr = append_frame [OF assms(1) fit]
    have n: "nb ?b = nb b" by (rule same_base_rd(1) [OF a(3)]) simp
    have "?p < 2 ^ 32" using record_len_ok(2) [OF slots_repD(1) [OF a(1)] a(2)] by simp
    moreover have "bucket_rep h ?b i ((slot_at ?b i)\<lparr>tag := SLOT_TOMBSTONE, head_off := ?p\<rparr>) Dead"
      using a(2) ko by auto
    ultimately have c: "slots_rep h (commit_slot_head ?b 192 i SLOT_TOMBSTONE ?p) (B[i := Dead])"
      "owner_frame ?b (commit_slot_head ?b 192 i SLOT_TOMBSTONE ?p)"
      using commit_slot_head_rep [OF a(1) _ t, unfolded n, OF assms(2)] by blast+
    have fc: "owner_frame b (commit_slot_head ?b 192 i SLOT_TOMBSTONE ?p)" by (rule owner_frame_trans [OF fr c(2)])
    have "remove_entry (memh_writer_unchecked b) i key (h key) head =
        Some ((memh_writer_unchecked b)\<lparr>hw_buf := commit_slot_head ?b 192 i SLOT_TOMBSTONE ?p\<rparr>)"
      using False ap d lr by (simp add: remove_entry_def encode_key_record_eq Let_def)
    then show ?thesis using c(1) fc same_base_writer [of b "commit_slot_head ?b 192 i SLOT_TOMBSTONE ?p"]
      by (auto simp: owner_frame_def)
  qed
qed

section \<open>The probe loops\<close>

lemma writer_self: "(memh_writer_unchecked b)\<lparr>hw_buf := b\<rparr> = memh_writer_unchecked b"
  by (simp add: memh_writer_unchecked_def Let_def)

lemma insert_probes_rep:
  assumes "slots_rep h b B" "0 < spin"
  defines "W \<equiv> memh_writer_unchecked b"
  shows "insert_probes os spin key v (h key) (bump b) (scalar v) s tomb ps W =
    (case probe_find B key s tomb ps of
       Found i \<Rightarrow> do { (r, w) \<leftarrow> write_update W i (tag (slot_at b i)) key v (h key) (bump b) (scalar v) (head_off (slot_at b i));
                      Some (map_sum id (\<lambda>_. Updated) r, w) }
     | Vacant i \<Rightarrow> do { (r, w) \<leftarrow> write_new_entry W i key v (h key) (bump b) (scalar v);
                       Some (map_sum id (\<lambda>_. Inserted) r, w) }
     | NoRoom \<Rightarrow> Some (Inl TableFull, W))"
proof (induction ps arbitrary: tomb)
  case Nil
  show ?case by (simp split: option.splits)
next
  case (Cons p ps)
  note r = slots_repD [OF assms(1)]
  let ?i = "probe (nb b) s p"
  have i: "?i < nb b" by (rule probe_mask(2) [OF r(1)])
  let ?s = "slot_at b ?i"
  have idx: "(s + p) AND hw_mask W = ?i" using probe_mask(1) [OF r(1)] by (simp add: W_def)
  have rs: "read_slot os spin (hw_buf W) (hw_data_off W) ?i = Some (?s, b)"
    using read_slot_rep [OF assms(1) i assms(2)] geomD(3) [OF r(1)] by (simp add: W_def)
  have sw: "W\<lparr>hw_buf := b\<rparr> = W" by (simp add: W_def writer_self)
  have br: "bucket_rep h b ?i ?s (B ! ?i)" by (rule r(5) [OF i])
  show ?case
  proof (cases "B ! ?i")
    case Free
    then show ?thesis using br rs by (simp add: r(3) idx sw Let_def)
  next
    case Dead
    then show ?thesis using br rs Cons.IH by (simp add: r(3) idx sw memh_consts Let_def)
  next
    case (Live k u)
    have t: "tag ?s = SLOT_OCCUPIED \<or> tag ?s = SLOT_INLINE" "slot_hash ?s = h k" "key_len ?s = length k"
      using br Live by auto
    have te: "tag ?s \<noteq> SLOT_EMPTY" "tag ?s \<noteq> SLOT_TOMBSTONE" using t(1) by (auto simp: memh_consts)
    from bucket_record [OF br [unfolded Live]] have m: "slot_matches b ?s key \<longleftrightarrow> k = key"
      using slot_matches_at [OF r(1)] by metis
    show ?thesis
    proof (cases "k = key")
      case True
      then show ?thesis using rs t te m Live by (simp add: r(3) idx sw Let_def)
    next
      case False
      then show ?thesis using rs t te m Live Cons.IH by (simp add: r(3) idx sw Let_def)
    qed
  qed
qed

lemma remove_probes_rep:
  assumes "slots_rep h b B" "0 < spin"
  defines "W \<equiv> memh_writer_unchecked b"
  shows "remove_probes os spin key (h key) s ps W =
    (case probe_find B key s tomb ps of
       Found i \<Rightarrow> do { w \<leftarrow> remove_entry W i key (h key) (head_off (slot_at b i)); Some (True, w) }
     | _ \<Rightarrow> Some (False, W))"
proof (induction ps arbitrary: tomb)
  case Nil
  show ?case by (simp split: option.splits)
next
  case (Cons p ps)
  note r = slots_repD [OF assms(1)]
  let ?i = "probe (nb b) s p"
  have i: "?i < nb b" by (rule probe_mask(2) [OF r(1)])
  let ?s = "slot_at b ?i"
  have idx: "(s + p) AND hw_mask W = ?i" using probe_mask(1) [OF r(1)] by (simp add: W_def)
  have rs: "read_slot os spin (hw_buf W) (hw_data_off W) ?i = Some (?s, b)"
    using read_slot_rep [OF assms(1) i assms(2)] geomD(3) [OF r(1)] by (simp add: W_def)
  have sw: "W\<lparr>hw_buf := b\<rparr> = W" by (simp add: W_def writer_self)
  have br: "bucket_rep h b ?i ?s (B ! ?i)" by (rule r(5) [OF i])
  show ?case
  proof (cases "B ! ?i")
    case Free
    then show ?thesis using br rs by (simp add: r(3) idx sw Let_def)
  next
    case Dead
    then show ?thesis using br rs Cons.IH by (simp add: r(3) idx sw memh_consts Let_def)
  next
    case (Live k u)
    have t: "tag ?s = SLOT_OCCUPIED \<or> tag ?s = SLOT_INLINE" "slot_hash ?s = h k" "key_len ?s = length k"
      using br Live by auto
    have te: "tag ?s \<noteq> SLOT_EMPTY" "tag ?s \<noteq> SLOT_TOMBSTONE" using t(1) by (auto simp: memh_consts)
    from bucket_record [OF br [unfolded Live]] have m: "slot_matches b ?s key \<longleftrightarrow> k = key"
      using slot_matches_at [OF r(1)] by metis
    show ?thesis
    proof (cases "k = key")
      case True
      then show ?thesis using rs t te m Live by (simp add: r(3) idx sw Let_def)
    next
      case False
      then show ?thesis using rs t te m Live Cons.IH by (simp add: r(3) idx sw Let_def)
    qed
  qed
qed

end
