(* ===== verification/Memh_Map.thy ===== *)
theory Memh_Map
  imports Memh_Write
begin

text \<open>
  MEMH as a finite map. The writer is acquired and released around each mutation; \<open>insert\<close> and
  \<open>remove\<close> then act on the map a table stands for, with every outcome accounted for. The laws are
  collected in a locale of key-value stores, whose client lemma runs any sequence of operations,
  and the mutex-guarded writer interprets it.
\<close>

section \<open>Acquiring the writer\<close>

definition writer_available :: "os \<Rightarrow> buf \<Rightarrow> bool" where
  "writer_available os b \<longleftrightarrow>
    (writer_claim (memh_header b) = 0 \<or> \<not> process_exists os (writer_claim (memh_header b))) \<and>
    (writer_pid (memh_header b) = 0 \<or>
     \<not> process_instance_alive os (writer_pid (memh_header b)) (writer_start_time (memh_header b)))"

text \<open>Stores to the three ownership fields.\<close>

definition owner_store :: "usize \<times> nat \<times> nat \<Rightarrow> bool" where
  "owner_store st = (case st of (off, n, v) \<Rightarrow> (off, n) \<in> {(40, 4), (48, 8), (76, 4)})"

lemma owner_stores:
  assumes "slots_rep h b B" "\<forall>st \<in> set ss. owner_store st"
  shows "slots_rep h (wr_all ss b) B" "same_base b (wr_all ss b)" "bump (wr_all ss b) = bump b"
    "length (wr_all ss b) = length b"
    "(off, m) \<in> {(40, 4), (48, 8), (76, 4)} \<Longrightarrow>
     rd off m (wr_all ss b) = (case last_store ss off m of Some v \<Rightarrow> v mod 256 ^ m | None \<Rightarrow> rd off m b)"
    "80 \<le> o2 \<Longrightarrow> bslice o2 n (wr_all ss b) = bslice o2 n b"
proof -
  have l: "192 \<le> length b" using geomD(4,6) [OF slots_repD(1) [OF assms(1)]] by linarith
  have f: "(a, k) \<in> {(40, 4), (48, 8), (76, 4)}" if "(a, k, v) \<in> set ss" for a k v
    using bspec [OF assms(2) that] by (simp add: owner_store_def)
  have s: "bslice o2 n (wr_all ss b) = bslice o2 n b" if "o2 + n \<le> 40 \<or> 44 \<le> o2 \<and> o2 + n \<le> 48 \<or> 80 \<le> o2" for o2 n
    by (rule slice_wr_all_other) (use f l that in fastforce)
  show len: "length (wr_all ss b) = length b" by (rule length_wr_all) (use f l in fastforce)
  have j: "rd 44 4 (wr_all ss b) = 0" using s [of 44 4] slots_repD(2) [OF assms(1)] by (simp add: rd_def)
  show "slots_rep h (wr_all ss b) B" "same_base b (wr_all ss b)"
    by (rule slots_rep_frame [OF assms(1) len s j s]; simp)+
  show "bump (wr_all ss b) = bump b" by (rule rd_cong, rule s) simp
  show "80 \<le> o2 \<Longrightarrow> bslice o2 n (wr_all ss b) = bslice o2 n b" by (rule s) simp
  show "rd off m (wr_all ss b) = (case last_store ss off m of Some v \<Rightarrow> v mod 256 ^ m | None \<Rightarrow> rd off m b)"
    if "(off, m) \<in> {(40, 4), (48, 8), (76, 4)}"
    by (rule rd_wr_all_field) (use f l that in fastforce)+
qed

text \<open>One round of the acquisition loop with no claimant, on a table with an empty journal.\<close>

lemma acquire_round:
  fixes os :: os
  assumes "slots_rep h b B" "writer_claim (memh_header b) = 0"
  defines "pid \<equiv> unat (current_process_id os)"
  defines "free \<equiv> writer_pid (memh_header b) = 0 \<or>
    \<not> process_instance_alive os (writer_pid (memh_header b)) (writer_start_time (memh_header b))"
  shows "acquire_loop os (Suc n) b =
    (if free
     then (True, wr_all [(76, 4, pid), (48, 8, unat (process_start_time os (current_process_id os))), (40, 4, pid), (76, 4, 0)] b)
     else (False, wr_all [(76, 4, pid), (76, 4, 0)] b))"
proof -
  let ?ss = "[(76, 4, pid), (48, 8, unat (process_start_time os (current_process_id os))), (40, 4, pid), (76, 4, 0)]"
  have o: "\<forall>st \<in> set [(76, 4, pid)]. owner_store st" "\<forall>st \<in> set ?ss. owner_store st" by (simp_all add: owner_store_def)
  have c: "cas32 76 0 (current_process_id os) b = (True, wr_all [(76, 4, pid)] b)"
    using assms(2) by (simp add: cas32_def memh_header_def pid_def wr_all_Cons)
  have "rd 40 4 (wr_all [(76, 4, pid)] b) = rd 40 4 b" "rd 48 8 (wr_all [(76, 4, pid)] b) = rd 48 8 b"
    using owner_stores(5) [OF assms(1) o(1)] by (simp_all add: last_store_Cons)
  then have h: "writer_pid (memh_header (wr_all [(76, 4, pid)] b)) = writer_pid (memh_header b)"
    "writer_start_time (memh_header (wr_all [(76, 4, pid)] b)) = writer_start_time (memh_header b)"
    by (simp_all add: memh_header_def)
  have w: "wr 76 4 0 (wr 40 4 pid (wr 48 8 (unat (process_start_time os (current_process_id os))) (wr_all [(76, 4, pid)] b))) = wr_all ?ss b"
    by (simp add: wr_all_Cons)
  have r: "recover_slot_journal (wr_all ?ss b) = (True, wr_all ?ss b)"
    by (rule recover_idle, rule slots_repD(2), rule owner_stores(1) [OF assms(1) o(2)])
  show ?thesis
    unfolding acquire_loop.simps Let_def using assms(2) c h w r
    by (simp add: free_def pid_def wr_all_Cons)
qed

text \<open>What an acquisition leaves behind, successful or not.\<close>

definition acquired :: "(byte list \<Rightarrow> u64) \<Rightarrow> buf \<Rightarrow> (byte list, Value) bucket list \<Rightarrow> bool \<Rightarrow> bool \<times> buf \<Rightarrow> bool" where
  "acquired h b B ok r \<longleftrightarrow> fst r = ok \<and> slots_rep h (snd r) B \<and> same_base b (snd r) \<and> bump (snd r) = bump b \<and>
     (ok \<longrightarrow> writer_claim (memh_header (snd r)) = 0)"

lemma acquired_stores:
  assumes "slots_rep h b B" "\<forall>st \<in> set ss. owner_store st" "last_store ss 76 4 = Some 0"
  shows "acquired h b B ok (ok, wr_all ss b)"
  using owner_stores(1-3) [OF assms(1,2)] owner_stores(5) [OF assms(1,2), of 76 4] assms(3)
  by (simp add: acquired_def memh_header_def)

lemma acquire_unclaimed:
  assumes "slots_rep h b B" "writer_claim (memh_header b) = 0"
  shows "acquired h b B (writer_available os b) (acquire_loop os (Suc n) b)"
proof -
  have o: "\<forall>st \<in> set [(76, 4, p), (48, 8, t), (40, 4, p), (76, 4, 0)]. owner_store st"
    "\<forall>st \<in> set [(76, 4, p), (76, 4, 0)]. owner_store st" for p t by (simp_all add: owner_store_def)
  show ?thesis
    unfolding acquire_round [OF assms]
    by (cases "writer_available os b")
      (simp_all add: assms(2) writer_available_def acquired_stores [OF assms(1) o(1)] acquired_stores [OF assms(1) o(2)] last_store_Cons)
qed

lemma acquire_writer_rep:
  assumes "slots_rep h b B"
  shows "acquired h b B (writer_available os b) (acquire_writer os b)"
proof -
  have s64: "64 = Suc (Suc 62)" by simp
  consider "writer_claim (memh_header b) = 0" |
    "writer_claim (memh_header b) \<noteq> 0" "process_exists os (writer_claim (memh_header b))" |
    "writer_claim (memh_header b) \<noteq> 0" "\<not> process_exists os (writer_claim (memh_header b))" by blast
  then show ?thesis
  proof cases
    case 1
    then show ?thesis unfolding acquire_writer_def s64 by (rule acquire_unclaimed [OF assms])
  next
    case 2
    have "acquire_writer os b = (False, b)" using 2 unfolding acquire_writer_def s64 acquire_loop.simps Let_def by simp
    moreover have "\<not> writer_available os b" using 2 by (simp add: writer_available_def)
    ultimately show ?thesis using assms by (simp add: acquired_def same_base_def)
  next
    case 3
    let ?b = "wr_all [(76, 4, 0)] b"
    have o: "\<forall>st \<in> set [(76, 4, 0)]. owner_store st" by (simp add: owner_store_def)
    have c: "snd (cas32 76 (writer_claim (memh_header b)) 0 b) = ?b"
      by (simp add: cas32_def memh_header_def wr_all_Cons)
    note os1 = owner_stores [OF assms o]
    have h: "writer_claim (memh_header ?b) = 0" "writer_pid (memh_header ?b) = writer_pid (memh_header b)"
      "writer_start_time (memh_header ?b) = writer_start_time (memh_header b)"
      using os1(5) by (simp_all add: memh_header_def last_store_Cons)
    have lp: "acquire_writer os b = acquire_loop os (Suc 62) ?b"
      using 3 c unfolding acquire_writer_def s64 acquire_loop.simps(2) [of os "Suc 62"] Let_def by simp
    have "writer_available os ?b = writer_available os b" using 3 h by (simp add: writer_available_def)
    then show ?thesis using acquire_unclaimed [OF os1(1) h(1), of os 62] os1(2,3) unfolding lp
      by (simp add: acquired_def same_base_def)
  qed
qed

lemma drop_write_guard_rep:
  assumes "slots_rep h b B"
  shows "slots_rep h (drop_write_guard b) B" "same_base b (drop_write_guard b)"
    "writer_pid (memh_header (drop_write_guard b)) = 0"
    "writer_claim (memh_header (drop_write_guard b)) = writer_claim (memh_header b)"
proof -
  have d: "drop_write_guard b = wr_all [(48, 8, 0), (40, 4, 0)] b" by (simp add: drop_write_guard_def wr_all_Cons)
  have o: "\<forall>st \<in> set [(48, 8, 0), (40, 4, 0)]. owner_store st" by (simp add: owner_store_def)
  note r = owner_stores [OF assms o, folded d]
  show "slots_rep h (drop_write_guard b) B" "same_base b (drop_write_guard b)" by (rule r(1), rule r(2))
  show "writer_pid (memh_header (drop_write_guard b)) = 0"
    using r(5) [of 40 4] by (simp add: memh_header_def last_store_Cons)
  show "writer_claim (memh_header (drop_write_guard b)) = writer_claim (memh_header b)"
    using r(5) [of 76 4] by (simp add: memh_header_def last_store_Cons)
qed

section \<open>The map of a table\<close>

definition kv_rep :: "(u64 \<Rightarrow> byte list \<Rightarrow> u64) \<Rightarrow> buf \<Rightarrow> (byte list \<Rightarrow> Value option) \<Rightarrow> bool" where
  "kv_rep xxh3 b m \<longleftrightarrow> (\<exists>B. memh_rep (table_hash xxh3 b) b B \<and> bucket_map B = m)"

lemma table_hash_base: "same_base b b' \<Longrightarrow> table_hash xxh3 b' = table_hash xxh3 b"
  using same_base_rd(2) [of b b' 144 8] by simp

lemma kv_repI:
  assumes "slots_rep (table_hash xxh3 b) b' B" "same_base b b'" "probe_inv (home_of (table_hash xxh3 b) (length B)) B"
  shows "kv_rep xxh3 b' (bucket_map B)"
  using assms table_hash_base [OF assms(2)] by (auto simp: kv_rep_def memh_rep_def)

lemma kv_repE:
  assumes "kv_rep xxh3 b m"
  obtains B where "slots_rep (table_hash xxh3 b) b B" "probe_inv (home_of (table_hash xxh3 b) (length B)) B"
    "0 < length B" "length B = nb b" "bucket_map B = m" "card (dom m) = length (live_pairs B)"
proof -
  from assms obtain B where B: "memh_rep (table_hash xxh3 b) b B" "bucket_map B = m" by (auto simp: kv_rep_def)
  note r = memh_repD [OF B(1)]
  have "card (dom m) = length (live_pairs B)" using card_bucket_map [OF probe_invD(1) [OF r(2)]] B(2) by simp
  then show thesis by (rule that [OF r(1-3,5) B(2)])
qed

lemma kv_get:
  assumes "kv_rep xxh3 b m" "0 < spin"
  shows "memh_get xxh3 os spin (view_of b) b key = Some (map_option typed_of (m key), b)"
  using assms memh_get_rep unfolding kv_rep_def by blast

lemma same_base_trans: "same_base a b \<Longrightarrow> same_base b c \<Longrightarrow> same_base a c"
  by (simp add: same_base_def)

lemma insert_locked_start:
  assumes "slots_rep h b B" "h = table_hash xxh3 b"
  shows "insert_locked xxh3 os spin (memh_writer_unchecked b) key v =
      insert_probes os spin key v (h key) (bump b) (scalar v) (home_of h (length B) key) None [0..<length B] (memh_writer_unchecked b)"
    "remove_locked xxh3 os spin (memh_writer_unchecked b) key =
      remove_probes os spin key (h key) (home_of h (length B) key) [0..<length B] (memh_writer_unchecked b)"
  using slots_repD(3) [OF assms(1)] assms(2)
  by (simp_all add: insert_locked_def remove_locked_def Let_def home_of_def
      probe_mask(3) [OF slots_repD(1) [OF assms(1)], unfolded One_nat_def])

text \<open>The outcome of an insertion, as a relation between the map before and the map after.\<close>

fun insert_outcome ::
  "InsertError + InsertResult \<Rightarrow> bool \<Rightarrow> byte list \<Rightarrow> Value \<Rightarrow> buf \<Rightarrow> (byte list \<Rightarrow> Value option) \<Rightarrow> (byte list \<Rightarrow> Value option) \<Rightarrow> bool" where
  "insert_outcome (Inr Inserted) avail key v b m m' \<longleftrightarrow> avail \<and> m key = None \<and> m' = m(key \<mapsto> v)"
| "insert_outcome (Inr Updated) avail key v b m m' \<longleftrightarrow> avail \<and> m key \<noteq> None \<and> m' = m(key \<mapsto> v)"
| "insert_outcome (Inl WriterBusy) avail key v b m m' \<longleftrightarrow> \<not> avail \<and> m' = m"
| "insert_outcome (Inl TableFull) avail key v b m m' \<longleftrightarrow> avail \<and> m key = None \<and> card (dom m) = nb b \<and> m' = m"
| "insert_outcome (Inl ArenaFull) avail key v b m m' \<longleftrightarrow> avail \<and> acap b < bump b + entry_size key v \<and> m' = m"
| "insert_outcome (Inl InvalidValue) avail key v b m m' \<longleftrightarrow> False"

lemma insert_locked_map:
  assumes "slots_rep h b B" "h = table_hash xxh3 b" "probe_inv (home_of h (length B)) B" "key_ok key" "storable v" "0 < spin"
  shows "\<exists>r b' B'. insert_locked xxh3 os spin (memh_writer_unchecked b) key v = Some (r, memh_writer_unchecked b') \<and>
    slots_rep h b' B' \<and> owner_frame b b' \<and> length B' = length B \<and> probe_inv (home_of h (length B)) B' \<and>
    insert_outcome r True key v b (bucket_map B) (bucket_map B')"
proof -
  let ?home = "home_of h (length B)" and ?W = "memh_writer_unchecked b"
  have n: "0 < length B" "length B = nb b" using slots_repD(1,3) [OF assms(1)] geomD(1) by auto
  note f = probe_find_inv [OF assms(3) n(1), of key]
  note st = insert_locked_start(1) [OF assms(1,2), of os spin key v, unfolded insert_probes_rep [OF assms(1,6)]]
  have pd: "\<exists>b'. w = memh_writer_unchecked b' \<and> slots_rep h b' (B[i := Live key v]) \<and> owner_frame b b'"
    if "put_done h b B i key v w" for i w using that by (auto simp: put_done_def)
  show ?thesis
  proof (cases "probe_find B key (?home key) None [0..<length B]")
    case (Found i)
    then have hk: "holds_key B i key" using f by simp
    then obtain u where i: "i < nb b" "B ! i = Live key u" using n(2) by (auto simp: holds_key_def)
    have some: "bucket_map B key = Some u" using bucket_map_Some [OF probe_invD(1) [OF assms(3)]] i n(2) by auto
    from write_update_rep [OF assms(1) i assms(5), of "head_off (slot_at b i)"] obtain w where w:
      "write_update ?W i (tag (slot_at b i)) key v (h key) (bump b) (scalar v) (head_off (slot_at b i)) =
        Some (if update_size (tag (slot_at b i)) key v \<noteq> 0 \<and> acap b < bump b + entry_size key v
              then (Inl ArenaFull, ?W) else (Inr (), w))"
      "update_size (tag (slot_at b i)) key v = 0 \<or> bump b + entry_size key v \<le> acap b \<longrightarrow> put_done h b B i key v w" by blast
    show ?thesis
    proof (cases "update_size (tag (slot_at b i)) key v \<noteq> 0 \<and> acap b < bump b + entry_size key v")
      case True
      then show ?thesis using w(1) st Found assms(1,3)
        by (intro exI [of _ "Inl ArenaFull"] exI [of _ b] exI [of _ B]) simp
    next
      case False
      then obtain b' where b': "w = memh_writer_unchecked b'" "slots_rep h b' (B[i := Live key v])" "owner_frame b b'"
        using w(2) pd [of i w] by auto
      note pf = put_found [OF assms(3) hk, of v]
      show ?thesis using w(1) st Found False b' pf some
        by (intro exI [of _ "Inr Updated"] exI [of _ b'] exI [of _ "B[i := Live key v]"]) auto
    qed
  next
    case (Vacant i)
    then have v: "vacant_at B (?home key) i" "bucket_map B key = None" using f by simp_all
    then have i: "i < nb b" using n(2) by (simp add: vacant_at_def)
    from write_new_entry_rep [OF assms(1) i assms(4,5)] obtain w where w:
      "write_new_entry ?W i key v (h key) (bump b) (scalar v) =
        Some (if acap b < bump b + entry_size key v then (Inl ArenaFull, ?W) else (Inr (), w))"
      "bump b + entry_size key v \<le> acap b \<longrightarrow> put_done h b B i key v w" by blast
    show ?thesis
    proof (cases "acap b < bump b + entry_size key v")
      case True
      then show ?thesis using w(1) st Vacant assms(1,3)
        by (intro exI [of _ "Inl ArenaFull"] exI [of _ b] exI [of _ B]) simp
    next
      case False
      then obtain b' where b': "w = memh_writer_unchecked b'" "slots_rep h b' (B[i := Live key v])" "owner_frame b b'"
        using w(2) pd [of i w] by auto
      note pv = put_vacant [OF assms(3) v, of v]
      show ?thesis using w(1) st Vacant False b' pv v(2)
        by (intro exI [of _ "Inr Inserted"] exI [of _ b'] exI [of _ "B[i := Live key v]"]) auto
    qed
  next
    case NoRoom
    then have nr: "bucket_map B key = None" "\<forall>q<length B. \<exists>k v. B ! probe (length B) (?home key) q = Live k v"
      using f by simp_all
    have "card (dom (bucket_map B)) = nb b"
      using no_room_full [OF nr(2)] card_bucket_map [OF probe_invD(1) [OF assms(3)]] n(2) by simp
    then show ?thesis using st NoRoom assms(1,3) nr(1)
      by (intro exI [of _ "Inl TableFull"] exI [of _ b] exI [of _ B]) simp
  qed
qed

lemma owner_frame_claim: "owner_frame b b' \<Longrightarrow> writer_claim (memh_header b') = writer_claim (memh_header b)"
  by (simp add: owner_frame_def memh_header_def rd_def)

text \<open>No process owns or claims the writer.\<close>

definition writer_idle :: "buf \<Rightarrow> bool" where
  "writer_idle b \<longleftrightarrow> writer_pid (memh_header b) = 0 \<and> writer_claim (memh_header b) = 0"

lemma writer_idle_available: "writer_idle b \<Longrightarrow> writer_available os b"
  by (simp add: writer_idle_def writer_available_def)

lemma memh_insert_map:
  assumes "kv_rep xxh3 b m" "key_ok key" "storable v" "0 < spin"
  shows "\<exists>r b' m'. memh_insert xxh3 os spin (memh_writer_unchecked b) key v = Some (r, memh_writer_unchecked b') \<and>
    kv_rep xxh3 b' m' \<and> same_base b b' \<and> insert_outcome r (writer_available os b) key v b m m' \<and>
    (writer_available os b \<longrightarrow> writer_idle b')"
proof -
  let ?h = "table_hash xxh3 b"
  obtain B where B: "slots_rep ?h b B" "probe_inv (home_of ?h (length B)) B" "bucket_map B = m"
    "length B = nb b" using kv_repE [OF assms(1)] by metis
  obtain ok b1 where a: "acquire_writer os b = (ok, b1)" by (cases "acquire_writer os b")
  from acquire_writer_rep [OF B(1), of os] a have a1: "ok = writer_available os b" "slots_rep ?h b1 B" "same_base b b1"
    "bump b1 = bump b" "ok \<longrightarrow> writer_claim (memh_header b1) = 0" by (simp_all add: acquired_def)
  have w1: "(memh_writer_unchecked b)\<lparr>hw_buf := b1\<rparr> = memh_writer_unchecked b1" by (rule same_base_writer [OF a1(3)])
  have h1: "table_hash xxh3 b1 = ?h" by (rule table_hash_base [OF a1(3)])
  show ?thesis
  proof (cases ok)
    case False
    have "kv_rep xxh3 b1 m" using kv_repI [OF a1(2,3) B(2)] B(3) by simp
    then show ?thesis using False a a1(1,3) w1
      by (intro exI [of _ "Inl WriterBusy"] exI [of _ b1] exI [of _ m]) (simp add: memh_insert_def)
  next
    case True
    from insert_locked_map [OF a1(2) h1 [symmetric] B(2) assms(2-4), of os] obtain r b2 B' where i:
      "insert_locked xxh3 os spin (memh_writer_unchecked b1) key v = Some (r, memh_writer_unchecked b2)"
      "slots_rep ?h b2 B'" "owner_frame b1 b2" "length B' = length B" "probe_inv (home_of ?h (length B)) B'"
      "insert_outcome r True key v b1 m (bucket_map B')" using B(3) by blast
    let ?b3 = "drop_write_guard b2"
    note d = drop_write_guard_rep [OF i(2)]
    have s12: "same_base b1 b2" using i(3) by (simp add: owner_frame_def)
    have s3: "same_base b ?b3" by (rule same_base_trans [OF same_base_trans [OF a1(3) s12] d(2)])
    have w3: "(memh_writer_unchecked b2)\<lparr>hw_buf := ?b3\<rparr> = memh_writer_unchecked ?b3" by (rule same_base_writer [OF d(2)])
    have "kv_rep xxh3 ?b3 (bucket_map B')" using kv_repI [OF d(1) s3] i(4,5) by simp
    moreover have "insert_outcome r True key v b m (bucket_map B')"
      using i(6) a1(4) same_base_rd [OF a1(3)] by (cases r rule: sum.exhaust) (auto elim!: insert_outcome.elims)
    moreover have "writer_idle ?b3" using d(3,4) owner_frame_claim [OF i(3)] a1(5) True by (simp add: writer_idle_def)
    ultimately show ?thesis using True a a1(1) w1 i(1) w3 s3
      by (intro exI [of _ r] exI [of _ ?b3] exI [of _ "bucket_map B'"]) (simp add: memh_insert_def)
  qed
qed

lemma remove_locked_map:
  assumes "slots_rep h b B" "h = table_hash xxh3 b" "probe_inv (home_of h (length B)) B" "0 < spin"
  shows "\<exists>b' B'. remove_locked xxh3 os spin (memh_writer_unchecked b) key = Some (bucket_map B key \<noteq> None, memh_writer_unchecked b') \<and>
    slots_rep h b' B' \<and> owner_frame b b' \<and> length B' = length B \<and> probe_inv (home_of h (length B)) B' \<and>
    bucket_map B' = (bucket_map B)(key := None)"
proof -
  let ?home = "home_of h (length B)"
  have n: "0 < length B" "length B = nb b" using slots_repD(1,3) [OF assms(1)] geomD(1) by auto
  note f = probe_find_inv [OF assms(3) n(1), of key]
  note st = insert_locked_start(2) [OF assms(1,2), of os spin key, unfolded remove_probes_rep [OF assms(1,4), where tomb = None]]
  have absent: ?thesis if "bucket_map B key = None"
    "remove_locked xxh3 os spin (memh_writer_unchecked b) key = Some (False, memh_writer_unchecked b)"
  proof -
    have "(bucket_map B)(key := None) = bucket_map B" using that(1) by auto
    then show ?thesis using that assms(1,3) by (intro exI [of _ b] exI [of _ B]) simp
  qed
  show ?thesis
  proof (cases "probe_find B key (?home key) None [0..<length B]")
    case (Found i)
    then have hk: "holds_key B i key" using f by simp
    then obtain u where i: "i < nb b" "B ! i = Live key u" using n(2) by (auto simp: holds_key_def)
    have some: "bucket_map B key = Some u" using bucket_map_Some [OF probe_invD(1) [OF assms(3)]] i n(2) by auto
    from remove_entry_rep [OF assms(1) i, of "head_off (slot_at b i)"] obtain b' where b':
      "remove_entry (memh_writer_unchecked b) i key (h key) (head_off (slot_at b i)) = Some (memh_writer_unchecked b')"
      "slots_rep h b' (B[i := Dead])" "owner_frame b b'" by blast
    show ?thesis using st Found b' del_found [OF assms(3) hk] some
      by (intro exI [of _ b'] exI [of _ "B[i := Dead]"]) simp
  qed (use f st absent in simp_all)
qed

lemma memh_remove_map:
  assumes "kv_rep xxh3 b m" "0 < spin"
  shows "\<exists>b'. memh_remove xxh3 os spin (memh_writer_unchecked b) key =
      Some (writer_available os b \<and> m key \<noteq> None, memh_writer_unchecked b') \<and>
    kv_rep xxh3 b' (if writer_available os b then m(key := None) else m) \<and> same_base b b' \<and>
    (writer_available os b \<longrightarrow> writer_idle b')"
proof -
  let ?h = "table_hash xxh3 b"
  obtain B where B: "slots_rep ?h b B" "probe_inv (home_of ?h (length B)) B" "bucket_map B = m"
    using kv_repE [OF assms(1)] by metis
  obtain ok b1 where a: "acquire_writer os b = (ok, b1)" by (cases "acquire_writer os b")
  from acquire_writer_rep [OF B(1), of os] a have a1: "ok = writer_available os b" "slots_rep ?h b1 B" "same_base b b1"
    "ok \<longrightarrow> writer_claim (memh_header b1) = 0" by (simp_all add: acquired_def)
  have w1: "(memh_writer_unchecked b)\<lparr>hw_buf := b1\<rparr> = memh_writer_unchecked b1" by (rule same_base_writer [OF a1(3)])
  have h1: "table_hash xxh3 b1 = ?h" by (rule table_hash_base [OF a1(3)])
  show ?thesis
  proof (cases ok)
    case False
    have "kv_rep xxh3 b1 m" using kv_repI [OF a1(2,3) B(2)] B(3) by simp
    then show ?thesis using False a a1(1,3) w1 by (intro exI [of _ b1]) (simp add: memh_remove_def)
  next
    case True
    from remove_locked_map [OF a1(2) h1 [symmetric] B(2) assms(2), of os key] obtain b2 B' where i:
      "remove_locked xxh3 os spin (memh_writer_unchecked b1) key = Some (m key \<noteq> None, memh_writer_unchecked b2)"
      "slots_rep ?h b2 B'" "owner_frame b1 b2" "length B' = length B" "probe_inv (home_of ?h (length B)) B'"
      "bucket_map B' = m(key := None)" using B(3) by blast
    let ?b3 = "drop_write_guard b2"
    note d = drop_write_guard_rep [OF i(2)]
    have s12: "same_base b1 b2" using i(3) by (simp add: owner_frame_def)
    have s3: "same_base b ?b3" by (rule same_base_trans [OF same_base_trans [OF a1(3) s12] d(2)])
    have w3: "(memh_writer_unchecked b2)\<lparr>hw_buf := ?b3\<rparr> = memh_writer_unchecked ?b3" by (rule same_base_writer [OF d(2)])
    have "kv_rep xxh3 ?b3 (m(key := None))" using kv_repI [OF d(1) s3] i(4-6) by simp
    moreover have "writer_idle ?b3" using d(3,4) owner_frame_claim [OF i(3)] a1(4) True by (simp add: writer_idle_def)
    ultimately show ?thesis using True a a1(1) w1 i(1) w3 s3
      by (intro exI [of _ ?b3]) (simp add: memh_remove_def)
  qed
qed

section \<open>Initialisation\<close>

lemma bom_small: "bom_value < 2 ^ 16"
  by (simp add: bom_value_def BYTE_ORDER_MARK_def)

lemma zero_slot: "even_gen 0" "tag (slot_fields 0 w1 c w3) = SLOT_EMPTY"
proof -
  have "le_bytes 8 0 = replicate 8 0" using le_bytes_append_zero [of 0 0 8] by simp
  then have z: "word_le 8 (0::u64) = replicate 8 0" by (simp add: word_le_def)
  have "le_nat (replicate k 0) = 0" for k by (induction k) simp_all
  then show "even_gen 0" by (simp add: even_gen_def control_parts_def z word_of_le_def)
  show "tag (slot_fields 0 w1 c w3) = SLOT_EMPTY" by (simp add: slot_fields_def z SLOT_EMPTY_def)
qed

text \<open>The fields a successful initialisation leaves; 32-bit fields are cut to their width.\<close>

lemma memh_init_fields:
  assumes "memh_init_buf os addr b n cap seed = Inr b'"
  shows "addr mod 8 = 0" "n \<noteq> 0" "n AND (n - 1) = 0" "192 + n * 32 + cap \<le> length b" "length b' = length b"
    "rd 0 4 b' = MAGIC_MEMH" "rd 4 2 b' = VERSION_MEMH" "rd 6 2 b' = MEMH_HEADER_SIZE"
    "rd 8 2 b' = bom_value" "nb b' = n mod 2 ^ 32" "rd 20 4 b' = 192" "bump b' = 0"
    "rd 40 4 b' = 0" "rd 44 4 b' = 0" "rd 76 4 b' = 0" "rd 128 4 b' = SLOT_STRIDE"
    "ast b' = (192 + n * 32) mod 2 ^ 32" "acap b' = cap mod 2 ^ 32"
    "i < n \<Longrightarrow> w < 4 \<Longrightarrow> slot_word b' (so i) w = 0"
proof -
  let ?start = "192 + n * 32"
  let ?need = "?start + cap"
  let ?z = "bsplice 0 (replicate ?need 0) b"
  let ?b2 = "memh_init_header os n 192 ?z"
  have c: "Option.bind (checked_mul n SLOT_STRIDE) (checked_add 192) = Some ?start" "checked_add ?start cap = Some ?need"
    using assms unfolding memh_init_buf_def Let_def memh_data_offset_192
    by (auto simp: checked_mul_def checked_add_def SLOT_STRIDE_def split: if_splits)
  have ok: "addr mod 8 = 0" "n \<noteq> 0" "n AND (n - 1) = 0" "?need \<le> length b" "b' = memh_init_meta ?start cap seed ?b2"
    using assms unfolding memh_init_buf_def Let_def memh_data_offset_192 MEMH_ALIGN_def
    by (simp_all add: c split: if_splits)
  show "addr mod 8 = 0" "n \<noteq> 0" "n AND (n - 1) = 0" "?need \<le> length b" by (fact ok)+
  let ?hs = "[(0, 4, MAGIC_MEMH), (4, 2, VERSION_MEMH), (6, 2, MEMH_HEADER_SIZE), (8, 2, bom_value),
      (10, 2, 0), (12, 4, 0), (16, 4, n), (20, 4, 192), (24, 4, 0), (28, 4, 0), (32, 4, 0),
      (36, 4, 1), (40, 4, 0), (44, 4, 0), (48, 8, 0), (56, 4, unat (current_process_id os)), (60, 4, 0),
      (64, 8, unat (process_start_time os (current_process_id os))), (72, 4, 0), (76, 4, 0),
      (80, 8, 0), (88, 8, 0), (96, 8, 0), (104, 8, 0), (112, 8, 0), (120, 8, 0)] :: stores"
  let ?ms = "[(128, 4, SLOT_STRIDE), (132, 4, 0), (136, 4, ?start), (140, 4, cap), (144, 8, unat seed), (152, 8, 0)] :: stores"
  have b': "b' = wr_all (?hs @ ?ms) ?z"
    unfolding ok(5) wr_all_append memh_init_header_def memh_init_meta_def meta_offset_def MEMH_HEADER_SIZE_def by simp
  have lz: "length ?z = length b" using ok(4) by simp
  have asc: "ascending (?hs @ ?ms)" unfolding ascending_def by simp
  have inb: "\<forall>(off, m, v) \<in> set (?hs @ ?ms). off + m \<le> length ?z" unfolding lz using ok(4) by simp
  note R = rd_wr_all [OF asc inb, folded b']
  show "length b' = length b" using length_wr_all [OF inb] unfolding b' [symmetric] lz .
  have f: "rd 0 4 b' = MAGIC_MEMH mod 256 ^ 4" "rd 4 2 b' = VERSION_MEMH mod 256 ^ 2" "rd 6 2 b' = MEMH_HEADER_SIZE mod 256 ^ 2"
    "rd 8 2 b' = bom_value mod 256 ^ 2" "nb b' = n mod 256 ^ 4" "rd 20 4 b' = 192 mod 256 ^ 4" "bump b' = 0 mod 256 ^ 4"
    "rd 40 4 b' = 0 mod 256 ^ 4" "rd 44 4 b' = 0 mod 256 ^ 4" "rd 76 4 b' = 0 mod 256 ^ 4" "rd 128 4 b' = SLOT_STRIDE mod 256 ^ 4"
    "ast b' = ?start mod 256 ^ 4" "acap b' = cap mod 256 ^ 4"
    by (rule R, simp)+
  show "rd 0 4 b' = MAGIC_MEMH" "rd 4 2 b' = VERSION_MEMH" "rd 6 2 b' = MEMH_HEADER_SIZE" "rd 8 2 b' = bom_value"
    "nb b' = n mod 2 ^ 32" "rd 20 4 b' = 192" "bump b' = 0" "rd 40 4 b' = 0" "rd 44 4 b' = 0" "rd 76 4 b' = 0"
    "rd 128 4 b' = SLOT_STRIDE" "ast b' = ?start mod 2 ^ 32" "acap b' = cap mod 2 ^ 32"
    using f bom_small by (simp_all add: memh_consts)
  show "slot_word b' (so i) w = 0" if "i < n" "w < 4"
  proof -
    have e: "so i + w * 8 + 8 \<le> ?start" using block_end_le [OF that(1), of 32] that(2) by linarith
    have "bslice (so i + w * 8) 8 b' = bslice (so i + w * 8) 8 ?z"
      unfolding b' using inb that(2) by (intro slice_wr_all_other) auto
    also have "\<dots> = replicate 8 0"
      using e ok(4) by (simp add: bslice_def bsplice_def)
    finally have s: "bslice (so i + w * 8) 8 b' = replicate 8 0" .
    have "le_nat (replicate 8 0) = 0" by (simp add: numeral_eq_Suc)
    then show ?thesis by (simp add: slot_word_def rd_def s)
  qed
qed

lemma memh_init_rep:
  assumes "memh_init_buf os addr b n cap seed = Inr b'" "192 + n * 32 + cap < 2 ^ 32"
  shows "kv_rep xxh3 b' Map.empty" "writer_idle b'" "nb b' = n" "acap b' = cap" "bump b' = 0" "addr mod 8 = 0"
proof -
  note f = memh_init_fields [OF assms(1)]
  show "addr mod 8 = 0" by (rule f(1))
  show fields: "nb b' = n" "acap b' = cap" "bump b' = 0" using f(10,12,18) assms(2) by simp_all
  show "writer_idle b'" using f(13,15) by (simp add: writer_idle_def memh_header_def)
  have geom: "memh_geom b'"
    using f(2-9,11,16,17) assms(2) fields by (simp add: memh_geom_def is_power_of_two_def)
  let ?B = "replicate n (Free :: (byte list, Value) bucket)"
  have "even_gen (slot_word b' (so i) 2) \<and> bucket_rep h b' i (slot_at b' i) Free" if "i < n" for i h
    using f(19) [OF that] by (simp add: slot_at_def zero_slot)
  then have "slots_rep h b' ?B" for h using geom f(14) fields by (simp add: slots_rep_def)
  then show "kv_rep xxh3 b' Map.empty"
    using probe_inv_empty unfolding kv_rep_def memh_rep_def by blast
qed

text \<open>
  When the bucket array alone reaches \<open>4 GiB\<close>, \<open>arena_start\<close> does not fit its 32-bit field: the
  initialisation succeeds and the validator rejects its result.
\<close>

lemma memh_init_overflow:
  assumes "memh_init_buf os addr b n cap seed = Inr b'" "2 ^ 32 \<le> 192 + n * 32" "n < 2 ^ 32"
  shows "validate_memh os' spin addr b' = Some (Inl (MhInvalidLayout ''invalid arena_start''), b')"
proof -
  note f = memh_init_fields [OF assms(1)]
  have n: "nb b' = n" using f(10) assms(3) by simp
  have hd: "mh_data_offset (memh_header b') = 192" "num_buckets (memh_header b') = n" "arena_start (memh_meta b') = ast b'"
    using f(11) n by (simp_all add: memh_header_def memh_meta_def meta_offset_def memh_consts)
  have c: "do { slots \<leftarrow> checked_mul n SLOT_STRIDE; checked_add 192 slots } = Some (192 + n * 32)"
    using assms(3) by (simp add: checked_mul_def checked_add_def SLOT_STRIDE_def)
  have "ast b' < 2 ^ 32" using f(17) by simp
  then have ne: "ast b' \<noteq> 192 + n * 32" using assms(2) by linarith
  have l: "192 \<le> length b'" using f(4,5) by linarith
  show ?thesis
    unfolding validate_memh_def Let_def hd c
    using f(1-3,6-9,16) ne l
    by (simp add: memh_header_def memh_meta_def meta_offset_def is_power_of_two_def MEMH_HEADER_SIZE_def MEMH_META_SIZE_def MEMH_ALIGN_def)
qed

end
