(* ===== verification/Memh_Store.thy ===== *)
theory Memh_Store
  imports Memh_Map
begin

text \<open>
  Key-value stores as an interface: the laws of lookup, insertion and removal against a finite map,
  and the client lemma that any sequence of operations answers as the map would. The mutex-guarded
  MEMH writer (\<open>SharedMemhWriter\<close>) interprets it; compaction copies a map.
\<close>

section \<open>The interface\<close>

datatype ('k, 'v) kv_op = Put 'k 'v | Del 'k | Get 'k

datatype ('r, 'g) kv_reply = PutReply 'r | DelReply bool | GetReply "'g option"

text \<open>
  \<open>run_ops\<close> performs a sequence of operations, each in its own environment; \<open>kv_trace\<close> replays the
  replies on a map: a deletion must report whether the key was there, a lookup must return the
  value's view, an insertion takes effect exactly when its reply is an acceptance.
\<close>

fun run_ops ::
  "('e \<Rightarrow> 's \<Rightarrow> 'k \<Rightarrow> ('g option \<times> 's) option) \<Rightarrow> ('e \<Rightarrow> 's \<Rightarrow> 'k \<Rightarrow> 'v \<Rightarrow> ('r \<times> 's) option) \<Rightarrow>
   ('e \<Rightarrow> 's \<Rightarrow> 'k \<Rightarrow> (bool \<times> 's) option) \<Rightarrow> 's \<Rightarrow> ('e \<times> ('k, 'v) kv_op) list \<Rightarrow> (('r, 'g) kv_reply list \<times> 's) option" where
  "run_ops get put del s [] = Some ([], s)"
| "run_ops get put del s ((e, op1) # ops) = do {
     (reply, s) \<leftarrow> (case op1 of
        Put k v \<Rightarrow> map_option (\<lambda>(r, s). (PutReply r, s)) (put e s k v)
      | Del k \<Rightarrow> map_option (\<lambda>(d, s). (DelReply d, s)) (del e s k)
      | Get k \<Rightarrow> map_option (\<lambda>(g, s). (GetReply g, s)) (get e s k));
     (replies, s) \<leftarrow> run_ops get put del s ops;
     Some (reply # replies, s)
   }"

fun kv_trace ::
  "('r \<Rightarrow> bool) \<Rightarrow> ('v \<Rightarrow> 'g) \<Rightarrow> ('k \<Rightarrow> 'v option) \<Rightarrow> ('k, 'v) kv_op list \<Rightarrow> ('r, 'g) kv_reply list \<Rightarrow> ('k \<Rightarrow> 'v option) option" where
  "kv_trace accepted view m [] [] = Some m"
| "kv_trace accepted view m (Put k v # ops) (PutReply r # rs) =
    kv_trace accepted view (if accepted r then m(k \<mapsto> v) else m) ops rs"
| "kv_trace accepted view m (Del k # ops) (DelReply d # rs) =
    (if d = (m k \<noteq> None) then kv_trace accepted view (m(k := None)) ops rs else None)"
| "kv_trace accepted view m (Get k # ops) (GetReply g # rs) =
    (if g = map_option view (m k) then kv_trace accepted view m ops rs else None)"
| "kv_trace accepted view m _ _ = None"

fun op_ok :: "('k \<Rightarrow> 'v \<Rightarrow> bool) \<Rightarrow> ('k, 'v) kv_op \<Rightarrow> bool" where
  "op_ok ok (Put k v) = ok k v"
| "op_ok ok (Del k) = True"
| "op_ok ok (Get k) = True"

locale kv_store =
  fixes rep :: "'s \<Rightarrow> ('k \<Rightarrow> 'v option) \<Rightarrow> bool"
    and get :: "'e \<Rightarrow> 's \<Rightarrow> 'k \<Rightarrow> ('g option \<times> 's) option"
    and put :: "'e \<Rightarrow> 's \<Rightarrow> 'k \<Rightarrow> 'v \<Rightarrow> ('r \<times> 's) option"
    and del :: "'e \<Rightarrow> 's \<Rightarrow> 'k \<Rightarrow> (bool \<times> 's) option"
    and ok :: "'k \<Rightarrow> 'v \<Rightarrow> bool"
    and accepted :: "'r \<Rightarrow> bool"
    and view :: "'v \<Rightarrow> 'g"
  assumes get_law: "rep s m \<Longrightarrow> get e s k = Some (map_option view (m k), s)"
    and put_law: "rep s m \<Longrightarrow> ok k v \<Longrightarrow> \<exists>r s'. put e s k v = Some (r, s') \<and> rep s' (if accepted r then m(k \<mapsto> v) else m)"
    and del_law: "rep s m \<Longrightarrow> \<exists>s'. del e s k = Some (m k \<noteq> None, s') \<and> rep s' (m(k := None))"
begin

lemma get_after_put:
  assumes "rep s m" "ok k v" "put e s k v = Some (r, s')" "accepted r"
  shows "get e' s' k' = Some (if k' = k then Some (view v) else map_option view (m k'), s')"
proof -
  have "rep s' (m(k \<mapsto> v))" using put_law [OF assms(1,2), of e] assms(3,4) by auto
  from get_law [OF this] show ?thesis by simp
qed

lemma run_ops_trace:
  "rep s m \<Longrightarrow> \<forall>(e, op1) \<in> set ops. op_ok ok op1 \<Longrightarrow>
    \<exists>rs s' m'. run_ops get put del s ops = Some (rs, s') \<and> kv_trace accepted view m (map snd ops) rs = Some m' \<and> rep s' m'"
proof (induction ops arbitrary: s m)
  case (Cons x ops)
  obtain e op1 where x: "x = (e, op1)" by (cases x)
  have rest: "\<forall>(e, op1) \<in> set ops. op_ok ok op1" using Cons.prems(2) by simp
  show ?case
  proof (cases op1)
    case (Put k v)
    then obtain r s1 where p: "put e s k v = Some (r, s1)" "rep s1 (if accepted r then m(k \<mapsto> v) else m)"
      using put_law [OF Cons.prems(1), of k v e] Cons.prems(2) x by auto
    from Cons.IH [OF p(2) rest] obtain rs s' m' where i: "run_ops get put del s1 ops = Some (rs, s')"
      "kv_trace accepted view (if accepted r then m(k \<mapsto> v) else m) (map snd ops) rs = Some m'" "rep s' m'" by blast
    show ?thesis using p(1) x Put i by (intro exI [of _ "PutReply r # rs"] exI [of _ s'] exI [of _ m']) simp
  next
    case (Del k)
    obtain s1 where p: "del e s k = Some (m k \<noteq> None, s1)" "rep s1 (m(k := None))"
      using del_law [OF Cons.prems(1), of e k] by blast
    from Cons.IH [OF p(2) rest] obtain rs s' m' where i: "run_ops get put del s1 ops = Some (rs, s')"
      "kv_trace accepted view (m(k := None)) (map snd ops) rs = Some m'" "rep s' m'" by blast
    show ?thesis using p(1) x Del i by (intro exI [of _ "DelReply (m k \<noteq> None) # rs"] exI [of _ s'] exI [of _ m']) simp
  next
    case (Get k)
    from Cons.IH [OF Cons.prems(1) rest] obtain rs s' m' where i: "run_ops get put del s ops = Some (rs, s')"
      "kv_trace accepted view m (map snd ops) rs = Some m'" "rep s' m'" by blast
    show ?thesis using get_law [OF Cons.prems(1), of e k] x Get i
      by (intro exI [of _ "GetReply (map_option view (m k)) # rs"] exI [of _ s'] exI [of _ m']) simp
  qed
qed simp

end

section \<open>The mutex-guarded table\<close>

definition kv_idle :: "(u64 \<Rightarrow> byte list \<Rightarrow> u64) \<Rightarrow> buf \<Rightarrow> (byte list \<Rightarrow> Value option) \<Rightarrow> bool" where
  "kv_idle xxh3 b m \<longleftrightarrow> kv_rep xxh3 b m \<and> writer_idle b"

definition entry_ok :: "byte list \<Rightarrow> Value \<Rightarrow> bool" where
  "entry_ok key v \<longleftrightarrow> key_ok key \<and> storable v"

definition insert_ok :: "InsertError + InsertResult \<Rightarrow> bool" where
  "insert_ok r = (case r of Inl _ \<Rightarrow> False | Inr _ \<Rightarrow> True)"

text \<open>
  A lookup through \<open>with_view\<close>: the view is validated first. The environment of an operation is the
  operating system it runs under and the address of the buffer, which is aligned.
\<close>

definition shared_get ::
  "(u64 \<Rightarrow> byte list \<Rightarrow> u64) \<Rightarrow> nat \<Rightarrow> os \<times> nat \<Rightarrow> buf \<Rightarrow> byte list \<Rightarrow> (TypedValue option \<times> buf) option" where
  "shared_get xxh3 spin e b key =
    (case shared_with_view (fst e) spin (8 * snd e) b (\<lambda>v b. memh_get xxh3 (fst e) spin v b key) of
       Some (Inr g, b) \<Rightarrow> Some (g, b)
     | _ \<Rightarrow> None)"

lemma shared_get_rep:
  assumes "kv_rep xxh3 b m" "0 < spin"
  shows "shared_get xxh3 spin e b key = Some (map_option typed_of (m key), b)"
proof -
  obtain B where B: "slots_rep (table_hash xxh3 b) b B" using kv_repE [OF assms(1)] by metis
  have "validate_memh (fst e) spin (8 * snd e) b = Some (Inr (), b)" by (rule validate_memh_rep [OF B assms(2)]) simp
  then show ?thesis using kv_get [OF assms]
    by (simp add: shared_get_def shared_with_view_def view_new_def)
qed

lemma shared_insert_rep:
  assumes "kv_idle xxh3 b m" "entry_ok key v" "0 < spin"
  shows "\<exists>r b' m'. shared_insert xxh3 os spin b key v = Some (r, b') \<and> kv_idle xxh3 b' m' \<and> same_base b b' \<and>
    insert_outcome r True key v b m m'"
  using memh_insert_map [of xxh3 b m key v spin os] assms writer_idle_available [of b os]
  by (fastforce simp: kv_idle_def entry_ok_def shared_insert_def)

lemma insert_outcome_map:
  "insert_outcome r av key v b m m' \<Longrightarrow> m' = (if insert_ok r then m(key \<mapsto> v) else m)"
  by (cases "(r, av, key, v, b, m, m')" rule: insert_outcome.cases) (auto simp: insert_ok_def)

lemma shared_remove_rep:
  assumes "kv_idle xxh3 b m" "0 < spin"
  shows "\<exists>b'. shared_remove xxh3 os spin b key = Some (m key \<noteq> None, b') \<and> kv_idle xxh3 b' (m(key := None))"
  using memh_remove_map [of xxh3 b m spin os key] assms writer_idle_available [of b os]
  by (fastforce simp: kv_idle_def shared_remove_def)

interpretation memh_store: kv_store "kv_idle xxh3" "shared_get xxh3 (Suc spin)"
  "\<lambda>e. shared_insert xxh3 (fst e) (Suc spin)" "\<lambda>e. shared_remove xxh3 (fst e) (Suc spin)" entry_ok insert_ok typed_of
  for xxh3 spin
proof unfold_locales
  fix s m and e :: "os \<times> nat" and k
  assume r: "kv_idle xxh3 s m"
  then show "shared_get xxh3 (Suc spin) e s k = Some (map_option typed_of (m k), s)"
    by (intro shared_get_rep) (simp_all add: kv_idle_def)
  show "\<exists>s'. shared_remove xxh3 (fst e) (Suc spin) s k = Some (m k \<noteq> None, s') \<and> kv_idle xxh3 s' (m(k := None))"
    by (rule shared_remove_rep [OF r]) simp
  fix v assume "entry_ok k v"
  from shared_insert_rep [OF r this, of "Suc spin" "fst e"]
  show "\<exists>r s'. shared_insert xxh3 (fst e) (Suc spin) s k v = Some (r, s') \<and>
      kv_idle xxh3 s' (if insert_ok r then m(k \<mapsto> v) else m)"
    using insert_outcome_map by fastforce
qed

section \<open>Compaction\<close>

lemma map_of_rev_distinct: "distinct (map fst xs) \<Longrightarrow> map_of (rev xs) = map_of xs"
proof (induction xs)
  case (Cons x xs)
  have "map_of xs (fst x) = None" using Cons.prems by (simp add: map_of_eq_None_iff)
  then show ?case using Cons by (auto simp: map_add_def fun_eq_iff split: option.splits)
qed simp

lemma live_pairs_ok:
  assumes "slots_rep h b B" "(k, v) \<in> set (live_pairs B)"
  shows "entry_ok k v"
proof -
  from assms(2) obtain i where "i < length B" "B ! i = Live k v" by (auto simp: set_live_pairs)
  then have "bucket_rep h b i (slot_at b i) (Live k v)" using slots_repD(3,5) [OF assms(1)] by metis
  then show ?thesis by (simp add: entry_ok_def)
qed

lemma memh_insert_idle:
  assumes "kv_idle xxh3 b m" "entry_ok key v" "0 < spin"
  shows "\<exists>r b'. memh_insert xxh3 os spin (memh_writer_unchecked b) key v = Some (r, memh_writer_unchecked b') \<and>
    kv_idle xxh3 b' (if insert_ok r then m(key \<mapsto> v) else m)"
proof -
  have a: "kv_rep xxh3 b m" "key_ok key" "storable v" "writer_available os b"
    using assms writer_idle_available by (auto simp: kv_idle_def entry_ok_def)
  from memh_insert_map [OF a(1-3) assms(3), of os] a(4) obtain r b' m' where
    "memh_insert xxh3 os spin (memh_writer_unchecked b) key v = Some (r, memh_writer_unchecked b')"
    "kv_rep xxh3 b' m'" "insert_outcome r True key v b m m'" "writer_idle b'" by auto
  then show ?thesis using insert_outcome_map [of r True key v b m m'] by (auto simp: kv_idle_def)
qed

lemma insert_entries_rep:
  assumes "0 < spin"
  shows "kv_idle xxh3 b m \<Longrightarrow> \<forall>(k, v) \<in> set ps. entry_ok k v \<Longrightarrow>
    \<exists>r b' m'. insert_entries xxh3 os spin (map (\<lambda>(k, v). (k, typed_of v)) ps) c (memh_writer_unchecked b) =
        Some (r, memh_writer_unchecked b') \<and> kv_idle xxh3 b' m' \<and>
      (r = Inl ArenaTooSmall \<or> r = Inr (c + length ps) \<and> m' = m ++ map_of (rev ps))"
proof (induction ps arbitrary: b m c)
  case Nil
  then show ?case by (intro exI [of _ "Inr c"] exI [of _ b] exI [of _ m]) simp
next
  case (Cons p ps)
  obtain k v where p: "p = (k, v)" by (cases p)
  have ek: "entry_ok k v" and rest: "\<forall>(k, v) \<in> set ps. entry_ok k v" using Cons.prems(2) p by auto
  from memh_insert_idle [OF Cons.prems(1) ek assms, of os] obtain r b1 where i:
    "memh_insert xxh3 os spin (memh_writer_unchecked b) k v = Some (r, memh_writer_unchecked b1)"
    "kv_idle xxh3 b1 (if insert_ok r then m(k \<mapsto> v) else m)" by blast
  show ?case
  proof (cases r)
    case (Inl e)
    then show ?thesis using i p
      by (intro exI [of _ "Inl ArenaTooSmall"] exI [of _ b1] exI [of _ m]) (simp add: insert_ok_def)
  next
    case (Inr q)
    then have b1: "kv_idle xxh3 b1 (m(k \<mapsto> v))" using i(2) by (simp add: insert_ok_def)
    from Cons.IH [OF b1 rest, of "c + 1"] obtain r' b' m' where j:
      "insert_entries xxh3 os spin (map (\<lambda>(k, v). (k, typed_of v)) ps) (c + 1) (memh_writer_unchecked b1) = Some (r', memh_writer_unchecked b')"
      "kv_idle xxh3 b' m'" "r' = Inl ArenaTooSmall \<or> r' = Inr (c + 1 + length ps) \<and> m' = m(k \<mapsto> v) ++ map_of (rev ps)" by blast
    show ?thesis using i(1) j p Inr
      by (intro exI [of _ r'] exI [of _ b'] exI [of _ m']) auto
  qed
qed

lemma compact_rep:
  assumes "kv_rep xxh3 src m" "0 < spin" "src_addr mod 8 = 0" "192 + n * 32 + cap < 2 ^ 32"
  shows "case memh_init_buf os dst_addr dst n cap seed of
      Inl e \<Rightarrow> compact xxh3 os spin src_addr dst_addr src dst n cap seed = Some (Inl e, src, dst)
    | Inr _ \<Rightarrow> \<exists>r dst' m'. compact xxh3 os spin src_addr dst_addr src dst n cap seed = Some (r, src, dst') \<and>
        kv_idle xxh3 dst' m' \<and> (r = Inl ArenaTooSmall \<or> r = Inr (card (dom m)) \<and> m' = m)"
proof (cases "memh_init_buf os dst_addr dst n cap seed")
  case (Inl e)
  then show ?thesis by (simp add: compact_def)
next
  case (Inr d0)
  obtain B where B: "slots_rep (table_hash xxh3 src) src B" "probe_inv (home_of (table_hash xxh3 src) (length B)) B"
    "bucket_map B = m" "card (dom m) = length (live_pairs B)" using kv_repE [OF assms(1)] by metis
  have v: "view_new os spin src_addr src = Some (Inr (view_of src), src)"
    using validate_memh_rep [OF B(1) assms(2,3), of os] by (simp add: view_new_def)
  note d = memh_init_rep [OF Inr assms(4)]
  obtain D where D: "slots_rep (table_hash xxh3 d0) d0 D" using kv_repE [OF d(1)] by metis
  have w: "memh_writer_new os spin dst_addr d0 = Some (Inr (memh_writer_unchecked d0), d0)"
    using validate_memh_rep [OF D assms(2) d(6), of os] by (simp add: memh_writer_new_def)
  note it = memh_iter_rep [OF B(1) assms(2), of os]
  have idle: "kv_idle xxh3 d0 Map.empty" using d(1,2) by (simp add: kv_idle_def)
  have ok: "\<forall>(k, v) \<in> set (live_pairs B). entry_ok k v" using live_pairs_ok [OF B(1)] by blast
  from insert_entries_rep [OF assms(2) idle ok, of os 0] obtain r b' m' where e:
    "insert_entries xxh3 os spin (map (\<lambda>(k, v). (k, typed_of v)) (live_pairs B)) 0 (memh_writer_unchecked d0) = Some (r, memh_writer_unchecked b')"
    "kv_idle xxh3 b' m'" "r = Inl ArenaTooSmall \<or> r = Inr (0 + length (live_pairs B)) \<and> m' = Map.empty ++ map_of (rev (live_pairs B))" by blast
  have "map_of (rev (live_pairs B)) = m"
    using B(3) map_of_rev_distinct [OF keys_once_distinct [OF probe_invD(1) [OF B(2)]]] by (simp add: bucket_map_pairs)
  then have "r = Inl ArenaTooSmall \<or> r = Inr (card (dom m)) \<and> m' = m" using e(3) B(4) by simp
  moreover have "compact xxh3 os spin src_addr dst_addr src dst n cap seed = Some (r, src, b')"
    using Inr v w it e(1) by (simp add: compact_def)
  ultimately show ?thesis using Inr e(2) by auto
qed

end
