(* ===== verification/Memh_Recovery.thy ===== *)
theory Memh_Recovery
  imports Memh_Map
begin

text \<open>
  A writer that dies inside a slot transaction. Whatever the number of stores it made, the next
  \<open>acquire_writer\<close> succeeds and finds a table that represents the buckets before the transaction or
  after it, and a reader spinning on the slot gets the old or the new slot, after at most 66
  iterations of its loop.
\<close>

section \<open>Disjoint stores commute\<close>

lemma wr_commute:
  assumes "o1 + n1 \<le> length b" "o2 + n2 \<le> length b" "o1 + n1 \<le> o2 \<or> o2 + n2 \<le> o1"
  shows "wr o1 n1 v1 (wr o2 n2 v2 b) = wr o2 n2 v2 (wr o1 n1 v1 b)"
proof (rule nth_equalityI)
  show "length (wr o1 n1 v1 (wr o2 n2 v2 b)) = length (wr o2 n2 v2 (wr o1 n1 v1 b))" using assms by simp
  fix i assume "i < length (wr o1 n1 v1 (wr o2 n2 v2 b))"
  then have i: "i < length b" using assms by simp
  have l: "length (bsplice o1 (le_bytes n1 v1) b) = length b" "length (bsplice o2 (le_bytes n2 v2) b) = length b"
    using assms by simp_all
  show "wr o1 n1 v1 (wr o2 n2 v2 b) ! i = wr o2 n2 v2 (wr o1 n1 v1 b) ! i"
    using assms i l by (auto simp: wr_def nth_splice)
qed

definition apart :: "usize \<times> nat \<times> nat \<Rightarrow> usize \<times> nat \<times> nat \<Rightarrow> bool" where
  "apart s t = (case (s, t) of ((o1, n1, v1), (o2, n2, v2)) \<Rightarrow> o1 + n1 \<le> o2 \<or> o2 + n2 \<le> o1)"

lemma wr_wr_all_commute:
  assumes "off + n \<le> length b" "\<forall>t \<in> set ts. apart (off, n, v) t" "\<forall>(o2, m, u) \<in> set ts. o2 + m \<le> length b"
  shows "wr off n v (wr_all ts b) = wr_all ts (wr off n v b)"
  using assms
proof (induction ts arbitrary: b)
  case (Cons t ts)
  obtain o2 m u where t: "t = (o2, m, u)" by (cases t)
  have in2: "o2 + m \<le> length b" "off + n \<le> o2 \<or> o2 + m \<le> off" using Cons.prems t by (auto simp: apart_def)
  have "wr off n v (wr_all ts (wr o2 m u b)) = wr_all ts (wr off n v (wr o2 m u b))"
    using Cons.prems t in2 by (intro Cons.IH) auto
  also have "wr off n v (wr o2 m u b) = wr o2 m u (wr off n v b)" using Cons.prems(1) in2 by (rule wr_commute)
  finally show ?case by (simp add: t wr_all_Cons)
qed simp

lemma wr_all_commute:
  assumes "\<forall>(o1, n, v) \<in> set ss. o1 + n \<le> length b" "\<forall>(o2, m, u) \<in> set ts. o2 + m \<le> length b"
    and "\<forall>s \<in> set ss. \<forall>t \<in> set ts. apart s t"
  shows "wr_all ss (wr_all ts b) = wr_all ts (wr_all ss b)"
  using assms
proof (induction ss arbitrary: b)
  case (Cons s ss)
  obtain o1 n v where s: "s = (o1, n, v)" by (cases s)
  have l: "o1 + n \<le> length b" "length (wr o1 n v b) = length b" using Cons.prems(1) s by auto
  have "wr o1 n v (wr_all ts b) = wr_all ts (wr o1 n v b)"
    using Cons.prems s l(1) by (intro wr_wr_all_commute) auto
  moreover have "wr_all ss (wr_all ts (wr o1 n v b)) = wr_all ts (wr_all ss (wr o1 n v b))"
    using Cons.prems l(2) by (intro Cons.IH) auto
  ultimately show ?case by (simp add: s wr_all_Cons)
qed simp

lemma owner_tx_apart:
  assumes "128 \<le> o1" "owner_store s" "tx_field o1 t"
  shows "apart s t"
  using assms by (cases s; cases t) (auto simp: owner_store_def tx_field_def apart_def)

section \<open>What recovery leaves represents a table\<close>

lemma recovered_rep:
  assumes "slots_rep h b B" "i < nb b" "recovered b (so i) f (True, b')"
    and "bucket_rep h b i (slot_fields (f 0) (f 1) (f 2) (f 3)) x" "even_gen (f 2)"
  shows "slots_rep h b' (B[i := x])" "same_base b b'" "slot_at b' i = slot_fields (f 0) (f 1) (f 2) (f 3)"
proof -
  note r = slots_repD [OF assms(1)]
  note g = geomD [OF r(1)] and si = slot_in_geom [OF r(1) assms(2)]
  from assms(3) have q: "length b' = length b" "rd 44 4 b' = 0" "\<And>w. w < 4 \<Longrightarrow> slot_word b' (so i) w = f w"
    and o: "\<And>off n. off + n \<le> 44 \<or> 48 \<le> off \<and> off + n \<le> 72 \<or> 76 \<le> off \<and> off + n \<le> 80 \<or>
        112 \<le> off \<and> off + n \<le> so i \<or> so i + 32 \<le> off \<Longrightarrow> bslice off n b' = bslice off n b"
    by (auto simp: recovered_def)
  show sb: "same_base b b'" using o [of 0 32] o [of 128 64] q(1) by (simp add: same_base_def)
  have bp: "bump b' = bump b" by (rule rd_cong, rule o) simp
  have gm: "memh_geom b'" by (rule same_base_geom [OF sb r(1)]) (simp add: bp g(7))
  have n: "nb b' = nb b" by (rule same_base_rd(1) [OF sb]) simp
  have ar: "bslice (ast b) (bump b) b' = bslice (ast b) (bump b) b" using si(3) by (intro o) simp
  have wj: "slot_word b' (so j) w = slot_word b (so j) w" if "j \<noteq> i" "w < 4" for j w
  proof (rule slot_word_cong, rule o)
    show "so j + w * 8 + 8 \<le> 44 \<or> 48 \<le> so j + w * 8 \<and> so j + w * 8 + 8 \<le> 72 \<or> 76 \<le> so j + w * 8 \<and> so j + w * 8 + 8 \<le> 80 \<or>
      112 \<le> so j + w * 8 \<and> so j + w * 8 + 8 \<le> so i \<or> so i + 32 \<le> so j + w * 8"
      using block_disjoint [OF that(1), of 32] that(2) by linarith
  qed
  show sl: "slot_at b' i = slot_fields (f 0) (f 1) (f 2) (f 3)" using q(3) by (simp add: slot_at_def)
  have "even_gen (slot_word b' (so j) 2) \<and> bucket_rep h b' j (slot_at b' j) (B[i := x] ! j)" if "j < nb b" for j
  proof (cases "j = i")
    case True
    have "bucket_rep h b' i (slot_at b' i) x" using bucket_rep_mono [OF sb assms(4) _ ar] bp sl by simp
    then show ?thesis using True q(3) assms(2,5) r(3) by simp
  next
    case False
    have "slot_at b' j = slot_at b j" using wj [OF False] by (simp add: slot_at_def)
    then show ?thesis
      using bucket_rep_mono [OF sb r(5) [OF that] _ ar] bp wj [OF False, of 2] r(4) [OF that] False by simp
  qed
  then show "slots_rep h b' (B[i := x])" using gm n r(3) q(2) by (simp add: slots_rep_def)
qed

section \<open>The next owner repairs the slot\<close>

text \<open>The buffer a writer leaves that dies after \<open>k\<close> stores of a transaction on slot \<open>i\<close>.\<close>

definition crashed :: "buf \<Rightarrow> usize \<Rightarrow> (nat \<times> u64) list \<Rightarrow> u32 \<Rightarrow> nat \<Rightarrow> buf" where
  "crashed b i ws head k = wr_all (take k (slot_tx b (so i) ws head)) b"

definition new_slot :: "buf \<Rightarrow> usize \<Rightarrow> (nat \<times> u64) list \<Rightarrow> u32 \<Rightarrow> Slot" where
  "new_slot b i ws head = slot_fields (tx_word b (so i) ws head 0) (tx_word b (so i) ws head 1)
     (tx_word b (so i) ws head 2) (tx_word b (so i) ws head 3)"

lemma slot_tx_cong:
  assumes "\<And>w. w < 4 \<Longrightarrow> slot_word b' o1 w = slot_word b o1 w"
  shows "slot_tx b' o1 ws head = slot_tx b o1 ws head" "w < 4 \<Longrightarrow> tx_word b' o1 ws head w = tx_word b o1 ws head w"
  using assms by (simp_all add: slot_tx_parts tx_journal_def tx_open_def tx_close_def tx_odd_def tx_even_def tx_word_def split: option.splits)

lemma crashed_owner:
  assumes "slots_rep h b B" "i < nb b" "body_ok ws" "\<forall>st \<in> set ss. owner_store st"
  shows "wr_all ss (crashed b i ws head k) = crashed (wr_all ss b) i ws head k"
    "w < 4 \<Longrightarrow> slot_word (wr_all ss b) (so i) w = slot_word b (so i) w"
    "new_slot (wr_all ss b) i ws head = new_slot b i ws head"
proof -
  note si = slot_in_geom(2) [OF slots_repD(1) [OF assms(1)] assms(2)]
  have l: "192 \<le> length b" using si by (simp add: slot_in_def)
  have f: "\<forall>t \<in> set (take k (slot_tx b (so i) ws head)). tx_field (so i) t"
    using tx_fields [OF assms(3)] by (meson in_set_takeD)
  have w: "slot_word (wr_all ss b) (so i) w = slot_word b (so i) w" if "w < 4" for w
  proof (rule slot_word_cong, rule slice_wr_all_other, clarify)
    fix a n v assume "(a, n, v) \<in> set ss"
    then have "(a, n) \<in> {(40, 4), (48, 8), (76, 4)}" using assms(4) by (auto simp: owner_store_def)
    then show "a + n \<le> length b \<and> (so i + w * 8 + 8 \<le> a \<or> a + n \<le> so i + w * 8)" using l by auto
  qed
  then show "w < 4 \<Longrightarrow> slot_word (wr_all ss b) (so i) w = slot_word b (so i) w" .
  show "new_slot (wr_all ss b) i ws head = new_slot b i ws head"
    using slot_tx_cong(2) [OF w] by (simp add: new_slot_def)
  have "wr_all ss (wr_all (take k (slot_tx b (so i) ws head)) b) = wr_all (take k (slot_tx b (so i) ws head)) (wr_all ss b)"
  proof (rule wr_all_commute)
    show "\<forall>(a, n, v) \<in> set ss. a + n \<le> length b" using assms(4) l by (auto simp: owner_store_def)
    show "\<forall>(a, n, v) \<in> set (take k (slot_tx b (so i) ws head)). a + n \<le> length b"
      using f si by (fastforce simp: tx_field_def slot_in_def)
    show "\<forall>s \<in> set ss. \<forall>t \<in> set (take k (slot_tx b (so i) ws head)). apart s t"
      using owner_tx_apart [of "so i"] f assms(4) by simp
  qed
  then show "wr_all ss (crashed b i ws head k) = crashed (wr_all ss b) i ws head k"
    using slot_tx_cong(1) [OF w] by (simp add: crashed_def)
qed

lemma crashed_header:
  assumes "slots_rep h b B" "i < nb b" "body_ok ws"
  shows "writer_claim (memh_header (crashed b i ws head k)) = writer_claim (memh_header b)"
    "writer_pid (memh_header (crashed b i ws head k)) = writer_pid (memh_header b)"
    "writer_start_time (memh_header (crashed b i ws head k)) = writer_start_time (memh_header b)"
proof -
  note si = slot_in_geom(2) [OF slots_repD(1) [OF assms(1)] assms(2)]
  have f: "\<forall>t \<in> set (take k (slot_tx b (so i) ws head)). tx_field (so i) t"
    using tx_fields [OF assms(3)] by (meson in_set_takeD)
  note o = tx_slice_other(1) [OF si f, folded crashed_def]
  have "rd 76 4 (crashed b i ws head k) = rd 76 4 b" "rd 40 4 (crashed b i ws head k) = rd 40 4 b"
    "rd 48 8 (crashed b i ws head k) = rd 48 8 b" by (rule rd_cong, rule o, simp)+
  then show "writer_claim (memh_header (crashed b i ws head k)) = writer_claim (memh_header b)"
    "writer_pid (memh_header (crashed b i ws head k)) = writer_pid (memh_header b)"
    "writer_start_time (memh_header (crashed b i ws head k)) = writer_start_time (memh_header b)"
    by (simp_all add: memh_header_def)
qed

text \<open>Recovery of a crashed buffer, with the owner fields rewritten by the new owner.\<close>

lemma recover_crashed:
  assumes "slots_rep h b B" "i < nb b" "body_ok ws" "bucket_rep h b i (new_slot b i ws head) x"
    and "\<forall>st \<in> set ss. owner_store st"
  shows "\<exists>b'. recover_slot_journal (wr_all ss (crashed b i ws head k)) = (True, b') \<and>
    slots_rep h b' (if k < 8 + length ws then B else B[i := x]) \<and> same_base b b' \<and>
    slot_at b' i = (if k < 8 + length ws then slot_at b i else new_slot b i ws head)"
proof -
  let ?c = "wr_all ss b"
  note os = owner_stores [OF assms(1,5)] and co = crashed_owner [OF assms(1-3,5)]
  note r = slots_repD [OF os(1)]
  have n: "nb ?c = nb b" by (rule same_base_rd(1) [OF os(2)]) simp
  note ic = assms(2) [folded n]
  let ?f = "if k < 8 + length ws then slot_word ?c (so i) else tx_word ?c (so i) ws head"
  have rec: "recovered ?c (so i) ?f (recover_slot_journal (crashed ?c i ws head k))"
    unfolding crashed_def by (rule slot_tx_crash_atomic [OF slot_in_geom(1) [OF r(1) ic] assms(3) r(4) [OF ic] r(2)])
  then obtain b' where b': "recover_slot_journal (crashed ?c i ws head k) = (True, b')" by (auto simp: recovered_def)
  have sa: "slot_at ?c i = slot_at b i" using co(2) by (simp add: slot_at_def)
  have bx: "bucket_rep h ?c i (new_slot ?c i ws head) x"
    using bucket_rep_mono [OF os(2) assms(4)] os(3) co(3) os(6) [of "ast b" "bump b"]
      geomD(4) [OF slots_repD(1) [OF assms(1)]] by simp
  show ?thesis
  proof (cases "k < 8 + length ws")
    case True
    have "slots_rep h b' (B[i := B ! i])" "same_base ?c b'" "slot_at b' i = slot_at ?c i"
      using recovered_rep [OF os(1) ic, of "slot_word ?c (so i)" b' "B ! i"] rec b' r(4,5) [OF ic] True
      by (simp_all add: slot_at_def)
    then show ?thesis using True b' co(1) sa same_base_trans [OF os(2)] by auto
  next
    case False
    have "slots_rep h b' (B[i := x])" "same_base ?c b'" "slot_at b' i = new_slot ?c i ws head"
      using recovered_rep [OF os(1) ic, of "tx_word ?c (so i) ws head" b' x] rec b' False bx
      by (simp_all add: new_slot_def)
    then show ?thesis using False b' co(1,3) same_base_trans [OF os(2)] by auto
  qed
qed

lemma acquire_crashed_unclaimed:
  assumes "slots_rep h b B" "i < nb b" "body_ok ws" "bucket_rep h b i (new_slot b i ws head) x"
    and "writer_available os b" "writer_claim (memh_header b) = 0"
  shows "\<exists>b'. acquire_loop os (Suc n) (crashed b i ws head k) = (True, b') \<and>
    slots_rep h b' (if k < 8 + length ws then B else B[i := x]) \<and> same_base b b' \<and>
    slot_at b' i = (if k < 8 + length ws then slot_at b i else new_slot b i ws head)"
proof -
  let ?c = "crashed b i ws head k"
  let ?pid = "unat (current_process_id os)"
  let ?ss = "[(76, 4, ?pid), (48, 8, unat (process_start_time os (current_process_id os))), (40, 4, ?pid), (76, 4, 0)]"
  have o: "\<forall>st \<in> set [(76, 4, ?pid)]. owner_store st" "\<forall>st \<in> set ?ss. owner_store st" by (simp_all add: owner_store_def)
  note hc = crashed_header [OF assms(1-3), where head = head and k = k]
  have c: "cas32 76 0 (current_process_id os) ?c = (True, wr_all [(76, 4, ?pid)] ?c)"
    using assms(6) hc(1) by (simp add: cas32_def memh_header_def wr_all_Cons)
  have "wr_all [(76, 4, ?pid)] ?c = crashed (wr_all [(76, 4, ?pid)] b) i ws head k" by (rule crashed_owner(1) [OF assms(1-3) o(1)])
  moreover note os1 = owner_stores [OF assms(1) o(1)]
  have "nb (wr_all [(76, 4, ?pid)] b) = nb b" by (rule same_base_rd(1) [OF os1(2)]) simp
  then have i1: "i < nb (wr_all [(76, 4, ?pid)] b)" using assms(2) by simp
  note h1 = crashed_header(2,3) [OF os1(1) i1 assms(3), where head = head and k = k]
  have "rd 40 4 (wr_all [(76, 4, ?pid)] b) = rd 40 4 b" "rd 48 8 (wr_all [(76, 4, ?pid)] b) = rd 48 8 b"
    using os1(5) by (simp_all add: last_store_Cons)
  then have "writer_pid (memh_header (wr_all [(76, 4, ?pid)] b)) = writer_pid (memh_header b)"
    "writer_start_time (memh_header (wr_all [(76, 4, ?pid)] b)) = writer_start_time (memh_header b)"
    by (simp_all add: memh_header_def)
  ultimately have h: "writer_pid (memh_header (wr_all [(76, 4, ?pid)] ?c)) = writer_pid (memh_header b)"
    "writer_start_time (memh_header (wr_all [(76, 4, ?pid)] ?c)) = writer_start_time (memh_header b)"
    using h1 by (simp_all only:)
  have w: "wr 76 4 0 (wr 40 4 ?pid (wr 48 8 (unat (process_start_time os (current_process_id os))) (wr_all [(76, 4, ?pid)] ?c))) = wr_all ?ss ?c"
    by (simp add: wr_all_Cons)
  from recover_crashed [OF assms(1-4) o(2), of k] obtain b' where r:
    "recover_slot_journal (wr_all ?ss ?c) = (True, b')" "slots_rep h b' (if k < 8 + length ws then B else B[i := x])"
    "same_base b b'" "slot_at b' i = (if k < 8 + length ws then slot_at b i else new_slot b i ws head)" by blast
  have av: "writer_pid (memh_header b) = 0 \<or> \<not> process_instance_alive os (writer_pid (memh_header b)) (writer_start_time (memh_header b))"
    using assms(5) by (simp add: writer_available_def)
  have "acquire_loop os (Suc n) ?c = (True, b')"
    unfolding acquire_loop.simps Let_def c hc(1) assms(6) h w r(1) prod.case bool.case using av by simp
  then show ?thesis using r(2-4) by blast
qed

lemma acquire_crashed:
  assumes "slots_rep h b B" "i < nb b" "body_ok ws" "bucket_rep h b i (new_slot b i ws head) x" "writer_available os b"
  shows "\<exists>b'. acquire_writer os (crashed b i ws head k) = (True, b') \<and>
    slots_rep h b' (if k < 8 + length ws then B else B[i := x]) \<and> same_base b b' \<and>
    slot_at b' i = (if k < 8 + length ws then slot_at b i else new_slot b i ws head)"
proof -
  have s64: "64 = Suc (Suc 62)" by simp
  show ?thesis
  proof (cases "writer_claim (memh_header b) = 0")
    case True
    then show ?thesis unfolding acquire_writer_def s64 by (rule acquire_crashed_unclaimed [OF assms])
  next
    case False
    let ?c = "crashed b i ws head k" and ?b1 = "wr_all [(76, 4, 0)] b"
    have o: "\<forall>st \<in> set [(76, 4, 0)]. owner_store st" by (simp add: owner_store_def)
    note os1 = owner_stores [OF assms(1) o] and co = crashed_owner [OF assms(1-3) o]
    have dead: "\<not> process_exists os (writer_claim (memh_header b))" using assms(5) False by (simp add: writer_available_def)
    have "snd (cas32 76 (writer_claim (memh_header ?c)) 0 ?c) = wr_all [(76, 4, 0)] ?c"
      by (simp add: cas32_def memh_header_def wr_all_Cons)
    then have cs: "snd (cas32 76 (writer_claim (memh_header ?c)) 0 ?c) = crashed ?b1 i ws head k" by (simp only: co(1))
    have hd: "writer_claim (memh_header ?b1) = 0" "writer_pid (memh_header ?b1) = writer_pid (memh_header b)"
      "writer_start_time (memh_header ?b1) = writer_start_time (memh_header b)"
      using os1(5) by (simp_all add: memh_header_def last_store_Cons)
    have lp: "acquire_writer os ?c = acquire_loop os (Suc 62) (crashed ?b1 i ws head k)"
      unfolding acquire_writer_def s64 acquire_loop.simps(2) [of os "Suc 62"] Let_def cs
      using False dead crashed_header(1) [OF assms(1-3)] by simp
    have n: "i < nb ?b1" using assms(2) same_base_rd(1) [OF os1(2), of 16 4] by simp
    have bx: "bucket_rep h ?b1 i (new_slot ?b1 i ws head) x"
      using bucket_rep_mono [OF os1(2) assms(4)] os1(3) co(3) os1(6) [of "ast b" "bump b"]
        geomD(4) [OF slots_repD(1) [OF assms(1)]] by simp
    have av: "writer_available os ?b1" using assms(5) hd by (simp add: writer_available_def)
    have sa: "slot_at ?b1 i = slot_at b i" using co(2) by (simp add: slot_at_def)
    from acquire_crashed_unclaimed [OF os1(1) n assms(3) bx av hd(1), of 62 k]
    show ?thesis unfolding lp sa co(3) using same_base_trans [OF os1(2)] by blast
  qed
qed

section \<open>A reader meets the dead writer's slot\<close>

lemma crashed_even_slot:
  assumes "slots_rep h b B" "i < nb b" "body_ok ws" "even_gen (slot_word (crashed b i ws head k) (so i) 2)"
  shows "slot_at (crashed b i ws head k) i = (if k < 8 + length ws then slot_at b i else new_slot b i ws head)"
proof -
  note si = slot_in_geom(2) [OF slots_repD(1) [OF assms(1)] assms(2)]
  let ?tx = "slot_tx b (so i) ws head"
  have f: "\<forall>t \<in> set (take k ?tx). tx_field (so i) t" using tx_fields [OF assms(3)] by (meson in_set_takeD)
  have "k \<le> 6 \<or> (k = 7 + (k - 7) \<and> k - 7 \<le> length ws) \<or> 8 + length ws \<le> k" by linarith
  then consider "k \<le> 6" | j where "k = 7 + j" "j \<le> length ws" | "8 + length ws \<le> k" by blast
  then show ?thesis
  proof cases
    case 1
    then have t: "take k ?tx = take k (tx_journal b (so i))" by (simp add: slot_tx_parts)
    have "last_store (take k (tx_journal b (so i))) (so i + off) 8 = None" for off
      using si by (intro last_store_None) (auto simp: tx_journal_def slot_in_def dest!: in_set_takeD)
    then have "slot_word (crashed b i ws head k) (so i) w = slot_word b (so i) w" if "w < 4" for w
      using tx_slot_word [OF si f that] by (simp add: crashed_def t)
    then show ?thesis using 1 by (simp add: slot_at_def)
  next
    case (2 j)
    then have t: "take k ?tx = tx_journal b (so i) @ tx_open b (so i) # take j (tx_body (so i) ws)" by (simp add: slot_tx_parts)
    from tx_journal_reads(4) [OF si assms(3) t] assms(4) show ?thesis by (simp add: crashed_def even_gen_def)
  next
    case 3
    have "take k ?tx = tx_journal b (so i) @ tx_open b (so i) # tx_body (so i) ws @
        (if k = 8 + length ws then [tx_close b (so i) head] else [tx_close b (so i) head, (44, 4, 0)])"
      using 3 by (auto simp: slot_tx_parts take_Cons')
    then have "slot_word (crashed b i ws head k) (so i) w = tx_word b (so i) ws head w" if "w < 4" for w
      unfolding crashed_def using tx_done_word [OF si assms(3) that] by (simp split: if_splits)
    then show ?thesis using 3 by (simp add: slot_at_def new_slot_def)
  qed
qed

lemma read_slot_spins:
  assumes "\<not> even_gen (slot_word b o1 2)"
  shows "r + n \<le> 64 \<Longrightarrow> read_slot_loop os (n + m) r b o1 = read_slot_loop os m (r + n) b o1"
  using assms by (induction n arbitrary: r) (simp_all add: even_gen_def Let_def)

lemma read_slot_repairs:
  assumes "\<not> even_gen (slot_word b o1 2)" "acquire_writer os b = (True, b1)" "even_gen (slot_word (drop_write_guard b1) o1 2)" "66 \<le> spin"
  shows "read_slot_loop os spin 0 b o1 =
    Some (slot_fields (slot_word (drop_write_guard b1) o1 0) (slot_word (drop_write_guard b1) o1 1)
      (slot_word (drop_write_guard b1) o1 2) (slot_word (drop_write_guard b1) o1 3), drop_write_guard b1)"
proof -
  have "spin = 64 + Suc (Suc (spin - 66))" using assms(4) by linarith
  then obtain m where m: "spin = 64 + Suc (Suc m)" by blast
  have "read_slot_loop os spin 0 b o1 = read_slot_loop os (Suc (Suc m)) 64 b o1"
    using read_slot_spins [OF assms(1), of 0 64 os "Suc (Suc m)"] by (simp add: m)
  then show ?thesis using assms(1-3) by (simp add: Let_def even_gen_def)
qed

lemma reader_of_crashed:
  assumes "slots_rep h b B" "i < nb b" "body_ok ws" "bucket_rep h b i (new_slot b i ws head) x"
    and "writer_available os b" "66 \<le> spin"
  shows "\<exists>b'. read_slot os spin (crashed b i ws head k) 192 i =
    Some (if k < 8 + length ws then slot_at b i else new_slot b i ws head, b')"
proof (cases "even_gen (slot_word (crashed b i ws head k) (so i) 2)")
  case True
  obtain n where "spin = Suc n" using assms(6) by (cases spin) auto
  then show ?thesis using True crashed_even_slot [OF assms(1-3) True]
    by (simp add: read_slot_def Let_def even_gen_def slot_at_def)
next
  case False
  from acquire_crashed [OF assms(1-5), of k] obtain b1 where a:
    "acquire_writer os (crashed b i ws head k) = (True, b1)"
    "slots_rep h b1 (if k < 8 + length ws then B else B[i := x])" "same_base b b1"
    "slot_at b1 i = (if k < 8 + length ws then slot_at b i else new_slot b i ws head)" by blast
  let ?d = "drop_write_guard b1"
  have dd: "?d = wr_all [(48, 8, 0), (40, 4, 0)] b1" by (simp add: drop_write_guard_def wr_all_Cons)
  have o: "\<forall>st \<in> set [(48, 8, 0), (40, 4, 0)]. owner_store st" by (simp add: owner_store_def)
  have n: "i < nb b1" using assms(2) same_base_rd(1) [OF a(3), of 16 4] by simp
  have w: "slot_word ?d (so i) w = slot_word b1 (so i) w" for w
    unfolding dd by (rule slot_word_cong, rule owner_stores(6) [OF a(2) o]) simp
  have "even_gen (slot_word ?d (so i) 2)" using slots_repD(4) [OF a(2) n] w by simp
  from read_slot_repairs [OF False a(1) this assms(6)] show ?thesis
    using a(4) w by (simp add: read_slot_def slot_at_def)
qed

section \<open>The four mutators\<close>

datatype slot_op =
    Commit nat nat nat u64 nat "byte list" | CommitHead nat nat | UpdateInline nat "byte list" | Clear bool

fun slot_stores :: "buf \<Rightarrow> usize \<Rightarrow> slot_op \<Rightarrow> stores" where
  "slot_stores b i (Commit tg vdt klen h head vb) = commit_slot_stores b 192 i tg vdt klen h head vb"
| "slot_stores b i (CommitHead tg head) = commit_slot_head_stores b 192 i tg head"
| "slot_stores b i (UpdateInline vdt vb) = update_slot_inline_stores b 192 i vdt vb"
| "slot_stores b i (Clear tomb) = clear_slot_stores b 192 i tomb"

lemma slot_stores_tx: "\<exists>ws head. body_ok ws \<and> slot_stores b i op1 = slot_tx b (so i) ws head"
proof -
  have "body_ok [(0, u), (1, v), (3, w)]" "body_ok [(0, u)]" "body_ok [(0, u), (3, w)]" for u v w by (simp_all add: body_ok_def)
  then show ?thesis
    by (cases op1) (simp_all add: commit_slot_tx commit_slot_head_tx update_slot_inline_tx clear_slot_tx, blast+)
qed

lemma slot_at_tx:
  assumes "slots_rep h b B" "i < nb b" "body_ok ws"
  shows "slot_at (wr_all (slot_tx b (so i) ws head) b) i = new_slot b i ws head"
  using slot_tx_word [OF slot_in_geom(2) [OF slots_repD(1) [OF assms(1)] assms(2)] assms(3)]
  by (simp add: slot_at_def new_slot_def)

lemma mutator_crash:
  assumes "slots_rep h b B" "i < nb b" "writer_available os b"
    and "bucket_rep h b i (slot_at (wr_all (slot_stores b i op1) b) i) x"
  shows "\<exists>b'. acquire_writer os (wr_all (take k (slot_stores b i op1)) b) = (True, b') \<and>
      slots_rep h b' (if k + 1 < length (slot_stores b i op1) then B else B[i := x]) \<and> same_base b b'"
    "66 \<le> spin \<Longrightarrow> \<exists>b'. read_slot os spin (wr_all (take k (slot_stores b i op1)) b) 192 i =
      Some (slot_at (if k + 1 < length (slot_stores b i op1) then b else wr_all (slot_stores b i op1) b) i, b')"
proof -
  obtain ws head where w: "body_ok ws" "slot_stores b i op1 = slot_tx b (so i) ws head" using slot_stores_tx by blast
  have n: "length (slot_stores b i op1) = 9 + length ws" by (simp add: w(2) slot_tx_parts)
  note sa = slot_at_tx [OF assms(1,2) w(1), of head]
  have x: "bucket_rep h b i (new_slot b i ws head) x" using assms(4) by (simp add: w(2) sa)
  from acquire_crashed [OF assms(1,2) w(1) x assms(3), of k] show "\<exists>b'. acquire_writer os (wr_all (take k (slot_stores b i op1)) b) = (True, b') \<and>
      slots_rep h b' (if k + 1 < length (slot_stores b i op1) then B else B[i := x]) \<and> same_base b b'"
    unfolding n by (auto simp: w(2) crashed_def)
  show "\<exists>b'. read_slot os spin (wr_all (take k (slot_stores b i op1)) b) 192 i =
      Some (slot_at (if k + 1 < length (slot_stores b i op1) then b else wr_all (slot_stores b i op1) b) i, b')" if "66 \<le> spin"
    using reader_of_crashed [OF assms(1,2) w(1) x assms(3) that, of k] unfolding n by (auto simp: w(2) crashed_def sa)
qed

end
