(* ===== verification/Seqlock.thy ===== *)
theory Seqlock
  imports Memh_Slot
begin

text \<open>
  The slot sequence lock under interleaving. The writer's stores and a reader's loads are atomic and
  sequentially consistent (the code uses \<open>SeqCst\<close> throughout). A run of the slot is any sequence of:
  the writer opening a transaction, the writer performing its next store, and any other change to
  the buffer that leaves the slot's four words alone. The run counts the stores to the control word.
  A reader's attempt loads the control word, words 0, 1 and 3 and the control word again, with
  arbitrary runs in between.
\<close>

inductive slot_run :: "usize \<Rightarrow> buf \<times> stores \<Rightarrow> nat \<Rightarrow> buf \<times> stores \<Rightarrow> bool" for o1 where
  idle: "slot_run o1 s 0 s"
| open_tx: "slot_run o1 s c (b, []) \<Longrightarrow> body_ok ws \<Longrightarrow> slot_run o1 s c (b, slot_tx b o1 ws head)"
| store: "slot_run o1 s c (b, (off, n, v) # rest) \<Longrightarrow>
    slot_run o1 s (if off = o1 + 16 then c + 1 else c) (wr off n v b, rest)"
| other: "slot_run o1 s c (b, p) \<Longrightarrow> length b' = length b \<Longrightarrow>
    \<forall>w<4. slot_word b' o1 w = slot_word b o1 w \<Longrightarrow> slot_run o1 s c (b', p)"

text \<open>One pass of the loop of \<open>read_slot\<close> over the five values it loads: retry, or a snapshot.\<close>

definition read_attempt :: "u64 \<Rightarrow> u64 \<Rightarrow> u64 \<Rightarrow> u64 \<Rightarrow> u64 \<Rightarrow> Slot option" where
  "read_attempt control_before word0 hash value control_after =
    (if snd (control_parts control_before) AND 1 \<noteq> 0 then None
     else if control_before \<noteq> control_after then None
     else Some (slot_fields word0 hash control_after value))"

section \<open>Generations\<close>

abbreviation gen_of :: "u64 \<Rightarrow> u32" where
  "gen_of control \<equiv> snd (control_parts control)"

lemma bit0_and1: "(g::u32) AND 1 = 0 \<longleftrightarrow> \<not> bit g 0"
  by (simp add: and_one_eq bit_0 even_iff_mod_2_eq_zero)

lemma odd_after_even: "(g::u32) AND 1 = 0 \<Longrightarrow> (g + 1) OR 1 = g + 1"
proof -
  assume "g AND 1 = 0"
  then have "even g" by (simp add: bit0_and1 bit_0)
  then have "bit (g + 1) 0" by (simp add: bit_0)
  then show ?thesis by (intro bit_word_eqI) (auto simp: bit_or_iff bit_1_iff)
qed

lemma even_after_odd: "(g::u32) AND 1 = 0 \<Longrightarrow> (g + 1 + 1) AND NOT 1 = g + 1 + 1"
proof -
  assume "g AND 1 = 0"
  then have "even (g + 1 + 1)" by (simp add: bit0_and1 bit_0)
  then have "\<not> bit (g + 1 + 1) 0" by (simp add: bit_0)
  then have "\<And>n. bit (g + 1 + 1) n \<Longrightarrow> n \<noteq> 0" by metis
  then show ?thesis by (intro bit_word_eqI) (auto simp: bit_and_iff bit_not_iff bit_1_iff simp del: neq0_conv)
qed

lemma tx_generations:
  assumes "even_gen (slot_word b o1 2)"
  shows "tx_odd b o1 = gen_of (slot_word b o1 2) + 1" "tx_even b o1 = gen_of (slot_word b o1 2) + 1 + 1"
proof -
  have e: "gen_of (slot_word b o1 2) AND 1 = 0" using assms by (simp add: even_gen_def)
  show o: "tx_odd b o1 = gen_of (slot_word b o1 2) + 1" unfolding tx_odd_def by (rule odd_after_even [OF e])
  show "tx_even b o1 = gen_of (slot_word b o1 2) + 1 + 1" unfolding tx_even_def o by (rule even_after_odd [OF e])
qed

section \<open>The invariant of a run\<close>

text \<open>
  The writer is between transactions and the generation is even, or it has done \<open>j\<close> stores of a
  transaction begun on \<open>b0\<close>, and the control word is the one of that stage.
\<close>

definition seq_inv :: "usize \<Rightarrow> buf \<times> stores \<Rightarrow> bool" where
  "seq_inv o1 s \<longleftrightarrow> (case s of (b, p) \<Rightarrow> slot_in b o1 \<and>
    (p = [] \<and> even_gen (slot_word b o1 2) \<or>
     (\<exists>b0 ws head j. p = drop j (slot_tx b0 o1 ws head) \<and> body_ok ws \<and> even_gen (slot_word b0 o1 2) \<and>
        slot_word b o1 2 =
          (if j \<le> 6 then slot_word b0 o1 2
           else if j < 8 + length ws then pack_control (fst (control_parts (slot_word b0 o1 2))) (tx_odd b0 o1)
           else pack_control head (tx_even b0 o1)))))"

lemma length_slot_tx: "length (slot_tx b o1 ws head) = 9 + length ws"
  by (simp add: slot_tx_parts)

lemma slot_tx_nth:
  "j < 6 \<Longrightarrow> slot_tx b o1 ws head ! j = tx_journal b o1 ! j" "slot_tx b o1 ws head ! 6 = tx_open b o1"
  "j < length ws \<Longrightarrow> slot_tx b o1 ws head ! (7 + j) = tx_body o1 ws ! j"
  "slot_tx b o1 ws head ! (7 + length ws) = tx_close b o1 head" "slot_tx b o1 ws head ! (8 + length ws) = (44, 4, 0)"
  by (simp_all add: slot_tx_parts nth_append nth_Cons')

text \<open>Which word of the slot the \<open>j\<close>-th store of a transaction changes.\<close>

lemma tx_store_word:
  assumes "slot_in b o1" "body_ok ws" "j < 9 + length ws" "slot_tx b0 o1 ws head ! j = (off, n, v)" "w < 4"
  shows "j \<noteq> 6 \<and> j \<noteq> 7 + length ws \<Longrightarrow> off \<noteq> o1 + 16 \<and> slot_word (wr off n v b) o1 2 = slot_word b o1 2"
    "j \<le> 5 \<or> j = 8 + length ws \<Longrightarrow> slot_word (wr off n v b) o1 w = slot_word b o1 w"
    "j = 6 \<Longrightarrow> off = o1 + 16 \<and> slot_word (wr off n v b) o1 2 = pack_control (fst (control_parts (slot_word b0 o1 2))) (tx_odd b0 o1)"
    "j = 7 + length ws \<Longrightarrow> off = o1 + 16 \<and> slot_word (wr off n v b) o1 2 = pack_control head (tx_even b0 o1)"
proof -
  have mem: "(off, n, v) \<in> set (slot_tx b0 o1 ws head)" using assms(3,4) length_slot_tx [of b0 o1 ws head] by (metis nth_mem)
  have f: "\<forall>st \<in> set [(off, n, v)]. tx_field o1 st" using tx_fields [OF assms(2) mem] by simp
  have w1: "wr off n v b = wr_all [(off, n, v)] b" by (simp add: wr_all_Cons)
  note sw = tx_slot_word [OF assms(1) f, folded w1]
  have small: "off < 128" if "j \<le> 5 \<or> j = 8 + length ws"
  proof (cases "j = 8 + length ws")
    case True
    then show ?thesis using slot_tx_nth(5) [of b0 o1 ws head] assms(4) by simp
  next
    case False
    then have "j < 6" using that by simp
    then have "(off, n, v) \<in> set (tx_journal b0 o1)" using slot_tx_nth(1) [of j b0 o1 ws head] assms(4) by (metis length_tx_journal nth_mem)
    then show ?thesis by (auto simp: tx_journal_def)
  qed
  show "slot_word (wr off n v b) o1 w = slot_word b o1 w" if "j \<le> 5 \<or> j = 8 + length ws"
  proof -
    have "last_store [(off, n, v)] (o1 + w * 8) 8 = None" using small [OF that] assms(1) by (auto simp: last_store_Cons slot_in_def)
    then show ?thesis using sw [OF assms(5)] by simp
  qed
  show "off \<noteq> o1 + 16 \<and> slot_word (wr off n v b) o1 2 = slot_word b o1 2" if "j \<noteq> 6 \<and> j \<noteq> 7 + length ws"
  proof -
    have no: "off \<noteq> o1 + 16"
    proof (cases "j \<le> 5 \<or> j = 8 + length ws")
      case True
      then show ?thesis using small assms(1) by (auto simp: slot_in_def)
    next
      case False
      then have "j = 7 + (j - 7)" "j - 7 < length ws" using that assms(3) by linarith+
      then obtain i where i: "j = 7 + i" "i < length ws" by blast
      then have "tx_body o1 ws ! i = (off, n, v)" using slot_tx_nth(3) [of i ws b0 o1 head] assms(4) by simp
      then have "off = o1 + fst (ws ! i) * 8" using i(2) by (auto simp: tx_body_def slot_store_def split: prod.splits)
      moreover have "fst (ws ! i) \<in> fst ` set ws" using i(2) by simp
      ultimately show ?thesis using assms(2) by (auto simp: body_ok_def)
    qed
    then have "last_store [(off, n, v)] (o1 + 2 * 8) 8 = None" by (simp add: last_store_Cons)
    then show ?thesis using sw [of 2] no by simp
  qed
  show "off = o1 + 16 \<and> slot_word (wr off n v b) o1 2 = pack_control (fst (control_parts (slot_word b0 o1 2))) (tx_odd b0 o1)" if "j = 6"
    using that assms(4) slot_tx_nth(2) [of b0 o1 ws head] sw [of 2] by (auto simp: tx_open_def slot_store_def last_store_Cons)
  show "off = o1 + 16 \<and> slot_word (wr off n v b) o1 2 = pack_control head (tx_even b0 o1)" if "j = 7 + length ws"
    using that assms(4) slot_tx_nth(4) [of b0 o1 ws head] sw [of 2] by (auto simp: tx_close_def slot_store_def last_store_Cons)
qed

text \<open>
  One run: the invariant is kept, the generation grows by the number of control stores, and without
  a control store an even slot keeps all four words.
\<close>

lemma slot_run_inv:
  assumes "slot_run o1 s c s'" "seq_inv o1 s"
  shows "seq_inv o1 s' \<and> gen_of (slot_word (fst s') o1 2) = gen_of (slot_word (fst s) o1 2) + word_of_nat c \<and>
    (c = 0 \<and> even_gen (slot_word (fst s) o1 2) \<longrightarrow> (\<forall>w<4. slot_word (fst s') o1 w = slot_word (fst s) o1 w))"
  using assms
proof (induction rule: slot_run.induct)
  case (idle s)
  then show ?case by simp
next
  case (open_tx s c b ws head)
  then have i: "slot_in b o1" "seq_inv o1 (b, [])" by (auto simp: seq_inv_def)
  have "even_gen (slot_word b o1 2)"
  proof -
    from i(2) consider "even_gen (slot_word b o1 2)" | b0 ws' head' j where "[] = drop j (slot_tx b0 o1 ws' head')"
      "slot_word b o1 2 = (if j \<le> 6 then slot_word b0 o1 2
           else if j < 8 + length ws' then pack_control (fst (control_parts (slot_word b0 o1 2))) (tx_odd b0 o1)
           else pack_control head' (tx_even b0 o1))" by (auto simp: seq_inv_def)
    then show ?thesis
    proof cases
      case 2
      then have "9 + length ws' \<le> j" using length_slot_tx [of b0 o1 ws' head'] by simp
      then show ?thesis using 2(2) even_gen_tx_word [of b0 o1 "[]" head'] by (simp add: tx_word_def)
    qed simp
  qed
  then have "seq_inv o1 (b, slot_tx b o1 ws head)"
    using i open_tx.hyps(2) unfolding seq_inv_def prod.case
    by (intro conjI disjI2 exI [of _ b] exI [of _ ws] exI [of _ head] exI [of _ 0]) auto
  then show ?case using open_tx by simp
next
  case (store s c b off n v rest)
  then have inv: "seq_inv o1 (b, (off, n, v) # rest)" "slot_in b o1" by (auto simp: seq_inv_def)
  then obtain b0 ws head j where q: "(off, n, v) # rest = drop j (slot_tx b0 o1 ws head)" "body_ok ws"
    "even_gen (slot_word b0 o1 2)" "slot_word b o1 2 =
          (if j \<le> 6 then slot_word b0 o1 2
           else if j < 8 + length ws then pack_control (fst (control_parts (slot_word b0 o1 2))) (tx_odd b0 o1)
           else pack_control head (tx_even b0 o1))" by (auto simp: seq_inv_def)
  have j: "j < 9 + length ws" using q(1) length_slot_tx [of b0 o1 ws head] by (metis drop_all linorder_not_less list.discI)
  have nth: "slot_tx b0 o1 ws head ! j = (off, n, v)" using q(1) by (metis hd_drop_conv_nth drop_eq_Nil list.sel(1) list.discI linorder_not_less)
  have rest: "rest = drop (Suc j) (slot_tx b0 o1 ws head)" using q(1) by (metis drop_Suc list.sel(3) tl_drop)
  have l: "off + n \<le> length b"
  proof -
    have "(off, n, v) \<in> set (slot_tx b0 o1 ws head)" using nth j length_slot_tx [of b0 o1 ws head] by (metis nth_mem)
    from tx_fields [OF q(2) this] show ?thesis using inv(2) by (auto simp: tx_field_def slot_in_def)
  qed
  have si: "slot_in (wr off n v b) o1" using inv(2) l by (simp add: slot_in_def)
  note sw = tx_store_word [OF inv(2) q(2) j nth]
  note g = tx_generations [OF q(3)]
  have ctl: "slot_word (wr off n v b) o1 2 =
      (if Suc j \<le> 6 then slot_word b0 o1 2
       else if Suc j < 8 + length ws then pack_control (fst (control_parts (slot_word b0 o1 2))) (tx_odd b0 o1)
       else pack_control head (tx_even b0 o1))"
  proof -
    consider "j = 6" | "j = 7 + length ws" | "j \<noteq> 6 \<and> j \<noteq> 7 + length ws" by blast
    then show ?thesis
      by cases (use sw(3) [of 0] sw(4) [of 0] sw(1) [of 0] q(4) in \<open>auto split: if_splits\<close>)
  qed
  have inv': "seq_inv o1 (wr off n v b, rest)"
    using si rest q(2,3) ctl unfolding seq_inv_def prod.case
    by (intro conjI disjI2 exI [of _ b0] exI [of _ ws] exI [of _ head] exI [of _ "Suc j"]) auto
  have gen: "gen_of (slot_word (wr off n v b) o1 2) =
      gen_of (slot_word b o1 2) + (if off = o1 + 16 then 1 else 0)"
  proof -
    consider "j = 6" | "j = 7 + length ws" | "j \<noteq> 6 \<and> j \<noteq> 7 + length ws" by blast
    then show ?thesis
      by cases (use sw(3) [of 0] sw(4) [of 0] sw(1) [of 0] q(4) g in \<open>auto split: if_splits\<close>)
  qed
  have keep: "slot_word (wr off n v b) o1 w = slot_word b o1 w"
    if "off \<noteq> o1 + 16" "even_gen (slot_word b o1 2)" "w < 4" for w
  proof -
    have "\<not> (7 \<le> j \<and> j < 8 + length ws)"
    proof
      assume "7 \<le> j \<and> j < 8 + length ws"
      then have "slot_word b o1 2 = pack_control (fst (control_parts (slot_word b0 o1 2))) (tx_odd b0 o1)" using q(4) by simp
      then show False using that(2) by (simp add: even_gen_def tx_odd_def odd_gen_odd)
    qed
    moreover have "j \<noteq> 6" using sw(3) [of 0] that(1) by auto
    ultimately have "j \<le> 5 \<or> j = 8 + length ws" using j by linarith
    then show ?thesis by (rule sw(2) [OF that(3)])
  qed
  show ?case using store inv' gen keep by (auto simp: algebra_simps split: if_splits)
next
  case (other s c b p b')
  have "seq_inv o1 (b', p)" using other by (simp add: seq_inv_def slot_in_def)
  then show ?case using other by simp
qed

text \<open>An accepted attempt returns the slot as it stood at the first load.\<close>

lemma accepted_snapshot:
  assumes "seq_inv o1 s1" "slot_run o1 s1 c2 s2" "slot_run o1 s2 c3 s3" "slot_run o1 s3 c4 s4" "slot_run o1 s4 c5 s5"
    and "c2 + c3 + c4 + c5 < 2 ^ 32"
    and "read_attempt (slot_word (fst s1) o1 2) (slot_word (fst s2) o1 0) (slot_word (fst s3) o1 1)
      (slot_word (fst s4) o1 3) (slot_word (fst s5) o1 2) = Some r"
  shows "r = slot_fields (slot_word (fst s1) o1 0) (slot_word (fst s1) o1 1) (slot_word (fst s1) o1 2) (slot_word (fst s1) o1 3)"
proof -
  note i2 = slot_run_inv [OF assms(2,1)]
  note i3 = slot_run_inv [OF assms(3)] and i4 = slot_run_inv [OF assms(4)] and i5 = slot_run_inv [OF assms(5)]
  have e: "even_gen (slot_word (fst s1) o1 2)" "slot_word (fst s1) o1 2 = slot_word (fst s5) o1 2"
    "r = slot_fields (slot_word (fst s2) o1 0) (slot_word (fst s3) o1 1) (slot_word (fst s5) o1 2) (slot_word (fst s4) o1 3)"
    using assms(7) by (auto simp: read_attempt_def even_gen_def split: if_splits)
  have "gen_of (slot_word (fst s5) o1 2) = gen_of (slot_word (fst s1) o1 2) + word_of_nat (c2 + c3 + c4 + c5)"
    using i2 i3 i4 i5 by (auto simp: algebra_simps)
  then have "(word_of_nat (c2 + c3 + c4 + c5) :: u32) = 0" using e(2) by simp
  then have u: "unat (word_of_nat (c2 + c3 + c4 + c5) :: u32) = 0" by (simp only: unsigned_0)
  have "(c2 + c3 + c4 + c5) mod 2 ^ 32 = 0" using u unfolding unat_of_nat by simp
  then have "c2 + c3 + c4 + c5 = 0" using assms(6) by simp
  then have z: "c2 = 0" "c3 = 0" "c4 = 0" by simp_all
  have s2: "slot_word (fst s2) o1 w = slot_word (fst s1) o1 w" if "w < 4" for w using i2 e(1) z that by blast
  have s3: "slot_word (fst s3) o1 w = slot_word (fst s1) o1 w" if "w < 4" for w using i2 i3 s2 e(1) z that by auto
  have s4: "slot_word (fst s4) o1 w = slot_word (fst s1) o1 w" if "w < 4" for w using i2 i3 i4 s3 e(1) z that by auto
  show ?thesis using e s2 s3 s4 by simp
qed

end
