(* ===== verification/Example_Memh.thy ===== *)
theory Example_Memh
  imports Memh_Store Memh_Recovery Seqlock Example_Tables
begin

text \<open>A small key-value table, at which the theorems about MEMH are applied.\<close>

definition kv_buf :: buf where
  "kv_buf = memh_init_meta 320 128 7 (memh_init_header demo_os 4 192 (bsplice 0 (replicate 448 0) (replicate 512 0)))"

definition kv_hash :: "u64 \<Rightarrow> byte list \<Rightarrow> u64" where
  "kv_hash seed key = word_of_nat (length key) + seed"

lemma kv_init: "memh_init_buf demo_os 0 (replicate 512 0) 4 128 7 = Inr kv_buf"
  by (simp add: memh_init_buf_def kv_buf_def Let_def checked_add_def checked_mul_def U32_MAX_def SLOT_STRIDE_def)

lemma kv_props: "kv_rep xxh3 kv_buf Map.empty" "writer_idle kv_buf" "nb kv_buf = 4" "acap kv_buf = 128" "bump kv_buf = 0"
  using memh_init_rep [OF kv_init] by simp_all

lemma kv_demo: "kv_idle xxh3 kv_buf Map.empty"
  using kv_props by (simp add: kv_idle_def)

definition kv_ops :: "((os \<times> nat) \<times> (byte list, Value) kv_op) list" where
  "kv_ops = [((demo_os, 0), Put [0x6B] (VI64 42)), ((demo_os, 0), Get [0x6B]), ((demo_os, 0), Del [0x6B])]"

lemma kv_key: "entry_ok [0x6B] (VI64 42)" "key_ok [0x6B]"
  by (simp_all add: entry_ok_def key_ok_def)

lemma kv_ops_ok: "\<forall>(e, op1) \<in> set kv_ops. op_ok entry_ok op1"
  by (simp add: kv_ops_def kv_key)

lemma kv_slots: "\<exists>B. slots_rep h kv_buf B"
proof -
  note f = memh_init_fields [OF kv_init]
  have "memh_geom kv_buf" using kv_repE [OF kv_props(1) [of kv_hash]] slots_repD(1) by metis
  then have "slots_rep h kv_buf (replicate 4 Free)"
    using f(14,19) kv_props(3) by (simp add: slots_rep_def slot_at_def zero_slot)
  then show ?thesis by blast
qed

text \<open>Deleting slot 2 without an arena record, and a run in which the writer only opens a transaction.\<close>

definition kv_del :: slot_op where
  "kv_del = CommitHead SLOT_TOMBSTONE U32_MAX"

lemma kv_del_rep: "bucket_rep h kv_buf 2 (slot_at (wr_all (slot_stores kv_buf 2 kv_del) kv_buf) 2) Dead"
proof -
  from kv_slots obtain B where B: "slots_rep h kv_buf B" by blast
  let ?ws = "[(0, word_of_le ((word_le 8 (slot_word kv_buf (so 2) 0))[0 := word_of_nat SLOT_TOMBSTONE]))] :: (nat \<times> u64) list"
  have "body_ok ?ws" by (simp add: body_ok_def)
  from slot_at_tx [OF B _ this, of 2 "word_of_nat U32_MAX"]
  have "slot_at (wr_all (slot_stores kv_buf 2 kv_del) kv_buf) 2 = new_slot kv_buf 2 ?ws (word_of_nat U32_MAX)"
    by (simp add: kv_del_def commit_slot_head_tx kv_props(3))
  also have "\<dots> = (slot_at kv_buf 2)\<lparr>tag := SLOT_TOMBSTONE, head_off := U32_MAX\<rparr>"
    using slot_fields_head [of SLOT_TOMBSTONE U32_MAX _ _ _ _ "slot_word kv_buf (so 2) 2"]
    by (simp add: new_slot_def tx_word_def slot_at_def U32_MAX_def SLOT_TOMBSTONE_def)
  finally show ?thesis by simp
qed

lemma kv_available: "writer_available demo_os kv_buf"
  by (rule writer_idle_available [OF kv_props(2)])

lemma kv_seq: "seq_inv 192 (kv_buf, [])" "slot_run 192 (kv_buf, []) 0 (kv_buf, slot_tx kv_buf 192 [] 0)"
  "slot_run 192 (kv_buf, slot_tx kv_buf 192 [] 0) 0 (kv_buf, slot_tx kv_buf 192 [] 0)"
proof -
  from kv_slots [of "\<lambda>_. 0"] obtain B where B: "slots_rep (\<lambda>_. 0) kv_buf B" by blast
  have i: "(0::nat) < nb kv_buf" by (simp add: kv_props(3))
  show "seq_inv 192 (kv_buf, [])"
    using slots_repD(4) [OF B i] slot_in_geom(2) [OF slots_repD(1) [OF B] i] by (simp add: seq_inv_def)
  show "slot_run 192 (kv_buf, []) 0 (kv_buf, slot_tx kv_buf 192 [] 0)"
    by (rule slot_run.open_tx [OF slot_run.idle]) (simp add: body_ok_def)
  show "slot_run 192 (kv_buf, slot_tx kv_buf 192 [] 0) 0 (kv_buf, slot_tx kv_buf 192 [] 0)" by (rule slot_run.idle)
qed

lemma kv_attempt: "\<exists>r. read_attempt (slot_word kv_buf 192 2) (slot_word kv_buf 192 0) (slot_word kv_buf 192 1)
    (slot_word kv_buf 192 3) (slot_word kv_buf 192 2) = Some r"
proof -
  from kv_slots [of "\<lambda>_. 0"] obtain B where B: "slots_rep (\<lambda>_. 0) kv_buf B" by blast
  have "even_gen (slot_word kv_buf (so 0) 2)" by (rule slots_repD(4) [OF B]) (simp add: kv_props(3))
  then show ?thesis by (simp add: read_attempt_def even_gen_def)
qed

end
