(* ===== verification/Advance_Leases.thy ===== *)
theory Advance_Leases
  imports Table_Validate
begin

text \<open>An advance touches the reader leases of the chunk it recycles and of no other.\<close>

lemma drain_other_leases:
  assumes "table_geom b" "i < num_chunks (header b)" "c < num_chunks (header b)" "c \<noteq> i" "s < lease_slots (header b)"
  shows "reader_lease (drain_leases os b i n) c s = reader_lease b c s"
  using assms
proof (induction n arbitrary: b)
  case (Suc n)
  obtain live b' where sc: "chunk_has_live_leases os b i = (live, b')" by fastforce
  have fr: "lease_frame b b'" using chunk_has_live_leases_frame [OF Suc.prems(1,2), of os] sc by simp
  have h: "header b' = header b" by (rule lease_frame_header [OF Suc.prems(1) fr])
  have one: "reader_lease b' c s = reader_lease b c s"
    using chunk_has_live_leases_lease [OF Suc.prems(1,2,3,5), of os] Suc.prems(4) sc by simp
  have "reader_lease (drain_leases os b' i n) c s = reader_lease b' c s"
    using Suc.IH [OF lease_frame_geom [OF Suc.prems(1) fr]] Suc.prems h by simp
  then show ?case using sc one by (cases live) simp_all
qed simp

lemma swept_other_leases:
  assumes g: "table_geom b" and c: "c < num_chunks (header b)" "c \<noteq> next_chunk b" and s: "s < lease_slots (header b)"
  shows "reader_lease (swept os b) c s = reader_lease b c s"
proof -
  let ?t = "next_chunk b"
  let ?b1 = "wr (chunk_start_off b ?t + 16) 4 (chunk_state_code Empty) b"
  let ?b2 = "drain_leases os ?b1 ?t PIN_DRAIN_SPINS"
  have t: "?t < num_chunks (header b)" by (rule next_chunk_less [OF g])
  note ms = mark_state [OF g t, of "chunk_state_code Empty"]
  have t1: "?t < num_chunks (header ?b1)" using t ms(5) by simp
  have fr2: "lease_frame ?b1 ?b2" using drain_leases_props [OF ms(4) t1] by blast
  have h2: "header ?b2 = header b" using lease_frame_header [OF ms(4) fr2] ms(5) by simp
  have g2: "table_geom ?b2" by (rule lease_frame_geom [OF ms(4) fr2])
  have "reader_lease (swept os b) c s = reader_lease ?b2 c s"
    using chunk_has_live_leases_lease [OF g2, of ?t c s os] t h2 c s by (simp add: swept_def)
  also have "\<dots> = reader_lease ?b1 c s"
    using c s ms(5) t1 by (intro drain_other_leases [OF ms(4) t1]) simp_all
  also have "\<dots> = reader_lease b c s" by (rule chunk_only_leases [OF g t ms(1) c(1) s])
  finally show ?thesis .
qed

lemma advance_other_leases:
  assumes g: "table_geom b" "write_chunk (header b) < num_chunks (header b)" "chunks_fit b"
    and np: "\<not> chunk_pinned os b (next_chunk b)"
    and c: "c < num_chunks (header b)" "c \<noteq> next_chunk b" and s: "s < lease_slots (header b)"
    and adv: "advance_chunk_raw_detailed os b = Some (out, b')"
  shows "reader_lease b' c s = reader_lease b c s"
proof -
  define t where "t = next_chunk b"
  define b4 where "b4 = (if chunk_start_off b (write_chunk (header b)) \<noteq> chunk_start_off b t
     then wr (chunk_start_off b (write_chunk (header b)) + 16) 4 (chunk_state_code Sealed) (swept os b)
     else swept os b)"
  have t: "t < num_chunks (header b)" unfolding t_def by (rule next_chunk_less [OF g(1)])
  note se = sealed_props [OF g, where os = os, folded t_def, folded b4_def]
  let ?b5 = "count_overwrite b4 (row_count (chunk_hdr b4 t))"
  note cp = count_overwrite_props [OF se(1), where n = "row_count (chunk_hdr b4 t)"]
  note ch5 = cold_eq_header [OF cp(1)]
  have g5: "table_geom ?b5" using cold_eq_geom [OF cp(1)] se(1) by simp
  have st5: "chunk_start_off ?b5 i = chunk_start_off b i" for i
    using cold_eq_chunk_start [OF cp(1)] se(3) by simp
  have n5: "num_chunks (header ?b5) = num_chunks (header b)" using ch5(2) se(2) by simp
  let ?b6 = "reset_chunk ?b5 (chunk_start_off b t)"
  note rp = reset_chunk_props [OF g5, of t, unfolded st5 n5, OF t]
  note hw = hot_wr [OF rp(3), where off = 32 and n = 4 and v = t, simplified]
  have n6: "num_chunks (header ?b6) = num_chunks (header b)" "lease_slots (header ?b6) = lease_slots (header b)"
    using rp(4) n5 ch5(6) se(2) by simp_all
  have "b' = wr 32 4 t ?b6"
    using adv advance_unfold [OF g(1), of os] np se(3)
    by (simp add: Let_def t_def [symmetric] b4_def)
  then have "reader_lease b' c s = reader_lease ?b6 c s" using hw(3) c(1) s n6 by simp
  also have "\<dots> = reader_lease ?b5 c s" using chunk_only_leases [OF g5 _ rp(1)] t c(1) s n5 ch5(6) se(2) by simp
  also have "\<dots> = reader_lease b4 c s" using cp(4) c(1) s se(2) by simp
  also have "\<dots> = reader_lease (swept os b) c s" using se(7) c(1) s by simp
  also have "\<dots> = reader_lease b c s" by (rule swept_other_leases [OF g(1) c s])
  finally show ?thesis .
qed

end
