(* ===== verification/Memc_Layout.thy ===== *)
theory Memc_Layout
  imports Layout Raw
begin

text \<open>
  The binary layout of a MEMC segment file (\<open>probing/memtable/src/memc/layout.rs\<close>): the segment
  header, the header shared by table-definition and page blocks, and the table-definition payload,
  with their encoders and checksummed decoders. The hash \<open>xxh3_64\<close> belongs to another crate and is
  the argument \<open>xxh\<close>; nothing is assumed of it. A fixed-width field is a \<open>word\<close>.
\<close>

unbundle bit_operations_syntax

section \<open>Constants\<close>

definition MAGIC_MEMC :: u32 where "MAGIC_MEMC = word_of_le [0x4D, 0x45, 0x4D, 0x43]"
definition MAGIC_TABLE_BLOCK :: u32 where "MAGIC_TABLE_BLOCK = word_of_le [0x4D, 0x43, 0x54, 0x42]"
definition MAGIC_PAGE_BLOCK :: u32 where "MAGIC_PAGE_BLOCK = word_of_le [0x4D, 0x43, 0x50, 0x47]"
definition MAGIC_FOOTER :: u32 where "MAGIC_FOOTER = word_of_le [0x4D, 0x43, 0x46, 0x54]"
definition VERSION_MEMC :: u16 where "VERSION_MEMC = 2"
definition SEGMENT_HEADER_SIZE :: usize where "SEGMENT_HEADER_SIZE = 64"
definition BLOCK_HEADER_SIZE :: usize where "BLOCK_HEADER_SIZE = 64"
definition PAGE_DIR_ENTRY_SIZE :: usize where "PAGE_DIR_ENTRY_SIZE = 64"
definition FLAG_SEALED :: u16 where "FLAG_SEALED = 1"
definition SOURCE_CHUNK_NONE :: u32 where "SOURCE_CHUNK_NONE = -1"

lemmas memc_sizes = SEGMENT_HEADER_SIZE_def BLOCK_HEADER_SIZE_def PAGE_DIR_ENTRY_SIZE_def

datatype ColEncoding = RawFixed | Pco | RawVarLen

fun enc_code :: "ColEncoding \<Rightarrow> byte" where
  "enc_code RawFixed = 0"
| "enc_code Pco = 1"
| "enc_code RawVarLen = 2"

definition enc_from_u8 :: "byte \<Rightarrow> ColEncoding option" where
  "enc_from_u8 v = (if v = 0 then Some RawFixed else if v = 1 then Some Pco else if v = 2 then Some RawVarLen else None)"

type_synonym hash64 = "byte list \<Rightarrow> u64"

definition xxh32 :: "hash64 \<Rightarrow> byte list \<Rightarrow> u32" where
  "xxh32 xxh bytes = ucast (xxh bytes)"

definition memc_align64 :: "usize \<Rightarrow> usize" where
  "memc_align64 n = clear_low6 (n + 63)"

section \<open>Byte helpers\<close>

definition get_u16 :: "buf \<Rightarrow> usize \<Rightarrow> u16" where
  "get_u16 b off = word_of_le (bslice off 2 b)"

definition get_u32 :: "buf \<Rightarrow> usize \<Rightarrow> u32" where
  "get_u32 b off = word_of_le (bslice off 4 b)"

definition get_u64 :: "buf \<Rightarrow> usize \<Rightarrow> u64" where
  "get_u64 b off = word_of_le (bslice off 8 b)"

definition get_i64 :: "buf \<Rightarrow> usize \<Rightarrow> i64" where
  "get_i64 b off = word_of_le (bslice off 8 b)"

definition put_u16 :: "usize \<Rightarrow> u16 \<Rightarrow> buf \<Rightarrow> buf" where
  "put_u16 off v b = bsplice off (word_le 2 v) b"

definition put_u32 :: "usize \<Rightarrow> u32 \<Rightarrow> buf \<Rightarrow> buf" where
  "put_u32 off v b = bsplice off (word_le 4 v) b"

definition put_u64 :: "usize \<Rightarrow> u64 \<Rightarrow> buf \<Rightarrow> buf" where
  "put_u64 off v b = bsplice off (word_le 8 v) b"

definition put_i64 :: "usize \<Rightarrow> i64 \<Rightarrow> buf \<Rightarrow> buf" where
  "put_i64 off v b = bsplice off (word_le 8 v) b"

lemmas put_defs = put_u16_def put_u32_def put_u64_def put_i64_def
lemmas get_defs = get_u16_def get_u32_def get_u64_def get_i64_def

section \<open>The segment header\<close>

record SegmentHeader =
  sh_flags :: u16
  sh_writer_pid :: u32
  sh_writer_start :: u64
  sh_created_unix_ms :: u64
  sh_footer_off :: u64
  sh_ts_min :: i64
  sh_ts_max :: i64
  sh_page_count :: u32

definition is_sealed :: "SegmentHeader \<Rightarrow> bool" where
  "is_sealed h \<longleftrightarrow> sh_flags h AND FLAG_SEALED \<noteq> 0"

definition segment_encode :: "hash64 \<Rightarrow> SegmentHeader \<Rightarrow> byte list" where
  "segment_encode xxh h =
    (let b = replicate SEGMENT_HEADER_SIZE 0;
         b = put_u32 0 MAGIC_MEMC b;
         b = put_u16 4 VERSION_MEMC b;
         b = put_u16 6 (word_of_nat SEGMENT_HEADER_SIZE) b;
         b = bsplice 8 [1, 2] b;
         b = put_u16 10 (sh_flags h) b;
         b = put_u32 12 (sh_writer_pid h) b;
         b = put_u64 16 (sh_writer_start h) b;
         b = put_u64 24 (sh_created_unix_ms h) b;
         b = put_u64 32 (sh_footer_off h) b;
         b = put_i64 40 (sh_ts_min h) b;
         b = put_i64 48 (sh_ts_max h) b;
         b = put_u32 56 (sh_page_count h) b
     in put_u32 60 (xxh32 xxh (take 60 b)) b)"

definition segment_decode :: "hash64 \<Rightarrow> buf \<Rightarrow> string + SegmentHeader" where
  "segment_decode xxh b =
    (if length b < SEGMENT_HEADER_SIZE then Inl ''buffer too small for MEMC header''
     else if get_u32 b 0 \<noteq> MAGIC_MEMC then Inl ''invalid MEMC magic''
     else if get_u16 b 4 \<noteq> VERSION_MEMC then Inl ''unsupported MEMC version (expected v2)''
     else if unat (get_u16 b 6) \<noteq> SEGMENT_HEADER_SIZE then Inl ''invalid MEMC header size''
     else if bslice 8 2 b \<noteq> [1, 2] then Inl ''byte order mismatch''
     else if get_u32 b 60 \<noteq> xxh32 xxh (take 60 b) then Inl ''MEMC header checksum mismatch''
     else Inr \<lparr>sh_flags = get_u16 b 10, sh_writer_pid = get_u32 b 12, sh_writer_start = get_u64 b 16,
               sh_created_unix_ms = get_u64 b 24, sh_footer_off = get_u64 b 32, sh_ts_min = get_i64 b 40,
               sh_ts_max = get_i64 b 48, sh_page_count = get_u32 b 56\<rparr>)"

section \<open>Block headers\<close>

record BlockHeader =
  bh_magic :: u32
  bh_table_id :: u32
  bh_row_count :: u32
  bh_col_count :: u32
  bh_ts_min :: i64
  bh_ts_max :: i64
  bh_source_gen :: u64
  bh_payload_len :: u32
  bh_payload_xxh :: u32
  bh_source_chunk :: u32
  bh_source_instance :: u64

definition block_encode :: "hash64 \<Rightarrow> BlockHeader \<Rightarrow> byte list" where
  "block_encode xxh h =
    (let b = replicate BLOCK_HEADER_SIZE 0;
         b = put_u32 0 (bh_magic h) b;
         b = put_u32 4 (bh_table_id h) b;
         b = put_u32 8 (bh_row_count h) b;
         b = put_u32 12 (bh_col_count h) b;
         b = put_i64 16 (bh_ts_min h) b;
         b = put_i64 24 (bh_ts_max h) b;
         b = put_u64 32 (bh_source_gen h) b;
         b = put_u32 40 (bh_payload_len h) b;
         b = put_u32 44 (bh_payload_xxh h) b;
         b = put_u32 48 (bh_source_chunk h) b;
         b = put_u64 52 (bh_source_instance h) b
     in put_u32 60 (xxh32 xxh (take 60 b)) b)"

definition block_decode :: "hash64 \<Rightarrow> buf \<Rightarrow> BlockHeader option" where
  "block_decode xxh b =
    (if length b < BLOCK_HEADER_SIZE then None
     else (let mg = get_u32 b 0 in
       if mg \<noteq> MAGIC_TABLE_BLOCK \<and> mg \<noteq> MAGIC_PAGE_BLOCK then None
       else if get_u32 b 60 \<noteq> xxh32 xxh (take 60 b) then None
       else Some \<lparr>bh_magic = mg, bh_table_id = get_u32 b 4, bh_row_count = get_u32 b 8, bh_col_count = get_u32 b 12,
                  bh_ts_min = get_i64 b 16, bh_ts_max = get_i64 b 24, bh_source_gen = get_u64 b 32,
                  bh_payload_len = get_u32 b 40, bh_payload_xxh = get_u32 b 44, bh_source_chunk = get_u32 b 48,
                  bh_source_instance = get_u64 b 52\<rparr>))"

section \<open>Table definitions\<close>

record TableDef =
  td_id :: u32
  td_name :: "byte list"
  td_cols :: "(byte list \<times> DType) list"
  td_ts_col :: "usize option"

text \<open>The timestamp column of a list of columns, as \<open>register_table\<close> and \<open>decode_table_payload\<close> find it.\<close>

definition cols_ts_col :: "(byte list \<times> DType) list \<Rightarrow> usize option" where
  "cols_ts_col cs = position (\<lambda>(n, dt). dt = DI64 \<and> n \<in> set TS_COL_NAMES) cs"

definition col_entry :: "byte list \<times> DType \<Rightarrow> byte list" where
  "col_entry c = [word_of_nat (dtype_code (snd c)), 0] @ le_bytes 2 (length (fst c)) @ fst c"

definition encode_table_payload :: "byte list \<Rightarrow> (byte list \<times> DType) list \<Rightarrow> byte list" where
  "encode_table_payload name cs =
     le_bytes 2 (length name) @ le_bytes 2 (length cs) @ name @ concat (map col_entry cs)"

fun decode_table_cols :: "buf \<Rightarrow> nat \<Rightarrow> usize \<Rightarrow> string + (byte list \<times> DType) list" where
  "decode_table_cols b 0 off = Inr []"
| "decode_table_cols b (Suc n) off =
    (if length b < off + 4 then Inl ''column entry out of bounds''
     else (case dtype_from_u32 (unat (b ! off)) of
         None \<Rightarrow> Inl ''invalid column dtype''
       | Some dtype \<Rightarrow>
           (let cname_len = unat (get_u16 b (off + 2)); off = off + 4 in
            if length b < off + cname_len then Inl ''column name out of bounds''
            else (case from_utf8 (bslice off cname_len b) of
                None \<Rightarrow> Inl ''column name not utf-8''
              | Some cname \<Rightarrow>
                  (case decode_table_cols b n (off + cname_len) of
                     Inl e \<Rightarrow> Inl e
                   | Inr cs \<Rightarrow> Inr ((cname, dtype) # cs))))))"

definition decode_table_payload :: "u32 \<Rightarrow> buf \<Rightarrow> string + TableDef" where
  "decode_table_payload tid payload =
    (if length payload < 4 then Inl ''table payload too small''
     else (let name_len = unat (get_u16 payload 0); col_count = unat (get_u16 payload 2) in
       if length payload < 4 + name_len then Inl ''table name out of bounds''
       else (case from_utf8 (bslice 4 name_len payload) of
           None \<Rightarrow> Inl ''table name not utf-8''
         | Some name \<Rightarrow>
             (case decode_table_cols payload col_count (4 + name_len) of
                Inl e \<Rightarrow> Inl e
              | Inr cs \<Rightarrow> Inr \<lparr>td_id = tid, td_name = name, td_cols = cs, td_ts_col = cols_ts_col cs\<rparr>))))"

section \<open>Round trips\<close>

lemma splice_at_end:
  "length a = off \<Longrightarrow> off + length bs \<le> n \<Longrightarrow>
   bsplice off bs (a @ replicate (n - off) 0) = (a @ bs) @ replicate (n - (off + length bs)) 0"
  by (simp add: bsplice_def)

lemma block_encode_eq:
  defines "body h \<equiv> word_le 4 (bh_magic h) @ word_le 4 (bh_table_id h) @ word_le 4 (bh_row_count h) @ word_le 4 (bh_col_count h) @
    word_le 8 (bh_ts_min h) @ word_le 8 (bh_ts_max h) @ word_le 8 (bh_source_gen h) @ word_le 4 (bh_payload_len h) @
    word_le 4 (bh_payload_xxh h) @ word_le 4 (bh_source_chunk h) @ word_le 8 (bh_source_instance h)"
  shows "block_encode xxh h = body h @ word_le 4 (xxh32 xxh (body h))"
  unfolding block_encode_def body_def put_defs Let_def BLOCK_HEADER_SIZE_def
  by (simp add: bsplice_def)

lemma segment_encode_eq:
  defines "body h \<equiv> word_le 4 MAGIC_MEMC @ word_le 2 VERSION_MEMC @ word_le 2 (64 :: u16) @ [1, 2] @ word_le 2 (sh_flags h) @
    word_le 4 (sh_writer_pid h) @ word_le 8 (sh_writer_start h) @ word_le 8 (sh_created_unix_ms h) @ word_le 8 (sh_footer_off h) @
    word_le 8 (sh_ts_min h) @ word_le 8 (sh_ts_max h) @ word_le 4 (sh_page_count h)"
  shows "segment_encode xxh h = body h @ word_le 4 (xxh32 xxh (body h))"
  unfolding segment_encode_def body_def put_defs Let_def SEGMENT_HEADER_SIZE_def
  by (simp add: bsplice_def)

lemma length_block_encode [simp]: "length (block_encode xxh h) = 64"
  by (simp add: block_encode_eq)

lemma length_segment_encode [simp]: "length (segment_encode xxh h) = 64"
  by (simp add: segment_encode_eq)


lemma block_decode_encode:
  assumes "bh_magic h = MAGIC_TABLE_BLOCK \<or> bh_magic h = MAGIC_PAGE_BLOCK"
  shows "block_decode xxh (block_encode xxh h @ rest) = Some h"
  using assms unfolding block_encode_eq
  by (cases h) (auto simp: block_decode_def get_defs bslice_def BLOCK_HEADER_SIZE_def Let_def)

lemma segment_decode_encode: "segment_decode xxh (segment_encode xxh h @ rest) = Inr h"
  unfolding segment_encode_eq
  by (cases h) (simp add: segment_decode_def get_defs bslice_def SEGMENT_HEADER_SIZE_def Let_def)


text \<open>Names that fit the 16-bit length fields.\<close>

definition name_ok :: "byte list \<Rightarrow> bool" where
  "name_ok n \<longleftrightarrow> utf8_ok n \<and> length n < 2 ^ 16"

lemma le_bytes_2_unat: "n < 2 ^ 16 \<Longrightarrow> unat (word_of_le (le_bytes 2 n) :: u16) = n"
  by (simp add: word_of_le_def le_simps unat_of_nat)

lemma dtype_code_byte: "dtype_from_u32 (unat (word_of_nat (dtype_code d) :: byte)) = Some d"
  by (cases d) (simp_all add: dtype_from_u32_def unat_of_nat)

lemma decode_table_cols_entries:
  assumes "\<forall>c\<in>set cs. name_ok (fst c)" "b = pre @ concat (map col_entry cs) @ rest"
  shows "decode_table_cols b (length cs) (length pre) = Inr cs"
  using assms
proof (induction cs arbitrary: pre)
  case (Cons c cs)
  obtain n d where c: "c = (n, d)" by (cases c)
  have n: "utf8_ok n" "length n < 2 ^ 16" using Cons.prems(1) by (auto simp: c name_ok_def)
  let ?tail = "concat (map col_entry cs) @ rest"
  have b: "b = pre @ [word_of_nat (dtype_code d), 0] @ le_bytes 2 (length n) @ n @ ?tail"
    using Cons.prems(2) by (simp add: c col_entry_def [of "(n, d)"])
  have len: "unat (get_u16 b (length pre + 2)) = length n"
    unfolding b get_u16_def using n(2) by (simp add: bslice_def le_bytes_2_unat)
  have nm: "bslice (length pre + 4) (length n) b = n" unfolding b by (simp add: bslice_def)
  have lc: "length pre + 4 + length n = length (pre @ col_entry c)" by (simp add: c col_entry_def)
  have ih: "decode_table_cols b (length cs) (length pre + 4 + length n) = Inr cs"
    unfolding lc by (rule Cons.IH) (use Cons.prems in auto)
  have "b ! length pre = word_of_nat (dtype_code d)" unfolding b by simp
  moreover have "length pre + 4 + length n \<le> length b" unfolding b by simp
  ultimately show ?case
    using len nm ih n(1) by (simp add: c dtype_code_byte Let_def from_utf8_def)
qed simp

lemma decode_table_encode:
  assumes "name_ok name" "\<forall>c\<in>set cs. name_ok (fst c)" "length cs < 2 ^ 16"
  shows "decode_table_payload tid (encode_table_payload name cs) =
    Inr \<lparr>td_id = tid, td_name = name, td_cols = cs, td_ts_col = cols_ts_col cs\<rparr>"
proof -
  let ?b = "encode_table_payload name cs"
  have n: "utf8_ok name" "length name < 2 ^ 16" using assms(1) by (auto simp: name_ok_def)
  have l: "unat (get_u16 ?b 0) = length name" "unat (get_u16 ?b 2) = length cs"
    using n(2) assms(3) by (simp_all add: encode_table_payload_def get_u16_def bslice_def le_bytes_2_unat)
  have nm: "bslice 4 (length name) ?b = name" by (simp add: encode_table_payload_def bslice_def)
  have hd: "4 + length name = length (le_bytes 2 (length name) @ le_bytes 2 (length cs) @ name)" by simp
  have "decode_table_cols ?b (length cs) (4 + length name) = Inr cs"
    unfolding hd by (rule decode_table_cols_entries [OF assms(2)]) (simp add: encode_table_payload_def)
  moreover have "\<not> length ?b < 4 + length name" by (simp add: encode_table_payload_def)
  ultimately show ?thesis using n(1) nm l by (simp add: decode_table_payload_def Let_def from_utf8_def)
qed

end
