(* ===== verification/Memc_Codec.thy ===== *)
theory Memc_Codec
  imports Memc_Layout
begin

text \<open>
  Columns of a MEMC page (\<open>probing/memtable/src/memc/codec.rs\<close>): the typed column, the builder that
  transposes rows, and the encoding of a column as a sub-block of a page payload. The numeric
  compressor \<open>pco\<close> is another crate: its two functions, at the 32-bit and the 64-bit number types,
  are the fields of the record \<open>pco\<close>, and \<open>pco_lossless\<close> is what its documentation promises.
\<close>

section \<open>Columns\<close>

datatype ColumnData =
    CU8 "byte list" | CU32 "u32 list" | CI32 "i32 list" | CI64 "i64 list" | CF32 "f32 list" | CF64 "f64 list"
  | CU64 "u64 list" | CStr "byte list list" | CBytes "byte list list"

fun column_dtype :: "ColumnData \<Rightarrow> DType" where
  "column_dtype (CU8 _) = DU8"
| "column_dtype (CU32 _) = DU32"
| "column_dtype (CI32 _) = DI32"
| "column_dtype (CI64 _) = DI64"
| "column_dtype (CF32 _) = DF32"
| "column_dtype (CF64 _) = DF64"
| "column_dtype (CU64 _) = DU64"
| "column_dtype (CStr _) = DStr"
| "column_dtype (CBytes _) = DBytes"

fun column_len :: "ColumnData \<Rightarrow> usize" where
  "column_len (CU8 v) = length v"
| "column_len (CU32 v) = length v"
| "column_len (CI32 v) = length v"
| "column_len (CI64 v) = length v"
| "column_len (CF32 v) = length v"
| "column_len (CF64 v) = length v"
| "column_len (CU64 v) = length v"
| "column_len (CStr v) = length v"
| "column_len (CBytes v) = length v"

definition column_is_empty :: "ColumnData \<Rightarrow> bool" where
  "column_is_empty c \<longleftrightarrow> column_len c = 0"

fun builder_new :: "DType \<Rightarrow> ColumnData" where
  "builder_new DU8 = CU8 []"
| "builder_new DU32 = CU32 []"
| "builder_new DI32 = CI32 []"
| "builder_new DI64 = CI64 []"
| "builder_new DF32 = CF32 []"
| "builder_new DF64 = CF64 []"
| "builder_new DU64 = CU64 []"
| "builder_new DStr = CStr []"
| "builder_new DBytes = CBytes []"

text \<open>A value of another type is dropped (in a build with debug assertions it is a panic).\<close>

fun builder_push :: "ColumnData \<Rightarrow> Value \<Rightarrow> ColumnData" where
  "builder_push (CU8 d) (VU8 x) = CU8 (d @ [x])"
| "builder_push (CU32 d) (VU32 x) = CU32 (d @ [x])"
| "builder_push (CI32 d) (VI32 x) = CI32 (d @ [x])"
| "builder_push (CI64 d) (VI64 x) = CI64 (d @ [x])"
| "builder_push (CF32 d) (VF32 x) = CF32 (d @ [x])"
| "builder_push (CF64 d) (VF64 x) = CF64 (d @ [x])"
| "builder_push (CU64 d) (VU64 x) = CU64 (d @ [x])"
| "builder_push (CStr d) (VStr x) = CStr (d @ [x])"
| "builder_push (CBytes d) (VBytes x) = CBytes (d @ [x])"
| "builder_push c v = c"

section \<open>Encoding\<close>

record pco =
  compress32 :: "DType \<Rightarrow> 32 word list \<Rightarrow> string + byte list"
  compress64 :: "DType \<Rightarrow> 64 word list \<Rightarrow> string + byte list"
  decompress32 :: "DType \<Rightarrow> byte list \<Rightarrow> string + 32 word list"
  decompress64 :: "DType \<Rightarrow> byte list \<Rightarrow> string + 64 word list"

definition pco_lossless :: "pco \<Rightarrow> bool" where
  "pco_lossless p \<longleftrightarrow>
     (\<forall>d v bs. compress32 p d v = Inr bs \<longrightarrow> decompress32 p d bs = Inr v) \<and>
     (\<forall>d v bs. compress64 p d v = Inr bs \<longrightarrow> decompress64 p d bs = Inr v)"

datatype codec_error = Msg string | PcoError string | VarlenCount usize usize | RowCountMismatch usize usize

definition encode_varlen :: "(usize \<times> byte list) list \<Rightarrow> byte list" where
  "encode_varlen entries = concat (map (\<lambda>(len, bytes). le_bytes 4 len @ bytes) entries)"

fun column_payload :: "pco \<Rightarrow> ColumnData \<Rightarrow> codec_error + (ColEncoding \<times> byte list)" where
  "column_payload p (CU8 v) = Inr (RawFixed, v)"
| "column_payload p (CI32 v) = map_sum PcoError (Pair Pco) (compress32 p DI32 v)"
| "column_payload p (CI64 v) = map_sum PcoError (Pair Pco) (compress64 p DI64 v)"
| "column_payload p (CF32 v) = map_sum PcoError (Pair Pco) (compress32 p DF32 v)"
| "column_payload p (CF64 v) = map_sum PcoError (Pair Pco) (compress64 p DF64 v)"
| "column_payload p (CU32 v) = map_sum PcoError (Pair Pco) (compress32 p DU32 v)"
| "column_payload p (CU64 v) = map_sum PcoError (Pair Pco) (compress64 p DU64 v)"
| "column_payload p (CStr v) = Inr (RawVarLen, encode_varlen (map (\<lambda>s. (length s, s)) v))"
| "column_payload p (CBytes v) = Inr (RawVarLen, encode_varlen (map (\<lambda>s. (length s, s)) v))"

definition encode_column :: "pco \<Rightarrow> ColumnData \<Rightarrow> codec_error + byte list" where
  "encode_column p col =
    (case column_payload p col of
       Inl e \<Rightarrow> Inl e
     | Inr (encoding, pl) \<Rightarrow>
         Inr ([enc_code encoding, word_of_nat (dtype_code (column_dtype col)), 0, 0]
              @ le_bytes 4 (length pl) @ pl))"

section \<open>Decoding\<close>

function decode_varlen_from ::
  "buf \<Rightarrow> usize \<Rightarrow> usize \<Rightarrow> byte list list \<Rightarrow> codec_error + byte list list" where
  "decode_varlen_from pl rc off out =
    (if off < length pl then
       (case checked_add off 4 of
          None \<Rightarrow> Inl (Msg ''varlen entry length offset overflow'')
        | Some len_end \<Rightarrow>
            if length pl < len_end then Inl (Msg ''trailing bytes in varlen column'')
            else (case checked_add len_end (unat (get_u32 pl off)) of
                None \<Rightarrow> Inl (Msg ''varlen entry length overflow'')
              | Some entry_end \<Rightarrow>
                  if length pl < entry_end then Inl (Msg ''varlen entry out of bounds'')
                  else (let out = out @ [bslice len_end (entry_end - len_end) pl] in
                    if rc < length out then Inl (Msg ''varlen column has more rows than declared'')
                    else decode_varlen_from pl rc entry_end out)))
     else if length out \<noteq> rc then Inl (VarlenCount rc (length out))
     else Inr out)"
  by pat_completeness auto
termination
  by (relation "measure (\<lambda>(p, n, off, out). length p - off)") auto

declare decode_varlen_from.simps [simp del]

definition decode_varlen_entries :: "buf \<Rightarrow> usize \<Rightarrow> codec_error + byte list list" where
  "decode_varlen_entries pl rc = decode_varlen_from pl rc 0 []"

definition decode_varlen_str :: "buf \<Rightarrow> usize \<Rightarrow> codec_error + byte list list" where
  "decode_varlen_str pl rc =
    (case decode_varlen_entries pl rc of
       Inl e \<Rightarrow> Inl e
     | Inr es \<Rightarrow> if list_all utf8_ok es then Inr es else Inl (Msg ''varlen str not utf-8''))"

definition decode_varlen_bytes :: "buf \<Rightarrow> usize \<Rightarrow> codec_error + byte list list" where
  "decode_varlen_bytes pl rc = decode_varlen_entries pl rc"

fun decode_typed :: "pco \<Rightarrow> ColEncoding \<Rightarrow> DType \<Rightarrow> buf \<Rightarrow> usize \<Rightarrow> codec_error + ColumnData" where
  "decode_typed p RawFixed DU8 pl rc = Inr (CU8 pl)"
| "decode_typed p Pco DI32 pl rc = map_sum PcoError CI32 (decompress32 p DI32 pl)"
| "decode_typed p Pco DI64 pl rc = map_sum PcoError CI64 (decompress64 p DI64 pl)"
| "decode_typed p Pco DF32 pl rc = map_sum PcoError CF32 (decompress32 p DF32 pl)"
| "decode_typed p Pco DF64 pl rc = map_sum PcoError CF64 (decompress64 p DF64 pl)"
| "decode_typed p Pco DU32 pl rc = map_sum PcoError CU32 (decompress32 p DU32 pl)"
| "decode_typed p Pco DU64 pl rc = map_sum PcoError CU64 (decompress64 p DU64 pl)"
| "decode_typed p RawVarLen DStr pl rc = map_sum id CStr (decode_varlen_str pl rc)"
| "decode_typed p RawVarLen DBytes pl rc = map_sum id CBytes (decode_varlen_bytes pl rc)"
| "decode_typed p _ _ pl rc = Inl (Msg ''encoding/dtype mismatch'')"

definition decode_column :: "pco \<Rightarrow> buf \<Rightarrow> usize \<Rightarrow> codec_error + (ColumnData \<times> usize)" where
  "decode_column p b rc =
    (if length b < 8 then Inl (Msg ''column sub-block too small'')
     else (case enc_from_u8 (b ! 0) of
         None \<Rightarrow> Inl (Msg ''invalid column encoding'')
       | Some encoding \<Rightarrow>
           (case dtype_from_u32 (unat (b ! 1)) of
              None \<Rightarrow> Inl (Msg ''invalid column dtype'')
            | Some dtype \<Rightarrow>
                (case checked_add 8 (unat (get_u32 b 4)) of
                   None \<Rightarrow> Inl (Msg ''column payload length overflow'')
                 | Some end \<Rightarrow>
                     if length b < end then Inl (Msg ''column payload out of bounds'')
                     else map_sum id (\<lambda>col. (col, end))
                            (decode_typed p encoding dtype (bslice 8 (end - 8) b) rc)))))"

section \<open>Round trip\<close>

text \<open>A column that the format can hold: valid text, and lengths within 32 bits.\<close>

fun entries_of :: "ColumnData \<Rightarrow> byte list list" where
  "entries_of (CStr v) = v"
| "entries_of (CBytes v) = v"
| "entries_of c = []"

definition column_ok :: "pco \<Rightarrow> ColumnData \<Rightarrow> bool" where
  "column_ok p c \<longleftrightarrow> (\<forall>v. c = CStr v \<longrightarrow> list_all utf8_ok v) \<and> (\<forall>e\<in>set (entries_of c). length e < 2 ^ 32) \<and>
     (\<forall>en bs. column_payload p c = Inr (en, bs) \<longrightarrow> length bs < 2 ^ 32)"

lemma get_u32_le: "n < 2 ^ 32 \<Longrightarrow> unat (get_u32 (pre @ le_bytes 4 n @ rest) (length pre)) = n"
  by (simp add: get_u32_def bslice_def word_of_le_def le_simps unat_of_nat)

lemma decode_varlen_from_entries:
  assumes "pl = pre @ encode_varlen (map (\<lambda>s. (length s, s)) es)" "\<forall>e\<in>set es. length e < 2 ^ 32"
    and "length pl < 2 ^ 64" "length out + length es = rc"
  shows "decode_varlen_from pl rc (length pre) out = Inr (out @ es)"
  using assms(1,2,4)
proof (induction es arbitrary: pre out)
  case Nil
  then show ?case by (subst decode_varlen_from.simps) (simp add: encode_varlen_def)
next
  case (Cons e es)
  let ?tail = "encode_varlen (map (\<lambda>s. (length s, s)) es)"
  have p: "pl = pre @ le_bytes 4 (length e) @ e @ ?tail" using Cons.prems(1) by (simp add: encode_varlen_def)
  have n: "unat (get_u32 pl (length pre)) = length e"
    unfolding p using Cons.prems(2) by (intro get_u32_le) simp
  have sl: "bslice (length pre + 4) (length e) pl = e" unfolding p by (simp add: bslice_def)
  have len: "length pre + 4 + length e \<le> length pl" unfolding p by simp
  have next_pre: "length pre + 4 + length e = length (pre @ le_bytes 4 (length e) @ e)" by simp
  have ih: "decode_varlen_from pl rc (length pre + 4 + length e) (out @ [e]) = Inr ((out @ [e]) @ es)"
    unfolding next_pre by (rule Cons.IH) (use p Cons.prems in auto)
  have ca: "checked_add (length pre) 4 = Some (length pre + 4)"
    "checked_add (length pre + 4) (length e) = Some (length pre + 4 + length e)"
    using len assms(3) by simp_all
  show ?case
    using len Cons.prems(3) sl ih
    by (subst decode_varlen_from.simps) (simp add: ca n Let_def del: checked_add_eq_Some)
qed

lemma decode_varlen_encode:
  assumes "\<forall>e\<in>set es. length e < 2 ^ 32" "length (encode_varlen (map (\<lambda>s. (length s, s)) es)) < 2 ^ 64"
  shows "decode_varlen_entries (encode_varlen (map (\<lambda>s. (length s, s)) es)) (length es) = Inr es"
  using decode_varlen_from_entries [of _ "[]" es "[]"] assms by (simp add: decode_varlen_entries_def)

lemma decode_typed_payload:
  assumes "pco_lossless p" "column_payload p c = Inr (en, bs)" "column_ok p c"
  shows "decode_typed p en (column_dtype c) bs (column_len c) = Inr c"
proof -
  have e: "\<forall>e\<in>set (entries_of c). length e < 2 ^ 32" and l: "length bs < 2 ^ 64"
    using assms(2,3) by (auto simp: column_ok_def)
  note pll = assms(1) [unfolded pco_lossless_def]
  have map_sumD: "map_sum PcoError (Pair Pco) r = Inr (en, bs) \<Longrightarrow> r = Inr bs \<and> en = Pco" for r :: "string + byte list"
    by (cases r) auto
  show ?thesis
  proof (cases c)
    case (CStr v)
    then have bs: "bs = encode_varlen (map (\<lambda>s. (length s, s)) v)" "en = RawVarLen" using assms(2) by auto
    have "list_all utf8_ok v" using assms(3) CStr by (auto simp: column_ok_def)
    then show ?thesis using decode_varlen_encode [of v] e l CStr bs by (simp add: decode_varlen_str_def)
  next
    case (CBytes v)
    then have bs: "bs = encode_varlen (map (\<lambda>s. (length s, s)) v)" "en = RawVarLen" using assms(2) by auto
    then show ?thesis using decode_varlen_encode [of v] e l CBytes by (simp add: decode_varlen_bytes_def)
  qed (use assms(2) pll in \<open>auto dest!: map_sumD\<close>)
qed

lemma column_round_trip:
  assumes "pco_lossless p" "encode_column p c = Inr bs" "column_ok p c"
  shows "decode_column p (bs @ rest) (column_len c) = Inr (c, length bs)"
proof -
  from assms(2) obtain en pay where pay: "column_payload p c = Inr (en, pay)"
    and bs: "bs = [enc_code en, word_of_nat (dtype_code (column_dtype c)), 0, 0] @ le_bytes 4 (length pay) @ pay"
    by (auto simp: encode_column_def split: sum.splits)
  have l: "length pay < 2 ^ 32" using assms(3) pay by (auto simp: column_ok_def)
  let ?b = "bs @ rest"
  have n: "unat (get_u32 ?b 4) = length pay"
    using l by (simp add: bs get_u32_def bslice_def word_of_le_def le_simps unat_of_nat)
  have "bslice 8 (length pay) ?b = pay" by (simp add: bs bslice_def)
  moreover have "enc_from_u8 (?b ! 0) = Some en" by (cases en) (simp_all add: bs enc_from_u8_def)
  moreover have "dtype_from_u32 (unat (?b ! 1)) = Some (column_dtype c)" by (simp add: bs dtype_code_byte)
  moreover have "checked_add 8 (length pay) = Some (8 + length pay)" using l by simp
  moreover have "length bs = 8 + length pay" by (simp add: bs)
  ultimately show ?thesis
    using n decode_typed_payload [OF assms(1) pay assms(3)]
    by (simp add: decode_column_def del: checked_add_eq_Some)
qed

end
