(* ===== verification/Memc_Writer.thy ===== *)
theory Memc_Writer
  imports Memc_Codec Raw_Append
begin

text \<open>
  Writing a MEMC segment (\<open>probing/memtable/src/memc/writer.rs\<close>). The file is the list of its bytes
  and every operation but the last header rewrite appends to it. What the operating system decides
  is an argument: \<open>io file bytes\<close> says whether a \<open>write_all\<close> succeeds (\<^term>\<open>None\<close>) or fails after a number
  of bytes; a failed write leaves those bytes in the file. Each operation takes its own \<open>io\<close>.
\<close>

section \<open>Files\<close>

datatype io_error = OsError | Other string | NotFound string | InvalidInput string | InvalidData string | ColumnEncode codec_error

type_synonym io = "buf \<Rightarrow> byte list \<Rightarrow> usize option"

definition write_all :: "io \<Rightarrow> buf \<Rightarrow> byte list \<Rightarrow> bool \<times> buf" where
  "write_all io f bytes =
    (case io f bytes of None \<Rightarrow> (True, f @ bytes) | Some n \<Rightarrow> (False, f @ take n bytes))"

section \<open>State\<close>

record PageDirEntry =
  pd_table_id :: u32
  pd_row_count :: u32
  pd_col_count :: u32
  pd_ts_min :: i64
  pd_ts_max :: i64
  pd_block_off :: u64
  pd_block_len :: u32
  pd_source_gen :: u64
  pd_source_chunk :: u32
  pd_source_instance :: u64

record TableInfo =
  ti_cols :: "(byte list \<times> DType) list"
  ti_ts_col :: "usize option"

record SegmentWriter =
  sw_file :: buf
  sw_path :: string
  sw_offset :: usize
  sw_tables :: "u32 \<rightharpoonup> TableInfo"
  sw_next_table_id :: u32
  sw_pages :: "PageDirEntry list"
  sw_ts_min :: i64
  sw_ts_max :: i64
  sw_sealed :: bool

text \<open>\<open>opened\<close>: whether the directory and the new file could be created; \<open>now\<close> is the wall clock.\<close>

definition new_segment_header :: "os \<Rightarrow> u64 \<Rightarrow> SegmentHeader" where
  "new_segment_header os now =
    (let pid = current_process_id os
     in \<lparr>sh_flags = 0, sh_writer_pid = pid, sh_writer_start = process_start_time os pid,
         sh_created_unix_ms = now, sh_footer_off = 0, sh_ts_min = TS_MIN_INIT, sh_ts_max = TS_MAX_INIT,
         sh_page_count = 0\<rparr>)"

definition segment_create :: "hash64 \<Rightarrow> os \<Rightarrow> u64 \<Rightarrow> bool \<Rightarrow> io \<Rightarrow> string \<Rightarrow> io_error + SegmentWriter" where
  "segment_create xxh os now opened io path =
    (if \<not> opened then Inl OsError
     else (let (ok, f) = write_all io [] (segment_encode xxh (new_segment_header os now))
           in if \<not> ok then Inl OsError
              else Inr \<lparr>sw_file = f, sw_path = path, sw_offset = SEGMENT_HEADER_SIZE, sw_tables = Map.empty,
                        sw_next_table_id = 1, sw_pages = [], sw_ts_min = TS_MIN_INIT, sw_ts_max = TS_MAX_INIT,
                        sw_sealed = False\<rparr>))"

definition sw_page_count :: "SegmentWriter \<Rightarrow> usize" where
  "sw_page_count w = length (sw_pages w)"

definition sw_size_bytes :: "SegmentWriter \<Rightarrow> usize" where
  "sw_size_bytes w = sw_offset w"

definition sw_ts_span :: "SegmentWriter \<Rightarrow> (i64 \<times> i64) option" where
  "sw_ts_span w = (if sint (sw_ts_min w) \<le> sint (sw_ts_max w) then Some (sw_ts_min w, sw_ts_max w) else None)"

section \<open>Blocks\<close>

definition write_block ::
  "hash64 \<Rightarrow> io \<Rightarrow> BlockHeader \<Rightarrow> byte list \<Rightarrow> SegmentWriter \<Rightarrow> (io_error + usize) \<times> SegmentWriter" where
  "write_block xxh io h pl w =
    (let raw = BLOCK_HEADER_SIZE + length pl;
         padded = memc_align64 raw;
         (ok1, f1) = write_all io (sw_file w) (block_encode xxh h)
     in if \<not> ok1 then (Inl OsError, w\<lparr>sw_file := f1\<rparr>)
        else (let (ok2, f2) = write_all io f1 pl in
          if \<not> ok2 then (Inl OsError, w\<lparr>sw_file := f2\<rparr>)
          else (let (ok3, f3) = (if raw < padded then write_all io f2 (replicate (padded - raw) 0) else (True, f2)) in
            if \<not> ok3 then (Inl OsError, w\<lparr>sw_file := f3\<rparr>)
            else (Inr padded, w\<lparr>sw_file := f3, sw_offset := sw_offset w + padded\<rparr>))))"

definition table_block_header :: "hash64 \<Rightarrow> u32 \<Rightarrow> (byte list \<times> DType) list \<Rightarrow> byte list \<Rightarrow> BlockHeader" where
  "table_block_header xxh tid cs pl =
     \<lparr>bh_magic = MAGIC_TABLE_BLOCK, bh_table_id = tid, bh_row_count = 0, bh_col_count = word_of_nat (length cs),
      bh_ts_min = TS_MIN_INIT, bh_ts_max = TS_MAX_INIT, bh_source_gen = 0, bh_payload_len = word_of_nat (length pl),
      bh_payload_xxh = xxh32 xxh pl, bh_source_chunk = SOURCE_CHUNK_NONE, bh_source_instance = 0\<rparr>"

definition register_table ::
  "hash64 \<Rightarrow> io \<Rightarrow> SegmentWriter \<Rightarrow> byte list \<Rightarrow> (byte list \<times> DType) list \<Rightarrow> (io_error + u32) \<times> SegmentWriter" where
  "register_table xxh io w name cs =
    (let tid = sw_next_table_id w;
         w = w\<lparr>sw_next_table_id := tid + 1\<rparr>;
         pl = encode_table_payload name cs
     in (case write_block xxh io (table_block_header xxh tid cs pl) pl w of
           (Inl e, w) \<Rightarrow> (Inl e, w)
         | (Inr _, w) \<Rightarrow>
             (Inr tid, w\<lparr>sw_tables := (sw_tables w)(tid \<mapsto> \<lparr>ti_cols = cs, ti_ts_col = cols_ts_col cs\<rparr>)\<rparr>)))"

section \<open>Pages\<close>

fun check_columns :: "(byte list \<times> DType) list \<Rightarrow> usize \<Rightarrow> ColumnData list \<Rightarrow> io_error + unit" where
  "check_columns (c # cs) n (col # rest) =
    (if column_dtype col \<noteq> snd c then Inl (InvalidInput ''page column dtype mismatch'')
     else if column_len col \<noteq> n then Inl (InvalidInput ''page columns have unequal lengths'')
     else check_columns cs n rest)"
| "check_columns _ n _ = Inr ()"

definition page_ts_range :: "usize option \<Rightarrow> ColumnData list \<Rightarrow> i64 \<times> i64" where
  "page_ts_range tc columns =
    (case tc of
       Some ci \<Rightarrow>
         (case columns ! ci of
            CI64 v \<Rightarrow> foldl (\<lambda>(lo, hi) t. (ts_min lo t, ts_max hi t)) (TS_MIN_INIT, TS_MAX_INIT) v
          | _ \<Rightarrow> (TS_MIN_INIT, TS_MAX_INIT))
     | None \<Rightarrow> (TS_MIN_INIT, TS_MAX_INIT))"

fun encode_columns :: "pco \<Rightarrow> ColumnData list \<Rightarrow> codec_error + byte list" where
  "encode_columns p [] = Inr []"
| "encode_columns p (c # cs) =
    (case encode_column p c of
       Inl e \<Rightarrow> Inl e
     | Inr sub \<Rightarrow> (case encode_columns p cs of Inl e \<Rightarrow> Inl e | Inr rest \<Rightarrow> Inr (sub @ rest)))"

definition page_block_header ::
  "hash64 \<Rightarrow> u32 \<Rightarrow> ColumnData list \<Rightarrow> i64 \<times> i64 \<Rightarrow> u64 \<Rightarrow> u32 \<Rightarrow> u64 \<Rightarrow> byte list \<Rightarrow> BlockHeader" where
  "page_block_header xxh tid columns rg gen chunk inst pl =
     \<lparr>bh_magic = MAGIC_PAGE_BLOCK, bh_table_id = tid, bh_row_count = word_of_nat (column_len (hd columns)),
      bh_col_count = word_of_nat (length columns), bh_ts_min = fst rg, bh_ts_max = snd rg, bh_source_gen = gen,
      bh_payload_len = word_of_nat (length pl), bh_payload_xxh = xxh32 xxh pl, bh_source_chunk = chunk,
      bh_source_instance = inst\<rparr>"

definition append_page_from ::
  "hash64 \<Rightarrow> pco \<Rightarrow> io \<Rightarrow> SegmentWriter \<Rightarrow> u32 \<Rightarrow> ColumnData list \<Rightarrow> u64 \<Rightarrow> u32 \<Rightarrow> u64 \<Rightarrow>
    (io_error + unit) \<times> SegmentWriter" where
  "append_page_from xxh p io w tid columns gen chunk inst =
    (case sw_tables w tid of
       None \<Rightarrow> (Inl (NotFound ''unknown table_id''), w)
     | Some info \<Rightarrow>
         if length columns \<noteq> length (ti_cols info) then (Inl (InvalidInput ''page column count mismatch''), w)
         else (let n = (case columns of [] \<Rightarrow> 0 | c # _ \<Rightarrow> column_len c) in
           (case check_columns (ti_cols info) n columns of
              Inl e \<Rightarrow> (Inl e, w)
            | Inr _ \<Rightarrow>
                if n = 0 then (Inr (), w)
                else (let rg = page_ts_range (ti_ts_col info) columns in
                  (case encode_columns p columns of
                     Inl e \<Rightarrow> (Inl (ColumnEncode e), w)
                   | Inr pl \<Rightarrow>
                       (case write_block xxh io (page_block_header xxh tid columns rg gen chunk inst pl) pl w of
                          (Inl e, w') \<Rightarrow> (Inl e, w')
                        | (Inr block_len, w') \<Rightarrow>
                            (let w' = (if sint (fst rg) \<le> sint (snd rg)
                                       then w'\<lparr>sw_ts_min := ts_min (sw_ts_min w') (fst rg),
                                               sw_ts_max := ts_max (sw_ts_max w') (snd rg)\<rparr>
                                       else w')
                             in (Inr (), w'\<lparr>sw_pages := sw_pages w' @
                                  [\<lparr>pd_table_id = tid, pd_row_count = word_of_nat n, pd_col_count = word_of_nat (length columns),
                                    pd_ts_min = fst rg, pd_ts_max = snd rg, pd_block_off = word_of_nat (sw_offset w),
                                    pd_block_len = word_of_nat block_len, pd_source_gen = gen, pd_source_chunk = chunk,
                                    pd_source_instance = inst\<rparr>]\<rparr>))))))))"

definition append_page ::
  "hash64 \<Rightarrow> pco \<Rightarrow> io \<Rightarrow> SegmentWriter \<Rightarrow> u32 \<Rightarrow> ColumnData list \<Rightarrow> u64 \<Rightarrow> u32 \<Rightarrow> (io_error + unit) \<times> SegmentWriter" where
  "append_page xxh p io w tid columns gen chunk = append_page_from xxh p io w tid columns gen chunk 0"

section \<open>Sealing\<close>

definition dir_entry :: "PageDirEntry \<Rightarrow> byte list" where
  "dir_entry p = word_le 4 (pd_table_id p) @ word_le 4 (pd_row_count p) @ word_le 8 (pd_ts_min p) @ word_le 8 (pd_ts_max p) @
     word_le 8 (pd_block_off p) @ word_le 4 (pd_block_len p) @ word_le 4 (pd_col_count p) @ word_le 8 (pd_source_gen p) @
     word_le 4 (pd_source_chunk p) @ [0, 0, 0, 0] @ word_le 8 (pd_source_instance p)"

definition footer_bytes :: "hash64 \<Rightarrow> PageDirEntry list \<Rightarrow> byte list" where
  "footer_bytes xxh pages =
    (let entries = concat (map dir_entry pages) in
     word_le 4 MAGIC_FOOTER @ le_bytes 4 (length pages) @ le_bytes 4 (length pages * PAGE_DIR_ENTRY_SIZE) @
     word_le 4 (xxh32 xxh entries) @ entries)"

text \<open>
  \<open>hdr_io\<close>: whether rewriting the header at the start of the file succeeds, or after how many bytes
  it fails; \<open>synced\<close>: whether \<open>flush\<close> and \<open>sync_data\<close> succeed.
\<close>

definition seal ::
  "hash64 \<Rightarrow> os \<Rightarrow> u64 \<Rightarrow> io \<Rightarrow> usize option \<Rightarrow> bool \<Rightarrow> SegmentWriter \<Rightarrow> (io_error + string) \<times> buf" where
  "seal xxh os now io hdr_io synced w =
    (let footer_off = sw_offset w;
         (ok, f) = write_all io (sw_file w) (footer_bytes xxh (sw_pages w))
     in if \<not> ok then (Inl OsError, f)
        else (let pid = current_process_id os;
                  h = \<lparr>sh_flags = FLAG_SEALED, sh_writer_pid = pid, sh_writer_start = process_start_time os pid,
                       sh_created_unix_ms = now, sh_footer_off = word_of_nat footer_off, sh_ts_min = sw_ts_min w,
                       sh_ts_max = sw_ts_max w, sh_page_count = word_of_nat (length (sw_pages w))\<rparr>;
                  bytes = segment_encode xxh h
              in (case hdr_io of
                    Some n \<Rightarrow> (Inl OsError, bsplice 0 (take n bytes) f)
                  | None \<Rightarrow>
                      if synced then (Inr (sw_path w), bsplice 0 bytes f) else (Inl OsError, bsplice 0 bytes f))))"

end
