(* ===== verification/Memc_Reader.thy ===== *)
theory Memc_Reader
  imports Memc_Codec
begin

text \<open>
  Opening and reading a MEMC segment (\<open>probing/memtable/src/memc/reader.rs\<close>). A sealed segment is
  read through its footer directory, an unsealed one by scanning its blocks. The mapped file is the
  list of its bytes.
\<close>

record PageMeta =
  pm_table_id :: u32
  pm_row_count :: u32
  pm_col_count :: u32
  pm_ts_min :: i64
  pm_ts_max :: i64
  pm_block_off :: u64
  pm_block_len :: u32
  pm_source_gen :: u64
  pm_source_chunk :: u32
  pm_source_instance :: u64

record SegmentReader =
  sr_mmap :: buf
  sr_path :: string
  sr_header :: SegmentHeader
  sr_tables :: "u32 \<rightharpoonup> TableDef"
  sr_pages :: "PageMeta list"

section \<open>The footer directory\<close>

definition footer_entry :: "buf \<Rightarrow> usize \<Rightarrow> usize \<Rightarrow> string + PageMeta" where
  "footer_entry b foff entry_off =
    (let block_off = get_u64 b (entry_off + 24);
         block_len = get_u32 b (entry_off + 32)
     in (case checked_add (unat block_off) (unat block_len) of
           None \<Rightarrow> Inl ''footer block length overflow''
         | Some block_end \<Rightarrow>
             if unat block_off < SEGMENT_HEADER_SIZE \<or> unat block_len < BLOCK_HEADER_SIZE \<or> foff < block_end
             then Inl ''MEMC footer page block range invalid''
             else Inr \<lparr>pm_table_id = get_u32 b entry_off, pm_row_count = get_u32 b (entry_off + 4),
                       pm_col_count = get_u32 b (entry_off + 36), pm_ts_min = get_i64 b (entry_off + 8),
                       pm_ts_max = get_i64 b (entry_off + 16), pm_block_off = block_off, pm_block_len = block_len,
                       pm_source_gen = get_u64 b (entry_off + 40), pm_source_chunk = get_u32 b (entry_off + 48),
                       pm_source_instance = get_u64 b (entry_off + 56)\<rparr>))"

text \<open>The loop over the entries: \<open>n\<close> are left, the next one is \<open>i\<close>.\<close>

fun footer_entries :: "buf \<Rightarrow> usize \<Rightarrow> usize \<Rightarrow> nat \<Rightarrow> usize \<Rightarrow> string + PageMeta list" where
  "footer_entries b foff start 0 i = Inr []"
| "footer_entries b foff start (Suc n) i =
    (case Option.bind (checked_mul i PAGE_DIR_ENTRY_SIZE) (checked_add start) of
       None \<Rightarrow> Inl ''footer entry offset overflow''
     | Some entry_off \<Rightarrow>
         (case footer_entry b foff entry_off of
            Inl e \<Rightarrow> Inl e
          | Inr pm \<Rightarrow>
              (case footer_entries b foff start n (i + 1) of Inl e \<Rightarrow> Inl e | Inr ps \<Rightarrow> Inr (pm # ps))))"

definition load_footer :: "hash64 \<Rightarrow> buf \<Rightarrow> SegmentHeader \<Rightarrow> string + PageMeta list" where
  "load_footer xxh b h =
    (let foff = unat (sh_footer_off h) in
     case checked_add foff 16 of
       None \<Rightarrow> Inl ''footer header overflow''
     | Some footer_header_end \<Rightarrow>
         if length b < footer_header_end \<or> get_u32 b foff \<noteq> MAGIC_FOOTER then Inl ''MEMC footer missing or invalid''
         else (let count = unat (get_u32 b (foff + 4));
                   entries_len = unat (get_u32 b (foff + 8));
                   checksum = get_u32 b (foff + 12)
               in (case checked_mul count PAGE_DIR_ENTRY_SIZE of
                     None \<Rightarrow> Inl ''footer page count overflow''
                   | Some expected \<Rightarrow>
                       if count \<noteq> unat (sh_page_count h) \<or> entries_len \<noteq> expected
                       then Inl ''MEMC footer page count mismatch''
                       else (case checked_add footer_header_end entries_len of
                           None \<Rightarrow> Inl ''footer entries length overflow''
                         | Some entries_end \<Rightarrow>
                             if length b < entries_end \<or>
                                xxh32 xxh (bslice footer_header_end (entries_end - footer_header_end) b) \<noteq> checksum
                             then Inl ''MEMC footer checksum mismatch''
                             else footer_entries b foff footer_header_end count 0))))"

section \<open>Scanning blocks\<close>

definition block_meta :: "BlockHeader \<Rightarrow> usize \<Rightarrow> usize \<Rightarrow> PageMeta" where
  "block_meta bh off block_len =
     \<lparr>pm_table_id = bh_table_id bh, pm_row_count = bh_row_count bh, pm_col_count = bh_col_count bh,
      pm_ts_min = bh_ts_min bh, pm_ts_max = bh_ts_max bh, pm_block_off = word_of_nat off,
      pm_block_len = word_of_nat block_len, pm_source_gen = bh_source_gen bh, pm_source_chunk = bh_source_chunk bh,
      pm_source_instance = bh_source_instance bh\<rparr>"

text \<open>What the scan makes of one complete block, and the end of the loop.\<close>

type_synonym scan = "(u32 \<rightharpoonup> TableDef) \<times> PageMeta list"

definition scan_collect :: "bool \<Rightarrow> BlockHeader \<Rightarrow> buf \<Rightarrow> usize \<Rightarrow> usize \<Rightarrow> scan \<Rightarrow> string + scan" where
  "scan_collect footer_ok bh pl off block_len = (\<lambda>(tables, pages).
    if bh_magic bh = MAGIC_TABLE_BLOCK then
      (case decode_table_payload (bh_table_id bh) pl of
         Inl e \<Rightarrow> Inl e
       | Inr d \<Rightarrow> Inr (tables(bh_table_id bh \<mapsto> d), pages))
    else if bh_magic bh = MAGIC_PAGE_BLOCK \<and> \<not> footer_ok then Inr (tables, pages @ [block_meta bh off block_len])
    else Inr (tables, pages))"

definition scan_end :: "bool \<Rightarrow> usize \<Rightarrow> usize \<Rightarrow> scan \<Rightarrow> string + scan" where
  "scan_end sealed limit off acc =
    (if sealed \<and> off \<noteq> limit then Inl ''sealed MEMC segment has trailing or truncated block bytes'' else Inr acc)"

lemma aligned_block_pos: "64 \<le> clear_low6 (64 + n + 63)"
  using clear_low6_bounds [of "64 + n + 63"] by linarith

function scan_from :: "hash64 \<Rightarrow> buf \<Rightarrow> usize \<Rightarrow> bool \<Rightarrow> bool \<Rightarrow> usize \<Rightarrow> scan \<Rightarrow> string + scan" where
  "scan_from xxh b limit sealed footer_ok off acc =
    (case checked_add off BLOCK_HEADER_SIZE of
       None \<Rightarrow> scan_end sealed limit off acc
     | Some payload_start \<Rightarrow>
         if limit < payload_start then scan_end sealed limit off acc
         else (case block_decode xxh (drop off b) of
             None \<Rightarrow> Inl ''MEMC block header invalid''
           | Some bh \<Rightarrow>
               (case checked_add payload_start (unat (bh_payload_len bh)) of
                  None \<Rightarrow> Inl ''MEMC block payload length overflow''
                | Some payload_end \<Rightarrow>
                    if limit < payload_end then
                      (if sealed then Inl ''sealed MEMC block payload out of bounds'' else scan_end sealed limit off acc)
                    else (let pl = bslice payload_start (payload_end - payload_start) b in
                      if xxh32 xxh pl \<noteq> bh_payload_xxh bh then Inl ''MEMC block payload checksum mismatch''
                      else (case checked_add BLOCK_HEADER_SIZE (unat (bh_payload_len bh)) of
                          None \<Rightarrow> Inl ''MEMC block length overflow''
                        | Some raw_block_len \<Rightarrow>
                            (case map_option clear_low6 (checked_add raw_block_len 63) of
                               None \<Rightarrow> Inl ''MEMC aligned block length overflow''
                             | Some block_len \<Rightarrow>
                                 (case checked_add off block_len of
                                    None \<Rightarrow> Inl ''MEMC next block offset overflow''
                                  | Some next_off \<Rightarrow>
                                      if limit < next_off then
                                        (if sealed then Inl ''sealed MEMC aligned block out of bounds''
                                         else scan_end sealed limit off acc)
                                      else (case scan_collect footer_ok bh pl off block_len acc of
                                          Inl e \<Rightarrow> Inl e
                                        | Inr acc' \<Rightarrow> scan_from xxh b limit sealed footer_ok next_off acc'))))))))"
  by pat_completeness auto

termination
proof (relation "measure (\<lambda>(xxh, b, limit, sealed, fok, off, acc). limit - off)", goal_cases)
  case (2 xxh b limit sealed footer_ok off acc ps bh pe pl raw bl next_off acc')
  then show ?case
    using aligned_block_pos [of "unat (bh_payload_len bh)"] by (auto simp: BLOCK_HEADER_SIZE_def)
qed simp

declare scan_from.simps [simp del]

definition scan_blocks ::
  "hash64 \<Rightarrow> buf \<Rightarrow> SegmentHeader \<Rightarrow> bool \<Rightarrow> scan \<Rightarrow> string + scan" where
  "scan_blocks xxh b h footer_ok acc =
    (let limit = (if sh_footer_off h \<noteq> 0 then min (unat (sh_footer_off h)) (length b) else length b)
     in scan_from xxh b limit (is_sealed h) footer_ok SEGMENT_HEADER_SIZE acc)"

definition from_mmap :: "hash64 \<Rightarrow> buf \<Rightarrow> string \<Rightarrow> string + SegmentReader" where
  "from_mmap xxh b path =
    (case segment_decode xxh b of
       Inl e \<Rightarrow> Inl e
     | Inr h \<Rightarrow>
         (case (if is_sealed h then
                  (if sh_footer_off h = 0 then Inl ''sealed MEMC segment has no footer'' else load_footer xxh b h)
                else Inr []) of
            Inl e \<Rightarrow> Inl e
          | Inr dir \<Rightarrow>
              (case scan_blocks xxh b h (is_sealed h) (Map.empty, dir) of
                 Inl e \<Rightarrow> Inl e
               | Inr (tables, pages) \<Rightarrow>
                   Inr \<lparr>sr_mmap = b, sr_path = path, sr_header = h, sr_tables = tables, sr_pages = pages\<rparr>)))"

section \<open>Queries\<close>

definition sr_is_sealed :: "SegmentReader \<Rightarrow> bool" where
  "sr_is_sealed r = is_sealed (sr_header r)"

definition sr_ts_range :: "SegmentReader \<Rightarrow> (i64 \<times> i64) option" where
  "sr_ts_range r =
    (if is_sealed (sr_header r) \<and> sint (sh_ts_min (sr_header r)) \<le> sint (sh_ts_max (sr_header r))
     then Some (sh_ts_min (sr_header r), sh_ts_max (sr_header r)) else None)"

definition table_def :: "SegmentReader \<Rightarrow> u32 \<Rightarrow> TableDef option" where
  "table_def r tid = sr_tables r tid"

text \<open>The hash map is iterated in an order of its own: \<open>order\<close> lists its keys in that order.\<close>

definition table_defs :: "u32 list \<Rightarrow> SegmentReader \<Rightarrow> TableDef list" where
  "table_defs order r = List.map_filter (sr_tables r) order"

definition table_id_by_name :: "u32 list \<Rightarrow> SegmentReader \<Rightarrow> byte list \<Rightarrow> u32 option" where
  "table_id_by_name order r name = map_option td_id (find (\<lambda>d. td_name d = name) (table_defs order r))"

definition page_overlaps :: "i64 option \<Rightarrow> i64 option \<Rightarrow> PageMeta \<Rightarrow> bool" where
  "page_overlaps lo hi p \<longleftrightarrow>
    (if sint (pm_ts_max p) < sint (pm_ts_min p) then True
     else \<not> ((case lo of None \<Rightarrow> False | Some l \<Rightarrow> sint (pm_ts_max p) < sint l) \<or>
             (case hi of None \<Rightarrow> False | Some h \<Rightarrow> sint h < sint (pm_ts_min p))))"

definition pages_in_range :: "SegmentReader \<Rightarrow> u32 \<Rightarrow> i64 option \<Rightarrow> i64 option \<Rightarrow> usize list" where
  "pages_in_range r tid lo hi =
     map fst (filter (\<lambda>(_, p). page_overlaps lo hi p)
       (filter (\<lambda>(_, p). pm_table_id p = tid) (enumerate 0 (sr_pages r))))"

section \<open>Reading a page\<close>

fun read_columns :: "pco \<Rightarrow> buf \<Rightarrow> usize \<Rightarrow> usize \<Rightarrow> nat \<Rightarrow> usize \<Rightarrow> codec_error + ColumnData list" where
  "read_columns p b payload_end rc 0 off =
    (if off \<noteq> payload_end then Inl (Msg ''page payload has trailing bytes'') else Inr [])"
| "read_columns p b payload_end rc (Suc n) off =
    (case decode_column p (bslice off (payload_end - off) b) rc of
       Inl e \<Rightarrow> Inl e
     | Inr (col, used_bytes) \<Rightarrow>
         if column_len col \<noteq> rc then Inl (RowCountMismatch rc (column_len col))
         else (case checked_add off used_bytes of
             None \<Rightarrow> Inl (Msg ''column offset overflow'')
           | Some off' \<Rightarrow>
               (case read_columns p b payload_end rc n off' of Inl e \<Rightarrow> Inl e | Inr cs \<Rightarrow> Inr (col # cs))))"

definition read_page :: "hash64 \<Rightarrow> pco \<Rightarrow> SegmentReader \<Rightarrow> usize \<Rightarrow> codec_error + ColumnData list" where
  "read_page xxh p r index =
    (if length (sr_pages r) \<le> index then Inl (Msg ''page index out of range'')
     else (let pm = sr_pages r ! index; hstart = unat (pm_block_off pm); b = sr_mmap r in
       case checked_add hstart BLOCK_HEADER_SIZE of
         None \<Rightarrow> Inl (Msg ''page block header offset overflow'')
       | Some header_end \<Rightarrow>
           if length b < header_end then Inl (Msg ''page block header out of bounds'')
           else (case block_decode xxh (drop hstart b) of
               None \<Rightarrow> Inl (Msg ''page block header invalid'')
             | Some bh \<Rightarrow>
                 if bh_magic bh \<noteq> MAGIC_PAGE_BLOCK then Inl (Msg ''page directory points to a non-page block'')
                 else (case checked_add BLOCK_HEADER_SIZE (unat (bh_payload_len bh)) of
                     None \<Rightarrow> Inl (Msg ''page block length overflow'')
                   | Some raw_block_len \<Rightarrow> (case map_option clear_low6 (checked_add raw_block_len 63) of
                     None \<Rightarrow> Inl (Msg ''page aligned block length overflow'')
                   | Some block_len \<Rightarrow>
                       if bh_table_id bh \<noteq> pm_table_id pm \<or> bh_row_count bh \<noteq> pm_row_count pm \<or>
                          bh_col_count bh \<noteq> pm_col_count pm \<or> block_len \<noteq> unat (pm_block_len pm)
                       then Inl (Msg ''page directory does not match block header'')
                       else (case checked_add header_end (unat (bh_payload_len bh)) of
                           None \<Rightarrow> Inl (Msg ''page payload offset overflow'')
                         | Some payload_end \<Rightarrow>
                             if length b < payload_end then Inl (Msg ''page payload out of bounds'')
                             else if xxh32 xxh (bslice header_end (payload_end - header_end) b) \<noteq> bh_payload_xxh bh
                             then Inl (Msg ''page payload checksum mismatch'')
                             else read_columns p b payload_end (unat (bh_row_count bh)) (unat (bh_col_count bh)) header_end))))))"

end
