(* ===== verification/Memc_Segment.thy ===== *)
theory Memc_Segment
  imports Memc_Writer Memc_Reader
begin

text \<open>
  A segment as a log of entries: the specification of the MEMC format. An entry is a table
  definition or a page; the bytes of a segment file are the header followed by one padded block per
  entry. The writer appends entries and the reader recovers them, from the footer directory of a
  sealed file or by scanning any prefix of an unsealed one.
\<close>

section \<open>Entries and their blocks\<close>

datatype entry =
    TableEntry u32 "byte list" "(byte list \<times> DType) list"
  | PageEntry u32 "ColumnData list" "i64 \<times> i64" u64 u32 u64

fun entry_payload :: "pco \<Rightarrow> entry \<Rightarrow> byte list" where
  "entry_payload p (TableEntry tid name cs) = encode_table_payload name cs"
| "entry_payload p (PageEntry tid columns rg gen chunk inst) =
    (case encode_columns p columns of Inl _ \<Rightarrow> [] | Inr pl \<Rightarrow> pl)"

fun entry_header :: "hash64 \<Rightarrow> pco \<Rightarrow> entry \<Rightarrow> BlockHeader" where
  "entry_header xxh p (TableEntry tid name cs) =
     table_block_header xxh tid cs (entry_payload p (TableEntry tid name cs))"
| "entry_header xxh p (PageEntry tid columns rg gen chunk inst) =
     page_block_header xxh tid columns rg gen chunk inst (entry_payload p (PageEntry tid columns rg gen chunk inst))"

definition block_len_of :: "pco \<Rightarrow> entry \<Rightarrow> usize" where
  "block_len_of p e = memc_align64 (64 + length (entry_payload p e))"

definition entry_block :: "hash64 \<Rightarrow> pco \<Rightarrow> entry \<Rightarrow> byte list" where
  "entry_block xxh p e =
     block_encode xxh (entry_header xxh p e) @ entry_payload p e @
     replicate (block_len_of p e - (64 + length (entry_payload p e))) 0"

definition log_bytes :: "hash64 \<Rightarrow> pco \<Rightarrow> entry list \<Rightarrow> byte list" where
  "log_bytes xxh p es = concat (map (entry_block xxh p) es)"

text \<open>Entries that the fixed-width fields can describe.\<close>

definition payload_fits :: "byte list \<Rightarrow> bool" where
  "payload_fits pl \<longleftrightarrow> length pl + 127 < 2 ^ 32"

definition columns_ok :: "pco \<Rightarrow> usize \<Rightarrow> ColumnData list \<Rightarrow> bool" where
  "columns_ok p n columns \<longleftrightarrow> (\<forall>c\<in>set columns. column_ok p c \<and> column_len c = n)"

fun seg_entry_ok :: "pco \<Rightarrow> entry \<Rightarrow> bool" where
  "seg_entry_ok p (TableEntry tid name cs) \<longleftrightarrow>
     name_ok name \<and> (\<forall>c\<in>set cs. name_ok (fst c)) \<and> length cs < 2 ^ 16 \<and> payload_fits (encode_table_payload name cs)"
| "seg_entry_ok p (PageEntry tid columns rg gen chunk inst) \<longleftrightarrow>
     columns \<noteq> [] \<and> length columns < 2 ^ 32 \<and> column_len (hd columns) < 2 ^ 32 \<and>
     columns_ok p (column_len (hd columns)) columns \<and>
     (\<exists>pl. encode_columns p columns = Inr pl \<and> payload_fits pl)"

text \<open>What a reader gets to know from a log: its tables and, from the offset of its first block, its pages.\<close>

fun add_table :: "(u32 \<rightharpoonup> TableDef) \<Rightarrow> entry \<Rightarrow> (u32 \<rightharpoonup> TableDef)" where
  "add_table m (TableEntry tid name cs) =
     m(tid \<mapsto> \<lparr>td_id = tid, td_name = name, td_cols = cs, td_ts_col = cols_ts_col cs\<rparr>)"
| "add_table m (PageEntry tid columns rg gen chunk inst) = m"

definition log_tables :: "entry list \<Rightarrow> (u32 \<rightharpoonup> TableDef)" where
  "log_tables es = foldl add_table Map.empty es"

fun entry_meta :: "pco \<Rightarrow> usize \<Rightarrow> entry \<Rightarrow> PageMeta list" where
  "entry_meta p off (TableEntry tid name cs) = []"
| "entry_meta p off (PageEntry tid columns rg gen chunk inst) =
    [\<lparr>pm_table_id = tid, pm_row_count = word_of_nat (column_len (hd columns)), pm_col_count = word_of_nat (length columns),
      pm_ts_min = fst rg, pm_ts_max = snd rg, pm_block_off = word_of_nat off,
      pm_block_len = word_of_nat (block_len_of p (PageEntry tid columns rg gen chunk inst)),
      pm_source_gen = gen, pm_source_chunk = chunk, pm_source_instance = inst\<rparr>]"

fun log_pages :: "pco \<Rightarrow> usize \<Rightarrow> entry list \<Rightarrow> PageMeta list" where
  "log_pages p off [] = []"
| "log_pages p off (e # es) = entry_meta p off e @ log_pages p (off + block_len_of p e) es"

section \<open>Block arithmetic\<close>

lemma align_bounds: "64 + n \<le> memc_align64 (64 + n)" "memc_align64 (64 + n) \<le> n + 127" "64 \<le> memc_align64 (64 + n)"
  using clear_low6_bounds [of "64 + n + 63"] by (simp_all add: memc_align64_def)

lemma length_entry_block [simp]: "length (entry_block xxh p e) = block_len_of p e"
  using align_bounds(1) [of "length (entry_payload p e)"] by (simp add: entry_block_def block_len_of_def)

lemma block_len_ge [simp]: "64 \<le> block_len_of p e"
  by (simp add: block_len_of_def align_bounds)

lemma log_bytes_simps [simp]:
  "log_bytes xxh p [] = []"
  "log_bytes xxh p (e # es) = entry_block xxh p e @ log_bytes xxh p es"
  "log_bytes xxh p (es @ es') = log_bytes xxh p es @ log_bytes xxh p es'"
  by (simp_all add: log_bytes_def)

lemma log_pages_append:
  "log_pages p off (es @ es') = log_pages p off es @ log_pages p (off + length (log_bytes xxh p es)) es'"
  by (induction es arbitrary: off) (auto simp: add.assoc)

lemma log_tables_simps [simp]:
  "log_tables [] = Map.empty" "log_tables (es @ [e]) = add_table (log_tables es) e"
  by (simp_all add: log_tables_def)

text \<open>The header of an entry describes its payload.\<close>

lemma entry_payload_fits: "seg_entry_ok p e \<Longrightarrow> payload_fits (entry_payload p e)"
  by (cases e) auto

lemma entry_payload_len: "seg_entry_ok p e \<Longrightarrow> length (entry_payload p e) + 127 < 2 ^ 32"
  by (drule entry_payload_fits) (simp only: payload_fits_def)

lemma entry_header_facts [simp]:
  "bh_payload_xxh (entry_header xxh p e) = xxh32 xxh (entry_payload p e)"
  "bh_magic (entry_header xxh p e) = (case e of TableEntry _ _ _ \<Rightarrow> MAGIC_TABLE_BLOCK | PageEntry _ _ _ _ _ _ \<Rightarrow> MAGIC_PAGE_BLOCK)"
  by (cases e; simp add: table_block_header_def page_block_header_def)+

lemma entry_header_len: "seg_entry_ok p e \<Longrightarrow> unat (bh_payload_len (entry_header xxh p e)) = length (entry_payload p e)"
proof -
  assume ok: "seg_entry_ok p e"
  have "bh_payload_len (entry_header xxh p e) = word_of_nat (length (entry_payload p e))"
    by (cases e) (simp_all add: table_block_header_def page_block_header_def)
  then show ?thesis using entry_payload_len [OF ok] by (simp add: unat_of_nat)
qed

lemma entry_block_decode:
  assumes "64 \<le> n" shows "block_decode xxh (take n (entry_block xxh p e) @ rest) = Some (entry_header xxh p e)"
proof -
  have "take n (entry_block xxh p e) @ rest =
    block_encode xxh (entry_header xxh p e) @ take (n - 64) (drop 64 (entry_block xxh p e)) @ rest"
    using assms by (simp add: entry_block_def)
  then show ?thesis by (simp add: block_decode_encode split: entry.split)
qed

section \<open>Scanning a log\<close>

lemma magic_distinct [simp]: "MAGIC_PAGE_BLOCK \<noteq> MAGIC_TABLE_BLOCK" "MAGIC_FOOTER \<noteq> MAGIC_TABLE_BLOCK" "MAGIC_FOOTER \<noteq> MAGIC_PAGE_BLOCK"
  by (simp_all add: MAGIC_PAGE_BLOCK_def MAGIC_TABLE_BLOCK_def MAGIC_FOOTER_def word_of_le_def)

lemma scan_collect_entry:
  assumes "seg_entry_ok p e"
  shows "scan_collect fok (entry_header xxh p e) (entry_payload p e) off (block_len_of p e) (T, P) =
    Inr (add_table T e, P @ (if fok then [] else entry_meta p off e))"
proof (cases e)
  case (TableEntry tid name cs)
  then show ?thesis
    using assms decode_table_encode [of name cs tid]
    by (simp add: scan_collect_def table_block_header_def)
next
  case (PageEntry tid columns rg gen chunk inst)
  then show ?thesis by (simp add: scan_collect_def page_block_header_def block_meta_def)
qed

lemma scan_entry:
  assumes b: "b = pre @ entry_block xxh p e @ rest" and ok: "seg_entry_ok p e"
    and lim: "length pre + block_len_of p e \<le> limit" "limit \<le> length b" "length b < 2 ^ 64"
  shows "scan_from xxh b limit sealed fok (length pre) (T, P) =
    scan_from xxh b limit sealed fok (length pre + block_len_of p e)
      (add_table T e, P @ (if fok then [] else entry_meta p (length pre) e))"
proof -
  let ?pl = "entry_payload p e" and ?h = "entry_header xxh p e"
  have bl: "clear_low6 (127 + length ?pl) = block_len_of p e" by (simp add: block_len_of_def memc_align64_def)
  have ge: "64 + length ?pl \<le> block_len_of p e" "64 + length ?pl + 63 < 2 ^ 64"
    using align_bounds(1) entry_payload_len [OF ok] by (auto simp: block_len_of_def)
  have bd: "block_decode xxh (drop (length pre) b) = Some ?h"
    using entry_block_decode [of "block_len_of p e" xxh p e rest] unfolding b by simp
  have sl: "bslice (length pre + 64) (length ?pl) b = ?pl" unfolding b entry_block_def by (simp add: bslice_def)
  have ca: "checked_add (length pre) BLOCK_HEADER_SIZE = Some (length pre + 64)"
    "checked_add (length pre + 64) (length ?pl) = Some (length pre + 64 + length ?pl)"
    "checked_add BLOCK_HEADER_SIZE (length ?pl) = Some (64 + length ?pl)"
    "checked_add (64 + length ?pl) 63 = Some (64 + length ?pl + 63)"
    "checked_add (length pre) (block_len_of p e) = Some (length pre + block_len_of p e)"
    using ge lim by (simp_all add: BLOCK_HEADER_SIZE_def)
  have nl: "\<not> limit < length pre + 64" "\<not> limit < length pre + 64 + length ?pl" "\<not> limit < length pre + block_len_of p e"
    using ge(1) lim(1) by auto
  show ?thesis
    by (subst scan_from.simps)
      (simp add: ca nl bd sl entry_header_len [OF ok] bl scan_collect_entry [OF ok] Let_def del: checked_add_eq_Some entry_header_facts(2))
qed

lemma scan_log:
  assumes "b = pre @ log_bytes xxh p es @ rest" "list_all (seg_entry_ok p) es"
    and "length pre + length (log_bytes xxh p es) \<le> limit" "limit \<le> length b" "length b < 2 ^ 64"
  shows "scan_from xxh b limit sealed fok (length pre) (T, P) =
    scan_from xxh b limit sealed fok (length pre + length (log_bytes xxh p es))
      (foldl add_table T es, P @ (if fok then [] else log_pages p (length pre) es))"
  using assms
proof (induction es arbitrary: pre T P)
  case (Cons e es)
  let ?T = "add_table T e" and ?P = "P @ (if fok then [] else entry_meta p (length pre) e)"
  have "scan_from xxh b limit sealed fok (length pre) (T, P) =
      scan_from xxh b limit sealed fok (length pre + block_len_of p e) (?T, ?P)"
    by (rule scan_entry [where rest = "log_bytes xxh p es @ rest"]) (use Cons.prems in auto)
  also have "length pre + block_len_of p e = length (pre @ entry_block xxh p e)" by simp
  also have "scan_from xxh b limit sealed fok \<dots> (?T, ?P) =
      scan_from xxh b limit sealed fok (length (pre @ entry_block xxh p e) + length (log_bytes xxh p es))
        (foldl add_table ?T es, ?P @ (if fok then [] else log_pages p (length (pre @ entry_block xxh p e)) es))"
    by (rule Cons.IH) (use Cons.prems in auto)
  finally show ?case by (simp add: add.assoc)
qed simp

text \<open>The scan of an unsealed file stops, without an error, before a block that is not complete.\<close>

lemma scan_at_limit: "limit < off + 64 \<Longrightarrow> sealed \<longrightarrow> off = limit \<Longrightarrow> scan_from xxh b limit sealed fok off acc = Inr acc"
  by (subst scan_from.simps) (auto simp: scan_end_def BLOCK_HEADER_SIZE_def split: option.split)

lemma scan_torn_block:
  assumes b: "b = pre @ take n (entry_block xxh p e)" and ok: "seg_entry_ok p e" and n: "n < block_len_of p e"
    and len: "length b < 2 ^ 64" "length pre + block_len_of p e < 2 ^ 64"
  shows "scan_from xxh b (length b) False fok (length pre) acc = Inr acc"
proof (cases "n < 64")
  case True
  then show ?thesis using n b by (intro scan_at_limit) auto
next
  case False
  let ?pl = "entry_payload p e"
  have lb: "length b = length pre + n" using b n by simp
  have bl: "clear_low6 (127 + length ?pl) = block_len_of p e" by (simp add: block_len_of_def memc_align64_def)
  have ge: "64 + length ?pl \<le> block_len_of p e" "64 + length ?pl + 63 < 2 ^ 64"
    using align_bounds(1) entry_payload_len [OF ok] by (auto simp: block_len_of_def)
  have bd: "block_decode xxh (drop (length pre) b) = Some (entry_header xxh p e)"
    using entry_block_decode [of n xxh p e "[]"] False unfolding b by simp
  have ca: "checked_add (length pre) BLOCK_HEADER_SIZE = Some (length pre + 64)"
    "checked_add (length pre + 64) (length ?pl) = Some (length pre + 64 + length ?pl)"
    "checked_add BLOCK_HEADER_SIZE (length ?pl) = Some (64 + length ?pl)"
    "checked_add (64 + length ?pl) 63 = Some (64 + length ?pl + 63)"
    "checked_add (length pre) (block_len_of p e) = Some (length pre + block_len_of p e)"
    using ge len by (simp_all add: BLOCK_HEADER_SIZE_def)
  have sl: "bslice (length pre + 64) (length ?pl) b = ?pl" if "\<not> length pre + n < length pre + 64 + length ?pl"
    using that unfolding b entry_block_def by (simp add: bslice_def min_def)
  have "length pre + n < length pre + block_len_of p e" "\<not> length pre + n < length pre + 64" using n False by auto
  then show ?thesis
    using sl
    by (subst scan_from.simps)
      (simp add: lb ca bd entry_header_len [OF ok] bl Let_def scan_end_def del: checked_add_eq_Some entry_header_facts(2))
qed

end
