(* ===== verification/Memc_Recover.thy ===== *)
theory Memc_Recover
  imports Memc_Segment
begin

text \<open>
  Opening a segment file: any prefix of an unsealed file yields its complete entries, and a sealed
  file yields the tables of its log and the pages of its directory.
\<close>

section \<open>Unsealed files\<close>

text \<open>The entries whose blocks lie wholly within the first \<open>n\<close> bytes.\<close>

fun complete :: "pco \<Rightarrow> usize \<Rightarrow> entry list \<Rightarrow> entry list" where
  "complete p n [] = []"
| "complete p n (e # es) =
    (if block_len_of p e \<le> n then e # complete p (n - block_len_of p e) es else [])"

lemma complete_all: "length (log_bytes xxh p es) \<le> n \<Longrightarrow> complete p n es = es"
  by (induction es arbitrary: n) auto

lemma complete_prefix: "\<exists>rest. es = complete p n es @ rest"
  by (induction p n es rule: complete.induct) auto

lemma complete_bytes: "\<exists>tl. take n (log_bytes xxh p es) = log_bytes xxh p (complete p n es) @ tl"
  by (induction p n es rule: complete.induct) auto

lemma scan_prefix:
  assumes "b = pre @ take m (log_bytes xxh p es)" "list_all (seg_entry_ok p) es"
    and "length pre + length (log_bytes xxh p es) < 2 ^ 64"
  shows "scan_from xxh b (length b) False False (length pre) (T, P) =
    Inr (foldl add_table T (complete p m es), P @ log_pages p (length pre) (complete p m es))"
  using assms
proof (induction es arbitrary: m pre T P)
  case Nil
  then show ?case by (simp add: scan_at_limit)
next
  case (Cons e es)
  have lb: "length b < 2 ^ 64" using Cons.prems(1,3) by (auto simp: min_def)
  show ?case
  proof (cases "block_len_of p e \<le> m")
    case True
    let ?m = "m - block_len_of p e" and ?pre = "pre @ entry_block xxh p e"
    have b: "b = pre @ entry_block xxh p e @ take ?m (log_bytes xxh p es)" using Cons.prems(1) True by simp
    have "scan_from xxh b (length b) False False (length pre) (T, P) =
      scan_from xxh b (length b) False False (length ?pre) (add_table T e, P @ entry_meta p (length pre) e)"
      using scan_entry [OF b _ _ order.refl lb, of False False T P] Cons.prems(2) by (simp add: b)
    also have "\<dots> = Inr (foldl add_table (add_table T e) (complete p ?m es),
        (P @ entry_meta p (length pre) e) @ log_pages p (length ?pre) (complete p ?m es))"
      by (rule Cons.IH) (use b Cons.prems in auto)
    finally show ?thesis using True by simp
  next
    case False
    then have "b = pre @ take m (entry_block xxh p e)" using Cons.prems(1) by simp
    from scan_torn_block [OF this _ _ lb] False Cons.prems(2,3) show ?thesis by simp
  qed
qed

lemma from_mmap_unsealed:
  assumes "sh_flags h = 0" "sh_footer_off h = 0"
  shows "from_mmap xxh (segment_encode xxh h @ rest) path =
    (case scan_from xxh (segment_encode xxh h @ rest) (64 + length rest) False False 64 (Map.empty, []) of
       Inl e \<Rightarrow> Inl e
     | Inr (T, P) \<Rightarrow> Inr \<lparr>sr_mmap = segment_encode xxh h @ rest, sr_path = path, sr_header = h, sr_tables = T, sr_pages = P\<rparr>)"
  using assms by (simp add: from_mmap_def segment_decode_encode is_sealed_def scan_blocks_def SEGMENT_HEADER_SIZE_def)

lemma open_prefix:
  assumes "sh_flags h = 0" "sh_footer_off h = 0" "list_all (seg_entry_ok p) es" "64 \<le> n"
    and "64 + length (log_bytes xxh p es) < 2 ^ 64"
  shows "from_mmap xxh (take n (segment_encode xxh h @ log_bytes xxh p es)) path =
    Inr \<lparr>sr_mmap = take n (segment_encode xxh h @ log_bytes xxh p es), sr_path = path, sr_header = h,
         sr_tables = log_tables (complete p (n - 64) es), sr_pages = log_pages p 64 (complete p (n - 64) es)\<rparr>"
proof -
  let ?rest = "take (n - 64) (log_bytes xxh p es)"
  have t: "take n (segment_encode xxh h @ log_bytes xxh p es) = segment_encode xxh h @ ?rest" using assms(4) by simp
  have "scan_from xxh (segment_encode xxh h @ ?rest) (length (segment_encode xxh h @ ?rest)) False False
      (length (segment_encode xxh h)) (Map.empty, []) =
    Inr (foldl add_table Map.empty (complete p (n - 64) es), [] @ log_pages p (length (segment_encode xxh h)) (complete p (n - 64) es))"
    by (rule scan_prefix) (use assms in auto)
  then show ?thesis unfolding t from_mmap_unsealed [OF assms(1,2)] by (simp add: log_tables_def)
qed

lemma open_short: "length b < 64 \<Longrightarrow> from_mmap xxh b path = Inl ''buffer too small for MEMC header''"
  by (simp add: from_mmap_def segment_decode_def SEGMENT_HEADER_SIZE_def)

text \<open>A complete block header that is not one, such as the footer of a segment that is not marked sealed.\<close>

lemma open_foreign_tail:
  assumes "sh_flags h = 0" "sh_footer_off h = 0" "list_all (seg_entry_ok p) es" "64 \<le> length tail"
    and "get_u32 tail 0 \<noteq> MAGIC_TABLE_BLOCK" "get_u32 tail 0 \<noteq> MAGIC_PAGE_BLOCK"
    and "64 + length (log_bytes xxh p es) + length tail < 2 ^ 64"
  shows "from_mmap xxh (segment_encode xxh h @ log_bytes xxh p es @ tail) path = Inl ''MEMC block header invalid''"
proof -
  let ?pre = "segment_encode xxh h" and ?b = "segment_encode xxh h @ log_bytes xxh p es @ tail"
  let ?off = "64 + length (log_bytes xxh p es)"
  have "scan_from xxh ?b (length ?b) False False (length ?pre) (Map.empty, []) =
    scan_from xxh ?b (length ?b) False False (length ?pre + length (log_bytes xxh p es))
      (foldl add_table Map.empty es, [] @ (if False then [] else log_pages p (length ?pre) es))"
    by (rule scan_log [where rest = tail]) (use assms in auto)
  moreover have "drop ?off ?b = tail" by simp
  moreover have "block_decode xxh tail = None" using assms(4-6) by (simp add: block_decode_def BLOCK_HEADER_SIZE_def Let_def)
  moreover have "checked_add ?off BLOCK_HEADER_SIZE = Some (?off + 64)"
    using assms(4,7) by (simp add: BLOCK_HEADER_SIZE_def)
  ultimately have "scan_from xxh ?b (length ?b) False False 64 (Map.empty, []) = Inl ''MEMC block header invalid''"
    using assms(4) scan_from.simps [of xxh ?b "length ?b" False False ?off]
    by (simp del: checked_add_eq_Some)
  then show ?thesis unfolding from_mmap_unsealed [OF assms(1,2)] by simp
qed

section \<open>The footer\<close>

definition dir_meta :: "PageDirEntry \<Rightarrow> PageMeta" where
  "dir_meta d = \<lparr>pm_table_id = pd_table_id d, pm_row_count = pd_row_count d, pm_col_count = pd_col_count d,
     pm_ts_min = pd_ts_min d, pm_ts_max = pd_ts_max d, pm_block_off = pd_block_off d, pm_block_len = pd_block_len d,
     pm_source_gen = pd_source_gen d, pm_source_chunk = pd_source_chunk d, pm_source_instance = pd_source_instance d\<rparr>"

definition block_in :: "usize \<Rightarrow> PageMeta \<Rightarrow> bool" where
  "block_in foff m \<longleftrightarrow> 64 \<le> unat (pm_block_off m) \<and> 64 \<le> unat (pm_block_len m) \<and>
     unat (pm_block_off m) + unat (pm_block_len m) \<le> foff"

lemma length_dir_entry [simp]: "length (dir_entry d) = 64"
  by (simp add: dir_entry_def)

lemma length_dir_entries [simp]: "length (concat (map dir_entry ds)) = length ds * 64"
  by (induction ds) auto

lemma footer_entry_dir:
  assumes "block_in foff (dir_meta d)" "foff < 2 ^ 64"
  shows "footer_entry (pre @ dir_entry d @ rest) foff (length pre) = Inr (dir_meta d)"
proof -
  let ?b = "pre @ dir_entry d @ rest"
  have g: "get_u32 ?b (length pre) = pd_table_id d" "get_u32 ?b (length pre + 4) = pd_row_count d"
    "get_i64 ?b (length pre + 8) = pd_ts_min d" "get_i64 ?b (length pre + 16) = pd_ts_max d"
    "get_u64 ?b (length pre + 24) = pd_block_off d" "get_u32 ?b (length pre + 32) = pd_block_len d"
    "get_u32 ?b (length pre + 36) = pd_col_count d" "get_u64 ?b (length pre + 40) = pd_source_gen d"
    "get_u32 ?b (length pre + 48) = pd_source_chunk d" "get_u64 ?b (length pre + 56) = pd_source_instance d"
    by (simp_all add: get_defs bslice_def dir_entry_def)
  have m: "64 \<le> unat (pd_block_off d)" "64 \<le> unat (pd_block_len d)" "unat (pd_block_off d) + unat (pd_block_len d) \<le> foff"
    using assms(1) by (simp_all add: block_in_def dir_meta_def)
  have "checked_add (unat (pd_block_off d)) (unat (pd_block_len d)) = Some (unat (pd_block_off d) + unat (pd_block_len d))"
    using m(3) assms(2) by simp
  then show ?thesis
    using m by (simp add: footer_entry_def g Let_def dir_meta_def memc_sizes del: checked_add_eq_Some)
qed

lemma footer_entries_dir:
  assumes "b = pre @ concat (map dir_entry ds) @ rest" "\<forall>d\<in>set ds. block_in foff (dir_meta d)" "foff < 2 ^ 64"
    and "length b < 2 ^ 64" "length pre = start + i * 64"
  shows "footer_entries b foff start (length ds) i = Inr (map dir_meta ds)"
  using assms
proof (induction ds arbitrary: pre i)
  case (Cons d ds)
  have e: "footer_entry b foff (length pre) = Inr (dir_meta d)"
    using footer_entry_dir [of foff d pre "concat (map dir_entry ds) @ rest"] Cons.prems by simp
  have ih: "footer_entries b foff start (length ds) (i + 1) = Inr (map dir_meta ds)"
    by (rule Cons.IH [of "pre @ dir_entry d"]) (use Cons.prems in auto)
  have "length pre \<le> length b" using Cons.prems(1) by simp
  then have "checked_mul i PAGE_DIR_ENTRY_SIZE = Some (i * 64)" "checked_add start (i * 64) = Some (length pre)"
    using Cons.prems(4,5) by (simp_all add: PAGE_DIR_ENTRY_SIZE_def)
  then show ?case using e ih by (simp del: checked_add_eq_Some checked_mul_eq_Some)
qed simp

lemma get_u32_le_bytes: "n < 2 ^ 32 \<Longrightarrow> off = length pre \<Longrightarrow> unat (get_u32 (pre @ le_bytes 4 n @ rest) off) = n"
  by (simp add: get_u32_le)

lemma load_footer_dir:
  assumes b: "b = pre @ footer_bytes xxh ds" and "unat (sh_footer_off h) = length pre" "unat (sh_page_count h) = length ds"
    and "\<forall>d\<in>set ds. block_in (length pre) (dir_meta d)" "length b < 2 ^ 64" "length ds * 64 < 2 ^ 32"
  shows "load_footer xxh b h = Inr (map dir_meta ds)"
proof -
  let ?es = "concat (map dir_entry ds)" and ?f = "length pre"
  let ?m = "word_le 4 MAGIC_FOOTER" and ?c = "le_bytes 4 (length ds)" and ?l = "le_bytes 4 (length ds * 64)"
  have fb: "b = pre @ ?m @ ?c @ ?l @ word_le 4 (xxh32 xxh ?es) @ ?es"
    unfolding b by (simp add: footer_bytes_def PAGE_DIR_ENTRY_SIZE_def Let_def)
  have lb: "length b = ?f + 16 + length ds * 64" unfolding fb by simp
  have mg: "get_u32 b ?f = MAGIC_FOOTER" unfolding fb by (simp add: get_u32_def bslice_def)
  have c: "unat (get_u32 b (?f + 4)) = length ds"
    using get_u32_le_bytes [of "length ds" "?f + 4" "pre @ ?m" "?l @ word_le 4 (xxh32 xxh ?es) @ ?es"] assms(6) unfolding fb by simp
  have l: "unat (get_u32 b (?f + 8)) = length ds * 64"
    using get_u32_le_bytes [of "length ds * 64" "?f + 8" "pre @ ?m @ ?c" "word_le 4 (xxh32 xxh ?es) @ ?es"] assms(6) unfolding fb by simp
  have x: "get_u32 b (?f + 12) = xxh32 xxh ?es" unfolding fb by (simp add: get_u32_def bslice_def)
  have sl: "bslice (?f + 16) (length ds * 64) b = ?es" unfolding fb by (simp add: bslice_def)
  have pre: "footer_entries b ?f (?f + 16) (length ds) 0 = Inr (map dir_meta ds)"
    by (rule footer_entries_dir [where pre = "pre @ ?m @ ?c @ ?l @ word_le 4 (xxh32 xxh ?es)" and rest = "[]"])
      (use fb assms lb in auto)
  have ca: "checked_add ?f 16 = Some (?f + 16)" "checked_mul (length ds) PAGE_DIR_ENTRY_SIZE = Some (length ds * 64)"
    "checked_add (?f + 16) (length ds * 64) = Some (?f + 16 + length ds * 64)"
    using assms(5,6) lb by (simp_all add: PAGE_DIR_ENTRY_SIZE_def)
  show ?thesis
    using pre by (simp add: load_footer_def assms(2,3) ca mg c l x sl lb Let_def del: checked_add_eq_Some checked_mul_eq_Some)
qed

lemma open_sealed:
  assumes h: "sh_flags h = FLAG_SEALED" "unat (sh_footer_off h) = 64 + length (log_bytes xxh p es)"
    "unat (sh_page_count h) = length ds"
    and b: "b = segment_encode xxh h @ log_bytes xxh p es @ footer_bytes xxh ds"
    and ds: "\<forall>d\<in>set ds. block_in (64 + length (log_bytes xxh p es)) (dir_meta d)" "length ds * 64 < 2 ^ 32"
    and ok: "list_all (seg_entry_ok p) es" "length b < 2 ^ 64"
  shows "from_mmap xxh b path = Inr \<lparr>sr_mmap = b, sr_path = path, sr_header = h, sr_tables = log_tables es, sr_pages = map dir_meta ds\<rparr>"
proof -
  let ?pre = "segment_encode xxh h" and ?off = "64 + length (log_bytes xxh p es)"
  have sealed: "is_sealed h" by (simp add: is_sealed_def h(1) FLAG_SEALED_def)
  have nz: "sh_footer_off h \<noteq> 0"
  proof
    assume "sh_footer_off h = 0"
    then show False using h(2) by simp
  qed
  have lf: "load_footer xxh b h = Inr (map dir_meta ds)"
    by (rule load_footer_dir [where pre = "?pre @ log_bytes xxh p es"]) (use assms in simp_all)
  have lim: "?off \<le> length b" unfolding b by simp
  have "scan_from xxh b ?off True True (length ?pre) (Map.empty, map dir_meta ds) =
    scan_from xxh b ?off True True (length ?pre + length (log_bytes xxh p es))
      (foldl add_table Map.empty es, map dir_meta ds @ (if True then [] else log_pages p (length ?pre) es))"
    by (rule scan_log [where rest = "footer_bytes xxh ds"]) (use b ok lim in auto)
  also have "\<dots> = Inr (foldl add_table Map.empty es, map dir_meta ds)" by (simp add: scan_at_limit)
  finally have sc: "scan_blocks xxh b h True (Map.empty, map dir_meta ds) = Inr (log_tables es, map dir_meta ds)"
    using lim nz by (simp add: scan_blocks_def sealed h(2) SEGMENT_HEADER_SIZE_def log_tables_def)
  have "segment_decode xxh b = Inr h" unfolding b by (rule segment_decode_encode)
  then show ?thesis by (simp add: from_mmap_def sealed nz lf sc)
qed

end
