(* ===== verification/Memc_Log.thy ===== *)
theory Memc_Log
  imports Memc_Recover
begin

text \<open>
  The segment writer refines the log of entries: every operation that succeeds appends its entry, the
  file is the header and the blocks of the log, and the directory and the table map mirror it. A page
  read through either kind of directory is the page that was appended.
\<close>

section \<open>Reading pages back\<close>

lemma read_columns_encoded:
  assumes "encode_columns p cs = Inr pl" "b = pre @ pl @ rest" "payload_end = length pre + length pl"
    and "pco_lossless p" "columns_ok p rc cs" "length b < 2 ^ 64"
  shows "read_columns p b payload_end rc (length cs) (length pre) = Inr cs"
  using assms
proof (induction cs arbitrary: pl pre)
  case (Cons c cs)
  from Cons.prems(1) obtain sub tl where s: "encode_column p c = Inr sub" "encode_columns p cs = Inr tl" "pl = sub @ tl"
    by (auto split: sum.splits)
  have "bslice (length pre) (payload_end - length pre) b = sub @ tl"
    using Cons.prems(2,3) s(3) by (simp add: bslice_def)
  then have dc: "decode_column p (bslice (length pre) (payload_end - length pre) b) rc = Inr (c, length sub)"
    using column_round_trip [OF Cons.prems(4) s(1), of tl] Cons.prems(5) by (simp add: columns_ok_def)
  have ih: "read_columns p b payload_end rc (length cs) (length (pre @ sub)) = Inr cs"
    by (rule Cons.IH [OF s(2)]) (use Cons.prems s(3) in \<open>auto simp: columns_ok_def\<close>)
  have "checked_add (length pre) (length sub) = Some (length pre + length sub)"
    using Cons.prems(2,6) s(3) by simp
  then show ?case using dc ih Cons.prems(5) by (simp add: columns_ok_def del: checked_add_eq_Some)
qed simp

fun entry_columns :: "entry \<Rightarrow> ColumnData list list" where
  "entry_columns (TableEntry tid name cs) = []"
| "entry_columns (PageEntry tid columns rg gen chunk inst) = [columns]"

definition log_columns :: "entry list \<Rightarrow> ColumnData list list" where
  "log_columns es = concat (map entry_columns es)"

lemma block_len_word: "seg_entry_ok p e \<Longrightarrow> unat (word_of_nat (block_len_of p e) :: u32) = block_len_of p e"
  using align_bounds(2) [of "length (entry_payload p e)"] entry_payload_len [of p e]
  by (simp add: block_len_of_def unat_of_nat)

lemma read_page_block:
  assumes e: "e = PageEntry tid columns rg gen chunk inst" and ok: "seg_entry_ok p e" "pco_lossless p"
    and b: "sr_mmap r = pre @ entry_block xxh p e @ rest" "length (sr_mmap r) < 2 ^ 64"
    and i: "i < length (sr_pages r)" "entry_meta p (length pre) e = [sr_pages r ! i]"
  shows "read_page xxh p r i = Inr columns"
proof -
  let ?b = "sr_mmap r" and ?h = "entry_header xxh p e" and ?pm = "sr_pages r ! i"
  from ok(1) obtain pl where pl: "encode_columns p columns = Inr pl" unfolding e seg_entry_ok.simps by blast
  have pay: "entry_payload p e = pl" by (simp add: e pl)
  have lp: "64 + length pl + 63 < 2 ^ 64" using entry_payload_len [OF ok(1)] pay by simp
  have ge: "64 + length pl \<le> block_len_of p e" using align_bounds(1) by (simp add: block_len_of_def pay)
  have lb: "length pre + block_len_of p e \<le> length ?b" by (simp add: b(1))
  have pm: "pm_table_id ?pm = tid" "pm_row_count ?pm = word_of_nat (column_len (hd columns))"
    "pm_col_count ?pm = word_of_nat (length columns)" "pm_block_off ?pm = word_of_nat (length pre)"
    "pm_block_len ?pm = word_of_nat (block_len_of p e)"
    using i(2) unfolding e entry_meta.simps list.inject by (auto dest: sym)
  have hs: "unat (word_of_nat (length pre) :: u64) = length pre" using lb b(2) ge by (simp add: unat_of_nat)
  have bh: "bh_table_id ?h = tid" "bh_row_count ?h = word_of_nat (column_len (hd columns))"
    "bh_col_count ?h = word_of_nat (length columns)" "bh_magic ?h = MAGIC_PAGE_BLOCK"
    by (simp_all add: e page_block_header_def)
  have bd: "block_decode xxh (drop (length pre) ?b) = Some ?h"
    using entry_block_decode [of "block_len_of p e" xxh p e rest] unfolding b by simp
  have sl: "bslice (length pre + 64) (length pl) ?b = pl" unfolding b entry_block_def pay by (simp add: bslice_def)
  have bl: "clear_low6 (127 + length pl) = block_len_of p e" by (simp add: block_len_of_def memc_align64_def pay)
  have ca: "checked_add (length pre) BLOCK_HEADER_SIZE = Some (length pre + 64)"
    "checked_add BLOCK_HEADER_SIZE (length pl) = Some (64 + length pl)"
    "checked_add (64 + length pl) 63 = Some (64 + length pl + 63)"
    "checked_add (length pre + 64) (length pl) = Some (length pre + 64 + length pl)"
    using ge lb b(2) lp by (simp_all add: BLOCK_HEADER_SIZE_def)
  have cnt: "unat (word_of_nat (length columns) :: u32) = length columns"
    "unat (word_of_nat (column_len (hd columns)) :: u32) = column_len (hd columns)"
    using ok(1) by (simp_all add: e unat_of_nat)
  have rc: "read_columns p ?b (length pre + 64 + length pl) (column_len (hd columns)) (length columns) (length pre + 64) = Inr columns"
  proof -
    let ?pre = "pre @ block_encode xxh ?h"
    have eq: "?b = ?pre @ pl @ replicate (block_len_of p e - (64 + length pl)) 0 @ rest"
      by (simp add: b(1) entry_block_def pay)
    have "columns_ok p (column_len (hd columns)) columns" using ok(1) unfolding e seg_entry_ok.simps by blast
    from read_columns_encoded [OF pl eq refl ok(2) this b(2)] show ?thesis by simp
  qed
  have nl: "\<not> length ?b < length pre + 64" "\<not> length ?b < length pre + 64 + length pl" using ge lb by auto
  have pl_len: "unat (bh_payload_len ?h) = length pl" using entry_header_len [OF ok(1), of xxh] pay by simp
  have px: "bh_payload_xxh ?h = xxh32 xxh pl" by (simp add: pay)
  show ?thesis
    using i(1) block_len_word [OF ok(1)]
    by (simp add: read_page_def Let_def hs pm ca bd bh pl_len nl bl sl px rc cnt del: checked_add_eq_Some entry_header_facts)
qed

text \<open>Each directory entry of a log with the page it stands for.\<close>

lemma log_pages_blocks:
  assumes "b = pre @ log_bytes xxh p es @ rest" "list_all (seg_entry_ok p) es"
  shows "list_all2 (\<lambda>m cs. \<exists>e pre' rest' tid rg gen chunk inst. b = pre' @ entry_block xxh p e @ rest' \<and> seg_entry_ok p e \<and>
      e = PageEntry tid cs rg gen chunk inst \<and> entry_meta p (length pre') e = [m])
    (log_pages p (length pre) es) (log_columns es)"
  using assms
proof (induction es arbitrary: pre)
  case Nil
  then show ?case by (simp add: log_columns_def)
next
  case (Cons e es)
  let ?Q = "\<lambda>m cs. \<exists>e pre' rest' tid rg gen chunk inst. b = pre' @ entry_block xxh p e @ rest' \<and> seg_entry_ok p e \<and>
      e = PageEntry tid cs rg gen chunk inst \<and> entry_meta p (length pre') e = [m]"
  have ih: "list_all2 ?Q (log_pages p (length (pre @ entry_block xxh p e)) es) (log_columns es)"
    by (rule Cons.IH) (use Cons.prems in auto)
  have b: "b = pre @ entry_block xxh p e @ log_bytes xxh p es @ rest" using Cons.prems(1) by simp
  have "list_all2 ?Q (entry_meta p (length pre) e) (entry_columns e)"
  proof (cases e)
    case (PageEntry tid columns rg gen chunk inst)
    have "seg_entry_ok p e" using Cons.prems(2) by simp
    moreover have "entry_meta p (length pre) e = [hd (entry_meta p (length pre) e)]"
      by (simp only: PageEntry entry_meta.simps list.sel)
    ultimately have "?Q (hd (entry_meta p (length pre) e)) columns" using b PageEntry by blast
    then show ?thesis unfolding PageEntry entry_meta.simps entry_columns.simps list_all2_Cons list.sel
      by (intro conjI list_all2_Nil [THEN iffD2]) auto
  qed simp
  then show ?case using ih by (simp add: log_columns_def list_all2_appendI)
qed

lemma read_pages:
  assumes "sr_mmap r = pre @ log_bytes xxh p es @ rest" "length pre = 64" "sr_pages r = log_pages p 64 es"
    and "list_all (seg_entry_ok p) es" "pco_lossless p" "length (sr_mmap r) < 2 ^ 64"
  shows "map (read_page xxh p r) [0..<length (sr_pages r)] = map Inr (log_columns es)"
proof (rule nth_equalityI)
  note blocks = log_pages_blocks [OF assms(1,4), unfolded assms(2)]
  show len: "length (map (read_page xxh p r) [0..<length (sr_pages r)]) = length (map Inr (log_columns es))"
    using list_all2_lengthD [OF blocks] assms(3) by simp
  fix i assume "i < length (map (read_page xxh p r) [0..<length (sr_pages r)])"
  then have i: "i < length (sr_pages r)" by simp
  from list_all2_nthD [OF blocks, of i] i assms(3) obtain e pre' rest' tid rg gen chunk inst where
    "sr_mmap r = pre' @ entry_block xxh p e @ rest'" "seg_entry_ok p e"
    "e = PageEntry tid (log_columns es ! i) rg gen chunk inst" "entry_meta p (length pre') e = [sr_pages r ! i]" by auto
  from read_page_block [OF this(3,2) assms(5) this(1) assms(6) i this(4)]
  show "map (read_page xxh p r) [0..<length (sr_pages r)] ! i = map Inr (log_columns es) ! i"
    using i list_all2_lengthD [OF blocks] assms(3) by simp
qed

lemma log_pages_in:
  assumes "list_all (seg_entry_ok p) es" "64 \<le> off" "off + length (log_bytes xxh p es) < 2 ^ 64"
  shows "\<forall>m\<in>set (log_pages p off es). block_in (off + length (log_bytes xxh p es)) m"
  using assms
proof (induction es arbitrary: off)
  case (Cons e es)
  have "\<forall>m\<in>set (log_pages p (off + block_len_of p e) es). block_in (off + block_len_of p e + length (log_bytes xxh p es)) m"
    by (rule Cons.IH) (use Cons.prems in auto)
  moreover have "\<forall>m\<in>set (entry_meta p off e). block_in (off + length (log_bytes xxh p (e # es))) m"
    using Cons.prems block_len_word [of p e] by (cases e) (simp_all add: block_in_def unat_of_nat)
  ultimately show ?case by (auto simp: add.assoc)
qed simp

end
