(* ===== verification/Memc_History.thy ===== *)
theory Memc_History
  imports Memc_Log
begin

text \<open>
  The segment writer as a state machine over logs: the representation invariant, what each operation
  does to it on every branch, and sealing.
\<close>

section \<open>The invariant\<close>

definition table_info :: "TableDef \<Rightarrow> TableInfo" where
  "table_info d = \<lparr>ti_cols = td_cols d, ti_ts_col = td_ts_col d\<rparr>"

definition page_typed :: "(u32 \<rightharpoonup> TableDef) \<Rightarrow> entry \<Rightarrow> bool" where
  "page_typed T e = (case e of
     TableEntry _ _ _ \<Rightarrow> True
   | PageEntry tid columns rg gen chunk inst \<Rightarrow>
       (\<exists>d. T tid = Some d \<and> map column_dtype columns = map snd (td_cols d) \<and> rg = page_ts_range (td_ts_col d) columns))"

fun add_span :: "i64 \<times> i64 \<Rightarrow> entry \<Rightarrow> i64 \<times> i64" where
  "add_span s (TableEntry tid name cs) = s"
| "add_span s (PageEntry tid columns rg gen chunk inst) =
    (if sint (fst rg) \<le> sint (snd rg) then (ts_min (fst s) (fst rg), ts_max (snd s) (snd rg)) else s)"

definition log_span :: "entry list \<Rightarrow> i64 \<times> i64" where
  "log_span es = foldl add_span (TS_MIN_INIT, TS_MAX_INIT) es"

lemma log_span_simps [simp]: "log_span [] = (TS_MIN_INIT, TS_MAX_INIT)" "log_span (es @ [e]) = add_span (log_span es) e"
  by (simp_all add: log_span_def)

definition segment_rep :: "hash64 \<Rightarrow> pco \<Rightarrow> SegmentWriter \<Rightarrow> entry list \<Rightarrow> bool" where
  "segment_rep xxh p w es \<longleftrightarrow>
     (\<exists>h. sh_flags h = 0 \<and> sh_footer_off h = 0 \<and> sw_file w = segment_encode xxh h @ log_bytes xxh p es) \<and>
     sw_offset w = 64 + length (log_bytes xxh p es) \<and>
     sw_tables w = map_option table_info \<circ> log_tables es \<and>
     map dir_meta (sw_pages w) = log_pages p 64 es \<and>
     (sw_ts_min w, sw_ts_max w) = log_span es \<and>
     list_all (seg_entry_ok p) es \<and> list_all (page_typed (log_tables es)) es \<and>
     (\<forall>tid\<in>dom (log_tables es). unat tid < unat (sw_next_table_id w))"

lemma segment_repD:
  assumes "segment_rep xxh p w es"
  shows "\<exists>h. sh_flags h = 0 \<and> sh_footer_off h = 0 \<and> sw_file w = segment_encode xxh h @ log_bytes xxh p es"
    "sw_offset w = 64 + length (log_bytes xxh p es)" "sw_tables w = map_option table_info \<circ> log_tables es"
    "map dir_meta (sw_pages w) = log_pages p 64 es" "(sw_ts_min w, sw_ts_max w) = log_span es"
    "list_all (seg_entry_ok p) es" "list_all (page_typed (log_tables es)) es"
    "\<forall>tid\<in>dom (log_tables es). unat tid < unat (sw_next_table_id w)"
  using assms unfolding segment_rep_def by blast+

lemma segment_create_rep:
  assumes "segment_create xxh os now opened io path = Inr w"
  shows "segment_rep xxh p w []" "sw_next_table_id w = 1"
  using assms
  by (auto simp: segment_create_def new_segment_header_def segment_rep_def Let_def write_all_def SEGMENT_HEADER_SIZE_def comp_def
      split: if_splits option.splits intro!: exI)

section \<open>Blocks\<close>

definition padded_block :: "hash64 \<Rightarrow> BlockHeader \<Rightarrow> byte list \<Rightarrow> byte list" where
  "padded_block xxh h pl = block_encode xxh h @ pl @ replicate (memc_align64 (64 + length pl) - (64 + length pl)) 0"

lemma entry_block_padded: "entry_block xxh p e = padded_block xxh (entry_header xxh p e) (entry_payload p e)"
  by (simp add: entry_block_def padded_block_def block_len_of_def)

lemma write_block_outcome:
  obtains (written) "write_block xxh io h pl w =
      (Inr (memc_align64 (64 + length pl)),
       w\<lparr>sw_file := sw_file w @ padded_block xxh h pl, sw_offset := sw_offset w + memc_align64 (64 + length pl)\<rparr>)"
  | (failed) n where "write_block xxh io h pl w = (Inl OsError, w\<lparr>sw_file := sw_file w @ take n (padded_block xxh h pl)\<rparr>)"
proof (cases "fst (write_block xxh io h pl w)")
  case (Inr r)
  then have "write_block xxh io h pl w =
      (Inr (memc_align64 (64 + length pl)),
       w\<lparr>sw_file := sw_file w @ padded_block xxh h pl, sw_offset := sw_offset w + memc_align64 (64 + length pl)\<rparr>)"
    using align_bounds(1) [of "length pl"]
    by (auto simp: write_block_def write_all_def Let_def padded_block_def BLOCK_HEADER_SIZE_def split: option.splits if_splits)
  then show thesis by (rule written)
next
  case (Inl e)
  let ?pad = "replicate (memc_align64 (64 + length pl) - (64 + length pl)) 0 :: byte list"
  have "\<exists>n. write_block xxh io h pl w = (Inl OsError, w\<lparr>sw_file := sw_file w @ take n (padded_block xxh h pl)\<rparr>)"
  proof (cases "io (sw_file w) (block_encode xxh h)")
    case (Some n)
    then show ?thesis
      by (intro exI [of _ "min n 64"]) (simp add: write_block_def write_all_def Let_def padded_block_def min_def)
  next
    case n1: None
    let ?f1 = "sw_file w @ block_encode xxh h"
    show ?thesis
    proof (cases "io ?f1 pl")
      case (Some n)
      then show ?thesis using n1
        by (intro exI [of _ "64 + min n (length pl)"]) (simp add: write_block_def write_all_def Let_def padded_block_def min_def)
    next
      case n2: None
      then obtain n where "io (?f1 @ pl) ?pad = Some n" "64 + length pl < memc_align64 (64 + length pl)"
        using Inl n1 by (auto simp: write_block_def write_all_def Let_def BLOCK_HEADER_SIZE_def split: option.splits if_splits)
      then show ?thesis using n1 n2
        by (intro exI [of _ "64 + length pl + n"])
          (simp add: write_block_def write_all_def Let_def padded_block_def BLOCK_HEADER_SIZE_def min_def)
    qed
  qed
  then show thesis using failed by blast
qed

lemma register_table_outcome:
  obtains (ok) "register_table xxh io w name cs = (Inr (sw_next_table_id w), w\<lparr>sw_next_table_id := sw_next_table_id w + 1,
      sw_file := sw_file w @ entry_block xxh p (TableEntry (sw_next_table_id w) name cs), sw_offset := sw_offset w + block_len_of p (TableEntry (sw_next_table_id w) name cs),
      sw_tables := (sw_tables w)(sw_next_table_id w \<mapsto> \<lparr>ti_cols = cs, ti_ts_col = cols_ts_col cs\<rparr>)\<rparr>)"
  | (torn) n where "register_table xxh io w name cs = (Inl OsError, w\<lparr>sw_next_table_id := sw_next_table_id w + 1,
      sw_file := sw_file w @ take n (entry_block xxh p (TableEntry (sw_next_table_id w) name cs))\<rparr>)"
proof -
  let ?w = "w\<lparr>sw_next_table_id := sw_next_table_id w + 1\<rparr>" and ?pl = "encode_table_payload name cs"
  let ?h = "table_block_header xxh (sw_next_table_id w) cs ?pl"
  show thesis
  proof (cases rule: write_block_outcome [of xxh io ?h ?pl ?w])
    case written
    then show thesis
      by (intro ok) (simp add: register_table_def Let_def entry_block_padded block_len_of_def)
  next
    case (failed n)
    then show thesis
      by (intro torn [of n]) (simp add: register_table_def Let_def entry_block_padded block_len_of_def)
  qed
qed

section \<open>Pages\<close>

lemma check_columns_ok:
  "length columns = length cs \<Longrightarrow> check_columns cs n columns = Inr () \<longleftrightarrow>
   map column_dtype columns = map snd cs \<and> (\<forall>c\<in>set columns. column_len c = n)"
  by (induction cs n columns rule: check_columns.induct) (auto split: if_splits)

lemma check_columns_error: "check_columns cs n columns = Inl e \<Longrightarrow> \<exists>m. e = InvalidInput m"
  by (induction cs n columns rule: check_columns.induct) (auto split: if_splits)

definition page_rows :: "ColumnData list \<Rightarrow> usize" where
  "page_rows columns = (case columns of [] \<Rightarrow> 0 | c # _ \<Rightarrow> column_len c)"

text \<open>A page that fits the table \<open>info\<close>: the columns of its schema, of equal length.\<close>

definition page_fits :: "TableInfo \<Rightarrow> ColumnData list \<Rightarrow> bool" where
  "page_fits info columns \<longleftrightarrow>
     map column_dtype columns = map snd (ti_cols info) \<and> (\<forall>c\<in>set columns. column_len c = page_rows columns)"

definition page_written ::
  "hash64 \<Rightarrow> pco \<Rightarrow> entry \<Rightarrow> SegmentWriter \<Rightarrow> SegmentWriter" where
  "page_written xxh p e w = (case e of
     TableEntry _ _ _ \<Rightarrow> w
   | PageEntry tid columns rg gen chunk inst \<Rightarrow>
       w\<lparr>sw_file := sw_file w @ entry_block xxh p e, sw_offset := sw_offset w + block_len_of p e,
         sw_ts_min := fst (add_span (sw_ts_min w, sw_ts_max w) e), sw_ts_max := snd (add_span (sw_ts_min w, sw_ts_max w) e),
         sw_pages := sw_pages w @
           [\<lparr>pd_table_id = tid, pd_row_count = word_of_nat (page_rows columns), pd_col_count = word_of_nat (length columns),
             pd_ts_min = fst rg, pd_ts_max = snd rg, pd_block_off = word_of_nat (sw_offset w),
             pd_block_len = word_of_nat (block_len_of p e), pd_source_gen = gen, pd_source_chunk = chunk,
             pd_source_instance = inst\<rparr>]\<rparr>)"

lemma append_page_outcome:
  assumes "append_page_from xxh p io w tid columns gen chunk inst = (res, w')"
  obtains (unknown) "sw_tables w tid = None" "res = Inl (NotFound ''unknown table_id'')" "w' = w"
  | (mismatch) info m where "sw_tables w tid = Some info" "\<not> page_fits info columns" "res = Inl (InvalidInput m)" "w' = w"
  | (empty) info where "sw_tables w tid = Some info" "page_fits info columns" "page_rows columns = 0" "res = Inr ()" "w' = w"
  | (unencodable) info m where "sw_tables w tid = Some info" "page_fits info columns" "page_rows columns \<noteq> 0"
      "encode_columns p columns = Inl m" "res = Inl (ColumnEncode m)" "w' = w"
  | (torn) info pl n where "sw_tables w tid = Some info" "page_fits info columns" "page_rows columns \<noteq> 0"
      "encode_columns p columns = Inr pl" "res = Inl OsError"
      "w' = w\<lparr>sw_file := sw_file w @ take n (entry_block xxh p
         (PageEntry tid columns (page_ts_range (ti_ts_col info) columns) gen chunk inst))\<rparr>"
  | (written) info pl where "sw_tables w tid = Some info" "page_fits info columns" "page_rows columns \<noteq> 0"
      "encode_columns p columns = Inr pl" "res = Inr ()"
      "w' = page_written xxh p (PageEntry tid columns (page_ts_range (ti_ts_col info) columns) gen chunk inst) w"
proof (cases "sw_tables w tid")
  case None
  then have "res = Inl (NotFound ''unknown table_id'')" "w' = w" using assms by (simp_all add: append_page_from_def)
  with None show thesis by (rule unknown)
next
  case (Some info)
  note def = assms [unfolded append_page_from_def Some option.case page_rows_def [symmetric], unfolded Let_def]
  show thesis
  proof (cases "page_fits info columns")
    case False
    have "\<exists>m. res = Inl (InvalidInput m) \<and> w' = w"
    proof (cases "length columns = length (ti_cols info)")
      case True
      then have "check_columns (ti_cols info) (page_rows columns) columns \<noteq> Inr ()"
        using False by (simp add: page_fits_def check_columns_ok)
      then obtain e where e: "check_columns (ti_cols info) (page_rows columns) columns = Inl e"
        by (cases "check_columns (ti_cols info) (page_rows columns) columns") auto
      show ?thesis using check_columns_error [OF e] def True by (auto simp: e)
    qed (use def in auto)
    then show thesis using mismatch Some False by blast
  next
    case fits: True
    then have len: "length columns = length (ti_cols info)" unfolding page_fits_def by (metis length_map)
    have chk: "check_columns (ti_cols info) (page_rows columns) columns = Inr ()"
      using fits len by (simp add: page_fits_def check_columns_ok)
    note def = def [unfolded len chk, simplified]
    show thesis
    proof (cases "page_rows columns = 0")
      case True
      then have "res = Inr ()" "w' = w" using def by simp_all
      with Some fits True show thesis by (rule empty)
    next
      case False
      show thesis
      proof (cases "encode_columns p columns")
        case (Inl m)
        then have "res = Inl (ColumnEncode m)" "w' = w" using def False by simp_all
        with Some fits False Inl show thesis by (rule unencodable)
      next
        case (Inr pl)
        let ?rg = "page_ts_range (ti_ts_col info) columns"
        let ?e = "PageEntry tid columns ?rg gen chunk inst"
        let ?h = "page_block_header xxh tid columns ?rg gen chunk inst pl"
        have e: "entry_block xxh p ?e = padded_block xxh ?h pl" "block_len_of p ?e = memc_align64 (64 + length pl)"
          by (simp_all add: entry_block_padded block_len_of_def Inr)
        show thesis
        proof (cases rule: write_block_outcome [of xxh io ?h pl w])
          case w: written
          have "res = Inr ()" "w' = page_written xxh p ?e w"
            using def False len by (auto simp: Inr w page_written_def e page_rows_def split: if_splits)
          with Some fits False Inr show thesis by (rule written)
        next
          case (failed n)
          then have "res = Inl OsError" "w' = w\<lparr>sw_file := sw_file w @ take n (entry_block xxh p ?e)\<rparr>"
            using def False by (auto simp: Inr e)
          with Some fits False Inr show thesis by (rule torn)
        qed
      qed
    qed
  qed
qed

end
