(* ===== verification/Memc_Refine.thy ===== *)
theory Memc_Refine
  imports Memc_History
begin

text \<open>
  Every operation of the segment writer keeps the representation of a log, and a sealed or abandoned
  segment is read back as its log.
\<close>

section \<open>Operations keep the invariant\<close>

lemma page_typed_mono: "page_typed T e \<Longrightarrow> T \<subseteq>\<^sub>m T' \<Longrightarrow> page_typed T' e"
  by (fastforce simp: page_typed_def map_le_def dom_def split: entry.splits)

lemma register_rep:
  assumes rep: "segment_rep xxh p w es" and r: "register_table xxh io w name cs = (Inr tid, w')"
    and ok: "seg_entry_ok p (TableEntry tid name cs)" and room: "unat (sw_next_table_id w) + 1 < 2 ^ 32"
  shows "segment_rep xxh p w' (es @ [TableEntry tid name cs])" "tid = sw_next_table_id w"
    "unat (sw_next_table_id w') = unat (sw_next_table_id w) + 1" "tid \<notin> dom (log_tables es)"
proof -
  note rp = segment_repD [OF rep]
  have w': "w' = w\<lparr>sw_next_table_id := sw_next_table_id w + 1,
      sw_file := sw_file w @ entry_block xxh p (TableEntry tid name cs),
      sw_offset := sw_offset w + block_len_of p (TableEntry tid name cs),
      sw_tables := (sw_tables w)(tid \<mapsto> \<lparr>ti_cols = cs, ti_ts_col = cols_ts_col cs\<rparr>)\<rparr>"
    and tid: "tid = sw_next_table_id w"
    by (cases rule: register_table_outcome [of xxh io w name cs p]; use r in simp)+
  show "tid = sw_next_table_id w" by (rule tid)
  show next_id: "unat (sw_next_table_id w') = unat (sw_next_table_id w) + 1"
    using room by (simp add: w' unat_word_ariths)
  show fresh: "tid \<notin> dom (log_tables es)" using rp(8) tid by blast
  have le: "log_tables es \<subseteq>\<^sub>m log_tables (es @ [TableEntry tid name cs])"
    using fresh by (auto simp: map_le_def)
  have typed: "list_all (page_typed (log_tables (es @ [TableEntry tid name cs]))) (es @ [TableEntry tid name cs])"
    using rp(7) page_typed_mono [OF _ le] by (auto simp: list_all_iff page_typed_def split: entry.splits)
  have dom: "\<forall>t\<in>dom (log_tables (es @ [TableEntry tid name cs])). unat t < unat (sw_next_table_id w')"
    using rp(8) next_id tid by (auto simp: less_Suc_eq)
  show "segment_rep xxh p w' (es @ [TableEntry tid name cs])"
    unfolding segment_rep_def
  proof (intro conjI typed dom)
    show "\<exists>h. sh_flags h = 0 \<and> sh_footer_off h = 0 \<and>
        sw_file w' = segment_encode xxh h @ log_bytes xxh p (es @ [TableEntry tid name cs])"
      using rp(1) by (auto simp: w')
    show "sw_tables w' = map_option table_info \<circ> log_tables (es @ [TableEntry tid name cs])"
      by (simp add: w' rp(3) table_info_def fun_upd_comp comp_def fun_eq_iff)
  qed (use rp ok in \<open>simp_all add: w' log_pages_append [where xxh = xxh]\<close>)
qed

lemma log_tables_page [simp]: "log_tables (es @ [PageEntry tid columns rg gen chunk inst]) = log_tables es"
  by simp

text \<open>What \<open>append_page\<close> may be given: columns the format can hold.\<close>

definition page_ok :: "pco \<Rightarrow> ColumnData list \<Rightarrow> bool" where
  "page_ok p columns \<longleftrightarrow> length columns < 2 ^ 32 \<and> page_rows columns < 2 ^ 32 \<and> (\<forall>c\<in>set columns. column_ok p c) \<and>
     (\<forall>pl. encode_columns p columns = Inr pl \<longrightarrow> payload_fits pl)"

lemma page_entry_ok:
  assumes "page_ok p columns" "page_fits info columns" "page_rows columns \<noteq> 0" "encode_columns p columns = Inr pl"
  shows "seg_entry_ok p (PageEntry tid columns rg gen chunk inst)"
proof -
  have "columns \<noteq> []" "page_rows columns = column_len (hd columns)"
    using assms(3) by (auto simp: page_rows_def split: list.splits)
  moreover have "columns_ok p (page_rows columns) columns"
    using assms(1,2) unfolding page_ok_def page_fits_def columns_ok_def by blast
  moreover have "payload_fits pl" "length columns < 2 ^ 32" "page_rows columns < 2 ^ 32"
    using assms(1,4) unfolding page_ok_def by blast+
  ultimately show ?thesis using assms(4) unfolding seg_entry_ok.simps by simp
qed

lemma append_rep:
  assumes rep: "segment_rep xxh p w es" and e: "e = PageEntry tid columns (page_ts_range (td_ts_col d) columns) gen chunk inst"
    and d: "log_tables es tid = Some d" and ok: "seg_entry_ok p e" and fits: "page_fits (table_info d) columns"
  shows "segment_rep xxh p (page_written xxh p e w) (es @ [e])"
proof -
  note rp = segment_repD [OF rep]
  have "columns \<noteq> []" using ok e by simp
  then have n: "page_rows columns = column_len (hd columns)" by (cases columns) (auto simp: page_rows_def)
  have t: "page_typed (log_tables es) e" using d fits by (simp add: page_typed_def e page_fits_def table_info_def)
  have lt: "log_tables (es @ [e]) = log_tables es" by (simp add: e)
  let ?w = "page_written xxh p e w"
  have f: "sw_file ?w = sw_file w @ entry_block xxh p e" "sw_offset ?w = sw_offset w + block_len_of p e"
    "sw_tables ?w = sw_tables w" "sw_next_table_id ?w = sw_next_table_id w"
    "(sw_ts_min ?w, sw_ts_max ?w) = add_span (sw_ts_min w, sw_ts_max w) e"
    "map dir_meta (sw_pages ?w) = map dir_meta (sw_pages w) @ entry_meta p (sw_offset w) e"
    by (simp_all add: page_written_def e n dir_meta_def del: add_span.simps)
  show ?thesis
    unfolding segment_rep_def f lt rp(2,3,4,5)
    using rp(1,6,7,8) t ok by (auto simp: log_pages_append [where xxh = xxh])
qed

lemma append_page_rep:
  assumes rep: "segment_rep xxh p w es" and ok: "page_ok p columns"
    and r: "append_page_from xxh p io w tid columns gen chunk inst = (Inr (), w')"
  shows "\<exists>d. log_tables es tid = Some d \<and> page_fits (table_info d) columns \<and> sw_next_table_id w' = sw_next_table_id w \<and>
    (if page_rows columns = 0 then w' = w
     else segment_rep xxh p w' (es @ [PageEntry tid columns (page_ts_range (td_ts_col d) columns) gen chunk inst]))"
proof -
  note tb = segment_repD(3) [OF rep]
  have td: "\<exists>d. log_tables es tid = Some d \<and> info = table_info d" if "sw_tables w tid = Some info" for info
    using that unfolding tb by auto
  show ?thesis
    using r
  proof (cases rule: append_page_outcome)
    case (empty info)
    then show ?thesis using td by auto
  next
    case (written info pl)
    from td [OF written(1)] obtain d where d: "log_tables es tid = Some d" "info = table_info d" by blast
    have ts: "ti_ts_col info = td_ts_col d" by (simp add: d(2) table_info_def)
    let ?e = "PageEntry tid columns (page_ts_range (td_ts_col d) columns) gen chunk inst"
    have w': "w' = page_written xxh p ?e w" using written(6) by (simp only: ts)
    have "segment_rep xxh p w' (es @ [?e])"
      unfolding w' by (rule append_rep [OF rep refl d(1) page_entry_ok [OF ok written(2-4)] written(2) [unfolded d(2)]])
    moreover have "sw_next_table_id w' = sw_next_table_id w" unfolding w' by (simp add: page_written_def)
    ultimately show ?thesis using d written(2,3) by auto
  qed auto
qed

section \<open>Reading a segment\<close>

text \<open>What a reader of the log \<open>es\<close> sees: its tables, its page metadata, and the columns of each page.\<close>

definition reads_log :: "hash64 \<Rightarrow> pco \<Rightarrow> SegmentReader \<Rightarrow> entry list \<Rightarrow> bool" where
  "reads_log xxh p r es \<longleftrightarrow> sr_tables r = log_tables es \<and> sr_pages r = log_pages p 64 es \<and>
     map (read_page xxh p r) [0..<length (sr_pages r)] = map Inr (log_columns es)"

lemma recovered_prefix:
  assumes rep: "segment_rep xxh p w es" and "pco_lossless p" "length (sw_file w) < 2 ^ 64" "64 \<le> n"
  shows "\<exists>r. from_mmap xxh (take n (sw_file w)) path = Inr r \<and> reads_log xxh p r (complete p (n - 64) es)"
proof -
  note rp = segment_repD [OF rep]
  from rp(1) obtain h where h: "sh_flags h = 0" "sh_footer_off h = 0" "sw_file w = segment_encode xxh h @ log_bytes xxh p es"
    by blast
  let ?c = "complete p (n - 64) es"
  obtain rest where es: "es = ?c @ rest" using complete_prefix by blast
  have okc: "list_all (seg_entry_ok p) ?c" using rp(6) es by (metis list_all_append)
  obtain tl where tl: "take n (sw_file w) = segment_encode xxh h @ log_bytes xxh p ?c @ tl"
    using complete_bytes [of "n - 64" xxh p es] assms(4) by (auto simp: h(3))
  have lt: "length (take n (sw_file w)) < 2 ^ 64" using assms(3) by (simp add: min_def)
  let ?r = "\<lparr>sr_mmap = take n (sw_file w), sr_path = path, sr_header = h, sr_tables = log_tables ?c, sr_pages = log_pages p 64 ?c\<rparr>"
  have "from_mmap xxh (take n (sw_file w)) path = Inr ?r"
    unfolding h(3) by (rule open_prefix) (use h rp(6) assms(3,4) in simp_all)
  moreover have "reads_log xxh p ?r ?c"
    unfolding reads_log_def using read_pages [of ?r "segment_encode xxh h" xxh p ?c tl] tl okc assms(2) lt by simp
  ultimately show ?thesis by blast
qed

lemma sealed_segment:
  assumes rep: "segment_rep xxh p w es" and "pco_lossless p" "length (sw_pages w) * 64 < 2 ^ 32"
    and s: "seal xxh os now io hdr_io synced w = (Inr path, f)" and "length f < 2 ^ 64"
  shows "\<exists>r. from_mmap xxh f path = Inr r \<and> reads_log xxh p r es \<and> sr_is_sealed r \<and>
    (sh_ts_min (sr_header r), sh_ts_max (sr_header r)) = log_span es"
proof -
  note rp = segment_repD [OF rep]
  from rp(1) obtain h0 where h0: "sw_file w = segment_encode xxh h0 @ log_bytes xxh p es" by blast
  let ?foot = "footer_bytes xxh (sw_pages w)" and ?off = "64 + length (log_bytes xxh p es)"
  define h where "h = \<lparr>sh_flags = FLAG_SEALED, sh_writer_pid = current_process_id os,
      sh_writer_start = process_start_time os (current_process_id os),
      sh_created_unix_ms = now, sh_footer_off = word_of_nat (sw_offset w), sh_ts_min = sw_ts_min w,
      sh_ts_max = sw_ts_max w, sh_page_count = word_of_nat (length (sw_pages w))\<rparr>"
  have f: "f = segment_encode xxh h @ log_bytes xxh p es @ ?foot" and path: "sw_path w = path"
    using s h0 by (auto simp: seal_def write_all_def Let_def h_def bsplice_def split: if_splits option.splits)
  have lf: "?off < 2 ^ 64" using assms(5) by (simp add: f)
  have hh: "unat (sh_footer_off h) = ?off" "unat (sh_page_count h) = length (sw_pages w)"
  proof -
    have "unat (word_of_nat ?off :: u64) = ?off" using lf by (simp only: unat_of_nat) simp
    then show "unat (sh_footer_off h) = ?off" unfolding h_def rp(2) by (simp only: SegmentHeader.select_convs)
  qed (use assms(3) in \<open>simp add: h_def unat_of_nat\<close>)
  have blocks: "\<forall>d\<in>set (sw_pages w). block_in ?off (dir_meta d)"
    using log_pages_in [OF rp(6), of 64 xxh] lf rp(4) by (metis (no_types, lifting) image_eqI list.set_map order_refl)
  let ?r = "\<lparr>sr_mmap = f, sr_path = path, sr_header = h, sr_tables = log_tables es, sr_pages = map dir_meta (sw_pages w)\<rparr>"
  have o: "from_mmap xxh f path = Inr ?r"
    by (rule open_sealed [OF _ hh f blocks assms(3) rp(6) assms(5)]) (simp add: h_def)
  have "reads_log xxh p ?r es"
    unfolding reads_log_def
    using read_pages [of ?r "segment_encode xxh h" xxh p es ?foot] f rp(4,6) assms(2,5) by simp
  moreover have "sr_is_sealed ?r" by (simp add: sr_is_sealed_def is_sealed_def h_def FLAG_SEALED_def)
  ultimately show ?thesis using o rp(5) by (auto simp: h_def)
qed

end
