(* ===== verification/Memc_Guarantees.thy ===== *)
theory Memc_Guarantees
  imports Memc_Refine
begin

text \<open>
  What the segment format promises: sequences of writer operations and the log they leave, crashes
  while a block or the footer is written, and pruning by time.
\<close>

section \<open>Sequences of operations\<close>

datatype seg_op =
    Register "byte list" "(byte list \<times> DType) list"
  | Append u32 "ColumnData list" u64 u32 u64

type_synonym seg_result = "io_error + u32 option"

fun seg_step :: "hash64 \<Rightarrow> pco \<Rightarrow> io \<Rightarrow> SegmentWriter \<Rightarrow> seg_op \<Rightarrow> seg_result \<times> SegmentWriter" where
  "seg_step xxh p io w (Register name cs) = map_prod (map_sum id Some) id (register_table xxh io w name cs)"
| "seg_step xxh p io w (Append tid columns gen chunk inst) =
     map_prod (map_sum id (\<lambda>_. None)) id (append_page_from xxh p io w tid columns gen chunk inst)"

fun seg_run :: "hash64 \<Rightarrow> pco \<Rightarrow> SegmentWriter \<Rightarrow> (io \<times> seg_op) list \<Rightarrow> seg_result list \<times> SegmentWriter" where
  "seg_run xxh p w [] = ([], w)"
| "seg_run xxh p w ((io, op) # ops) =
    (let (r, w1) = seg_step xxh p io w op; (rs, w2) = seg_run xxh p w1 ops in (r # rs, w2))"

text \<open>The log that a sequence of operations with given results stands for.\<close>

fun seg_extend :: "entry list \<Rightarrow> seg_op \<times> seg_result \<Rightarrow> entry list" where
  "seg_extend es (Register name cs, Inr (Some tid)) = es @ [TableEntry tid name cs]"
| "seg_extend es (Append tid columns gen chunk inst, Inr None) =
    (if page_rows columns = 0 then es
     else es @ [PageEntry tid columns
       (page_ts_range (Option.bind (log_tables es tid) td_ts_col) columns) gen chunk inst])"
| "seg_extend es _ = es"

definition seg_log :: "(io \<times> seg_op) list \<Rightarrow> seg_result list \<Rightarrow> entry list" where
  "seg_log ops rs = foldl seg_extend [] (zip (map snd ops) rs)"

fun seg_op_ok :: "pco \<Rightarrow> seg_op \<Rightarrow> bool" where
  "seg_op_ok p (Register name cs) \<longleftrightarrow> seg_entry_ok p (TableEntry 0 name cs)"
| "seg_op_ok p (Append tid columns gen chunk inst) \<longleftrightarrow> page_ok p columns"

lemma seg_step_rep:
  assumes rep: "segment_rep xxh p w es" and ok: "seg_op_ok p op" and room: "unat (sw_next_table_id w) + 1 < 2 ^ 32"
    and s: "seg_step xxh p io w op = (r, w')" "r \<noteq> Inl OsError"
  shows "segment_rep xxh p w' (seg_extend es (op, r)) \<and> unat (sw_next_table_id w') \<le> unat (sw_next_table_id w) + 1"
proof (cases op)
  case (Register name cs)
  obtain r' where r': "register_table xxh io w name cs = (r', w')" "r = map_sum id Some r'"
    using s(1) unfolding Register by (cases "register_table xxh io w name cs") auto
  have "\<exists>tid. r' = Inr tid"
    by (cases rule: register_table_outcome [of xxh io w name cs p]) (use r' s(2) in auto)
  then obtain tid where t: "r' = Inr tid" by blast
  have "seg_entry_ok p (TableEntry tid name cs)" using ok by (simp add: Register)
  from register_rep [OF rep r'(1) [unfolded t] this room] show ?thesis by (simp add: r'(2) t Register)
next
  case (Append tid columns gen chunk inst)
  obtain r' where r': "append_page_from xxh p io w tid columns gen chunk inst = (r', w')" "r = map_sum id (\<lambda>_. None) r'"
    using s(1) unfolding Append by (cases "append_page_from xxh p io w tid columns gen chunk inst") auto
  show ?thesis
  proof (cases r')
    case (Inl e)
    have "w' = w" by (cases rule: append_page_outcome [OF r'(1)]) (use Inl s(2) r'(2) in auto)
    then show ?thesis using rep Inl r'(2) by (simp add: Append)
  next
    case (Inr u)
    have pk: "page_ok p columns" using ok by (simp add: Append)
    from append_page_rep [OF rep pk, of io tid gen chunk inst w'] r'(1) Inr obtain d where
      "log_tables es tid = Some d" "sw_next_table_id w' = sw_next_table_id w"
      "if page_rows columns = 0 then w' = w
       else segment_rep xxh p w' (es @ [PageEntry tid columns (page_ts_range (td_ts_col d) columns) gen chunk inst])"
      by auto
    then show ?thesis using rep r'(2) Inr by (auto simp: Append split: if_splits)
  qed
qed

lemma seg_run_rep:
  assumes "segment_rep xxh p w es" "\<forall>(io, op)\<in>set ops. seg_op_ok p op" "unat (sw_next_table_id w) + length ops < 2 ^ 32"
    and "seg_run xxh p w ops = (rs, w')" "Inl OsError \<notin> set rs"
  shows "segment_rep xxh p w' (foldl seg_extend es (zip (map snd ops) rs)) \<and> length rs = length ops"
  using assms
proof (induction ops arbitrary: w es rs)
  case (Cons x ops)
  obtain io op where x: "x = (io, op)" by (cases x)
  obtain r w1 where s: "seg_step xxh p io w op = (r, w1)" by (cases "seg_step xxh p io w op")
  obtain rs' where run: "seg_run xxh p w1 ops = (rs', w')" and rs: "rs = r # rs'"
    using Cons.prems(4) by (auto simp: x s split: prod.splits)
  have okx: "seg_op_ok p op" "\<forall>(io, op)\<in>set ops. seg_op_ok p op" using Cons.prems(2) by (auto simp: x)
  have noe: "r \<noteq> Inl OsError" "Inl OsError \<notin> set rs'" using Cons.prems(5) rs by auto
  have room: "unat (sw_next_table_id w) + 1 < 2 ^ 32" using Cons.prems(3) by simp
  note st = seg_step_rep [OF Cons.prems(1) okx(1) room s noe(1)]
  have "segment_rep xxh p w' (foldl seg_extend (seg_extend es (op, r)) (zip (map snd ops) rs')) \<and> length rs' = length ops"
    by (rule Cons.IH [OF _ okx(2) _ run noe(2)]) (use st Cons.prems(3) in auto)
  then show ?case by (simp add: rs x)
qed simp

lemma seg_history_rep:
  assumes "segment_create xxh os now opened io path = Inr w0" "seg_run xxh p w0 ops = (rs, w)" "Inl OsError \<notin> set rs"
    and "\<forall>(io, op)\<in>set ops. seg_op_ok p op" "length ops + 1 < 2 ^ 32"
  shows "segment_rep xxh p w (seg_log ops rs)" "length rs = length ops"
proof -
  have "unat (sw_next_table_id w0) + length ops < 2 ^ 32"
    using assms(5) by (simp add: segment_create_rep(2) [OF assms(1)])
  from seg_run_rep [OF segment_create_rep(1) [OF assms(1)] assms(4) this assms(2,3)]
  show "segment_rep xxh p w (seg_log ops rs)" "length rs = length ops" by (simp_all add: seg_log_def)
qed

lemma log_pages_le: "length (log_pages p off es) \<le> length es"
proof (induction es arbitrary: off)
  case (Cons e es)
  have "length (entry_meta p off e) \<le> 1" by (cases e) auto
  then show ?case using Cons.IH [of "off + block_len_of p e"] by simp
qed simp

lemma seg_extend_length: "length (foldl seg_extend es xs) \<le> length es + length xs"
proof (induction xs arbitrary: es)
  case (Cons x xs)
  have "length (seg_extend es x) \<le> length es + 1"
    by (cases "(es, x)" rule: seg_extend.cases) auto
  then show ?case using Cons.IH [of "seg_extend es x"] by simp
qed simp

lemma segment_pages_length:
  "segment_rep xxh p w (seg_log ops rs) \<Longrightarrow> length (sw_pages w) \<le> length ops"
  using segment_repD(4) [of xxh p w "seg_log ops rs"] log_pages_le [of p 64 "seg_log ops rs"]
    seg_extend_length [of "[]" "zip (map snd ops) rs"]
  by (metis (no_types, lifting) seg_log_def length_map length_zip list.size(3) add_0 min.bounded_iff order_trans)

section \<open>Crashes\<close>

lemma footer_length: "length (footer_bytes xxh ds) = 16 + length ds * 64"
  by (simp add: footer_bytes_def Let_def)

lemma crash_in_footer:
  assumes rep: "segment_rep xxh p w es" and "pco_lossless p" "k \<le> length (footer_bytes xxh ds)"
    and len: "length (sw_file w) + k < 2 ^ 64"
  shows "if k < 64 then \<exists>r. from_mmap xxh (sw_file w @ take k (footer_bytes xxh ds)) path = Inr r \<and> reads_log xxh p r es
    else from_mmap xxh (sw_file w @ take k (footer_bytes xxh ds)) path = Inl ''MEMC block header invalid''"
proof -
  note rp = segment_repD [OF rep]
  from rp(1) obtain h where h: "sh_flags h = 0" "sh_footer_off h = 0" "sw_file w = segment_encode xxh h @ log_bytes xxh p es"
    by blast
  let ?t = "take k (footer_bytes xxh ds)" and ?b = "segment_encode xxh h @ log_bytes xxh p es @ take k (footer_bytes xxh ds)"
  have b: "sw_file w @ ?t = ?b" by (simp add: h(3))
  have lt: "length ?t = k" using assms(3) by simp
  have lb: "length ?b < 2 ^ 64" using len lt by (simp add: h(3))
  show ?thesis
  proof (cases "k < 64")
    case True
    let ?r = "\<lparr>sr_mmap = ?b, sr_path = path, sr_header = h, sr_tables = log_tables es, sr_pages = log_pages p 64 es\<rparr>"
    have "scan_from xxh ?b (length ?b) False False (length (segment_encode xxh h)) (Map.empty, []) =
      scan_from xxh ?b (length ?b) False False (length (segment_encode xxh h) + length (log_bytes xxh p es))
        (foldl add_table Map.empty es, [] @ (if False then [] else log_pages p (length (segment_encode xxh h)) es))"
      by (rule scan_log [OF refl rp(6)]) (use lb in simp_all)
    also have "\<dots> = Inr (log_tables es, log_pages p 64 es)"
      using True lt by (subst scan_at_limit) (simp_all add: log_tables_def)
    finally have "from_mmap xxh ?b path = Inr ?r"
      unfolding from_mmap_unsealed [OF h(1,2)] by simp
    moreover have "reads_log xxh p ?r es"
      unfolding reads_log_def using read_pages [of ?r "segment_encode xxh h" xxh p es ?t] rp(6) assms(2) lb by simp
    ultimately show ?thesis using True b by auto
  next
    case False
    have "get_u32 ?t 0 = MAGIC_FOOTER"
      using False by (simp add: footer_bytes_def Let_def get_u32_def bslice_def min_def)
    then have "from_mmap xxh ?b path = Inl ''MEMC block header invalid''"
      using False lt lb by (intro open_foreign_tail [OF h(1,2) rp(6)]) simp_all
    then show ?thesis using False b by simp
  qed
qed

text \<open>A segment is sealed although one of its blocks was torn: the footer is not where the header says.\<close>

lemma word_le_of_le: "length bs = 4 \<Longrightarrow> word_le 4 (word_of_le bs :: u32) = bs"
  using le_nat_bound [of bs] by (simp add: word_le_def word_of_le_def unat_of_nat le_simps)

lemma torn_magic:
  assumes "0 < n" "bh_magic h = MAGIC_TABLE_BLOCK \<or> bh_magic h = MAGIC_PAGE_BLOCK"
  shows "get_u32 (take n (padded_block xxh h pl) @ footer_bytes xxh ds) 0 \<noteq> MAGIC_FOOTER"
proof -
  obtain t where t: "padded_block xxh h pl = word_le 4 (bh_magic h) @ t"
    by (simp add: padded_block_def block_encode_eq)
  obtain t' where f: "footer_bytes xxh ds = [0x4D, 0x43, 0x46, 0x54] @ t'"
    by (simp add: footer_bytes_def Let_def MAGIC_FOOTER_def word_le_of_le)
  have m: "word_le 4 (bh_magic h) = [0x4D, 0x43, 0x54, 0x42] \<or> word_le 4 (bh_magic h) = [0x4D, 0x43, 0x50, 0x47]"
    using assms(2) by (auto simp: MAGIC_TABLE_BLOCK_def MAGIC_PAGE_BLOCK_def word_le_of_le)
  consider "n = 1" | "n = 2" | "n = 3" | "4 \<le> n" using assms(1) by linarith
  then show ?thesis
    using m by cases (auto simp: t f get_u32_def bslice_def MAGIC_FOOTER_def word_of_le_def min_def)
qed

lemma seg_step_torn:
  assumes "seg_step xxh p io w op = (Inl OsError, w')"
  shows "\<exists>n e. sw_file w' = sw_file w @ take n (entry_block xxh p e) \<and> sw_offset w' = sw_offset w"
proof (cases op)
  case (Register name cs)
  show ?thesis
  proof (cases rule: register_table_outcome [of xxh io w name cs p])
    case (torn n)
    then show ?thesis using assms
      by (intro exI [of _ n] exI [of _ "TableEntry (sw_next_table_id w) name cs"]) (auto simp: Register)
  qed (use assms in \<open>simp add: Register\<close>)
next
  case (Append tid columns gen chunk inst)
  obtain r' where r': "append_page_from xxh p io w tid columns gen chunk inst = (r', w')"
    "map_sum id (\<lambda>_. None :: u32 option) r' = Inl OsError"
    using assms unfolding Append by (cases "append_page_from xxh p io w tid columns gen chunk inst") auto
  then have "r' = Inl OsError" by (cases r') auto
  then show ?thesis by (cases rule: append_page_outcome [OF r'(1)]) auto
qed

lemma sealed_after_torn:
  assumes rep: "segment_rep xxh p w es" and t: "sw_file w' = sw_file w @ take n (entry_block xxh p e)" "sw_offset w' = sw_offset w"
    and n: "sw_file w' \<noteq> sw_file w" and s: "seal xxh os now io hdr_io synced w' = (Inr path, f)" "length f < 2 ^ 64"
  shows "from_mmap xxh f path = Inl ''MEMC footer missing or invalid''"
proof -
  note rp = segment_repD [OF rep]
  from rp(1) obtain h0 where h0: "sw_file w = segment_encode xxh h0 @ log_bytes xxh p es" by blast
  let ?torn = "take n (entry_block xxh p e)" and ?foot = "footer_bytes xxh (sw_pages w')" and ?off = "64 + length (log_bytes xxh p es)"
  define h where "h = \<lparr>sh_flags = FLAG_SEALED, sh_writer_pid = current_process_id os,
      sh_writer_start = process_start_time os (current_process_id os),
      sh_created_unix_ms = now, sh_footer_off = word_of_nat (sw_offset w'), sh_ts_min = sw_ts_min w',
      sh_ts_max = sw_ts_max w', sh_page_count = word_of_nat (length (sw_pages w'))\<rparr>"
  have f: "f = segment_encode xxh h @ log_bytes xxh p es @ ?torn @ ?foot"
    using s(1) h0 t(1) by (auto simp: seal_def write_all_def Let_def h_def bsplice_def split: if_splits option.splits)
  have lf: "?off < 2 ^ 64" using s(2) by (simp add: f)
  have "unat (word_of_nat ?off :: u64) = ?off" using lf by (simp only: unat_of_nat) simp
  then have off: "unat (sh_footer_off h) = ?off" unfolding h_def t(2) rp(2) by (simp only: SegmentHeader.select_convs)
  have "0 < n" using n t(1) by (cases n) auto
  then have "get_u32 (?torn @ ?foot) 0 \<noteq> MAGIC_FOOTER"
    unfolding entry_block_padded by (rule torn_magic) (simp split: entry.split)
  moreover have "get_u32 f ?off = get_u32 (?torn @ ?foot) 0" unfolding f get_u32_def bslice_def by simp
  moreover have "sh_footer_off h \<noteq> 0"
  proof
    assume "sh_footer_off h = 0"
    then show False using off by simp
  qed
  moreover have "is_sealed h" by (simp add: is_sealed_def h_def FLAG_SEALED_def)
  moreover have "length f = ?off + length ?torn + (16 + length (sw_pages w') * 64)" by (simp add: f footer_length)
  then have "checked_add ?off 16 = Some (?off + 16)" using s(2) by simp
  moreover have "segment_decode xxh f = Inr h" unfolding f by (rule segment_decode_encode)
  ultimately show ?thesis
    by (simp add: from_mmap_def load_footer_def off del: checked_add_eq_Some)
qed

section \<open>Pages by time\<close>

lemma ts_fold_bounds:
  "foldl (\<lambda>(lo, hi) t. (ts_min lo t, ts_max hi t)) (a, b) v = (lo, hi) \<Longrightarrow>
   sint lo \<le> sint a \<and> sint b \<le> sint hi \<and> (\<forall>t\<in>set v. sint lo \<le> sint t \<and> sint t \<le> sint hi)"
proof (induction v arbitrary: a b)
  case (Cons t v)
  have "sint (ts_min a t) \<le> sint a" "sint (ts_min a t) \<le> sint t" "sint b \<le> sint (ts_max b t)" "sint t \<le> sint (ts_max b t)"
    by (auto simp: ts_min_def ts_max_def)
  then show ?case using Cons.IH [of "ts_min a t" "ts_max b t"] Cons.prems by fastforce
qed simp

lemma page_ts_range_bounds:
  assumes "columns ! ci = CI64 v" "t \<in> set v"
  shows "sint (fst (page_ts_range (Some ci) columns)) \<le> sint t \<and> sint t \<le> sint (snd (page_ts_range (Some ci) columns))"
proof -
  obtain lo hi where f: "foldl (\<lambda>(lo, hi) t. (ts_min lo t, ts_max hi t)) (TS_MIN_INIT, TS_MAX_INIT) v = (lo, hi)"
    by fastforce
  then show ?thesis using ts_fold_bounds [OF f] assms by (simp add: page_ts_range_def)
qed

lemma log_page_entries:
  "list_all2 (\<lambda>m cs. \<exists>off tid rg gen chunk inst. PageEntry tid cs rg gen chunk inst \<in> set es \<and>
      entry_meta p off (PageEntry tid cs rg gen chunk inst) = [m]) (log_pages p off es) (log_columns es)"
proof (induction es arbitrary: off)
  case Nil
  then show ?case by (simp add: log_columns_def)
next
  case (Cons e es)
  have "list_all2 (\<lambda>m cs. \<exists>off tid rg gen chunk inst. PageEntry tid cs rg gen chunk inst \<in> set (e # es) \<and>
      entry_meta p off (PageEntry tid cs rg gen chunk inst) = [m]) (log_pages p (off + block_len_of p e) es) (log_columns es)"
    by (rule list_all2_mono [OF Cons.IH]) (meson list.set_intros(2))
  moreover have "list_all2 (\<lambda>m cs. \<exists>off tid rg gen chunk inst. PageEntry tid cs rg gen chunk inst \<in> set (e # es) \<and>
      entry_meta p off (PageEntry tid cs rg gen chunk inst) = [m]) (entry_meta p off e) (entry_columns e)"
  proof (cases e)
    case (PageEntry tid columns rg gen chunk inst)
    then have "PageEntry tid columns rg gen chunk inst \<in> set (e # es)" by simp
    then show ?thesis unfolding PageEntry entry_meta.simps entry_columns.simps list_all2_Cons by blast
  qed simp
  ultimately show ?case by (simp add: log_columns_def list_all2_appendI)
qed

lemma page_of_log:
  assumes rd: "reads_log xxh p r es" and i: "i < length (sr_pages r)" and rp: "read_page xxh p r i = Inr columns"
    and ok: "list_all (seg_entry_ok p) es" "list_all (page_typed (log_tables es)) es"
  shows "\<exists>d. table_def r (pm_table_id (sr_pages r ! i)) = Some d \<and> map column_dtype columns = map snd (td_cols d) \<and>
    (\<forall>c\<in>set columns. column_len c = unat (pm_row_count (sr_pages r ! i))) \<and>
    (pm_ts_min (sr_pages r ! i), pm_ts_max (sr_pages r ! i)) = page_ts_range (td_ts_col d) columns"
proof -
  have len: "length (sr_pages r) = length (log_columns es)"
    using list_all2_lengthD [OF log_page_entries, of p 64 es] rd by (simp add: reads_log_def)
  have "map (read_page xxh p r) [0..<length (sr_pages r)] ! i = map Inr (log_columns es) ! i"
    using rd unfolding reads_log_def by metis
  then have cs: "log_columns es ! i = columns" using i len rp by simp
  from list_all2_nthD [OF log_page_entries, of i p 64 es] i rd cs obtain off tid rg gen chunk inst where
    e: "PageEntry tid columns rg gen chunk inst \<in> set es"
    "entry_meta p off (PageEntry tid columns rg gen chunk inst) = [sr_pages r ! i]"
    unfolding reads_log_def by auto
  have ek: "seg_entry_ok p (PageEntry tid columns rg gen chunk inst)" "page_typed (log_tables es) (PageEntry tid columns rg gen chunk inst)"
    using ok e(1) by (auto simp: list_all_iff)
  from ek(2) obtain d where d: "log_tables es tid = Some d" "map column_dtype columns = map snd (td_cols d)"
    "rg = page_ts_range (td_ts_col d) columns" by (auto simp: page_typed_def)
  have pm: "pm_table_id (sr_pages r ! i) = tid" "pm_row_count (sr_pages r ! i) = word_of_nat (column_len (hd columns))"
    "pm_ts_min (sr_pages r ! i) = fst rg" "pm_ts_max (sr_pages r ! i) = snd rg"
    using e(2) unfolding entry_meta.simps list.inject by (auto dest: sym)
  have "unat (pm_row_count (sr_pages r ! i)) = column_len (hd columns)"
    using ek(1) by (simp add: pm(2) unat_of_nat)
  moreover have "\<forall>c\<in>set columns. column_len c = column_len (hd columns)"
    using ek(1) unfolding seg_entry_ok.simps columns_ok_def by blast
  moreover have "table_def r tid = Some d" using rd d(1) by (simp add: table_def_def reads_log_def)
  ultimately show ?thesis using d pm(1,3,4) by (intro exI [of _ d]) simp
qed

lemma overlap_in_range:
  assumes "i < length (sr_pages r)" "page_overlaps lo hi (sr_pages r ! i)"
  shows "i \<in> set (pages_in_range r (pm_table_id (sr_pages r ! i)) lo hi)"
proof -
  have "(i, sr_pages r ! i) \<in> set (enumerate 0 (sr_pages r))" using assms(1) by (auto simp: in_set_enumerate_eq)
  then show ?thesis using assms(2) by (force simp: pages_in_range_def)
qed

lemma ts_overlap:
  assumes "sint (pm_ts_min m) \<le> sint t" "sint t \<le> sint (pm_ts_max m)"
    and "case lo of None \<Rightarrow> True | Some l \<Rightarrow> sint l \<le> sint t" "case hi of None \<Rightarrow> True | Some h \<Rightarrow> sint t \<le> sint h"
  shows "page_overlaps lo hi m"
  using assms by (auto simp: page_overlaps_def split: option.splits)

lemma log_span_covers:
  assumes "PageEntry tid columns rg gen chunk inst \<in> set es" "sint (fst rg) \<le> sint (snd rg)"
  shows "sint (fst (log_span es)) \<le> sint (fst rg) \<and> sint (snd rg) \<le> sint (snd (log_span es))"
proof -
  have mono: "sint (fst (foldl add_span s es)) \<le> sint (fst s) \<and> sint (snd s) \<le> sint (snd (foldl add_span s es))" for s es
  proof (induction es arbitrary: s)
    case (Cons e es)
    have "sint (fst (add_span s e)) \<le> sint (fst s) \<and> sint (snd s) \<le> sint (snd (add_span s e))"
      by (cases e) (auto simp: ts_min_def ts_max_def)
    then show ?case using Cons.IH [of "add_span s e"] by fastforce
  qed simp
  from assms(1) obtain l1 l2 where es: "es = l1 @ PageEntry tid columns rg gen chunk inst # l2" by (meson split_list)
  let ?s = "add_span (log_span l1) (PageEntry tid columns rg gen chunk inst)"
  have "log_span es = foldl add_span ?s l2" by (simp add: log_span_def es)
  moreover have "sint (fst ?s) \<le> sint (fst rg)" "sint (snd rg) \<le> sint (snd ?s)"
    using assms(2) by (auto simp: ts_min_def ts_max_def)
  ultimately show ?thesis using mono [of ?s l2] by fastforce
qed


lemma page_span:
  assumes "reads_log xxh p r es" "i < length (sr_pages r)" "sint (pm_ts_min (sr_pages r ! i)) \<le> sint (pm_ts_max (sr_pages r ! i))"
  shows "sint (fst (log_span es)) \<le> sint (pm_ts_min (sr_pages r ! i)) \<and>
    sint (pm_ts_max (sr_pages r ! i)) \<le> sint (snd (log_span es))"
proof -
  from list_all2_nthD [OF log_page_entries, of i p 64 es] assms(1,2) obtain off tid columns rg gen chunk inst where
    e: "PageEntry tid columns rg gen chunk inst \<in> set es"
    "entry_meta p off (PageEntry tid columns rg gen chunk inst) = [sr_pages r ! i]"
    unfolding reads_log_def by auto
  have "pm_ts_min (sr_pages r ! i) = fst rg" "pm_ts_max (sr_pages r ! i) = snd rg"
    using e(2) unfolding entry_meta.simps list.inject by (auto dest: sym)
  then show ?thesis using log_span_covers [OF e(1)] assms(3) by simp
qed

end
