(* ===== verification/Memc_Store.thy ===== *)
theory Memc_Store
  imports Memc_Refine
begin

text \<open>
  The cold store (\<open>probing/memtable/src/memc/store.rs\<close>): a directory of segment files with sequence
  numbers and oldest-first eviction. The directory is the list of its files in the order in which
  the operating system enumerates them; which calls to the operating system fail, and which find a
  file already gone, is the argument \<open>calls\<close>. Times are nanoseconds since the epoch.
\<close>

section \<open>Segment names\<close>

definition SEGMENT_EXT :: string where "SEGMENT_EXT = ''memc''"

definition digit_char :: "nat \<Rightarrow> char" where
  "digit_char d = ''0123456789abcdef'' ! d"

fun digits :: "nat \<Rightarrow> nat \<Rightarrow> string" where
  "digits radix n = (if n < radix \<or> radix < 2 then [digit_char (n mod 16)] else digits radix (n div radix) @ [digit_char (n mod radix)])"

declare digits.simps [simp del]

text \<open>\<open>{:06}\<close> and \<open>{:06x}\<close>.\<close>

definition pad6 :: "string \<Rightarrow> string" where
  "pad6 s = replicate (6 - length s) (CHR ''0'') @ s"

definition writer_id :: "hash64 \<Rightarrow> u32 \<Rightarrow> u64 \<Rightarrow> string" where
  "writer_id xxh pid start_time =
     pad6 (digits 16 (unat (xxh32 xxh (word_le 4 pid @ word_le 8 start_time)) mod 2 ^ 24))"

definition segment_name :: "string \<Rightarrow> nat \<Rightarrow> string" where
  "segment_name wid sq = wid @ ''-'' @ pad6 (digits 10 sq) @ ''.'' @ SEGMENT_EXT"

definition strip_suffix :: "string \<Rightarrow> string \<Rightarrow> string option" where
  "strip_suffix suf s =
    (if length suf \<le> length s \<and> drop (length s - length suf) s = suf then Some (take (length s - length suf) s) else None)"

text \<open>Split at the last occurrence of a character.\<close>

definition rsplit_once :: "char \<Rightarrow> string \<Rightarrow> (string \<times> string) option" where
  "rsplit_once c s =
    (if c \<in> set s
     then (let after = takeWhile (\<lambda>x. x \<noteq> c) (rev s)
           in Some (take (length s - length after - 1) s, rev after))
     else None)"

definition digit_value :: "char \<Rightarrow> nat option" where
  "digit_value c = (let n = of_char c :: nat in if 48 \<le> n \<and> n \<le> 57 then Some (n - 48) else None)"

fun parse_digits :: "nat \<Rightarrow> string \<Rightarrow> nat option" where
  "parse_digits acc [] = Some acc"
| "parse_digits acc (c # cs) =
    (case digit_value c of
       None \<Rightarrow> None
     | Some d \<Rightarrow> if 2 ^ 32 \<le> acc * 10 + d then None else parse_digits (acc * 10 + d) cs)"

text \<open>\<open>str::parse::<u32>\<close>: digits after an optional plus sign.\<close>

definition parse_u32 :: "string \<Rightarrow> nat option" where
  "parse_u32 s = (let ds = (case s of c # cs \<Rightarrow> if c = CHR ''+'' then cs else s | [] \<Rightarrow> s)
                  in if ds = [] then None else parse_digits 0 ds)"

definition parse_segment_name :: "string \<Rightarrow> (string \<times> nat) option" where
  "parse_segment_name name =
    (case strip_suffix ''.memc'' name of
       None \<Rightarrow> None
     | Some stem \<Rightarrow> (case rsplit_once CHR ''-'' stem of
         None \<Rightarrow> None
       | Some (wid, sq) \<Rightarrow> map_option (Pair wid) (parse_u32 sq)))"

text \<open>The part after the last dot; a name whose only dot comes first has no extension.\<close>

definition file_extension :: "string \<Rightarrow> string option" where
  "file_extension name =
    (case rsplit_once CHR ''.'' name of None \<Rightarrow> None | Some (stem, ext) \<Rightarrow> if stem = [] then None else Some ext)"

section \<open>The directory\<close>

record segment_file =
  sf_name :: string
  sf_bytes :: buf
  sf_mtime :: nat

datatype call_outcome = Done | Missing | Failed

record fs_calls =
  fc_read_dir :: bool
  fc_modified :: "string \<Rightarrow> bool"
  fc_open :: "string \<Rightarrow> bool"
  fc_size :: "string \<Rightarrow> bool"
  fc_stat :: "string \<Rightarrow> call_outcome"
  fc_remove :: "string \<Rightarrow> call_outcome"

record ColdStore =
  st_writer_id :: string
  st_next_seq :: u32

record ColdStats =
  cs_segment_count :: usize
  cs_total_bytes :: nat
  cs_oldest_unix_ms :: nat

definition max_seq_for :: "segment_file list \<Rightarrow> string \<Rightarrow> nat" where
  "max_seq_for dir wid =
     foldl (\<lambda>m f. case parse_segment_name (sf_name f) of
         Some (w, sq) \<Rightarrow> if w = wid then max m sq else m
       | None \<Rightarrow> m) 0 dir"

definition store_open :: "hash64 \<Rightarrow> os \<Rightarrow> bool \<Rightarrow> fs_calls \<Rightarrow> segment_file list \<Rightarrow> io_error + ColdStore" where
  "store_open xxh os created calls dir =
    (if \<not> created \<or> \<not> fc_read_dir calls then Inl OsError
     else (let pid = current_process_id os; wid = writer_id xxh pid (process_start_time os pid)
           in Inr \<lparr>st_writer_id = wid, st_next_seq = word_of_nat (min (2 ^ 32 - 1) (max_seq_for dir wid + 1))\<rparr>))"

text \<open>In a build without overflow checks the sequence number wraps.\<close>

definition next_segment_path :: "ColdStore \<Rightarrow> string \<times> ColdStore" where
  "next_segment_path s =
     (segment_name (st_writer_id s) (unat (st_next_seq s)), s\<lparr>st_next_seq := st_next_seq s + 1\<rparr>)"

text \<open>
  \<open>create_segment\<close> retries while the name exists. \<open>create path\<close> is what \<open>SegmentWriter::create\<close> does
  at a path that does not exist. The fuel bounds the retries.
\<close>

fun create_segment ::
  "nat \<Rightarrow> (string \<Rightarrow> io_error + SegmentWriter) \<Rightarrow> segment_file list \<Rightarrow> ColdStore \<Rightarrow> (io_error + SegmentWriter) option \<times> ColdStore" where
  "create_segment 0 create dir s = (None, s)"
| "create_segment (Suc n) create dir s =
    (let (path, s') = next_segment_path s in
     if path \<in> sf_name ` set dir then create_segment n create dir s' else (Some (create path), s'))"

definition segment_paths_checked :: "fs_calls \<Rightarrow> segment_file list \<Rightarrow> io_error + segment_file list" where
  "segment_paths_checked calls dir =
    (if \<not> fc_read_dir calls then Inl OsError
     else (let segs = filter (\<lambda>f. file_extension (sf_name f) = Some SEGMENT_EXT) dir in
       if \<not> list_all (\<lambda>f. fc_modified calls (sf_name f)) segs then Inl OsError
       else Inr (sort_key sf_mtime segs)))"

definition segment_paths :: "fs_calls \<Rightarrow> segment_file list \<Rightarrow> segment_file list" where
  "segment_paths calls dir = (case segment_paths_checked calls dir of Inl _ \<Rightarrow> [] | Inr ps \<Rightarrow> ps)"

definition saturating_add64 :: "nat \<Rightarrow> nat \<Rightarrow> nat" where
  "saturating_add64 a b = min (2 ^ 64 - 1) (a + b)"

definition total_size :: "segment_file list \<Rightarrow> nat" where
  "total_size fs = foldl (\<lambda>t f. saturating_add64 t (length (sf_bytes f))) 0 fs"

definition stats_checked :: "fs_calls \<Rightarrow> segment_file list \<Rightarrow> io_error + ColdStats" where
  "stats_checked calls dir =
    (case segment_paths_checked calls dir of
       Inl e \<Rightarrow> Inl e
     | Inr paths \<Rightarrow>
         if \<not> list_all (\<lambda>f. fc_size calls (sf_name f)) paths then Inl OsError
         else Inr \<lparr>cs_segment_count = length paths, cs_total_bytes = total_size paths,
                   cs_oldest_unix_ms = (if paths = [] then 0 else foldl min (2 ^ 64 - 1) (map (\<lambda>f. sf_mtime f div 10 ^ 6 mod 2 ^ 64) paths))\<rparr>)"

definition store_stats :: "fs_calls \<Rightarrow> segment_file list \<Rightarrow> ColdStats" where
  "store_stats calls dir =
    (case stats_checked calls dir of
       Inl _ \<Rightarrow> \<lparr>cs_segment_count = 0, cs_total_bytes = 0, cs_oldest_unix_ms = 0\<rparr> | Inr s \<Rightarrow> s)"

section \<open>Retention\<close>

definition legacy_segment_is_sealed :: "hash64 \<Rightarrow> buf \<Rightarrow> bool" where
  "legacy_segment_is_sealed xxh b \<longleftrightarrow>
    (let h = take SEGMENT_HEADER_SIZE b in
     if length b < SEGMENT_HEADER_SIZE \<or> get_u32 h 0 \<noteq> MAGIC_MEMC \<or> get_u16 h 4 \<noteq> VERSION_MEMC - 1 \<or>
        get_u32 h 60 \<noteq> xxh32 xxh (take 60 h) then False
     else get_u16 h 10 AND FLAG_SEALED \<noteq> 0)"

text \<open>Whether a segment must be kept, or the error that ends the pass.\<close>

definition segment_protected :: "hash64 \<Rightarrow> fs_calls \<Rightarrow> segment_file \<Rightarrow> io_error + bool" where
  "segment_protected xxh calls f =
    (if \<not> fc_open calls (sf_name f) then Inl OsError
     else (case from_mmap xxh (sf_bytes f) (sf_name f) of
         Inr r \<Rightarrow> Inr (\<not> sr_is_sealed r)
       | Inl e \<Rightarrow> if legacy_segment_is_sealed xxh (sf_bytes f) then Inr False else Inl (InvalidData e)))"

fun protected_segments :: "hash64 \<Rightarrow> fs_calls \<Rightarrow> segment_file list \<Rightarrow> io_error + string set" where
  "protected_segments xxh calls [] = Inr {}"
| "protected_segments xxh calls (f # fs) =
    (case segment_protected xxh calls f of
       Inl e \<Rightarrow> Inl e
     | Inr keep \<Rightarrow>
         (case protected_segments xxh calls fs of
            Inl e \<Rightarrow> Inl e
          | Inr ps \<Rightarrow> Inr (if keep then insert (sf_name f) ps else ps)))"

text \<open>The eviction loop: the error or success, and the paths removed.\<close>

fun evict :: "fs_calls \<Rightarrow> nat \<Rightarrow> nat option \<Rightarrow> nat option \<Rightarrow> string set \<Rightarrow> nat \<Rightarrow> segment_file list \<Rightarrow> (io_error + unit) \<times> string list" where
  "evict calls now max_bytes ttl protect used_bytes [] = (Inr (), [])"
| "evict calls now max_bytes ttl protect used_bytes (f # fs) =
    (if sf_name f \<in> protect then evict calls now max_bytes ttl protect used_bytes fs
     else (case fc_stat calls (sf_name f) of
         Missing \<Rightarrow> evict calls now max_bytes ttl protect used_bytes fs
       | Failed \<Rightarrow> (Inl OsError, [])
       | Done \<Rightarrow>
           (let too_old = (case ttl of Some t \<Rightarrow> sf_mtime f \<le> now \<and> t < now - sf_mtime f | None \<Rightarrow> False);
                over_budget = (case max_bytes of Some m \<Rightarrow> m < used_bytes | None \<Rightarrow> False)
            in if \<not> (too_old \<or> over_budget) then (Inr (), [])
               else (case fc_remove calls (sf_name f) of
                   Done \<Rightarrow>
                     (let (r, removed) = evict calls now max_bytes ttl protect (used_bytes - length (sf_bytes f)) fs
                      in (r, sf_name f # removed))
                 | Missing \<Rightarrow> evict calls now max_bytes ttl protect used_bytes fs
                 | Failed \<Rightarrow> (Inl OsError, [])))))"

definition enforce_limits_checked ::
  "hash64 \<Rightarrow> fs_calls \<Rightarrow> nat \<Rightarrow> nat option \<Rightarrow> nat option \<Rightarrow> segment_file list \<Rightarrow> (io_error + string list) \<times> segment_file list" where
  "enforce_limits_checked xxh calls now max_bytes ttl dir =
    (case segment_paths_checked calls dir of
       Inl e \<Rightarrow> (Inl e, dir)
     | Inr paths \<Rightarrow>
         if length paths \<le> 1 then (Inr [], dir)
         else (case protected_segments xxh calls paths of
             Inl e \<Rightarrow> (Inl e, dir)
           | Inr ps \<Rightarrow>
               if \<not> list_all (\<lambda>f. fc_size calls (sf_name f)) paths then (Inl OsError, dir)
               else (let (r, removed) = evict calls now max_bytes ttl (insert (sf_name (last paths)) ps) (total_size paths) paths
                     in (map_sum id (\<lambda>_. removed) r, filter (\<lambda>f. sf_name f \<notin> set removed) dir))))"

definition enforce_limits ::
  "hash64 \<Rightarrow> fs_calls \<Rightarrow> nat \<Rightarrow> nat option \<Rightarrow> nat option \<Rightarrow> segment_file list \<Rightarrow> string list \<times> segment_file list" where
  "enforce_limits xxh calls now max_bytes ttl dir =
     (case enforce_limits_checked xxh calls now max_bytes ttl dir of (Inl _, dir') \<Rightarrow> ([], dir') | (Inr ps, dir') \<Rightarrow> (ps, dir'))"

end
