(* ===== verification/Memc_Retention.thy ===== *)
theory Memc_Retention
  imports Memc_Store
begin

text \<open>
  Segment names parse back, \<open>create_segment\<close> finds a free name, and the eviction loop keeps what it
  must and removes what it should.
\<close>

section \<open>Names\<close>

lemma digit_value_char: "d < 10 \<Longrightarrow> digit_value (digit_char d) = Some d"
  by (auto simp: numeral_eq_Suc less_Suc_eq digit_value_def digit_char_def)

lemma digits_step: "digits 10 n = (if n < 10 then [digit_char n] else digits 10 (n div 10) @ [digit_char (n mod 10)])"
  by (subst digits.simps) simp

definition is_digit :: "char \<Rightarrow> bool" where "is_digit c \<longleftrightarrow> digit_value c \<noteq> None"

lemma is_digit_char: "d < 10 \<Longrightarrow> is_digit (digit_char d)"
  by (simp add: is_digit_def digit_value_char)

lemma digits_are_digits: "list_all is_digit (digits 10 n)"
proof (induction n rule: less_induct)
  case (less n)
  then show ?case by (subst digits_step) (simp add: is_digit_char)
qed

lemma digits_nonempty: "digits 10 n \<noteq> []"
  by (subst digits_step) simp

lemma parse_digits_append:
  "parse_digits acc (xs @ ys) = (case parse_digits acc xs of None \<Rightarrow> None | Some a \<Rightarrow> parse_digits a ys)"
  by (induction acc xs rule: parse_digits.induct) (auto split: option.splits)

lemma parse_digits_digits: "n < 2 ^ 32 \<Longrightarrow> parse_digits 0 (digits 10 n) = Some n"
proof (induction n rule: less_induct)
  case (less n)
  show ?case
  proof (cases "n < 10")
    case True
    then show ?thesis by (simp add: digits_step digit_value_char)
  next
    case False
    then have "parse_digits 0 (digits 10 (n div 10)) = Some (n div 10)" using less by simp
    then show ?thesis using False less.prems
      by (subst digits_step) (simp add: parse_digits_append digit_value_char)
  qed
qed

lemma parse_zeros: "parse_digits 0 (replicate k CHR ''0'' @ s) = parse_digits 0 s"
  by (induction k) (simp_all add: digit_value_def)

lemma pad6_digits: "list_all is_digit (pad6 (digits 10 n))" "pad6 (digits 10 n) \<noteq> []"
  using digits_are_digits [of n] digits_nonempty [of n]
  by (simp_all add: pad6_def list_all_length is_digit_def digit_value_def nth_append)

lemma rsplit_once_last: "c \<notin> set b \<Longrightarrow> rsplit_once c (a @ c # b) = Some (a, b)"
proof -
  assume "c \<notin> set b"
  then have "takeWhile (\<lambda>x. x \<noteq> c) (rev b @ c # rev a) = rev b"
    by (subst takeWhile_append2) auto
  then show ?thesis by (simp add: rsplit_once_def)
qed

lemma digit_not: "list_all is_digit s \<Longrightarrow> CHR ''-'' \<notin> set s" "list_all is_digit s \<Longrightarrow> CHR ''+'' \<notin> set s"
  by (auto simp: list_all_iff is_digit_def digit_value_def)

lemma parse_u32_pad6: "n < 2 ^ 32 \<Longrightarrow> parse_u32 (pad6 (digits 10 n)) = Some n"
proof -
  assume n: "n < 2 ^ 32"
  obtain c cs where p: "pad6 (digits 10 n) = c # cs" using pad6_digits(2) by (cases "pad6 (digits 10 n)") auto
  have "c \<noteq> CHR ''+''" using digit_not(2) [OF pad6_digits(1), of n] p by auto
  moreover have "parse_digits 0 (pad6 (digits 10 n)) = Some n"
    unfolding pad6_def by (simp add: parse_zeros parse_digits_digits [OF n])
  ultimately show ?thesis by (simp add: parse_u32_def p)
qed

lemma parse_name: "n < 2 ^ 32 \<Longrightarrow> parse_segment_name (segment_name wid n) = Some (wid, n)"
proof -
  assume n: "n < 2 ^ 32"
  have s: "strip_suffix ''.memc'' (segment_name wid n) = Some (wid @ CHR ''-'' # pad6 (digits 10 n))"
    by (simp add: strip_suffix_def segment_name_def SEGMENT_EXT_def)
  show ?thesis
    by (simp add: parse_segment_name_def s rsplit_once_last digit_not(1) [OF pad6_digits(1)] parse_u32_pad6 [OF n])
qed

lemma name_extension: "file_extension (segment_name wid n) = Some ''memc''"
proof -
  have "rsplit_once CHR ''.'' (segment_name wid n) = Some (wid @ ''-'' @ pad6 (digits 10 n), ''memc'')"
    using rsplit_once_last [of "CHR ''.''" "''memc''" "wid @ ''-'' @ pad6 (digits 10 n)"]
    by (simp add: segment_name_def SEGMENT_EXT_def)
  then show ?thesis by (simp add: file_extension_def)
qed

lemma segment_name_inj: "segment_name wid a = segment_name wid b \<Longrightarrow> a < 2 ^ 32 \<Longrightarrow> b < 2 ^ 32 \<Longrightarrow> a = b"
  by (metis option.inject parse_name snd_conv)

section \<open>Creating a segment\<close>

text \<open>The names tried one after the other.\<close>

definition nth_name :: "ColdStore \<Rightarrow> nat \<Rightarrow> string" where
  "nth_name s k = segment_name (st_writer_id s) (unat (st_next_seq s + word_of_nat k))"

lemma create_segment_at:
  assumes "nth_name s k \<notin> sf_name ` set dir" "\<forall>i<k. nth_name s i \<in> sf_name ` set dir"
  shows "create_segment (Suc k) create dir s =
    (Some (create (nth_name s k)), s\<lparr>st_next_seq := st_next_seq s + word_of_nat (Suc k)\<rparr>)"
  using assms
proof (induction k arbitrary: s)
  case 0
  then show ?case by (simp add: next_segment_path_def nth_name_def)
next
  case (Suc k)
  let ?s = "s\<lparr>st_next_seq := st_next_seq s + 1\<rparr>"
  have nn: "nth_name ?s i = nth_name s (Suc i)" for i by (simp add: nth_name_def add_ac)
  have "nth_name s 0 \<in> sf_name ` set dir" using Suc.prems(2) by blast
  then have p: "next_segment_path s = (nth_name s 0, ?s)" "nth_name s 0 \<in> sf_name ` set dir"
    by (simp_all add: next_segment_path_def nth_name_def)
  have "create_segment (Suc k) create dir ?s =
      (Some (create (nth_name ?s k)), ?s\<lparr>st_next_seq := st_next_seq ?s + word_of_nat (Suc k)\<rparr>)"
    by (rule Suc.IH) (use Suc.prems nn in auto)
  moreover have "?s\<lparr>st_next_seq := st_next_seq ?s + word_of_nat (Suc k)\<rparr> =
      s\<lparr>st_next_seq := st_next_seq s + word_of_nat (Suc (Suc k))\<rparr>" by (simp add: add_ac)
  ultimately show ?case
    unfolding create_segment.simps(2) [of "Suc k"] p Let_def prod.case using p(2) by (simp only: nn if_True)
qed

lemma create_segment_mono:
  "create_segment n create dir s = (Some r, s') \<Longrightarrow> n \<le> m \<Longrightarrow> create_segment m create dir s = (Some r, s')"
proof (induction n arbitrary: s m)
  case (Suc n)
  then obtain m' where "m = Suc m'" "n \<le> m'" by (cases m) auto
  then show ?case using Suc by (auto simp: Let_def split: prod.splits if_splits)
qed simp

lemma create_segment_fresh:
  assumes "length dir < 2 ^ 32"
  shows "\<exists>k\<le>length dir. nth_name s k \<notin> sf_name ` set dir \<and>
    create_segment (length dir + 1) create dir s =
      (Some (create (nth_name s k)), s\<lparr>st_next_seq := st_next_seq s + word_of_nat (Suc k)\<rparr>)"
proof -
  let ?N = "sf_name ` set dir"
  have inj: "inj_on (nth_name s) {..length dir}"
  proof (rule inj_onI)
    fix a b assume ab: "a \<in> {..length dir}" "b \<in> {..length dir}" "nth_name s a = nth_name s b"
    have "unat (st_next_seq s + word_of_nat a) = unat (st_next_seq s + word_of_nat b)"
      using ab(3) unat_bound [of "st_next_seq s + word_of_nat a"] unat_bound [of "st_next_seq s + word_of_nat b"]
      unfolding nth_name_def by (intro segment_name_inj) simp_all
    then have "st_next_seq s + word_of_nat a = st_next_seq s + word_of_nat b" by (simp only: word_unat_eq_iff)
    then have "(word_of_nat a :: u32) = word_of_nat b" by simp
    then have "unat (word_of_nat a :: u32) = unat (word_of_nat b :: u32)" by simp
    then show "a = b" using ab(1,2) assms by (simp add: unat_of_nat)
  qed
  have "\<exists>k\<le>length dir. nth_name s k \<notin> ?N"
  proof (rule ccontr)
    assume "\<not> ?thesis"
    then have "nth_name s ` {..length dir} \<subseteq> ?N" by auto
    then have "card (nth_name s ` {..length dir}) \<le> card ?N" by (intro card_mono) auto
    also have "\<dots> \<le> length dir" using card_image_le [of "set dir" sf_name] card_length [of dir] by simp
    finally show False using card_image [OF inj] by simp
  qed
  then obtain k0 where k0: "k0 \<le> length dir" "nth_name s k0 \<notin> ?N" by blast
  define k where "k = (LEAST k. nth_name s k \<notin> ?N)"
  have k: "nth_name s k \<notin> ?N" "\<forall>i<k. nth_name s i \<in> ?N" "k \<le> k0"
  proof -
    show "nth_name s k \<notin> ?N" unfolding k_def by (rule LeastI [of _ k0]) (rule k0(2))
    show "\<forall>i<k. nth_name s i \<in> ?N" unfolding k_def using not_less_Least by blast
    show "k \<le> k0" unfolding k_def by (rule Least_le) (rule k0(2))
  qed
  from create_segment_mono [OF create_segment_at [OF k(1,2)], of "length dir + 1" create] k k0(1)
  show ?thesis by (intro exI [of _ k]) auto
qed

section \<open>Eviction\<close>

definition sizes :: "segment_file list \<Rightarrow> nat" where
  "sizes fs = sum_list (map (\<lambda>f. length (sf_bytes f)) fs)"

lemma sizes_simps [simp]: "sizes [] = 0" "sizes (f # fs) = length (sf_bytes f) + sizes fs"
  by (simp_all add: sizes_def)

lemma total_size_sum: "sizes fs < 2 ^ 64 \<Longrightarrow> total_size fs = sizes fs"
proof -
  have "a + sizes fs < 2 ^ 64 \<Longrightarrow> foldl (\<lambda>t f. saturating_add64 t (length (sf_bytes f))) a fs = a + sizes fs" for a
    by (induction fs arbitrary: a) (simp_all add: saturating_add64_def)
  from this [of 0] show "sizes fs < 2 ^ 64 \<Longrightarrow> ?thesis" by (simp add: total_size_def)
qed

definition too_old :: "nat \<Rightarrow> nat option \<Rightarrow> segment_file \<Rightarrow> bool" where
  "too_old now ttl f \<longleftrightarrow> (case ttl of Some t \<Rightarrow> sf_mtime f \<le> now \<and> t < now - sf_mtime f | None \<Rightarrow> False)"

lemma evict_snd:
  "set (snd (evict calls now mx ttl protect u fs)) \<subseteq> sf_name ` set fs \<and>
   set (snd (evict calls now mx ttl protect u fs)) \<inter> protect = {}"
proof (induction fs arbitrary: u)
  case (Cons f fs)
  have "x \<in> set (snd (evict calls now mx ttl protect u (f # fs))) \<Longrightarrow>
      x = sf_name f \<and> x \<notin> protect \<or> (\<exists>u'. x \<in> set (snd (evict calls now mx ttl protect u' fs)))" for x
    by (cases "sf_name f \<in> protect"; cases "fc_stat calls (sf_name f)"; cases "fc_remove calls (sf_name f)")
      (auto simp: Let_def case_prod_beta split: if_splits)
  then show ?case using Cons.IH by fastforce
qed simp

lemma evict_removed:
  "evict calls now mx ttl protect u fs = (r, removed) \<Longrightarrow> set removed \<subseteq> sf_name ` set fs \<and> set removed \<inter> protect = {}"
  using evict_snd [of calls now mx ttl protect u fs] by simp

text \<open>When no call fails, a kept file that may be evicted is neither too old nor over the budget.\<close>

lemma evict_kept:
  assumes "\<forall>f\<in>set fs. fc_stat calls (sf_name f) = Done \<and> fc_remove calls (sf_name f) = Done"
    and "sorted (map sf_mtime fs)" "distinct (map sf_name fs)" "evict calls now mx ttl protect u fs = (r, removed)"
  shows "r = Inr () \<and> (\<forall>f\<in>set fs. sf_name f \<notin> set removed \<longrightarrow> sf_name f \<notin> protect \<longrightarrow> \<not> too_old now ttl f \<and>
    (case mx of None \<Rightarrow> True | Some m \<Rightarrow> u - sizes (filter (\<lambda>f. sf_name f \<in> set removed) fs) \<le> m))"
  using assms
proof (induction fs arbitrary: u r removed)
  case (Cons f fs)
  let ?old = "too_old now ttl f" and ?over = "case mx of Some m \<Rightarrow> m < u | None \<Rightarrow> False"
  have prem: "\<forall>f\<in>set fs. fc_stat calls (sf_name f) = Done \<and> fc_remove calls (sf_name f) = Done"
    "sorted (map sf_mtime fs)" "distinct (map sf_name fs)" "fc_stat calls (sf_name f) = Done" "fc_remove calls (sf_name f) = Done"
    "sf_name f \<notin> sf_name ` set fs"
    using Cons.prems(1-3) by auto
  show ?case
  proof (cases "sf_name f \<in> protect")
    case True
    then have e: "evict calls now mx ttl protect u fs = (r, removed)" using Cons.prems(4) by simp
    have "sf_name f \<notin> set removed" using evict_removed [OF e] prem(6) by blast
    then have "filter (\<lambda>g. sf_name g \<in> set removed) (f # fs) = filter (\<lambda>g. sf_name g \<in> set removed) fs" by simp
    then show ?thesis using Cons.IH [OF prem(1-3) e] True unfolding \<open>filter _ (f # fs) = _\<close> by simp
  next
    case unprotected: False
    show ?thesis
    proof (cases "?old \<or> ?over")
      case True
      then obtain removed' where e: "evict calls now mx ttl protect (u - length (sf_bytes f)) fs = (r, removed')"
        and rm: "removed = sf_name f # removed'"
        using Cons.prems(4) unprotected prem(4,5) by (auto simp: Let_def too_old_def split: prod.splits if_splits)
      have ih: "r = Inr () \<and> (\<forall>g\<in>set fs. sf_name g \<notin> set removed' \<longrightarrow> sf_name g \<notin> protect \<longrightarrow> \<not> too_old now ttl g \<and>
        (case mx of None \<Rightarrow> True | Some m \<Rightarrow>
          u - length (sf_bytes f) - sizes (filter (\<lambda>g. sf_name g \<in> set removed') fs) \<le> m))"
        by (rule Cons.IH [OF prem(1-3) e])
      have "filter (\<lambda>g. sf_name g \<in> set removed) fs = filter (\<lambda>g. sf_name g \<in> set removed') fs"
        using prem(6) by (intro filter_cong) (auto simp: rm image_iff)
      then have szs: "sizes (filter (\<lambda>g. sf_name g \<in> set removed) (f # fs)) =
          length (sf_bytes f) + sizes (filter (\<lambda>g. sf_name g \<in> set removed') fs)"
        by (simp add: rm)
      show ?thesis using ih unfolding szs diff_diff_eq by (auto simp: rm)
    next
      case False
      then have stop: "r = Inr ()" "removed = []"
        using Cons.prems(4) unprotected prem(4,5) by (auto simp: Let_def too_old_def split: option.splits)
      have "\<not> too_old now ttl g" if "g \<in> set (f # fs)" for g
      proof -
        have "sf_mtime f \<le> sf_mtime g" using that Cons.prems(2) by auto
        then show ?thesis using False by (auto simp: too_old_def split: option.splits)
      qed
      moreover have "case mx of None \<Rightarrow> True | Some m \<Rightarrow> u \<le> m" using False by (auto split: option.splits)
      moreover have none: "sizes (filter (\<lambda>f. sf_name f \<in> set removed) (f # fs)) = 0" by (simp add: stop)
      ultimately show ?thesis unfolding none diff_zero by (simp add: stop)
    qed
  qed
qed simp

section \<open>The retention pass\<close>

lemma protected_segments_error:
  "f \<in> set fs \<Longrightarrow> segment_protected xxh calls f = Inl e \<Longrightarrow> \<exists>e. protected_segments xxh calls fs = Inl e"
  by (induction fs) (auto split: sum.splits)

lemma protected_segments_ok:
  "protected_segments xxh calls fs = Inr ps \<Longrightarrow> f \<in> set fs \<Longrightarrow>
   \<exists>keep. segment_protected xxh calls f = Inr keep \<and> (keep \<longrightarrow> sf_name f \<in> ps)"
  by (induction fs arbitrary: ps) (auto split: sum.splits if_splits)

lemma protected_segments_only:
  "protected_segments xxh calls fs = Inr ps \<Longrightarrow> n \<in> ps \<Longrightarrow>
   \<exists>f\<in>set fs. sf_name f = n \<and> segment_protected xxh calls f = Inr True"
  by (induction fs arbitrary: ps) (auto split: sum.splits if_splits)

lemma retention_blocked:
  assumes "segment_paths_checked calls dir = Inr paths" "2 \<le> length paths" "f \<in> set paths"
    and "from_mmap xxh (sf_bytes f) (sf_name f) = Inl e" "\<not> legacy_segment_is_sealed xxh (sf_bytes f)"
  shows "(\<exists>e. enforce_limits_checked xxh calls now mx ttl dir = (Inl e, dir)) \<and> enforce_limits xxh calls now mx ttl dir = ([], dir)"
proof -
  have "\<exists>e. segment_protected xxh calls f = Inl e" using assms(4,5) by (simp add: segment_protected_def)
  then obtain e' where "protected_segments xxh calls paths = Inl e'" using protected_segments_error [OF assms(3)] by blast
  then show ?thesis using assms(1,2) by (simp add: enforce_limits_def enforce_limits_checked_def)
qed

lemma current_version_not_legacy: "\<not> legacy_segment_is_sealed xxh (segment_encode xxh h @ rest)"
proof -
  have "get_u16 (take SEGMENT_HEADER_SIZE (segment_encode xxh h @ rest)) 4 = VERSION_MEMC"
    by (simp add: SEGMENT_HEADER_SIZE_def segment_encode_eq get_u16_def bslice_def)
  then show ?thesis by (simp add: legacy_segment_is_sealed_def Let_def VERSION_MEMC_def)
qed

end
