(* ===== verification/Memc_Compactor.thy ===== *)
theory Memc_Compactor
  imports Memc_Guarantees Memc_Retention Table_Validate
begin

text \<open>
  The compactor (\<open>probing/memtable/src/memc/compactor.rs\<close>): it drains sealed chunks of a MEMT table
  into pages of the open MEMC segment and rolls segments by size and age. The table is the shared
  buffer; what the writing processes do to it while a chunk is read, and the outcomes of the
  reader's validity checks, are arguments (\<open>drain_env\<close>), as are the outcomes of file operations. The
  directory is the list of the finished segment files.
\<close>

section \<open>State\<close>

record CompactorConfig =
  cc_target_segment_bytes :: nat
  cc_max_segment_age :: nat
  cc_max_total_bytes :: "nat option"
  cc_ttl :: "nat option"

record TableProgress =
  tp_source_instance :: nat
  tp_drained_gen :: "nat list"
  tp_seg_table_id :: "u32 option"

record Compactor =
  cp_store :: ColdStore
  cp_config :: CompactorConfig
  cp_current :: "SegmentWriter option"
  cp_opened_at :: nat
  cp_tables :: "byte list \<rightharpoonup> TableProgress"
  cp_seed :: "byte list \<times> nat \<rightharpoonup> (usize \<rightharpoonup> nat)"

definition compactor_new :: "ColdStore \<Rightarrow> CompactorConfig \<Rightarrow> nat \<Rightarrow> Compactor" where
  "compactor_new store config now =
     \<lparr>cp_store = store, cp_config = config, cp_current = None, cp_opened_at = now, cp_tables = Map.empty, cp_seed = Map.empty\<rparr>"

definition current_segment_bytes :: "Compactor \<Rightarrow> nat" where
  "current_segment_bytes cp = (case cp_current cp of None \<Rightarrow> 0 | Some w \<Rightarrow> sw_size_bytes w)"

section \<open>Watermarks from the cold segments\<close>

definition seed_page :: "SegmentReader \<Rightarrow> (byte list \<times> nat \<rightharpoonup> (usize \<rightharpoonup> nat)) \<Rightarrow> PageMeta \<Rightarrow> (byte list \<times> nat \<rightharpoonup> (usize \<rightharpoonup> nat))" where
  "seed_page r seed p =
    (if pm_source_chunk p = SOURCE_CHUNK_NONE then seed
     else (case table_def r (pm_table_id p) of
         None \<Rightarrow> seed
       | Some d \<Rightarrow>
           (let key = (td_name d, unat (pm_source_instance p));
                inner = (case seed key of None \<Rightarrow> Map.empty | Some m \<Rightarrow> m);
                chunk = unat (pm_source_chunk p);
                slot = (case inner chunk of None \<Rightarrow> 0 | Some g \<Rightarrow> g)
            in seed(key \<mapsto> inner(chunk \<mapsto> max slot (unat (pm_source_gen p)))))))"

fun prime_segments :: "hash64 \<Rightarrow> fs_calls \<Rightarrow> segment_file list \<Rightarrow> Compactor \<Rightarrow> (io_error + unit) \<times> Compactor" where
  "prime_segments xxh calls [] cp = (Inr (), cp)"
| "prime_segments xxh calls (f # fs) cp =
    (if \<not> fc_open calls (sf_name f) then (Inl OsError, cp)
     else (case from_mmap xxh (sf_bytes f) (sf_name f) of
         Inl e \<Rightarrow> (Inl (InvalidData e), cp)
       | Inr r \<Rightarrow> prime_segments xxh calls fs (cp\<lparr>cp_seed := foldl (seed_page r) (cp_seed cp) (sr_pages r)\<rparr>)))"

definition prime_from_cold :: "hash64 \<Rightarrow> fs_calls \<Rightarrow> segment_file list \<Rightarrow> Compactor \<Rightarrow> (io_error + unit) \<times> Compactor" where
  "prime_from_cold xxh calls dir cp =
    (case segment_paths_checked calls dir of Inl e \<Rightarrow> (Inl e, cp) | Inr paths \<Rightarrow> prime_segments xxh calls paths cp)"

section \<open>Transposing a chunk\<close>

record drain_env =
  de_row_ok :: "usize \<Rightarrow> bool \<times> bool"
  de_cursor_ok :: "usize \<Rightarrow> bool"
  de_cell_ok :: "usize \<Rightarrow> usize \<Rightarrow> bool \<times> bool \<times> bool"
  de_world :: "buf \<Rightarrow> buf"
  de_now :: nat
  de_unix_ms :: u64
  de_opened :: bool
  de_create_io :: io
  de_table_io :: io
  de_page_io :: io
  de_footer_io :: io
  de_header_io :: "usize option"
  de_synced :: bool
  de_removed :: call_outcome

fun transpose_row ::
  "(usize \<Rightarrow> bool \<times> bool \<times> bool) \<Rightarrow> DType list \<Rightarrow> usize \<Rightarrow> RowCursor \<Rightarrow> ColumnData list \<Rightarrow> ColumnData list" where
  "transpose_row ok [] ci cur builders = builders"
| "transpose_row ok (d # ds) ci cur builders =
    (let (v1, v2, v3) = ok ci;
         (v, cur') = next_value d v1 v2 v3 cur
     in transpose_row ok ds (ci + 1) cur' (builders[ci := builder_push (builders ! ci) v]))"

fun transpose_rows :: "drain_env \<Rightarrow> DType list \<Rightarrow> usize \<Rightarrow> Row list \<Rightarrow> ColumnData list \<Rightarrow> ColumnData list" where
  "transpose_rows env ds ri [] builders = builders"
| "transpose_rows env ds ri (r # rs) builders =
     transpose_rows env ds (ri + 1) rs
       (transpose_row (de_cell_ok env ri) ds 0 (row_cursor r (de_cursor_ok env ri)) builders)"

text \<open>
  \<^term>\<open>None\<close> is a panic in the row iterator. Every row takes at least four bytes of the payload, so the
  iterator is exhausted within the calls allowed to it. The pin is dropped, with the iterator, before
  the generation is read again.
\<close>

definition transpose_chunk ::
  "os \<Rightarrow> drain_env \<Rightarrow> buf \<Rightarrow> usize \<Rightarrow> DType list \<Rightarrow> ((nat \<times> ColumnData list) option \<times> buf) option" where
  "transpose_chunk os env b chunk ds =
    (let gen_before = chunk_generation b chunk in
     if gen_before = 0 then Some (None, b)
     else (let (it, b1) = table_rows os b chunk in
       (case row_iter_take (it_end it - it_pos it + 1) (de_row_ok env) it of
          None \<Rightarrow> None
        | Some rows \<Rightarrow>
            (let columns = transpose_rows env ds 0 rows (map builder_new ds);
                 b2 = de_world env b1;
                 b3 = (case it_pin it of None \<Rightarrow> b2 | Some p \<Rightarrow> drop_pin os b2 p)
             in if chunk_generation b3 chunk \<noteq> gen_before then Some (None, b3)
                else Some (Some (gen_before, columns), b3)))))"

section \<open>Rolling\<close>

definition forget_table_ids :: "(byte list \<rightharpoonup> TableProgress) \<Rightarrow> (byte list \<rightharpoonup> TableProgress)" where
  "forget_table_ids t = map_option (\<lambda>p. p\<lparr>tp_seg_table_id := None\<rparr>) \<circ> t"

definition roll ::
  "hash64 \<Rightarrow> os \<Rightarrow> drain_env \<Rightarrow> Compactor \<Rightarrow> segment_file list \<Rightarrow> (io_error + string option) \<times> Compactor \<times> segment_file list" where
  "roll xxh os env cp dir =
    (case cp_current cp of
       None \<Rightarrow> (Inr None, cp, dir)
     | Some w \<Rightarrow>
         (let cp' = cp\<lparr>cp_current := None, cp_tables := forget_table_ids (cp_tables cp)\<rparr>;
              file = (\<lambda>f. \<lparr>sf_name = sw_path w, sf_bytes = f, sf_mtime = de_now env\<rparr>)
          in if sw_page_count w = 0 then
               (case de_removed env of
                  Failed \<Rightarrow> (Inl OsError, cp', dir @ [file (sw_file w)])
                | _ \<Rightarrow> (Inr None, cp', dir))
             else (case seal xxh os (de_unix_ms env) (de_footer_io env) (de_header_io env) (de_synced env) w of
                  (Inl e, f) \<Rightarrow> (Inl e, cp', dir @ [file f])
                | (Inr path, f) \<Rightarrow> (Inr (Some path), cp', dir @ [file f]))))"

definition flush :: "hash64 \<Rightarrow> os \<Rightarrow> drain_env \<Rightarrow> Compactor \<Rightarrow> segment_file list \<Rightarrow> (io_error + string option) \<times> Compactor \<times> segment_file list" where
  "flush xxh os env cp dir = roll xxh os env cp dir"

definition maybe_roll_on_size ::
  "hash64 \<Rightarrow> os \<Rightarrow> drain_env \<Rightarrow> Compactor \<Rightarrow> segment_file list \<Rightarrow> (io_error + string option) \<times> Compactor \<times> segment_file list" where
  "maybe_roll_on_size xxh os env cp dir =
    (case cp_current cp of
       None \<Rightarrow> (Inr None, cp, dir)
     | Some w \<Rightarrow>
         if cc_target_segment_bytes (cp_config cp) \<le> sw_size_bytes w then roll xxh os env cp dir else (Inr None, cp, dir))"

definition maybe_roll_on_age ::
  "hash64 \<Rightarrow> os \<Rightarrow> drain_env \<Rightarrow> Compactor \<Rightarrow> segment_file list \<Rightarrow> (io_error + string option) \<times> Compactor \<times> segment_file list" where
  "maybe_roll_on_age xxh os env cp dir =
    (case cp_current cp of
       None \<Rightarrow> (Inr None, cp, dir)
     | Some w \<Rightarrow>
         if 0 < sw_page_count w \<and> cc_max_segment_age (cp_config cp) \<le> de_now env - cp_opened_at cp
         then roll xxh os env cp dir else (Inr None, cp, dir))"

section \<open>Draining\<close>

text \<open>
  The outer \<^term>\<open>None\<close>: no free segment name was found within one more attempt than there are files.
  A creation that fails after the file was opened leaves the file behind.
\<close>

definition abandoned_file :: "hash64 \<Rightarrow> os \<Rightarrow> drain_env \<Rightarrow> ColdStore \<Rightarrow> segment_file list" where
  "abandoned_file xxh os env store =
    (if de_opened env
     then [\<lparr>sf_name = segment_name (st_writer_id store) (unat (st_next_seq store - 1)),
            sf_bytes = snd (write_all (de_create_io env) [] (segment_encode xxh (new_segment_header os (de_unix_ms env)))),
            sf_mtime = de_now env\<rparr>]
     else [])"

definition ensure_segment ::
  "hash64 \<Rightarrow> os \<Rightarrow> drain_env \<Rightarrow> Compactor \<Rightarrow> segment_file list \<Rightarrow> ((io_error + unit) \<times> Compactor \<times> segment_file list) option" where
  "ensure_segment xxh os env cp dir =
    (case cp_current cp of
       Some _ \<Rightarrow> Some (Inr (), cp, dir)
     | None \<Rightarrow>
         (let (res, store) = create_segment (length dir + 1)
                (segment_create xxh os (de_unix_ms env) (de_opened env) (de_create_io env)) dir (cp_store cp);
              cp = cp\<lparr>cp_store := store\<rparr>
          in (case res of
                None \<Rightarrow> None
              | Some (Inl e) \<Rightarrow> Some (Inl e, cp, dir @ abandoned_file xxh os env store)
              | Some (Inr w) \<Rightarrow>
                  Some (Inr (), cp\<lparr>cp_current := Some w, cp_opened_at := de_now env,
                                   cp_tables := forget_table_ids (cp_tables cp)\<rparr>, dir))))"

definition register_if_needed ::
  "hash64 \<Rightarrow> drain_env \<Rightarrow> Compactor \<Rightarrow> byte list \<Rightarrow> (byte list \<times> DType) list \<Rightarrow> (io_error + u32) \<times> Compactor" where
  "register_if_needed xxh env cp name cs =
    (case Option.bind (cp_tables cp name) tp_seg_table_id of
       Some tid \<Rightarrow> (Inr tid, cp)
     | None \<Rightarrow>
         (case cp_current cp of
            None \<Rightarrow> (Inl (Other ''missing open compactor segment''), cp)
          | Some w \<Rightarrow>
              (case register_table xxh (de_table_io env) w name cs of
                 (Inl e, w') \<Rightarrow> (Inl e, cp\<lparr>cp_current := Some w'\<rparr>)
               | (Inr tid, w') \<Rightarrow>
                   (let cp = cp\<lparr>cp_current := Some w'\<rparr> in
                    (case cp_tables cp name of
                       None \<Rightarrow> (Inl (Other ''missing compactor table progress''), cp)
                     | Some p \<Rightarrow> (Inr tid, cp\<lparr>cp_tables := (cp_tables cp)(name \<mapsto> p\<lparr>tp_seg_table_id := Some tid\<rparr>)\<rparr>))))))"

definition set_drained :: "byte list \<Rightarrow> usize \<Rightarrow> nat \<Rightarrow> Compactor \<Rightarrow> (io_error + unit) \<times> Compactor" where
  "set_drained name chunk gen cp =
    (case cp_tables cp name of
       None \<Rightarrow> (Inl (Other ''missing compactor chunk progress''), cp)
     | Some p \<Rightarrow>
         if chunk < length (tp_drained_gen p)
         then (Inr (), cp\<lparr>cp_tables := (cp_tables cp)(name \<mapsto> p\<lparr>tp_drained_gen := (tp_drained_gen p)[chunk := gen]\<rparr>)\<rparr>)
         else (Inl (Other ''missing compactor chunk progress''), cp))"

type_synonym compact_state = "Compactor \<times> segment_file list \<times> buf"

text \<open>Appending the page of one chunk, from \<open>ensure_segment\<close> to the roll by size.\<close>

definition store_page ::
  "hash64 \<Rightarrow> pco \<Rightarrow> os \<Rightarrow> drain_env \<Rightarrow> byte list \<Rightarrow> (byte list \<times> DType) list \<Rightarrow> nat \<Rightarrow> usize \<Rightarrow> nat \<Rightarrow> ColumnData list \<Rightarrow>
    Compactor \<Rightarrow> segment_file list \<Rightarrow> ((io_error + unit) \<times> Compactor \<times> segment_file list) option" where
  "store_page xxh p os env name cs inst chunk gen columns cp dir =
    (case ensure_segment xxh os env cp dir of
       None \<Rightarrow> None
     | Some (Inl e, cp, dir) \<Rightarrow> Some (Inl e, cp, dir)
     | Some (Inr _, cp, dir) \<Rightarrow>
         (case register_if_needed xxh env cp name cs of
            (Inl e, cp) \<Rightarrow> Some (Inl e, cp, dir)
          | (Inr tid, cp) \<Rightarrow>
              (case cp_current cp of
                 None \<Rightarrow> Some (Inl (Other ''missing open compactor segment''), cp, dir)
               | Some w \<Rightarrow>
                   (case append_page_from xxh p (de_page_io env) w tid columns (word_of_nat gen) (word_of_nat chunk) (word_of_nat inst) of
                      (Inl e, w') \<Rightarrow> Some (Inl e, cp\<lparr>cp_current := Some w'\<rparr>, dir)
                    | (Inr _, w') \<Rightarrow>
                        (case set_drained name chunk gen (cp\<lparr>cp_current := Some w'\<rparr>) of
                           (Inl e, cp) \<Rightarrow> Some (Inl e, cp, dir)
                         | (Inr _, cp) \<Rightarrow>
                             (case maybe_roll_on_size xxh os env cp dir of
                                (Inl e, cp, dir) \<Rightarrow> Some (Inl e, cp, dir)
                              | (Inr _, cp, dir) \<Rightarrow> Some (Inr (), cp, dir)))))))"

text \<open>One iteration of the loop over the chunks: the rows compacted, or the error that ends the call.\<close>

definition drain_chunk ::
  "hash64 \<Rightarrow> pco \<Rightarrow> os \<Rightarrow> drain_env \<Rightarrow> byte list \<Rightarrow> (byte list \<times> DType) list \<Rightarrow> nat \<Rightarrow> usize \<Rightarrow> compact_state \<Rightarrow>
    ((io_error + usize) \<times> compact_state) option" where
  "drain_chunk xxh p os env name cs inst chunk = (\<lambda>(cp, dir, b).
    (if chunk_state b chunk \<noteq> chunk_state_code Sealed then Some (Inr 0, cp, dir, b)
     else (let gen = chunk_generation b chunk in
       (case Option.bind (cp_tables cp name)
               (\<lambda>t. if chunk < length (tp_drained_gen t) then Some (tp_drained_gen t ! chunk) else None) of
          None \<Rightarrow> Some (Inl (Other ''missing compactor chunk progress''), cp, dir, b)
        | Some already \<Rightarrow>
            if gen = 0 \<or> gen \<le> already then Some (Inr 0, cp, dir, b)
            else (case transpose_chunk os env b chunk (map snd cs) of
                None \<Rightarrow> None
              | Some (None, b) \<Rightarrow> Some (Inr 0, cp, dir, b)
              | Some (Some (gen_read, columns), b) \<Rightarrow>
                  (let n = (case columns of [] \<Rightarrow> 0 | c # _ \<Rightarrow> column_len c) in
                   if n = 0 then
                     (case set_drained name chunk gen_read cp of
                        (Inl e, cp) \<Rightarrow> Some (Inl e, cp, dir, b)
                      | (Inr _, cp) \<Rightarrow> Some (Inr 0, cp, dir, b))
                   else
                     (case store_page xxh p os env name cs inst chunk gen_read columns cp dir of
                        None \<Rightarrow> None
                      | Some (Inl e, cp, dir) \<Rightarrow> Some (Inl e, cp, dir, b)
                      | Some (Inr _, cp, dir) \<Rightarrow> Some (Inr n, cp, dir, b))))))))"

fun drain_chunks ::
  "hash64 \<Rightarrow> pco \<Rightarrow> os \<Rightarrow> (usize \<Rightarrow> drain_env) \<Rightarrow> byte list \<Rightarrow> (byte list \<times> DType) list \<Rightarrow> nat \<Rightarrow> usize list \<Rightarrow> usize \<Rightarrow>
    compact_state \<Rightarrow> ((io_error + usize) \<times> compact_state) option" where
  "drain_chunks xxh p os env name cs inst [] rows st = Some (Inr rows, st)"
| "drain_chunks xxh p os env name cs inst (chunk # chunks) rows st =
    (case drain_chunk xxh p os (env chunk) name cs inst chunk st of
       None \<Rightarrow> None
     | Some (Inl e, st) \<Rightarrow> Some (Inl e, st)
     | Some (Inr n, st) \<Rightarrow> drain_chunks xxh p os env name cs inst chunks (rows + n) st)"

definition resize_gens :: "usize \<Rightarrow> nat list \<Rightarrow> nat list" where
  "resize_gens n gs = take n gs @ replicate (n - length gs) 0"

text \<open>The progress entry that \<open>drain_view\<close> works with: a new one, from the seeds, when the instance changed.\<close>

definition seeded_gens :: "Compactor \<Rightarrow> byte list \<Rightarrow> nat \<Rightarrow> usize \<Rightarrow> nat list" where
  "seeded_gens cp name inst n =
    (case cp_seed cp (name, inst) of
       None \<Rightarrow> replicate n 0
     | Some m \<Rightarrow> map (\<lambda>i. case m i of None \<Rightarrow> 0 | Some g \<Rightarrow> g) [0..<n])"

definition prepare_progress :: "Compactor \<Rightarrow> byte list \<Rightarrow> nat \<Rightarrow> usize \<Rightarrow> Compactor" where
  "prepare_progress cp name inst n =
    (let fresh = \<lparr>tp_source_instance = inst, tp_drained_gen = seeded_gens cp name inst n, tp_seg_table_id = None\<rparr>;
         t = (case cp_tables cp name of
                None \<Rightarrow> fresh
              | Some t \<Rightarrow> if tp_source_instance t = inst then t else fresh);
         t = (if length (tp_drained_gen t) \<noteq> n then t\<lparr>tp_drained_gen := resize_gens n (tp_drained_gen t)\<rparr> else t)
     in cp\<lparr>cp_tables := (cp_tables cp)(name \<mapsto> t)\<rparr>)"

definition view_columns :: "buf \<Rightarrow> (byte list \<times> DType) list option" where
  "view_columns b = map_option (\<lambda>s. map (\<lambda>c. (col_name c, col_dtype c)) (cols s)) (table_schema b)"

definition drain_view ::
  "hash64 \<Rightarrow> pco \<Rightarrow> os \<Rightarrow> (usize \<Rightarrow> drain_env) \<Rightarrow> byte list \<Rightarrow> compact_state \<Rightarrow> ((io_error + usize) \<times> compact_state) option" where
  "drain_view xxh p os env name = (\<lambda>(cp, dir, b).
    (case view_columns b of
       None \<Rightarrow> None
     | Some cs \<Rightarrow>
         (let inst = instance_id (header b);
              cp = prepare_progress cp name inst (num_chunks (header b))
          in drain_chunks xxh p os env name cs inst (chunks_logical b) 0 (cp, dir, b))))"

section \<open>Retention and the worker\<close>

text \<open>
  The store sees every file of the directory, the open segment's among them; \<open>mtime\<close> is the time of
  its last write. A pass never removes the open segment, whose reader reports it as not sealed.
\<close>

definition open_file :: "nat \<Rightarrow> Compactor \<Rightarrow> segment_file list" where
  "open_file mtime cp =
    (case cp_current cp of None \<Rightarrow> [] | Some w \<Rightarrow> [\<lparr>sf_name = sw_path w, sf_bytes = sw_file w, sf_mtime = mtime\<rparr>])"

definition enforce_checked ::
  "hash64 \<Rightarrow> fs_calls \<Rightarrow> nat \<Rightarrow> nat \<Rightarrow> Compactor \<Rightarrow> segment_file list \<Rightarrow> (io_error + string list) \<times> segment_file list" where
  "enforce_checked xxh calls now mtime cp dir =
     enforce_limits_checked xxh calls now (cc_max_total_bytes (cp_config cp)) (cc_ttl (cp_config cp)) (dir @ open_file mtime cp)"

definition enforce ::
  "hash64 \<Rightarrow> fs_calls \<Rightarrow> nat \<Rightarrow> nat \<Rightarrow> Compactor \<Rightarrow> segment_file list \<Rightarrow> string list \<times> segment_file list" where
  "enforce xxh calls now mtime cp dir =
     enforce_limits xxh calls now (cc_max_total_bytes (cp_config cp)) (cc_ttl (cp_config cp)) (dir @ open_file mtime cp)"

text \<open>
  One turn of the background thread: drain every source, roll by age, enforce the limits. Errors are
  recorded and the turn goes on. \<open>sources\<close> pairs each table name with its shared buffer.
\<close>

datatype worker_error = DrainError "byte list" io_error | RollError io_error | RetentionError io_error

type_synonym worker_state = "Compactor \<times> segment_file list \<times> (byte list \<times> buf) list"

fun drain_sources ::
  "hash64 \<Rightarrow> pco \<Rightarrow> os \<Rightarrow> (usize \<Rightarrow> drain_env) \<Rightarrow> (byte list \<times> buf) list \<Rightarrow> Compactor \<Rightarrow> segment_file list \<Rightarrow>
    (worker_error list \<times> worker_state) option" where
  "drain_sources xxh p os env [] cp dir = Some ([], cp, dir, [])"
| "drain_sources xxh p os env ((name, b) # sources) cp dir =
    (case drain_view xxh p os env name (cp, dir, b) of
       None \<Rightarrow> None
     | Some (r, cp, dir, b) \<Rightarrow>
         (case drain_sources xxh p os env sources cp dir of
            None \<Rightarrow> None
          | Some (es, cp, dir, rest) \<Rightarrow>
              Some ((case r of Inl e \<Rightarrow> [DrainError name e] | Inr _ \<Rightarrow> []) @ es, cp, dir, (name, b) # rest)))"

definition worker_turn ::
  "hash64 \<Rightarrow> pco \<Rightarrow> os \<Rightarrow> (usize \<Rightarrow> drain_env) \<Rightarrow> drain_env \<Rightarrow> fs_calls \<Rightarrow> nat \<Rightarrow> nat \<Rightarrow> worker_state \<Rightarrow>
    (worker_error list \<times> worker_state) option" where
  "worker_turn xxh p os env renv calls now mtime = (\<lambda>(cp, dir, sources).
    (case drain_sources xxh p os env sources cp dir of
       None \<Rightarrow> None
     | Some (es, cp, dir, sources) \<Rightarrow>
         (let (rr, cp, dir) = maybe_roll_on_age xxh os renv cp dir;
              (er, files) = enforce_checked xxh calls now mtime cp dir;
              dir = filter (\<lambda>f. sf_name f \<notin> sf_name ` set (open_file mtime cp)) files
          in Some (es @ (case rr of Inl e \<Rightarrow> [RollError e] | Inr _ \<Rightarrow> []) @
                     (case er of Inl e \<Rightarrow> [RetentionError e] | Inr _ \<Rightarrow> []), cp, dir, sources))))"

definition worker_stop ::
  "hash64 \<Rightarrow> pco \<Rightarrow> os \<Rightarrow> (usize \<Rightarrow> drain_env) \<Rightarrow> drain_env \<Rightarrow> fs_calls \<Rightarrow> nat \<Rightarrow> nat \<Rightarrow> worker_state \<Rightarrow>
    (worker_error list \<times> worker_state) option" where
  "worker_stop xxh p os env renv calls now mtime = (\<lambda>(cp, dir, sources).
    (case drain_sources xxh p os env sources cp dir of
       None \<Rightarrow> None
     | Some (es, cp, dir, sources) \<Rightarrow>
         (let (rr, cp, dir) = flush xxh os renv cp dir;
              (er, files) = enforce_checked xxh calls now mtime cp dir;
              dir = filter (\<lambda>f. sf_name f \<notin> sf_name ` set (open_file mtime cp)) files
          in Some (es @ (case rr of Inl e \<Rightarrow> [RollError e] | Inr _ \<Rightarrow> []) @
                     (case er of Inl e \<Rightarrow> [RetentionError e] | Inr _ \<Rightarrow> []), cp, dir, sources))))"

end
