(* ===== verification/Memc_Drain.thy ===== *)
theory Memc_Drain
  imports Memc_Compactor
begin

text \<open>
  What draining does: the page of a chunk is its rows, column by column; pages are appended in the
  order of their generations, at most once each; and a chunk that could not be pinned.
\<close>

section \<open>Transposition\<close>

definition column_of :: "DType \<Rightarrow> Value list \<Rightarrow> ColumnData" where
  "column_of d vs = foldl builder_push (builder_new d) vs"

definition transposed :: "DType list \<Rightarrow> Value list list \<Rightarrow> ColumnData list" where
  "transposed ds rows = map (\<lambda>j. column_of (ds ! j) (map (\<lambda>r. r ! j) rows)) [0..<length ds]"

fun column_values :: "ColumnData \<Rightarrow> Value list" where
  "column_values (CU8 v) = map VU8 v"
| "column_values (CU32 v) = map VU32 v"
| "column_values (CI32 v) = map VI32 v"
| "column_values (CI64 v) = map VI64 v"
| "column_values (CF32 v) = map VF32 v"
| "column_values (CF64 v) = map VF64 v"
| "column_values (CU64 v) = map VU64 v"
| "column_values (CStr v) = map VStr v"
| "column_values (CBytes v) = map VBytes v"

lemma builder_push_typed:
  "column_dtype c = value_dtype v \<Longrightarrow>
   column_values (builder_push c v) = column_values c @ [v] \<and> column_dtype (builder_push c v) = column_dtype c"
  by (cases c; cases v) auto

lemma column_of_values:
  "\<forall>v\<in>set vs. value_dtype v = d \<Longrightarrow> column_values (column_of d vs) = vs \<and> column_dtype (column_of d vs) = d"
proof (induction vs rule: rev_induct)
  case Nil
  then show ?case by (cases d) (auto simp: column_of_def)
next
  case (snoc v vs)
  then show ?case using builder_push_typed [of "column_of d vs" v] by (simp add: column_of_def)
qed

lemma column_len_values: "column_len c = length (column_values c)"
  by (cases c) auto

lemma length_read_values: "length (fst (read_values ds c)) = length ds"
  by (induction ds arbitrary: c) (simp_all add: Let_def case_prod_beta)

definition all_ok :: "usize \<Rightarrow> bool \<times> bool \<times> bool" where
  "all_ok ci = (True, True, True)"

lemma transpose_row_ok:
  "length bs = ci + length ds \<Longrightarrow>
   transpose_row all_ok ds ci cur bs = take ci bs @ map2 builder_push (drop ci bs) (fst (read_values ds cur))"
proof (induction ds arbitrary: ci cur bs)
  case (Cons d ds)
  obtain v cur' where nv: "next_value d True True True cur = (v, cur')" by fastforce
  let ?bs = "bs[ci := builder_push (bs ! ci) v]"
  have ci: "ci < length bs" using Cons.prems by simp
  have "transpose_row all_ok ds (ci + 1) cur' ?bs =
      take (ci + 1) ?bs @ map2 builder_push (drop (ci + 1) ?bs) (fst (read_values ds cur'))"
    by (rule Cons.IH) (use Cons.prems in simp)
  also have "take (ci + 1) ?bs = take ci bs @ [builder_push (bs ! ci) v]"
    using ci by (simp add: take_Suc_conv_app_nth)
  also have "drop (ci + 1) ?bs = drop (ci + 1) bs" by simp
  finally show ?case
    using ci by (simp add: all_ok_def nv Let_def case_prod_beta Cons_nth_drop_Suc [symmetric])
qed simp

definition quiet :: "drain_env \<Rightarrow> bool" where
  "quiet env \<longleftrightarrow> (\<forall>q. de_row_ok env q = (True, True)) \<and> (\<forall>r. de_cursor_ok env r) \<and>
     (\<forall>r. de_cell_ok env r = all_ok) \<and> de_world env = id"

lemma transpose_rows_quiet:
  assumes "quiet env" "length bs = length ds"
  shows "transpose_rows env ds ri rows bs =
    map (\<lambda>j. foldl builder_push (bs ! j) (map (\<lambda>r. fst (read_values ds (row_cursor r True)) ! j) rows)) [0..<length ds]"
  using assms
proof (induction rows arbitrary: ri bs)
  case Nil
  then show ?case using map_nth [of bs] by simp
next
  case (Cons r rows)
  let ?vs = "fst (read_values ds (row_cursor r True))"
  have st: "transpose_row (de_cell_ok env ri) ds 0 (row_cursor r (de_cursor_ok env ri)) bs = map2 builder_push bs ?vs"
    using transpose_row_ok [of bs 0 ds "row_cursor r True"] Cons.prems by (simp add: quiet_def)
  have l: "length (map2 builder_push bs ?vs) = length ds" using Cons.prems by (simp add: length_read_values)
  show ?case
    unfolding transpose_rows.simps st Cons.IH [OF Cons.prems(1) l]
    using Cons.prems by (auto simp: length_read_values)
qed

lemma transpose_rows_transposed:
  assumes "quiet env" "map (\<lambda>r. fst (read_values ds (row_cursor r True))) rows = vss"
  shows "transpose_rows env ds 0 rows (map builder_new ds) = transposed ds vss"
proof -
  have "map (\<lambda>r. fst (read_values ds (row_cursor r True)) ! j) rows = map (\<lambda>vs. vs ! j) vss" for j
    using assms(2) by auto
  then show ?thesis
    unfolding transpose_rows_quiet [OF assms(1) length_map] transposed_def column_of_def by simp
qed

lemma it_rest_rows: "length (parse_rows p) \<le> length p"
proof (induction p rule: parse_rows.induct)
  case (1 p)
  then show ?case by (subst parse_rows.simps) (auto simp: Let_def)
qed

lemma try_rows_span:
  assumes "represents b s" "i < num_chunks (header b)" "try_rows os b i = (Inr it, b1)" "it_pin it = Some p"
  shows "length (ring_chunks s ! i) \<le> it_end it - it_pos it"
proof -
  note r = representsD [OF assms(1)]
  note tr = try_rows_pinned [OF assms]
  have "length (ring_chunks s ! i) = length (parse_rows (payload b i))"
    using r(9) [OF assms(2)] by (auto simp: chunk_rep_def Let_def chunk_view_def holds_def dest: list_all2_lengthD)
  also have "\<dots> \<le> length (it_rest it)" using it_rest_rows [of "it_rest it"] tr by simp
  also have "\<dots> \<le> it_end it - it_pos it" by (simp add: it_rest_def length_slice)
  finally show ?thesis .
qed

lemma table_dtypes_cold: "cold_eq b b' \<Longrightarrow> table_dtypes b' = table_dtypes b"
  by (simp add: table_dtypes_def cold_eq_header(1) cold_eq_col_desc)

lemma transpose_chunk_rep:
  assumes rep: "represents b s" and i: "i < num_chunks (header b)" and q: "quiet env"
    and t: "try_rows os b i = (Inr it, b1)" "it_pin it = Some pin" and g: "chunk_generation b i \<noteq> 0"
  shows "\<exists>b2. transpose_chunk os env b i (table_dtypes b) =
      Some (Some (chunk_generation b i, transposed (table_dtypes b) (ring_chunks s ! i)), b2) \<and>
    represents b2 s \<and> lease_frame b b2"
proof -
  note r = representsD [OF rep]
  note tr = try_rows_pinned [OF rep i t]
  have lf1: "lease_frame b b1" using tr by blast
  have g1: "table_geom b1" by (rule lease_frame_geom [OF r(1) lf1])
  have h1: "header b1 = header b" by (rule lease_frame_header [OF r(1) lf1])
  let ?n = "it_end it - it_pos it + 1"
  have "length (ring_chunks s ! i) < ?n" using try_rows_span [OF rep i t] by simp
  from read_through_pin [OF rep i t, of "de_row_ok env" ?n] q this obtain rows where
    rows: "row_iter_take ?n (de_row_ok env) it = Some rows" "map (decode_row b1) rows = ring_chunks s ! i"
    by (auto simp: quiet_def)
  have dt: "table_dtypes b1 = table_dtypes b"
    by (rule table_dtypes_cold [OF lease_frame_cold [OF r(1) lf1]])
  have cols: "transpose_rows env (table_dtypes b) 0 rows (map builder_new (table_dtypes b)) =
      transposed (table_dtypes b) (ring_chunks s ! i)"
    using rows(2) by (intro transpose_rows_transposed [OF q]) (simp add: decode_row_def [abs_def] dt)
  let ?b2 = "drop_pin os b1 pin"
  have ph: "pin_holds os b1 pin" "pin_chunk_index pin = i" using tr by auto
  have lf2: "lease_frame b1 ?b2"
    using ph i h1 by (intro drop_pin_frame g1) (auto simp: pin_holds_def)
  have lf: "lease_frame b ?b2" by (rule lease_frame_trans [OF r(1) lf1 lf2])
  have gen: "chunk_generation ?b2 i = chunk_generation b i"
    using lease_frame_chunk_header [OF r(1) lf i] cold_eq_chunk_start [OF lease_frame_cold [OF r(1) lf]]
    by (simp add: chunk_generation_def)
  have "table_rows os b i = (it, b1)" by (simp add: table_rows_def t(1))
  then have "transpose_chunk os env b i (table_dtypes b) =
      Some (Some (chunk_generation b i, transposed (table_dtypes b) (ring_chunks s ! i)), ?b2)"
    using g q gen rows(1) cols t(2) by (simp add: transpose_chunk_def Let_def quiet_def)
  then show ?thesis using represents_lease_frame [OF rep lf] lf by blast
qed

section \<open>Storing a page\<close>

definition cold_ok :: "hash64 \<Rightarrow> pco \<Rightarrow> Compactor \<Rightarrow> byte list \<Rightarrow> (byte list \<times> DType) list \<Rightarrow> bool" where
  "cold_ok xxh p cp name cs \<longleftrightarrow>
     (\<forall>w. cp_current cp = Some w \<longrightarrow> (\<exists>es. segment_rep xxh p w es \<and> unat (sw_next_table_id w) + 1 < 2 ^ 32 \<and>
        (\<forall>tid. Option.bind (cp_tables cp name) tp_seg_table_id = Some tid \<longrightarrow>
           (\<exists>d. log_tables es tid = Some d \<and> td_name d = name \<and> td_cols d = cs))))"

lemma forget_table_ids_at: "forget_table_ids t name = map_option (\<lambda>p. p\<lparr>tp_seg_table_id := None\<rparr>) (t name)"
  by (simp add: forget_table_ids_def)

lemma create_segment_result:
  "create_segment n create dir s = (Some r, s') \<Longrightarrow> \<exists>path. path \<notin> sf_name ` set dir \<and> r = create path"
  by (induction n arbitrary: s) (auto simp: Let_def split: prod.splits if_splits)

lemma ensure_segment_log:
  assumes "ensure_segment xxh os env cp dir = Some (Inr (), cp', dir')" "cold_ok xxh p cp name cs"
  shows "\<exists>w. cp_current cp' = Some w" "cold_ok xxh p cp' name cs"
    "map_option tp_drained_gen (cp_tables cp' name) = map_option tp_drained_gen (cp_tables cp name)" "dir' = dir"
proof -
  have "dir' = dir \<and> (\<exists>w. cp_current cp' = Some w) \<and> cold_ok xxh p cp' name cs \<and>
    map_option tp_drained_gen (cp_tables cp' name) = map_option tp_drained_gen (cp_tables cp name)"
  proof (cases "cp_current cp")
    case (Some w)
    then show ?thesis using assms by (simp add: ensure_segment_def)
  next
    case None
    obtain res store where c: "create_segment (length dir + 1)
        (segment_create xxh os (de_unix_ms env) (de_opened env) (de_create_io env)) dir (cp_store cp) = (res, store)"
      by fastforce
    from assms(1) None c obtain w where w: "res = Some (Inr w)" "dir' = dir"
      and cp': "cp' = cp\<lparr>cp_store := store, cp_current := Some w, cp_opened_at := de_now env,
        cp_tables := forget_table_ids (cp_tables cp)\<rparr>"
      by (auto simp: ensure_segment_def Let_def split: option.splits sum.splits)
    have "\<exists>path. segment_create xxh os (de_unix_ms env) (de_opened env) (de_create_io env) path = Inr w"
      using create_segment_result [of "length dir + 1" "segment_create xxh os (de_unix_ms env) (de_opened env) (de_create_io env)" dir "cp_store cp"] c w
      by auto
    then obtain path where cr: "segment_create xxh os (de_unix_ms env) (de_opened env) (de_create_io env) path = Inr w" by blast
    have "cold_ok xxh p cp' name cs"
      unfolding cold_ok_def cp'
      using segment_create_rep(1) [OF cr, of p] segment_create_rep(2) [OF cr]
      by (auto simp: forget_table_ids_at map_option_case bind_eq_Some_conv split: option.splits)
    then show ?thesis by (simp add: cp' w(2) forget_table_ids_at option.map_comp comp_def)
  qed
  then show "\<exists>w. cp_current cp' = Some w" "cold_ok xxh p cp' name cs"
    "map_option tp_drained_gen (cp_tables cp' name) = map_option tp_drained_gen (cp_tables cp name)" "dir' = dir" by blast+
qed

lemma register_if_needed_log:
  assumes r: "register_if_needed xxh env cp name cs = (Inr tid, cp')" and c: "cold_ok xxh p cp name cs"
    and w: "cp_current cp = Some w" and ok: "seg_entry_ok p (TableEntry 0 name cs)"
  shows "\<exists>w' es d t. cp_current cp' = Some w' \<and> segment_rep xxh p w' es \<and> log_tables es tid = Some d \<and> td_name d = name \<and>
    td_cols d = cs \<and> cp_tables cp' name = Some t \<and> map_option tp_drained_gen (cp_tables cp name) = Some (tp_drained_gen t)"
proof -
  from c w obtain es where es: "segment_rep xxh p w es" "unat (sw_next_table_id w) + 1 < 2 ^ 32"
    "\<forall>tid. Option.bind (cp_tables cp name) tp_seg_table_id = Some tid \<longrightarrow>
      (\<exists>d. log_tables es tid = Some d \<and> td_name d = name \<and> td_cols d = cs)"
    unfolding cold_ok_def by blast
  show ?thesis
  proof (cases "Option.bind (cp_tables cp name) tp_seg_table_id")
    case (Some tid')
    then have e: "tid' = tid" "cp' = cp" using r by (simp_all add: register_if_needed_def)
    obtain t where "cp_tables cp name = Some t" using Some by (auto simp: bind_eq_Some_conv)
    then show ?thesis using es Some w e by auto
  next
    case None
    then obtain w' t where reg: "register_table xxh (de_table_io env) w name cs = (Inr tid, w')"
      and t: "cp_tables cp name = Some t"
      and cp': "cp' = cp\<lparr>cp_current := Some w', cp_tables := (cp_tables cp)(name \<mapsto> t\<lparr>tp_seg_table_id := Some tid\<rparr>)\<rparr>"
      using r w by (auto simp: register_if_needed_def Let_def split: prod.splits sum.splits option.splits)
    have "seg_entry_ok p (TableEntry tid name cs)" using ok by simp
    from register_rep(1) [OF es(1) reg this es(2)] show ?thesis
      by (intro exI [of _ w'] exI [of _ "es @ [TableEntry tid name cs]"]) (auto simp: cp' t)
  qed
qed

lemma seal_path: "seal xxh os now io hdr_io synced w = (Inr path, f) \<Longrightarrow> path = sw_path w"
  by (auto simp: seal_def Let_def split: prod.splits if_splits option.splits)

lemma roll_sealed:
  assumes "cp_current cp = Some w" "sw_pages w \<noteq> []" "roll xxh os env cp dir = (Inr r, cp', dir')"
  shows "\<exists>f. seal xxh os (de_unix_ms env) (de_footer_io env) (de_header_io env) (de_synced env) w = (Inr (sw_path w), f) \<and>
    dir' = dir @ [\<lparr>sf_name = sw_path w, sf_bytes = f, sf_mtime = de_now env\<rparr>] \<and> cp_current cp' = None \<and>
    cp_tables cp' = forget_table_ids (cp_tables cp)"
  using assms seal_path by (auto simp: roll_def Let_def sw_page_count_def split: prod.splits sum.splits)

lemma set_drained_result:
  "set_drained name chunk gen cp = (Inr (), cp') \<Longrightarrow>
   \<exists>t. cp_tables cp name = Some t \<and> chunk < length (tp_drained_gen t) \<and>
     cp' = cp\<lparr>cp_tables := (cp_tables cp)(name \<mapsto> t\<lparr>tp_drained_gen := (tp_drained_gen t)[chunk := gen]\<rparr>)\<rparr>"
  by (auto simp: set_drained_def split: option.splits if_splits)

text \<open>Where the log of a segment is after a page was stored: in the open writer, or in the last file.\<close>

definition stored_log :: "hash64 \<Rightarrow> pco \<Rightarrow> os \<Rightarrow> drain_env \<Rightarrow> Compactor \<Rightarrow> segment_file list \<Rightarrow> segment_file list \<Rightarrow> entry list \<Rightarrow> bool" where
  "stored_log xxh p os env cp dir dir' es \<longleftrightarrow> (\<exists>w. segment_rep xxh p w es \<and>
     (cp_current cp = Some w \<and> dir' = dir \<or>
      cp_current cp = None \<and> (\<exists>f. seal xxh os (de_unix_ms env) (de_footer_io env) (de_header_io env) (de_synced env) w = (Inr (sw_path w), f) \<and>
        dir' = dir @ [\<lparr>sf_name = sw_path w, sf_bytes = f, sf_mtime = de_now env\<rparr>])))"

lemma store_page_log:
  assumes s: "store_page xxh p os env name cs inst chunk gen columns cp dir = Some (Inr (), cp', dir')"
    and c: "cold_ok xxh p cp name cs" and ok: "seg_entry_ok p (TableEntry 0 name cs)" "page_ok p columns" "page_rows columns \<noteq> 0"
  shows "\<exists>es tid d. log_tables es tid = Some d \<and> td_name d = name \<and> td_cols d = cs \<and>
    stored_log xxh p os env cp' dir dir' (es @ [PageEntry tid columns (page_ts_range (td_ts_col d) columns)
      (word_of_nat gen) (word_of_nat chunk) (word_of_nat inst)])"
    and "\<exists>t t'. cp_tables cp name = Some t \<and> cp_tables cp' name = Some t' \<and> tp_drained_gen t' = (tp_drained_gen t)[chunk := gen]"
proof -
  from s obtain cp1 dir1 where e1: "ensure_segment xxh os env cp dir = Some (Inr (), cp1, dir1)"
    by (auto simp: store_page_def split: option.splits sum.splits prod.splits)
  note en = ensure_segment_log [OF e1 c]
  have e: "ensure_segment xxh os env cp dir = Some (Inr (), cp1, dir)" using e1 en(4) by simp
  from en(1) obtain w1 where w1: "cp_current cp1 = Some w1" by blast
  from s e obtain tid cp2 where r: "register_if_needed xxh env cp1 name cs = (Inr tid, cp2)"
    by (auto simp: store_page_def split: sum.splits prod.splits)
  from register_if_needed_log [OF r en(2) w1 ok(1)] obtain w es d t where w: "cp_current cp2 = Some w" "segment_rep xxh p w es"
    "log_tables es tid = Some d" "td_name d = name" "td_cols d = cs" "cp_tables cp2 name = Some t"
    "map_option tp_drained_gen (cp_tables cp1 name) = Some (tp_drained_gen t)" by blast
  from s e r w(1) obtain w' where a: "append_page_from xxh p (de_page_io env) w tid columns (word_of_nat gen) (word_of_nat chunk) (word_of_nat inst) = (Inr (), w')"
    by (auto simp: store_page_def split: sum.splits prod.splits)
  let ?e = "PageEntry tid columns (page_ts_range (td_ts_col d) columns) (word_of_nat gen) (word_of_nat chunk) (word_of_nat inst)"
  from append_page_rep [OF w(2) ok(2) a] w(3) ok(3) have rep: "segment_rep xxh p w' (es @ [?e])" by auto
  from s e r w(1) a obtain cp4 where sd: "set_drained name chunk gen (cp2\<lparr>cp_current := Some w'\<rparr>) = (Inr (), cp4)"
    by (auto simp: store_page_def split: sum.splits prod.splits)
  from set_drained_result [OF sd] w(6) have cp4: "chunk < length (tp_drained_gen t)"
    "cp4 = cp2\<lparr>cp_current := Some w', cp_tables := (cp_tables cp2)(name \<mapsto> t\<lparr>tp_drained_gen := (tp_drained_gen t)[chunk := gen]\<rparr>)\<rparr>"
    by auto
  from s e r w(1) a sd obtain rr where m: "maybe_roll_on_size xxh os env cp4 dir = (Inr rr, cp', dir')"
    by (auto simp: store_page_def split: sum.splits prod.splits)
  have cur: "cp_current cp4 = Some w'" by (simp add: cp4(2))
  have pages: "sw_pages w' \<noteq> []"
    using segment_repD(4) [OF rep] by (auto simp: log_pages_append [where xxh = xxh])
  have st: "stored_log xxh p os env cp' dir dir' (es @ [?e]) \<and>
    (cp_tables cp' = cp_tables cp4 \<or> cp_tables cp' = forget_table_ids (cp_tables cp4))"
  proof (cases "cc_target_segment_bytes (cp_config cp4) \<le> sw_size_bytes w'")
    case True
    then have "roll xxh os env cp4 dir = (Inr rr, cp', dir')" using m cur by (simp add: maybe_roll_on_size_def)
    from roll_sealed [OF cur pages this] rep show ?thesis unfolding stored_log_def by blast
  next
    case False
    then have "cp' = cp4" "dir' = dir" using m cur by (simp_all add: maybe_roll_on_size_def)
    then show ?thesis using rep cur unfolding stored_log_def by blast
  qed
  show "\<exists>es tid d. log_tables es tid = Some d \<and> td_name d = name \<and> td_cols d = cs \<and>
      stored_log xxh p os env cp' dir dir' (es @ [PageEntry tid columns (page_ts_range (td_ts_col d) columns)
        (word_of_nat gen) (word_of_nat chunk) (word_of_nat inst)])"
    using st w(3-5) by blast
  have d0: "map_option tp_drained_gen (cp_tables cp name) = Some (tp_drained_gen t)" using en(3) w(7) by simp
  then obtain t0 where t0: "cp_tables cp name = Some t0" "tp_drained_gen t0 = tp_drained_gen t" by auto
  have "map_option tp_drained_gen (cp_tables cp' name) = Some ((tp_drained_gen t)[chunk := gen])"
    using st by (auto simp: cp4(2) forget_table_ids_at)
  then show "\<exists>t t'. cp_tables cp name = Some t \<and> cp_tables cp' name = Some t' \<and> tp_drained_gen t' = (tp_drained_gen t)[chunk := gen]"
    using t0 by auto
qed

section \<open>Draining a chunk\<close>

lemma rows_typed:
  assumes "represents b s" "i < num_chunks (header b)" "r \<in> set (ring_chunks s ! i)"
  shows "map value_dtype r = table_dtypes b"
proof -
  have "list_all (validate_row_schema b) (ring_chunks s ! i)" using representsD(10) [OF assms(1,2)] by (simp add: list_all_iff)
  then have "validate_row_schema b r" using assms(3) by (simp add: list_all_iff)
  then show ?thesis by (rule table_dtypes_row [symmetric])
qed

lemma transposed_columns:
  assumes "\<forall>r\<in>set rows. map value_dtype r = ds" "j < length ds"
  shows "column_values (transposed ds rows ! j) = map (\<lambda>r. r ! j) rows" "column_dtype (transposed ds rows ! j) = ds ! j"
proof -
  have "\<forall>v\<in>set (map (\<lambda>r. r ! j) rows). value_dtype v = ds ! j"
  proof -
    have "value_dtype (r ! j) = ds ! j" if "r \<in> set rows" for r
      using assms that by (metis length_map nth_map)
    then show ?thesis by auto
  qed
  from column_of_values [OF this] show "column_values (transposed ds rows ! j) = map (\<lambda>r. r ! j) rows"
    "column_dtype (transposed ds rows ! j) = ds ! j" using assms(2) by (simp_all add: transposed_def)
qed

lemma page_rows_transposed:
  assumes "\<forall>r\<in>set rows. map value_dtype r = ds" "ds \<noteq> []"
  shows "page_rows (transposed ds rows) = length rows"
proof -
  have l: "length (transposed ds rows) = length ds" by (simp add: transposed_def)
  then have "transposed ds rows \<noteq> []" using assms(2) by auto
  then have "page_rows (transposed ds rows) = column_len (transposed ds rows ! 0)"
    by (cases "transposed ds rows") (auto simp: page_rows_def)
  also have "\<dots> = length rows"
    using transposed_columns(1) [OF assms(1), of 0] assms(2) by (simp add: column_len_values)
  finally show ?thesis .
qed

lemma drain_chunk_page:
  assumes rep: "represents b s" and i: "i < num_chunks (header b)" and q: "quiet env"
    and t: "try_rows os b i = (Inr it, b1)" "it_pin it = Some pin"
    and st: "chunk_state b i = chunk_state_code Sealed" and cs: "map snd cs = table_dtypes b" "cs \<noteq> []"
    and pr: "cp_tables cp name = Some tp" "i < length (tp_drained_gen tp)" "tp_drained_gen tp ! i < chunk_generation b i"
    and ok: "cold_ok xxh p cp name cs" "seg_entry_ok p (TableEntry 0 name cs)"
      "page_ok p (transposed (table_dtypes b) (ring_chunks s ! i))" "ring_chunks s ! i \<noteq> []"
    and d: "drain_chunk xxh p os env name cs inst i (cp, dir, b) = Some (Inr n, cp', dir', b')"
  shows "n = length (ring_chunks s ! i)" "represents b' s"
    "\<exists>es tid d. log_tables es tid = Some d \<and> td_name d = name \<and> td_cols d = cs \<and>
      stored_log xxh p os env cp' dir dir' (es @ [PageEntry tid (transposed (table_dtypes b) (ring_chunks s ! i))
        (page_ts_range (td_ts_col d) (transposed (table_dtypes b) (ring_chunks s ! i)))
        (word_of_nat (chunk_generation b i)) (word_of_nat i) (word_of_nat inst)])"
    "\<exists>t'. cp_tables cp' name = Some t' \<and> tp_drained_gen t' = (tp_drained_gen tp)[i := chunk_generation b i]"
proof -
  let ?cols = "transposed (table_dtypes b) (ring_chunks s ! i)" and ?g = "chunk_generation b i"
  have ne: "table_dtypes b \<noteq> []" using cs by auto
  have n: "page_rows ?cols = length (ring_chunks s ! i)"
    using rows_typed [OF rep i] by (intro page_rows_transposed ne) blast
  have "?g \<noteq> 0" using pr(3) by simp
  from transpose_chunk_rep [OF rep i q t this] obtain b2 where
    tc: "transpose_chunk os env b i (table_dtypes b) = Some (Some (?g, ?cols), b2)" "represents b2 s" by blast
  have rows: "(case ?cols of [] \<Rightarrow> 0 | c # _ \<Rightarrow> column_len c) = length (ring_chunks s ! i)"
    using n by (simp add: page_rows_def)
  have nz: "length (ring_chunks s ! i) \<noteq> 0" using ok(4) by simp
  from d have sp: "store_page xxh p os env name cs inst i ?g ?cols cp dir = Some (Inr (), cp', dir')"
    and nb: "n = length (ring_chunks s ! i)" "b' = b2"
    using st pr tc(1) nz unfolding drain_chunk_def prod.case cs(1) Let_def
    by (auto simp: rows split: option.splits sum.splits)
  show "n = length (ring_chunks s ! i)" "represents b' s" using nb tc(2) by simp_all
  have pz: "page_rows ?cols \<noteq> 0" using n nz by simp
  show "\<exists>es tid d. log_tables es tid = Some d \<and> td_name d = name \<and> td_cols d = cs \<and>
      stored_log xxh p os env cp' dir dir' (es @ [PageEntry tid ?cols (page_ts_range (td_ts_col d) ?cols)
        (word_of_nat ?g) (word_of_nat i) (word_of_nat inst)])"
    by (rule store_page_log(1) [OF sp ok(1-3) pz])
  show "\<exists>t'. cp_tables cp' name = Some t' \<and> tp_drained_gen t' = (tp_drained_gen tp)[i := ?g]"
    using store_page_log(2) [OF sp ok(1-3) pz] pr(1) by auto
qed

text \<open>Sealing the log that a page was stored in, if it is not sealed yet, and opening the file.\<close>

lemma stored_log_open:
  assumes st: "stored_log xxh p os env cp dir dir' (es @ [e])" and e: "e = PageEntry tid columns rg gen chunk inst"
    and f: "flush xxh os env' cp dir' = (Inr res, cp', dir'')" and p: "pco_lossless p"
    and len: "length (sf_bytes (last dir'')) < 2 ^ 32"
  shows "\<exists>r. from_mmap xxh (sf_bytes (last dir'')) (sf_name (last dir'')) = Inr r \<and> sr_is_sealed r \<and>
    sr_tables r = log_tables (es @ [e]) \<and> length (sr_pages r) = length (log_columns es) + 1 \<and>
    pm_table_id (last (sr_pages r)) = tid \<and> read_page xxh p r (length (log_columns es)) = Inr columns \<and>
    pm_source_gen (last (sr_pages r)) = gen \<and> pm_source_chunk (last (sr_pages r)) = chunk \<and>
    pm_source_instance (last (sr_pages r)) = inst"
proof -
  from st obtain w where w: "segment_rep xxh p w (es @ [e])"
    "cp_current cp = Some w \<and> dir' = dir \<or>
      cp_current cp = None \<and> (\<exists>f. seal xxh os (de_unix_ms env) (de_footer_io env) (de_header_io env) (de_synced env) w = (Inr (sw_path w), f) \<and>
        dir' = dir @ [\<lparr>sf_name = sw_path w, sf_bytes = f, sf_mtime = de_now env\<rparr>])"
    unfolding stored_log_def by blast
  have pages: "sw_pages w \<noteq> []"
    using segment_repD(4) [OF w(1)] by (auto simp: e log_pages_append [where xxh = xxh])
  have "\<exists>os now io hdr synced f. seal xxh os now io hdr synced w = (Inr (sw_path w), f) \<and>
      sf_bytes (last dir'') = f \<and> sf_name (last dir'') = sw_path w"
    using w(2)
  proof
    assume c: "cp_current cp = Some w \<and> dir' = dir"
    from roll_sealed [OF _ pages, of cp xxh os env' dir' res cp' dir''] c f show ?thesis
      by (auto simp: flush_def intro!: exI)
  next
    assume c: "cp_current cp = None \<and> (\<exists>f. seal xxh os (de_unix_ms env) (de_footer_io env) (de_header_io env) (de_synced env) w = (Inr (sw_path w), f) \<and>
        dir' = dir @ [\<lparr>sf_name = sw_path w, sf_bytes = f, sf_mtime = de_now env\<rparr>])"
    then have "dir'' = dir'" using f by (simp add: flush_def roll_def)
    then show ?thesis using c by (auto intro!: exI)
  qed
  then obtain os' now io hdr synced f where s: "seal xxh os' now io hdr synced w = (Inr (sw_path w), f)"
    "sf_bytes (last dir'') = f" "sf_name (last dir'') = sw_path w" by blast
  have "length (footer_bytes xxh (sw_pages w)) \<le> length f"
    using s(1) by (auto simp: seal_def write_all_def Let_def bsplice_def split: if_splits option.splits)
  then have "length (sw_pages w) * 64 < 2 ^ 32" "length f < 2 ^ 64" using len s(2) by (simp_all add: footer_length)
  from sealed_segment [OF w(1) p this(1) s(1) this(2)] obtain r where
    r: "from_mmap xxh f (sw_path w) = Inr r" "reads_log xxh p r (es @ [e])" "sr_is_sealed r" by blast
  have lc: "log_columns (es @ [e]) = log_columns es @ [columns]" by (simp add: log_columns_def e)
  have pg: "sr_pages r = log_pages p 64 (es @ [e])" "map (read_page xxh p r) [0..<length (sr_pages r)] = map Inr (log_columns (es @ [e]))"
    "sr_tables r = log_tables (es @ [e])" using r(2) unfolding reads_log_def by blast+
  have n: "length (sr_pages r) = length (log_columns es) + 1"
    using arg_cong [OF pg(2), of length] by (simp add: lc)
  have "map (read_page xxh p r) [0..<length (sr_pages r)] ! length (log_columns es) = Inr columns"
    unfolding pg(2) lc by (simp add: nth_append)
  then have "read_page xxh p r (length (log_columns es)) = Inr columns" using n by (simp add: nth_append del: upt_Suc)
  moreover have "pm_table_id (last (sr_pages r)) = tid" "pm_source_gen (last (sr_pages r)) = gen"
    "pm_source_chunk (last (sr_pages r)) = chunk" "pm_source_instance (last (sr_pages r)) = inst"
    unfolding pg(1) log_pages_append [where xxh = xxh] by (simp_all add: e)
  ultimately show ?thesis using r(1,3) s(2,3) pg(3) n by auto
qed

section \<open>Chunks that cannot be pinned\<close>

lemma drain_unpinned_chunk:
  assumes t: "try_rows os b i = (Inl e, b1)" and q: "de_world env = id" and i: "chunk_generation b1 i = chunk_generation b i"
    and st: "chunk_state b i = chunk_state_code Sealed"
    and pr: "cp_tables cp name = Some tp" "i < length (tp_drained_gen tp)" "tp_drained_gen tp ! i < chunk_generation b i"
  shows "drain_chunk xxh p os env name cs inst i (cp, dir, b) =
    Some (Inr 0, cp\<lparr>cp_tables := (cp_tables cp)(name \<mapsto> tp\<lparr>tp_drained_gen := (tp_drained_gen tp)[i := chunk_generation b i]\<rparr>)\<rparr>, dir, b1)"
proof -
  let ?ds = "map snd cs"
  have g: "chunk_generation b i \<noteq> 0" using pr(3) by simp
  have tc: "transpose_chunk os env b i ?ds = Some (Some (chunk_generation b i, map builder_new ?ds), b1)"
    using g q i by (simp add: transpose_chunk_def Let_def table_rows_def t row_iter_next.simps)
  have rows: "(case map (builder_new \<circ> snd) cs of [] \<Rightarrow> 0 | c # _ \<Rightarrow> column_len c) = 0"
  proof (cases cs)
    case (Cons c cs')
    then show ?thesis by (cases "snd c") simp_all
  qed simp
  show ?thesis
    unfolding drain_chunk_def prod.case
    using st pr g by (simp add: tc rows Let_def set_drained_def)
qed

lemma drain_drained_chunk:
  assumes "cp_tables cp name = Some tp" "i < length (tp_drained_gen tp)" "chunk_generation b i \<le> tp_drained_gen tp ! i"
  shows "drain_chunk xxh p os env name cs inst i (cp, dir, b) = Some (Inr 0, cp, dir, b)"
  using assms by (simp add: drain_chunk_def Let_def)

end
