(* ===== verification/Memc_Watermark.thy ===== *)
theory Memc_Watermark
  imports Memc_Drain
begin

text \<open>
  The drain watermarks: an invariant of the compactor that holds after every call, failed ones
  included. Each page of the open segment has its own key, and the watermark of a chunk is at least
  the generation of every page taken from it.
\<close>

section \<open>The invariant\<close>

definition page_key :: "PageDirEntry \<Rightarrow> u32 \<times> u32 \<times> u64" where
  "page_key pd = (pd_table_id pd, pd_source_chunk pd, pd_source_gen pd)"

definition below_mark :: "TableProgress \<Rightarrow> PageDirEntry \<Rightarrow> bool" where
  "below_mark t pd \<longleftrightarrow> pd_source_instance pd = word_of_nat (tp_source_instance t) \<and>
     unat (pd_source_chunk pd) < length (tp_drained_gen t) \<and>
     unat (pd_source_gen pd) \<le> tp_drained_gen t ! unat (pd_source_chunk pd)"

definition ids_of :: "Compactor \<Rightarrow> byte list \<Rightarrow> u32 option" where
  "ids_of cp name = Option.bind (cp_tables cp name) tp_seg_table_id"

definition marks_of :: "Compactor \<Rightarrow> byte list \<Rightarrow> (nat \<times> nat list) option" where
  "marks_of cp name = map_option (\<lambda>t. (tp_source_instance t, tp_drained_gen t)) (cp_tables cp name)"

definition wm_segment :: "Compactor \<Rightarrow> SegmentWriter \<Rightarrow> bool" where
  "wm_segment cp w \<longleftrightarrow>
     (\<forall>pd\<in>set (sw_pages w). unat (pd_table_id pd) < unat (sw_next_table_id w)) \<and>
     distinct (map page_key (sw_pages w)) \<and>
     (\<forall>name t tid. cp_tables cp name = Some t \<longrightarrow> tp_seg_table_id t = Some tid \<longrightarrow>
        unat tid < unat (sw_next_table_id w) \<and> (\<forall>pd\<in>set (sw_pages w). pd_table_id pd = tid \<longrightarrow> below_mark t pd)) \<and>
     (\<forall>n1 n2 tid. ids_of cp n1 = Some tid \<longrightarrow> ids_of cp n2 = Some tid \<longrightarrow> n1 = n2)"

definition wm_inv :: "Compactor \<Rightarrow> bool" where
  "wm_inv cp \<longleftrightarrow> (case cp_current cp of None \<Rightarrow> (\<forall>name. ids_of cp name = None) | Some w \<Rightarrow> wm_segment cp w)"

text \<open>Room for \<open>k\<close> more table ids.\<close>

definition id_room :: "nat \<Rightarrow> Compactor \<Rightarrow> bool" where
  "id_room k cp \<longleftrightarrow> (\<forall>w. cp_current cp = Some w \<longrightarrow> unat (sw_next_table_id w) + k < 2 ^ 32)"

lemma wm_segmentD:
  assumes "wm_segment cp w"
  shows "\<forall>pd\<in>set (sw_pages w). unat (pd_table_id pd) < unat (sw_next_table_id w)" "distinct (map page_key (sw_pages w))"
    "cp_tables cp name = Some t \<Longrightarrow> tp_seg_table_id t = Some tid \<Longrightarrow> unat tid < unat (sw_next_table_id w)"
    "cp_tables cp name = Some t \<Longrightarrow> tp_seg_table_id t = Some tid \<Longrightarrow> pd \<in> set (sw_pages w) \<Longrightarrow> pd_table_id pd = tid \<Longrightarrow> below_mark t pd"
    "ids_of cp n1 = Some tid \<Longrightarrow> ids_of cp n2 = Some tid \<Longrightarrow> n1 = n2"
  using assms unfolding wm_segment_def by blast+

lemma ids_of_Some: "ids_of cp name = Some tid \<longleftrightarrow> (\<exists>t. cp_tables cp name = Some t \<and> tp_seg_table_id t = Some tid)"
  by (simp add: ids_of_def bind_eq_Some_conv)

lemma wm_segment_cong:
  assumes "cp_tables cp' = cp_tables cp" "sw_pages w' = sw_pages w" "unat (sw_next_table_id w) \<le> unat (sw_next_table_id w')"
    and "wm_segment cp w"
  shows "wm_segment cp' w'"
proof -
  have i: "ids_of cp' = ids_of cp" by (rule ext) (simp add: ids_of_def assms(1))
  note d = wm_segmentD [OF assms(4)]
  show ?thesis
  proof (unfold wm_segment_def assms(1,2) i, intro conjI allI impI)
    show "\<forall>pd\<in>set (sw_pages w). unat (pd_table_id pd) < unat (sw_next_table_id w')" using d(1) assms(3) by fastforce
    show "distinct (map page_key (sw_pages w))" by (rule d(2))
    fix name t tid assume t: "cp_tables cp name = Some t" "tp_seg_table_id t = Some tid"
    show "unat tid < unat (sw_next_table_id w')" using d(3) [OF t] assms(3) by simp
    show "\<forall>pd\<in>set (sw_pages w). pd_table_id pd = tid \<longrightarrow> below_mark t pd" using d(4) [OF t] by blast
  next
    fix n1 n2 tid assume "ids_of cp n1 = Some tid" "ids_of cp n2 = Some tid"
    then show "n1 = n2" by (rule d(5))
  qed
qed

lemma wm_new:
  "wm_inv (compactor_new store config now)"
  by (simp add: wm_inv_def compactor_new_def ids_of_def)

section \<open>Segments\<close>

lemma forget_marks [simp]: "marks_of (cp\<lparr>cp_tables := forget_table_ids (cp_tables cp)\<rparr>) = marks_of cp"
  by (rule ext) (simp add: marks_of_def forget_table_ids_at option.map_comp comp_def)

lemma forget_ids: "cp_tables cp' = forget_table_ids t \<Longrightarrow> ids_of cp' name = None"
  by (cases "t name") (simp_all add: ids_of_def forget_table_ids_at)

lemma marks_of_tables: "cp_tables cp' = cp_tables cp \<Longrightarrow> marks_of cp' = marks_of cp"
  "cp_tables cp' = forget_table_ids (cp_tables cp) \<Longrightarrow> marks_of cp' = marks_of cp"
  by (rule ext, simp add: marks_of_def forget_table_ids_at option.map_comp comp_def)+

lemma roll_result:
  assumes "roll xxh os env cp dir = (r, cp', dir')"
  shows "cp_current cp' = None \<and> (cp' = cp \<or> cp_tables cp' = forget_table_ids (cp_tables cp))"
  using assms by (auto simp: roll_def Let_def split: option.splits if_splits call_outcome.splits prod.splits sum.splits)

lemma wm_roll:
  assumes "wm_inv cp" "roll xxh os env cp dir = (r, cp', dir')"
  shows "wm_inv cp' \<and> marks_of cp' = marks_of cp \<and> id_room k cp'"
  using roll_result [OF assms(2)] assms(1) marks_of_tables(2) [of cp' cp] forget_ids [of cp' "cp_tables cp"]
  by (auto simp: wm_inv_def id_room_def)

lemma wm_maybe_roll:
  assumes "wm_inv cp" "maybe_roll_on_size xxh os env cp dir = (r, cp', dir')" "id_room k cp"
  shows "wm_inv cp' \<and> marks_of cp' = marks_of cp \<and> id_room k cp'"
  using assms wm_roll [OF assms(1)]
  by (auto simp: maybe_roll_on_size_def split: option.splits if_splits)

lemma wm_ensure:
  assumes "wm_inv cp" "ensure_segment xxh os env cp dir = Some (r, cp', dir')" "id_room k cp" "1 + k < 2 ^ 32"
  shows "wm_inv cp' \<and> marks_of cp' = marks_of cp \<and> id_room k cp'"
proof (cases "cp_current cp")
  case (Some w)
  then show ?thesis using assms by (simp add: ensure_segment_def)
next
  case None
  obtain res store where c: "create_segment (length dir + 1)
      (segment_create xxh os (de_unix_ms env) (de_opened env) (de_create_io env)) dir (cp_store cp) = (res, store)"
    by fastforce
  consider (err) e where "res = Some (Inl e)" "cp' = cp\<lparr>cp_store := store\<rparr>"
    | (ok) w where "res = Some (Inr w)" "cp' = cp\<lparr>cp_store := store, cp_current := Some w, cp_opened_at := de_now env,
        cp_tables := forget_table_ids (cp_tables cp)\<rparr>"
    using assms(2) None c by (auto simp: ensure_segment_def Let_def split: option.splits sum.splits)
  then show ?thesis
  proof cases
    case err
    have tb: "cp_tables cp' = cp_tables cp" "cp_current cp' = None" by (simp_all add: err None)
    have "ids_of cp' name = ids_of cp name" for name by (simp add: ids_of_def tb(1))
    then show ?thesis using assms(1) marks_of_tables(1) [OF tb(1)] tb(2) None by (simp add: wm_inv_def id_room_def)
  next
    case ok
    from create_segment_result [of "length dir + 1"] c ok(1) obtain path where
      "segment_create xxh os (de_unix_ms env) (de_opened env) (de_create_io env) path = Inr w" by fastforce
    then have w: "sw_pages w = []" "sw_next_table_id w = 1"
      by (auto simp: segment_create_def Let_def split: if_splits prod.splits)
    have tb: "cp_tables cp' = forget_table_ids (cp_tables cp)" by (simp add: ok)
    have ids: "ids_of cp' name = None" for name by (rule forget_ids [OF tb])
    have no: "\<not> (cp_tables cp' n = Some t \<and> tp_seg_table_id t = Some tid)" for n t tid
      using ids [of n] ids_of_Some [of cp' n tid] by auto
    have "wm_segment cp' w" unfolding wm_segment_def w using no by (simp add: ids)
    then show ?thesis using marks_of_tables(2) [OF tb] assms(4) by (simp add: ok wm_inv_def id_room_def w)
  qed
qed

section \<open>Tables and pages\<close>

lemma wm_register:
  assumes inv: "wm_inv cp" and r: "register_if_needed xxh env cp name cs = (r, cp')" and room: "id_room (Suc k) cp"
  shows "wm_inv cp' \<and> marks_of cp' = marks_of cp \<and> id_room k cp' \<and> (\<forall>tid. r = Inr tid \<longrightarrow> ids_of cp' name = Some tid)"
proof (cases "ids_of cp name")
  case (Some tid)
  then have "r = Inr tid" "cp' = cp" using r by (simp_all add: register_if_needed_def ids_of_def [symmetric])
  then show ?thesis using inv room Some by (auto simp: id_room_def)
next
  case idn: None
  show ?thesis
  proof (cases "cp_current cp")
    case None
    then have "cp' = cp" "\<exists>e. r = Inl e" using r idn by (auto simp: register_if_needed_def ids_of_def [symmetric])
    then show ?thesis using inv room by (auto simp: id_room_def)
  next
    case (Some w)
    have seg: "wm_segment cp w" using inv Some by (simp add: wm_inv_def)
    have nx: "unat (sw_next_table_id w) + Suc k < 2 ^ 32" using room Some by (simp add: id_room_def)
    then have up: "unat (sw_next_table_id w + 1) = unat (sw_next_table_id w) + 1" by (simp add: unat_word_ariths)
    obtain q w' where reg: "register_table xxh (de_table_io env) w name cs = (q, w')" by fastforce
    have w': "sw_pages w' = sw_pages w" "sw_next_table_id w' = sw_next_table_id w + 1"
      "q = Inl OsError \<or> q = Inr (sw_next_table_id w)"
      by (cases rule: register_table_outcome [of xxh "de_table_io env" w name cs undefined]; use reg in auto)+
    have segw: "wm_segment (cp\<lparr>cp_current := Some w'\<rparr>) w'"
      by (rule wm_segment_cong [OF _ _ _ seg]) (simp_all add: w' up)
    have idr: "id_room k (cp\<lparr>cp_current := Some w'\<rparr>)" using nx by (simp add: id_room_def w'(2) up)
    have mk: "marks_of (cp\<lparr>cp_current := Some w'\<rparr>) = marks_of cp" by (rule marks_of_tables(1)) simp
    consider (stay) "cp' = cp\<lparr>cp_current := Some w'\<rparr>" "\<exists>e. r = Inl e"
      | (new) t where "cp_tables cp name = Some t" "r = Inr (sw_next_table_id w)"
          "cp' = cp\<lparr>cp_current := Some w', cp_tables := (cp_tables cp)(name \<mapsto> t\<lparr>tp_seg_table_id := Some (sw_next_table_id w)\<rparr>)\<rparr>"
      using r idn Some reg w'(3)
      by (auto simp: register_if_needed_def ids_of_def [symmetric] Let_def split: option.splits)
    then show ?thesis
    proof cases
      case stay
      then show ?thesis using segw idr mk by (auto simp: wm_inv_def)
    next
      case new
      let ?t = "t\<lparr>tp_seg_table_id := Some (sw_next_table_id w)\<rparr>" and ?next = "sw_next_table_id w"
      have ids: "ids_of cp' n = (if n = name then Some ?next else ids_of cp n)" for n
        by (simp add: ids_of_def new(3))
      have fresh: "ids_of cp n \<noteq> Some ?next" for n
        using wm_segmentD(3) [OF seg, of n _ ?next] by (auto simp: ids_of_Some)
      have "wm_segment cp' w'"
        unfolding wm_segment_def
      proof (intro conjI allI impI)
        show "\<forall>pd\<in>set (sw_pages w'). unat (pd_table_id pd) < unat (sw_next_table_id w')"
          "distinct (map page_key (sw_pages w'))" using segw by (auto simp: wm_segment_def)
        fix n t' tid assume t': "cp_tables cp' n = Some t'" "tp_seg_table_id t' = Some tid"
        show "unat tid < unat (sw_next_table_id w')"
          using t' wm_segmentD(3) [OF seg, of n t' tid] by (auto simp: new(3) w'(2) up split: if_splits)
        show "\<forall>pd\<in>set (sw_pages w'). pd_table_id pd = tid \<longrightarrow> below_mark t' pd"
          using t' wm_segmentD(4) [OF seg, of n t' tid] wm_segmentD(1) [OF seg] by (auto simp: new(3) w'(1) split: if_splits)
      next
        fix n1 n2 tid assume "ids_of cp' n1 = Some tid" "ids_of cp' n2 = Some tid"
        then show "n1 = n2" using fresh wm_segmentD(5) [OF seg] by (auto simp: ids split: if_splits)
      qed
      moreover have "marks_of cp' = marks_of cp"
        by (rule ext) (simp add: marks_of_def new(1,3))
      ultimately show ?thesis using idr ids new(2) by (simp add: wm_inv_def id_room_def new(3))
    qed
  qed
qed

text \<open>A page with a generation above the watermark, and the watermark raised to it.\<close>

definition marked :: "byte list \<Rightarrow> usize \<Rightarrow> nat \<Rightarrow> TableProgress \<Rightarrow> Compactor \<Rightarrow> Compactor" where
  "marked name chunk gen t cp = cp\<lparr>cp_tables := (cp_tables cp)(name \<mapsto> t\<lparr>tp_drained_gen := (tp_drained_gen t)[chunk := gen]\<rparr>)\<rparr>"

lemma wm_mark_segment:
  assumes seg: "wm_segment cp w" and t: "cp_tables cp name = Some t" "chunk < length (tp_drained_gen t)"
    and up: "tp_drained_gen t ! chunk \<le> gen"
  shows "wm_segment (marked name chunk gen t cp) w"
  unfolding wm_segment_def
proof (intro conjI allI impI)
  show "\<forall>pd\<in>set (sw_pages w). unat (pd_table_id pd) < unat (sw_next_table_id w)"
    "distinct (map page_key (sw_pages w))" using seg by (auto simp: wm_segment_def)
  fix n t' tid assume t': "cp_tables (marked name chunk gen t cp) n = Some t'" "tp_seg_table_id t' = Some tid"
  show "unat tid < unat (sw_next_table_id w)"
    using t' t wm_segmentD(3) [OF seg, of n _ tid] by (auto simp: marked_def split: if_splits)
  show "\<forall>pd\<in>set (sw_pages w). pd_table_id pd = tid \<longrightarrow> below_mark t' pd"
  proof (intro ballI impI)
    fix pd assume pd: "pd \<in> set (sw_pages w)" "pd_table_id pd = tid"
    show "below_mark t' pd"
    proof (cases "n = name")
      case True
      then have e: "t' = t\<lparr>tp_drained_gen := (tp_drained_gen t)[chunk := gen]\<rparr>" using t'(1) by (simp add: marked_def)
      have "tp_seg_table_id t = Some tid" using t'(2) e by simp
      then have "below_mark t pd" using wm_segmentD(4) [OF seg t(1) _ pd] by simp
      then show ?thesis using up t(2) by (auto simp: below_mark_def e nth_list_update)
    next
      case False
      then show ?thesis using t' wm_segmentD(4) [OF seg _ _ pd, of n t'] by (simp add: marked_def)
    qed
  qed
next
  fix n1 n2 tid
  have ids: "ids_of (marked name chunk gen t cp) n = ids_of cp n" for n using t(1) by (simp add: ids_of_def marked_def)
  assume "ids_of (marked name chunk gen t cp) n1 = Some tid" "ids_of (marked name chunk gen t cp) n2 = Some tid"
  then show "n1 = n2" using wm_segmentD(5) [OF seg] by (simp add: ids)
qed

lemma wm_append_page:
  assumes seg: "wm_segment cp w" and t: "cp_tables cp name = Some t" "tp_seg_table_id t = Some tid" "chunk < length (tp_drained_gen t)"
    and up: "tp_drained_gen t ! chunk < gen" and b: "gen < 2 ^ 64" "chunk < 2 ^ 32"
    and w': "sw_next_table_id w' = sw_next_table_id w" "sw_pages w' = sw_pages w @ [pd]"
    and pd: "pd_table_id pd = tid" "pd_source_gen pd = word_of_nat gen" "pd_source_chunk pd = word_of_nat chunk"
      "pd_source_instance pd = word_of_nat (tp_source_instance t)"
  shows "wm_segment (marked name chunk gen t cp) w'"
proof -
  note seg' = wm_mark_segment [OF seg t(1,3) less_imp_le [OF up]]
  have wn: "unat (word_of_nat gen :: u64) = gen" "unat (word_of_nat chunk :: u32) = chunk" using b by (simp_all add: unat_of_nat)
  have new: "page_key pd \<notin> page_key ` set (sw_pages w)"
  proof
    assume "page_key pd \<in> page_key ` set (sw_pages w)"
    then obtain q where q: "q \<in> set (sw_pages w)" "page_key q = page_key pd" by auto
    then have "pd_table_id q = tid" "unat (pd_source_chunk q) = chunk" "unat (pd_source_gen q) = gen"
      using pd wn by (auto simp: page_key_def)
    then show False using wm_segmentD(4) [OF seg t(1,2) q(1)] up by (simp add: below_mark_def)
  qed
  have mt: "cp_tables (marked name chunk gen t cp) name = Some (t\<lparr>tp_drained_gen := (tp_drained_gen t)[chunk := gen]\<rparr>)"
    by (simp add: marked_def)
  have bm: "below_mark (t\<lparr>tp_drained_gen := (tp_drained_gen t)[chunk := gen]\<rparr>) pd"
    using t(3) pd wn by (simp add: below_mark_def)
  have tidlt: "unat tid < unat (sw_next_table_id w)" by (rule wm_segmentD(3) [OF seg t(1,2)])
  have uniq: "n = name" if "cp_tables (marked name chunk gen t cp) n = Some t'" "tp_seg_table_id t' = Some tid" for n t'
  proof -
    have "ids_of (marked name chunk gen t cp) n = Some tid" using that by (simp add: ids_of_def)
    moreover have "ids_of (marked name chunk gen t cp) name = Some tid" using mt t(2) by (simp add: ids_of_def)
    ultimately show ?thesis by (rule wm_segmentD(5) [OF seg'])
  qed
  show ?thesis
    unfolding wm_segment_def w'
  proof (intro conjI allI impI)
    show "\<forall>pd'\<in>set (sw_pages w @ [pd]). unat (pd_table_id pd') < unat (sw_next_table_id w)"
      using wm_segmentD(1) [OF seg] tidlt pd(1) by auto
    show "distinct (map page_key (sw_pages w @ [pd]))" using wm_segmentD(2) [OF seg] new by simp
    fix n t' tid' assume t': "cp_tables (marked name chunk gen t cp) n = Some t'" "tp_seg_table_id t' = Some tid'"
    show "unat tid' < unat (sw_next_table_id w)" by (rule wm_segmentD(3) [OF seg' t'])
    show "\<forall>pd'\<in>set (sw_pages w @ [pd]). pd_table_id pd' = tid' \<longrightarrow> below_mark t' pd'"
    proof (intro ballI impI)
      fix pd' assume pd': "pd' \<in> set (sw_pages w @ [pd])" "pd_table_id pd' = tid'"
      show "below_mark t' pd'"
      proof (cases "pd' \<in> set (sw_pages w)")
        case True
        then show ?thesis using wm_segmentD(4) [OF seg' t'] pd'(2) by blast
      next
        case False
        then have "pd' = pd" "tid' = tid" using pd' pd(1) by auto
        then show ?thesis using uniq [of n t'] t' mt bm by auto
      qed
    qed
  next
    fix n1 n2 tid' assume "ids_of (marked name chunk gen t cp) n1 = Some tid'" "ids_of (marked name chunk gen t cp) n2 = Some tid'"
    then show "n1 = n2" by (rule wm_segmentD(5) [OF seg'])
  qed
qed

section \<open>Draining\<close>

text \<open>The watermarks of the same instance never go down.\<close>

definition marks_le :: "Compactor \<Rightarrow> Compactor \<Rightarrow> bool" where
  "marks_le cp cp' \<longleftrightarrow> (\<forall>name inst gs. marks_of cp name = Some (inst, gs) \<longrightarrow>
     (\<exists>gs'. marks_of cp' name = Some (inst, gs') \<and> list_all2 (\<le>) gs gs'))"

lemma marks_le_refl: "marks_of cp' = marks_of cp \<Longrightarrow> marks_le cp cp'"
  by (auto simp: marks_le_def list_all2_conv_all_nth)

lemma marks_le_trans: "marks_le a b \<Longrightarrow> marks_le b c \<Longrightarrow> marks_le a c"
proof -
  assume ab: "marks_le a b" and bc: "marks_le b c"
  have tr: "list_all2 (\<le>) xs (zs :: nat list)" if "list_all2 (\<le>) xs ys" "list_all2 (\<le>) ys zs" for xs ys zs
  proof (rule list_all2_all_nthI)
    show "length xs = length zs" using list_all2_lengthD [OF that(1)] list_all2_lengthD [OF that(2)] by simp
    fix i assume "i < length xs"
    then show "xs ! i \<le> zs ! i"
      using list_all2_nthD [OF that(1), of i] list_all2_nthD [OF that(2), of i] list_all2_lengthD [OF that(1)] by simp
  qed
  show ?thesis
    unfolding marks_le_def
  proof (intro allI impI)
    fix name inst gs assume "marks_of a name = Some (inst, gs)"
    then obtain gs1 where g1: "marks_of b name = Some (inst, gs1)" "list_all2 (\<le>) gs gs1" using ab unfolding marks_le_def by blast
    then obtain gs2 where g2: "marks_of c name = Some (inst, gs2)" "list_all2 (\<le>) gs1 gs2" using bc unfolding marks_le_def by blast
    show "\<exists>gs'. marks_of c name = Some (inst, gs') \<and> list_all2 (\<le>) gs gs'" using g2(1) tr [OF g1(2) g2(2)] by blast
  qed
qed

lemma marks_le_marked:
  assumes "cp_tables cp name = Some t" "tp_drained_gen t ! chunk \<le> gen"
  shows "marks_le cp (marked name chunk gen t cp)"
  unfolding marks_le_def
proof (intro allI impI)
  fix n inst gs assume m: "marks_of cp n = Some (inst, gs)"
  have up: "list_all2 (\<le>) xs (xs[chunk := gen])" if "xs ! chunk \<le> gen" for xs
    using that unfolding list_all2_conv_all_nth length_list_update
    by (metis nth_list_update_eq nth_list_update_neq order_refl)
  show "\<exists>gs'. marks_of (marked name chunk gen t cp) n = Some (inst, gs') \<and> list_all2 (\<le>) gs gs'"
    using m assms up by (cases "n = name") (auto simp: marks_of_def marked_def list_all2_refl)
qed

lemma append_pages:
  assumes "append_page_from xxh p io w tid columns gen chunk inst = (r, w')"
  shows "sw_next_table_id w' = sw_next_table_id w \<and> (sw_pages w' = sw_pages w \<or>
    (\<exists>pd. r = Inr () \<and> sw_pages w' = sw_pages w @ [pd] \<and> pd_table_id pd = tid \<and> pd_source_gen pd = gen \<and>
      pd_source_chunk pd = chunk \<and> pd_source_instance pd = inst))"
  by (cases rule: append_page_outcome [OF assms]) (auto simp: page_written_def)

lemma wm_store_page:
  assumes inv: "wm_inv cp" and room: "id_room (Suc k) cp" "2 + k < 2 ^ 32"
    and s: "store_page xxh p os env name cs inst chunk gen columns cp dir = Some (r, cp', dir')"
    and m: "marks_of cp name = Some (inst, gs)" "chunk < length gs" "gs ! chunk < gen" and b: "gen < 2 ^ 64" "chunk < 2 ^ 32"
  shows "wm_inv cp' \<and> id_room k cp' \<and> marks_le cp cp'"
proof -
  obtain q cp1 dir1 where e: "ensure_segment xxh os env cp dir = Some (q, cp1, dir1)"
    using s by (cases "ensure_segment xxh os env cp dir") (auto simp: store_page_def)
  have k1: "1 + Suc k < 2 ^ 32" using room(2) by simp
  note en = wm_ensure [OF inv e room(1) k1]
  have k0: "id_room k cpx" if "id_room (Suc k) cpx" for cpx using that by (auto simp: id_room_def)
  show ?thesis
  proof (cases q)
    case (Inl er)
    then have "cp' = cp1" using s e by (simp add: store_page_def)
    then show ?thesis using en k0 marks_le_refl by blast
  next
    case (Inr u)
    obtain q2 cp2 where rg: "register_if_needed xxh env cp1 name cs = (q2, cp2)" by fastforce
    from en have en': "wm_inv cp1" "id_room (Suc k) cp1" "marks_of cp1 = marks_of cp" by blast+
    note re = wm_register [OF en'(1) rg en'(2)]
    have m2: "marks_of cp2 = marks_of cp" using re en'(3) by simp
    show ?thesis
    proof (cases q2)
      case (Inl er)
      then have "cp' = cp2" using s e Inr rg by (simp add: store_page_def)
      then show ?thesis using re marks_le_refl [OF m2] by blast
    next
      case tid: (Inr tid)
      have id2: "ids_of cp2 name = Some tid" using re tid by blast
      then have "cp_current cp2 \<noteq> None" using re by (auto simp: wm_inv_def split: option.splits)
      then obtain w where w: "cp_current cp2 = Some w" by blast
      have seg: "wm_segment cp2 w" using re w by (simp add: wm_inv_def)
      obtain t where t: "cp_tables cp2 name = Some t" "tp_seg_table_id t = Some tid" using id2 by (auto simp: ids_of_Some)
      have tm: "tp_source_instance t = inst" "tp_drained_gen t = gs" using m(1) t(1) m2 [THEN fun_cong, of name] by (auto simp: marks_of_def)
      obtain q3 w' where ap: "append_page_from xxh p (de_page_io env) w tid columns (word_of_nat gen) (word_of_nat chunk) (word_of_nat inst) = (q3, w')"
        by fastforce
      note app = append_pages [OF ap]
      let ?cpw = "cp2\<lparr>cp_current := Some w'\<rparr>"
      have mw: "marks_of ?cpw = marks_of cp" using m2 marks_of_tables(1) [of ?cpw cp2] by simp
      have roomw: "id_room k ?cpw" using re w app by (simp add: id_room_def)
      show ?thesis
      proof (cases q3)
        case (Inl er)
        then have pw: "sw_pages w' = sw_pages w" using app by auto
        have "cp' = ?cpw" using s e Inr rg tid w ap Inl by (simp add: store_page_def)
        moreover have "wm_segment ?cpw w'" by (rule wm_segment_cong [OF _ pw _ seg]) (use app in simp_all)
        ultimately show ?thesis using roomw marks_le_refl [OF mw] by (simp add: wm_inv_def)
      next
        case u3: (Inr u3)
        let ?m = "marked name chunk gen t ?cpw"
        have sd: "set_drained name chunk gen ?cpw = (Inr (), ?m)"
          using t(1) tm m(2) by (simp add: set_drained_def marked_def)
        have le: "tp_drained_gen t ! chunk < gen" "chunk < length (tp_drained_gen t)" using m(2,3) tm by simp_all
        have "wm_segment (marked name chunk gen t cp2) w'"
        proof (cases "sw_pages w' = sw_pages w")
          case True
          show ?thesis
            by (rule wm_segment_cong [OF refl True _ wm_mark_segment [OF seg t(1) le(2) less_imp_le [OF le(1)]]]) (use app in simp)
        next
          case False
          then obtain pd where "sw_pages w' = sw_pages w @ [pd]" "pd_table_id pd = tid" "pd_source_gen pd = word_of_nat gen"
            "pd_source_chunk pd = word_of_nat chunk" "pd_source_instance pd = word_of_nat (tp_source_instance t)"
            using app tm by auto
          then show ?thesis using app by (intro wm_append_page [OF seg t le(2,1) b]) auto
        qed
        then have "wm_segment ?m w'" by (rule wm_segment_cong [rotated 3]) (simp_all add: marked_def)
        then have invm: "wm_inv ?m" by (simp add: wm_inv_def marked_def)
        have roomm: "id_room k ?m" using roomw by (simp add: id_room_def marked_def)
        have lem: "marks_le cp ?m"
          using marks_le_trans [OF marks_le_refl [OF mw] marks_le_marked [of ?cpw name t chunk gen]] t(1) le(1) by simp
        obtain q4 cp4 dir4 where mr: "maybe_roll_on_size xxh os env ?m dir1 = (q4, cp4, dir4)" by (cases "maybe_roll_on_size xxh os env ?m dir1") auto
        have "cp' = cp4" using s e Inr rg tid w ap u3 sd mr by (auto simp: store_page_def split: sum.splits)
        then show ?thesis using wm_maybe_roll [OF invm mr roomm] marks_le_trans [OF lem marks_le_refl] by blast
      qed
    qed
  qed
qed

lemma wm_set_drained:
  assumes inv: "wm_inv cp" and m: "marks_of cp name = Some (inst, gs)" "chunk < length gs" "gs ! chunk \<le> gen"
    and room: "id_room k cp"
  shows "\<exists>cp'. set_drained name chunk gen cp = (Inr (), cp') \<and> wm_inv cp' \<and> id_room k cp' \<and> marks_le cp cp'"
proof -
  obtain t where t: "cp_tables cp name = Some t" "tp_drained_gen t = gs" using m(1) by (auto simp: marks_of_def)
  let ?m = "marked name chunk gen t cp"
  have sd: "set_drained name chunk gen cp = (Inr (), ?m)" using t m(2) by (simp add: set_drained_def marked_def)
  have "wm_inv ?m"
  proof (cases "cp_current cp")
    case None
    have "ids_of ?m n = ids_of cp n" for n using t(1) by (simp add: ids_of_def marked_def)
    then show ?thesis using inv None by (simp add: wm_inv_def marked_def)
  next
    case (Some w)
    then have "wm_segment ?m w" using inv t m(2,3) by (intro wm_mark_segment) (auto simp: wm_inv_def)
    then show ?thesis using Some by (simp add: wm_inv_def marked_def)
  qed
  moreover have "id_room k ?m" using room by (simp add: id_room_def marked_def)
  ultimately show ?thesis using sd marks_le_marked [OF t(1), of chunk gen] m(3) t(2) by auto
qed

lemma transpose_chunk_gen:
  "transpose_chunk os env b i ds = Some (Some (g, columns), b') \<Longrightarrow> g = chunk_generation b i"
  by (auto simp: transpose_chunk_def Let_def split: if_splits prod.splits option.splits)

lemma wm_drain_chunk:
  assumes inv: "wm_inv cp" and room: "id_room (Suc k) cp" "2 + k < 2 ^ 32"
    and m: "marks_of cp name = Some (inst, gs)" "length gs < 2 ^ 32"
    and d: "drain_chunk xxh p os env name cs inst chunk (cp, dir, b) = Some (r, cp', dir', b')"
  shows "wm_inv cp' \<and> id_room k cp' \<and> marks_le cp cp'"
proof -
  have same: ?thesis if "cp' = cp" using that inv room(1) marks_le_refl by (auto simp: id_room_def)
  obtain t where t: "cp_tables cp name = Some t" "tp_drained_gen t = gs" using m(1) by (auto simp: marks_of_def)
  show ?thesis
  proof (cases "chunk_state b chunk \<noteq> chunk_state_code Sealed \<or> length gs \<le> chunk \<or> chunk_generation b chunk = 0 \<or>
      chunk_generation b chunk \<le> gs ! chunk")
    case True
    then have "cp' = cp" using d t by (auto simp: drain_chunk_def Let_def split: if_splits)
    then show ?thesis by (rule same)
  next
    case False
    let ?g = "chunk_generation b chunk"
    have f: "chunk_state b chunk = chunk_state_code Sealed" "chunk < length gs" "?g \<noteq> 0" "gs ! chunk < ?g" using False by auto
    note d' = d [unfolded drain_chunk_def prod.case Let_def]
    obtain x b2 where tc: "transpose_chunk os env b chunk (map snd cs) = Some (x, b2)"
      using d' f t by (auto split: option.splits)
    show ?thesis
    proof (cases x)
      case None
      then have "cp' = cp" using d' f t tc by auto
      then show ?thesis by (rule same)
    next
      case (Some y)
      obtain columns where y: "y = (?g, columns)" using transpose_chunk_gen tc Some by (cases y) auto
      let ?n = "case columns of [] \<Rightarrow> 0 | c # _ \<Rightarrow> column_len c"
      have gb: "?g < 2 ^ 64" using rd_bound [of _ 8 b] by (simp add: chunk_generation_def chunk_header_def)
      have cb: "chunk < 2 ^ 32" using f(2) m(2) by simp
      show ?thesis
      proof (cases "?n = 0")
        case True
        have "id_room k cp" using room(1) by (auto simp: id_room_def)
        from wm_set_drained [OF inv m(1) f(2) less_imp_le [OF f(4)] this] obtain cp2 where
          sd: "set_drained name chunk ?g cp = (Inr (), cp2)" "wm_inv cp2 \<and> id_room k cp2 \<and> marks_le cp cp2" by blast
        have "cp' = cp2" using d' f t tc Some y True sd(1) by auto
        then show ?thesis using sd(2) by simp
      next
        case nz: False
        obtain q cp2 dir2 where sp: "store_page xxh p os env name cs inst chunk ?g columns cp dir = Some (q, cp2, dir2)"
          using d' f t tc Some y nz by (auto split: option.splits)
        have "cp' = cp2" using d' f t tc Some y nz sp by (auto split: sum.splits)
        then show ?thesis using wm_store_page [OF inv room sp m(1) f(2,4) gb cb] by simp
      qed
    qed
  qed
qed

lemma wm_drain_chunks:
  assumes "wm_inv cp" "id_room (length chunks) cp" "1 + length chunks < 2 ^ 32"
    and "marks_of cp name = Some (inst, gs)" "length gs < 2 ^ 32"
    and "drain_chunks xxh p os env name cs inst chunks rows (cp, dir, b) = Some (r, cp', dir', b')"
  shows "wm_inv cp' \<and> marks_le cp cp'"
  using assms
proof (induction chunks arbitrary: rows cp dir b gs)
  case Nil
  then show ?case using marks_le_refl by auto
next
  case (Cons c chunks)
  obtain q cp1 dir1 b1 where d: "drain_chunk xxh p os (env c) name cs inst c (cp, dir, b) = Some (q, cp1, dir1, b1)"
    using Cons.prems(6) by (auto split: option.splits)
  have room: "id_room (Suc (length chunks)) cp" "2 + length chunks < 2 ^ 32" using Cons.prems(2,3) by simp_all
  note st = wm_drain_chunk [OF Cons.prems(1) room Cons.prems(4,5) d]
  show ?case
  proof (cases q)
    case (Inl e)
    then have "cp' = cp1" using Cons.prems(6) d by simp
    then show ?thesis using st by simp
  next
    case (Inr n)
    have run: "drain_chunks xxh p os env name cs inst chunks (rows + n) (cp1, dir1, b1) = Some (r, cp', dir', b')"
      using Cons.prems(6) d Inr by simp
    from st Cons.prems(4) obtain gs' where gs': "marks_of cp1 name = Some (inst, gs')" "list_all2 (\<le>) gs gs'"
      unfolding marks_le_def by blast
    have "length gs' < 2 ^ 32" using list_all2_lengthD [OF gs'(2)] Cons.prems(5) by simp
    from Cons.IH [OF _ _ _ gs'(1) this run] st Cons.prems(3) have "wm_inv cp' \<and> marks_le cp1 cp'" by simp
    then show ?thesis using st marks_le_trans by blast
  qed
qed

lemma wm_prepare:
  assumes inv: "wm_inv cp" and g: "\<forall>t. cp_tables cp name = Some t \<longrightarrow> tp_source_instance t = inst \<longrightarrow> length (tp_drained_gen t) = n"
  shows "wm_inv (prepare_progress cp name inst n)"
    "\<exists>gs. marks_of (prepare_progress cp name inst n) name = Some (inst, gs) \<and> length gs = n"
    "\<And>m gs i. marks_of cp m = Some (i, gs) \<Longrightarrow> m \<noteq> name \<or> i = inst \<Longrightarrow> marks_of (prepare_progress cp name inst n) m = Some (i, gs)"
proof -
  let ?cp = "prepare_progress cp name inst n"
  have seeded: "length (seeded_gens cp name inst n) = n" by (simp add: seeded_gens_def split: option.split)
  have "(\<exists>t. cp_tables cp name = Some t \<and> tp_source_instance t = inst \<and> cp_tables ?cp = cp_tables cp) \<or>
      (\<exists>t. cp_tables ?cp = (cp_tables cp)(name \<mapsto> t) \<and> tp_source_instance t = inst \<and> tp_seg_table_id t = None \<and>
        length (tp_drained_gen t) = n \<and> (\<forall>t'. cp_tables cp name = Some t' \<longrightarrow> tp_source_instance t' \<noteq> inst))"
    using g seeded by (auto simp: prepare_progress_def Let_def fun_upd_idem split: option.split)
  then consider (keep) t where "cp_tables cp name = Some t" "tp_source_instance t = inst" "cp_tables ?cp = cp_tables cp"
    | (new) t where "cp_tables ?cp = (cp_tables cp)(name \<mapsto> t)" "tp_source_instance t = inst" "tp_seg_table_id t = None"
        "length (tp_drained_gen t) = n" "\<forall>t'. cp_tables cp name = Some t' \<longrightarrow> tp_source_instance t' \<noteq> inst"
    by blast
  note two = this
  have cur: "cp_current ?cp = cp_current cp" by (simp add: prepare_progress_def Let_def)
  show "wm_inv ?cp"
    using two
  proof cases
    case keep
    have "ids_of ?cp m = ids_of cp m" for m by (simp add: ids_of_def keep(3))
    moreover have "wm_segment cp w \<Longrightarrow> wm_segment ?cp w" for w by (rule wm_segment_cong [OF keep(3) refl order_refl])
    ultimately show ?thesis using inv cur by (auto simp: wm_inv_def split: option.splits)
  next
    case new
    have ids: "ids_of ?cp m = (if m = name then None else ids_of cp m)" for m by (simp add: ids_of_def new(1,3))
    have "wm_segment ?cp w" if seg: "wm_segment cp w" for w
      unfolding wm_segment_def
    proof (intro conjI allI impI)
      show "\<forall>pd\<in>set (sw_pages w). unat (pd_table_id pd) < unat (sw_next_table_id w)"
        "distinct (map page_key (sw_pages w))" using seg by (auto simp: wm_segment_def)
      fix m t' tid assume t': "cp_tables ?cp m = Some t'" "tp_seg_table_id t' = Some tid"
      then have "cp_tables cp m = Some t'" using new(1,3) by (auto split: if_splits)
      note o = wm_segmentD(3,4) [OF seg this t'(2)]
      show "unat tid < unat (sw_next_table_id w)" by (rule o(1))
      show "\<forall>pd\<in>set (sw_pages w). pd_table_id pd = tid \<longrightarrow> below_mark t' pd" using o(2) by blast
    next
      fix n1 n2 tid assume "ids_of ?cp n1 = Some tid" "ids_of ?cp n2 = Some tid"
      then show "n1 = n2" using wm_segmentD(5) [OF seg] by (auto simp: ids split: if_splits)
    qed
    then show ?thesis using inv cur ids by (auto simp: wm_inv_def split: option.splits)
  qed
  show "\<exists>gs. marks_of ?cp name = Some (inst, gs) \<and> length gs = n"
    using two
  proof cases
    case keep
    then show ?thesis using g by (simp add: marks_of_def)
  qed (simp add: marks_of_def)
  show "marks_of ?cp m = Some (i, gs)" if "marks_of cp m = Some (i, gs)" "m \<noteq> name \<or> i = inst" for m gs i
    using two
  proof cases
    case keep
    then show ?thesis using that(1) by (simp add: marks_of_def)
  next
    case new
    then show ?thesis using that by (auto simp: marks_of_def)
  qed
qed

lemma wm_drain_view:
  assumes inv: "wm_inv cp" and room: "id_room (length (chunks_logical b)) cp" "1 + length (chunks_logical b) < 2 ^ 32"
    and n: "num_chunks (header b) < 2 ^ 32"
    and g: "\<forall>t. cp_tables cp name = Some t \<longrightarrow> tp_source_instance t = instance_id (header b) \<longrightarrow>
      length (tp_drained_gen t) = num_chunks (header b)"
    and d: "drain_view xxh p os env name (cp, dir, b) = Some (r, cp', dir', b')"
  shows "wm_inv cp'" "\<And>m inst gs. marks_of cp m = Some (inst, gs) \<Longrightarrow> m \<noteq> name \<or> inst = instance_id (header b) \<Longrightarrow>
    \<exists>gs'. marks_of cp' m = Some (inst, gs') \<and> list_all2 (\<le>) gs gs'"
    "\<exists>gs. marks_of cp' name = Some (instance_id (header b), gs)"
proof -
  let ?i = "instance_id (header b)" and ?n = "num_chunks (header b)"
  let ?cp = "prepare_progress cp name ?i ?n"
  obtain cs where run: "drain_chunks xxh p os env name cs ?i (chunks_logical b) 0 (?cp, dir, b) = Some (r, cp', dir', b')"
    using d by (auto simp: drain_view_def Let_def split: option.splits)
  note pp = wm_prepare [of cp name ?i ?n, OF inv g]
  from pp(2) obtain gs0 where gs0: "marks_of ?cp name = Some (?i, gs0)" "length gs0 = ?n" by blast
  have rm: "id_room (length (chunks_logical b)) ?cp" using room(1) by (simp add: id_room_def prepare_progress_def Let_def)
  have l: "length gs0 < 2 ^ 32" using n gs0(2) by simp
  note w = wm_drain_chunks [OF pp(1) rm room(2) gs0(1) l run]
  show "wm_inv cp'" using w by blast
  show "\<exists>gs. marks_of cp' name = Some (?i, gs)" using gs0(1) w unfolding marks_le_def by blast
  show "\<exists>gs'. marks_of cp' m = Some (inst, gs') \<and> list_all2 (\<le>) gs gs'"
    if "marks_of cp m = Some (inst, gs)" "m \<noteq> name \<or> inst = ?i" for m inst gs
    using pp(3) [OF that] w unfolding marks_le_def by blast
qed

end
