(* ===== verification/Memc_Promises.thy ===== *)
theory Memc_Promises
  imports Memc_Watermark
begin

text \<open>
  Chunks whose lease slots are all taken, the exact set of files an eviction pass removes, and the
  watermarks that a restarted compactor recovers from the cold segments.
\<close>

section \<open>Taken lease slots\<close>

text \<open>A lease held by another process that is alive, or that is about to publish its first reference.\<close>

definition held_elsewhere :: "os \<Rightarrow> ReaderLease \<Rightarrow> bool" where
  "held_elsewhere os l \<longleftrightarrow> lease_live os l \<and> fst (lease_parts (lease_state l)) \<noteq> current_process_id os"

lemma acquire_slot_held: "held_elsewhere os (reader_lease b c k) \<Longrightarrow> acquire_slot os b c k = NextSlot b"
  by (cases "lease_parts (lease_state (reader_lease b c k))")
    (auto simp: held_elsewhere_def lease_live_def acquire_slot_def Let_def)

lemma acquire_slots_held:
  "\<forall>k\<in>set ks. held_elsewhere os (reader_lease b c k) \<Longrightarrow> acquire_slots os b c ks = None"
  by (induction ks) (simp_all add: acquire_slot_held)

lemma held_try_rows:
  assumes g: "table_geom b" "i < num_chunks (header b)" and st: "chunk_state b i = chunk_state_code Sealed"
    and h: "\<forall>k<lease_slots (header b). held_elsewhere os (reader_lease b i k)"
  shows "\<exists>b1. try_rows os b i = (Inl ReaderLeaseExhausted, b1) \<and> chunk_generation b1 i = chunk_generation b i"
proof -
  let ?cs = "chunk_start_off b i"
  let ?after = "\<lambda>(_::nat) b1. (state (chunk_header b1 ?cs), generation (chunk_header b1 ?cs))"
  have ac: "acquire_process_lease os b i = None"
    using h by (simp add: acquire_process_lease_def acquire_slots_held)
  have "pin_chunk os b ?cs = pin_attempts os ?after b i ?cs (chunk_size (header b) - CHUNK_HEADER_SIZE) (Suc 63)"
    using pin_chunk_with_eq [OF g(1), of os ?after i] by (simp add: pin_chunk_def)
  also have "\<dots> = (Inl ReaderLeaseExhausted, b)"
    unfolding pin_attempts.simps(2) Let_def using st ac by (simp add: chunk_state_def)
  finally have t: "try_rows os b i = (Inl ReaderLeaseExhausted, wr 88 8 (reader_lease_failures (header b) + 1) b)"
    using g(2) by (simp add: try_rows_def Let_def)
  note hw = hot_wr [OF g(1), where off = 88 and n = 8 and v = "reader_lease_failures (header b) + 1", simplified]
  show ?thesis
    using t hw(2) [OF g(2)] cold_eq_chunk_start [OF hw(1), of i] by (auto simp: chunk_generation_def chunk_view_def)
qed

section \<open>The files an eviction pass removes\<close>

definition evictable :: "string set \<Rightarrow> segment_file list \<Rightarrow> segment_file list" where
  "evictable protect fs = filter (\<lambda>f. sf_name f \<notin> protect) fs"

text \<open>Whether a file must go when \<open>u\<close> bytes are in use.\<close>

definition must_go :: "nat \<Rightarrow> nat option \<Rightarrow> nat option \<Rightarrow> nat \<Rightarrow> segment_file \<Rightarrow> bool" where
  "must_go now mx ttl u f \<longleftrightarrow> too_old now ttl f \<or> (\<exists>m. mx = Some m \<and> m < u)"

lemma evict_exact:
  assumes "\<forall>f\<in>set fs. fc_stat calls (sf_name f) = Done \<and> fc_remove calls (sf_name f) = Done"
  shows "\<exists>k\<le>length (evictable protect fs).
    evict calls now mx ttl protect u fs = (Inr (), map sf_name (take k (evictable protect fs))) \<and>
    (\<forall>j<k. must_go now mx ttl (u - sizes (take j (evictable protect fs))) (evictable protect fs ! j)) \<and>
    (k < length (evictable protect fs) \<longrightarrow>
      \<not> must_go now mx ttl (u - sizes (take k (evictable protect fs))) (evictable protect fs ! k))"
  using assms
proof (induction fs arbitrary: u)
  case Nil
  then show ?case by (simp add: evictable_def)
next
  case (Cons f fs)
  have ok: "\<forall>f\<in>set fs. fc_stat calls (sf_name f) = Done \<and> fc_remove calls (sf_name f) = Done"
    "fc_stat calls (sf_name f) = Done" "fc_remove calls (sf_name f) = Done" using Cons.prems by auto
  show ?case
  proof (cases "sf_name f \<in> protect")
    case True
    then have "evictable protect (f # fs) = evictable protect fs" by (simp add: evictable_def)
    then show ?thesis using Cons.IH [OF ok(1), of u] True by simp
  next
    case False
    then have ev: "evictable protect (f # fs) = f # evictable protect fs" by (simp add: evictable_def)
    show ?thesis
    proof (cases "must_go now mx ttl u f")
      case True
      from Cons.IH [OF ok(1), of "u - length (sf_bytes f)"] obtain k where
        k: "k \<le> length (evictable protect fs)"
        "evict calls now mx ttl protect (u - length (sf_bytes f)) fs = (Inr (), map sf_name (take k (evictable protect fs)))"
        "\<forall>j<k. must_go now mx ttl (u - length (sf_bytes f) - sizes (take j (evictable protect fs))) (evictable protect fs ! j)"
        "k < length (evictable protect fs) \<longrightarrow>
          \<not> must_go now mx ttl (u - length (sf_bytes f) - sizes (take k (evictable protect fs))) (evictable protect fs ! k)"
        by blast
      have run: "evict calls now mx ttl protect u (f # fs) = (Inr (), map sf_name (take (Suc k) (evictable protect (f # fs))))"
        using False ok(2,3) True k(2) by (auto simp: Let_def ev must_go_def too_old_def split: option.splits)
      show ?thesis
      proof (intro exI [of _ "Suc k"] conjI allI impI)
        show "Suc k \<le> length (evictable protect (f # fs))" using k(1) by (simp add: ev)
        fix j assume "j < Suc k"
        then show "must_go now mx ttl (u - sizes (take j (evictable protect (f # fs)))) (evictable protect (f # fs) ! j)"
          using True k(3) by (cases j) (simp_all add: ev)
      next
        assume "Suc k < length (evictable protect (f # fs))"
        then show "\<not> must_go now mx ttl (u - sizes (take (Suc k) (evictable protect (f # fs)))) (evictable protect (f # fs) ! Suc k)"
          using k(4) by (simp add: ev)
      qed (rule run)
    next
      case keep: False
      have "evict calls now mx ttl protect u (f # fs) = (Inr (), [])"
        using False ok(2,3) keep by (auto simp: Let_def must_go_def too_old_def split: option.splits)
      then show ?thesis using keep by (intro exI [of _ 0]) (simp add: ev)
    qed
  qed
qed

section \<open>Restarting over a cold directory\<close>

text \<open>The watermark of a chunk that the seeds hold.\<close>

definition seed_at :: "(byte list \<times> nat \<rightharpoonup> (usize \<rightharpoonup> nat)) \<Rightarrow> byte list \<times> nat \<Rightarrow> usize \<Rightarrow> nat" where
  "seed_at seed key chunk = (case Option.bind (seed key) (\<lambda>m. m chunk) of None \<Rightarrow> 0 | Some g \<Rightarrow> g)"

text \<open>What a page of a segment contributes.\<close>

definition page_source :: "SegmentReader \<Rightarrow> PageMeta \<Rightarrow> ((byte list \<times> nat) \<times> usize \<times> nat) option" where
  "page_source r p =
    (if pm_source_chunk p = SOURCE_CHUNK_NONE then None
     else map_option (\<lambda>d. ((td_name d, unat (pm_source_instance p)), unat (pm_source_chunk p), unat (pm_source_gen p)))
       (table_def r (pm_table_id p)))"

lemma seed_page_at:
  "seed_at (seed_page r seed p) key chunk =
    (case page_source r p of
       None \<Rightarrow> seed_at seed key chunk
     | Some (k, c, g) \<Rightarrow> if k = key \<and> c = chunk then max (seed_at seed key chunk) g else seed_at seed key chunk)"
  by (auto simp: seed_page_def page_source_def seed_at_def Let_def split: option.splits)

lemma seed_pages_at:
  "seed_at (foldl (seed_page r) seed ps) key chunk =
    foldl max (seed_at seed key chunk)
      (map (snd \<circ> snd) (filter (\<lambda>(k, c, g). k = key \<and> c = chunk) (List.map_filter (page_source r) ps)))"
  by (induction ps arbitrary: seed)
    (auto simp: seed_page_at List.map_filter_simps split: option.splits if_splits)

text \<open>The generations of the pages of one chunk over all segments.\<close>

definition cold_gens :: "hash64 \<Rightarrow> segment_file list \<Rightarrow> byte list \<times> nat \<Rightarrow> usize \<Rightarrow> nat list" where
  "cold_gens xxh fs key chunk =
    concat (map (\<lambda>f. case from_mmap xxh (sf_bytes f) (sf_name f) of
        Inl e \<Rightarrow> []
      | Inr r \<Rightarrow> map (snd \<circ> snd) (filter (\<lambda>(k, c, g). k = key \<and> c = chunk) (List.map_filter (page_source r) (sr_pages r)))) fs)"

lemma prime_segments_at:
  "prime_segments xxh calls fs cp = (Inr (), cp') \<Longrightarrow>
   cp_tables cp' = cp_tables cp \<and> cp_current cp' = cp_current cp \<and>
   seed_at (cp_seed cp') key chunk = foldl max (seed_at (cp_seed cp) key chunk) (cold_gens xxh fs key chunk)"
proof (induction xxh calls fs cp rule: prime_segments.induct)
  case (1 xxh calls cp)
  then show ?case by (simp add: cold_gens_def)
next
  case (2 xxh calls f fs cp)
  then obtain r where r: "fc_open calls (sf_name f)" "from_mmap xxh (sf_bytes f) (sf_name f) = Inr r"
    by (auto split: if_splits sum.splits)
  let ?cp = "cp\<lparr>cp_seed := foldl (seed_page r) (cp_seed cp) (sr_pages r)\<rparr>"
  have "prime_segments xxh calls fs ?cp = (Inr (), cp')" using 2(2) r by simp
  from 2(1) [OF _ r(2) this] r(1) show ?case by (simp add: cold_gens_def r(2) seed_pages_at)
qed

lemma foldl_max_ge: "(x::nat) \<in> set xs \<Longrightarrow> x \<le> foldl max a xs" "(a::nat) \<le> foldl max a xs"
proof -
  have le: "\<And>(a::nat) xs. a \<le> foldl max a xs"
  proof -
    fix xs and a :: nat
    show "a \<le> foldl max a xs" by (induction xs arbitrary: a) (auto intro: order_trans [OF max.cobounded1])
  qed
  then show "a \<le> foldl max a xs" .
  show "x \<in> set xs \<Longrightarrow> x \<le> foldl max a xs"
  proof (induction xs arbitrary: a)
    case (Cons y ys)
    then show ?case using le [of "max a y" ys] by auto
  qed simp
qed

lemma seeded_gens_at:
  "i < n \<Longrightarrow> seeded_gens cp name inst n ! i = seed_at (cp_seed cp) (name, inst) i"
  by (auto simp: seeded_gens_def seed_at_def split: option.splits)

lemma primed_progress:
  assumes "cp_tables cp name = None" "i < n"
  shows "\<exists>t. cp_tables (prepare_progress cp name inst n) name = Some t \<and> length (tp_drained_gen t) = n \<and>
    tp_drained_gen t ! i = seed_at (cp_seed cp) (name, inst) i"
proof -
  have "length (seeded_gens cp name inst n) = n" by (simp add: seeded_gens_def split: option.split)
  then show ?thesis using assms seeded_gens_at [OF assms(2)] by (simp add: prepare_progress_def Let_def)
qed

text \<open>A sealed chunk with rows that a drain can pin and read, in columns that the segment format can hold.\<close>

definition drainable :: "pco \<Rightarrow> os \<Rightarrow> drain_env \<Rightarrow> byte list \<Rightarrow> (byte list \<times> DType) list \<Rightarrow> buf \<Rightarrow> Value list ring \<Rightarrow> usize \<Rightarrow> bool" where
  "drainable p os env name cs b s i \<longleftrightarrow>
     represents b s \<and> i < num_chunks (header b) \<and> chunk_state b i = chunk_state_code Sealed \<and> ring_chunks s ! i \<noteq> [] \<and>
     (\<exists>it b1 pin. try_rows os b i = (Inr it, b1) \<and> it_pin it = Some pin) \<and> quiet env \<and>
     map snd cs = table_dtypes b \<and> cs \<noteq> [] \<and> seg_entry_ok p (TableEntry 0 name cs) \<and>
     page_ok p (transposed (table_dtypes b) (ring_chunks s ! i))"

text \<open>A page of \<open>chunk\<close> of the table instance \<open>key\<close> at generation \<open>g\<close>, with the given columns, in a sealed file.\<close>

definition holds_page :: "hash64 \<Rightarrow> pco \<Rightarrow> segment_file \<Rightarrow> byte list \<times> nat \<Rightarrow> usize \<Rightarrow> nat \<Rightarrow> ColumnData list \<Rightarrow> bool" where
  "holds_page xxh p f key chunk g columns \<longleftrightarrow>
     (\<exists>r k. from_mmap xxh (sf_bytes f) (sf_name f) = Inr r \<and> sr_is_sealed r \<and> k < length (sr_pages r) \<and>
        page_source r (sr_pages r ! k) = Some (key, chunk, g) \<and> read_page xxh p r k = Inr columns)"

lemma drainable_drained:
  assumes dr: "drainable p os env name cs b s i" and c: "cold_ok xxh p cp name cs"
    and t: "cp_tables cp name = Some t" "i < length (tp_drained_gen t)" "tp_drained_gen t ! i < chunk_generation b i"
    and d: "drain_chunk xxh p os env name cs inst i (cp, dir, b) = Some (Inr m, cp', dir', b')"
  shows "m = length (ring_chunks s ! i)" "represents b' s"
    "\<exists>t'. cp_tables cp' name = Some t' \<and> tp_drained_gen t' = (tp_drained_gen t)[i := chunk_generation b i]"
    "\<lbrakk>pco_lossless p; i + 1 < 2 ^ 32; inst < 2 ^ 64; flush xxh os env' cp' dir' = (Inr res, cp'', dir'');
      length (sf_bytes (last dir'')) < 2 ^ 32\<rbrakk> \<Longrightarrow>
      holds_page xxh p (last dir'') (name, inst) i (chunk_generation b i) (transposed (table_dtypes b) (ring_chunks s ! i))"
proof -
  let ?cols = "transposed (table_dtypes b) (ring_chunks s ! i)" and ?g = "chunk_generation b i"
  from dr obtain it b1 pin where a: "represents b s" "i < num_chunks (header b)" "quiet env" "try_rows os b i = (Inr it, b1)"
    "it_pin it = Some pin" "chunk_state b i = chunk_state_code Sealed" "map snd cs = table_dtypes b" "cs \<noteq> []"
    "seg_entry_ok p (TableEntry 0 name cs)" "page_ok p ?cols" "ring_chunks s ! i \<noteq> []"
    unfolding drainable_def by blast
  note pg = drain_chunk_page [OF a(1-8) t c a(9-11) d]
  show "m = length (ring_chunks s ! i)" "represents b' s"
    "\<exists>t'. cp_tables cp' name = Some t' \<and> tp_drained_gen t' = (tp_drained_gen t)[i := ?g]" by (rule pg(1), rule pg(2), rule pg(4))
  assume f: "pco_lossless p" "i + 1 < 2 ^ 32" "inst < 2 ^ 64" "flush xxh os env' cp' dir' = (Inr res, cp'', dir'')"
    "length (sf_bytes (last dir'')) < 2 ^ 32"
  from pg(3) obtain es tid td where es: "log_tables es tid = Some td" "td_name td = name"
    "stored_log xxh p os env cp' dir dir' (es @ [PageEntry tid ?cols (page_ts_range (td_ts_col td) ?cols)
        (word_of_nat ?g) (word_of_nat i) (word_of_nat inst)])" by blast
  from stored_log_open [OF es(3) refl f(4,1,5)] obtain r where
    r: "from_mmap xxh (sf_bytes (last dir'')) (sf_name (last dir'')) = Inr r" "sr_is_sealed r"
    "length (sr_pages r) = length (log_columns es) + 1" "pm_table_id (last (sr_pages r)) = tid"
    "read_page xxh p r (length (log_columns es)) = Inr ?cols" "pm_source_gen (last (sr_pages r)) = word_of_nat ?g"
    "pm_source_chunk (last (sr_pages r)) = word_of_nat i" "pm_source_instance (last (sr_pages r)) = word_of_nat inst"
    and tb: "sr_tables r tid = Some td"
    using es(1) by (auto simp: log_tables_def)
  have last: "sr_pages r ! length (log_columns es) = last (sr_pages r)"
    using r(3) by (metis add_diff_cancel_right' last_conv_nth length_0_conv Suc_eq_plus1 nat.distinct(1))
  have g: "?g < 2 ^ 64" using rd8_bound [of "chunk_start_off b i" b] by (simp add: chunk_generation_def chunk_header_def)
  have "unat (word_of_nat ?g :: u64) = ?g" "unat (word_of_nat inst :: u64) = inst" "unat (word_of_nat i :: u32) = i"
    using g f(2,3) by (simp_all add: unat_of_nat)
  moreover have "word_of_nat i \<noteq> SOURCE_CHUNK_NONE"
  proof
    assume "word_of_nat i = SOURCE_CHUNK_NONE"
    then have "unat (word_of_nat i :: u32) = unat SOURCE_CHUNK_NONE" by simp
    then show False using f(2) by (simp add: unat_of_nat SOURCE_CHUNK_NONE_def unsigned_minus_1_eq_mask mask_eq_exp_minus_1)
  qed
  ultimately have "page_source r (sr_pages r ! length (log_columns es)) = Some ((name, inst), i, ?g)"
    using tb es(2) r(4,6-8) by (simp add: last page_source_def table_def_def)
  then show "holds_page xxh p (last dir'') (name, inst) i ?g ?cols"
    unfolding holds_page_def using r(1-3,5) by (intro exI [of _ r] exI [of _ "length (log_columns es)"]) simp
qed

lemma primed_cold_ok:
  assumes "cp_current cp = None"
  shows "cold_ok xxh p (prepare_progress cp name inst n) name cs"
  using assms by (simp add: cold_ok_def prepare_progress_def Let_def split: option.split)

lemma drainable_generation:
  assumes "drainable p os env name cs b s i"
  shows "0 < chunk_generation b i"
proof -
  from assms have a: "represents b s" "i < num_chunks (header b)" "chunk_state b i = chunk_state_code Sealed"
    unfolding drainable_def by blast+
  note r = representsD [OF a(1)]
  have "chunk_generation b i = ring_generation s i" "chunk_state b i = chunk_state_code (ring_state s i)"
    using r(9) [OF a(2)] by (simp_all add: chunk_rep_def Let_def chunk_view_def chunk_generation_def chunk_state_def)
  then show ?thesis using a(3) r(3) by (auto simp: ring_generation_def ring_state_def ring_wf_def split: if_splits)
qed

lemma foldl_max_less: "(a::nat) < g \<Longrightarrow> \<forall>x\<in>set xs. x < g \<Longrightarrow> foldl max a xs < g"
  by (induction xs arbitrary: a) auto

lemma cold_gens_page:
  assumes f: "f \<in> set paths" "from_mmap xxh (sf_bytes f) (sf_name f) = Inr r" "page \<in> set (sr_pages r)"
    "page_source r page = Some (key, i, g)"
  shows "g \<in> set (cold_gens xxh paths key i)"
proof -
  have "(key, i, g) \<in> set (List.map_filter (page_source r) (sr_pages r))"
    using f(3,4) by (force simp: List.map_filter_def)
  then have "g \<in> set (map (snd \<circ> snd) (filter (\<lambda>(k, c, g). k = key \<and> c = i) (List.map_filter (page_source r) (sr_pages r))))"
    by force
  then show ?thesis
    unfolding cold_gens_def set_concat set_map using f(1,2) by (intro UnionI [OF imageI [OF imageI [OF f(1)]]]) simp
qed

section \<open>The first name of a store\<close>

lemma foldl_inflates:
  assumes "\<And>m x. (m::nat) \<le> g m x"
  shows "m \<le> foldl g m xs"
proof (induction xs arbitrary: m)
  case (Cons x xs)
  have "g m x \<le> foldl g (g m x) xs" by (rule Cons.IH)
  then show ?case using assms [of m x] by (simp only: foldl_Cons)
qed simp

lemma foldl_reaches:
  assumes "x \<in> set xs" "\<And>m. n \<le> g m x" "\<And>m y. (m::nat) \<le> g m y"
  shows "n \<le> foldl g m xs"
  using assms(1)
proof (induction xs arbitrary: m)
  case (Cons y ys)
  show ?case
  proof (cases "x = y")
    case True
    have "n \<le> g m y" using assms(2) unfolding True .
    also have "\<dots> \<le> foldl g (g m y) ys" by (rule foldl_inflates [OF assms(3)])
    finally show ?thesis by (simp only: foldl_Cons)
  next
    case False
    then have "n \<le> foldl g (g m y) ys" using Cons.prems by (intro Cons.IH) simp
    then show ?thesis by (simp only: foldl_Cons)
  qed
qed simp

lemma max_seq_for_ge:
  assumes "f \<in> set dir" "parse_segment_name (sf_name f) = Some (wid, n)"
  shows "n \<le> max_seq_for dir wid"
  unfolding max_seq_for_def by (rule foldl_reaches [OF assms(1)]) (auto simp: assms(2) split: option.split)

lemma store_open_fresh:
  assumes "store_open xxh os created calls dir = Inr s" "max_seq_for dir (st_writer_id s) < 2 ^ 32 - 1"
  shows "nth_name s 0 \<notin> sf_name ` set dir"
proof
  let ?m = "max_seq_for dir (st_writer_id s)"
  have m: "st_next_seq s = word_of_nat (?m + 1)"
    using assms by (auto simp: store_open_def Let_def split: if_splits)
  have "unat (word_of_nat (?m + 1) :: u32) = ?m + 1" using assms(2) by (simp only: unat_of_nat) simp
  then have n: "nth_name s 0 = segment_name (st_writer_id s) (?m + 1)" by (simp add: nth_name_def m)
  assume "nth_name s 0 \<in> sf_name ` set dir"
  then obtain f where f: "f \<in> set dir" "sf_name f = segment_name (st_writer_id s) (?m + 1)" using n by auto
  have "parse_segment_name (sf_name f) = Some (st_writer_id s, ?m + 1)"
    unfolding f(2) using assms(2) by (intro parse_name) simp
  from max_seq_for_ge [OF f(1) this] show False by simp
qed

section \<open>The life of a compactor\<close>

text \<open>
  The calls that change a compactor, whatever their outcome. \<open>drained\<close> assumes that a table keeps its
  number of chunks as long as it keeps its instance id, and that the segment has table ids left.
\<close>

inductive compactor_step :: "hash64 \<Rightarrow> pco \<Rightarrow> os \<Rightarrow> Compactor \<Rightarrow> Compactor \<Rightarrow> bool" for xxh p os where
  primed: "prime_from_cold xxh calls dir cp = (r, cp') \<Longrightarrow> compactor_step xxh p os cp cp'"
| drained: "drain_view xxh p os env name (cp, dir, b) = Some (r, cp', dir', b') \<Longrightarrow>
    num_chunks (header b) + 1 < 2 ^ 32 \<Longrightarrow> id_room (num_chunks (header b)) cp \<Longrightarrow>
    \<forall>t. cp_tables cp name = Some t \<longrightarrow> tp_source_instance t = instance_id (header b) \<longrightarrow>
      length (tp_drained_gen t) = num_chunks (header b) \<Longrightarrow> compactor_step xxh p os cp cp'"
| aged: "maybe_roll_on_age xxh os env cp dir = (r, cp', dir') \<Longrightarrow> compactor_step xxh p os cp cp'"
| flushed: "flush xxh os env cp dir = (r, cp', dir') \<Longrightarrow> compactor_step xxh p os cp cp'"

lemma prime_segments_keeps:
  "prime_segments xxh calls fs cp = (r, cp') \<Longrightarrow> cp_tables cp' = cp_tables cp \<and> cp_current cp' = cp_current cp"
proof (induction xxh calls fs cp rule: prime_segments.induct)
  case (2 xxh calls f fs cp)
  show ?case
  proof (cases "from_mmap xxh (sf_bytes f) (sf_name f)")
    case (Inr rd)
    show ?thesis
    proof (cases "fc_open calls (sf_name f)")
      case True
      then have "prime_segments xxh calls fs (cp\<lparr>cp_seed := foldl (seed_page rd) (cp_seed cp) (sr_pages rd)\<rparr>) = (r, cp')"
        using 2(2) Inr by simp
      from 2(1) [OF _ Inr this] True show ?thesis by simp
    qed (use 2(2) in auto)
  qed (use 2(2) in \<open>auto split: if_splits\<close>)
qed simp

lemma wm_inv_cong:
  assumes "cp_tables cp' = cp_tables cp" "cp_current cp' = cp_current cp"
  shows "wm_inv cp' = wm_inv cp"
  unfolding wm_inv_def wm_segment_def ids_of_def assms by (rule refl)

lemma length_chunks_logical: "length (chunks_logical b) \<le> num_chunks (header b)"
proof -
  have "length (concat (map (\<lambda>i. if P i then [f i] else []) xs)) \<le> length xs" for P and f :: "nat \<Rightarrow> nat \<times> nat" and xs
    by (induction xs) auto
  from this [of "\<lambda>i. 0 < chunk_generation b i \<and> 0 < num_rows b i" "\<lambda>i. (chunk_generation b i, i)" "[0..<num_chunks (header b)]"]
  show ?thesis by (simp add: chunks_logical_def)
qed

text \<open>Watermarks of an unchanged instance do not go down.\<close>

definition marks_up :: "Compactor \<Rightarrow> Compactor \<Rightarrow> bool" where
  "marks_up cp cp' \<longleftrightarrow> (\<forall>name inst gs gs'. marks_of cp name = Some (inst, gs) \<longrightarrow> marks_of cp' name = Some (inst, gs') \<longrightarrow>
     list_all2 (\<le>) gs gs')"

lemma marks_up_refl: "marks_of cp' = marks_of cp \<Longrightarrow> marks_up cp cp'"
  by (auto simp: marks_up_def list_all2_conv_all_nth)

lemma compactor_step_inv:
  assumes "compactor_step xxh p os cp cp'" "wm_inv cp"
  shows "wm_inv cp' \<and> marks_up cp cp'"
  using assms(1)
proof (cases rule: compactor_step.cases)
  case (primed calls dir r)
  then have k: "cp_tables cp' = cp_tables cp" "cp_current cp' = cp_current cp"
    by (auto simp: prime_from_cold_def dest: prime_segments_keeps split: sum.splits)
  show ?thesis using wm_inv_cong [OF k] assms(2) marks_up_refl [OF marks_of_tables(1) [OF k(1)]] by simp
next
  case (drained env name dir b r dir' b')
  have n: "id_room (length (chunks_logical b)) cp" "1 + length (chunks_logical b) < 2 ^ 32" "num_chunks (header b) < 2 ^ 32"
    using drained(2,3) length_chunks_logical [of b] by (auto simp: id_room_def)
  note w = wm_drain_view [OF assms(2) n drained(4,1)]
  have "marks_up cp cp'"
    unfolding marks_up_def
  proof (intro allI impI)
    fix m inst gs gs' assume m: "marks_of cp m = Some (inst, gs)" "marks_of cp' m = Some (inst, gs')"
    have "m \<noteq> name \<or> inst = instance_id (header b)" using w(3) m(2) by auto
    from w(2) [OF m(1) this] m(2) show "list_all2 (\<le>) gs gs'" by auto
  qed
  then show ?thesis using w(1) by simp
next
  case (aged env dir r dir')
  then have "cp' = cp \<or> roll xxh os env cp dir = (r, cp', dir')"
    by (auto simp: maybe_roll_on_age_def split: option.splits if_splits)
  then show ?thesis using assms(2) wm_roll [OF assms(2)] marks_up_refl by auto
next
  case (flushed env dir r dir')
  then show ?thesis using wm_roll [OF assms(2), of xxh os env dir r cp' dir' 0] marks_up_refl by (simp add: flush_def)
qed

lemma compactor_steps_inv:
  "(compactor_step xxh p os)\<^sup>*\<^sup>* cp cp' \<Longrightarrow> wm_inv cp \<Longrightarrow> wm_inv cp'"
  by (induction rule: rtranclp_induct) (auto dest: compactor_step_inv)

end
