(* ===== verification/Example_Memc.thy ===== *)
theory Example_Memc
  imports Memc_Guarantees
begin

text \<open>
  A concrete segment for the witnesses: a compressor that stores the numbers as they are, one table with
  a timestamp column and one page.
\<close>

function words64 :: "byte list \<Rightarrow> 64 word list" where
  "words64 bs = (if length bs < 8 then [] else word_of_le (take 8 bs) # words64 (drop 8 bs))"
  by pat_completeness auto
termination by (relation "measure length") auto

function words32 :: "byte list \<Rightarrow> 32 word list" where
  "words32 bs = (if length bs < 4 then [] else word_of_le (take 4 bs) # words32 (drop 4 bs))"
  by pat_completeness auto
termination by (relation "measure length") auto

declare words64.simps [simp del] words32.simps [simp del]

definition demo_pco :: pco where
  "demo_pco = \<lparr>compress32 = (\<lambda>d v. Inr (concat (map (word_le 4) v))), compress64 = (\<lambda>d v. Inr (concat (map (word_le 8) v))),
     decompress32 = (\<lambda>d bs. Inr (words32 bs)), decompress64 = (\<lambda>d bs. Inr (words64 bs))\<rparr>"

lemma words64_concat: "words64 (concat (map (word_le 8) v)) = v"
  by (induction v) (simp_all add: words64.simps)

lemma words32_concat: "words32 (concat (map (word_le 4) v)) = v"
  by (induction v) (simp_all add: words32.simps)

lemma demo_pco_lossless: "pco_lossless demo_pco"
  by (simp add: pco_lossless_def demo_pco_def words64_concat words32_concat)

definition demo_xxh :: hash64 where "demo_xxh bs = of_nat (length bs)"

definition ok_io :: io where "ok_io f bytes = None"

definition demo_cols :: "(byte list \<times> DType) list" where "demo_cols = [([0x74, 0x73], DI64)]"

definition demo_ops :: "(io \<times> seg_op) list" where
  "demo_ops = [(ok_io, Register [0x74] demo_cols), (ok_io, Append 1 [CI64 [5]] 3 0 9)]"

definition demo_segment :: SegmentWriter where
  "demo_segment = \<lparr>sw_file = segment_encode demo_xxh \<lparr>sh_flags = 0, sh_writer_pid = 7, sh_writer_start = 1,
      sh_created_unix_ms = 0, sh_footer_off = 0, sh_ts_min = TS_MIN_INIT, sh_ts_max = TS_MAX_INIT, sh_page_count = 0\<rparr>,
     sw_path = ''x'', sw_offset = 64, sw_tables = Map.empty, sw_next_table_id = 1, sw_pages = [],
     sw_ts_min = TS_MIN_INIT, sw_ts_max = TS_MAX_INIT, sw_sealed = False\<rparr>"

definition seg_os :: os where
  "seg_os = \<lparr>current_process_id = 7, process_exists = (\<lambda>p. p = 7), process_start_time = (\<lambda>p. 1)\<rparr>"

lemma demo_create: "segment_create demo_xxh seg_os 0 True ok_io ''x'' = Inr demo_segment"
  by (simp add: segment_create_def new_segment_header_def demo_segment_def seg_os_def ok_io_def write_all_def SEGMENT_HEADER_SIZE_def)

definition demo_page :: entry where
  "demo_page = PageEntry 1 [CI64 [5]] (5, 5) 3 0 9"

definition demo_table :: entry where
  "demo_table = TableEntry 1 [0x74] demo_cols"

lemma demo_ts_col: "cols_ts_col demo_cols = Some 0"
  by (simp add: cols_ts_col_def demo_cols_def TS_COL_NAMES_def str_bytes_def)

lemma demo_ops_ok: "\<forall>(io, op)\<in>set demo_ops. seg_op_ok demo_pco op"
  by (simp add: demo_ops_def name_ok_def demo_cols_def payload_fits_def encode_table_payload_def col_entry_def
      page_ok_def page_rows_def column_ok_def demo_pco_def encode_column_def)

lemma demo_run:
  "\<exists>w. seg_run demo_xxh demo_pco demo_segment demo_ops = ([Inr (Some 1), Inr None], w) \<and> length (sw_file w) = 320 \<and>
    length (sw_pages w) = 1 \<and> sw_path w = ''x''"
  by (simp add: demo_ops_def ok_io_def register_table_def append_page_from_def write_block_def write_all_def Let_def
      demo_segment_def demo_cols_def encode_column_def demo_pco_def memc_sizes memc_align64_def clear_low6_eq
      encode_table_payload_def col_entry_def cols_ts_col_def TS_COL_NAMES_def)


lemma demo_seal:
  assumes "length (sw_file w) = 320" "length (sw_pages w) = 1" "sw_path w = ''x''"
  shows "\<exists>f. seal demo_xxh seg_os 0 ok_io None True w = (Inr ''x'', f) \<and> length f < 2 ^ 64"
  using assms by (simp add: seal_def write_all_def ok_io_def Let_def footer_length bsplice_def)

lemma block_encode_nonempty: "block_encode xxh h \<noteq> []"
  using length_block_encode [of xxh h] by fastforce

lemma demo_torn:
  assumes "length (sw_file w) = 320" "length (sw_pages w) = 1" "sw_path w = ''x''"
  shows "\<exists>w' f. seg_step demo_xxh demo_pco (\<lambda>f bytes. Some 10) w (Register [0x75] demo_cols) = (Inl OsError, w') \<and>
    sw_file w' \<noteq> sw_file w \<and> seal demo_xxh seg_os 0 ok_io None True w' = (Inr ''x'', f) \<and> length f < 2 ^ 64"
  using assms
  by (simp add: register_table_def write_block_def write_all_def Let_def seal_def ok_io_def footer_length bsplice_def
      block_encode_nonempty)

lemma demo_read:
  "\<exists>w f r d. seg_run demo_xxh demo_pco demo_segment demo_ops = ([Inr (Some 1), Inr None], w) \<and>
    seal demo_xxh seg_os 0 ok_io None True w = (Inr ''x'', f) \<and> length f < 2 ^ 64 \<and> from_mmap demo_xxh f ''x'' = Inr r \<and>
    0 < length (sr_pages r) \<and> read_page demo_xxh demo_pco r 0 = Inr [CI64 [5]] \<and>
    table_def r (pm_table_id (sr_pages r ! 0)) = Some d \<and> td_ts_col d = Some 0"
proof -
  from demo_run obtain w where w: "seg_run demo_xxh demo_pco demo_segment demo_ops = ([Inr (Some 1), Inr None], w)"
    "length (sw_file w) = 320" "length (sw_pages w) = 1" "sw_path w = ''x''" by blast
  from demo_seal [OF w(2-4)] obtain f where f: "seal demo_xxh seg_os 0 ok_io None True w = (Inr ''x'', f)" "length f < 2 ^ 64"
    by blast
  have n: "length demo_ops + 1 < 2 ^ 32" "length (sw_pages w) * 64 < 2 ^ 32" by (simp_all add: demo_ops_def w(3))
  have log: "seg_log demo_ops [Inr (Some 1), Inr None] = [demo_table, demo_page]"
    by (simp add: seg_log_def demo_ops_def demo_table_def demo_page_def page_rows_def log_tables_def demo_ts_col
        page_ts_range_def ts_min_def ts_max_def TS_MIN_INIT_def TS_MAX_INIT_def)
  have rep: "segment_rep demo_xxh demo_pco w [demo_table, demo_page]"
    using seg_history_rep(1) [OF demo_create w(1) _ demo_ops_ok n(1)] by (simp add: log)
  from sealed_segment [OF rep demo_pco_lossless n(2) f] obtain r where r: "from_mmap demo_xxh f ''x'' = Inr r"
    "reads_log demo_xxh demo_pco r [demo_table, demo_page]" by blast
  have pg: "sr_pages r = log_pages demo_pco 64 [demo_table, demo_page]" "sr_tables r = log_tables [demo_table, demo_page]"
    "map (read_page demo_xxh demo_pco r) [0..<length (sr_pages r)] = map Inr (log_columns [demo_table, demo_page])"
    using r(2) unfolding reads_log_def by blast+
  have len: "length (sr_pages r) = 1" by (simp add: pg(1) demo_table_def demo_page_def)
  have "read_page demo_xxh demo_pco r 0 = Inr [CI64 [5]]"
    using pg(3) len by (simp add: log_columns_def demo_table_def demo_page_def)
  moreover have "table_def r (pm_table_id (sr_pages r ! 0)) =
      Some \<lparr>td_id = 1, td_name = [0x74], td_cols = demo_cols, td_ts_col = Some 0\<rparr>"
    by (simp add: table_def_def pg(1,2) log_tables_def demo_table_def demo_page_def demo_ts_col)
  ultimately show ?thesis using w(1) f r(1) len by (intro exI conjI) (assumption | simp)+
qed

end
