(* ===== verification/Example_Cold.thy ===== *)
theory Example_Cold
  imports Advance_Leases Memc_Promises Example_Tables Example_Memc
begin

text \<open>
  A two-chunk table with one row in its sealed first chunk, and a compactor over it, at which the
  theorems on draining are applied.
\<close>

section \<open>The table\<close>

definition two_buf :: buf where
  "two_buf = init_body demo_os 0 demo_schema 64 2 192 704 (replicate 832 0)"

lemma two_init: "init_buf demo_os 0 0 (replicate 832 0) demo_schema 64 2 = Inr two_buf"
  by (simp add: init_buf_def two_buf_def demo_schema_def schema_col_def schema_new_def push_col_def Let_def
      checked_lease_offset_def checked_data_offset_def checked_add_def checked_mul_def clear_low6_eq layout_consts)

lemma two_props:
  "represents two_buf (ring_init 2)" "num_cols (header two_buf) = 1" "num_chunks (header two_buf) = 2"
  "col_desc two_buf 0 = desc_of \<lparr>col_name = [0x74, 0x73], col_dtype = DI64, col_elem_size = 8, col_doc = None\<rparr>"
  "chunk_size (header two_buf) = 64" "write_chunk (header two_buf) = 0" "lease_slots (header two_buf) = 16"
  "i < 2 \<Longrightarrow> k < 16 \<Longrightarrow> lease_state (reader_lease two_buf i k) = 0"
proof -
  note p = init_buf_props [OF two_init]
  show r: "represents two_buf (ring_init 2)" using p(2) by simp
  show "lease_slots (header two_buf) = 16" using table_geomD(4) [OF representsD(1) [OF r]] by (simp add: header_def)
  show "write_chunk (header two_buf) = 0" using representsD(5) [OF r] by (simp add: ring_init_def)
  show "num_cols (header two_buf) = 1" "num_chunks (header two_buf) = 2" "chunk_size (header two_buf) = 64"
    "col_desc two_buf 0 = desc_of \<lparr>col_name = [0x74, 0x73], col_dtype = DI64, col_elem_size = 8, col_doc = None\<rparr>"
    using p(3-5,10) by (simp_all add: demo_schema_def schema_col_def schema_new_def push_col_def)
  show "i < 2 \<Longrightarrow> k < 16 \<Longrightarrow> lease_state (reader_lease two_buf i k) = 0"
    using p(11) by (simp add: READER_LEASE_SLOTS_def)
qed

lemma two_row_ok: "row_ok two_buf [VI64 t]"
  by (simp add: row_ok_def validate_row_schema_def two_props(2) two_props(4) [simplified] desc_of_def
      value_ok_def dtype_from_u32_def)

lemma two_row:
  "\<exists>b. represents b (ring_append [VI64 5] (ring_init 2)) \<and> cold_eq two_buf b \<and> chunk_only two_buf b 0"
proof -
  note r = representsD [OF two_props(1)]
  have n: "row_data_size [VI64 5] = 8" by (simp add: row_data_size_def)
  have i: "0 < num_chunks (header two_buf)" by (simp add: two_props)
  have "holds (payload two_buf 0) []"
    using r(9) [OF i] by (simp add: chunk_rep_def Let_def chunk_view_def ring_init_def)
  then have "payload two_buf 0 = []" by (auto simp: holds_def framed_def)
  then have "used (chunk_hdr two_buf 0) = 0" by (rule payload_empty_used [OF two_props(1) i])
  then have f: "row_fits two_buf (row_data_size [VI64 5])" by (simp add: row_fits_def two_props n layout_consts)
  from write_row_bytes_represents [OF two_props(1) two_row_ok f] obtain b where
    b: "write_row_bytes two_buf [VI64 5] (row_data_size [VI64 5]) = Some (True, b)"
      "represents b (ring_append [VI64 5] (ring_init 2))" "cold_eq two_buf b" by auto
  from write_row_bytes_appends [OF r(1,6) f [unfolded row_fits_def]] b(1) have "chunk_only two_buf b 0"
    by (auto simp: appended_def two_props(6))
  then show ?thesis using b by blast
qed

definition demo_ring :: "Value list ring" where
  "demo_ring = ring_advance (ring_append [VI64 5] (ring_init 2))"

lemma demo_ring: "ring_chunks demo_ring = [[[VI64 5]], []]" "ring_cur demo_ring = 1" "ring_lap demo_ring = 1"
  by (simp_all add: demo_ring_def ring_advance_def ring_append_def ring_init_def ring_next_def numeral_2_eq_2)

text \<open>The buffer after the row was written and the table advanced to its second chunk.\<close>

lemma demo_sealed:
  "\<exists>b. represents b demo_ring \<and> cold_eq two_buf b \<and> num_chunks (header b) = 2 \<and> lease_slots (header b) = 16 \<and>
    chunk_state b 0 = chunk_state_code Sealed \<and> chunk_generation b 0 = 1 \<and> table_dtypes b = [DI64] \<and>
    (\<forall>k<16. lease_state (reader_lease b 0 k) = 0)"
proof -
  from two_row obtain b where b: "represents b (ring_append [VI64 5] (ring_init 2))" "cold_eq two_buf b" "chunk_only two_buf b 0"
    by blast
  note g = representsD(1) [OF two_props(1)] and r = representsD [OF b(1)]
  have i: "0 < num_chunks (header two_buf)" by (simp add: two_props)
  have h: "header b = header two_buf" by (rule chunk_only_header [OF g i b(3)])
  have ls: "lease_state (reader_lease b c k) = 0" if "c < 2" "k < 16" for c k
    using chunk_only_leases [OF g i b(3), of c k] two_props that by simp
  have nx: "next_chunk b = 1" by (simp add: next_chunk_def h two_props)
  have np: "\<not> chunk_pinned demo_os b (next_chunk b)"
    using ls [of 1] by (simp add: chunk_pinned_def nx h two_props lease_live_def)
  from represents_recycled [OF b(1) np] obtain b' where
    b': "advance_chunk_raw_detailed demo_os b = Some (Advanced, b')" "represents b' demo_ring" "cold_eq b b'"
    by (auto simp: demo_ring_def ring_append_def ring_init_def)
  have hb: "num_chunks (header b') = 2" "lease_slots (header b') = 16"
    using cold_eq_header [OF b'(3)] by (simp_all add: h two_props)
  have cold: "cold_eq two_buf b'" by (rule cold_eq_trans [OF b(2) b'(3)])
  have i': "0 < num_chunks (header b')" by (simp add: hb)
  have cv: "state (chunk_hdr b' 0) = chunk_state_code Sealed" "generation (chunk_hdr b' 0) = 1"
    using representsD(9) [OF b'(2) i']
    by (simp_all add: chunk_rep_def Let_def chunk_view_def ring_state_def ring_generation_def demo_ring)
  have ls': "lease_state (reader_lease b' 0 k) = 0" if "k < 16" for k
    using advance_other_leases [OF r(1,6,2) np _ _ _ b'(1), of 0 k] nx h two_props that ls [of 0 k] by simp
  have dt: "table_dtypes b' = [DI64]"
    using table_dtypes_cold [OF cold]
    by (simp add: table_dtypes_def two_props(2) two_props(4) [simplified] desc_of_def dtype_from_u32_def)
  show ?thesis
    using b'(2) cold hb cv dt ls' by (intro exI [of _ b']) (auto simp: chunk_state_def chunk_generation_def)
qed

lemma demo_sealed_pin:
  assumes "represents b demo_ring" "num_chunks (header b) = 2" "lease_slots (header b) = 16"
    "\<forall>k<16. lease_state (reader_lease b 0 k) = 0"
  shows "\<exists>it b1 pin. try_rows demo_os b 0 = (Inr it, b1) \<and> it_pin it = Some pin"
proof -
  have "\<forall>k<lease_slots (header b). \<not> slot_saturated demo_os (reader_lease b 0 k)"
    using assms(3,4) by (simp add: slot_saturated_def demo_os_def)
  then show ?thesis
    using try_rows_succeeds [OF assms(1), of 0 0 demo_os] assms(2-4) by (simp add: demo_ring)
qed


section \<open>The compactor\<close>

definition demo_env :: drain_env where
  "demo_env = \<lparr>de_row_ok = (\<lambda>_. (True, True)), de_cursor_ok = (\<lambda>_. True), de_cell_ok = (\<lambda>_. all_ok), de_world = id,
     de_now = 0, de_unix_ms = 0, de_opened = True, de_create_io = ok_io, de_table_io = ok_io, de_page_io = ok_io,
     de_footer_io = ok_io, de_header_io = None, de_synced = True, de_removed = Done\<rparr>"

definition demo_store :: ColdStore where
  "demo_store = \<lparr>st_writer_id = ''w'', st_next_seq = 1\<rparr>"

definition demo_config :: CompactorConfig where
  "demo_config = \<lparr>cc_target_segment_bytes = 4096, cc_max_segment_age = 0, cc_max_total_bytes = None, cc_ttl = None\<rparr>"

definition demo_compactor :: "nat \<Rightarrow> Compactor" where
  "demo_compactor inst = prepare_progress (compactor_new demo_store demo_config 0) [0x74] inst 2"

lemma demo_quiet: "quiet demo_env"
  by (simp add: quiet_def demo_env_def)

lemma demo_compactor:
  "cp_tables (demo_compactor inst) [0x74] = Some \<lparr>tp_source_instance = inst, tp_drained_gen = [0, 0], tp_seg_table_id = None\<rparr>"
  "cp_current (demo_compactor inst) = None" "cp_config (demo_compactor inst) = demo_config" "cp_store (demo_compactor inst) = demo_store"
  by (simp_all add: demo_compactor_def prepare_progress_def compactor_new_def seeded_gens_def numeral_2_eq_2)

lemma demo_store_page:
  "\<exists>cp' w. store_page demo_xxh demo_pco demo_os demo_env [0x74] demo_cols inst 0 1 [CI64 [5]] (demo_compactor inst) [] = Some (Inr (), cp', []) \<and>
    cp_current cp' = Some w \<and> length (sw_file w) = 320 \<and> length (sw_pages w) = 1"
  by (simp add: store_page_def ensure_segment_def create_segment.simps next_segment_path_def segment_create_def
      demo_compactor demo_store_def demo_env_def write_all_def ok_io_def register_if_needed_def forget_table_ids_at
      register_table_def append_page_from_def write_block_def Let_def demo_cols_def encode_column_def demo_pco_def
      memc_sizes memc_align64_def clear_low6_eq SEGMENT_HEADER_SIZE_def sw_size_bytes_def demo_config_def
      encode_table_payload_def col_entry_def cols_ts_col_def TS_COL_NAMES_def set_drained_def maybe_roll_on_size_def)


lemma demo_flush:
  assumes "cp_current cp = Some w" "length (sw_file w) = 320" "length (sw_pages w) = 1"
  shows "\<exists>res cp' dir'. flush demo_xxh demo_os demo_env cp [] = (Inr res, cp', dir') \<and> length dir' = 1 \<and>
    length (sf_bytes (last dir')) < 2 ^ 32 \<and> sf_name (last dir') = sw_path w"
  using assms
  by (simp add: flush_def roll_def sw_page_count_def demo_env_def seal_def write_all_def ok_io_def Let_def footer_length bsplice_def)

lemma demo_columns: "transposed [DI64] [[VI64 5]] = [CI64 [5]]"
  by (simp add: transposed_def column_of_def)

lemma demo_cold_ok: "cold_ok demo_xxh demo_pco (demo_compactor inst) [0x74] demo_cols"
  by (simp add: cold_ok_def demo_compactor)

lemma demo_table_ok: "seg_entry_ok demo_pco (TableEntry 0 [0x74] demo_cols)"
  using demo_ops_ok by (simp add: demo_ops_def)

lemma demo_page_ok: "page_ok demo_pco [CI64 [5]]"
  using demo_ops_ok by (simp add: demo_ops_def)

lemma demo_drainable:
  assumes "represents b demo_ring" "num_chunks (header b) = 2" "chunk_state b 0 = chunk_state_code Sealed"
    "table_dtypes b = [DI64]" "try_rows demo_os b 0 = (Inr it, b1)" "it_pin it = Some pin"
  shows "drainable demo_pco demo_os demo_env [0x74] demo_cols b demo_ring 0"
  unfolding drainable_def
  using assms demo_quiet demo_table_ok demo_page_ok demo_columns by (auto simp: demo_ring demo_cols_def)

text \<open>One chunk drained and the segment sealed.\<close>

lemma demo_drain:
  assumes "represents b demo_ring" "num_chunks (header b) = 2" "chunk_state b 0 = chunk_state_code Sealed"
    "chunk_generation b 0 = 1" "table_dtypes b = [DI64]" "try_rows demo_os b 0 = (Inr it, b1)" "it_pin it = Some pin"
  shows "\<exists>cp' b' res cp'' dir''.
    drain_chunk demo_xxh demo_pco demo_os demo_env [0x74] demo_cols inst 0 (demo_compactor inst, [], b) = Some (Inr 1, cp', [], b') \<and>
    flush demo_xxh demo_os demo_env cp' [] = (Inr res, cp'', dir'') \<and> length dir'' = 1 \<and>
    length (sf_bytes (last dir'')) < 2 ^ 32 \<and> (\<exists>w. cp_current cp' = Some w \<and> length (sw_pages w) = 1)"
proof -
  have i: "0 < num_chunks (header b)" and g: "chunk_generation b 0 \<noteq> 0" using assms(2,4) by simp_all
  have dt: "map snd demo_cols = [DI64]" by (simp add: demo_cols_def)
  from transpose_chunk_rep [OF assms(1) i demo_quiet assms(6,7) g] obtain b2 where
    tc: "transpose_chunk demo_os demo_env b 0 [DI64] = Some (Some (1, [CI64 [5]]), b2)"
    using assms(4,5) by (auto simp: demo_ring demo_columns)
  from demo_store_page obtain cp' w where sp:
    "store_page demo_xxh demo_pco demo_os demo_env [0x74] demo_cols inst 0 1 [CI64 [5]] (demo_compactor inst) [] = Some (Inr (), cp', [])"
    "cp_current cp' = Some w" "length (sw_file w) = 320" "length (sw_pages w) = 1" by blast
  have "drain_chunk demo_xxh demo_pco demo_os demo_env [0x74] demo_cols inst 0 (demo_compactor inst, [], b) = Some (Inr 1, cp', [], b2)"
    unfolding drain_chunk_def prod.case dt Let_def
    using assms(3,4) by (simp add: tc sp(1) demo_compactor del: One_nat_def)
  then show ?thesis using demo_flush [OF sp(2-4)] sp(2,4) by blast
qed

text \<open>The whole call on a new compactor.\<close>

lemma demo_view_columns: "cold_eq two_buf b \<Longrightarrow> represents b demo_ring \<Longrightarrow> view_columns b = Some demo_cols"
proof -
  assume c: "cold_eq two_buf b" and r: "represents b demo_ring"
  let ?c = "\<lparr>col_name = [0x74, 0x73], col_dtype = DI64, col_elem_size = 8, col_doc = None\<rparr>"
  have n: "num_cols (header b) = length [?c]" using cold_eq_header(1) [OF c] by (simp add: two_props)
  have d: "\<forall>j<length [?c]. col_desc b j = desc_of ([?c] ! j)" using cold_eq_col_desc [OF c] two_props(2,4) by simp
  have ok: "\<And>c. c \<in> set [?c] \<Longrightarrow> length (col_name c) \<le> 54 \<and> utf8_ok (col_name c) \<and> col_elem_size c < 2 ^ 32" by simp
  have "table_schema b = Some \<lparr>cols = map (\<lambda>c. c\<lparr>col_doc := None\<rparr>) [?c], table_doc = None\<rparr>"
    by (rule table_schema_init [OF representsD(1) [OF r] n]) (use d ok in auto)
  then show ?thesis by (simp add: view_columns_def demo_cols_def)
qed

lemma demo_drain_view:
  "\<exists>b cp' b' w. represents b demo_ring \<and> num_chunks (header b) = 2 \<and>
    drain_view demo_xxh demo_pco demo_os (\<lambda>_. demo_env) [0x74] (compactor_new demo_store demo_config 0, [], b) = Some (Inr 1, cp', [], b') \<and>
    cp_current cp' = Some w \<and> length (sw_pages w) = 1"
proof -
  from demo_sealed obtain b where b: "represents b demo_ring" "num_chunks (header b) = 2" "lease_slots (header b) = 16"
    "chunk_state b 0 = chunk_state_code Sealed" "chunk_generation b 0 = 1" "table_dtypes b = [DI64]"
    "\<forall>k<16. lease_state (reader_lease b 0 k) = 0" "cold_eq two_buf b" by blast
  from demo_sealed_pin [OF b(1-3,7)] obtain it b1 pin where t: "try_rows demo_os b 0 = (Inr it, b1)" "it_pin it = Some pin" by blast
  let ?i = "instance_id (header b)"
  from demo_drain [OF b(1,2,4-6) t, of ?i] obtain cp' b' w where d:
    "drain_chunk demo_xxh demo_pco demo_os demo_env [0x74] demo_cols ?i 0 (demo_compactor ?i, [], b) = Some (Inr 1, cp', [], b')"
    "cp_current cp' = Some w" "length (sw_pages w) = 1" by blast
  have cl: "chunks_logical b = [0]"
    unfolding chunks_logical_rep [OF b(1)] by (simp add: ring_order_def demo_ring)
  have "drain_view demo_xxh demo_pco demo_os (\<lambda>_. demo_env) [0x74] (compactor_new demo_store demo_config 0, [], b) = Some (Inr 1, cp', [], b')"
    using d(1) by (simp add: drain_view_def demo_view_columns [OF b(8,1)] Let_def b(2) cl demo_compactor_def)
  then show ?thesis using b(1,2) d(2,3) by blast
qed

section \<open>All lease slots held\<close>

definition busy_os :: os where
  "busy_os = \<lparr>current_process_id = 7, process_exists = (\<lambda>p. True), process_start_time = (\<lambda>p. 0)\<rparr>"

definition hold_slots :: "buf \<Rightarrow> nat list \<Rightarrow> buf" where
  "hold_slots b ks = foldl (\<lambda>b k. store_state b 0 k (pack_lease 9 1)) b ks"

lemma held_slots:
  assumes "table_geom b" "0 < num_chunks (header b)" "\<forall>k\<in>set ks. k < lease_slots (header b)"
  shows "lease_frame b (hold_slots b ks) \<and>
    (\<forall>k<lease_slots (header b). k \<in> set ks \<longrightarrow> lease_state (reader_lease (hold_slots b ks) 0 k) = pack_lease 9 1)"
  using assms
proof (induction ks rule: rev_induct)
  case Nil
  then show ?case by (simp add: hold_slots_def lease_frame_refl)
next
  case (snoc k ks)
  let ?b = "hold_slots b ks"
  have ih: "lease_frame b ?b" "\<And>j. j < lease_slots (header b) \<Longrightarrow> j \<in> set ks \<Longrightarrow> lease_state (reader_lease ?b 0 j) = pack_lease 9 1"
    using snoc by auto
  have h: "header ?b = header b" by (rule lease_frame_header [OF snoc.prems(1) ih(1)])
  have g: "table_geom ?b" by (rule lease_frame_geom [OF snoc.prems(1) ih(1)])
  have k: "0 < num_chunks (header ?b)" "k < lease_slots (header ?b)" using snoc.prems h by simp_all
  have e: "hold_slots b (ks @ [k]) = store_state ?b 0 k (pack_lease 9 1)" by (simp add: hold_slots_def)
  have "lease_frame b (store_state ?b 0 k (pack_lease 9 1))"
    by (rule lease_frame_trans [OF snoc.prems(1) ih(1) lease_frame_store(1) [OF g k]])
  then show ?case
    using ih(2) reader_lease_store_state [OF g k k(1)] h by (auto simp: e)
qed

lemma demo_busy:
  "\<exists>b. table_geom b \<and> num_chunks (header b) = 2 \<and> chunk_state b 0 = chunk_state_code Sealed \<and> chunk_generation b 0 = 1 \<and>
    represents b demo_ring \<and> (\<forall>k<lease_slots (header b). held_elsewhere busy_os (reader_lease b 0 k))"
proof -
  from demo_sealed obtain b where b: "represents b demo_ring" "num_chunks (header b) = 2" "lease_slots (header b) = 16"
    "chunk_state b 0 = chunk_state_code Sealed" "chunk_generation b 0 = 1" by blast
  note r = representsD [OF b(1)]
  let ?b = "hold_slots b [0..<16]"
  have i: "0 < num_chunks (header b)" by (simp add: b)
  have hs: "lease_frame b ?b" "\<forall>k<16. lease_state (reader_lease ?b 0 k) = pack_lease 9 1"
    using held_slots [OF r(1) i, of "[0..<16]"] b(3) by auto
  have h: "header ?b = header b" by (rule lease_frame_header [OF r(1) hs(1)])
  have v: "chunk_view ?b 0 = chunk_view b 0" by (rule lease_frame_view [OF r(1) hs(1) i])
  have "lease_parts (pack_lease 9 1) = (9, 1)" "pack_lease 9 1 \<noteq> 0"
    by (simp_all add: lease_parts_def pack_lease_def)
  then have "\<forall>k<lease_slots (header ?b). held_elsewhere busy_os (reader_lease ?b 0 k)"
    using hs(2) by (simp add: h b(3) held_elsewhere_def lease_live_def busy_os_def process_instance_alive_def)
  then show ?thesis
    using lease_frame_geom [OF r(1) hs(1)] v b represents_lease_frame [OF b(1) hs(1)] h
      cold_eq_chunk_start [OF lease_frame_cold [OF r(1) hs(1)], of 0]
    by (intro exI [of _ ?b]) (simp add: chunk_state_def chunk_generation_def chunk_view_def)
qed


section \<open>Files in the directory\<close>

lemma from_mmap_path:
  assumes "from_mmap xxh b path = Inr r"
  shows "from_mmap xxh b path' = Inr (r\<lparr>sr_path := path'\<rparr>)"
proof -
  obtain h where h: "segment_decode xxh b = Inr h" using assms by (auto simp: from_mmap_def split: sum.splits)
  obtain dir where dir: "(if is_sealed h then
      (if sh_footer_off h = 0 then Inl ''sealed MEMC segment has no footer'' else load_footer xxh b h) else Inr []) = Inr dir"
    using assms unfolding from_mmap_def h sum.case by (auto split: sum.splits)
  obtain tables pages where sc: "scan_blocks xxh b h (is_sealed h) (Map.empty, dir) = Inr (tables, pages)"
    using assms unfolding from_mmap_def h sum.case dir by (auto split: sum.splits)
  show ?thesis
    using assms unfolding from_mmap_def h sum.case dir sc prod.case by auto
qed

lemma demo_cold_file:
  "\<exists>f. length f < 2 ^ 32 \<and> f \<noteq> [] \<and> (\<forall>path. \<exists>r. from_mmap demo_xxh f path = Inr r \<and> sr_is_sealed r \<and>
    List.map_filter (page_source r) (sr_pages r) = [(([0x74], 9), 0, 3)])"
proof -
  from demo_run obtain w where w: "seg_run demo_xxh demo_pco demo_segment demo_ops = ([Inr (Some 1), Inr None], w)"
    "length (sw_file w) = 320" "length (sw_pages w) = 1" "sw_path w = ''x''" by blast
  obtain f where f: "seal demo_xxh seg_os 0 ok_io None True w = (Inr ''x'', f)" "length f < 2 ^ 32" "f \<noteq> []"
    using w(2-4) by (auto simp: seal_def write_all_def ok_io_def Let_def footer_length bsplice_def)
  have n: "length demo_ops + 1 < 2 ^ 32" "length (sw_pages w) * 64 < 2 ^ 32" "length f < 2 ^ 64"
    using f(2) by (simp_all add: demo_ops_def w(3))
  have log: "seg_log demo_ops [Inr (Some 1), Inr None] = [demo_table, demo_page]"
    by (simp add: seg_log_def demo_ops_def demo_table_def demo_page_def page_rows_def log_tables_def demo_ts_col
        page_ts_range_def ts_min_def ts_max_def TS_MIN_INIT_def TS_MAX_INIT_def)
  have rep: "segment_rep demo_xxh demo_pco w [demo_table, demo_page]"
    using seg_history_rep(1) [OF demo_create w(1) _ demo_ops_ok n(1)] by (simp add: log)
  from sealed_segment [OF rep demo_pco_lossless n(2) f(1) n(3)] obtain r where r: "from_mmap demo_xxh f ''x'' = Inr r"
    "reads_log demo_xxh demo_pco r [demo_table, demo_page]" "sr_is_sealed r" by blast
  have pg: "sr_pages r = log_pages demo_pco 64 [demo_table, demo_page]" "sr_tables r = log_tables [demo_table, demo_page]"
    using r(2) unfolding reads_log_def by blast+
  have src: "List.map_filter (page_source (r\<lparr>sr_path := path\<rparr>)) (sr_pages (r\<lparr>sr_path := path\<rparr>)) = [(([0x74], 9), 0, 3)]" for path
    by (simp add: pg log_tables_def demo_table_def demo_page_def List.map_filter_simps page_source_def table_def_def SOURCE_CHUNK_NONE_def)
  have "\<exists>r. from_mmap demo_xxh f path = Inr r \<and> sr_is_sealed r \<and>
      List.map_filter (page_source r) (sr_pages r) = [(([0x74], 9), 0, 3)]" for path
    using from_mmap_path [OF r(1), of path] src [of path] r(3) by (auto simp: sr_is_sealed_def)
  then show ?thesis using f(2,3) by blast
qed

text \<open>A file left by a crash in \<open>seal\<close>.\<close>

lemma demo_crashed_file:
  "\<exists>f e. (\<forall>path. from_mmap demo_xxh f path = Inl e) \<and> \<not> legacy_segment_is_sealed demo_xxh f"
proof -
  from demo_run obtain w where w: "seg_run demo_xxh demo_pco demo_segment demo_ops = ([Inr (Some 1), Inr None], w)"
    "length (sw_file w) = 320" "length (sw_pages w) = 1" by blast
  have n: "length demo_ops + 1 < 2 ^ 32" by (simp add: demo_ops_def)
  have k: "80 \<le> length (footer_bytes demo_xxh (sw_pages w))" "length (sw_file w) + 80 < 2 ^ 64"
    by (simp_all add: footer_length w)
  let ?f = "sw_file w @ take 80 (footer_bytes demo_xxh (sw_pages w))"
  have rep: "segment_rep demo_xxh demo_pco w (seg_log demo_ops [Inr (Some 1), Inr None])"
    using seg_history_rep(1) [OF demo_create w(1) _ demo_ops_ok n] by simp
  have e: "from_mmap demo_xxh ?f path = Inl ''MEMC block header invalid''" for path
    using crash_in_footer [OF rep demo_pco_lossless k, of path] by simp
  from segment_repD(1) [OF rep] obtain h rest where "sw_file w = segment_encode demo_xxh h @ rest" by blast
  then have "\<not> legacy_segment_is_sealed demo_xxh ?f" using current_version_not_legacy by simp
  then show ?thesis using e by blast
qed

definition good_calls :: fs_calls where
  "good_calls = \<lparr>fc_read_dir = True, fc_modified = (\<lambda>_. True), fc_open = (\<lambda>_. True), fc_size = (\<lambda>_. True),
     fc_stat = (\<lambda>_. Done), fc_remove = (\<lambda>_. Done)\<rparr>"

definition two_files :: "buf \<Rightarrow> buf \<Rightarrow> segment_file list" where
  "two_files f g = [\<lparr>sf_name = ''a.memc'', sf_bytes = f, sf_mtime = 0\<rparr>, \<lparr>sf_name = ''b.memc'', sf_bytes = g, sf_mtime = 1\<rparr>]"

lemma two_files_paths: "segment_paths_checked good_calls (two_files f g) = Inr (two_files f g)"
  by (simp add: segment_paths_checked_def good_calls_def two_files_def file_extension_def rsplit_once_def SEGMENT_EXT_def
      sort_key_def)

lemma no_files_paths: "segment_paths_checked good_calls [] = Inr []"
  by (simp add: segment_paths_checked_def good_calls_def)

text \<open>A new compactor over two files that hold generation 3 of chunk 0, and one over no file.\<close>

lemma demo_primed:
  "\<exists>f cp r page. prime_from_cold demo_xxh good_calls (two_files f f) (compactor_new demo_store demo_config 0) = (Inr (), cp) \<and>
    foldl max 0 (cold_gens demo_xxh (two_files f f) ([0x74], 9) 0) = 3 \<and>
    from_mmap demo_xxh f ''a.memc'' = Inr r \<and> page \<in> set (sr_pages r) \<and> page_source r page = Some (([0x74], 9), 0, 3)"
proof -
  let ?c = "compactor_new demo_store demo_config 0"
  from demo_cold_file obtain f where f: "\<forall>path. \<exists>r. from_mmap demo_xxh f path = Inr r \<and> sr_is_sealed r \<and>
       List.map_filter (page_source r) (sr_pages r) = [(([0x74], 9), 0, 3)]" by blast
  from f obtain ra where ra: "from_mmap demo_xxh f ''a.memc'' = Inr ra" "List.map_filter (page_source ra) (sr_pages ra) = [(([0x74], 9), 0, 3)]"
    by blast
  from f obtain rb where rb: "from_mmap demo_xxh f ''b.memc'' = Inr rb" "List.map_filter (page_source rb) (sr_pages rb) = [(([0x74], 9), 0, 3)]"
    by blast
  obtain r cp where p: "prime_segments demo_xxh good_calls (two_files f f) ?c = (r, cp)" by fastforce
  have "r = Inr ()" using p ra(1) rb(1) by (auto simp: two_files_def good_calls_def)
  then have pr: "prime_from_cold demo_xxh good_calls (two_files f f) ?c = (Inr (), cp)"
    using p by (simp add: prime_from_cold_def two_files_paths)
  have g: "foldl max 0 (cold_gens demo_xxh (two_files f f) ([0x74], 9) 0) = 3"
    by (simp add: cold_gens_def two_files_def ra rb)
  have "(([0x74], 9), 0, 3) \<in> set (List.map_filter (page_source ra) (sr_pages ra))" by (simp add: ra(2))
  then obtain page where "page \<in> set (sr_pages ra)" "page_source ra page = Some (([0x74], 9), 0, 3)"
    by (auto simp: List.map_filter_def)
  then show ?thesis using pr g ra(1) by blast
qed

lemma demo_fresh_drain:
  "\<exists>b cp' b' res cp'' dir3. drainable demo_pco demo_os demo_env [0x74] demo_cols b demo_ring 0 \<and>
    chunk_generation b 0 = 1 \<and> table_dtypes b = [DI64] \<and>
    drain_chunk demo_xxh demo_pco demo_os demo_env [0x74] demo_cols 9 0
      (prepare_progress (compactor_new demo_store demo_config 0) [0x74] 9 2, [], b) = Some (Inr 1, cp', [], b') \<and>
    flush demo_xxh demo_os demo_env cp' [] = (Inr res, cp'', dir3) \<and> length (sf_bytes (last dir3)) < 2 ^ 32"
proof -
  from demo_sealed obtain b where b: "represents b demo_ring" "num_chunks (header b) = 2" "lease_slots (header b) = 16"
    "chunk_state b 0 = chunk_state_code Sealed" "chunk_generation b 0 = 1" "table_dtypes b = [DI64]"
    "\<forall>k<16. lease_state (reader_lease b 0 k) = 0" by blast
  from demo_sealed_pin [OF b(1-3,7)] obtain it b1 pin where it: "try_rows demo_os b 0 = (Inr it, b1)" "it_pin it = Some pin" by blast
  from demo_drain [OF b(1,2,4-6) it, of 9] demo_drainable [OF b(1,2,4,6) it] b(5,6)
  show ?thesis unfolding demo_compactor_def by blast
qed

end
