(* ===== verification/Cluster_Registry.thy ===== *)
theory Cluster_Registry
  imports Prelude "HOL-Library.Char_ord" "HOL-Library.List_Lexorder"
begin

text \<open>
  The cluster registry: \<open>Node\<close> and \<open>Cluster\<close> of \<open>probing/proto/src/protocol/cluster.rs\<close> and the
  operations of \<open>probing/core/src/core/cluster.rs\<close> on the process-wide registry. A \<open>HashMap\<close> is a
  partial map; the order in which it is iterated, which Rust leaves open, is the argument \<open>order\<close>,
  a list of the keys. The wall clock and the environment variables are arguments too. Time stamps
  are microseconds below \<open>2^64\<close>.
\<close>

section \<open>Nodes and the registry\<close>

record Node =
  nd_host :: string
  nd_addr :: string
  nd_local_rank :: "i32 option"
  nd_rank :: "i32 option"
  nd_world_size :: "i32 option"
  nd_group_rank :: "i32 option"
  nd_group_world_size :: "i32 option"
  nd_role_name :: "string option"
  nd_role_rank :: "i32 option"
  nd_role_world_size :: "i32 option"
  nd_role :: "string option"
  nd_status :: "string option"
  nd_timestamp :: nat

record Cluster =
  cl_nodes :: "string \<rightharpoonup> Node"
  cl_rank_index :: "i32 \<rightharpoonup> string"

definition cluster_default :: Cluster where
  "cluster_default = \<lparr>cl_nodes = Map.empty, cl_rank_index = Map.empty\<rparr>"

definition node_key :: "Node \<Rightarrow> string" where
  "node_key n = nd_host n @ '':'' @ nd_addr n"

text \<open>\<open>put\<close>, in its three steps: drop the index of a changed rank, move the rank to the key, store the node.\<close>

definition unindex_previous :: "string \<Rightarrow> Node \<Rightarrow> Cluster \<Rightarrow> Cluster" where
  "unindex_previous key n c =
    (case cl_nodes c key of
       None \<Rightarrow> c
     | Some previous \<Rightarrow>
         if nd_rank previous \<noteq> nd_rank n
         then (case nd_rank previous of
             None \<Rightarrow> c
           | Some previous_rank \<Rightarrow>
               if cl_rank_index c previous_rank = Some key
               then c\<lparr>cl_rank_index := (cl_rank_index c)(previous_rank := None)\<rparr> else c)
         else c)"

definition index_rank :: "string \<Rightarrow> Node \<Rightarrow> Cluster \<Rightarrow> Cluster" where
  "index_rank key n c =
    (case nd_rank n of
       None \<Rightarrow> c
     | Some rank \<Rightarrow>
         (let c' = c\<lparr>cl_rank_index := (cl_rank_index c)(rank \<mapsto> key)\<rparr> in
          case cl_rank_index c rank of
            None \<Rightarrow> c'
          | Some previous_key \<Rightarrow>
              if previous_key \<noteq> key then c'\<lparr>cl_nodes := (cl_nodes c')(previous_key := None)\<rparr> else c'))"

definition cluster_put :: "Node \<Rightarrow> Cluster \<Rightarrow> Cluster" where
  "cluster_put n c =
    (let key = node_key n;
         c = index_rank key n (unindex_previous key n c)
     in c\<lparr>cl_nodes := (cl_nodes c)(key \<mapsto> n)\<rparr>)"

definition cluster_get :: "i32 \<Rightarrow> Cluster \<Rightarrow> Node option" where
  "cluster_get rank c = Option.bind (cl_rank_index c rank) (cl_nodes c)"

definition cluster_get_by_addr :: "string \<Rightarrow> string \<Rightarrow> Cluster \<Rightarrow> Node option" where
  "cluster_get_by_addr host addr c = cl_nodes c (host @ '':'' @ addr)"

definition cluster_remove :: "i32 \<Rightarrow> Cluster \<Rightarrow> Node option \<times> Cluster" where
  "cluster_remove rank c =
    (case cl_rank_index c rank of
       None \<Rightarrow> (None, c)
     | Some key \<Rightarrow>
         (cl_nodes c key, c\<lparr>cl_rank_index := (cl_rank_index c)(rank := None), cl_nodes := (cl_nodes c)(key := None)\<rparr>))"

definition remove_by_addr :: "string \<Rightarrow> string \<Rightarrow> Cluster \<Rightarrow> Node option \<times> Cluster" where
  "remove_by_addr host addr c =
    (let key = host @ '':'' @ addr in
     case cl_nodes c key of
       None \<Rightarrow> (None, c)
     | Some n \<Rightarrow>
         (let c' = c\<lparr>cl_nodes := (cl_nodes c)(key := None)\<rparr> in
          (Some n, case nd_rank n of
             None \<Rightarrow> c'
           | Some rank \<Rightarrow> c'\<lparr>cl_rank_index := (cl_rank_index c')(rank := None)\<rparr>)))"

definition cluster_list :: "string list \<Rightarrow> Cluster \<Rightarrow> Node list" where
  "cluster_list order c = List.map_filter (cl_nodes c) order"

section \<open>Updates and heartbeats\<close>

definition update_node :: "nat \<Rightarrow> Node \<Rightarrow> Cluster \<Rightarrow> Cluster" where
  "update_node now n c =
    (let n = n\<lparr>nd_timestamp := now\<rparr>;
         n = (if nd_status n = None then n\<lparr>nd_status := Some ''running''\<rparr> else n)
     in cluster_put n c)"

text \<open>Each node comes with the reading of the clock when it is stored.\<close>

definition update_nodes :: "(nat \<times> Node) list \<Rightarrow> Cluster \<Rightarrow> Cluster" where
  "update_nodes ns c = foldl (\<lambda>c (now, n). update_node now n c) c ns"

definition stale_threshold_micros :: "u64 option \<Rightarrow> u64" where
  "stale_threshold_micros stale_sec = (case stale_sec of None \<Rightarrow> 25 | Some s \<Rightarrow> s) * 1000000"

definition saturating_mul2 :: "nat \<Rightarrow> nat" where
  "saturating_mul2 n = min (2 ^ 64 - 1) (n * 2)"

definition node_stale :: "nat \<Rightarrow> nat \<Rightarrow> Node \<Rightarrow> bool" where
  "node_stale threshold now n \<longleftrightarrow>
     nd_timestamp n \<noteq> 0 \<and> \<not> now - nd_timestamp n \<le> threshold \<and> nd_status n \<noteq> Some ''dead''"

definition mark_dead :: "string list \<Rightarrow> Cluster \<Rightarrow> Cluster" where
  "mark_dead keys c = c\<lparr>cl_nodes := (\<lambda>k. if k \<in> set keys
     then map_option (\<lambda>n. n\<lparr>nd_status := Some ''dead''\<rparr>) (cl_nodes c k) else cl_nodes c k)\<rparr>"

definition node_expired :: "nat \<Rightarrow> nat \<Rightarrow> Node \<Rightarrow> bool" where
  "node_expired threshold now n \<longleftrightarrow> nd_status n = Some ''dead'' \<and> saturating_mul2 threshold < now - nd_timestamp n"

definition expire_key :: "Cluster \<Rightarrow> string \<Rightarrow> Cluster" where
  "expire_key c key =
    (case cl_nodes c key of
       None \<Rightarrow> c
     | Some n \<Rightarrow>
         (let c' = c\<lparr>cl_nodes := (cl_nodes c)(key := None)\<rparr> in
          case nd_rank n of
            None \<Rightarrow> c'
          | Some rank \<Rightarrow>
              if cl_rank_index c' rank = Some key
              then c'\<lparr>cl_rank_index := (cl_rank_index c')(rank := None)\<rparr> else c'))"

definition keys_where :: "(Node \<Rightarrow> bool) \<Rightarrow> string list \<Rightarrow> Cluster \<Rightarrow> string list" where
  "keys_where P order c = filter (\<lambda>k. case cl_nodes c k of None \<Rightarrow> False | Some n \<Rightarrow> P n) order"

definition sweep_stale_nodes :: "string list \<Rightarrow> nat \<Rightarrow> nat \<Rightarrow> Cluster \<Rightarrow> (string list \<times> string list) \<times> Cluster" where
  "sweep_stale_nodes order threshold now c =
    (let newly_dead = keys_where (node_stale threshold now) order c;
         c = mark_dead newly_dead c;
         expired = filter (\<lambda>k. k \<notin> set newly_dead) (keys_where (node_expired threshold now) order c)
     in ((newly_dead, expired), foldl expire_key c expired))"

section \<open>Reports\<close>

record NodeReportResponse =
  nr_ok :: bool
  nr_version :: u64
  nr_nodes :: "Node list"
  nr_removed :: "string list"

record cluster_state =
  cs_cluster :: Cluster
  cs_version :: u64

definition delta_nodes :: "Node list \<Rightarrow> string list \<Rightarrow> Cluster \<Rightarrow> Node list" where
  "delta_nodes incoming removed c =
     map (\<lambda>n. case cl_nodes c (node_key n) of Some stored \<Rightarrow> stored | None \<Rightarrow> n) incoming @
     List.map_filter (cl_nodes c) removed"

definition replaced_node_keys :: "Node list \<Rightarrow> Cluster \<Rightarrow> string list" where
  "replaced_node_keys incoming c = List.map_filter (\<lambda>n. do {
      rank \<leftarrow> nd_rank n;
      previous \<leftarrow> cluster_get rank c;
      (if node_key previous \<noteq> node_key n then Some (node_key previous) else None) }) incoming"

text \<open>\<open>sort\<close> and \<open>dedup\<close>: the lexicographic order of the bytes, then one of each run of equal keys.\<close>

definition apply_node_report ::
  "string list \<Rightarrow> nat \<Rightarrow> nat \<Rightarrow> (nat \<times> Node) list \<Rightarrow> u64 \<Rightarrow> cluster_state \<Rightarrow> NodeReportResponse \<times> cluster_state" where
  "apply_node_report order threshold now incoming seen_version st =
    (let version_before = cs_version st;
         nodes = map snd incoming;
         replaced = replaced_node_keys nodes (cs_cluster st);
         c = update_nodes incoming (cs_cluster st);
         ((newly_dead, expired), c) = sweep_stale_nodes order threshold now c;
         removed = remdups_adj (sort (replaced @ expired));
         changed = (nodes \<noteq> [] \<or> newly_dead \<noteq> [] \<or> removed \<noteq> []);
         version = (if changed then cs_version st + 1 else version_before);
         reply = (if version_before \<le> seen_version \<and> 0 < seen_version then delta_nodes nodes newly_dead c
                  else if version_before \<le> seen_version
                    then (if changed then delta_nodes nodes newly_dead c else [])
                  else [])
     in (\<lparr>nr_ok = True, nr_version = version, nr_nodes = reply, nr_removed = removed\<rparr>,
         \<lparr>cs_cluster = c, cs_version = version\<rparr>))"

text \<open>\<open>splitn(2, ':')\<close>: the part before the first colon and the rest, when there is a colon.\<close>

definition split_key :: "string \<Rightarrow> (string \<times> string) option" where
  "split_key key =
    (if CHR '':'' \<in> set key
     then Some (takeWhile (\<lambda>x. x \<noteq> CHR '':'') key, drop 1 (dropWhile (\<lambda>x. x \<noteq> CHR '':'') key)) else None)"

definition remove_key :: "Cluster \<Rightarrow> string \<Rightarrow> Cluster" where
  "remove_key c key = (case split_key key of None \<Rightarrow> c | Some (host, addr) \<Rightarrow> snd (remove_by_addr host addr c))"

definition apply_snapshot_delta :: "(nat \<times> Node) list \<Rightarrow> string list \<Rightarrow> u64 \<Rightarrow> cluster_state \<Rightarrow> cluster_state" where
  "apply_snapshot_delta nodes removed version st =
     \<lparr>cs_cluster = foldl remove_key (update_nodes nodes (cs_cluster st)) removed, cs_version = version\<rparr>"

section \<open>Listing\<close>

definition get_nodes :: "string list \<Rightarrow> Cluster \<Rightarrow> Node list" where
  "get_nodes order c =
     sort_key (\<lambda>n. case nd_rank n of Some r \<Rightarrow> [0, sint r] | None \<Rightarrow> (1::int) # map of_char (nd_addr n)) (cluster_list order c)"

definition get_nodes_page :: "string list \<Rightarrow> usize \<Rightarrow> usize \<Rightarrow> u64 option \<Rightarrow> cluster_state \<Rightarrow> u64 \<times> usize \<times> Node list" where
  "get_nodes_page order offset limit since_version st =
    (if (case since_version of None \<Rightarrow> False | Some v \<Rightarrow> cs_version st \<le> v)
     then (cs_version st, length (cluster_list order (cs_cluster st)), [])
     else (let all = get_nodes order (cs_cluster st) in (cs_version st, length all, take limit (drop offset all))))"

definition is_node_alive :: "Node \<Rightarrow> bool" where
  "is_node_alive n \<longleftrightarrow> nd_status n \<noteq> Some ''dead''"

text \<open>The loop of \<open>fetch_nodes_blocking\<close> against a server whose registry does not change; \<open>fuel\<close> bounds its turns.\<close>

fun fetch_loop :: "nat \<Rightarrow> string list \<Rightarrow> usize \<Rightarrow> cluster_state \<Rightarrow> usize \<Rightarrow> Node list \<Rightarrow> Node list option" where
  "fetch_loop 0 order page_size st offset acc = None"
| "fetch_loop (Suc fuel) order page_size st offset acc =
    (let (_, total, nodes) = get_nodes_page order offset (min page_size 10000) None st;
         all = acc @ nodes
     in if total \<le> length all \<or> nodes = [] then Some all
        else fetch_loop fuel order page_size st (min (2 ^ 64 - 1) (offset + page_size)) all)"

definition fetch_nodes :: "nat \<Rightarrow> string list \<Rightarrow> usize \<Rightarrow> cluster_state \<Rightarrow> Node list option" where
  "fetch_nodes fuel order page_size st = fetch_loop fuel order page_size st 0 []"

end
