(* ===== verification/Dataframe.thy ===== *)
theory Dataframe
  imports Prelude
begin

text \<open>
  Query results: the elements, typed columns and data frames of \<open>probing/proto/src/types/\<close>
  (\<open>basic.rs\<close>, \<open>dataframe.rs\<close>) and the merge of the frames of several processes (\<open>merge.rs\<close>).
  Floats are their bits.
\<close>

section \<open>Elements and columns\<close>

datatype Ele = EleNil | EleBOOL bool | EleI32 i32 | EleI64 i64 | EleF32 u32 | EleF64 u64
  | EleText string | EleUrl string | EleDataTime u64

datatype Seq = SeqNil | SeqBOOL "bool list" | SeqI32 "i32 list" | SeqI64 "i64 list" | SeqF32 "u32 list"
  | SeqF64 "u64 list" | SeqText "string list" | SeqDateTime "u64 list"

datatype EleType = TypeNil | TypeBOOL | TypeI32 | TypeI64 | TypeF32 | TypeF64 | TypeText | TypeUrl | TypeDataTime

datatype ProtoError = WrongElementType | WrongSequenceType | TypeMismatch EleType EleType | InvalidValueDateType
  | RawPageTypeExpected | CapacityExceeded | CompressError string | SerializationError string
  | DeserializationError string | VersionMismatch string string | InvalidNodeConfig string | NodeNotFound string

fun seq_len :: "Seq \<Rightarrow> usize" where
  "seq_len (SeqBOOL xs) = length xs"
| "seq_len (SeqI32 xs) = length xs"
| "seq_len (SeqI64 xs) = length xs"
| "seq_len (SeqF32 xs) = length xs"
| "seq_len (SeqF64 xs) = length xs"
| "seq_len (SeqText xs) = length xs"
| "seq_len (SeqDateTime xs) = length xs"
| "seq_len SeqNil = 0"

definition vec_get :: "('a \<Rightarrow> Ele) \<Rightarrow> 'a list \<Rightarrow> usize \<Rightarrow> Ele" where
  "vec_get f xs i = (if i < length xs then f (xs ! i) else EleNil)"

fun seq_get :: "Seq \<Rightarrow> usize \<Rightarrow> Ele" where
  "seq_get (SeqBOOL xs) i = vec_get EleBOOL xs i"
| "seq_get (SeqI32 xs) i = vec_get EleI32 xs i"
| "seq_get (SeqI64 xs) i = vec_get EleI64 xs i"
| "seq_get (SeqF32 xs) i = vec_get EleF32 xs i"
| "seq_get (SeqF64 xs) i = vec_get EleF64 xs i"
| "seq_get (SeqText xs) i = vec_get EleText xs i"
| "seq_get (SeqDateTime xs) i = vec_get EleDataTime xs i"
| "seq_get SeqNil i = EleNil"

fun seq_append :: "Seq \<Rightarrow> Ele \<Rightarrow> ProtoError + Seq" where
  "seq_append SeqNil (EleI32 x) = Inr (SeqI32 [x])"
| "seq_append SeqNil (EleI64 x) = Inr (SeqI64 [x])"
| "seq_append SeqNil (EleF32 x) = Inr (SeqF32 [x])"
| "seq_append SeqNil (EleF64 x) = Inr (SeqF64 [x])"
| "seq_append SeqNil (EleText x) = Inr (SeqText [x])"
| "seq_append SeqNil (EleDataTime x) = Inr (SeqDateTime [x])"
| "seq_append SeqNil EleNil = Inr SeqNil"
| "seq_append (SeqI32 xs) (EleI32 x) = Inr (SeqI32 (xs @ [x]))"
| "seq_append (SeqI64 xs) (EleI64 x) = Inr (SeqI64 (xs @ [x]))"
| "seq_append (SeqF32 xs) (EleF32 x) = Inr (SeqF32 (xs @ [x]))"
| "seq_append (SeqF64 xs) (EleF64 x) = Inr (SeqF64 (xs @ [x]))"
| "seq_append (SeqText xs) (EleText x) = Inr (SeqText (xs @ [x]))"
| "seq_append (SeqDateTime xs) (EleDataTime x) = Inr (SeqDateTime (xs @ [x]))"
| "seq_append _ _ = Inl WrongSequenceType"

section \<open>Frames\<close>

record DataFrame =
  df_names :: "string list"
  df_cols :: "Seq list"
  df_size :: nat

definition df_default :: DataFrame where
  "df_default = \<lparr>df_names = [], df_cols = [], df_size = 0\<rparr>"

definition df_row_count :: "DataFrame \<Rightarrow> usize" where
  "df_row_count d = foldr max (map seq_len (df_cols d)) 0"

definition df_is_empty :: "DataFrame \<Rightarrow> bool" where
  "df_is_empty d \<longleftrightarrow> df_row_count d = 0"

definition df_row :: "DataFrame \<Rightarrow> usize \<Rightarrow> Ele list" where
  "df_row d r = map (\<lambda>c. seq_get c r) (df_cols d)"

definition df_iter :: "DataFrame \<Rightarrow> Ele list list" where
  "df_iter d = map (df_row d) [0..<df_row_count d]"

fun position_of :: "'a \<Rightarrow> 'a list \<Rightarrow> nat option" where
  "position_of x [] = None"
| "position_of x (y # ys) = (if y = x then Some 0 else map_option Suc (position_of x ys))"

section \<open>Merging\<close>

definition add_column :: "DataFrame \<Rightarrow> string \<Rightarrow> DataFrame" where
  "add_column base name =
    (if name \<in> set (df_names base) then base
     else base\<lparr>df_names := df_names base @ [name],
               df_cols := df_cols base @ [SeqText (replicate (df_row_count base) [])]\<rparr>)"

definition source_ele :: "DataFrame \<Rightarrow> string \<Rightarrow> usize \<Rightarrow> Ele" where
  "source_ele other name r =
    (case Option.bind (position_of name (df_names other))
       (\<lambda>i. if i < length (df_cols other) then Some (seq_get (df_cols other ! i) r) else None) of
       None \<Rightarrow> EleNil
     | Some e \<Rightarrow> e)"

definition append_column :: "DataFrame \<Rightarrow> string \<Rightarrow> Seq \<Rightarrow> Seq" where
  "append_column other name col =
     foldl (\<lambda>col r. case seq_append col (source_ele other name r) of Inl _ \<Rightarrow> col | Inr col' \<Rightarrow> col')
       col [0..<df_row_count other]"

definition append_columns :: "DataFrame \<Rightarrow> DataFrame \<Rightarrow> DataFrame" where
  "append_columns base other =
     base\<lparr>df_cols := foldl (\<lambda>cols (i, name). if i < length cols then cols[i := append_column other name (cols ! i)] else cols)
        (df_cols base) (zip [0..<length (df_names base)] (df_names base))\<rparr>"

definition append_dataframe :: "DataFrame \<Rightarrow> DataFrame \<Rightarrow> DataFrame" where
  "append_dataframe base other =
    (if df_is_empty other then base
     else if df_is_empty base then other
     else (let base = append_columns (foldl add_column base (df_names other)) other
           in base\<lparr>df_size := df_row_count base\<rparr>))"

definition merge_dataframes :: "DataFrame list \<Rightarrow> DataFrame" where
  "merge_dataframes parts =
    (let out = foldl (\<lambda>out d. if df_is_empty d then out else if df_is_empty out then d else append_dataframe out d)
       df_default parts
     in out\<lparr>df_size := df_row_count out\<rparr>)"

section \<open>Columns as lists of elements\<close>

definition seq_elems :: "Seq \<Rightarrow> Ele list" where
  "seq_elems c = map (seq_get c) [0..<seq_len c]"

lemma map_vec_get: "map (vec_get f xs) [0..<length xs] = map f xs"
  by (rule nth_equalityI) (auto simp: vec_get_def)

lemma seq_elems_simps [simp]:
  "seq_elems SeqNil = []" "seq_elems (SeqBOOL bs) = map EleBOOL bs" "seq_elems (SeqI32 is) = map EleI32 is"
  "seq_elems (SeqI64 ls) = map EleI64 ls" "seq_elems (SeqF32 fs) = map EleF32 fs" "seq_elems (SeqF64 ds) = map EleF64 ds"
  "seq_elems (SeqText ts) = map EleText ts" "seq_elems (SeqDateTime us) = map EleDataTime us"
  by (simp_all add: seq_elems_def map_vec_get cong: map_cong)

lemma length_seq_elems [simp]: "length (seq_elems c) = seq_len c"
  by (simp add: seq_elems_def)

lemma seq_get_elems: "seq_get c r = (if r < seq_len c then seq_elems c ! r else EleNil)"
  by (cases c) (auto simp: vec_get_def)

text \<open>The kind of a column, and whether an element may be pushed to a column of that kind.\<close>

fun seq_kind :: "Seq \<Rightarrow> nat" where
  "seq_kind SeqNil = 0" | "seq_kind (SeqBOOL _) = 1" | "seq_kind (SeqI32 _) = 2" | "seq_kind (SeqI64 _) = 3"
| "seq_kind (SeqF32 _) = 4" | "seq_kind (SeqF64 _) = 5" | "seq_kind (SeqText _) = 6" | "seq_kind (SeqDateTime _) = 7"

definition pushable :: "Seq \<Rightarrow> bool" where
  "pushable c \<longleftrightarrow> seq_kind c \<notin> {0, 1}"

lemma seq_append_same:
  assumes "pushable c" "seq_kind d = seq_kind c" "e \<in> set (seq_elems d)"
  shows "\<exists>c'. seq_append c e = Inr c' \<and> seq_elems c' = seq_elems c @ [e] \<and> seq_kind c' = seq_kind c"
  using assms by (cases c; cases d) (auto simp: pushable_def)

lemma seq_append_Nil: "seq_kind c \<noteq> 0 \<Longrightarrow> seq_append c EleNil = Inl WrongSequenceType"
  by (cases c) auto

lemma seq_push_all:
  assumes "pushable c" "seq_kind d = seq_kind c" "set es \<subseteq> set (seq_elems d)"
  shows "let c' = foldl (\<lambda>col e. case seq_append col e of Inl _ \<Rightarrow> col | Inr col' \<Rightarrow> col') c es in
    seq_elems c' = seq_elems c @ es \<and> seq_kind c' = seq_kind c"
  using assms
proof (induction es arbitrary: c)
  case (Cons e es)
  obtain c' where c': "seq_append c e = Inr c'" "seq_elems c' = seq_elems c @ [e]" "seq_kind c' = seq_kind c"
    using seq_append_same [of c d e] Cons.prems by auto
  have "pushable c'" "seq_kind d = seq_kind c'" using Cons.prems c'(3) by (auto simp: pushable_def)
  from Cons.IH [OF this] Cons.prems(3) show ?case by (simp add: c' Let_def)
qed simp

lemma foldl_map_arg: "foldl (\<lambda>a r. f a (g r)) a rs = foldl f a (map g rs)"
  by (induction rs arbitrary: a) auto

lemma position_of_None: "position_of x ys = None \<longleftrightarrow> x \<notin> set ys"
  by (induction ys) auto

lemma position_of_nth: "distinct ys \<Longrightarrow> i < length ys \<Longrightarrow> position_of (ys ! i) ys = Some i"
  by (induction ys arbitrary: i) (auto simp: nth_Cons split: nat.split)

lemma append_column_same:
  assumes "pushable c" "seq_kind d = seq_kind c" "df_row_count other = seq_len d"
    and "\<And>r. r < seq_len d \<Longrightarrow> source_ele other name r = seq_elems d ! r"
  shows "seq_elems (append_column other name c) = seq_elems c @ seq_elems d"
    "seq_kind (append_column other name c) = seq_kind c"
proof -
  have "map (source_ele other name) [0..<df_row_count other] = seq_elems d"
    using assms(3,4) by (intro nth_equalityI) auto
  then have "append_column other name c = foldl (\<lambda>col e. case seq_append col e of Inl _ \<Rightarrow> col | Inr col' \<Rightarrow> col') c (seq_elems d)"
    unfolding append_column_def
    by (metis (no_types, lifting) foldl_map_arg foldl_cong)
  then show "seq_elems (append_column other name c) = seq_elems c @ seq_elems d"
    "seq_kind (append_column other name c) = seq_kind c"
    using seq_push_all [OF assms(1,2), of "seq_elems d"] by (simp_all add: Let_def)
qed

lemma append_column_fails:
  assumes "\<And>r. r < df_row_count other \<Longrightarrow> seq_append c (source_ele other name r) = Inl WrongSequenceType"
  shows "append_column other name c = c"
proof -
  have "foldl (\<lambda>col r. case seq_append col (source_ele other name r) of Inl _ \<Rightarrow> col | Inr col' \<Rightarrow> col') c rs = c"
    if "set rs \<subseteq> {..<df_row_count other}" for rs
    using that by (induction rs) (auto simp: assms)
  then show ?thesis by (simp add: append_column_def lessThan_atLeast0)
qed

lemma append_column_missing:
  assumes "seq_kind c \<noteq> 0" "name \<notin> set (df_names other)"
  shows "append_column other name c = c"
  using assms by (intro append_column_fails) (simp add: source_ele_def position_of_None [THEN iffD2] seq_append_Nil)

section \<open>Frames of one schema\<close>

definition frame_of :: "string list \<Rightarrow> nat list \<Rightarrow> DataFrame \<Rightarrow> bool" where
  "frame_of names kinds d \<longleftrightarrow> df_names d = names \<and> map seq_kind (df_cols d) = kinds \<and>
     (\<forall>c \<in> set (df_cols d). seq_len c = df_row_count d)"

definition schema_ok :: "string list \<Rightarrow> nat list \<Rightarrow> bool" where
  "schema_ok names kinds \<longleftrightarrow> distinct names \<and> names \<noteq> [] \<and> length kinds = length names \<and> set kinds \<inter> {0, 1} = {}"

lemma foldl_update_index:
  assumes "length ns = length cols"
  shows "foldl (\<lambda>cols (i, name). if i < length cols then cols[i := f name (cols ! i)] else cols) cols (zip [0..<length ns] ns) =
    map2 f ns cols"
proof -
  let ?F = "\<lambda>cols (i, name). if i < length cols then cols[i := f name (cols ! i)] else cols"
  have "foldl ?F cols (zip [0..<k] (take k ns)) = map2 f (take k ns) (take k cols) @ drop k cols" if "k \<le> length ns" for k
    using that
  proof (induction k)
    case (Suc k)
    then have k: "k < length ns" "k < length cols" using assms by auto
    have "zip [0..<Suc k] (take (Suc k) ns) = zip [0..<k] (take k ns) @ [(k, ns ! k)]"
      using k by (simp add: take_Suc_conv_app_nth)
    then have "foldl ?F cols (zip [0..<Suc k] (take (Suc k) ns)) = ?F (map2 f (take k ns) (take k cols) @ drop k cols) (k, ns ! k)"
      using Suc by simp
    also have "\<dots> = map2 f (take (Suc k) ns) (take (Suc k) cols) @ drop (Suc k) cols"
      using k assms by (simp add: take_Suc_conv_app_nth nth_append list_update_append Cons_nth_drop_Suc [symmetric])
    finally show ?case .
  qed simp
  from this [of "length ns"] assms show ?thesis by simp
qed

lemma row_count_rect: "\<forall>c \<in> set cs. seq_len c = n \<Longrightarrow> cs \<noteq> [] \<Longrightarrow> foldr max (map seq_len cs) 0 = n"
  by (induction cs) (auto, metis list.set_intros(1) max.idem foldr.simps(1) id_apply list.simps(8) max_nat.right_neutral)

lemma df_row_rect:
  assumes "\<forall>c \<in> set (df_cols d). seq_len c = df_row_count d" "r < df_row_count d"
  shows "df_row d r = map (\<lambda>c. seq_elems c ! r) (df_cols d)"
  using assms by (auto simp: df_row_def seq_get_elems)

lemma frame_ofD:
  assumes "frame_of names kinds d" "schema_ok names kinds"
  shows "df_names d = names" "length (df_cols d) = length names" "length kinds = length names"
    "i < length names \<Longrightarrow> seq_kind (df_cols d ! i) = kinds ! i" "i < length names \<Longrightarrow> kinds ! i \<notin> {0, 1}"
    "i < length names \<Longrightarrow> seq_len (df_cols d ! i) = df_row_count d"
proof -
  show n: "df_names d = names" and k: "length kinds = length names" using assms by (auto simp: frame_of_def schema_ok_def)
  have ks: "kinds = map seq_kind (df_cols d)" using assms by (simp add: frame_of_def)
  then show l: "length (df_cols d) = length names" using k by simp
  show "i < length names \<Longrightarrow> seq_kind (df_cols d ! i) = kinds ! i" using ks l by simp
  show "i < length names \<Longrightarrow> kinds ! i \<notin> {0, 1}" using assms(2) nth_mem [of i kinds] k by (metis disjoint_iff schema_ok_def)
  show "i < length names \<Longrightarrow> seq_len (df_cols d ! i) = df_row_count d" using assms(1) l by (simp add: frame_of_def)
qed

text \<open>Pushing a column of a frame behind one of the same kind.\<close>

lemma append_at:
  assumes e: "frame_of names kinds e" and ok: "schema_ok names kinds" and j: "j < length names" and k: "seq_kind c = kinds ! j"
  shows "seq_elems (append_column e (names ! j) c) = seq_elems c @ seq_elems (df_cols e ! j)"
    "seq_kind (append_column e (names ! j) c) = kinds ! j"
proof -
  note d = frame_ofD [OF e ok]
  have "source_ele e (names ! j) r = seq_elems (df_cols e ! j) ! r" if "r < seq_len (df_cols e ! j)" for r
    using that j d(1,2) ok by (simp add: source_ele_def position_of_nth schema_ok_def seq_get_elems)
  then show "seq_elems (append_column e (names ! j) c) = seq_elems c @ seq_elems (df_cols e ! j)"
    "seq_kind (append_column e (names ! j) c) = kinds ! j"
    using append_column_same [of c "df_cols e ! j" e "names ! j"] d(4-6) [OF j] k by (auto simp: pushable_def)
qed

text \<open>Appending a frame whose columns are all known already.\<close>

lemma append_known:
  assumes "set (df_names e) \<subseteq> set (df_names d)" "length (df_cols d) = length (df_names d)"
    "\<not> df_is_empty d" "\<not> df_is_empty e"
  shows "df_names (append_dataframe d e) = df_names d"
    "df_cols (append_dataframe d e) = map2 (append_column e) (df_names d) (df_cols d)"
proof -
  have "foldl add_column d ns = d" if "set ns \<subseteq> set (df_names d)" for ns
    using that by (induction ns) (auto simp: add_column_def)
  then show "df_names (append_dataframe d e) = df_names d"
    "df_cols (append_dataframe d e) = map2 (append_column e) (df_names d) (df_cols d)"
    using assms foldl_update_index [of "df_names d" "df_cols d" "append_column e"]
    by (simp_all add: append_dataframe_def append_columns_def Let_def)
qed

lemma append_frames:
  assumes ok: "schema_ok names kinds" and d: "frame_of names kinds d" and e: "frame_of names kinds e"
    and ne: "\<not> df_is_empty d" "\<not> df_is_empty e"
  shows "frame_of names kinds (append_dataframe d e)" "df_iter (append_dataframe d e) = df_iter d @ df_iter e"
    "df_row_count (append_dataframe d e) = df_row_count d + df_row_count e"
proof -
  note fd = frame_ofD [OF d ok] and fe = frame_ofD [OF e ok]
  let ?m = "append_dataframe d e" and ?cs = "map2 (append_column e) names (df_cols d)" and ?n = "df_row_count d + df_row_count e"
  have m: "df_names ?m = names" "df_cols ?m = ?cs" using append_known [of e d] fd(1,2) fe(1) ne by simp_all
  have col: "seq_elems (?cs ! i) = seq_elems (df_cols d ! i) @ seq_elems (df_cols e ! i)" "seq_kind (?cs ! i) = kinds ! i"
    if i: "i < length names" for i
    using append_at [OF e ok i fd(4) [OF i]] i fd(2) by simp_all
  have "seq_len (?cs ! i) = ?n" if "i < length names" for i
    using arg_cong [OF col(1) [OF that], of length] that fd(6) fe(6) by simp
  then have all: "\<forall>c \<in> set ?cs. seq_len c = ?n" using fd(2) by (auto simp: in_set_conv_nth)
  show cnt: "df_row_count ?m = ?n" unfolding df_row_count_def [of ?m] m
    by (rule row_count_rect [OF all]) (use ok fd(2) in \<open>auto simp: schema_ok_def\<close>)
  have "map seq_kind ?cs = kinds" using col(2) fd(2,3) by (intro nth_equalityI) auto
  then show f: "frame_of names kinds ?m" using all by (simp add: frame_of_def m cnt)
  have row: "df_row ?m r = (if r < df_row_count d then df_row d r else df_row e (r - df_row_count d))" if "r < ?n" for r
  proof (rule nth_equalityI)
    show "length (df_row ?m r) = length (if r < df_row_count d then df_row d r else df_row e (r - df_row_count d))"
      using fd(2) fe(2) by (simp add: df_row_def m)
    fix i assume "i < length (df_row ?m r)"
    then have i: "i < length names" using fd(2) by (simp add: df_row_def m)
    have "df_row ?m r ! i = (seq_elems (df_cols d ! i) @ seq_elems (df_cols e ! i)) ! r"
      using df_row_rect [of ?m r] f that i fd(2) col(1) [OF i] by (simp add: frame_of_def cnt m)
    then show "df_row ?m r ! i = (if r < df_row_count d then df_row d r else df_row e (r - df_row_count d)) ! i"
      using df_row_rect [of d r] df_row_rect [of e "r - df_row_count d"] d e i fd(2,6) fe(2,6) that
      by (auto simp: frame_of_def nth_append)
  qed
  show "df_iter ?m = df_iter d @ df_iter e"
    by (rule nth_equalityI) (auto simp: df_iter_def cnt row nth_append)
qed

section \<open>Merging frames of one schema\<close>

lemma df_size_irrelevant [simp]:
  "df_row_count (d\<lparr>df_size := n\<rparr>) = df_row_count d" "df_row (d\<lparr>df_size := n\<rparr>) r = df_row d r"
  "df_iter (d\<lparr>df_size := n\<rparr>) = df_iter d" "df_is_empty (d\<lparr>df_size := n\<rparr>) = df_is_empty d"
  "frame_of names kinds (d\<lparr>df_size := n\<rparr>) = frame_of names kinds d"
proof -
  show c: "df_row_count (d\<lparr>df_size := n\<rparr>) = df_row_count d" by (simp add: df_row_count_def)
  show r: "df_row (d\<lparr>df_size := n\<rparr>) r = df_row d r" for r by (simp add: df_row_def)
  show "df_iter (d\<lparr>df_size := n\<rparr>) = df_iter d" by (simp add: df_iter_def c r)
  show "df_is_empty (d\<lparr>df_size := n\<rparr>) = df_is_empty d" by (simp add: df_is_empty_def c)
  show "frame_of names kinds (d\<lparr>df_size := n\<rparr>) = frame_of names kinds d" by (simp add: frame_of_def c)
qed

lemma df_iter_empty: "df_is_empty d \<Longrightarrow> df_iter d = []"
  by (simp add: df_iter_def df_is_empty_def)

lemma df_default_empty: "df_is_empty df_default"
  by (simp add: df_is_empty_def df_row_count_def df_default_def)

definition merge_step :: "DataFrame \<Rightarrow> DataFrame \<Rightarrow> DataFrame" where
  "merge_step out d = (if df_is_empty d then out else if df_is_empty out then d else append_dataframe out d)"

lemma merge_eq: "merge_dataframes parts = (foldl merge_step df_default parts)\<lparr>df_size := df_row_count (foldl merge_step df_default parts)\<rparr>"
  unfolding merge_dataframes_def merge_step_def Let_def by simp

lemma merge_frames:
  assumes ok: "schema_ok names kinds" and parts: "\<forall>d \<in> set parts. df_is_empty d \<or> frame_of names kinds d"
  shows "df_iter (merge_dataframes parts) = concat (map df_iter parts)"
    "df_is_empty (merge_dataframes parts) \<or> frame_of names kinds (merge_dataframes parts)"
proof -
  have "(df_is_empty (foldl merge_step out parts) \<or> frame_of names kinds (foldl merge_step out parts)) \<and>
      df_iter (foldl merge_step out parts) = df_iter out @ concat (map df_iter parts)"
    if "df_is_empty out \<or> frame_of names kinds out" for out
    using that parts
  proof (induction parts arbitrary: out)
    case (Cons d parts)
    have "(df_is_empty (merge_step out d) \<or> frame_of names kinds (merge_step out d)) \<and> df_iter (merge_step out d) = df_iter out @ df_iter d"
      using Cons.prems append_frames [OF ok, of out d] by (auto simp: merge_step_def df_iter_empty)
    then show ?case using Cons.IH [of "merge_step out d"] Cons.prems by simp
  qed simp
  from this [of df_default] show "df_iter (merge_dataframes parts) = concat (map df_iter parts)"
    "df_is_empty (merge_dataframes parts) \<or> frame_of names kinds (merge_dataframes parts)"
    by (simp_all add: merge_eq df_default_empty df_iter_empty)
qed

section \<open>Frames that lack a column\<close>

lemma merge_three:
  assumes "\<not> df_is_empty a" "\<not> df_is_empty b" "\<not> df_is_empty c" "\<not> df_is_empty (append_dataframe a b)"
  shows "df_row (merge_dataframes [a, b, c]) r = df_row (append_dataframe (append_dataframe a b) c) r"
  using assms by (simp add: merge_eq merge_step_def df_default_empty)

lemma append_lacking:
  assumes ok: "schema_ok [x, y] [kx, ky]" and a: "frame_of [x, y] [kx, ky] a" and b: "frame_of [x] [kx] b"
    and ne: "\<not> df_is_empty a" "\<not> df_is_empty b"
  shows "\<exists>cx cy. df_names (append_dataframe a b) = [x, y] \<and> df_cols (append_dataframe a b) = [cx, cy] \<and>
    seq_elems cx = seq_elems (df_cols a ! 0) @ seq_elems (df_cols b ! 0) \<and> seq_kind cx = kx \<and> cy = df_cols a ! 1"
proof -
  have ok1: "schema_ok [x] [kx]" using ok by (simp add: schema_ok_def)
  note fa = frame_ofD [OF a ok] and fb = frame_ofD [OF b ok1]
  obtain p q where two: "df_cols a = [p, q]" using fa(2) by (auto simp: length_Suc_conv)
  have known: "df_names (append_dataframe a b) = [x, y]"
    "df_cols (append_dataframe a b) = [append_column b x (df_cols a ! 0), append_column b y (df_cols a ! 1)]"
    using append_known [of b a] fa(1,2) fb(1) ne by (simp_all add: two)
  have "append_column b y (df_cols a ! 1) = df_cols a ! 1"
    using append_column_missing [of "df_cols a ! 1" y b] fa(4,5) [of 1] fb(1) ok by (auto simp: schema_ok_def)
  moreover have "seq_elems (append_column b x (df_cols a ! 0)) = seq_elems (df_cols a ! 0) @ seq_elems (df_cols b ! 0)"
    "seq_kind (append_column b x (df_cols a ! 0)) = kx"
    using append_at [OF b ok1, of 0 "df_cols a ! 0"] fa(4) [of 0] by simp_all
  ultimately show ?thesis using known by blast
qed

text \<open>The values of the third frame land in the rows of the second, which has no such column.\<close>

lemma lacking_shifts:
  assumes ok: "schema_ok [x, y] [kx, ky]" and a: "frame_of [x, y] [kx, ky] a" and b: "frame_of [x] [kx] b" and c: "frame_of [x, y] [kx, ky] c"
    and ne: "\<not> df_is_empty a" "\<not> df_is_empty b" "\<not> df_is_empty c" and i: "i < df_row_count b" "i < df_row_count c"
  shows "df_row (merge_dataframes [a, b, c]) (df_row_count a + i) = [df_row b i ! 0, df_row c i ! 1]"
proof -
  have ok1: "schema_ok [x] [kx]" using ok by (simp add: schema_ok_def)
  note fa = frame_ofD [OF a ok] and fb = frame_ofD [OF b ok1] and fc = frame_ofD [OF c ok]
  obtain cx cy where ab: "df_names (append_dataframe a b) = [x, y]" "df_cols (append_dataframe a b) = [cx, cy]"
    "seq_elems cx = seq_elems (df_cols a ! 0) @ seq_elems (df_cols b ! 0)" "seq_kind cx = kx" "cy = df_cols a ! 1"
    using append_lacking [OF ok a b ne(1,2)] by blast
  have "seq_len cx = df_row_count a + df_row_count b"
    using arg_cong [OF ab(3), of length] fa(6) [of 0] fb(6) [of 0] by simp
  then have ne': "\<not> df_is_empty (append_dataframe a b)"
    using ne(1) unfolding df_is_empty_def df_row_count_def [of "append_dataframe a b"] ab(2) by simp
  have cols: "df_cols (append_dataframe (append_dataframe a b) c) = [append_column c x cx, append_column c y cy]"
    using append_known [of c "append_dataframe a b"] ab(1,2) fc(1) ne' ne(3) by simp
  have x: "seq_elems (append_column c x cx) = seq_elems cx @ seq_elems (df_cols c ! 0)"
    using append_at [OF c ok, of 0 cx] ab(4) by simp
  have y: "seq_elems (append_column c y cy) = seq_elems (df_cols a ! 1) @ seq_elems (df_cols c ! 1)"
    using append_at [OF c ok, of 1 cy] fa(4) [of 1] ab(5) by simp
  have len: "seq_len (append_column c x cx) = df_row_count a + df_row_count b + df_row_count c"
    "seq_len (append_column c y cy) = df_row_count a + df_row_count c"
    using arg_cong [OF x, of length] arg_cong [OF y, of length] ab(3) [THEN arg_cong, of length]
      fa(6) [of 0] fa(6) [of 1] fb(6) [of 0] fc(6) [of 0] fc(6) [of 1] by simp_all
  have "df_row (merge_dataframes [a, b, c]) (df_row_count a + i) =
      [seq_elems (append_column c x cx) ! (df_row_count a + i), seq_elems (append_column c y cy) ! (df_row_count a + i)]"
    using i len by (subst merge_three [OF ne ne']) (simp add: df_row_def cols seq_get_elems)
  also have "\<dots> = [seq_elems (df_cols b ! 0) ! i, seq_elems (df_cols c ! 1) ! i]"
    using i fa(6) [of 0] fa(6) [of 1] fb(6) [of 0] by (simp add: x y ab(3) nth_append)
  also have "\<dots> = [df_row b i ! 0, df_row c i ! 1]"
    using i fb(2,6) fc(2,6) by (simp add: df_row_def seq_get_elems)
  finally show ?thesis .
qed

text \<open>A column that is not text and first appears in a later frame loses all its values.\<close>

lemma late_column_lost:
  assumes ok: "schema_ok [x, y] [kx, ky]" and a: "frame_of [x] [kx] a" and b: "frame_of [x, y] [kx, ky] b"
    and ne: "\<not> df_is_empty a" "\<not> df_is_empty b" and ky: "ky \<noteq> 6"
  shows "df_row (merge_dataframes [a, b]) r ! 1 = (if r < df_row_count a then EleText [] else EleNil)"
proof -
  have ok1: "schema_ok [x] [kx]" using ok by (simp add: schema_ok_def)
  note fa = frame_ofD [OF a ok1] and fb = frame_ofD [OF b ok]
  obtain cx where cx: "df_cols a = [cx]" using fa(2) by (auto simp: length_Suc_conv)
  let ?t = "SeqText (replicate (df_row_count a) [])"
  have add: "foldl add_column a (df_names b) = a\<lparr>df_names := [x, y], df_cols := [cx, ?t]\<rparr>"
    using ok fa(1) fb(1) by (auto simp: add_column_def cx schema_ok_def)
  have "seq_append ?t (source_ele b y q) = Inl WrongSequenceType" if "q < df_row_count b" for q
  proof -
    have "source_ele b y q = seq_get (df_cols b ! 1) q"
      using fb(1,2) ok by (simp add: source_ele_def schema_ok_def)
    then show ?thesis using that fb(4) [of 1] fb(5,6) [of 1] ky
      by (cases "df_cols b ! 1") (auto simp: vec_get_def)
  qed
  then have "append_column b y ?t = ?t" by (rule append_column_fails)
  then have "df_cols (append_dataframe a b) = [append_column b x cx, ?t]"
    using ne by (simp add: append_dataframe_def add append_columns_def Let_def upt_rec [of 0 2])
  then show ?thesis
    using ne by (simp add: merge_eq merge_step_def df_default_empty df_row_def vec_get_def)
qed

end
