(* ===== verification/Fanout.thy ===== *)
theory Fanout
  imports Cluster_Registry Dataframe
begin

text \<open>
  A cluster query: which peers it asks (\<open>probing/core/src/core/cluster.rs\<close>), the tags its rows get
  (\<open>core/src/core/federation/convert.rs\<close>), and the fan-out over coordinator, node aggregators and leaves
  (\<open>probing/server/src/server/cluster_fanout.rs\<close> with \<open>planner.rs\<close>, \<open>types.rs\<close>, \<open>transport.rs\<close>). A
  \<open>process\<close> is what a process reads from its environment, its registry and the answer of its own query
  engine; \<open>network\<close> maps an address to the process that serves it, or to a failure of the request,
  and gives the order in which the replies of concurrent requests arrive.
\<close>

section \<open>Choosing peers\<close>

definition i32_MAX :: int where
  "i32_MAX = 2 ^ 31 - 1"

definition rank_or_max :: "i32 option \<Rightarrow> int" where
  "rank_or_max r = (case r of None \<Rightarrow> i32_MAX | Some r \<Rightarrow> sint r)"

definition prefer_node_representative :: "Node \<Rightarrow> Node \<Rightarrow> bool" where
  "prefer_node_representative candidate existing =
    (if nd_local_rank candidate = Some 0 \<and> nd_local_rank existing = Some 0
     then rank_or_max (nd_rank candidate) < rank_or_max (nd_rank existing)
     else if nd_local_rank candidate = Some 0 then True
     else if nd_local_rank existing = Some 0 then False
     else rank_or_max (nd_rank candidate) < rank_or_max (nd_rank existing))"

definition remote_peers_excluding_local :: "string list \<Rightarrow> string list \<Rightarrow> Cluster \<Rightarrow> Node list" where
  "remote_peers_excluding_local order local_addrs c =
     filter (\<lambda>n. nd_addr n \<notin> set local_addrs) (filter is_node_alive (get_nodes order c))"

fun insert_group :: "i32 \<Rightarrow> Node \<Rightarrow> (i32 \<times> Node) list \<Rightarrow> (i32 \<times> Node) list" where
  "insert_group g n [] = [(g, n)]"
| "insert_group g n ((h, e) # rest) =
    (if h = g then (h, if prefer_node_representative n e then n else e) # rest else (h, e) # insert_group g n rest)"

definition aggregator_step :: "string list \<Rightarrow> (i32 \<times> Node) list \<Rightarrow> Node \<Rightarrow> (i32 \<times> Node) list" where
  "aggregator_step local_addrs by_group n =
    (if nd_local_rank n \<noteq> Some 0 then by_group
     else if nd_addr n \<in> set local_addrs then by_group
     else case nd_group_rank n of None \<Rightarrow> by_group | Some g \<Rightarrow> insert_group g n by_group)"

definition node_aggregator_peers :: "string list \<Rightarrow> string list \<Rightarrow> Cluster \<Rightarrow> Node list" where
  "node_aggregator_peers order local_addrs c =
     sort_key (\<lambda>n. rank_or_max (nd_group_rank n))
       (map snd (foldl (aggregator_step local_addrs) [] (filter is_node_alive (get_nodes order c))))"

definition local_leaf_peers :: "string list \<Rightarrow> string list \<Rightarrow> i32 option \<Rightarrow> i32 option \<Rightarrow> Cluster \<Rightarrow> Node list" where
  "local_leaf_peers order local_addrs env_group env_rank c =
    (case (case env_group of Some g \<Rightarrow> Some g
           | None \<Rightarrow> Option.bind (List.find (\<lambda>n. nd_addr n \<in> set local_addrs) (get_nodes order c)) nd_group_rank) of
       None \<Rightarrow> []
     | Some group_rank \<Rightarrow>
         filter (\<lambda>n. nd_addr n \<notin> set local_addrs \<and> nd_group_rank n = Some group_rank \<and>
             \<not> (nd_rank n \<noteq> None \<and> env_rank \<noteq> None \<and> nd_rank n = env_rank))
           (filter is_node_alive (get_nodes order c)))"

definition hierarchical_metadata_available :: "string list \<Rightarrow> Cluster \<Rightarrow> bool" where
  "hierarchical_metadata_available order c =
    (let alive = filter is_node_alive (get_nodes order c)
     in alive \<noteq> [] \<and> (\<forall>n \<in> set alive. nd_group_rank n \<noteq> None \<and> nd_local_rank n \<noteq> None))"

section \<open>Tags\<close>

record FederationEndpointTags =
  tg_host :: string
  tg_addr :: string
  tg_rank :: i32
  tg_node_rank :: i32
  tg_local_rank :: i32
  tg_role :: string

definition cluster_node_field :: "string list \<Rightarrow> string \<Rightarrow> string \<Rightarrow> (Node \<Rightarrow> 'a option) \<Rightarrow> Cluster \<Rightarrow> 'a option" where
  "cluster_node_field order host addr field c =
    (case Option.bind (cluster_get_by_addr host addr c) field of
       Some v \<Rightarrow> Some v
     | None \<Rightarrow> Option.bind (List.find (\<lambda>n. nd_addr n = addr) (get_nodes order c)) field)"

definition cluster_role_for_endpoint :: "string list \<Rightarrow> string \<Rightarrow> string \<Rightarrow> Cluster \<Rightarrow> string option" where
  "cluster_role_for_endpoint order host addr c =
    (case cluster_node_field order host addr nd_role c of
       None \<Rightarrow> None | Some r \<Rightarrow> if r = [] then None else Some r)"

definition or_minus_one :: "i32 option \<Rightarrow> i32" where
  "or_minus_one r = (case r of None \<Rightarrow> - 1 | Some r \<Rightarrow> r)"

definition federation_tags_for_endpoint :: "string list \<Rightarrow> string \<Rightarrow> string \<Rightarrow> Cluster \<Rightarrow> FederationEndpointTags" where
  "federation_tags_for_endpoint order host addr c =
     \<lparr>tg_host = host, tg_addr = addr,
      tg_rank = or_minus_one (cluster_node_field order host addr nd_rank c),
      tg_node_rank = or_minus_one (cluster_node_field order host addr nd_group_rank c),
      tg_local_rank = or_minus_one (cluster_node_field order host addr nd_local_rank c),
      tg_role = (case cluster_role_for_endpoint order host addr c of None \<Rightarrow> [] | Some r \<Rightarrow> r)\<rparr>"

definition append_tag :: "string \<Rightarrow> Seq \<Rightarrow> DataFrame \<Rightarrow> DataFrame" where
  "append_tag name col d =
    (if name \<in> set (df_names d) then d else d\<lparr>df_names := df_names d @ [name], df_cols := df_cols d @ [col]\<rparr>)"

definition append_proto_tags :: "FederationEndpointTags \<Rightarrow> DataFrame \<Rightarrow> DataFrame" where
  "append_proto_tags t d =
    (let rows = df_row_count d;
         d = append_tag ''_host'' (SeqText (replicate rows (tg_host t))) d;
         d = append_tag ''_addr'' (SeqText (replicate rows (tg_addr t))) d;
         d = append_tag ''_rank'' (SeqI32 (replicate rows (tg_rank t))) d;
         d = append_tag ''_node_rank'' (SeqI32 (replicate rows (tg_node_rank t))) d;
         d = append_tag ''_local_rank'' (SeqI32 (replicate rows (tg_local_rank t))) d;
         d = append_tag ''_role'' (SeqText (replicate rows (tg_role t))) d
     in d\<lparr>df_size := df_row_count d\<rparr>)"

definition tag_proto_dataframe :: "string list \<Rightarrow> Cluster \<Rightarrow> string \<Rightarrow> string \<Rightarrow> i32 option \<Rightarrow> DataFrame \<Rightarrow> DataFrame" where
  "tag_proto_dataframe order c host addr rank d =
    (if df_is_empty d then d
     else (let t = federation_tags_for_endpoint order host addr c;
               t = (case rank of None \<Rightarrow> t | Some r \<Rightarrow> t\<lparr>tg_rank := r\<rparr>)
           in append_proto_tags t d))"

section \<open>Plans and outcomes\<close>

datatype FanoutScope = ScopeAuto | ScopeFlat | ScopeCoordinator | ScopeNode | ScopeLocal

datatype ClusterFanoutScope = FanAuto | FanCoordinator | FanNode | FanLocal

datatype FanoutError = QueryError string | TransportError string | HttpStatus nat | MetadataUnavailable | StrictMode

record FanoutMeta =
  fm_cluster :: bool
  fm_hierarchical :: bool
  fm_scope :: string
  fm_nodes_queried :: nat
  fm_nodes_failed :: "(string \<times> FanoutError) list"
  fm_peer_batches_dropped :: nat
  fm_node_aggregators_queried :: nat
  fm_local_ranks_queried :: nat
  fm_partial :: bool

record FanoutOutcome =
  fo_dataframe :: DataFrame
  fo_meta :: FanoutMeta

fun fan_as_str :: "ClusterFanoutScope \<Rightarrow> string" where
  "fan_as_str FanAuto = ''auto''"
| "fan_as_str FanCoordinator = ''coordinator''"
| "fan_as_str FanNode = ''node''"
| "fan_as_str FanLocal = ''local''"

fun scope_as_str :: "FanoutScope \<Rightarrow> string" where
  "scope_as_str ScopeAuto = ''auto''"
| "scope_as_str ScopeFlat = ''flat''"
| "scope_as_str ScopeCoordinator = ''coordinator''"
| "scope_as_str ScopeNode = ''node''"
| "scope_as_str ScopeLocal = ''local''"

definition meta_empty :: "bool \<Rightarrow> bool \<Rightarrow> ClusterFanoutScope \<Rightarrow> FanoutMeta" where
  "meta_empty cluster hierarchical scope =
     \<lparr>fm_cluster = cluster, fm_hierarchical = hierarchical, fm_scope = fan_as_str scope, fm_nodes_queried = 0,
      fm_nodes_failed = [], fm_peer_batches_dropped = 0, fm_node_aggregators_queried = 0,
      fm_local_ranks_queried = 0, fm_partial = False\<rparr>"

definition meta_local :: "bool \<Rightarrow> bool \<Rightarrow> ClusterFanoutScope \<Rightarrow> FanoutMeta" where
  "meta_local cluster hierarchical scope = (meta_empty cluster hierarchical scope)\<lparr>fm_nodes_queried := 1\<rparr>"

definition record_peer_success :: "FanoutMeta \<Rightarrow> FanoutMeta" where
  "record_peer_success m = m\<lparr>fm_nodes_queried := fm_nodes_queried m + 1\<rparr>"

definition record_peer_failure :: "string \<Rightarrow> FanoutError \<Rightarrow> FanoutMeta \<Rightarrow> FanoutMeta" where
  "record_peer_failure addr e m =
     m\<lparr>fm_nodes_queried := fm_nodes_queried m + 1, fm_nodes_failed := fm_nodes_failed m @ [(addr, e)]\<rparr>"

definition meta_absorb :: "FanoutMeta \<Rightarrow> FanoutMeta \<Rightarrow> FanoutMeta" where
  "meta_absorb child m =
     m\<lparr>fm_nodes_queried := fm_nodes_queried m + fm_nodes_queried child,
       fm_nodes_failed := fm_nodes_failed m @ fm_nodes_failed child,
       fm_peer_batches_dropped := fm_peer_batches_dropped m + fm_peer_batches_dropped child,
       fm_partial := (fm_partial m \<or> fm_partial child)\<rparr>"

definition meta_finalize :: "FanoutMeta \<Rightarrow> FanoutMeta" where
  "meta_finalize m = m\<lparr>fm_partial := (fm_partial m \<or> fm_nodes_failed m \<noteq> [] \<or> 0 < fm_peer_batches_dropped m)\<rparr>"

section \<open>The fan-out\<close>

record process =
  pr_host :: string
  pr_label :: string
  pr_listen :: "string list"
  pr_local_rank :: "i32 option"
  pr_group_rank :: "i32 option"
  pr_rank :: "i32 option"
  pr_hierarchical :: bool
  pr_strict :: bool
  pr_order :: "string list"
  pr_cluster :: Cluster
  pr_query :: "FanoutScope \<Rightarrow> FanoutError + DataFrame"

record network =
  net_reach :: "string \<Rightarrow> FanoutError + process"
  net_arrive :: "Node list \<Rightarrow> Node list"

definition is_local0 :: "process \<Rightarrow> bool" where
  "is_local0 p \<longleftrightarrow> (case pr_local_rank p of None \<Rightarrow> 0 | Some r \<Rightarrow> r) = 0"

definition metadata_available :: "process \<Rightarrow> bool" where
  "metadata_available p = hierarchical_metadata_available (pr_order p) (pr_cluster p)"

definition leaf_peers :: "process \<Rightarrow> Node list" where
  "leaf_peers p = local_leaf_peers (pr_order p) (pr_listen p) (pr_group_rank p) (pr_rank p) (pr_cluster p)"

definition aggregator_peers :: "process \<Rightarrow> Node list" where
  "aggregator_peers p = node_aggregator_peers (pr_order p) (pr_listen p) (pr_cluster p)"

definition peers_for_scope :: "FanoutScope \<Rightarrow> process \<Rightarrow> Node list" where
  "peers_for_scope scope p = (case scope of
       ScopeCoordinator \<Rightarrow> aggregator_peers p
     | ScopeNode \<Rightarrow> leaf_peers p
     | ScopeLocal \<Rightarrow> []
     | _ \<Rightarrow> remote_peers_excluding_local (pr_order p) (pr_listen p) (pr_cluster p))"

definition resolve_scope :: "process \<Rightarrow> ClusterFanoutScope \<Rightarrow> bool \<Rightarrow> ClusterFanoutScope" where
  "resolve_scope p requested hierarchical =
    (if requested = FanAuto
     then if hierarchical \<and> is_local0 p then FanCoordinator
          else if hierarchical then FanLocal
          else if is_local0 p then FanCoordinator
          else FanLocal
     else requested)"

definition plan_fanout :: "process \<Rightarrow> bool \<Rightarrow> ClusterFanoutScope \<Rightarrow> FanoutError + (bool \<times> ClusterFanoutScope)" where
  "plan_fanout p hierarchical requested =
    (let hierarchical_requested = (hierarchical \<and> pr_hierarchical p);
         scope = resolve_scope p requested hierarchical_requested
     in if hierarchical_requested \<and> is_local0 p \<and> (scope = FanCoordinator \<or> scope = FanNode) \<and> \<not> metadata_available p
        then Inl MetadataUnavailable else Inr (hierarchical_requested, scope))"

definition finish_fanout :: "process \<Rightarrow> DataFrame \<Rightarrow> FanoutMeta \<Rightarrow> FanoutError + FanoutOutcome" where
  "finish_fanout p d m =
    (let m = meta_finalize m
     in if fm_partial m \<and> pr_strict p then Inl StrictMode else Inr \<lparr>fo_dataframe = d, fo_meta = m\<rparr>)"

definition tag_for :: "process \<Rightarrow> string \<Rightarrow> string \<Rightarrow> i32 option \<Rightarrow> DataFrame \<Rightarrow> DataFrame" where
  "tag_for p host addr rank d = tag_proto_dataframe (pr_order p) (pr_cluster p) host addr rank d"

definition local_part :: "process \<Rightarrow> DataFrame \<Rightarrow> DataFrame" where
  "local_part p d = tag_for p (pr_host p) (pr_label p)
     (cluster_node_field (pr_order p) (pr_host p) (pr_label p) nd_rank (pr_cluster p)) d"

text \<open>\<open>query_leaf\<close> posts the query to \<open>/query\<close>, where it runs outside any fan-out scope.\<close>

definition query_leaf :: "network \<Rightarrow> Node \<Rightarrow> FanoutError + DataFrame" where
  "query_leaf net n = (case net_reach net (nd_addr n) of Inl e \<Rightarrow> Inl e | Inr p \<Rightarrow> pr_query p ScopeAuto)"

definition leaf_step :: "process \<Rightarrow> network \<Rightarrow> FanoutMeta \<times> DataFrame list \<Rightarrow> Node \<Rightarrow> FanoutMeta \<times> DataFrame list" where
  "leaf_step p net acc n = (case acc of (m, parts) \<Rightarrow>
     case query_leaf net n of
       Inr d \<Rightarrow> (record_peer_success m,
         parts @ [tag_for p (if nd_host n = [] then nd_addr n else nd_host n) (nd_addr n) (nd_rank n) d])
     | Inl e \<Rightarrow> (record_peer_failure (nd_addr n) e m, parts))"

definition fanout_node_tier :: "process \<Rightarrow> network \<Rightarrow> bool \<Rightarrow> FanoutError + FanoutOutcome" where
  "fanout_node_tier p net hierarchical =
    (if \<not> is_local0 p
     then (case pr_query p ScopeAuto of
         Inl e \<Rightarrow> Inl e
       | Inr d \<Rightarrow> finish_fanout p d (meta_local True hierarchical FanLocal))
     else case pr_query p ScopeNode of
         Inl e \<Rightarrow> Inl e
       | Inr d \<Rightarrow>
           (let leaves = leaf_peers p;
                m = (meta_local True hierarchical FanNode)\<lparr>fm_local_ranks_queried := length leaves\<rparr>;
                (m, parts) = foldl (leaf_step p net) (m, [local_part p d]) (net_arrive net leaves)
            in finish_fanout p (merge_dataframes parts) m))"

text \<open>
  \<open>query_node\<close> posts the query to \<open>/apis/cluster/query\<close> with scope \<open>node\<close>: the peer plans and runs its node
  tier, and answers a partial result with status 503, which the caller accepts unless it is strict.
\<close>

definition serve_node_query :: "process \<Rightarrow> network \<Rightarrow> FanoutError + FanoutOutcome" where
  "serve_node_query p net =
    (case plan_fanout p True FanNode of
       Inl e \<Rightarrow> Inl (HttpStatus 503)
     | Inr _ \<Rightarrow> (case fanout_node_tier p net True of Inl e \<Rightarrow> Inl (HttpStatus 500) | Inr out \<Rightarrow> Inr out))"

definition query_node :: "process \<Rightarrow> network \<Rightarrow> Node \<Rightarrow> FanoutError + FanoutOutcome" where
  "query_node caller net n =
    (case net_reach net (nd_addr n) of
       Inl e \<Rightarrow> Inl e
     | Inr p \<Rightarrow> (case serve_node_query p net of
         Inl e \<Rightarrow> Inl e
       | Inr out \<Rightarrow> if fm_partial (fo_meta out) \<and> pr_strict caller then Inl (HttpStatus 503) else Inr out))"

definition node_step :: "process \<Rightarrow> network \<Rightarrow> FanoutMeta \<times> DataFrame list \<Rightarrow> Node \<Rightarrow> FanoutMeta \<times> DataFrame list" where
  "node_step p net acc n = (case acc of (m, parts) \<Rightarrow>
     case query_node p net n of
       Inr out \<Rightarrow> (meta_absorb (fo_meta out) m, if df_is_empty (fo_dataframe out) then parts else parts @ [fo_dataframe out])
     | Inl e \<Rightarrow> (record_peer_failure (nd_addr n) e m, parts))"

definition broadcast_from_coordinator :: "process \<Rightarrow> network \<Rightarrow> FanoutError + FanoutOutcome" where
  "broadcast_from_coordinator p net =
    (case fanout_node_tier p net True of
       Inl e \<Rightarrow> Inl e
     | Inr local_outcome \<Rightarrow>
         (let m = (meta_empty True True FanCoordinator)\<lparr>fm_local_ranks_queried := fm_local_ranks_queried (fo_meta local_outcome)\<rparr>;
              m = meta_absorb (fo_meta local_outcome) m;
              parts = (if df_is_empty (fo_dataframe local_outcome) then [] else [fo_dataframe local_outcome]);
              aggregators = aggregator_peers p;
              m = m\<lparr>fm_node_aggregators_queried := length aggregators\<rparr>;
              (m, parts) = foldl (node_step p net) (m, parts) (net_arrive net aggregators)
          in finish_fanout p (merge_dataframes parts) m))"

definition broadcast_from_current_rank :: "process \<Rightarrow> network \<Rightarrow> FanoutScope \<Rightarrow> FanoutError + FanoutOutcome" where
  "broadcast_from_current_rank p net scope =
    (case pr_query p ScopeLocal of
       Inl e \<Rightarrow> Inl e
     | Inr d \<Rightarrow>
         (let m = (meta_local True (scope \<noteq> ScopeFlat) FanLocal)\<lparr>fm_scope := scope_as_str scope\<rparr>;
              peers = peers_for_scope scope p;
              parts = [local_part p d];
              (m, parts) =
                (if scope = ScopeCoordinator
                 then foldl (node_step p net) (m\<lparr>fm_node_aggregators_queried := length peers\<rparr>, parts) (net_arrive net peers)
                 else foldl (leaf_step p net)
                   (if scope = ScopeNode then m\<lparr>fm_local_ranks_queried := length peers\<rparr> else m, parts) (net_arrive net peers))
          in finish_fanout p (merge_dataframes parts) m))"

definition broadcast_fanout_query :: "process \<Rightarrow> network \<Rightarrow> FanoutScope \<Rightarrow> FanoutError + FanoutOutcome" where
  "broadcast_fanout_query p net scope =
    (if scope = ScopeCoordinator \<and> is_local0 p then broadcast_from_coordinator p net
     else broadcast_from_current_rank p net scope)"

text \<open>
  The query when it asks for the cluster; \<open>catalog\<close> is the answer of the query engine through the global
  catalog, for the queries that can take that way.
\<close>

definition fanout_query ::
  "process \<Rightarrow> network \<Rightarrow> (FanoutError + FanoutOutcome) option \<Rightarrow> bool \<Rightarrow> ClusterFanoutScope \<Rightarrow> FanoutError + FanoutOutcome" where
  "fanout_query p net catalog hierarchical scope =
    (case plan_fanout p hierarchical scope of
       Inl e \<Rightarrow> Inl e
     | Inr (hierarchical_requested, scope) \<Rightarrow>
         (case scope of
            FanLocal \<Rightarrow>
              (case pr_query p ScopeAuto of
                 Inl e \<Rightarrow> Inl e
               | Inr d \<Rightarrow> finish_fanout p d (meta_local True hierarchical FanLocal))
          | FanNode \<Rightarrow> fanout_node_tier p net hierarchical
          | _ \<Rightarrow>
              if hierarchical_requested then broadcast_fanout_query p net ScopeCoordinator
              else (case catalog of Some out \<Rightarrow> out | None \<Rightarrow> broadcast_fanout_query p net ScopeFlat)))"

end
