(* ===== verification/Cluster_Invariant.thy ===== *)
theory Cluster_Invariant
  imports Cluster_Registry
begin

text \<open>
  The registry as a finite set of nodes in which every rank has at most one node: the invariant that
  ties \<open>rank_index\<close> to \<open>nodes\<close>, every operation keeps it, and under it each operation is a simple
  function of the nodes alone.
\<close>

section \<open>The invariant\<close>

definition reg_inv :: "Cluster \<Rightarrow> bool" where
  "reg_inv c \<longleftrightarrow> finite (dom (cl_nodes c)) \<and> (\<forall>k n. cl_nodes c k = Some n \<longrightarrow> node_key n = k) \<and>
     (\<forall>r k. cl_rank_index c r = Some k \<longleftrightarrow> (\<exists>n. cl_nodes c k = Some n \<and> nd_rank n = Some r))"

lemma reg_invD:
  assumes "reg_inv c"
  shows "finite (dom (cl_nodes c))" "cl_nodes c k = Some n \<Longrightarrow> node_key n = k"
    "cl_rank_index c r = Some k \<longleftrightarrow> (\<exists>n. cl_nodes c k = Some n \<and> nd_rank n = Some r)"
  using assms by (auto simp: reg_inv_def)

lemma reg_inv_default: "reg_inv cluster_default"
  by (simp add: reg_inv_def cluster_default_def)

text \<open>The nodes that hold a rank.\<close>

definition holds_rank :: "(string \<rightharpoonup> Node) \<Rightarrow> i32 option \<Rightarrow> string \<Rightarrow> bool" where
  "holds_rank m r k \<longleftrightarrow> r \<noteq> None \<and> map_option nd_rank (m k) = Some r"

lemma rank_unique:
  assumes "reg_inv c" "cl_nodes c k = Some n" "cl_nodes c k' = Some n'" "nd_rank n = Some r" "nd_rank n' = Some r"
  shows "k' = k"
proof -
  have "cl_rank_index c r = Some k" "cl_rank_index c r = Some k'" using assms reg_invD(3) [OF assms(1)] by blast+
  then show ?thesis by simp
qed

lemma index_None: "reg_inv c \<Longrightarrow> cl_rank_index c r = None \<longleftrightarrow> (\<forall>k n. cl_nodes c k = Some n \<longrightarrow> nd_rank n \<noteq> Some r)"
  by (metis not_Some_eq reg_invD(3))

section \<open>Storing a node\<close>

definition put_nodes :: "Node \<Rightarrow> (string \<rightharpoonup> Node) \<Rightarrow> (string \<rightharpoonup> Node)" where
  "put_nodes n m = (\<lambda>k. if k = node_key n then Some n else if holds_rank m (nd_rank n) k then None else m k)"

lemma unindex_index:
  assumes "reg_inv c"
  shows "cl_rank_index (unindex_previous key n c) r =
    (if cl_rank_index c r = Some key \<and> nd_rank n \<noteq> Some r then None else cl_rank_index c r)"
proof (cases "cl_nodes c key")
  case None
  then have "cl_rank_index c r \<noteq> Some key" unfolding reg_invD(3) [OF assms] by simp
  then show ?thesis by (simp add: unindex_previous_def None)
next
  case (Some p)
  have own: "cl_rank_index c q = Some key \<longleftrightarrow> nd_rank p = Some q" for q
    unfolding reg_invD(3) [OF assms] by (simp add: Some)
  show ?thesis
  proof (cases "nd_rank p = nd_rank n")
    case True
    then show ?thesis using own [of r] by (simp add: unindex_previous_def Some)
  next
    case False
    then show ?thesis using own [of r] own by (cases "nd_rank p") (simp_all add: unindex_previous_def Some)
  qed
qed

lemma put_index:
  assumes "reg_inv c"
  shows "cl_rank_index (cluster_put n c) r =
    (if nd_rank n = Some r then Some (node_key n) else if cl_rank_index c r = Some (node_key n) then None else cl_rank_index c r)"
proof -
  let ?c = "unindex_previous (node_key n) n c"
  have "cl_rank_index (index_rank (node_key n) n ?c) r = (if nd_rank n = Some r then Some (node_key n) else cl_rank_index ?c r)"
    by (cases "nd_rank n") (auto simp: index_rank_def Let_def split: option.split)
  then show ?thesis using unindex_index [OF assms, of "node_key n" n r] by (simp add: cluster_put_def Let_def)
qed

lemma put_nodes_eq:
  assumes "reg_inv c"
  shows "cl_nodes (cluster_put n c) = put_nodes n (cl_nodes c)"
proof -
  have un: "cl_nodes (unindex_previous (node_key n) n c) = cl_nodes c"
    by (simp add: unindex_previous_def split: option.splits)
  show ?thesis
  proof (cases "nd_rank n")
    case None
    then show ?thesis by (auto simp: cluster_put_def index_rank_def Let_def un put_nodes_def holds_rank_def fun_eq_iff)
  next
    case (Some r)
    let ?c = "unindex_previous (node_key n) n c"
    have ix: "cl_rank_index ?c r = cl_rank_index c r" using unindex_index [OF assms, of "node_key n" n r] Some by simp
    have h: "holds_rank (cl_nodes c) (Some r) k \<longleftrightarrow> cl_rank_index c r = Some k" for k
      unfolding reg_invD(3) [OF assms] holds_rank_def by (cases "cl_nodes c k") auto
    show ?thesis
      using ix by (auto simp: cluster_put_def index_rank_def Let_def un put_nodes_def Some h fun_eq_iff split: option.splits)
  qed
qed

lemma put_inv: "reg_inv c \<Longrightarrow> reg_inv (cluster_put n c)"
proof -
  assume inv: "reg_inv c"
  note d = reg_invD [OF inv]
  have fin: "finite (dom (put_nodes n (cl_nodes c)))"
    by (rule finite_subset [of _ "insert (node_key n) (dom (cl_nodes c))"])
      (use d(1) in \<open>auto simp: put_nodes_def split: if_splits\<close>)
  have key: "put_nodes n (cl_nodes c) k = Some m \<Longrightarrow> node_key m = k" for k m
    using d(2) by (auto simp: put_nodes_def split: if_splits)
  have ix: "cl_rank_index (cluster_put n c) r = Some k \<longleftrightarrow> (\<exists>m. put_nodes n (cl_nodes c) k = Some m \<and> nd_rank m = Some r)" for r k
  proof (cases "nd_rank n = Some r")
    case True
    have "(\<exists>m. put_nodes n (cl_nodes c) k = Some m \<and> nd_rank m = Some r) \<longleftrightarrow> k = node_key n"
      using True by (auto simp: put_nodes_def holds_rank_def)
    then show ?thesis using True by (auto simp: put_index [OF inv])
  next
    case False
    have "(\<exists>m. put_nodes n (cl_nodes c) k = Some m \<and> nd_rank m = Some r) \<longleftrightarrow>
        k \<noteq> node_key n \<and> (\<exists>m. cl_nodes c k = Some m \<and> nd_rank m = Some r)"
      using False by (auto simp: put_nodes_def holds_rank_def)
    also have "\<dots> \<longleftrightarrow> k \<noteq> node_key n \<and> cl_rank_index c r = Some k" by (simp add: d(3))
    finally show ?thesis using False by (auto simp: put_index [OF inv])
  qed
  show ?thesis unfolding reg_inv_def put_nodes_eq [OF inv] using fin key ix by blast
qed

lemma update_node_inv: "reg_inv c \<Longrightarrow> reg_inv (update_node now n c)"
  by (simp add: update_node_def Let_def put_inv)

text \<open>The node that an update stores: stamped, and running unless it carries a status.\<close>

definition stamped :: "nat \<Rightarrow> Node \<Rightarrow> Node" where
  "stamped now n = n\<lparr>nd_timestamp := now, nd_status := (if nd_status n = None then Some ''running'' else nd_status n)\<rparr>"

lemma stamped_simps [simp]:
  "node_key (stamped now n) = node_key n" "nd_rank (stamped now n) = nd_rank n" "nd_addr (stamped now n) = nd_addr n"
  by (simp_all add: stamped_def node_key_def)

lemma update_node_eq: "update_node now n c = cluster_put (stamped now n) c"
  by (simp add: update_node_def Let_def stamped_def)

section \<open>Steps on the nodes\<close>

text \<open>
  What the operations share: each keeps the invariant and acts on the nodes as a function of the nodes
  alone, so any sequence of them does.
\<close>

locale registry_step =
  fixes act :: "'a \<Rightarrow> Cluster \<Rightarrow> Cluster" and effect :: "'a \<Rightarrow> (string \<rightharpoonup> Node) \<Rightarrow> (string \<rightharpoonup> Node)"
  assumes keeps: "reg_inv c \<Longrightarrow> reg_inv (act a c)"
    and acts: "reg_inv c \<Longrightarrow> cl_nodes (act a c) = effect a (cl_nodes c)"
begin

lemma steps_keep: "reg_inv c \<Longrightarrow> reg_inv (foldl (\<lambda>c a. act a c) c as)"
  by (induction as arbitrary: c) (auto intro: keeps)

lemma steps_act: "reg_inv c \<Longrightarrow> cl_nodes (foldl (\<lambda>c a. act a c) c as) = foldl (\<lambda>m a. effect a m) (cl_nodes c) as"
  by (induction as arbitrary: c) (simp_all add: acts keeps)

end

text \<open>Steps that take away one key each.\<close>

locale registry_removal = registry_step act "\<lambda>k m. m(k := None)" for act :: "string \<Rightarrow> Cluster \<Rightarrow> Cluster"
begin

lemma removals: "reg_inv c \<Longrightarrow> cl_nodes (foldl (\<lambda>c k. act k c) c ks) = (\<lambda>k. if k \<in> set ks then None else cl_nodes c k)"
proof -
  assume "reg_inv c"
  moreover have "foldl (\<lambda>m k. m(k := None)) m ks = (\<lambda>k. if k \<in> set ks then None else m k)" for m :: "string \<rightharpoonup> Node"
    by (induction ks arbitrary: m) (auto simp: fun_eq_iff)
  ultimately show ?thesis using steps_act by simp
qed

end

interpretation updates: registry_step "\<lambda>(now, n). update_node now n" "\<lambda>(now, n). put_nodes (stamped now n)"
  by unfold_locales (auto simp: update_node_eq put_inv put_nodes_eq)

lemma update_nodes_steps: "update_nodes ns c = foldl (\<lambda>c a. (case a of (now, n) \<Rightarrow> update_node now n) c) c ns"
  unfolding update_nodes_def by (rule arg_cong [of _ _ "\<lambda>f. foldl f c ns"]) (auto simp: fun_eq_iff)

lemma update_nodes_inv: "reg_inv c \<Longrightarrow> reg_inv (update_nodes ns c)"
  unfolding update_nodes_steps by (rule updates.steps_keep)

lemma update_nodes_eq:
  "reg_inv c \<Longrightarrow> cl_nodes (update_nodes ns c) = foldl (\<lambda>m (now, n). put_nodes (stamped now n) m) (cl_nodes c) ns"
  unfolding update_nodes_steps using updates.steps_act by (auto simp: case_prod_beta')

section \<open>Removing nodes\<close>

text \<open>Taking away a key and the index entry of its rank.\<close>

lemma drop_inv:
  assumes inv: "reg_inv c" and n: "cl_nodes c key = Some n"
    and c': "cl_nodes c' = (cl_nodes c)(key := None)"
      "cl_rank_index c' = (case nd_rank n of None \<Rightarrow> cl_rank_index c | Some r \<Rightarrow> (cl_rank_index c)(r := None))"
  shows "reg_inv c'"
proof -
  note d = reg_invD [OF inv]
  have "cl_rank_index c' r = Some k \<longleftrightarrow> (\<exists>m. cl_nodes c' k = Some m \<and> nd_rank m = Some r)" for r k
  proof (cases "nd_rank n = Some r")
    case True
    have "m \<noteq> n \<or> k = key" if "cl_nodes c k = Some m" for m using that d(2) n by blast
    then have "\<not> (\<exists>m. cl_nodes c' k = Some m \<and> nd_rank m = Some r)"
      using rank_unique [OF inv n _ True] by (auto simp: c'(1))
    then show ?thesis using True by (simp add: c'(2))
  next
    case False
    then have "cl_rank_index c' r = cl_rank_index c r" by (auto simp: c'(2) split: option.splits)
    moreover have "(\<exists>m. cl_nodes c' k = Some m \<and> nd_rank m = Some r) \<longleftrightarrow> (\<exists>m. cl_nodes c k = Some m \<and> nd_rank m = Some r)"
      using False n by (auto simp: c'(1))
    ultimately show ?thesis using d(3) by simp
  qed
  then show ?thesis using d(1,2) by (auto simp: reg_inv_def c'(1))
qed

lemma remove_by_addr_eq:
  "remove_by_addr host addr c = (cl_nodes c (host @ '':'' @ addr), snd (remove_by_addr host addr c))"
  "cl_nodes (snd (remove_by_addr host addr c)) = (cl_nodes c)(host @ '':'' @ addr := None)"
  by (auto simp: remove_by_addr_def Let_def split: option.splits)

lemma remove_by_addr_inv: "reg_inv c \<Longrightarrow> reg_inv (snd (remove_by_addr host addr c))"
proof -
  assume inv: "reg_inv c"
  obtain key where key: "key = host @ '':'' @ addr" by simp
  show ?thesis
  proof (cases "cl_nodes c key")
    case (Some n)
    show ?thesis
      by (cases "nd_rank n"; rule drop_inv [OF inv Some]) (simp_all add: remove_by_addr_def Let_def Some key [symmetric] del: append.simps)
  qed (simp add: remove_by_addr_def key [symmetric] inv del: append.simps)
qed

lemma cluster_remove_inv: "reg_inv c \<Longrightarrow> reg_inv (snd (cluster_remove rank c))"
proof (cases "cl_rank_index c rank")
  case (Some key)
  assume inv: "reg_inv c"
  from Some obtain n where n: "cl_nodes c key = Some n" "nd_rank n = Some rank" using reg_invD(3) [OF inv] by blast
  show ?thesis by (rule drop_inv [OF inv n(1)]) (auto simp: cluster_remove_def Some n)
qed (simp add: cluster_remove_def)

lemma expire_key_eq: "cl_nodes (expire_key c key) = (cl_nodes c)(key := None)"
  by (auto simp: expire_key_def Let_def split: option.splits)

lemma expire_key_inv: "reg_inv c \<Longrightarrow> reg_inv (expire_key c key)"
proof (cases "cl_nodes c key")
  case (Some n)
  assume inv: "reg_inv c"
  have "cl_rank_index c r = Some key" if "nd_rank n = Some r" for r
    using that Some reg_invD(3) [OF inv] by blast
  then show ?thesis
    by (intro drop_inv [OF inv Some]) (auto simp: expire_key_def Let_def Some split: option.splits)
qed (simp add: expire_key_def)

interpretation expire: registry_removal "\<lambda>k c. expire_key c k"
  by unfold_locales (auto simp: expire_key_inv expire_key_eq)

lemma split_key_join: "split_key key = Some (host, addr) \<Longrightarrow> host @ '':'' @ addr = key"
proof -
  assume s: "split_key key = Some (host, addr)"
  then have c: "CHR '':'' \<in> set key" and ha: "host = takeWhile (\<lambda>x. x \<noteq> CHR '':'') key"
    "addr = drop 1 (dropWhile (\<lambda>x. x \<noteq> CHR '':'') key)" by (auto simp: split_key_def split: if_splits)
  from c have "dropWhile (\<lambda>x. x \<noteq> CHR '':'') key \<noteq> []" by (simp add: dropWhile_eq_Nil_conv)
  then obtain rest where "dropWhile (\<lambda>x. x \<noteq> CHR '':'') key = CHR '':'' # rest"
    using hd_dropWhile [of "\<lambda>x. x \<noteq> CHR '':''" key] by (cases "dropWhile (\<lambda>x. x \<noteq> CHR '':'') key") auto
  then show ?thesis using takeWhile_dropWhile_id [of "\<lambda>x. x \<noteq> CHR '':''" key] by (simp add: ha)
qed

lemma remove_key_eq:
  assumes "reg_inv c"
  shows "cl_nodes (remove_key c key) = (cl_nodes c)(key := None)"
proof (cases "split_key key")
  case None
  then have "CHR '':'' \<notin> set key" by (simp add: split_key_def split: if_splits)
  then have "cl_nodes c key = None"
    using reg_invD(2) [OF assms, of key] by (cases "cl_nodes c key") (auto simp: node_key_def)
  then show ?thesis using None by (auto simp: remove_key_def)
next
  case (Some ha)
  obtain host addr where ha: "ha = (host, addr)" by fastforce
  show ?thesis using remove_by_addr_eq(2) [of host addr c] split_key_join [of key host addr] Some by (simp add: remove_key_def ha)
qed

lemma remove_key_inv: "reg_inv c \<Longrightarrow> reg_inv (remove_key c key)"
  by (auto simp: remove_key_def remove_by_addr_inv split: option.splits prod.splits)

interpretation remove: registry_removal "\<lambda>k c. remove_key c k"
  by unfold_locales (auto simp: remove_key_inv remove_key_eq)

section \<open>Sweeping\<close>

lemma mark_dead_inv: "reg_inv c \<Longrightarrow> reg_inv (mark_dead ks c)"
proof -
  assume inv: "reg_inv c"
  note d = reg_invD [OF inv]
  let ?f = "\<lambda>n. n\<lparr>nd_status := Some ''dead''\<rparr>"
  have n: "cl_nodes (mark_dead ks c) k = Some m \<longleftrightarrow> (\<exists>n. cl_nodes c k = Some n \<and> m = (if k \<in> set ks then ?f n else n))" for k m
    by (auto simp: mark_dead_def)
  have dom: "dom (cl_nodes (mark_dead ks c)) = dom (cl_nodes c)" by (auto simp: mark_dead_def dom_def)
  have "(\<exists>m. cl_nodes (mark_dead ks c) k = Some m \<and> nd_rank m = Some r) \<longleftrightarrow> (\<exists>m. cl_nodes c k = Some m \<and> nd_rank m = Some r)" for k r
    unfolding n by (cases "k \<in> set ks") auto
  moreover have "cl_nodes (mark_dead ks c) k = Some m \<Longrightarrow> node_key m = k" for k m
    unfolding n using d(2) by (auto simp: node_key_def split: if_splits)
  moreover have "cl_rank_index (mark_dead ks c) = cl_rank_index c" by (simp add: mark_dead_def)
  ultimately show ?thesis unfolding reg_inv_def dom using d(1,3) by simp
qed

text \<open>What a sweep does to one node.\<close>

definition swept_node :: "nat \<Rightarrow> nat \<Rightarrow> Node \<Rightarrow> Node option" where
  "swept_node threshold now n =
    (if node_stale threshold now n then Some (n\<lparr>nd_status := Some ''dead''\<rparr>)
     else if node_expired threshold now n then None else Some n)"

lemma sweep_nodes:
  assumes inv: "reg_inv c" and order: "set order = dom (cl_nodes c)"
    and s: "sweep_stale_nodes order threshold now c = ((dead, expired), c')"
  shows "reg_inv c'" "cl_nodes c' k = Option.bind (cl_nodes c k) (swept_node threshold now)"
    "k \<in> set dead \<longleftrightarrow> (\<exists>n. cl_nodes c k = Some n \<and> node_stale threshold now n)"
    "k \<in> set expired \<longleftrightarrow> (\<exists>n. cl_nodes c k = Some n \<and> \<not> node_stale threshold now n \<and> node_expired threshold now n)"
    "distinct order \<Longrightarrow> distinct dead"
proof -
  have dd: "dead = keys_where (node_stale threshold now) order c"
    and ex: "expired = filter (\<lambda>k. k \<notin> set dead) (keys_where (node_expired threshold now) order (mark_dead dead c))"
    and c': "c' = foldl expire_key (mark_dead dead c) expired"
    using s by (auto simp: sweep_stale_nodes_def Let_def)
  show dk: "k \<in> set dead \<longleftrightarrow> (\<exists>n. cl_nodes c k = Some n \<and> node_stale threshold now n)" for k
    using order by (auto simp: dd keys_where_def split: option.splits)
  have md: "cl_nodes (mark_dead dead c) k = (if k \<in> set dead then map_option (\<lambda>n. n\<lparr>nd_status := Some ''dead''\<rparr>) (cl_nodes c k) else cl_nodes c k)" for k
    by (simp add: mark_dead_def)
  show ek: "k \<in> set expired \<longleftrightarrow> (\<exists>n. cl_nodes c k = Some n \<and> \<not> node_stale threshold now n \<and> node_expired threshold now n)" for k
  proof -
    have "k \<in> set expired \<longleftrightarrow> k \<in> set order \<and> k \<notin> set dead \<and> (\<exists>n. cl_nodes c k = Some n \<and> node_expired threshold now n)"
      by (auto simp: ex keys_where_def md split: option.splits)
    then show ?thesis using order dk [of k] by auto
  qed
  show "reg_inv c'" unfolding c' by (intro expire.steps_keep mark_dead_inv inv)
  show "cl_nodes c' k = Option.bind (cl_nodes c k) (swept_node threshold now)" for k
    unfolding c' expire.removals [OF mark_dead_inv [OF inv]] md using dk [of k] ek [of k]
    by (cases "cl_nodes c k") (auto simp: swept_node_def)
  show "distinct order \<Longrightarrow> distinct dead" by (simp add: dd keys_where_def)
qed

section \<open>Every reachable registry\<close>

text \<open>The changes a registry undergoes: a node stored or removed, a batch of updates, a sweep, a snapshot from the coordinator.\<close>

inductive registry_change :: "Cluster \<Rightarrow> Cluster \<Rightarrow> bool" where
  put: "registry_change c (cluster_put n c)"
| remove: "registry_change c (snd (cluster_remove rank c))"
| remove_addr: "registry_change c (snd (remove_by_addr host addr c))"
| updates: "registry_change c (update_nodes ns c)"
| sweep: "registry_change c (snd (sweep_stale_nodes order threshold now c))"
| snapshot: "registry_change c (cs_cluster (apply_snapshot_delta ns removed v \<lparr>cs_cluster = c, cs_version = w\<rparr>))"

inductive_cases registry_changeE: "registry_change c c'"

lemma sweep_inv: "reg_inv c \<Longrightarrow> reg_inv (snd (sweep_stale_nodes order threshold now c))"
  by (simp add: sweep_stale_nodes_def Let_def expire.steps_keep mark_dead_inv)

lemma registry_change_inv: "registry_change c c' \<Longrightarrow> reg_inv c \<Longrightarrow> reg_inv c'"
  by (erule registry_changeE)
    (simp_all add: put_inv cluster_remove_inv remove_by_addr_inv update_nodes_inv sweep_inv
      apply_snapshot_delta_def remove.steps_keep)

lemma registry_reachable_inv: "registry_change\<^sup>*\<^sup>* cluster_default c \<Longrightarrow> reg_inv c"
  by (induction rule: rtranclp_induct) (auto simp: reg_inv_default registry_change_inv)

section \<open>Fetching the whole list\<close>

text \<open>Every turn but the last fetches a full page, so one turn per node and one more are enough.\<close>

lemma fetch_loop_all:
  assumes all: "all = get_nodes order (cs_cluster st)" "length all < 2 ^ 64" and page: "0 < page_size" "page_size \<le> 10000"
    and "offset \<le> length all" "length all - offset < fuel"
  shows "fetch_loop fuel order page_size st offset (take offset all) = Some all"
  using assms(5,6)
proof (induction fuel arbitrary: offset)
  case (Suc fuel)
  have min: "min page_size 10000 = page_size" using page by simp
  have got: "take offset all @ take page_size (drop offset all) = take (offset + page_size) all"
    by (simp add: take_add)
  show ?case
  proof (cases "length all \<le> offset + page_size")
    case True
    then show ?thesis using got Suc.prems(1) by (simp add: get_nodes_page_def Let_def all(1) [symmetric] min min_absorb2)
  next
    case False
    then have "min (2 ^ 64 - 1) (offset + page_size) = offset + page_size" using all(2) by simp
    then show ?thesis using False Suc.IH [of "offset + page_size"] Suc.prems page got
      by (simp add: get_nodes_page_def Let_def all(1) [symmetric] min)
  qed
qed simp

end
