(* ===== verification/Fanout_Reach.thy ===== *)
theory Fanout_Reach
  imports Fanout Cluster_Invariant "HOL-Library.Multiset"
begin

text \<open>
  Who a hierarchical cluster query reaches: the coordinator's own group and, through one aggregator
  each, every other group that has an alive process of local rank 0; each of their processes once.
\<close>

section \<open>The listing\<close>

lemma mset_get_nodes: "mset (get_nodes order c) = mset (cluster_list order c)"
  by (simp add: get_nodes_def)

lemma set_cluster_list: "set order = dom (cl_nodes c) \<Longrightarrow> set (cluster_list order c) = ran (cl_nodes c)"
  by (auto simp: cluster_list_def List.map_filter_def ran_def image_iff dom_def) (metis domI domIff option.sel)

lemma distinct_cluster_list:
  assumes "reg_inv c" "distinct order"
  shows "distinct (cluster_list order c)"
proof -
  have "distinct (map node_key (cluster_list order c))"
  proof -
    have "map node_key (cluster_list order c) = filter (\<lambda>k. cl_nodes c k \<noteq> None) order"
      using reg_invD(2) [OF assms(1)] by (induction order) (auto simp: cluster_list_def List.map_filter_def)
    then show ?thesis using assms(2) by simp
  qed
  then show ?thesis by (simp add: distinct_map)
qed

lemma get_nodes_props:
  assumes "reg_inv c" "distinct order" "set order = dom (cl_nodes c)"
  shows "distinct (get_nodes order c)" "set (get_nodes order c) = ran (cl_nodes c)"
  using mset_get_nodes [of order c] distinct_cluster_list [OF assms(1,2)] set_cluster_list [OF assms(3)]
  by (metis mset_eq_imp_distinct_iff, metis mset_eq_setD)

section \<open>The aggregators\<close>

definition agg_candidate :: "string list \<Rightarrow> Node \<Rightarrow> bool" where
  "agg_candidate local_addrs n \<longleftrightarrow> nd_local_rank n = Some 0 \<and> nd_addr n \<notin> set local_addrs \<and> nd_group_rank n \<noteq> None"

lemma insert_group_props:
  "fst ` set (insert_group g n gs) = insert g (fst ` set gs)"
  "distinct (map fst gs) \<Longrightarrow> distinct (map fst (insert_group g n gs))"
  "set (insert_group g n gs) \<subseteq> insert (g, n) (set gs)"
proof -
  show keys: "fst ` set (insert_group g n gs) = insert g (fst ` set gs)" for g n gs
    by (induction g n gs rule: insert_group.induct) auto
  show "distinct (map fst gs) \<Longrightarrow> distinct (map fst (insert_group g n gs))"
  proof (induction g n gs rule: insert_group.induct)
    case (2 g n h e rest)
    have "h \<noteq> g \<Longrightarrow> h \<notin> set (map fst (insert_group g n rest))" unfolding set_map keys using 2 by auto
    then show ?case using 2 by (cases "h = g") simp_all
  qed simp
  show "set (insert_group g n gs) \<subseteq> insert (g, n) (set gs)"
    by (induction g n gs rule: insert_group.induct) auto
qed

lemma aggregator_groups:
  fixes L :: "string list" and xs :: "Node list"
  assumes gs: "gs = foldl (aggregator_step L) [] xs"
  shows "distinct (map fst gs)" "fst ` set gs = {g. \<exists>n \<in> set xs. agg_candidate L n \<and> nd_group_rank n = Some g}"
    "(g, m) \<in> set gs \<Longrightarrow> m \<in> set xs \<and> agg_candidate L m \<and> nd_group_rank m = Some g"
proof -
  have "distinct (map fst (foldl (aggregator_step L) [] xs)) \<and>
      fst ` set (foldl (aggregator_step L) [] xs) = {g. \<exists>n \<in> set xs. agg_candidate L n \<and> nd_group_rank n = Some g} \<and>
      (\<forall>(g, m) \<in> set (foldl (aggregator_step L) [] xs). m \<in> set xs \<and> agg_candidate L m \<and> nd_group_rank m = Some g)"
  proof (induction xs rule: rev_induct)
    case (snoc n xs)
    let ?gs = "foldl (aggregator_step L) [] xs"
    show ?case
    proof (cases "agg_candidate L n")
      case True
      then obtain g where g: "nd_group_rank n = Some g" by (auto simp: agg_candidate_def)
      have step: "foldl (aggregator_step L) [] (xs @ [n]) = insert_group g n ?gs"
        using True g by (simp add: aggregator_step_def agg_candidate_def)
      have "m \<in> set (xs @ [n]) \<and> agg_candidate L m \<and> nd_group_rank m = Some h" if "(h, m) \<in> set (insert_group g n ?gs)" for h m
      proof -
        have "(h, m) \<in> set ?gs \<or> h = g \<and> m = n" using that insert_group_props(3) [of g n ?gs] by auto
        then show ?thesis using snoc True g by auto
      qed
      moreover have "insert g (fst ` set ?gs) = {g. \<exists>n \<in> set (xs @ [n]). agg_candidate L n \<and> nd_group_rank n = Some g}"
        using snoc True g by auto
      ultimately show ?thesis unfolding step insert_group_props(1)
        using snoc insert_group_props(2) [of ?gs g n] by blast
    next
      case False
      then have "foldl (aggregator_step L) [] (xs @ [n]) = ?gs"
        by (auto simp: aggregator_step_def agg_candidate_def)
      then show ?thesis using snoc False by auto
    qed
  qed simp
  then show "distinct (map fst gs)" "fst ` set gs = {g. \<exists>n \<in> set xs. agg_candidate L n \<and> nd_group_rank n = Some g}"
    "(g, m) \<in> set gs \<Longrightarrow> m \<in> set xs \<and> agg_candidate L m \<and> nd_group_rank m = Some g"
    unfolding gs by auto
qed

text \<open>One candidate for each group that has one.\<close>

lemma aggregators:
  fixes alive :: "Node list"
  assumes "alive = filter is_node_alive (get_nodes order c)"
  shows "set (node_aggregator_peers order L c) \<subseteq> {n \<in> set alive. agg_candidate L n}"
    "nd_group_rank ` set (node_aggregator_peers order L c) = nd_group_rank ` {n \<in> set alive. agg_candidate L n}"
    "distinct (map nd_group_rank (node_aggregator_peers order L c))"
proof -
  let ?gs = "foldl (aggregator_step L) [] alive"
  note g = aggregator_groups [of ?gs L alive, OF refl]
  have peers: "mset (node_aggregator_peers order L c) = mset (map snd ?gs)"
    by (simp add: node_aggregator_peers_def assms)
  then have set: "set (node_aggregator_peers order L c) = snd ` set ?gs" by (metis mset_eq_setD set_map)
  show "set (node_aggregator_peers order L c) \<subseteq> {n \<in> set alive. agg_candidate L n}"
    unfolding set using g(3) by auto
  have keys: "map nd_group_rank (map snd ?gs) = map (Some \<circ> fst) ?gs"
    using g(3) by auto
  show "nd_group_rank ` set (node_aggregator_peers order L c) = nd_group_rank ` {n \<in> set alive. agg_candidate L n}"
  proof -
    have "nd_group_rank ` set (node_aggregator_peers order L c) = Some ` fst ` set ?gs"
      unfolding set using keys by (metis image_comp list.set_map)
    also have "\<dots> = nd_group_rank ` {n \<in> set alive. agg_candidate L n}"
      unfolding g(2) by (force simp: agg_candidate_def)
    finally show ?thesis .
  qed
  have "distinct (map nd_group_rank (map snd ?gs))"
    unfolding keys using g(1) by (simp add: distinct_map inj_on_def flip: map_map)
  then show "distinct (map nd_group_rank (node_aggregator_peers order L c))"
    using arg_cong [OF peers, of "image_mset nd_group_rank"] by (metis mset_eq_imp_distinct_iff mset_map)
qed

section \<open>Counting by group\<close>

lemma mset_by_groups:
  assumes "distinct gs"
  shows "sum_list (map (\<lambda>g. mset (filter (\<lambda>n. key n = g) xs)) gs) = mset (filter (\<lambda>n. key n \<in> set gs) xs)"
  using assms
proof (induction gs)
  case (Cons g gs)
  have "mset (filter (\<lambda>n. key n = g) xs) + mset (filter (\<lambda>n. key n \<in> set gs) xs) = mset (filter (\<lambda>n. key n = g \<or> key n \<in> set gs) xs)"
    using Cons.prems by (induction xs) auto
  then show ?case using Cons by simp
qed simp

lemma mset_take_out:
  assumes "distinct xs" "a \<in> set xs" "P a"
  shows "add_mset a (mset (filter (\<lambda>n. n \<noteq> a \<and> P n) xs)) = mset (filter P xs)"
proof -
  have "mset (filter P xs) = mset (filter (\<lambda>n. n = a) xs) + mset (filter (\<lambda>n. n \<noteq> a \<and> P n) xs)"
    using assms(3) by (induction xs) auto
  moreover have "filter (\<lambda>n. n = a) xs = [a]" using assms(1,2) by (induction xs) (auto simp: filter_empty_conv)
  ultimately show ?thesis by simp
qed

end
