(* ===== verification/Fanout_Rows.thy ===== *)
theory Fanout_Rows
  imports Fanout_Reach
begin

text \<open>
  What a hierarchical cluster query returns when every request is answered: the rows of each process it
  reaches, once, tagged with that process's node.
\<close>

section \<open>Tagged rows\<close>

definition tag_names :: "string list" where
  "tag_names = [''_host'', ''_addr'', ''_rank'', ''_node_rank'', ''_local_rank'', ''_role'']"

definition tag_kinds :: "nat list" where
  "tag_kinds = [6, 6, 2, 2, 2, 6]"

definition tag_eles :: "FederationEndpointTags \<Rightarrow> Ele list" where
  "tag_eles t = [EleText (tg_host t), EleText (tg_addr t), EleI32 (tg_rank t), EleI32 (tg_node_rank t),
     EleI32 (tg_local_rank t), EleText (tg_role t)]"

lemma foldr_max_snoc: "foldr max (xs @ [n]) (0::nat) = max (foldr max xs 0) n"
  by (induction xs) auto

lemma append_tag_props:
  assumes d: "frame_of names kinds d" and name: "name \<notin> set names"
    and col: "seq_elems col = replicate (df_row_count d) e"
  shows "frame_of (names @ [name]) (kinds @ [seq_kind col]) (append_tag name col d)"
    "df_row_count (append_tag name col d) = df_row_count d" "df_iter (append_tag name col d) = map (\<lambda>r. r @ [e]) (df_iter d)"
proof -
  have t: "append_tag name col d = d\<lparr>df_names := names @ [name], df_cols := df_cols d @ [col]\<rparr>"
    using d name by (simp add: append_tag_def frame_of_def)
  have l: "seq_len col = df_row_count d" using arg_cong [OF col, of length] by simp
  show c: "df_row_count (append_tag name col d) = df_row_count d"
    unfolding t df_row_count_def using foldr_max_snoc [of "map seq_len (df_cols d)" "seq_len col"] l by (simp add: df_row_count_def)
  show "frame_of (names @ [name]) (kinds @ [seq_kind col]) (append_tag name col d)"
    using d l c by (auto simp: frame_of_def t)
  have "df_row (append_tag name col d) r = df_row d r @ [e]" if "r < df_row_count d" for r
    using that l by (simp add: df_row_def t seq_get_elems col)
  then show "df_iter (append_tag name col d) = map (\<lambda>r. r @ [e]) (df_iter d)" by (simp add: df_iter_def c)
qed

lemma append_proto_tags_props:
  assumes d: "frame_of names kinds d" and names: "set names \<inter> set tag_names = {}"
  shows "frame_of (names @ tag_names) (kinds @ tag_kinds) (append_proto_tags t d)"
    "df_iter (append_proto_tags t d) = map (\<lambda>r. r @ tag_eles t) (df_iter d)"
    "df_row_count (append_proto_tags t d) = df_row_count d"
proof -
  let ?n = "df_row_count d"
  have nn: "''_host'' \<notin> set names" "''_addr'' \<notin> set names" "''_rank'' \<notin> set names" "''_node_rank'' \<notin> set names"
    "''_local_rank'' \<notin> set names" "''_role'' \<notin> set names" using names by (auto simp: tag_names_def)
  note 1 = append_tag_props [OF d nn(1), of "SeqText (replicate ?n (tg_host t))" "EleText (tg_host t)"]
  define d1 where "d1 = append_tag ''_host'' (SeqText (replicate ?n (tg_host t))) d"
  have d1: "frame_of (names @ [''_host'']) (kinds @ [6]) d1" "df_row_count d1 = ?n"
    "df_iter d1 = map (\<lambda>r. r @ [EleText (tg_host t)]) (df_iter d)"
    using 1 by (simp_all add: d1_def)
  define d2 where "d2 = append_tag ''_addr'' (SeqText (replicate ?n (tg_addr t))) d1"
  have d2: "frame_of (names @ [''_host'', ''_addr'']) (kinds @ [6, 6]) d2" "df_row_count d2 = ?n"
    "df_iter d2 = map (\<lambda>r. r @ [EleText (tg_addr t)]) (df_iter d1)"
    using append_tag_props [OF d1(1), of "''_addr''" "SeqText (replicate ?n (tg_addr t))" "EleText (tg_addr t)"] nn d1(2)
    by (simp_all add: d2_def)
  define d3 where "d3 = append_tag ''_rank'' (SeqI32 (replicate ?n (tg_rank t))) d2"
  have d3: "frame_of (names @ [''_host'', ''_addr'', ''_rank'']) (kinds @ [6, 6, 2]) d3" "df_row_count d3 = ?n"
    "df_iter d3 = map (\<lambda>r. r @ [EleI32 (tg_rank t)]) (df_iter d2)"
    using append_tag_props [OF d2(1), of "''_rank''" "SeqI32 (replicate ?n (tg_rank t))" "EleI32 (tg_rank t)"] nn d2(2)
    by (simp_all add: d3_def)
  define d4 where "d4 = append_tag ''_node_rank'' (SeqI32 (replicate ?n (tg_node_rank t))) d3"
  have d4: "frame_of (names @ [''_host'', ''_addr'', ''_rank'', ''_node_rank'']) (kinds @ [6, 6, 2, 2]) d4" "df_row_count d4 = ?n"
    "df_iter d4 = map (\<lambda>r. r @ [EleI32 (tg_node_rank t)]) (df_iter d3)"
    using append_tag_props [OF d3(1), of "''_node_rank''" "SeqI32 (replicate ?n (tg_node_rank t))" "EleI32 (tg_node_rank t)"] nn d3(2)
    by (simp_all add: d4_def)
  define d5 where "d5 = append_tag ''_local_rank'' (SeqI32 (replicate ?n (tg_local_rank t))) d4"
  have d5: "frame_of (names @ [''_host'', ''_addr'', ''_rank'', ''_node_rank'', ''_local_rank'']) (kinds @ [6, 6, 2, 2, 2]) d5"
    "df_row_count d5 = ?n" "df_iter d5 = map (\<lambda>r. r @ [EleI32 (tg_local_rank t)]) (df_iter d4)"
    using append_tag_props [OF d4(1), of "''_local_rank''" "SeqI32 (replicate ?n (tg_local_rank t))" "EleI32 (tg_local_rank t)"] nn d4(2)
    by (simp_all add: d5_def)
  define d6 where "d6 = append_tag ''_role'' (SeqText (replicate ?n (tg_role t))) d5"
  have d6: "frame_of (names @ tag_names) (kinds @ tag_kinds) d6" "df_row_count d6 = ?n"
    "df_iter d6 = map (\<lambda>r. r @ [EleText (tg_role t)]) (df_iter d5)"
    using append_tag_props [OF d5(1), of "''_role''" "SeqText (replicate ?n (tg_role t))" "EleText (tg_role t)"] nn d5(2)
    by (simp_all add: d6_def tag_names_def tag_kinds_def)
  have eq: "append_proto_tags t d = d6\<lparr>df_size := df_row_count d6\<rparr>"
    by (simp add: append_proto_tags_def Let_def d1_def d2_def d3_def d4_def d5_def d6_def)
  show "frame_of (names @ tag_names) (kinds @ tag_kinds) (append_proto_tags t d)"
    "df_iter (append_proto_tags t d) = map (\<lambda>r. r @ tag_eles t) (df_iter d)"
    "df_row_count (append_proto_tags t d) = df_row_count d"
    unfolding eq using d6 by (simp_all add: d1(3) d2(3) d3(3) d4(3) d5(3) tag_eles_def)
qed

text \<open>The tags of a registered node whose address no other node has.\<close>

definition node_tags :: "Node \<Rightarrow> Ele list" where
  "node_tags n = [EleText (nd_host n), EleText (nd_addr n), EleI32 (or_minus_one (nd_rank n)),
     EleI32 (or_minus_one (nd_group_rank n)), EleI32 (or_minus_one (nd_local_rank n)),
     EleText (case nd_role n of None \<Rightarrow> [] | Some r \<Rightarrow> r)]"

lemma node_field:
  assumes "reg_inv c" "distinct order" "set order = dom (cl_nodes c)" "inj_on nd_addr (ran (cl_nodes c))" "n \<in> ran (cl_nodes c)"
  shows "cluster_node_field order (nd_host n) (nd_addr n) f c = f n"
proof -
  have "cl_nodes c (node_key n) = Some n" using reg_invD(2) [OF assms(1)] assms(5) by (auto simp: ran_def)
  then have get: "cluster_get_by_addr (nd_host n) (nd_addr n) c = Some n" by (simp add: cluster_get_by_addr_def node_key_def)
  have "List.find (\<lambda>m. nd_addr m = nd_addr n) (get_nodes order c) = Some n"
  proof -
    have "n \<in> set (get_nodes order c)" using get_nodes_props(2) [OF assms(1-3)] assms(5) by simp
    then obtain m where m: "List.find (\<lambda>m. nd_addr m = nd_addr n) (get_nodes order c) = Some m"
      by (cases "List.find (\<lambda>m. nd_addr m = nd_addr n) (get_nodes order c)") (auto simp: find_None_iff)
    then have "m \<in> ran (cl_nodes c)" "nd_addr m = nd_addr n"
      using get_nodes_props(2) [OF assms(1-3)] by (auto simp: find_Some_iff)
    then show ?thesis using m assms(4,5) by (auto dest: inj_onD)
  qed
  then show ?thesis by (simp add: cluster_node_field_def get split: option.split)
qed

lemma tagged_frame:
  assumes c: "reg_inv c" "distinct order" "set order = dom (cl_nodes c)" "inj_on nd_addr (ran (cl_nodes c))"
    and n: "n \<in> ran (cl_nodes c)" and d: "df_is_empty d \<or> frame_of names kinds d" and names: "set names \<inter> set tag_names = {}"
  shows "df_is_empty (tag_proto_dataframe order c (nd_host n) (nd_addr n) (nd_rank n) d) \<or>
      frame_of (names @ tag_names) (kinds @ tag_kinds) (tag_proto_dataframe order c (nd_host n) (nd_addr n) (nd_rank n) d)"
    "df_iter (tag_proto_dataframe order c (nd_host n) (nd_addr n) (nd_rank n) d) = map (\<lambda>r. r @ node_tags n) (df_iter d)"
proof -
  note f = node_field [OF c n]
  let ?t = "federation_tags_for_endpoint order (nd_host n) (nd_addr n) c"
  have t: "tag_eles (case nd_rank n of None \<Rightarrow> ?t | Some r \<Rightarrow> ?t\<lparr>tg_rank := r\<rparr>) = node_tags n"
    by (simp add: tag_eles_def node_tags_def federation_tags_for_endpoint_def cluster_role_for_endpoint_def f or_minus_one_def split: option.split)
  show "df_is_empty (tag_proto_dataframe order c (nd_host n) (nd_addr n) (nd_rank n) d) \<or>
      frame_of (names @ tag_names) (kinds @ tag_kinds) (tag_proto_dataframe order c (nd_host n) (nd_addr n) (nd_rank n) d)"
    using d append_proto_tags_props(1) [OF _ names] by (auto simp: tag_proto_dataframe_def Let_def)
  show "df_iter (tag_proto_dataframe order c (nd_host n) (nd_addr n) (nd_rank n) d) = map (\<lambda>r. r @ node_tags n) (df_iter d)"
    using d append_proto_tags_props(2) [OF _ names] t by (auto simp: tag_proto_dataframe_def Let_def df_iter_empty)
qed

end
