(* ===== verification/Fanout_Job.thy ===== *)
theory Fanout_Job
  imports Fanout_Rows
begin

text \<open>
  A job in which every process knows the same registry and every request is answered: the rows that a
  hierarchical query returns, exactly.
\<close>

section \<open>A job\<close>

definition alive_nodes :: "string list \<Rightarrow> Cluster \<Rightarrow> Node list" where
  "alive_nodes order c = filter is_node_alive (get_nodes order c)"

text \<open>\<open>p\<close> is the process registered as node \<open>n\<close>, and its own query returns \<open>result n\<close>.\<close>

definition runs_as :: "string list \<Rightarrow> Cluster \<Rightarrow> (Node \<Rightarrow> DataFrame) \<Rightarrow> Node \<Rightarrow> process \<Rightarrow> bool" where
  "runs_as order c result n p \<longleftrightarrow>
     pr_cluster p = c \<and> pr_order p = order \<and> pr_host p = nd_host n \<and> nd_host n \<noteq> [] \<and> pr_label p = nd_addr n \<and>
     nd_addr n \<in> set (pr_listen p) \<and> (\<forall>m \<in> ran (cl_nodes c). nd_addr m \<in> set (pr_listen p) \<longrightarrow> m = n) \<and>
     pr_local_rank p = nd_local_rank n \<and> pr_group_rank p = nd_group_rank n \<and> pr_rank p = nd_rank n \<and>
     pr_query p = (\<lambda>_. Inr (result n))"

definition job_ok :: "network \<Rightarrow> string list \<Rightarrow> Cluster \<Rightarrow> string list \<Rightarrow> nat list \<Rightarrow> (Node \<Rightarrow> DataFrame) \<Rightarrow> bool" where
  "job_ok net order c names kinds result \<longleftrightarrow>
     reg_inv c \<and> distinct order \<and> set order = dom (cl_nodes c) \<and> inj_on nd_addr (ran (cl_nodes c)) \<and>
     hierarchical_metadata_available order c \<and> schema_ok names kinds \<and> set names \<inter> set tag_names = {} \<and>
     (\<forall>n \<in> set (alive_nodes order c). (\<exists>p. net_reach net (nd_addr n) = Inr p \<and> runs_as order c result n p) \<and>
        (df_is_empty (result n) \<or> frame_of names kinds (result n))) \<and>
     (\<forall>ns. mset (net_arrive net ns) = mset ns)"

definition node_rows :: "(Node \<Rightarrow> DataFrame) \<Rightarrow> Node \<Rightarrow> Ele list list" where
  "node_rows result n = map (\<lambda>r. r @ node_tags n) (df_iter (result n))"

definition group_nodes :: "Node list \<Rightarrow> Node \<Rightarrow> Node list" where
  "group_nodes alive a = filter (\<lambda>n. nd_group_rank n = nd_group_rank a) alive"

lemma mset_concat_map_cong: "mset xs = mset ys \<Longrightarrow> mset (concat (map f xs)) = mset (concat (map f ys))"
  by (simp add: mset_concat) (metis (no_types) mset_map sum_mset_sum_list)

lemma concat_concat_map: "concat (map f (concat xss)) = concat (map (\<lambda>xs. concat (map f xs)) xss)"
  by (induction xss) auto

text \<open>An outcome that is complete, for a list of nodes.\<close>

definition complete_for :: "(Node \<Rightarrow> DataFrame) \<Rightarrow> string list \<Rightarrow> nat list \<Rightarrow> Node list \<Rightarrow> FanoutOutcome \<Rightarrow> bool" where
  "complete_for result names kinds ns out \<longleftrightarrow>
     mset (df_iter (fo_dataframe out)) = mset (concat (map (node_rows result) ns)) \<and>
     (df_is_empty (fo_dataframe out) \<or> frame_of (names @ tag_names) (kinds @ tag_kinds) (fo_dataframe out)) \<and>
     fm_nodes_queried (fo_meta out) = length ns \<and> fm_nodes_failed (fo_meta out) = [] \<and>
     fm_peer_batches_dropped (fo_meta out) = 0 \<and> \<not> fm_partial (fo_meta out)"

lemma job_okD:
  assumes "job_ok net order c names kinds result"
  shows "reg_inv c" "distinct order" "set order = dom (cl_nodes c)" "inj_on nd_addr (ran (cl_nodes c))"
    "hierarchical_metadata_available order c" "schema_ok names kinds" "set names \<inter> set tag_names = {}"
    "mset (net_arrive net ns) = mset ns"
    "n \<in> set (alive_nodes order c) \<Longrightarrow> \<exists>p. net_reach net (nd_addr n) = Inr p \<and> runs_as order c result n p"
    "n \<in> set (alive_nodes order c) \<Longrightarrow> df_is_empty (result n) \<or> frame_of names kinds (result n)"
  using assms unfolding job_ok_def by blast+

lemma alive_props:
  assumes "job_ok net order c names kinds result"
  shows "distinct (alive_nodes order c)" "n \<in> set (alive_nodes order c) \<Longrightarrow> n \<in> ran (cl_nodes c)"
    "n \<in> set (alive_nodes order c) \<Longrightarrow> nd_group_rank n \<noteq> None"
  using get_nodes_props [OF job_okD(1-3) [OF assms]] job_okD(5) [OF assms]
  by (auto simp: alive_nodes_def hierarchical_metadata_available_def Let_def)

lemma tag_schema: "job_ok net order c names kinds result \<Longrightarrow> schema_ok (names @ tag_names) (kinds @ tag_kinds)"
  using job_okD(6,7) [of net order c names kinds result] by (auto simp: schema_ok_def tag_names_def tag_kinds_def)

lemma same_rank:
  assumes "reg_inv c" "n \<in> ran (cl_nodes c)" "m \<in> ran (cl_nodes c)" "nd_rank n = Some r" "nd_rank m = Some r"
  shows "m = n"
proof -
  from assms(2,3) obtain k l where kl: "cl_nodes c k = Some n" "cl_nodes c l = Some m" by (auto simp: ran_def)
  from rank_unique [OF assms(1) kl assms(4,5)] kl show ?thesis by simp
qed

lemma leaf_peers_eq:
  assumes job: "job_ok net order c names kinds result" and n: "n \<in> set (alive_nodes order c)" and p: "runs_as order c result n p"
  shows "leaf_peers p = filter (\<lambda>m. m \<noteq> n \<and> nd_group_rank m = nd_group_rank n) (alive_nodes order c)"
proof -
  note a = alive_props [OF job]
  obtain g where g: "nd_group_rank n = Some g" using a(3) [OF n] by auto
  have own: "nd_addr n \<in> set (pr_listen p)" "\<And>m. m \<in> ran (cl_nodes c) \<Longrightarrow> nd_addr m \<in> set (pr_listen p) \<Longrightarrow> m = n"
    and env: "pr_rank p = nd_rank n" "pr_group_rank p = Some g" "pr_cluster p = c" "pr_order p = order"
    using p g by (auto simp: runs_as_def)
  have "leaf_peers p = filter (\<lambda>m. nd_addr m \<notin> set (pr_listen p) \<and> nd_group_rank m = Some g \<and>
      \<not> (nd_rank m \<noteq> None \<and> nd_rank n \<noteq> None \<and> nd_rank m = nd_rank n)) (alive_nodes order c)"
    by (simp add: leaf_peers_def local_leaf_peers_def env alive_nodes_def)
  also have "\<dots> = filter (\<lambda>m. m \<noteq> n \<and> nd_group_rank m = nd_group_rank n) (alive_nodes order c)"
  proof (rule filter_cong [OF refl])
    fix m assume "m \<in> set (alive_nodes order c)"
    then have m: "m \<in> ran (cl_nodes c)" by (rule a(2))
    have "m \<noteq> n \<Longrightarrow> \<not> (nd_rank m \<noteq> None \<and> nd_rank n \<noteq> None \<and> nd_rank m = nd_rank n)"
      using same_rank [OF job_okD(1) [OF job] a(2) [OF n] m] by (cases "nd_rank n") auto
    then show "(nd_addr m \<notin> set (pr_listen p) \<and> nd_group_rank m = Some g \<and>
        \<not> (nd_rank m \<noteq> None \<and> nd_rank n \<noteq> None \<and> nd_rank m = nd_rank n)) \<longleftrightarrow> (m \<noteq> n \<and> nd_group_rank m = nd_group_rank n)"
      unfolding g using own m by blast
  qed
  finally show ?thesis .
qed

section \<open>Node tiers\<close>

text \<open>The tagged frame of one process.\<close>

definition part_of :: "string list \<Rightarrow> Cluster \<Rightarrow> (Node \<Rightarrow> DataFrame) \<Rightarrow> Node \<Rightarrow> DataFrame" where
  "part_of order c result n = tag_proto_dataframe order c (nd_host n) (nd_addr n) (nd_rank n) (result n)"

lemma part_of_props:
  assumes job: "job_ok net order c names kinds result" and n: "n \<in> set (alive_nodes order c)"
  shows "df_is_empty (part_of order c result n) \<or> frame_of (names @ tag_names) (kinds @ tag_kinds) (part_of order c result n)"
    "df_iter (part_of order c result n) = node_rows result n"
  using tagged_frame [OF job_okD(1-4) [OF job] alive_props(2) [OF job n] job_okD(10) [OF job n] job_okD(7) [OF job]]
  by (simp_all add: part_of_def node_rows_def)

lemma local_part_eq:
  assumes job: "job_ok net order c names kinds result" and n: "n \<in> set (alive_nodes order c)" and p: "runs_as order c result n p"
  shows "local_part p (result n) = part_of order c result n"
  using p node_field [OF job_okD(1-4) [OF job] alive_props(2) [OF job n], of nd_rank]
  by (simp add: local_part_def tag_for_def part_of_def runs_as_def)

lemma leaf_steps:
  assumes job: "job_ok net order c names kinds result" and n: "n \<in> set (alive_nodes order c)" and p: "runs_as order c result n p"
    and ns: "set ns \<subseteq> set (alive_nodes order c)"
  shows "foldl (leaf_step p net) (m, parts) ns =
    (m\<lparr>fm_nodes_queried := fm_nodes_queried m + length ns\<rparr>, parts @ map (part_of order c result) ns)"
  using ns
proof (induction ns arbitrary: m parts)
  case (Cons l ns)
  then obtain q where q: "net_reach net (nd_addr l) = Inr q" "runs_as order c result l q"
    using job_okD(9) [OF job, of l] by auto
  have "query_leaf net l = Inr (result l)" "nd_host l \<noteq> []" using q by (simp_all add: query_leaf_def runs_as_def)
  moreover have "pr_cluster p = c" "pr_order p = order" using p by (simp_all add: runs_as_def)
  ultimately have "leaf_step p net (m, parts) l = (record_peer_success m, parts @ [part_of order c result l])"
    by (simp add: leaf_step_def tag_for_def part_of_def)
  then show ?case using Cons by (simp add: record_peer_success_def)
qed simp

lemma node_tier_complete:
  assumes job: "job_ok net order c names kinds result" and n: "n \<in> set (alive_nodes order c)" and p: "runs_as order c result n p"
    and l0: "nd_local_rank n = Some 0"
  shows "\<exists>out. fanout_node_tier p net h = Inr out \<and>
    complete_for result names kinds (group_nodes (alive_nodes order c) n) out"
proof -
  let ?ls = "filter (\<lambda>m. m \<noteq> n \<and> nd_group_rank m = nd_group_rank n) (alive_nodes order c)"
  let ?all = "n # net_arrive net ?ls"
  have ms: "mset ?all = mset (group_nodes (alive_nodes order c) n)"
    using mset_take_out [OF alive_props(1) [OF job] n, of "\<lambda>m. nd_group_rank m = nd_group_rank n"] job_okD(8) [OF job, of ?ls]
    by (simp add: group_nodes_def)
  have sub: "set ?all \<subseteq> set (alive_nodes order c)"
    unfolding mset_eq_setD [OF ms] by (simp add: group_nodes_def)
  have q: "is_local0 p" "pr_query p ScopeNode = Inr (result n)" using p l0 by (auto simp: is_local0_def runs_as_def)
  let ?m = "(meta_local True h FanNode)\<lparr>fm_local_ranks_queried := length ?ls\<rparr>"
  let ?m' = "?m\<lparr>fm_nodes_queried := fm_nodes_queried ?m + length (net_arrive net ?ls)\<rparr>"
  let ?parts = "map (part_of order c result) ?all"
  have steps: "foldl (leaf_step p net) (?m, [local_part p (result n)]) (net_arrive net ?ls) = (?m', ?parts)"
    using leaf_steps [OF job n p, of "net_arrive net ?ls"] sub local_part_eq [OF job n p] by simp
  have run: "fanout_node_tier p net h = finish_fanout p (merge_dataframes ?parts) ?m'"
    using q steps unfolding fanout_node_tier_def leaf_peers_eq [OF job n p] by (simp add: Let_def)
  have fin: "finish_fanout p d ?m' = Inr \<lparr>fo_dataframe = d, fo_meta = meta_finalize ?m'\<rparr>" for d
    by (simp add: finish_fanout_def Let_def meta_finalize_def meta_local_def meta_empty_def)
  have frames: "\<forall>d \<in> set ?parts. df_is_empty d \<or> frame_of (names @ tag_names) (kinds @ tag_kinds) d"
    using part_of_props(1) [OF job] sub by auto
  have rows: "concat (map df_iter ?parts) = concat (map (node_rows result) ?all)"
    unfolding map_map comp_def
    by (rule arg_cong [of _ _ concat], rule map_cong [OF refl], rule part_of_props(2) [OF job]) (use sub in blast)
  have "complete_for result names kinds (group_nodes (alive_nodes order c) n) \<lparr>fo_dataframe = merge_dataframes ?parts, fo_meta = meta_finalize ?m'\<rparr>"
    using merge_frames [OF tag_schema [OF job] frames] mset_concat_map_cong [OF ms, of "node_rows result"] arg_cong [OF ms, of size] rows
    by (simp add: complete_for_def meta_finalize_def meta_local_def meta_empty_def)
  then show ?thesis unfolding run fin by blast
qed

section \<open>The coordinator\<close>

lemma query_node_complete:
  assumes job: "job_ok net order c names kinds result" and n: "n \<in> set (alive_nodes order c)" and l0: "nd_local_rank n = Some 0"
  shows "\<exists>out. query_node caller net n = Inr out \<and> complete_for result names kinds (group_nodes (alive_nodes order c) n) out"
proof -
  obtain p where p: "net_reach net (nd_addr n) = Inr p" "runs_as order c result n p" using job_okD(9) [OF job n] by blast
  obtain out where out: "fanout_node_tier p net True = Inr out" "complete_for result names kinds (group_nodes (alive_nodes order c) n) out"
    using node_tier_complete [OF job n p(2) l0] by blast
  have "metadata_available p" using p(2) job_okD(5) [OF job] by (simp add: metadata_available_def runs_as_def)
  then have "serve_node_query p net = Inr out" by (simp add: serve_node_query_def plan_fanout_def Let_def out(1))
  then have "query_node caller net n = Inr out" using out(2) by (simp add: query_node_def p(1) complete_for_def)
  then show ?thesis using out(2) by blast
qed

text \<open>The frames collected so far and the counters, for the nodes \<open>ns\<close> they come from.\<close>

definition collected :: "(Node \<Rightarrow> DataFrame) \<Rightarrow> string list \<Rightarrow> nat list \<Rightarrow> Node list \<Rightarrow> FanoutMeta \<times> DataFrame list \<Rightarrow> bool" where
  "collected result names kinds ns acc \<longleftrightarrow>
     mset (concat (map df_iter (snd acc))) = mset (concat (map (node_rows result) ns)) \<and>
     (\<forall>d \<in> set (snd acc). df_is_empty d \<or> frame_of (names @ tag_names) (kinds @ tag_kinds) d) \<and>
     fm_nodes_queried (fst acc) = length ns \<and> fm_nodes_failed (fst acc) = [] \<and>
     fm_peer_batches_dropped (fst acc) = 0 \<and> \<not> fm_partial (fst acc)"

lemma collected_absorb:
  assumes "collected result names kinds ns (m, parts)" "complete_for result names kinds ns' out"
  shows "collected result names kinds (ns @ ns')
    (meta_absorb (fo_meta out) m, if df_is_empty (fo_dataframe out) then parts else parts @ [fo_dataframe out])"
  using assms df_iter_empty [of "fo_dataframe out"] by (auto simp: collected_def complete_for_def meta_absorb_def)

lemma node_steps:
  assumes job: "job_ok net order c names kinds result" and as: "set as \<subseteq> {a \<in> set (alive_nodes order c). nd_local_rank a = Some 0}"
    and acc: "collected result names kinds ns acc"
  shows "collected result names kinds (ns @ concat (map (group_nodes (alive_nodes order c)) as)) (foldl (node_step p net) acc as)"
  using as acc
proof (induction as arbitrary: ns acc)
  case (Cons a as)
  obtain m parts where mp: "acc = (m, parts)" by fastforce
  obtain out where out: "query_node p net a = Inr out" "complete_for result names kinds (group_nodes (alive_nodes order c) a) out"
    using query_node_complete [OF job, of a p] Cons.prems(1) by auto
  have "collected result names kinds (ns @ group_nodes (alive_nodes order c) a) (node_step p net acc a)"
    using collected_absorb [OF Cons.prems(2) [unfolded mp] out(2)] by (simp add: node_step_def mp out(1))
  from Cons.IH [OF _ this] Cons.prems(1) show ?case by simp
qed simp

lemma collected_finish:
  assumes job: "job_ok net order c names kinds result" and acc: "collected result names kinds ns (m, parts)"
  shows "\<exists>out. finish_fanout p (merge_dataframes parts) m = Inr out \<and> complete_for result names kinds ns out"
  using acc merge_frames [OF tag_schema [OF job], of parts]
  by (auto simp: collected_def complete_for_def finish_fanout_def Let_def meta_finalize_def)

text \<open>The nodes a query reaches: those whose group has an alive process of local rank 0.\<close>

definition reached_nodes :: "Node list \<Rightarrow> Node list" where
  "reached_nodes alive = filter (\<lambda>n. \<exists>a \<in> set alive. nd_local_rank a = Some 0 \<and> nd_group_rank a = nd_group_rank n) alive"

lemma reached_by_groups:
  assumes "distinct (map nd_group_rank (s # as))" "nd_group_rank ` set (s # as) = nd_group_rank ` {a \<in> set alive. nd_local_rank a = Some 0}"
  shows "mset (group_nodes alive s @ concat (map (group_nodes alive) as)) = mset (reached_nodes alive)"
proof -
  have "mset (group_nodes alive s @ concat (map (group_nodes alive) as)) =
      sum_list (map (\<lambda>g. mset (filter (\<lambda>n. nd_group_rank n = g) alive)) (map nd_group_rank (s # as)))"
    by (simp add: mset_concat group_nodes_def comp_def)
  also have "\<dots> = mset (filter (\<lambda>n. nd_group_rank n \<in> set (map nd_group_rank (s # as))) alive)"
    by (rule mset_by_groups [OF assms(1)])
  also have "filter (\<lambda>n. nd_group_rank n \<in> set (map nd_group_rank (s # as))) alive = reached_nodes alive"
    unfolding reached_nodes_def set_map assms(2) by (rule filter_cong [OF refl]) (auto simp: image_iff)
  finally show ?thesis .
qed

theorem coordinator_complete:
  assumes job: "job_ok net order c names kinds result"
    and s: "s \<in> set (alive_nodes order c)" "nd_local_rank s = Some 0" "runs_as order c result s p" "pr_hierarchical p"
    and only: "\<forall>a \<in> set (alive_nodes order c). nd_local_rank a = Some 0 \<and> nd_group_rank a = nd_group_rank s \<longrightarrow> a = s"
  shows "\<exists>out. fanout_query p net catalog True FanAuto = Inr out \<and>
    complete_for result names kinds (reached_nodes (alive_nodes order c)) out"
proof -
  let ?alive = "alive_nodes order c" and ?as = "aggregator_peers p"
  have p: "is_local0 p" "metadata_available p" "pr_cluster p = c" "pr_order p = order"
    using s(2,3) job_okD(5) [OF job] by (auto simp: is_local0_def runs_as_def metadata_available_def)
  have listen: "nd_addr n \<in> set (pr_listen p) \<longleftrightarrow> n = s" if "n \<in> set ?alive" for n
    using s(3) alive_props(2) [OF job that] by (auto simp: runs_as_def)
  have cand: "{n \<in> set ?alive. agg_candidate (pr_listen p) n} = {n \<in> set ?alive. nd_local_rank n = Some 0 \<and> n \<noteq> s}"
    using alive_props(3) [OF job] listen by (auto simp: agg_candidate_def)
  note ag = aggregators [of ?alive order c "pr_listen p", OF alive_nodes_def, unfolded cand]
  have as: "?as = node_aggregator_peers order (pr_listen p) c" by (simp add: aggregator_peers_def p)
  have arr: "mset (net_arrive net ?as) = mset ?as" by (rule job_okD(8) [OF job])
  have set: "set (net_arrive net ?as) = set ?as" using arr by (metis mset_eq_setD)
  have "distinct (map nd_group_rank (net_arrive net ?as))"
    using ag(3) arr unfolding as by (metis mset_eq_imp_distinct_iff mset_map)
  moreover have "nd_group_rank s \<notin> nd_group_rank ` set (net_arrive net ?as)"
    using ag(1) only unfolding set unfolding as by fastforce
  moreover have "nd_group_rank ` set (s # net_arrive net ?as) = nd_group_rank ` {a \<in> set ?alive. nd_local_rank a = Some 0}"
    using ag(2) s(1,2) set unfolding as by auto
  ultimately have reach: "mset (group_nodes ?alive s @ concat (map (group_nodes ?alive) (net_arrive net ?as))) = mset (reached_nodes ?alive)"
    by (intro reached_by_groups) simp_all
  obtain local_out where lo: "fanout_node_tier p net True = Inr local_out" "complete_for result names kinds (group_nodes ?alive s) local_out"
    using node_tier_complete [OF job s(1,3,2)] by blast
  let ?m = "meta_absorb (fo_meta local_out) ((meta_empty True True FanCoordinator)\<lparr>fm_local_ranks_queried := fm_local_ranks_queried (fo_meta local_out)\<rparr>)"
  let ?acc = "(?m\<lparr>fm_node_aggregators_queried := length ?as\<rparr>, if df_is_empty (fo_dataframe local_out) then [] else [fo_dataframe local_out])"
  have "collected result names kinds (group_nodes ?alive s) ?acc"
    using lo(2) df_iter_empty [of "fo_dataframe local_out"]
    by (auto simp: collected_def complete_for_def meta_absorb_def meta_empty_def)
  moreover have "set (net_arrive net ?as) \<subseteq> {a \<in> set ?alive. nd_local_rank a = Some 0}"
    using ag(1) unfolding set unfolding as by blast
  ultimately have col: "collected result names kinds (group_nodes ?alive s @ concat (map (group_nodes ?alive) (net_arrive net ?as)))
      (foldl (node_step p net) ?acc (net_arrive net ?as))" by (rule node_steps [OF job, rotated])
  obtain m' parts' where mp: "foldl (node_step p net) ?acc (net_arrive net ?as) = (m', parts')" by fastforce
  have "fanout_query p net catalog True FanAuto = finish_fanout p (merge_dataframes parts') m'"
    using p s(4) lo(1) mp
    by (simp add: fanout_query_def plan_fanout_def resolve_scope_def Let_def broadcast_fanout_query_def broadcast_from_coordinator_def)
  moreover obtain out where out: "finish_fanout p (merge_dataframes parts') m' = Inr out"
    "complete_for result names kinds (group_nodes ?alive s @ concat (map (group_nodes ?alive) (net_arrive net ?as))) out"
    using collected_finish [OF job col [unfolded mp]] by blast
  moreover have "complete_for result names kinds (reached_nodes ?alive) out"
    using out(2) mset_concat_map_cong [OF reach, of "node_rows result"] arg_cong [OF reach, of size]
    by (simp add: complete_for_def)
  ultimately show ?thesis by simp
qed

end
