(* ===== verification/Cluster_Report.thy ===== *)
theory Cluster_Report
  imports Cluster_Invariant
begin

text \<open>
  Heartbeats between a reporter (local rank 0 of a node) and the global coordinator: \<open>report_once\<close> and
  \<open>apply_global_snapshot\<close> of \<open>probing/server/src/torchrun_cluster.rs\<close>, with the nodes a reporter
  sends. A round is one report and its answer; the proofs show when it leaves both registries with the
  same nodes and when it does not.
\<close>

section \<open>The reporter\<close>

definition local_group_nodes :: "i32 \<Rightarrow> Node list \<Rightarrow> Node list" where
  "local_group_nodes grp nodes = filter (\<lambda>n. nd_group_rank n = Some grp) nodes"

definition local_leaf_nodes :: "i32 \<Rightarrow> i32 \<Rightarrow> Node list \<Rightarrow> Node list" where
  "local_leaf_nodes grp self_rank nodes = filter (\<lambda>n. nd_rank n \<noteq> Some self_rank) (local_group_nodes grp nodes)"

definition merge_self_into_nodes :: "Node \<Rightarrow> Node list \<Rightarrow> Node list" where
  "merge_self_into_nodes self_node nodes =
    (case nd_rank self_node of
       Some rank \<Rightarrow> if \<exists>n \<in> set nodes. nd_rank n = Some rank then nodes else self_node # nodes
     | None \<Rightarrow> self_node # nodes)"

text \<open>\<open>fetched\<close> is the answer of the own server to \<open>fetch_nodes_blocking\<close>, None when it fails.\<close>

definition nodes_for_upstream_report :: "i32 \<Rightarrow> i32 \<Rightarrow> i32 \<Rightarrow> Node \<Rightarrow> Node list option \<Rightarrow> Node list" where
  "nodes_for_upstream_report local_rank grp self_rank self_node fetched =
    (if local_rank \<noteq> 0 then [self_node]
     else case fetched of
       None \<Rightarrow> [self_node]
     | Some store_nodes \<Rightarrow>
         (let leaves = local_leaf_nodes grp self_rank store_nodes
          in if leaves = [] then [self_node] else merge_self_into_nodes self_node leaves))"

text \<open>A reporter: the version it saw last and its own registry.\<close>

record reporter =
  rp_seen :: u64
  rp_state :: cluster_state

text \<open>\<open>clock\<close> gives each node of the answer the time at which it is stored.\<close>

definition apply_global_snapshot :: "(Node list \<Rightarrow> (nat \<times> Node) list) \<Rightarrow> NodeReportResponse \<Rightarrow> cluster_state \<Rightarrow> cluster_state" where
  "apply_global_snapshot clock resp st =
    (if nr_nodes resp = [] \<and> nr_removed resp = [] then st
     else apply_snapshot_delta (clock (nr_nodes resp)) (nr_removed resp) (nr_version resp) st)"

definition report_once ::
  "i32 \<Rightarrow> i32 \<Rightarrow> (Node list \<Rightarrow> (nat \<times> Node) list) \<Rightarrow> (Node list \<Rightarrow> u64 \<Rightarrow> NodeReportResponse option) \<Rightarrow> Node list \<Rightarrow> reporter \<Rightarrow> reporter" where
  "report_once global_rank local_rank clock put_nodes_blocking nodes rp =
    (case put_nodes_blocking nodes (rp_seen rp) of
       None \<Rightarrow> rp
     | Some resp \<Rightarrow>
         (let rp = rp\<lparr>rp_seen := nr_version resp\<rparr>
          in if global_rank \<noteq> 0 \<and> local_rank = 0
             then rp\<lparr>rp_state := apply_global_snapshot clock resp (rp_state rp)\<rparr> else rp))"

text \<open>The coordinator at the other end.\<close>

definition coordinator_put ::
  "string list \<Rightarrow> nat \<Rightarrow> nat \<Rightarrow> (Node list \<Rightarrow> (nat \<times> Node) list) \<Rightarrow> cluster_state \<Rightarrow> Node list \<Rightarrow> u64 \<Rightarrow> NodeReportResponse \<times> cluster_state" where
  "coordinator_put order threshold now clock st nodes seen = apply_node_report order threshold now (clock nodes) seen st"

section \<open>Storing several nodes\<close>

text \<open>Nodes of different keys and ranks are all stored; who held one of the ranks is gone.\<close>

definition reported_ok :: "Node list \<Rightarrow> bool" where
  "reported_ok ns \<longleftrightarrow> distinct (map node_key ns) \<and> distinct (filter (\<lambda>r. r \<noteq> None) (map nd_rank ns))"

definition lookup_key :: "Node list \<Rightarrow> string \<Rightarrow> Node option" where
  "lookup_key ns = map_of (map (\<lambda>n. (node_key n, n)) ns)"

lemma lookup_key_Some: "distinct (map node_key ns) \<Longrightarrow> lookup_key ns k = Some n \<longleftrightarrow> n \<in> set ns \<and> node_key n = k"
  by (auto simp: lookup_key_def comp_def map_of_eq_Some_iff)

lemma lookup_key_None: "lookup_key ns k = None \<longleftrightarrow> k \<notin> node_key ` set ns"
  by (auto simp: lookup_key_def map_of_eq_None_iff image_image)

lemma put_all:
  assumes "reported_ok ns"
  shows "foldl (\<lambda>m n. put_nodes n m) m ns k =
    (case lookup_key ns k of Some n \<Rightarrow> Some n
     | None \<Rightarrow> if \<exists>n \<in> set ns. holds_rank m (nd_rank n) k then None else m k)"
  using assms
proof (induction ns arbitrary: k rule: rev_induct)
  case Nil
  then show ?case by (simp add: lookup_key_def)
next
  case (snoc n ns)
  let ?M = "foldl (\<lambda>m n. put_nodes n m) m ns"
  have ok: "reported_ok ns" using snoc.prems by (auto simp: reported_ok_def)
  note IH = snoc.IH [OF ok]
  have key: "node_key n \<notin> node_key ` set ns" using snoc.prems by (auto simp: reported_ok_def)
  have rank: "nd_rank n \<noteq> None \<Longrightarrow> nd_rank n \<notin> nd_rank ` set ns" using snoc.prems by (auto simp: reported_ok_def)
  show ?case
  proof (cases "k = node_key n")
    case True
    have "lookup_key (ns @ [n]) k = Some n" using snoc.prems True by (subst lookup_key_Some) (auto simp: reported_ok_def)
    then show ?thesis using True by (simp add: put_nodes_def)
  next
    case False
    have look: "lookup_key (ns @ [n]) k = lookup_key ns k"
      using False by (simp add: lookup_key_def map_add_def split: option.split)
    have step: "foldl (\<lambda>m n. put_nodes n m) m (ns @ [n]) k = (if holds_rank ?M (nd_rank n) k then None else ?M k)"
      using False by (simp add: put_nodes_def)
    show ?thesis
    proof (cases "lookup_key ns k")
      case None
      then show ?thesis unfolding step look using IH [of k] by (auto simp: holds_rank_def split: if_splits)
    next
      case (Some n')
      then have "n' \<in> set ns" using lookup_key_Some [of ns k n'] ok by (simp add: reported_ok_def)
      then have "nd_rank n' \<in> nd_rank ` set ns" by simp
      then have "\<not> holds_rank ?M (nd_rank n) k" using IH [of k] Some rank by (auto simp: holds_rank_def)
      then show ?thesis unfolding step look using IH [of k] Some by simp
    qed
  qed
qed

lemma update_nodes_put_all:
  assumes "reg_inv c" "reported_ok (map snd ns)"
  shows "cl_nodes (update_nodes ns c) k =
    (case lookup_key (map (\<lambda>(t, n). stamped t n) ns) k of Some n \<Rightarrow> Some n
     | None \<Rightarrow> if \<exists>n \<in> snd ` set ns. holds_rank (cl_nodes c) (nd_rank n) k then None else cl_nodes c k)"
proof -
  have "foldl (\<lambda>m (now, n). put_nodes (stamped now n) m) m ns = foldl (\<lambda>m n. put_nodes n m) m (map (\<lambda>(t, n). stamped t n) ns)" for m
    by (simp add: foldl_map case_prod_beta')
  moreover have "reported_ok (map (\<lambda>(t, n). stamped t n) ns)"
    using assms(2) by (simp add: reported_ok_def case_prod_beta' comp_def)
  ultimately show ?thesis using put_all [of "map (\<lambda>(t, n). stamped t n) ns" "cl_nodes c" k]
    by (simp add: update_nodes_eq [OF assms(1)] case_prod_beta' image_image) (auto split: option.split)
qed

lemma set_map_filter: "set (List.map_filter f xs) = {y. \<exists>x \<in> set xs. f x = Some y}"
  by (induction xs) (auto simp: List.map_filter_simps split: option.split)

lemma replaced_keys:
  assumes "reg_inv c"
  shows "k \<in> set (replaced_node_keys ns c) \<longleftrightarrow> (\<exists>n \<in> set ns. holds_rank (cl_nodes c) (nd_rank n) k \<and> node_key n \<noteq> k)"
proof -
  have "do { rank \<leftarrow> nd_rank n; previous \<leftarrow> cluster_get rank c;
        (if node_key previous \<noteq> node_key n then Some (node_key previous) else None) } = Some k \<longleftrightarrow>
      holds_rank (cl_nodes c) (nd_rank n) k \<and> node_key n \<noteq> k" for n
  proof (cases "nd_rank n")
    case (Some r)
    have "cluster_get r c = Some p \<longleftrightarrow> cl_nodes c (node_key p) = Some p \<and> nd_rank p = Some r" for p
      using reg_invD(2,3) [OF assms] by (auto simp: cluster_get_def bind_eq_Some_conv)
    then have "(\<exists>p. cluster_get r c = Some p \<and> node_key p \<noteq> node_key n \<and> node_key p = k) \<longleftrightarrow>
        (\<exists>p. cl_nodes c k = Some p \<and> nd_rank p = Some r) \<and> node_key n \<noteq> k"
      using reg_invD(2) [OF assms] by metis
    then show ?thesis by (auto simp: Some bind_eq_Some_conv holds_rank_def)
  qed (simp add: holds_rank_def)
  then show ?thesis unfolding replaced_node_keys_def set_map_filter by simp
qed

text \<open>Nodes that are all registered may be reported together.\<close>

lemma registered_ok:
  assumes "reg_inv c" "distinct (map node_key ns)" "\<forall>n \<in> set ns. cl_nodes c (node_key n) = Some n"
  shows "reported_ok ns"
proof -
  have "distinct (filter (\<lambda>r. r \<noteq> None) (map nd_rank ns))"
    using assms(2,3)
  proof (induction ns)
    case (Cons n ns)
    have "nd_rank m \<noteq> nd_rank n" if "m \<in> set ns" "nd_rank n \<noteq> None" for m
    proof
      assume eq: "nd_rank m = nd_rank n"
      with that obtain r where r: "nd_rank n = Some r" "nd_rank m = Some r" by auto
      have "node_key m = node_key n"
        using rank_unique [OF assms(1) _ _ r] Cons.prems(2) that(1) by simp
      then show False using Cons.prems(1) imageI [OF that(1), of node_key] by auto
    qed
    then show ?case using Cons by auto
  qed simp
  then show ?thesis using assms(2) by (simp add: reported_ok_def)
qed

section \<open>One report\<close>

text \<open>What the coordinator answers to an up-to-date reporter: what it stored, and the nodes that just died.\<close>

lemma report_answer:
  assumes inv: "reg_inv (cs_cluster cst)" and ok: "reported_ok (map snd ns)" and ne: "ns \<noteq> []"
    and order: "distinct order" "set order = dom (cl_nodes (update_nodes ns (cs_cluster cst)))"
    and recent: "\<forall>(t, n) \<in> set ns. now - t \<le> threshold" "threshold < 2 ^ 64"
    and seen: "cs_version cst \<le> seen" "0 < seen"
    and run: "apply_node_report order threshold now ns seen cst = (resp, cst')"
  obtains dead where "nr_nodes resp = map (\<lambda>(t, n). stamped t n) ns @ List.map_filter (cl_nodes (cs_cluster cst')) dead"
    "distinct dead" "set dead = {k. \<exists>n. cl_nodes (update_nodes ns (cs_cluster cst)) k = Some n \<and> node_stale threshold now n}"
    "set (nr_removed resp) = set (replaced_node_keys (map snd ns) (cs_cluster cst)) \<union>
       {k. \<exists>n. cl_nodes (update_nodes ns (cs_cluster cst)) k = Some n \<and> \<not> node_stale threshold now n \<and> node_expired threshold now n}"
    "\<And>k. cl_nodes (cs_cluster cst') k = Option.bind (cl_nodes (update_nodes ns (cs_cluster cst)) k) (swept_node threshold now)"
    "reg_inv (cs_cluster cst')" "nr_version resp = cs_version cst + 1" "cs_version cst' = cs_version cst + 1"
    "\<And>t n. (t, n) \<in> set ns \<Longrightarrow> cl_nodes (cs_cluster cst') (node_key n) = Some (stamped t n)"
proof -
  let ?U = "update_nodes ns (cs_cluster cst)"
  have invU: "reg_inv ?U" by (rule update_nodes_inv [OF inv])
  obtain dead expired c' where sw: "sweep_stale_nodes order threshold now ?U = ((dead, expired), c')" by (metis prod.exhaust)
  note s = sweep_nodes [OF invU order(2) sw]
  have st: "resp = \<lparr>nr_ok = True, nr_version = cs_version cst + 1, nr_nodes = delta_nodes (map snd ns) dead c',
      nr_removed = remdups_adj (sort (replaced_node_keys (map snd ns) (cs_cluster cst) @ expired))\<rparr>"
    "cst' = \<lparr>cs_cluster = c', cs_version = cs_version cst + 1\<rparr>"
    using run ne seen by (auto simp: apply_node_report_def Let_def sw)
  have stored: "cl_nodes c' (node_key n) = Some (stamped t n)" if tn: "(t, n) \<in> set ns" for t n
  proof -
    have "lookup_key (map (\<lambda>(t, n). stamped t n) ns) (node_key n) = Some (stamped t n)"
      using ok tn by (subst lookup_key_Some) (force simp: reported_ok_def comp_def case_prod_beta')+
    then have "cl_nodes ?U (node_key n) = Some (stamped t n)" by (simp add: update_nodes_put_all [OF inv ok])
    moreover have "\<not> node_stale threshold now (stamped t n)" "\<not> node_expired threshold now (stamped t n)"
      using recent tn by (auto simp: node_stale_def node_expired_def stamped_def saturating_mul2_def)
    ultimately show ?thesis by (simp add: s(2) swept_node_def)
  qed
  have "map (\<lambda>n. case cl_nodes c' (node_key n) of Some stored \<Rightarrow> stored | None \<Rightarrow> n) (map snd ns) = map (\<lambda>(t, n). stamped t n) ns"
    using stored by auto
  then have d: "nr_nodes resp = map (\<lambda>(t, n). stamped t n) ns @ List.map_filter (cl_nodes (cs_cluster cst')) dead"
    by (simp add: st delta_nodes_def)
  have r: "set (nr_removed resp) = set (replaced_node_keys (map snd ns) (cs_cluster cst)) \<union> set expired" by (simp add: st)
  have dk: "set dead = {k. \<exists>n. cl_nodes ?U k = Some n \<and> node_stale threshold now n}" using s(3) by blast
  have ek: "set expired = {k. \<exists>n. cl_nodes ?U k = Some n \<and> \<not> node_stale threshold now n \<and> node_expired threshold now n}"
    using s(4) by blast
  show thesis
  proof (rule that [OF d s(5) [OF order(1)] dk])
    show "set (nr_removed resp) = set (replaced_node_keys (map snd ns) (cs_cluster cst)) \<union>
       {k. \<exists>n. cl_nodes ?U k = Some n \<and> \<not> node_stale threshold now n \<and> node_expired threshold now n}"
      by (simp only: r ek)
  qed (use s(1,2) stored in \<open>simp_all add: st\<close>)
qed

end
