(* ===== verification/Cluster_Sync.thy ===== *)
theory Cluster_Sync
  imports Cluster_Report
begin

text \<open>
  A report round brings the reporter's registry to the coordinator's, apart from time stamps, when the
  reporter was up to date and no reported node takes a rank from another reported node; and the two
  cases in which it does not.
\<close>

definition untimed :: "Node \<Rightarrow> Node" where
  "untimed n = n\<lparr>nd_timestamp := 0\<rparr>"

definition same_view :: "(string \<rightharpoonup> Node) \<Rightarrow> (string \<rightharpoonup> Node) \<Rightarrow> bool" where
  "same_view m m' \<longleftrightarrow> (\<forall>k. map_option untimed (m k) = map_option untimed (m' k))"

lemma untimed_simps [simp]: "nd_rank (untimed n) = nd_rank n" "nd_status (untimed n) = nd_status n" "node_key (untimed n) = node_key n"
  by (simp_all add: untimed_def node_key_def)

lemma untimed_stamped: "nd_status n \<noteq> None \<Longrightarrow> untimed (stamped t n) = untimed n"
  by (simp add: untimed_def stamped_def)

lemma same_view_rank: "same_view m m' \<Longrightarrow> holds_rank m r k = holds_rank m' r k"
proof -
  assume "same_view m m'"
  then have "map_option untimed (m k) = map_option untimed (m' k)" by (simp add: same_view_def)
  then have "map_option nd_rank (map_option untimed (m k)) = map_option nd_rank (map_option untimed (m' k))" by simp
  then show ?thesis by (simp add: holds_rank_def option.map_comp comp_def)
qed

lemma disjoint_mono: "A \<subseteq> K \<Longrightarrow> B \<subseteq> - K \<Longrightarrow> A \<inter> B = {}"
  by blast

lemma map_filter_keys:
  "\<forall>k \<in> set ks. \<exists>n. m k = Some n \<and> node_key n = k \<Longrightarrow> map node_key (List.map_filter m ks) = ks"
  by (induction ks) (auto simp: List.map_filter_simps)

lemma lookup_key_stamped:
  assumes "distinct (map node_key (map snd ns))" "(t, n) \<in> set ns"
  shows "lookup_key (map (\<lambda>(t, n). stamped t n) ns) (node_key n) = Some (stamped t n)"
  using assms by (subst lookup_key_Some) (force simp: comp_def case_prod_beta')+

lemma lookup_key_stamped_None:
  "lookup_key (map (\<lambda>(t, n). stamped t n) ns) k = None \<longleftrightarrow> k \<notin> node_key ` set (map snd ns)"
  by (auto simp: lookup_key_None image_iff)

lemma snapshot_nodes:
  assumes "reg_inv (cs_cluster st)" "reported_ok (map snd ns)"
  shows "cl_nodes (cs_cluster (apply_snapshot_delta ns removed v st)) k =
    (if k \<in> set removed then None
     else case lookup_key (map (\<lambda>(t, n). stamped t n) ns) k of Some n \<Rightarrow> Some n
       | None \<Rightarrow> if \<exists>n \<in> snd ` set ns. holds_rank (cl_nodes (cs_cluster st)) (nd_rank n) k then None else cl_nodes (cs_cluster st) k)"
  using remove.removals [OF update_nodes_inv [OF assms(1)], of ns removed] update_nodes_put_all [OF assms, of k]
  by (simp add: apply_snapshot_delta_def)

lemma round_in_sync:
  assumes invc: "reg_inv (cs_cluster cst)" and invr: "reg_inv (cs_cluster st)"
    and view: "same_view (cl_nodes (cs_cluster cst)) (cl_nodes (cs_cluster st))"
    and ok: "reported_ok (map snd ns)" "ns \<noteq> []"
    and order: "distinct order" "set order = dom (cl_nodes (update_nodes ns (cs_cluster cst)))"
    and recent: "\<forall>(t, n) \<in> set ns. now - t \<le> threshold" "threshold < 2 ^ 64"
    and seen: "cs_version cst \<le> seen" "0 < seen"
    and disj: "set (replaced_node_keys (map snd ns) (cs_cluster cst)) \<inter> node_key ` set (map snd ns) = {}"
    and run: "apply_node_report order threshold now ns seen cst = (resp, cst')"
    and clock: "map snd dns = nr_nodes resp"
  shows "same_view (cl_nodes (cs_cluster cst')) (cl_nodes (cs_cluster (apply_snapshot_delta dns (nr_removed resp) v st)))"
proof -
  let ?m = "cl_nodes (cs_cluster cst)" and ?U = "cl_nodes (update_nodes ns (cs_cluster cst))"
    and ?C = "cl_nodes (cs_cluster cst')" and ?keys = "node_key ` set (map snd ns)"
  obtain dead where a: "nr_nodes resp = map (\<lambda>(t, n). stamped t n) ns @ List.map_filter ?C dead" "distinct dead"
    "set dead = {k. \<exists>n. ?U k = Some n \<and> node_stale threshold now n}"
    "set (nr_removed resp) = set (replaced_node_keys (map snd ns) (cs_cluster cst)) \<union>
       {k. \<exists>n. ?U k = Some n \<and> \<not> node_stale threshold now n \<and> node_expired threshold now n}"
    "\<And>k. ?C k = Option.bind (?U k) (swept_node threshold now)" "reg_inv (cs_cluster cst')"
    "nr_version resp = cs_version cst + 1" "cs_version cst' = cs_version cst + 1"
    "\<And>t n. (t, n) \<in> set ns \<Longrightarrow> ?C (node_key n) = Some (stamped t n)"
    by (rule report_answer [OF invc ok order recent seen run], rule that)
  note keyC = reg_invD(2) [OF a(6)]
  have invU: "reg_inv (update_nodes ns (cs_cluster cst))" by (rule update_nodes_inv [OF invc])
  have other: "?U k = (if \<exists>n \<in> snd ` set ns. holds_rank ?m (nd_rank n) k then None else ?m k)" if "k \<notin> ?keys" for k
    unfolding update_nodes_put_all [OF invc ok(1)] using that by (simp add: lookup_key_stamped_None [THEN iffD2])
  have deadC: "\<exists>n. ?C k = Some n \<and> node_key n = k \<and> nd_status n = Some ''dead''" if k: "k \<in> set dead" for k
  proof -
    obtain n where n: "?U k = Some n" "node_stale threshold now n" using k a(3) by auto
    then show ?thesis using a(5) [of k] keyC [of k] by (simp add: swept_node_def)
  qed
  have fresh: "?C (node_key n) = Some n \<and> nd_status n \<noteq> None \<and> node_key n \<in> ?keys"
    if "n \<in> set (map (\<lambda>(t, n). stamped t n) ns)" for n
  proof -
    from that obtain t n' where n': "(t, n') \<in> set ns" "n = stamped t n'" by auto
    then have "node_key n' \<in> ?keys" by force
    then show ?thesis using a(9) [OF n'(1)] n'(2) by (simp add: stamped_def node_key_def)
  qed
  have died: "?C (node_key n) = Some n \<and> nd_status n = Some ''dead'' \<and> node_key n \<in> set dead"
    if "n \<in> set (List.map_filter ?C dead)" for n
    using that deadC unfolding set_map_filter by fastforce
  have delta: "?C (node_key n) = Some n" "nd_status n \<noteq> None" "node_key n \<in> ?keys \<or> node_key n \<in> set dead"
    if "n \<in> set (nr_nodes resp)" for n
    using that fresh died unfolding a(1) by auto
  have keysD: "node_key n \<notin> ?keys" if "n \<in> set (List.map_filter ?C dead)" for n
  proof
    assume "node_key n \<in> ?keys"
    then obtain t n' where n': "(t, n') \<in> set ns" "node_key n' = node_key n" by auto
    have "?U (node_key n) = Some (stamped t n')"
      using lookup_key_stamped [OF _ n'(1)] ok(1) n'(2) by (simp add: update_nodes_put_all [OF invc ok(1)] reported_ok_def)
    then have "node_stale threshold now (stamped t n')" using died [OF that] a(3) by auto
    then show False using recent(1) n'(1) by (auto simp: node_stale_def stamped_def)
  qed
  have keys: "distinct (map node_key (nr_nodes resp))"
  proof -
    have 1: "map node_key (List.map_filter ?C dead) = dead" using deadC by (intro map_filter_keys) blast
    have 2: "distinct (map node_key (map (\<lambda>(t, n). stamped t n) ns))"
      using ok(1) by (simp add: reported_ok_def comp_def case_prod_beta')
    have "node_key ` set (map (\<lambda>(t, n). stamped t n) ns) \<subseteq> ?keys" using fresh by (intro image_subsetI) simp
    moreover have "node_key ` set (List.map_filter ?C dead) \<subseteq> - ?keys" using keysD by (intro image_subsetI) simp
    ultimately have "node_key ` set (map (\<lambda>(t, n). stamped t n) ns) \<inter> node_key ` set (List.map_filter ?C dead) = {}"
      by (rule disjoint_mono)
    then have "set (map node_key (map (\<lambda>(t, n). stamped t n) ns)) \<inter> set (map node_key (List.map_filter ?C dead)) = {}"
      by (simp only: set_map [of node_key])
    then show ?thesis unfolding a(1) map_append distinct_append 1 using 2 a(2) by blast
  qed
  have okd: "reported_ok (map snd dns)"
    unfolding clock using registered_ok [OF a(6) keys] delta(1) by blast
  note snap = snapshot_nodes [OF invr okd, of "nr_removed resp" v]
  let ?R = "cl_nodes (cs_cluster (apply_snapshot_delta dns (nr_removed resp) v st))"
  have gone: "?U k = None" if "k \<in> set (replaced_node_keys (map snd ns) (cs_cluster cst))" for k
  proof -
    have "k \<notin> ?keys" using that disj by blast
    moreover have "\<exists>n \<in> snd ` set ns. holds_rank ?m (nd_rank n) k" using that replaced_keys [OF invc, of k "map snd ns"] by auto
    ultimately show ?thesis using other [of k] by simp
  qed
  have "map_option untimed (?C k) = map_option untimed (?R k)" for k
  proof (cases "k \<in> node_key ` set (nr_nodes resp)")
    case True
    then obtain n where n: "n \<in> set (nr_nodes resp)" "node_key n = k" by blast
    then obtain t where t: "(t, n) \<in> set dns" using clock by (metis (no_types, lifting) in_set_conv_nth length_map nth_map nth_mem prod.collapse)
    have "lookup_key (map (\<lambda>(t, n). stamped t n) dns) k = Some (stamped t n)"
      using lookup_key_stamped [OF _ t] keys clock n(2) by simp
    moreover have "k \<notin> set (nr_removed resp)"
    proof
      assume "k \<in> set (nr_removed resp)"
      then have "?C k = None" using gone [of k] a(5) [of k] by (auto simp: a(4) swept_node_def)
      then show False using delta(1) [OF n(1)] n(2) by simp
    qed
    ultimately show ?thesis using delta(1,2) [OF n(1)] n(2) by (simp add: snap untimed_stamped)
  next
    case False
    then have look: "lookup_key (map (\<lambda>(t, n). stamped t n) dns) k = None" unfolding lookup_key_stamped_None clock .
    have "node_key ` set (map (\<lambda>(t, n). stamped t n) ns) = ?keys" by (force simp: image_image)
    then have k: "k \<notin> ?keys" using False unfolding a(1) set_append image_Un by blast
    have live: "k \<notin> set dead" using False deadC [of k] unfolding a(1) set_append set_map_filter by blast
    show ?thesis
    proof (cases "\<exists>n \<in> snd ` set ns. holds_rank ?m (nd_rank n) k")
      case True
      then obtain t n where n: "(t, n) \<in> set ns" "holds_rank ?m (nd_rank n) k" by auto
      then have "stamped t n \<in> set (nr_nodes resp)" unfolding a(1) by force
      then have "\<exists>n \<in> snd ` set dns. holds_rank (cl_nodes (cs_cluster st)) (nd_rank n) k"
        using n(2) clock same_view_rank [OF view] by (metis list.set_map stamped_simps(2))
      then have "?R k = None" unfolding snap look by simp
      moreover have "?C k = None" using True other [OF k] a(5) [of k] by simp
      ultimately show ?thesis by simp
    next
      case noU: False
      have nohold: "\<not> holds_rank ?m (nd_rank n) k" if n: "n \<in> set (nr_nodes resp)" for n
      proof
        assume h: "holds_rank ?m (nd_rank n) k"
        then obtain x r where x: "?m k = Some x" "nd_rank x = Some r" "nd_rank n = Some r" by (auto simp: holds_rank_def)
        have "?U k = Some x" using other [OF k] noU x(1) by simp
        moreover obtain y where "?U (node_key n) = Some y" "nd_rank y = nd_rank n"
          using delta(1) [OF n] a(5) [of "node_key n"] by (auto simp: bind_eq_Some_conv swept_node_def split: if_splits)
        ultimately have "node_key n = k" using rank_unique [OF invU, of k x "node_key n" y r] x by simp
        then show False using n False by blast
      qed
      then have R: "?R k = (if k \<in> set (nr_removed resp) then None else cl_nodes (cs_cluster st) k)"
        unfolding snap look using same_view_rank [OF view] by (auto simp: clock [symmetric])
      have "k \<notin> set (replaced_node_keys (map snd ns) (cs_cluster cst))"
        using noU by (auto simp: replaced_keys [OF invc])
      then have rem: "k \<in> set (nr_removed resp) \<longleftrightarrow> (\<exists>n. ?m k = Some n \<and> \<not> node_stale threshold now n \<and> node_expired threshold now n)"
        using other [OF k] noU by (simp add: a(4))
      have C: "?C k = (if k \<in> set (nr_removed resp) then None else ?m k)"
      proof (cases "?m k")
        case None
        then show ?thesis using a(5) [of k] other [OF k] noU by simp
      next
        case (Some x)
        moreover have "\<not> node_stale threshold now x" using live a(3) other [OF k] noU Some by auto
        ultimately show ?thesis using a(5) [of k] other [OF k] noU rem by (simp add: swept_node_def)
      qed
      show ?thesis unfolding C R using view by (simp add: same_view_def)
    qed
  qed
  then show ?thesis by (simp add: same_view_def)
qed

section \<open>Two rounds that lose nodes\<close>

text \<open>A node that takes over the endpoint of a rank reported in the same batch is removed at the reporter.\<close>

lemma rank_taken_over:
  assumes invc: "reg_inv (cs_cluster cst)" and invr: "reg_inv (cs_cluster st)" and ok: "reported_ok (map snd ns)" "ns \<noteq> []"
    and order: "distinct order" "set order = dom (cl_nodes (update_nodes ns (cs_cluster cst)))"
    and recent: "\<forall>(t, n) \<in> set ns. now - t \<le> threshold" "threshold < 2 ^ 64"
    and seen: "cs_version cst \<le> seen" "0 < seen"
    and run: "apply_node_report order threshold now ns seen cst = (resp, cst')"
    and n: "n \<in> set (map snd ns)" "node_key n \<in> set (replaced_node_keys (map snd ns) (cs_cluster cst))"
  shows "\<exists>stored. cl_nodes (cs_cluster cst') (node_key n) = Some stored \<and> node_key stored = node_key n \<and> nd_rank stored = nd_rank n"
    "cl_nodes (cs_cluster (apply_snapshot_delta dns (nr_removed resp) v st)) (node_key n) = None"
proof -
  have r: "node_key n \<in> set (nr_removed resp)" and s: "\<exists>t. cl_nodes (cs_cluster cst') (node_key n) = Some (stamped t n)"
    by (rule report_answer [OF invc ok order recent seen run]; use n in auto)+
  from s show "\<exists>stored. cl_nodes (cs_cluster cst') (node_key n) = Some stored \<and> node_key stored = node_key n \<and> nd_rank stored = nd_rank n"
    by force
  show "cl_nodes (cs_cluster (apply_snapshot_delta dns (nr_removed resp) v st)) (node_key n) = None"
    using remove.removals [OF update_nodes_inv [OF invr], of dns "nr_removed resp"] r by (simp add: apply_snapshot_delta_def)
qed

text \<open>A reporter that is behind gets no nodes.\<close>

lemma report_behind:
  assumes "seen < cs_version cst" "apply_node_report order threshold now ns seen cst = (resp, cst')"
  shows "nr_nodes resp = []" "nr_version resp = cs_version cst'"
  using assms by (auto simp: apply_node_report_def Let_def split: prod.splits)

lemma report_version:
  assumes "ns \<noteq> []" "apply_node_report order threshold now ns seen cst = (resp, cst')"
  shows "cs_version cst' = cs_version cst + 1"
  using assms by (auto simp: apply_node_report_def Let_def split: prod.splits)

lemma snapshot_of_nothing:
  assumes "reg_inv (cs_cluster st)"
  shows "cl_nodes (cs_cluster (apply_snapshot_delta [] removed v st)) k = (if k \<in> set removed then None else cl_nodes (cs_cluster st) k)"
  using snapshot_nodes [OF assms, of "[]" removed v k] by (simp add: reported_ok_def lookup_key_def)

end
