(* ===== verification/Supervisor.thy ===== *)
theory Supervisor
  imports Prelude
begin

text \<open>
  The supervisor of the long-running server components (\<open>probing/server/src/supervisor.rs\<close>): the
  remote listener, whose candidate replaces the active listener only after it has bound, and the
  components that a newer task replaces at once. A task is known by its generation; the pool says
  which tasks have not ended and which were told to abort. An aborted task may still take steps until
  it reaches its next suspension point, and any task may end without a word (abort, panic).
\<close>

section \<open>Slots and tasks\<close>

datatype ComponentState =
    Stopped
  | Starting u64 string
  | Running u64 string
  | Failed u64 string string

record ManagedTask =
  mt_generation :: u64
  mt_key :: string

record RemoteListenerSlot =
  rl_next_generation :: u64
  rl_active :: "ManagedTask option"
  rl_candidate :: "ManagedTask option"
  rl_state :: ComponentState

record ReplaceableTaskSlot =
  rt_next_generation :: u64
  rt_active :: "ManagedTask option"
  rt_state :: ComponentState

record task_pool =
  tp_live :: "u64 set"
  tp_aborted :: "u64 set"

definition remote_slot_default :: RemoteListenerSlot where
  "remote_slot_default = \<lparr>rl_next_generation = 0, rl_active = None, rl_candidate = None, rl_state = Stopped\<rparr>"

definition task_slot_default :: ReplaceableTaskSlot where
  "task_slot_default = \<lparr>rt_next_generation = 0, rt_active = None, rt_state = Stopped\<rparr>"

definition bump_generation :: "u64 \<Rightarrow> u64" where
  "bump_generation g = max (g + 1) 1"

definition transition :: "ComponentState \<Rightarrow> ComponentState \<Rightarrow> ComponentState" where
  "transition state next_state = (if state \<noteq> next_state then next_state else state)"

definition completion_state :: "ManagedTask \<Rightarrow> string option \<Rightarrow> ComponentState" where
  "completion_state t error = (case error of
       Some error \<Rightarrow> Failed (mt_generation t) (mt_key t) error
     | None \<Rightarrow> Stopped)"

definition abort_task :: "ManagedTask option \<Rightarrow> task_pool \<Rightarrow> task_pool" where
  "abort_task t p = (case t of None \<Rightarrow> p | Some t \<Rightarrow> p\<lparr>tp_aborted := insert (mt_generation t) (tp_aborted p)\<rparr>)"

definition spawn_task :: "u64 \<Rightarrow> task_pool \<Rightarrow> task_pool" where
  "spawn_task g p = p\<lparr>tp_live := insert g (tp_live p)\<rparr>"

definition end_task :: "u64 \<Rightarrow> task_pool \<Rightarrow> task_pool" where
  "end_task g p = p\<lparr>tp_live := tp_live p - {g}\<rparr>"

text \<open>\<open>task.key == key && !task.handle.is_finished()\<close>\<close>

definition serves_key :: "task_pool \<Rightarrow> string \<Rightarrow> ManagedTask option \<Rightarrow> bool" where
  "serves_key p key t \<longleftrightarrow> (case t of None \<Rightarrow> False | Some t \<Rightarrow> mt_key t = key \<and> mt_generation t \<in> tp_live p)"

definition has_generation :: "u64 \<Rightarrow> ManagedTask option \<Rightarrow> bool" where
  "has_generation g t \<longleftrightarrow> (case t of None \<Rightarrow> False | Some t \<Rightarrow> mt_generation t = g)"

section \<open>The remote listener\<close>

type_synonym listener_world = "RemoteListenerSlot \<times> task_pool"

text \<open>\<open>spawn\<close> is the error of the runtime when it cannot spawn the task.\<close>

definition start_remote_listener :: "string \<Rightarrow> string option \<Rightarrow> listener_world \<Rightarrow> listener_world" where
  "start_remote_listener key spawn w = (case w of (slot, p) \<Rightarrow>
     if serves_key p key (rl_active slot) \<or> serves_key p key (rl_candidate slot) then w
     else (let p = abort_task (rl_candidate slot) p;
               generation = bump_generation (rl_next_generation slot);
               slot = slot\<lparr>rl_candidate := None, rl_next_generation := generation,
                           rl_state := transition (rl_state slot) (Starting generation key)\<rparr>
           in case spawn of
                Some error \<Rightarrow> (slot\<lparr>rl_state := transition (rl_state slot) (Failed generation key error)\<rparr>, p)
              | None \<Rightarrow> (slot\<lparr>rl_candidate := Some \<lparr>mt_generation = generation, mt_key = key\<rparr>\<rparr>, spawn_task generation p)))"

definition promote_remote_listener :: "u64 \<Rightarrow> listener_world \<Rightarrow> bool \<times> listener_world" where
  "promote_remote_listener generation w = (case w of (slot, p) \<Rightarrow>
     case rl_candidate slot of
       None \<Rightarrow> (False, w)
     | Some candidate \<Rightarrow>
         if mt_generation candidate \<noteq> generation then (False, w)
         else (True, slot\<lparr>rl_candidate := None, rl_active := Some candidate,
                          rl_state := transition (rl_state slot) (Running generation (mt_key candidate))\<rparr>,
               abort_task (rl_active slot) p))"

definition remote_listener_finished :: "u64 \<Rightarrow> string option \<Rightarrow> RemoteListenerSlot \<Rightarrow> RemoteListenerSlot" where
  "remote_listener_finished generation error slot =
    (if has_generation generation (rl_candidate slot)
     then (case rl_candidate slot of
         None \<Rightarrow> slot
       | Some candidate \<Rightarrow>
           slot\<lparr>rl_candidate := None,
                rl_state := transition (rl_state slot)
                  (case rl_active slot of
                     Some active \<Rightarrow> Running (mt_generation active) (mt_key active)
                   | None \<Rightarrow> completion_state candidate error)\<rparr>)
     else if has_generation generation (rl_active slot)
     then (case rl_active slot of
         None \<Rightarrow> slot
       | Some active \<Rightarrow>
           slot\<lparr>rl_active := None, rl_state := transition (rl_state slot) (completion_state active error)\<rparr>)
     else slot)"

definition shutdown_remote :: "listener_world \<Rightarrow> listener_world" where
  "shutdown_remote w = (case w of (slot, p) \<Rightarrow>
     (slot\<lparr>rl_next_generation := bump_generation (rl_next_generation slot), rl_candidate := None, rl_active := None,
           rl_state := transition (rl_state slot) Stopped\<rparr>,
      abort_task (rl_active slot) (abort_task (rl_candidate slot) p)))"

text \<open>
  What can happen to the listener: a request to start, a bound candidate asking for promotion, a task
  that returns, a task that ends silently, a shutdown.
\<close>

inductive listener_step :: "listener_world \<Rightarrow> listener_world \<Rightarrow> bool" where
  start: "listener_step w (start_remote_listener key spawn w)"
| promote: "g \<in> tp_live p \<Longrightarrow> listener_step (slot, p) (snd (promote_remote_listener g (slot, p)))"
| finished: "g \<in> tp_live p \<Longrightarrow> listener_step (slot, p) (remote_listener_finished g error slot, end_task g p)"
| silent: "g \<in> tp_live p \<Longrightarrow> listener_step (slot, p) (slot, end_task g p)"
| shutdown: "listener_step w (shutdown_remote w)"

inductive_cases listener_stepE: "listener_step w w'"

definition listener_initial :: listener_world where
  "listener_initial = (remote_slot_default, \<lparr>tp_live = {}, tp_aborted = {}\<rparr>)"

section \<open>Components replaced at once\<close>

type_synonym component_world = "ReplaceableTaskSlot \<times> task_pool"

definition start_component :: "string \<Rightarrow> string option \<Rightarrow> component_world \<Rightarrow> component_world" where
  "start_component key spawn w = (case w of (slot, p) \<Rightarrow>
     if serves_key p key (rt_active slot) then w
     else (let p = abort_task (rt_active slot) p;
               generation = bump_generation (rt_next_generation slot);
               slot = slot\<lparr>rt_active := None, rt_next_generation := generation,
                           rt_state := transition (rt_state slot) (Starting generation key)\<rparr>
           in case spawn of
                Some error \<Rightarrow> (slot\<lparr>rt_state := transition (rt_state slot) (Failed generation key error)\<rparr>, p)
              | None \<Rightarrow> (slot\<lparr>rt_active := Some \<lparr>mt_generation = generation, mt_key = key\<rparr>\<rparr>, spawn_task generation p)))"

definition stop_component :: "component_world \<Rightarrow> component_world" where
  "stop_component w = (case w of (slot, p) \<Rightarrow>
     (slot\<lparr>rt_next_generation := bump_generation (rt_next_generation slot), rt_active := None,
           rt_state := transition (rt_state slot) Stopped\<rparr>, abort_task (rt_active slot) p))"

definition mark_component_running :: "u64 \<Rightarrow> ReplaceableTaskSlot \<Rightarrow> ReplaceableTaskSlot" where
  "mark_component_running generation slot =
    (case rt_active slot of
       None \<Rightarrow> slot
     | Some t \<Rightarrow>
         if mt_generation t = generation
         then slot\<lparr>rt_state := transition (rt_state slot) (Running generation (mt_key t))\<rparr> else slot)"

definition component_finished :: "u64 \<Rightarrow> string option \<Rightarrow> ReplaceableTaskSlot \<Rightarrow> ReplaceableTaskSlot" where
  "component_finished generation error slot =
    (case rt_active slot of
       None \<Rightarrow> slot
     | Some active \<Rightarrow>
         if mt_generation active = generation
         then slot\<lparr>rt_active := None, rt_state := transition (rt_state slot) (completion_state active error)\<rparr> else slot)"

definition component_active :: "ReplaceableTaskSlot \<Rightarrow> bool" where
  "component_active slot = (case rt_state slot of Starting _ _ \<Rightarrow> True | Running _ _ \<Rightarrow> True | _ \<Rightarrow> False)"

inductive component_step :: "component_world \<Rightarrow> component_world \<Rightarrow> bool" where
  start: "component_step w (start_component key spawn w)"
| stop: "component_step w (stop_component w)"
| running: "g \<in> tp_live p \<Longrightarrow> component_step (slot, p) (mark_component_running g slot, p)"
| finished: "g \<in> tp_live p \<Longrightarrow> component_step (slot, p) (component_finished g error slot, end_task g p)"
| silent: "g \<in> tp_live p \<Longrightarrow> component_step (slot, p) (slot, end_task g p)"

inductive_cases component_stepE: "component_step w w'"

definition component_initial :: component_world where
  "component_initial = (task_slot_default, \<lparr>tp_live = {}, tp_aborted = {}\<rparr>)"

section \<open>Generations\<close>

lemma bump_generation_unat:
  assumes "unat g < 2 ^ 64 - 1"
  shows "unat (bump_generation g) = unat g + 1"
proof -
  have "unat (g + 1) = unat g + 1" using unat_add_lem [of g 1] assms by simp
  moreover from this have "max (g + 1) 1 = g + 1" by (auto simp: max_def word_le_nat_alt unat_eq_zero)
  ultimately show ?thesis by (simp add: bump_generation_def)
qed

lemma bump_generation_fresh:
  assumes "unat g < 2 ^ 64 - 1" "unat h \<le> unat g"
  shows "h \<noteq> bump_generation g" "unat h \<le> unat (bump_generation g)"
  using bump_generation_unat [OF assms(1)] assms(2) by auto

lemma transition_eq [simp]: "transition s t = t"
  by (simp add: transition_def)

lemma pool_simps [simp]:
  "tp_live (abort_task t p) = tp_live p" "tp_live (spawn_task g p) = insert g (tp_live p)" "tp_live (end_task g p) = tp_live p - {g}"
  "tp_aborted (spawn_task g p) = tp_aborted p" "tp_aborted (end_task g p) = tp_aborted p"
  "g \<in> tp_aborted (abort_task t p) \<longleftrightarrow> has_generation g t \<or> g \<in> tp_aborted p"
  by (auto simp: abort_task_def spawn_task_def end_task_def has_generation_def split: option.splits)

lemma has_generation_simps [simp]:
  "\<not> has_generation g None" "has_generation g (Some t) \<longleftrightarrow> mt_generation t = g"
  by (simp_all add: has_generation_def)

section \<open>No task escapes\<close>

definition known :: "u64 \<Rightarrow> ManagedTask option \<Rightarrow> task_pool \<Rightarrow> bool" where
  "known n t p \<longleftrightarrow> (\<forall>g. has_generation g t \<longrightarrow> unat g \<le> unat n \<and> g \<notin> tp_aborted p)"

lemma known_simps [simp]:
  "known n None p" "known n (Some t) p \<longleftrightarrow> unat (mt_generation t) \<le> unat n \<and> mt_generation t \<notin> tp_aborted p"
  by (auto simp: known_def)

lemma known_end_task [simp]: "known n t (end_task g p) = known n t p"
  by (simp add: known_def)

fun listener_inv :: "listener_world \<Rightarrow> bool" where
  "listener_inv (slot, p) \<longleftrightarrow>
     (\<forall>g \<in> tp_live p \<union> tp_aborted p. unat g \<le> unat (rl_next_generation slot)) \<and>
     known (rl_next_generation slot) (rl_active slot) p \<and> known (rl_next_generation slot) (rl_candidate slot) p \<and>
     (\<forall>g. \<not> (has_generation g (rl_active slot) \<and> has_generation g (rl_candidate slot))) \<and>
     (\<forall>g \<in> tp_live p. g \<in> tp_aborted p \<or> has_generation g (rl_active slot) \<or> has_generation g (rl_candidate slot)) \<and>
     (\<forall>g k. rl_state slot = Starting g k \<longrightarrow> rl_candidate slot = Some \<lparr>mt_generation = g, mt_key = k\<rparr>) \<and>
     (\<forall>g k. rl_state slot = Running g k \<longrightarrow> rl_active slot = Some \<lparr>mt_generation = g, mt_key = k\<rparr>)"

lemma task_eta: "\<lparr>mt_generation = mt_generation t, mt_key = mt_key t\<rparr> = t"
  by simp

lemma start_listener_inv:
  assumes inv: "listener_inv (slot, p)" and n: "unat (rl_next_generation slot) < 2 ^ 64 - 1"
  shows "listener_inv (start_remote_listener key spawn (slot, p))"
proof (cases "serves_key p key (rl_active slot) \<or> serves_key p key (rl_candidate slot)")
  case True
  then show ?thesis using inv by (simp add: start_remote_listener_def)
next
  case False
  let ?g = "bump_generation (rl_next_generation slot)"
  have fresh: "unat h \<le> unat (rl_next_generation slot) \<Longrightarrow> h \<noteq> ?g \<and> unat h \<le> unat ?g" for h
    using bump_generation_fresh [OF n] by blast
  have old: "h \<noteq> ?g \<and> unat h \<le> unat ?g" if "h \<in> tp_live p \<union> tp_aborted p \<or> has_generation h (rl_active slot) \<or> has_generation h (rl_candidate slot)" for h
    using that inv fresh by (auto simp: known_def)
  have aborted: "\<not> has_generation h (rl_candidate slot) \<and> h \<notin> tp_aborted p" if "has_generation h (rl_active slot)" for h
    using that inv by (auto simp: known_def)
  show ?thesis
  proof (cases spawn)
    case (Some e)
    then show ?thesis using False inv old aborted
      by (auto simp: start_remote_listener_def Let_def known_def)
  next
    case None
    then show ?thesis using False inv old aborted
      by (auto simp: start_remote_listener_def Let_def known_def)
  qed
qed

lemma promote_listener_inv: "listener_inv (slot, p) \<Longrightarrow> listener_inv (snd (promote_remote_listener g (slot, p)))"
  by (cases "rl_candidate slot") (auto simp: promote_remote_listener_def known_def)

lemma finished_listener_inv:
  assumes "listener_inv (slot, p)"
  shows "listener_inv (remote_listener_finished g error slot, end_task g p)"
proof (cases "has_generation g (rl_candidate slot)")
  case True
  then obtain c where "rl_candidate slot = Some c" "mt_generation c = g" by (cases "rl_candidate slot") auto
  then show ?thesis using assms
    by (cases "rl_active slot"; cases error) (auto simp: remote_listener_finished_def completion_state_def)
next
  case False
  then show ?thesis using assms
    by (cases "rl_active slot"; cases error) (auto simp: remote_listener_finished_def completion_state_def)
qed

lemma silent_listener_inv: "listener_inv (slot, p) \<Longrightarrow> listener_inv (slot, end_task g p)"
  by (auto simp: known_def)

lemma shutdown_listener_inv:
  assumes inv: "listener_inv (slot, p)" and n: "unat (rl_next_generation slot) < 2 ^ 64 - 1"
  shows "listener_inv (shutdown_remote (slot, p))"
  using inv bump_generation_fresh(2) [OF n] by (auto simp: shutdown_remote_def known_def)

lemma listener_generation:
  assumes "listener_step w w'" "unat (rl_next_generation (fst w)) < 2 ^ 64 - 1"
  shows "unat (rl_next_generation (fst w')) \<le> unat (rl_next_generation (fst w)) + 1"
  using assms bump_generation_unat [OF assms(2)]
  by (auto elim!: listener_stepE simp: start_remote_listener_def promote_remote_listener_def remote_listener_finished_def
      shutdown_remote_def Let_def split: prod.splits option.splits)

lemma listener_step_inv:
  assumes "listener_step w w'" "listener_inv w" "unat (rl_next_generation (fst w)) < 2 ^ 64 - 1"
  shows "listener_inv w'"
  using assms(1)
proof (cases rule: listener_step.cases)
  case (start key spawn)
  then show ?thesis using start_listener_inv [of "fst w" "snd w"] assms(2,3) by simp
next
  case (promote g p slot)
  then show ?thesis using promote_listener_inv assms(2) by blast
next
  case (finished g p slot error)
  then show ?thesis using finished_listener_inv assms(2) by blast
next
  case (silent g p slot)
  then show ?thesis using silent_listener_inv assms(2) by blast
next
  case shutdown
  then show ?thesis using shutdown_listener_inv [of "fst w" "snd w"] assms(2,3) by simp
qed

lemma listener_reachable:
  assumes "(listener_step ^^ n) listener_initial w" "n < 2 ^ 64"
  shows "listener_inv w \<and> unat (rl_next_generation (fst w)) \<le> n"
  using assms
proof (induction n arbitrary: w)
  case 0
  then show ?case by (auto simp: listener_initial_def remote_slot_default_def)
next
  case (Suc n)
  then obtain v where v: "(listener_step ^^ n) listener_initial v" "listener_step v w" by auto
  have "listener_inv v" "unat (rl_next_generation (fst v)) \<le> n" using Suc.IH [OF v(1)] Suc.prems(2) by auto
  then show ?case using listener_step_inv [OF v(2)] listener_generation [OF v(2)] Suc.prems(2) by simp
qed

section \<open>The other components\<close>

fun component_inv :: "component_world \<Rightarrow> bool" where
  "component_inv (slot, p) \<longleftrightarrow>
     (\<forall>g \<in> tp_live p \<union> tp_aborted p. unat g \<le> unat (rt_next_generation slot)) \<and>
     known (rt_next_generation slot) (rt_active slot) p \<and>
     (\<forall>g \<in> tp_live p. g \<in> tp_aborted p \<or> has_generation g (rt_active slot)) \<and>
     (\<forall>g k. rt_state slot = Starting g k \<or> rt_state slot = Running g k \<longrightarrow> rt_active slot = Some \<lparr>mt_generation = g, mt_key = k\<rparr>)"

lemma start_component_inv:
  assumes inv: "component_inv (slot, p)" and n: "unat (rt_next_generation slot) < 2 ^ 64 - 1"
  shows "component_inv (start_component key spawn (slot, p))"
proof -
  let ?g = "bump_generation (rt_next_generation slot)"
  have "h \<noteq> ?g \<and> unat h \<le> unat ?g" if "h \<in> tp_live p \<union> tp_aborted p \<or> has_generation h (rt_active slot)" for h
    using that inv bump_generation_fresh [OF n] by (auto simp: known_def)
  then show ?thesis using inv
    by (cases spawn) (auto simp: start_component_def Let_def known_def)
qed

lemma component_generation:
  assumes "component_step w w'" "unat (rt_next_generation (fst w)) < 2 ^ 64 - 1"
  shows "unat (rt_next_generation (fst w')) \<le> unat (rt_next_generation (fst w)) + 1"
  using assms bump_generation_unat [OF assms(2)]
  by (auto elim!: component_stepE simp: start_component_def stop_component_def mark_component_running_def
      component_finished_def Let_def split: prod.splits option.splits)

lemma component_step_inv:
  assumes "component_step w w'" "component_inv w" "unat (rt_next_generation (fst w)) < 2 ^ 64 - 1"
  shows "component_inv w'"
  using assms(1)
proof (cases rule: component_step.cases)
  case (start key spawn)
  then show ?thesis using start_component_inv [of "fst w" "snd w"] assms(2,3) by simp
next
  case stop
  obtain slot p where w: "w = (slot, p)" by fastforce
  show ?thesis using assms(2) bump_generation_fresh(2) [OF assms(3)]
    by (auto simp: w stop stop_component_def known_def)
next
  case (running g p slot)
  then show ?thesis using assms(2) by (cases "rt_active slot") (auto simp: mark_component_running_def)
next
  case (finished g p slot error)
  then show ?thesis using assms(2)
    by (cases "rt_active slot"; cases error) (auto simp: component_finished_def completion_state_def)
next
  case (silent g p slot)
  then show ?thesis using assms(2) by auto
qed

lemma component_reachable:
  assumes "(component_step ^^ n) component_initial w" "n < 2 ^ 64"
  shows "component_inv w \<and> unat (rt_next_generation (fst w)) \<le> n"
  using assms
proof (induction n arbitrary: w)
  case 0
  then show ?case by (auto simp: component_initial_def task_slot_default_def)
next
  case (Suc n)
  then obtain v where v: "(component_step ^^ n) component_initial v" "component_step v w" by auto
  have "component_inv v" "unat (rt_next_generation (fst v)) \<le> n" using Suc.IH [OF v(1)] Suc.prems(2) by auto
  then show ?case using component_step_inv [OF v(2)] component_generation [OF v(2)] Suc.prems(2) by simp
qed

end
