(* ===== verification/Example_Cluster.thy ===== *)
theory Example_Cluster
  imports Fanout_Job Cluster_Sync Supervisor
begin

text \<open>
  Three processes on two hosts, registered with a coordinator, at which the theorems on the registry, the
  reports and the fan-out are applied.
\<close>

definition demo_node :: "string \<Rightarrow> string \<Rightarrow> i32 \<Rightarrow> i32 \<Rightarrow> i32 \<Rightarrow> Node" where
  "demo_node host addr rank local_rank grp = \<lparr>nd_host = host, nd_addr = addr, nd_local_rank = Some local_rank,
     nd_rank = Some rank, nd_world_size = Some 3, nd_group_rank = Some grp, nd_group_world_size = Some 2,
     nd_role_name = None, nd_role_rank = None, nd_role_world_size = None, nd_role = None,
     nd_status = Some ''running'', nd_timestamp = 1000\<rparr>"

abbreviation "demo_n0 \<equiv> demo_node ''a'' ''a1'' 0 0 0"
abbreviation "demo_n1 \<equiv> demo_node ''a'' ''a2'' 1 1 0"
abbreviation "demo_n2 \<equiv> demo_node ''b'' ''b1'' 2 0 1"

definition demo_reports :: "(nat \<times> Node) list" where
  "demo_reports = [(1000, demo_n0), (1000, demo_n1), (1000, demo_n2)]"

definition demo_cluster :: Cluster where
  "demo_cluster = update_nodes demo_reports cluster_default"

definition demo_order :: "string list" where
  "demo_order = [''a:a1'', ''a:a2'', ''b:b1'']"

lemma demo_stamped: "stamped 1000 (demo_node h a r l g) = demo_node h a r l g"
  by (simp add: stamped_def demo_node_def)

lemma demo_node_sel [simp]:
  "node_key (demo_node h a r l g) = h @ '':'' @ a" "nd_rank (demo_node h a r l g) = Some r"
  "nd_host (demo_node h a r l g) = h" "nd_addr (demo_node h a r l g) = a" "nd_local_rank (demo_node h a r l g) = Some l"
  "nd_group_rank (demo_node h a r l g) = Some g" "nd_status (demo_node h a r l g) = Some ''running''"
  "nd_timestamp (demo_node h a r l g) = 1000"
  by (simp_all add: demo_node_def node_key_def)

lemma demo_cluster_inv: "reg_inv demo_cluster"
  unfolding demo_cluster_def by (intro update_nodes_inv reg_inv_default)

lemma demo_cluster_nodes:
  "cl_nodes demo_cluster = [''a:a1'' \<mapsto> demo_n0, ''a:a2'' \<mapsto> demo_n1, ''b:b1'' \<mapsto> demo_n2]"
proof
  fix k
  have "reported_ok (map snd demo_reports)" by (simp add: reported_ok_def demo_reports_def)
  then show "cl_nodes demo_cluster k = [''a:a1'' \<mapsto> demo_n0, ''a:a2'' \<mapsto> demo_n1, ''b:b1'' \<mapsto> demo_n2] k"
    unfolding demo_cluster_def using update_nodes_put_all [OF reg_inv_default, of demo_reports k]
    by (simp add: demo_reports_def lookup_key_def demo_stamped cluster_default_def holds_rank_def)
qed

lemma demo_ran: "ran (cl_nodes demo_cluster) = {demo_n0, demo_n1, demo_n2}"
  unfolding demo_cluster_nodes by (simp add: ran_map_upd insert_commute)

lemma demo_order_ok: "distinct demo_order" "set demo_order = dom (cl_nodes demo_cluster)"
  by (auto simp: demo_order_def demo_cluster_nodes)

lemma demo_alive: "set (alive_nodes demo_order demo_cluster) = {demo_n0, demo_n1, demo_n2}"
  unfolding alive_nodes_def set_filter get_nodes_props(2) [OF demo_cluster_inv demo_order_ok] demo_ran
  by (auto simp: is_node_alive_def)

section \<open>A query\<close>

definition demo_frame :: "Node \<Rightarrow> DataFrame" where
  "demo_frame n = \<lparr>df_names = [''x''], df_cols = [SeqI64 [7, 8]], df_size = 2\<rparr>"

definition demo_process :: "Node \<Rightarrow> process" where
  "demo_process n = \<lparr>pr_host = nd_host n, pr_label = nd_addr n, pr_listen = [nd_addr n], pr_local_rank = nd_local_rank n,
     pr_group_rank = nd_group_rank n, pr_rank = nd_rank n, pr_hierarchical = True, pr_strict = False, pr_order = demo_order,
     pr_cluster = demo_cluster, pr_query = (\<lambda>_. Inr (demo_frame n))\<rparr>"

definition demo_network :: network where
  "demo_network = \<lparr>net_reach = (\<lambda>addr. if addr = ''a1'' then Inr (demo_process demo_n0)
       else if addr = ''a2'' then Inr (demo_process demo_n1)
       else if addr = ''b1'' then Inr (demo_process demo_n2) else Inl (TransportError ''refused'')),
     net_arrive = rev\<rparr>"

lemma demo_runs: "n \<in> {demo_n0, demo_n1, demo_n2} \<Longrightarrow> runs_as demo_order demo_cluster demo_frame n (demo_process n)"
  by (auto simp: runs_as_def demo_process_def demo_ran)

lemma demo_reach: "n \<in> {demo_n0, demo_n1, demo_n2} \<Longrightarrow> net_reach demo_network (nd_addr n) = Inr (demo_process n)"
  by (auto simp: demo_network_def)

lemma demo_frame_of: "frame_of [''x''] [3] (demo_frame n)"
  by (simp add: frame_of_def demo_frame_def df_row_count_def)

lemma demo_job: "job_ok demo_network demo_order demo_cluster [''x''] [3] demo_frame"
proof -
  have "inj_on nd_addr (ran (cl_nodes demo_cluster))" unfolding demo_ran by (simp add: inj_on_def)
  moreover have "hierarchical_metadata_available demo_order demo_cluster"
    unfolding hierarchical_metadata_available_def Let_def alive_nodes_def [symmetric] demo_alive
    using demo_alive by (cases "alive_nodes demo_order demo_cluster") simp_all
  moreover have "schema_ok [''x''] [3]" "set [''x''] \<inter> set tag_names = {}" by (simp_all add: schema_ok_def tag_names_def)
  moreover have "\<exists>p. net_reach demo_network (nd_addr n) = Inr p \<and> runs_as demo_order demo_cluster demo_frame n p"
    if "n \<in> set (alive_nodes demo_order demo_cluster)" for n
    using demo_runs demo_reach that unfolding demo_alive by blast
  ultimately show ?thesis
    unfolding job_ok_def using demo_cluster_inv demo_order_ok demo_frame_of by (simp add: demo_network_def)
qed

section \<open>Reports\<close>

definition demo_clock :: "nat \<Rightarrow> Node list \<Rightarrow> (nat \<times> Node) list" where
  "demo_clock t ns = map (\<lambda>n. (t, n)) ns"

definition demo_registry :: "u64 \<Rightarrow> cluster_state" where
  "demo_registry v = \<lparr>cs_cluster = demo_cluster, cs_version = v\<rparr>"

lemma demo_clock_snd [simp]: "map snd (demo_clock t ns) = ns"
  by (simp add: demo_clock_def comp_def)

lemma demo_update_dom:
  assumes "reported_ok ns" "\<And>n k. n \<in> set ns \<Longrightarrow> holds_rank (cl_nodes demo_cluster) (nd_rank n) k \<Longrightarrow> k \<in> node_key ` set ns"
    "node_key ` set ns \<subseteq> dom (cl_nodes demo_cluster)"
  shows "set demo_order = dom (cl_nodes (update_nodes (demo_clock t ns) demo_cluster))"
proof -
  have "cl_nodes (update_nodes (demo_clock t ns) demo_cluster) k \<noteq> None \<longleftrightarrow> cl_nodes demo_cluster k \<noteq> None" for k
  proof (cases "k \<in> node_key ` set ns")
    case True
    then have "lookup_key (map (\<lambda>(t, n). stamped t n) (demo_clock t ns)) k \<noteq> None"
      unfolding lookup_key_stamped_None by simp
    then show ?thesis using True assms(3) update_nodes_put_all [OF demo_cluster_inv, of "demo_clock t ns" k] assms(1)
      by (auto split: option.splits)
  next
    case False
    then have "lookup_key (map (\<lambda>(t, n). stamped t n) (demo_clock t ns)) k = None"
      unfolding lookup_key_stamped_None by simp
    moreover have "\<not> (\<exists>n \<in> snd ` set (demo_clock t ns). holds_rank (cl_nodes demo_cluster) (nd_rank n) k)"
      using False assms(2) by (auto simp: demo_clock_def)
    ultimately show ?thesis using update_nodes_put_all [OF demo_cluster_inv, of "demo_clock t ns" k] assms(1) by simp
  qed
  then show ?thesis unfolding demo_order_ok(2) by auto
qed

section \<open>Frames of different columns\<close>

definition demo_xy :: "i64 \<Rightarrow> i64 \<Rightarrow> DataFrame" where
  "demo_xy u v = \<lparr>df_names = [''x'', ''y''], df_cols = [SeqI64 [u], SeqI64 [v]], df_size = 1\<rparr>"

definition demo_x :: "i64 \<Rightarrow> DataFrame" where
  "demo_x u = \<lparr>df_names = [''x''], df_cols = [SeqI64 [u]], df_size = 1\<rparr>"

lemma demo_xy_props:
  "frame_of [''x'', ''y''] [3, 3] (demo_xy u v)" "frame_of [''x''] [3] (demo_x u)" "df_row_count (demo_xy u v) = 1" "df_row_count (demo_x u) = 1"
  by (simp_all add: frame_of_def demo_xy_def demo_x_def df_row_count_def)

end
