(* ===== verification/Spec2Isabelle.thy ===== *)
theory Spec2Isabelle
  imports Example_Tables Example_Memh Example_Cold Example_Cluster
begin

text \<open>
  \<^bold>\<open>Probing: verified models of its tables and of its cluster registry\<close>

  Probing records telemetry of running training processes. Each process writes rows into tables that
  live in memory shared with its readers (crate \<open>probing/memtable\<close>), a compactor moves the sealed
  parts of these tables to segment files on disk, and the processes of a job report themselves to a
  coordinator that keeps a registry of the cluster (\<open>probing/proto\<close>, \<open>probing/core\<close>,
  \<open>probing/server\<close>). The development models these parts, with paths below relative to
  \<open>src/probing/\<close>, and proves what they promise each other.

  \<^bold>\<open>MEMT, the ring of row chunks\<close> (\<open>memtable/src/\<close>). One byte buffer holds a header, column
  descriptors, an array of reader leases (sixteen per chunk) and the chunks, each a payload of
  length-prefixed rows. The model
  keeps the buffer as a byte list; every field is read and written at the offset the code uses.

    \<^item> \<open>Prelude\<close>: machine types, checked \<open>usize\<close> arithmetic, slices and in-place writes. Panics
      are the value \<open>None\<close>, errors of the code are \<open>Inl\<close>. \<open>Framing\<close>: length-prefixed frames.
    \<^item> \<open>Schema\<close> (schema.rs), \<open>Layout\<close> (layout.rs), \<open>Lease\<close> (row.rs 126-412: leases and pins),
      \<open>Raw\<close> (raw.rs: append, advance, validation, initialisation), \<open>Row\<close> and \<open>Row_Iter\<close> (row.rs:
      cursor, random access, iterator), \<open>Dedup\<close> (dedup.rs), \<open>Writer\<close> (writer.rs), \<open>Memtable\<close>
      (memtable.rs) hold the definitions with their first lemmas.
    \<^item> \<open>Raw_Append\<close>, \<open>Raw_Advance\<close>, \<open>Advance_Leases\<close>, \<open>Raw_Init\<close>, \<open>Row_Read\<close>, \<open>Payload\<close> say what each
      operation does to the bytes: its frame, its effect, and what a reader gets back.
    \<^item> \<open>Ring\<close> is the abstract specification, a ring of row lists with its lap and the number of rows
      lost. \<open>Table_Refine\<close>, \<open>Table_Push\<close>, \<open>Table_Writer\<close>, \<open>Table_Read\<close> prove that the buffer implements
      it (\<open>represents b s\<close>); \<open>Writer_Equiv\<close> that the streaming writer leaves the bytes of the batch
      writer; \<open>Table_Validate\<close> that \<open>validate_buf\<close> returns on every buffer and accepts only readable
      ones; \<open>Table_Guarantees\<close> combines readers, pins and recycling.

  \<^bold>\<open>MEMH, the key-value table\<close> (\<open>memtable/src/memh/\<close>). A header with a recovery journal, an array of
  32-byte slots probed linearly, and an arena of records.

    \<^item> \<open>Memh_Codec\<close> (codec.rs), \<open>Memh_Layout\<close> (layout.rs), \<open>Memh_Table\<close> (table.rs) hold the definitions.
      A slot transaction is the list of its 64-bit stores, so that a writer can die after any of them.
    \<^item> \<open>Probing\<close> is the abstract bucket array and the map it stands for; \<open>Memh_Slot\<close>, \<open>Memh_Refine\<close>,
      \<open>Memh_Read\<close>, \<open>Memh_Write\<close>, \<open>Memh_Map\<close> prove that the bytes implement it, \<open>Memh_Store\<close> states the
      store as a locale and interprets it on \<open>SharedMemhWriter\<close>, \<open>Memh_Recovery\<close> treats dead writers,
      \<open>Seqlock\<close> the slot lock as a step relation under every interleaving.

  \<^bold>\<open>MEMC, the cold store\<close> (\<open>memtable/src/memc/\<close>). A segment file is a header, 64-aligned blocks (table
  definitions and pages of columns) and, once sealed, a footer with a page directory.

    \<^item> \<open>Memc_Layout\<close>, \<open>Memc_Codec\<close>, \<open>Memc_Writer\<close>, \<open>Memc_Reader\<close>, \<open>Memc_Store\<close>, \<open>Memc_Compactor\<close> hold the
      definitions of the files of the same names. A file is its bytes with the writer's position; a
      write may fail after any number of bytes.
    \<^item> \<open>Memc_Segment\<close> is the specification, a segment as a log of entries; \<open>Memc_Recover\<close>, \<open>Memc_Log\<close>,
      \<open>Memc_History\<close>, \<open>Memc_Refine\<close> prove that writer and reader implement it; \<open>Memc_Guarantees\<close> covers
      crashes and pruning; \<open>Memc_Retention\<close> names and evictions; \<open>Memc_Drain\<close>, \<open>Memc_Watermark\<close>,
      \<open>Memc_Promises\<close> the compactor from the table's rows to the file and across restarts.

  \<^bold>\<open>The cluster registry\<close> (\<open>proto/src/protocol/cluster.rs\<close>, \<open>core/src/core/cluster.rs\<close>). Nodes by the
  key \<open>host:addr\<close> and an index from ranks to keys; a version that counts changes.

    \<^item> \<open>Cluster_Registry\<close>: \<open>Node\<close>, \<open>Cluster\<close>, \<open>put\<close>, removals, the sweep of stale nodes, reports, deltas,
      pages and the loop that fetches them (\<open>server/src/cluster_http.rs\<close>). \<open>Cluster_Invariant\<close>: the invariant of nodes and index, as locales for the operations
      that update, expire and remove, interpreted on each of them, and the states reachable from
      the empty registry. \<open>Cluster_Report\<close>: \<open>report_once\<close> and the application
      of its answer (\<open>server/src/torchrun_cluster.rs\<close>). \<open>Cluster_Sync\<close>: what one round of report and
      answer does to both registries.

  \<^bold>\<open>Cluster queries\<close> (\<open>proto/src/types/\<close>, \<open>server/src/server/cluster_fanout/\<close>,
  \<open>core/src/core/federation/convert.rs\<close>).

    \<^item> \<open>Dataframe\<close> (basic.rs, seq.rs, dataframe.rs, merge.rs): typed columns, frames and their merge.
      \<open>Fanout\<close>: which peers a query asks, the tags of its rows, the tiers of coordinator, node aggregator
      and leaf. \<open>Fanout_Reach\<close>, \<open>Fanout_Rows\<close>, \<open>Fanout_Job\<close>: whom a hierarchical query reaches and which
      rows it returns.

  \<^bold>\<open>The supervisor\<close> (\<open>server/src/supervisor.rs\<close>): \<open>Supervisor\<close> has the operations on the slots and the
  step relations of the remote listener and of the replaceable components; their invariants are
  proved by induction over the steps. A task is its generation, and may end without a word.

  \<open>Example_Tables\<close>, \<open>Example_Memh\<close>, \<open>Example_Memc\<close>, \<open>Example_Cold\<close>, \<open>Example_Cluster\<close> are the concrete instances at which
  the properties with hypotheses are applied.

  \<^bold>\<open>How the parts interact.\<close> Readers of a MEMT table take a lease slot and pin a chunk; the writer's
  advance recycles only a chunk without live leases. The compactor is such a
  reader: it pins a sealed chunk, transposes its rows into columns, appends them as a page tagged
  with the chunk and its generation, and remembers the generation as a watermark; after a restart
  it reads the watermarks back from the page directories.
  A reporter (local rank 0 of a host) sends the nodes of its host to the coordinator, which merges them,
  sweeps stale nodes and answers with the changes; the reporter applies them to its own registry or
  fetches all pages. A cluster query runs on the registry: the coordinator asks the processes of its own
  group and one aggregator of each other group, which asks the processes of its group, and the frames
  are tagged and merged on the way back.

  \<^bold>\<open>Parameters.\<close> The operating system is the record of arguments \<open>os\<close> (which process is alive and when
  it started, the instance id), the clock is an argument, and so are the hash \<open>xxh3\<close>, the numeric codec
  \<open>pco\<close> (with its documented round trip as hypothesis) and the iteration order of a \<open>HashMap\<close>. What a
  concurrent process stores between two reads of one operation is an argument of that operation
  (the second read of \<open>pin_chunk\<close>, the validity checks of the cursor).

  \<^bold>\<open>Bounds and fuel.\<close> The spin loops have fuel and a theorem that it is enough: one round for a quiescent
  slot and at most 66 iterations of \<open>read_slot\<close> when the writer is dead (\<open>slot_crash_reader\<close>); 64 rounds
  of lease acquisition and of pinning, as in the code; \<open>create_segment\<close> tries at most one name more than
  there are files (\<open>segment_names_fresh\<close>); the row iterator has one step per byte of the chunk and one
  more; the paginated fetch has one turn per node of the server and one more (\<open>fetch_loop_all\<close>). Counters of the code that wrap (\<open>rows_overwritten\<close>,
  generations) are modelled modulo their width, and a theorem that needs a counter not to wrap says
  so in a hypothesis.

  \<^bold>\<open>Findings.\<close> Several properties state what the code does where it does not do what it should:
  \<open>empty_row_overflows\<close>, \<open>long_key_unreadable\<close>, \<open>memh_init_overflow_rejected\<close>, \<open>crash_during_seal\<close>,
  \<open>torn_block_loses_segment\<close>, \<open>full_lease_table_loses_chunk\<close>, \<open>unreadable_segment_blocks_retention\<close>,
  \<open>rank_exchange_loses_nodes\<close>, \<open>interleaved_report_gets_nothing\<close>, \<open>merge_misaligns\<close>, \<open>last_request_loses\<close>.

  \<^bold>\<open>Not modelled.\<close> Creating, mapping, locking and unlinking files and shared memory (memtable.rs,
  discover.rs, cache.rs, refcount.rs) and sending HTTP requests, because they are calls into the operating
  system; of cluster queries the SQL planner, which splits a query before it fans out; weak memory:
  atomics are taken as sequentially consistent, which MEMH uses throughout and MEMT does not; the
  query engine, SQL rewriting of the federation, server routes, extensions, macros, command line and user interface,
  which are glue around DataFusion, Arrow, axum, PyO3, CUDA and NCCL.
\<close>

section \<open>The table as a log\<close>

text \<open>
  C1. A table created by \<open>MemTableWriter::init\<close> and written through any sequence of \<open>try_push_row\<close> calls
  (plain, or with dedup and any \<open>min_dedup_len\<close>; any hash; any state of the reading processes at
  each call) never panics, and afterwards the chunks taken in the order of \<open>chunks_logical\<close> decode,
  row by row, to exactly the rows that were reported as written, in order, except for the oldest
  \<open>lost\<close> ones that recycling overwrote; the header counter \<open>rows_overwritten\<close> is that number modulo
  \<open>2^32\<close>.
\<close>

theorem writer_history:
  assumes "writer_init os iid addr b s csz nch = Inr w0" "csz < 2 ^ 32" "nch < 2 ^ 32" "length b < 2 ^ 64"
    and "w = w0 \<or> csz \<le> 2 ^ 31 \<and> w = writer_set_min_dedup_len (writer_dedup w0) m"
    and "\<forall>(e, vs) \<in> set rs. row_ok (mw_buf w) vs" "length rs + 1 < 2 ^ 64"
  shows "\<exists>outs w' lost. push_all writer_push_env w rs = Some (outs, w') \<and> length outs = length rs \<and>
    (let written = concat (map2 (\<lambda>(e, vs) out. logged vs out) rs outs) in
     lost \<le> length written \<and>
     concat (map (decode_chunk (mw_buf w')) (chunks_logical (mw_buf w'))) = drop lost written \<and>
     rows_overwritten (header (mw_buf w')) = lost mod 2 ^ 32)"
proof -
  note wi = writer_init_rep [OF assms(1-4)]
  have rep: "writer_rep w (ring_init nch)"
    using assms(5) wi writer_dedup_rep(1) [OF wi(1)] by (auto simp: writer_min_len_rep)
  have "0 < nch" using representsD(3) [of "mw_buf w" "ring_init nch"] rep
    by (simp add: writer_rep_def ring_wf_def ring_init_def)
  then have log: "ring_log (ring_init nch) []" by (simp add: ring_log_def ring_init_def [THEN arg_cong [of _ _ ring_lost]])
  have lap: "ring_lap (ring_init nch :: Value list ring) + length rs < 2 ^ 64"
    using assms(7) by (simp add: ring_init_def)
  from writer_table.push_all_log [OF rep log lap assms(6)] obtain outs w' s' where
    o: "push_all writer_push_env w rs = Some (outs, w')" "length outs = length rs" "writer_rep w' s'"
    "ring_log s' ([] @ concat (map2 (\<lambda>(e, r) out. logged r out) rs outs))" by blast
  have r: "represents (mw_buf w') s'" using o(3) by (simp add: writer_rep_def)
  show ?thesis
    using o logical_contents [OF r] representsD(7) [OF r]
    by (intro exI [of _ outs] exI [of _ w'] exI [of _ "ring_lost s'"]) (simp add: ring_log_def Let_def)
qed

theorem writer_history_witness:
  "\<exists>outs w' lost. push_all writer_push_env demo_dedup demo_rows = Some (outs, w') \<and> length outs = length demo_rows \<and>
    (let written = concat (map2 (\<lambda>(e, vs) out. logged vs out) demo_rows outs) in
     lost \<le> length written \<and>
     concat (map (decode_chunk (mw_buf w')) (chunks_logical (mw_buf w'))) = drop lost written \<and>
     rows_overwritten (header (mw_buf w')) = lost mod 2 ^ 32)"
proof -
  have mode: "demo_dedup = demo_writer \<or> (64::nat) \<le> 2 ^ 31 \<and> demo_dedup = writer_set_min_dedup_len (writer_dedup demo_writer) 0"
    by (simp add: demo_dedup_def)
  show ?thesis
    by (rule writer_history [OF demo_writer_init _ _ _ mode demo_rows_ok]) (simp_all add: demo_rows_def)
qed


section \<open>Writing one row\<close>

text \<open>
  C2. \<open>push_row\<close> on a well-formed table, for a row of the schema: it is \<open>Written\<close> in place exactly when
  the encoded row fits the current chunk; otherwise \<open>ReadersPinned\<close> exactly when some reader
  holds a live lease on the next chunk (and then no row is lost); otherwise the next chunk is
  recycled and the row is \<open>Written\<close> there, or \<open>RowTooLarge\<close> when it exceeds a whole chunk. The ring the
  buffer stands for changes accordingly and the column layout is untouched.
\<close>

theorem push_plain_outcome:
  assumes "represents b s" "row_ok b vs" "ring_lap s + 1 < 2 ^ 64"
  shows "\<exists>b'. push_plain_row_detailed os b vs =
      Some (if row_fits b (row_data_size vs) then Written
            else if chunk_pinned os b (next_chunk b) then WriteReadersPinned
            else if chunk_size (header b) < CHUNK_HEADER_SIZE + (4 + row_data_size vs) then RowTooLarge
            else Written, b') \<and> cold_eq b b' \<and>
    represents b' (if row_fits b (row_data_size vs) then ring_append vs s
       else if chunk_pinned os b (next_chunk b) then s
       else if chunk_size (header b) < CHUNK_HEADER_SIZE + (4 + row_data_size vs) then ring_advance s
       else ring_append vs (ring_advance s))"
  by (rule push_plain_cases [OF assms])

theorem push_plain_outcome_witness:
  "\<exists>b'. push_plain_row_detailed demo_os demo_buf [VI64 5] =
      Some (if row_fits demo_buf (row_data_size [VI64 5]) then Written
            else if chunk_pinned demo_os demo_buf (next_chunk demo_buf) then WriteReadersPinned
            else if chunk_size (header demo_buf) < CHUNK_HEADER_SIZE + (4 + row_data_size [VI64 5]) then RowTooLarge
            else Written, b') \<and> cold_eq demo_buf b' \<and>
    represents b' (if row_fits demo_buf (row_data_size [VI64 5]) then ring_append [VI64 5] (ring_init 1)
       else if chunk_pinned demo_os demo_buf (next_chunk demo_buf) then ring_init 1
       else if chunk_size (header demo_buf) < CHUNK_HEADER_SIZE + (4 + row_data_size [VI64 5]) then ring_advance (ring_init 1)
       else ring_append [VI64 5] (ring_advance (ring_init 1)))"
  by (rule push_plain_outcome [OF demo_props(1) demo_row_ok]) (simp add: ring_init_def)

section \<open>Readers and the recycling writer\<close>

text \<open>
  C3. A chunk that a live process has pinned through \<open>try_rows\<close> is not recycled: when the ring would
  advance onto it, \<open>advance_chunk_raw_detailed\<close> answers \<open>ReadersPinned\<close>, leaves every chunk header and
  payload as the reader found it, and counts the blocked write. \<open>os'\<close> is the operating system at
  the time of the advance; all that is asked of it is that the reader's process instance is alive.
\<close>

theorem pinned_chunk_survives:
  assumes "represents b s" "i < num_chunks (header b)" "try_rows os b i = (Inr it, b1)" "it_pin it = Some p"
    and "process_instance_alive os' (current_process_id os) (process_start_time os (current_process_id os))"
    and "next_chunk b1 = i"
  shows "\<exists>b2. advance_chunk_raw_detailed os' b1 = Some (ReadersPinned, b2) \<and> represents b2 s \<and>
    (\<forall>j<num_chunks (header b). chunk_view b2 j = chunk_view b j) \<and>
    writes_blocked (header b2) = (writes_blocked (header b) + 1) mod 2 ^ 64"
proof -
  note r = representsD [OF assms(1)]
  have lf: "lease_frame b b1" using try_rows_pinned [OF assms(1-4)] by blast
  have rep1: "represents b1 s" by (rule represents_lease_frame [OF assms(1) lf])
  have h: "header b1 = header b" by (rule lease_frame_header [OF r(1) lf])
  have pin: "chunk_pinned os' b1 (next_chunk b1)" using pin_blocks_advance [OF assms(1-5)] assms(6) by simp
  from represents_pinned [OF rep1 pin] advance_pinned [OF representsD(1) [OF rep1] pin representsD(2) [OF rep1]]
  show ?thesis using lease_frame_view [OF r(1) lf] h by auto
qed

theorem pinned_chunk_survives_witness:
  "\<exists>it b1 p. try_rows demo_os demo_buf 0 = (Inr it, b1) \<and> it_pin it = Some p \<and>
    (\<exists>b2. advance_chunk_raw_detailed demo_os b1 = Some (ReadersPinned, b2) \<and> represents b2 (ring_init 1) \<and>
      (\<forall>j<num_chunks (header demo_buf). chunk_view b2 j = chunk_view demo_buf j) \<and>
      writes_blocked (header b2) = (writes_blocked (header demo_buf) + 1) mod 2 ^ 64)"
proof -
  from demo_try_rows obtain it b1 p where t: "try_rows demo_os demo_buf 0 = (Inr it, b1)" "it_pin it = Some p" by blast
  have i: "0 < num_chunks (header demo_buf)" by (simp add: demo_props(3))
  have "header b1 = header demo_buf"
    using try_rows_pinned [OF demo_props(1) i t] lease_frame_header [OF representsD(1) [OF demo_props(1)]] by blast
  then have n: "next_chunk b1 = 0" by (simp add: next_chunk_def demo_props(3) [simplified])
  have a: "process_instance_alive demo_os (current_process_id demo_os) (process_start_time demo_os (current_process_id demo_os))"
    by (simp add: process_instance_alive_def demo_os_def)
  from pinned_chunk_survives [OF demo_props(1) i t a n] t show ?thesis by blast
qed

text \<open>
  C4. What a reader gets. When \<open>try_rows\<close> hands out an iterator for a chunk, calling \<open>next\<close> until it
  is exhausted yields, in order, rows whose cursor (with the column types of the table) reads back
  exactly the values written to that chunk: inline scalars, inline strings and byte strings, and
  dedup back-references alike. The number of calls is the row count plus one. An iterator without
  a pin belongs to a chunk that holds no rows and yields nothing.
\<close>

theorem reader_sees_rows:
  assumes "represents b s" "i < num_chunks (header b)" "try_rows os b i = (Inr it, b1)"
    and "length (ring_chunks s ! i) < n"
  shows "\<exists>rows. row_iter_take n (\<lambda>_. (True, True)) it = Some rows \<and> map (decode_row b1) rows = ring_chunks s ! i"
proof (cases "it_pin it")
  case (Some p)
  then show ?thesis by (rule read_through_pin [OF assms(1-3) _ _ assms(4)]) simp
next
  case None
  obtain k where "n = Suc k" using assms(4) by (cases n) auto
  then show ?thesis using try_rows_unpinned [OF assms(1-3) None, of "\<lambda>_. (True, True)"] by simp
qed

theorem reader_sees_rows_witness:
  "\<exists>b it b1 rows. try_rows demo_os b 0 = (Inr it, b1) \<and>
    row_iter_take 2 (\<lambda>_. (True, True)) it = Some rows \<and> map (decode_row b1) rows = [[VI64 5]]"
proof -
  from demo_sealed obtain b where b: "represents b demo_ring" "num_chunks (header b) = 2" "lease_slots (header b) = 16"
    "\<forall>k<16. lease_state (reader_lease b 0 k) = 0" by blast
  from demo_sealed_pin [OF b] obtain it b1 where t: "try_rows demo_os b 0 = (Inr it, b1)" by blast
  have i: "0 < num_chunks (header b)" "length (ring_chunks demo_ring ! 0) < 2" using b(2) by (simp_all add: demo_ring)
  have rows: "ring_chunks demo_ring ! 0 = [[VI64 5]]" by (simp add: demo_ring)
  from reader_sees_rows [OF b(1) i(1) t i(2), unfolded rows] t show ?thesis
    by (intro exI [of _ b] exI [of _ it] exI [of _ b1]) simp
qed

text \<open>
  C5. A reader is served whenever a lease slot of the chunk is free (and none of its own slots has
  the maximal reference count): \<open>try_rows\<close> on a chunk with rows, or on the current chunk, returns a
  pinned iterator and never \<open>ReaderLeaseExhausted\<close>.
\<close>

theorem reader_is_served:
  assumes "represents b s" "i < num_chunks (header b)" "ring_chunks s ! i \<noteq> [] \<or> i = ring_cur s"
    and "k < lease_slots (header b)" "lease_state (reader_lease b i k) = 0"
    and "\<forall>k<lease_slots (header b). \<not> slot_saturated os (reader_lease b i k)"
  shows "\<exists>it b1 p. try_rows os b i = (Inr it, b1) \<and> it_pin it = Some p \<and> pin_holds os b1 p"
  using try_rows_succeeds [OF assms] try_rows_pinned [OF assms(1,2)] by metis

theorem reader_is_served_witness:
  "\<exists>it b1 p. try_rows demo_os demo_buf 0 = (Inr it, b1) \<and> it_pin it = Some p \<and> pin_holds demo_os b1 p"
  using reader_is_served [OF demo_props(1) _ _ _ _ demo_unsaturated, of 0] demo_props(7) [of 0] demo_slots
  by (simp add: demo_props(3) [simplified] ring_init_def)

section \<open>The key-value table\<close>

text \<open>
  C6. A MEMH table created by \<open>init_buf\<close> and used through the mutex-guarded writer is a finite map: for
  any sequence of \<open>insert\<close>, \<open>remove\<close> and (validated) \<open>get\<close> calls, each under its own operating system
  state, no call panics or spins, every lookup returns the value last inserted for the key and not
  removed since, every removal reports whether the key was present, and an insertion takes effect
  exactly when it answers \<open>Ok\<close>. The table lies below 4 GiB; keys are UTF-8 and shorter than 65536
  bytes, values are storable.
\<close>

theorem memh_history:
  assumes "memh_init_buf os addr b n cap seed = Inr b0" "192 + n * 32 + cap < 2 ^ 32"
    and "\<forall>(e, op1) \<in> set ops. op_ok entry_ok op1"
  shows "\<exists>rs b' m. run_ops (shared_get xxh3 (Suc spin)) (\<lambda>e. shared_insert xxh3 (fst e) (Suc spin))
      (\<lambda>e. shared_remove xxh3 (fst e) (Suc spin)) b0 ops = Some (rs, b') \<and>
    kv_trace insert_ok typed_of Map.empty (map snd ops) rs = Some m \<and> kv_idle xxh3 b' m"
  using memh_store.run_ops_trace [OF _ assms(3)] memh_init_rep(1,2) [OF assms(1,2)]
  by (simp add: kv_idle_def)

theorem memh_history_witness:
  "\<exists>rs b' m. run_ops (shared_get kv_hash (Suc 0)) (\<lambda>e. shared_insert kv_hash (fst e) (Suc 0))
      (\<lambda>e. shared_remove kv_hash (fst e) (Suc 0)) kv_buf kv_ops = Some (rs, b') \<and>
    kv_trace insert_ok typed_of Map.empty (map snd kv_ops) rs = Some m \<and> kv_idle kv_hash b' m"
  by (rule memh_history [OF kv_init _ kv_ops_ok]) simp

text \<open>
  C7. \<open>MemhWriter::insert\<close> on every branch. It never panics and never answers \<open>InvalidValue\<close>; it is
  \<open>WriterBusy\<close> exactly when a live process claims or owns the writer; otherwise a fresh key is
  \<open>Inserted\<close> and a present one \<open>Updated\<close>, or the map is unchanged and the answer is \<open>TableFull\<close> (an
  absent key, every bucket live) or \<open>ArenaFull\<close> (the record does not fit the arena). Afterwards
  the writer is free again.
\<close>

theorem memh_insert_outcome:
  assumes "kv_rep xxh3 b m" "key_ok key" "storable v" "0 < spin"
  shows "\<exists>r b' m'. memh_insert xxh3 os spin (memh_writer_unchecked b) key v = Some (r, memh_writer_unchecked b') \<and>
    kv_rep xxh3 b' m' \<and> same_base b b' \<and> insert_outcome r (writer_available os b) key v b m m' \<and>
    (writer_available os b \<longrightarrow> writer_idle b')"
  by (rule memh_insert_map [OF assms])

theorem memh_insert_outcome_witness:
  "\<exists>r b' m'. memh_insert kv_hash demo_os 1 (memh_writer_unchecked kv_buf) [0x6B] (VI64 42) = Some (r, memh_writer_unchecked b') \<and>
    kv_rep kv_hash b' m' \<and> same_base kv_buf b' \<and>
    insert_outcome r (writer_available demo_os kv_buf) [0x6B] (VI64 42) kv_buf Map.empty m' \<and>
    (writer_available demo_os kv_buf \<longrightarrow> writer_idle b')"
  by (rule memh_insert_outcome [OF kv_props(1) kv_key(2)]) simp_all

text \<open>
  C8. \<open>MemhWriter::remove\<close> answers true exactly when it could take the writer and the key was present;
  then the key is gone from the map and every other key keeps its value, also when the arena has
  no room for the tombstone record.
\<close>

theorem memh_remove_outcome:
  assumes "kv_rep xxh3 b m" "0 < spin"
  shows "\<exists>b'. memh_remove xxh3 os spin (memh_writer_unchecked b) key =
      Some (writer_available os b \<and> m key \<noteq> None, memh_writer_unchecked b') \<and>
    kv_rep xxh3 b' (if writer_available os b then m(key := None) else m) \<and> same_base b b' \<and>
    (writer_available os b \<longrightarrow> writer_idle b')"
  by (rule memh_remove_map [OF assms])

theorem memh_remove_outcome_witness:
  "\<exists>b'. memh_remove kv_hash demo_os 1 (memh_writer_unchecked kv_buf) [0x6B] =
      Some (writer_available demo_os kv_buf \<and> (Map.empty :: byte list \<Rightarrow> Value option) [0x6B] \<noteq> None, memh_writer_unchecked b') \<and>
    kv_rep kv_hash b' (if writer_available demo_os kv_buf then Map.empty([0x6B] := None) else Map.empty) \<and> same_base kv_buf b' \<and>
    (writer_available demo_os kv_buf \<longrightarrow> writer_idle b')"
  by (rule memh_remove_outcome [OF kv_props(1)]) simp

text \<open>
  C9. Opening and reading a table that stands for a map. \<open>MemhView::new\<close> accepts it; \<open>get\<close> returns
  the map's value for every key; \<open>iter\<close> yields each pair of the map once; \<open>len\<close> is the number of
  keys; none of them changes the buffer.
\<close>

theorem memh_readers:
  assumes "kv_rep xxh3 b m" "0 < spin" "addr mod 8 = 0"
  shows "view_new os spin addr b = Some (Inr (view_of b), b) \<and>
    memh_get xxh3 os spin (view_of b) b key = Some (map_option typed_of (m key), b) \<and>
    (\<exists>kvs. memh_iter os spin (view_of b) b = Some (map (\<lambda>(k, v). (k, typed_of v)) kvs, b) \<and>
       distinct (map fst kvs) \<and> map_of kvs = m) \<and>
    memh_len os spin (view_of b) b = Some (card (dom m), b)"
proof -
  obtain B where B: "slots_rep (table_hash xxh3 b) b B" "probe_inv (home_of (table_hash xxh3 b) (length B)) B"
    "bucket_map B = m" "card (dom m) = length (live_pairs B)" using kv_repE [OF assms(1)] by metis
  have "view_new os spin addr b = Some (Inr (view_of b), b)"
    using validate_memh_rep [OF B(1) assms(2,3)] by (simp add: view_new_def)
  moreover note kv_get [OF assms(1,2), of os key]
  moreover have "distinct (map fst (live_pairs B))" by (rule keys_once_distinct [OF probe_invD(1) [OF B(2)]])
  moreover have "map_of (live_pairs B) = m" using B(3) by (simp add: bucket_map_pairs)
  ultimately show ?thesis using memh_iter_rep [OF B(1) assms(2), of os] memh_len_rep [OF B(1) assms(2), of os] B(4) by auto
qed

theorem memh_readers_witness:
  "view_new demo_os 1 0 kv_buf = Some (Inr (view_of kv_buf), kv_buf) \<and>
    memh_get kv_hash demo_os 1 (view_of kv_buf) kv_buf [0x6B] =
      Some (map_option typed_of ((Map.empty :: byte list \<Rightarrow> Value option) [0x6B]), kv_buf) \<and>
    (\<exists>kvs. memh_iter demo_os 1 (view_of kv_buf) kv_buf = Some (map (\<lambda>(k, v). (k, typed_of v)) kvs, kv_buf) \<and>
       distinct (map fst kvs) \<and> map_of kvs = (Map.empty :: byte list \<Rightarrow> Value option)) \<and>
    memh_len demo_os 1 (view_of kv_buf) kv_buf = Some (card (dom (Map.empty :: byte list \<Rightarrow> Value option)), kv_buf)"
  by (rule memh_readers [OF kv_props(1)]) simp_all



section \<open>Crashes and concurrent readers of a slot\<close>

text \<open>
  C11. A writer process that dies after any number of the stores of a slot mutator (\<open>commit_slot\<close>,
  \<open>commit_slot_head\<close>, \<open>update_slot_inline_value\<close>, \<open>clear_slot\<close>) does not damage the table: the next
  \<open>acquire_writer\<close> succeeds and leaves a table with the buckets as before the mutation, or, when only
  the last store was missing, as after it. \<open>writer_available\<close> says that the dead writer is
  recognised as dead.
\<close>

theorem slot_crash_recovery:
  assumes "slots_rep h b B" "i < nb b" "writer_available os b"
    and "bucket_rep h b i (slot_at (wr_all (slot_stores b i op1) b) i) x"
  shows "\<exists>b'. acquire_writer os (wr_all (take k (slot_stores b i op1)) b) = (True, b') \<and>
    slots_rep h b' (if k + 1 < length (slot_stores b i op1) then B else B[i := x]) \<and> same_base b b'"
  by (rule mutator_crash(1) [OF assms])

theorem slot_crash_recovery_witness:
  "\<exists>B. slots_rep (table_hash kv_hash kv_buf) kv_buf B \<and>
    (\<exists>b'. acquire_writer demo_os (wr_all (take 7 (slot_stores kv_buf 2 kv_del)) kv_buf) = (True, b') \<and>
      slots_rep (table_hash kv_hash kv_buf) b' (if 7 + 1 < length (slot_stores kv_buf 2 kv_del) then B else B[2 := Dead]) \<and>
      same_base kv_buf b')"
proof -
  from kv_slots obtain B where B: "slots_rep (table_hash kv_hash kv_buf) kv_buf B" by blast
  from slot_crash_recovery [OF B _ kv_available kv_del_rep, of 7] B show ?thesis by (auto simp: kv_props(3))
qed

text \<open>
  C12. A reader that meets such a slot is not stuck and never sees a half-written one: within 66
  iterations of its loop \<open>read_slot\<close> returns the slot before the mutation or after it, replacing
  the dead writer if it has to.
\<close>

theorem slot_crash_reader:
  assumes "slots_rep h b B" "i < nb b" "writer_available os b"
    and "bucket_rep h b i (slot_at (wr_all (slot_stores b i op1) b) i) x" "66 \<le> spin"
  shows "\<exists>b'. read_slot os spin (wr_all (take k (slot_stores b i op1)) b) 192 i =
    Some (slot_at (if k + 1 < length (slot_stores b i op1) then b else wr_all (slot_stores b i op1) b) i, b')"
  by (rule mutator_crash(2) [OF assms])

theorem slot_crash_reader_witness:
  "\<exists>b'. read_slot demo_os 66 (wr_all (take 7 (slot_stores kv_buf 2 kv_del)) kv_buf) 192 2 =
    Some (slot_at (if 7 + 1 < length (slot_stores kv_buf 2 kv_del) then kv_buf else wr_all (slot_stores kv_buf 2 kv_del) kv_buf) 2, b')"
proof -
  from kv_slots obtain B where B: "slots_rep (table_hash kv_hash kv_buf) kv_buf B" by blast
  from slot_crash_reader [OF B _ kv_available kv_del_rep, of 66 7] show ?thesis by (simp add: kv_props(3))
qed



text \<open>
  The arena record codec. A \<open>PUT\<close> record decodes to its key and value, its header carries the
  hash, owner and previous offset, its length is the declared one and a multiple of four; a scalar
  that goes through the 8-byte inline form of the slot decodes to itself.
\<close>

theorem record_round_trip:
  assumes "length key < 2 ^ 16" "utf8_ok key" "storable v" "align4 (28 + (length key + encoded_size v)) < 2 ^ 32"
  shows "\<exists>n rcd hdr. encode_put_record key v slot h prev [] = Some (n, rcd) \<and> length rcd = n \<and> n mod 4 = 0 \<and>
    read_record_header (rcd @ rest) = Some hdr \<and> record_len hdr = n \<and> rec_hash hdr = h \<and>
    rec_slot_idx hdr = slot mod 2 ^ 32 \<and> prev_off hdr = prev mod 2 ^ 32 \<and>
    record_key hdr (rcd @ rest) = Some key \<and> record_value hdr (rcd @ rest) = Some (typed_of v) \<and>
    (\<forall>dt bs. encode_inline_bytes v = Some (dt, bs) \<longrightarrow> slot_inline_value dt bs = Some (typed_of v))"
proof -
  let ?r = "arena_record key slot h prev FLAG_PUT (dtype_code (value_dtype v)) (value_bytes v)"
  let ?n = "align4 (28 + (length key + encoded_size v))"
  let ?h = "record_hdr key slot h prev FLAG_PUT (dtype_code (value_dtype v)) (encoded_size v)"
  have "encode_put_record key v slot h prev [] = Some (?n, ?r)" by (simp add: encode_put_record_eq)
  moreover have "length ?r = ?n" by (simp add: length_arena_record)
  moreover have "read_record_header (?r @ rest) = Some ?h" by (simp add: read_record_header_arena)
  moreover have "record_key ?h (?r @ rest) = Some key" using record_key_arena [OF assms(1,2), of "value_bytes v"] assms(4) by simp
  moreover have "record_value ?h (?r @ rest) = Some (typed_of v)" by (rule record_value_arena [OF assms(1,3,4)])
  moreover have "record_len ?h = ?n" "rec_slot_idx ?h = slot mod 2 ^ 32" "prev_off ?h = prev mod 2 ^ 32"
    using assms(4) by (simp_all add: record_hdr_def)
  ultimately show ?thesis
    using rec_hash_record_hdr align4_bounds(3) inline_round_trip
    by (intro exI [of _ ?n] exI [of _ ?r] exI [of _ ?h]) simp
qed

theorem record_round_trip_witness:
  "\<exists>n rcd hdr. encode_put_record [0x6B] (VStr [0x61]) 3 9 NO_PREV [] = Some (n, rcd) \<and> length rcd = n \<and> n mod 4 = 0 \<and>
    read_record_header (rcd @ [1]) = Some hdr \<and> record_len hdr = n \<and> rec_hash hdr = 9 \<and>
    rec_slot_idx hdr = 3 mod 2 ^ 32 \<and> prev_off hdr = NO_PREV mod 2 ^ 32 \<and>
    record_key hdr (rcd @ [1]) = Some [0x6B] \<and> record_value hdr (rcd @ [1]) = Some (typed_of (VStr [0x61])) \<and>
    (\<forall>dt bs. encode_inline_bytes (VStr [0x61]) = Some (dt, bs) \<longrightarrow> slot_inline_value dt bs = Some (typed_of (VStr [0x61])))"
  by (rule record_round_trip) (simp_all add: align4_eq)

text \<open>
  A limit of the format: a key of 65536 bytes or more is stored with its length cut to 16 bits,
  so the record written for it does not decode to the key, and no lookup can match it.
\<close>

theorem long_key_unreadable:
  assumes "2 ^ 16 \<le> length key"
  shows "\<exists>hdr. read_record_header (snd (encode_put_inline_record key slot h prev [])) = Some hdr \<and>
    rec_key_len hdr = length key mod 2 ^ 16 \<and>
    record_key hdr (snd (encode_put_inline_record key slot h prev [])) \<noteq> Some key"
proof -
  let ?r = "arena_record key slot h prev FLAG_PUT_INLINE DTYPE_NONE []"
  let ?h = "record_hdr key slot h prev FLAG_PUT_INLINE DTYPE_NONE 0"
  have "read_record_header ?r = Some ?h" using read_record_header_arena [of key slot h prev _ _ "[]" "[]"] by simp
  moreover have kl: "rec_key_len ?h = length key mod 2 ^ 16" by (simp add: record_hdr_def)
  moreover have "record_key ?h ?r \<noteq> Some key"
  proof
    assume "record_key ?h ?r = Some key"
    then have "length key = rec_key_len ?h" by (rule record_key_length)
    then show False using kl assms by (metis mod_less_divisor not_le zero_less_numeral zero_less_power)
  qed
  ultimately show ?thesis by (simp add: encode_key_record_eq)
qed

theorem long_key_unreadable_witness:
  "\<exists>hdr. read_record_header (snd (encode_put_inline_record (replicate 65537 0x61) 0 0 NO_PREV [])) = Some hdr \<and>
    rec_key_len hdr = length (replicate 65537 (0x61 :: byte)) mod 2 ^ 16 \<and>
    record_key hdr (snd (encode_put_inline_record (replicate 65537 0x61) 0 0 NO_PREV [])) \<noteq> Some (replicate 65537 0x61)"
  by (rule long_key_unreadable) simp

text \<open>
  A limit of the initialiser: for a bucket array that reaches 4 GiB, \<open>init_buf\<close> reports success
  although \<open>arena_start\<close> does not fit its 32-bit field; validation rejects the table it made.
\<close>

theorem memh_init_overflow_rejected:
  assumes "memh_init_buf os addr b n cap seed = Inr b'" "2 ^ 32 \<le> 192 + n * 32" "n < 2 ^ 32"
  shows "validate_memh os' spin addr b' = Some (Inl (MhInvalidLayout ''invalid arena_start''), b')"
  by (rule memh_init_overflow [OF assms])

theorem memh_init_overflow_rejected_witness:
  "\<exists>b'. memh_init_buf demo_os 0 (replicate (2 ^ 33) 0) (2 ^ 27) 64 7 = Inr b' \<and>
    validate_memh demo_os 1 0 b' = Some (Inl (MhInvalidLayout ''invalid arena_start''), b')"
proof -
  have p: "(2 ^ 27 :: nat) AND (2 ^ 27 - 1) = 0" by simp
  have "\<exists>b'. memh_init_buf demo_os 0 (replicate (2 ^ 33) 0) (2 ^ 27) 64 7 = Inr b'"
    using p by (simp add: memh_init_buf_def Let_def checked_add_def checked_mul_def U32_MAX_def SLOT_STRIDE_def)
  then obtain b' where b': "memh_init_buf demo_os 0 (replicate (2 ^ 33) 0) (2 ^ 27) 64 7 = Inr b'" by blast
  from memh_init_overflow_rejected [OF b', of demo_os 1] b' show ?thesis by simp
qed

section \<open>The streaming row writer and dedup\<close>

text \<open>
  C14. \<open>RowWriter\<close> without dedup is the same as \<open>write_row_bytes\<close>: putting the values of a row one by
  one and finishing leaves byte for byte the buffer that appending the row in one call leaves.
\<close>

theorem row_writer_same_bytes:
  assumes "represents b s" "row_fits b (row_data_size vs)"
  shows "\<exists>w1 w2 b'. put_values xxh3 (make_row_writer b None) vs = Some w1 \<and> finish w1 = Some (True, w2) \<and>
    write_row_bytes b vs (row_data_size vs) = Some (True, b') \<and> rw_buf w2 = b'"
  by (rule row_writer_plain [OF representsD(1,2,6) [OF assms(1)] assms(2)])

theorem row_writer_same_bytes_witness:
  "\<exists>w1 w2 b'. put_values demo_hash (make_row_writer demo_buf None) [VI64 5] = Some w1 \<and> finish w1 = Some (True, w2) \<and>
    write_row_bytes demo_buf [VI64 5] (row_data_size [VI64 5]) = Some (True, b') \<and> rw_buf w2 = b'"
  by (rule row_writer_same_bytes [OF demo_props(1)]) (simp add: demo_fits row_data_size_def)

text \<open>
  C15. The same with dedup: the streaming writer and \<open>append_row_dedup_bytes\<close> choose the same back
  references, produce the same bytes and end with the same dedup map.
\<close>

theorem row_writer_same_dedup:
  assumes "represents b s" "dedup_inv b st" "length vs \<le> MAX_DEDUP_COLS" "row_fits b (dedup_row_size xxh3 st b vs)"
  shows "\<exists>w1 w2 b' st'. put_values xxh3 (make_row_writer b (Some st)) vs = Some w1 \<and> finish w1 = Some (True, w2) \<and>
    append_row_dedup_bytes xxh3 b st vs = Some (True, b', st') \<and> rw_buf w2 = b' \<and>
    rw_dedup w2 = Some (st'\<lparr>pending := []\<rparr>)"
  by (rule row_writer_dedup [OF representsD(1,2,6) [OF assms(1)] assms(2-4)])

theorem row_writer_same_dedup_witness:
  "\<exists>w1 w2 b' st'. put_values demo_hash (make_row_writer demo_buf (Some demo_state)) [VI64 5] = Some w1 \<and> finish w1 = Some (True, w2) \<and>
    append_row_dedup_bytes demo_hash demo_buf demo_state [VI64 5] = Some (True, b', st') \<and> rw_buf w2 = b' \<and>
    rw_dedup w2 = Some (st'\<lparr>pending := []\<rparr>)"
  by (rule row_writer_same_dedup [OF demo_props(1) demo_state_inv _ demo_dedup_fits]) (simp add: MAX_DEDUP_COLS_def)

text \<open>
  When the row does not fit, \<open>finish\<close> answers false: the chunk's header and its published
  payload are as before, nothing outside the chunk has changed, and the staged dedup entries are
  rolled back.
\<close>

theorem row_writer_overflow:
  assumes "represents b s" "case ded of Some st \<Rightarrow> dedup_inv b st | None \<Rightarrow> True"
    and "\<not> row_fits b (writer_row_size xxh3 ded b vs)" "vs \<noteq> []"
  shows "\<exists>w1 w2. put_values xxh3 (make_row_writer b ded) vs = Some w1 \<and> finish w1 = Some (False, w2) \<and>
    chunk_only b (rw_buf w2) (write_chunk (header b)) \<and>
    chunk_view (rw_buf w2) (write_chunk (header b)) = chunk_view b (write_chunk (header b)) \<and>
    rw_dedup w2 = map_option begin_row ded"
  by (rule row_writer_too_big [OF representsD(1,2,6) [OF assms(1)] assms(2-4)])

theorem row_writer_overflow_witness:
  "\<exists>w1 w2. put_values demo_hash (make_row_writer demo_buf None) [VI64 1, VI64 2, VI64 3] = Some w1 \<and> finish w1 = Some (False, w2) \<and>
    chunk_only demo_buf (rw_buf w2) (write_chunk (header demo_buf)) \<and>
    chunk_view (rw_buf w2) (write_chunk (header demo_buf)) = chunk_view demo_buf (write_chunk (header demo_buf)) \<and>
    rw_dedup w2 = map_option begin_row None"
  by (rule row_writer_overflow [OF demo_props(1) _ demo_too_big]) simp_all

text \<open>
  A hit in the dedup map is sound whatever the hash: the reference lies in the published part of
  the current chunk and points at exactly the bytes that were looked up, length prefix included.
\<close>

theorem dedup_reference_sound:
  assumes "represents b s" "dedup_inv b st"
    and "dedup_lookup xxh3 st col data b (chunk_start_off b (write_chunk (header b))) = Some off"
  shows "CHUNK_HEADER_SIZE \<le> off \<and> off < 2 ^ 31 \<and>
    off + 4 + length data \<le> CHUNK_HEADER_SIZE + used (chunk_hdr b (write_chunk (header b))) \<and>
    bslice (chunk_start_off b (write_chunk (header b)) + off) (4 + length data) b = le_bytes 4 (length data) @ data"
proof -
  let ?u = "used (chunk_hdr b (write_chunk (header b)))"
  note r = representsD [OF assms(1)]
  have "?u \<le> chunk_size (header b) - 40" by (rule chunks_fitD [OF r(2,6)])
  moreover have "48 \<le> chunk_size (header b)" using table_geomD(3) [OF r(1)] by (simp add: header_def)
  ultimately have c: "CHUNK_HEADER_SIZE + ?u \<le> chunk_size (header b)" by (simp add: CHUNK_HEADER_SIZE_def)
  have d: "chunk_size (header b) \<le> 2 ^ 31" "seen_ok b (chunk_start_off b (write_chunk (header b))) ?u st"
    using assms(2) by (auto simp: dedup_inv_def)
  show ?thesis using dedup_lookup_ref_to [OF assms(3) d(2) c d(1)] by (simp add: ref_to_def)
qed

theorem dedup_reference_sound_witness:
  "CHUNK_HEADER_SIZE \<le> 44 \<and> (44::nat) < 2 ^ 31 \<and>
    44 + 4 + length ([] :: byte list) \<le> CHUNK_HEADER_SIZE + used (chunk_hdr demo_hit_buf (write_chunk (header demo_hit_buf))) \<and>
    bslice (chunk_start_off demo_hit_buf (write_chunk (header demo_hit_buf)) + 44) (4 + length ([] :: byte list)) demo_hit_buf =
      le_bytes 4 (length ([] :: byte list)) @ []"
  by (rule dedup_reference_sound [OF demo_hit_appended(2) demo_hit_inv, of demo_hash 0])
    (simp add: demo_hit(1) demo_hit_lookup)

section \<open>Reading values\<close>

text \<open>
  \<open>chunk_ts_range\<close> is exact: it answers \<open>None\<close> only when no row of the chunk has a timestamp, and
  otherwise its two bounds are the smallest and the largest timestamp that occurs in the chunk, in
  signed order.
\<close>

theorem chunk_ts_range_exact:
  assumes "represents b s" "i < num_chunks (header b)"
  shows "case chunk_ts_range b i of
     Some (lo, hi) \<Rightarrow>
       (\<forall>r\<in>set (ring_chunks s ! i). \<forall>t. row_ts (header b) r = Some t \<longrightarrow> sint lo \<le> sint t \<and> sint t \<le> sint hi) \<and>
       (\<exists>r\<in>set (ring_chunks s ! i). row_ts (header b) r = Some lo) \<and>
       (\<exists>r\<in>set (ring_chunks s ! i). row_ts (header b) r = Some hi)
   | None \<Rightarrow> \<forall>r\<in>set (ring_chunks s ! i). row_ts (header b) r = None"
  by (rule chunk_ts_range_rep [OF assms])

theorem chunk_ts_range_exact_witness:
  "case chunk_ts_range demo_hit_buf 0 of
     Some (lo, hi) \<Rightarrow>
       (\<forall>r\<in>set [[VI64 0]]. \<forall>t. row_ts (header demo_hit_buf) r = Some t \<longrightarrow> sint lo \<le> sint t \<and> sint t \<le> sint hi) \<and>
       (\<exists>r\<in>set [[VI64 0]]. row_ts (header demo_hit_buf) r = Some lo) \<and>
       (\<exists>r\<in>set [[VI64 0]]. row_ts (header demo_hit_buf) r = Some hi)
   | None \<Rightarrow> \<forall>r\<in>set [[VI64 0]]. row_ts (header demo_hit_buf) r = None"
proof -
  have c: "ring_chunks (ring_append [VI64 0] (ring_init 1)) ! 0 = [[VI64 0]]"
    by (simp add: ring_append_def ring_init_def)
  show ?thesis using chunk_ts_range_exact [OF demo_hit_appended(2), of 0] unfolding c by (simp add: demo_hit(2) [simplified])
qed

text \<open>
  Random access: for a row taken from a pinned iterator, \<open>col_*\<close> with the column's type returns
  the value written to that column, without reading the columns before it through the cursor.
\<close>

theorem random_access:
  assumes "represents b s" "i < num_chunks (header b)" "try_rows os b i = (Inr it, b1)" "it_pin it = Some p"
    and "length (ring_chunks s ! i) < n" "row_iter_take n (\<lambda>_. (True, True)) it = Some rows"
    and "k < length rows" "j < num_cols (header b)"
  shows "col_value (table_dtypes b1 ! j) (rows ! k) j True True = ring_chunks s ! i ! k ! j"
  by (rule col_value_rep [OF assms])

theorem random_access_witness:
  "\<exists>it b1 p rows. try_rows demo_os demo_hit_buf 0 = (Inr it, b1) \<and> it_pin it = Some p \<and>
    row_iter_take 2 (\<lambda>_. (True, True)) it = Some rows \<and> col_value (table_dtypes b1 ! 0) (rows ! 0) 0 True True = VI64 0"
proof -
  note r = demo_hit_appended(2)
  have i: "0 < num_chunks (header demo_hit_buf)" by (simp add: demo_hit(2))
  have c: "ring_chunks (ring_append [VI64 0] (ring_init 1)) ! 0 = [[VI64 0]]"
    by (simp add: ring_append_def ring_init_def)
  from demo_hit_try_rows obtain it b1 p where t: "try_rows demo_os demo_hit_buf 0 = (Inr it, b1)" "it_pin it = Some p"
    by blast
  have n: "length (ring_chunks (ring_append [VI64 0] (ring_init 1)) ! 0) < 2" unfolding c by simp
  from read_through_pin [where valid = "\<lambda>_. (True, True)", OF r i t refl n, unfolded c] obtain rows where
    rows: "row_iter_take 2 (\<lambda>_. (True, True)) it = Some rows" "map (decode_row b1) rows = [[VI64 0]]"
    by (elim exE conjE)
  have k: "0 < length rows" using arg_cong [OF rows(2), of length] by simp
  have j: "0 < num_cols (header demo_hit_buf)"
    using cold_eq_header(1) [OF demo_hit_appended(3)] by (simp add: demo_props(2) [simplified])
  have "col_value (table_dtypes b1 ! 0) (rows ! 0) 0 True True = [[VI64 0]] ! 0 ! 0"
    using random_access [OF r i t n rows(1) k j] unfolding c .
  then have "col_value (table_dtypes b1 ! 0) (rows ! 0) 0 True True = VI64 0" by (simp only: nth_Cons_0)
  with t rows(1) show ?thesis by (intro exI conjI)
qed

text \<open>
  A cursor never hands out bytes it could not confirm: when a read leaves the cursor stale (the
  chunk was recycled, the row was too short, a length or reference was out of range), the value is
  the zero of the type; when it leaves the cursor fresh, the cursor was fresh before and every
  validity check made during the read (before, after, and for a variable-length value after the
  payload) had succeeded.
\<close>

theorem stale_reads_are_zero:
  "(cur_stale (snd (next_value d v1 v2 v3 c)) \<longrightarrow> fst (next_value d v1 v2 v3 c) = zero_value d) \<and>
   (\<not> cur_stale (snd (next_value d v1 v2 v3 c)) \<longrightarrow> \<not> cur_stale c \<and> v1 \<and> v2 \<and> (is_fixed d \<or> v3))"
  using next_value_stale next_value_fresh by blast

theorem stale_reads_are_zero_witness:
  "let c = \<lparr>cur_data = [1, 2], cur_pos = 0, cur_buf = [], cur_chunk_start = 0, cur_generation = 1, cur_stale = False\<rparr> in
   cur_stale (snd (next_value DI32 True True True c)) \<and> fst (next_value DI32 True True True c) = VI32 0"
proof -
  let ?c = "\<lparr>cur_data = [1, 2], cur_pos = 0, cur_buf = [], cur_chunk_start = 0, cur_generation = 1, cur_stale = False\<rparr> :: RowCursor"
  have "cur_stale (snd (next_value DI32 True True True ?c))"
    by (simp add: next_defs read_fixed_def checked_add_def mark_stale_def)
  with stale_reads_are_zero [of DI32 True True True ?c] show ?thesis by simp
qed

section \<open>Opening a table\<close>

text \<open>
  C16. \<open>validate_buf\<close> always returns, whatever the buffer holds (a truncated file, random bytes): it
  keeps the length, changes nothing outside the lease area, and if it accepts, the column
  descriptors, leases and chunks lie inside the buffer one after the other, every chunk's \<open>used\<close> is
  within its capacity and every column has a known type.
\<close>

theorem validate_total_and_sound:
  "\<exists>r b'. validate_buf os addr b = Some (r, b') \<and> length b' = length b \<and>
    (b' = b \<or> table_geom b \<and> lease_frame b b') \<and>
    (r = Inr () \<longrightarrow> table_geom b \<and> chunks_fit b \<and> table_geom b' \<and> chunks_fit b' \<and> header b' = header b \<and>
      (\<forall>c<num_cols (header b). \<exists>d. dtype_from_u32 (cd_dtype (col_desc b c)) = Some d))"
  by (rule validate_buf_total)

theorem validate_total_and_sound_witness:
  "\<exists>b'. validate_buf demo_os 0 (replicate 16 0) = Some (Inl (InvalidBuffer ''buffer too small for header''), b') \<and>
    length b' = 16"
  using validate_total_and_sound [of demo_os 0 "replicate 16 0"]
  by (auto simp: validate_buf_def validate_layout_def layout_consts)

text \<open>
  C17. After \<open>validate_buf\<close> has accepted a buffer, no reader can be made to panic by its contents: for
  every chunk index, every state of the processes and every outcome of the generation checks,
  \<open>try_rows\<close> answers, and an iterator it hands out walks to its end without indexing outside the
  buffer, however malformed the rows are.
\<close>

theorem accepted_buffer_is_readable:
  assumes "validate_buf os addr b = Some (Inr (), b')"
  shows "case try_rows os' b' i of (Inr it, b1) \<Rightarrow> \<exists>rows. row_iter_take n valid it = Some rows
    | (Inl e, b1) \<Rightarrow> e = InvalidBuffer ''chunk index out of range'' \<or> e = ReaderLeaseExhausted"
proof -
  have g: "table_geom b'" using validate_buf_total [of os addr b] assms by auto
  show ?thesis
  proof (cases "try_rows os' b' i")
    case (Pair res b1)
    show ?thesis
    proof (cases res)
      case (Inr it)
      then show ?thesis using row_iter_take_total [OF try_rows_in_buffer [OF g]] Pair by simp
    next
      case (Inl e)
      then show ?thesis using try_rows_error [OF g] Pair by simp
    qed
  qed
qed

theorem accepted_buffer_is_readable_witness:
  "\<exists>b'. validate_buf demo_os 0 demo_buf = Some (Inr (), b') \<and>
    (case try_rows demo_os b' 0 of (Inr it, b1) \<Rightarrow> \<exists>rows. row_iter_take 1 (\<lambda>_. (True, False)) it = Some rows
     | (Inl e, b1) \<Rightarrow> e = InvalidBuffer ''chunk index out of range'' \<or> e = ReaderLeaseExhausted)"
proof -
  from demo_validates obtain b' where v: "validate_buf demo_os 0 demo_buf = Some (Inr (), b')" by blast
  from accepted_buffer_is_readable [OF v, where os' = demo_os and i = 0 and n = 1 and valid = "\<lambda>_. (True, False)"] v
  show ?thesis by (intro exI [of _ b'] conjI)
qed

text \<open>
  C18. What \<open>init_buf\<close> builds can be opened and describes itself. Whatever the memory held before,
  \<open>validate_buf\<close> accepts the fresh table (in particular it never runs out of reader leases, since every
  lease slot starts free), leaving an empty ring with every lease slot of every chunk free again, and
  \<open>schema()\<close> returns the columns the table was created with (names, types and sizes; documentation
  strings are not stored). Names are UTF-8 of at most 54 bytes, and there are fewer than 65536
  columns, since the timestamp column is a 16-bit index.
\<close>

theorem init_then_open:
  assumes "init_buf os iid addr b s csz nch = Inr b'" "csz < 2 ^ 32" "nch < 2 ^ 32" "length b < 2 ^ 64"
    and "length (cols s) < 2 ^ 16"
    and "\<And>c. c \<in> set (cols s) \<Longrightarrow> length (col_name c) \<le> 54 \<and> utf8_ok (col_name c) \<and> col_elem_size c < 2 ^ 32"
  shows "(\<exists>b''. validate_buf os' addr b' = Some (Inr (), b'') \<and> represents b'' (ring_init nch) \<and>
      (\<forall>i<nch. \<forall>k<READER_LEASE_SLOTS. lease_state (reader_lease b'' i k) = 0)) \<and>
    table_schema b' = Some \<lparr>cols = map (\<lambda>c. c\<lparr>col_doc := None\<rparr>) (cols s), table_doc = None\<rparr>"
proof -
  note p = init_buf_props [OF assms(1-4)]
  have "table_schema b' = Some \<lparr>cols = map (\<lambda>c. c\<lparr>col_doc := None\<rparr>) (cols s), table_doc = None\<rparr>"
    by (rule table_schema_init [OF representsD(1) [OF p(2)] p(5)]) (use p(10) assms(6) in auto)
  with init_buf_opens [OF assms(1-5)] show ?thesis by blast
qed

theorem init_then_open_witness:
  "(\<exists>b''. validate_buf demo_os 0 demo_buf = Some (Inr (), b'') \<and> represents b'' (ring_init 1) \<and>
      (\<forall>i<1. \<forall>k<READER_LEASE_SLOTS. lease_state (reader_lease b'' i k) = 0)) \<and>
    table_schema demo_buf = Some \<lparr>cols = map (\<lambda>c. c\<lparr>col_doc := None\<rparr>) (cols demo_schema), table_doc = None\<rparr>"
  by (rule init_then_open [OF demo_init]) (auto simp: demo_schema_def schema_col_def schema_new_def push_col_def)


text \<open>
  C19. The room test of \<open>RowWriter\<close> is made only when a column is put. On a chunk without room for
  even an empty row, \<open>finish\<close> on a writer to which nothing was put does not report the overflow: if
  the four bytes of the row length run past the end of the buffer it panics, and otherwise it writes
  them past the end of the chunk and publishes a \<open>used\<close> beyond the chunk's capacity, after which
  \<open>validate_buf\<close> refuses the table.
\<close>

theorem empty_row_overflows:
  assumes "represents b s" "\<not> row_fits b 0"
  shows "if chunk_start_off b (write_chunk (header b)) + 40 + used (chunk_hdr b (write_chunk (header b))) + 4 \<le> length b
    then \<exists>w. finish (make_row_writer b None) = Some (True, w) \<and>
      chunk_size (header (rw_buf w)) - 40 < used (chunk_hdr (rw_buf w) (write_chunk (header b))) \<and>
      (\<forall>os addr b'. validate_buf os addr (rw_buf w) \<noteq> Some (Inr (), b'))
    else finish (make_row_writer b None) = None"
proof (cases "chunk_start_off b (write_chunk (header b)) + 40 + used (chunk_hdr b (write_chunk (header b))) + 4 \<le> length b")
  case True
  from finish_empty_row(1) [OF assms True] obtain w where
    w: "finish (make_row_writer b None) = Some (True, w)" "header (rw_buf w) = header b"
    "used (chunk_header (rw_buf w) (chunk_start_off b (write_chunk (header b)))) = used (chunk_hdr b (write_chunk (header b))) + 4"
    "\<not> chunks_fit (rw_buf w)" by blast
  have "validate_buf os addr (rw_buf w) \<noteq> Some (Inr (), b')" for os addr b'
    using validate_buf_total [of os addr "rw_buf w"] w(4) by auto
  moreover have "chunk_start_off (rw_buf w) = chunk_start_off b" by (rule ext) (simp add: chunk_start_off_def w(2))
  moreover have "chunk_size (header b) - 40 < used (chunk_hdr b (write_chunk (header b))) + 4"
    using assms(2) by (simp add: row_fits_def layout_consts)
  ultimately show ?thesis using True w by auto
qed (use finish_empty_row(2) [OF assms] in simp)

theorem empty_row_overflows_witness:
  "if chunk_start_off demo_full_buf (write_chunk (header demo_full_buf)) + 40 +
      used (chunk_hdr demo_full_buf (write_chunk (header demo_full_buf))) + 4 \<le> length demo_full_buf
    then \<exists>w. finish (make_row_writer demo_full_buf None) = Some (True, w) \<and>
      chunk_size (header (rw_buf w)) - 40 < used (chunk_hdr (rw_buf w) (write_chunk (header demo_full_buf))) \<and>
      (\<forall>os addr b'. validate_buf os addr (rw_buf w) \<noteq> Some (Inr (), b'))
    else finish (make_row_writer demo_full_buf None) = None"
  by (rule empty_row_overflows [OF demo_full])

section \<open>Cold segments\<close>

text \<open>
  C20. Cold storage round trip. A MEMC segment is created, tables are registered and pages appended
  in any order and number, any of these calls being refused for its arguments (unknown table, wrong
  columns, an unencodable column), and the segment is sealed. Opening the file then succeeds, and the
  reader has exactly the registered tables and exactly the accepted pages, in order, each decoding to
  the columns that were appended. The compressor is only assumed to be lossless; the hash is arbitrary.
\<close>

theorem segment_round_trip:
  assumes "pco_lossless p" "segment_create xxh os now opened io path = Inr w0" "seg_run xxh p w0 ops = (rs, w)"
    and "Inl OsError \<notin> set rs" "\<forall>(io, op)\<in>set ops. seg_op_ok p op" "length ops < 2 ^ 26"
    and "seal xxh os' now' io' hdr_io synced w = (Inr path', f)" "length f < 2 ^ 64"
  shows "\<exists>r. from_mmap xxh f path' = Inr r \<and> sr_is_sealed r \<and> sr_tables r = log_tables (seg_log ops rs) \<and>
    map (read_page xxh p r) [0..<length (sr_pages r)] = map Inr (log_columns (seg_log ops rs))"
proof -
  have "length ops + 1 < 2 ^ 32" using assms(6) by simp
  note h = seg_history_rep [OF assms(2-5) this]
  have "length (sw_pages w) * 64 < 2 ^ 32" using segment_pages_length [OF h(1)] assms(6) by simp
  from sealed_segment [OF h(1) assms(1) this assms(7,8)] show ?thesis unfolding reads_log_def by blast
qed

theorem segment_round_trip_witness:
  "\<exists>w f r. seg_run demo_xxh demo_pco demo_segment demo_ops = ([Inr (Some 1), Inr None], w) \<and>
    seal demo_xxh seg_os 0 ok_io None True w = (Inr ''x'', f) \<and> from_mmap demo_xxh f ''x'' = Inr r \<and>
    sr_is_sealed r \<and> sr_tables r = log_tables (seg_log demo_ops [Inr (Some 1), Inr None]) \<and>
    map (read_page demo_xxh demo_pco r) [0..<length (sr_pages r)] =
      map Inr (log_columns (seg_log demo_ops [Inr (Some 1), Inr None]))"
proof -
  from demo_run obtain w where w: "seg_run demo_xxh demo_pco demo_segment demo_ops = ([Inr (Some 1), Inr None], w)"
    "length (sw_file w) = 320" "length (sw_pages w) = 1" "sw_path w = ''x''" by blast
  from demo_seal [OF w(2-4)] obtain f where f: "seal demo_xxh seg_os 0 ok_io None True w = (Inr ''x'', f)" "length f < 2 ^ 64"
    by blast
  have n: "length demo_ops < 2 ^ 26" by (simp add: demo_ops_def)
  from segment_round_trip [OF demo_pco_lossless demo_create w(1) _ demo_ops_ok n f] w(1) f(1) show ?thesis by auto
qed

text \<open>
  C21. Crash recovery. At every moment of such a run the file may be cut to any length (the writer
  process died, or the machine lost what was not yet written): a prefix shorter than the header is
  refused, and every other prefix opens without an error and gives exactly the tables and pages whose
  blocks lie wholly within it, each page decoding to the appended columns.
\<close>

theorem segment_crash_recovery:
  assumes "pco_lossless p" "segment_create xxh os now opened io path = Inr w0" "seg_run xxh p w0 ops = (rs, w)"
    and "Inl OsError \<notin> set rs" "\<forall>(io, op)\<in>set ops. seg_op_ok p op" "length ops + 1 < 2 ^ 32" "length (sw_file w) < 2 ^ 64"
  shows "if n < 64 then from_mmap xxh (take n (sw_file w)) path' = Inl ''buffer too small for MEMC header''
    else \<exists>r. from_mmap xxh (take n (sw_file w)) path' = Inr r \<and>
      (let es = complete p (n - 64) (seg_log ops rs) in
       sr_tables r = log_tables es \<and> sr_pages r = log_pages p 64 es \<and>
       map (read_page xxh p r) [0..<length (sr_pages r)] = map Inr (log_columns es))"
  using recovered_prefix [OF seg_history_rep(1) [OF assms(2-6)] assms(1,7), of n path']
    open_short [of "take n (sw_file w)" xxh path']
  by (auto simp: reads_log_def Let_def)

theorem segment_crash_recovery_witness:
  "\<exists>w r. seg_run demo_xxh demo_pco demo_segment demo_ops = ([Inr (Some 1), Inr None], w) \<and>
    from_mmap demo_xxh (take 300 (sw_file w)) ''x'' = Inr r \<and>
    sr_tables r = log_tables (complete demo_pco 236 (seg_log demo_ops [Inr (Some 1), Inr None]))"
proof -
  from demo_run obtain w where w: "seg_run demo_xxh demo_pco demo_segment demo_ops = ([Inr (Some 1), Inr None], w)"
    "length (sw_file w) = 320" by blast
  have n: "length demo_ops + 1 < 2 ^ 32" by (simp add: demo_ops_def)
  have "length (sw_file w) < 2 ^ 64" by (simp add: w(2))
  from segment_crash_recovery [OF demo_pco_lossless demo_create w(1) _ demo_ops_ok n this, of 300 "''x''"] w(1)
  show ?thesis by (auto simp: Let_def)
qed

text \<open>
  C22. A crash while sealing. \<open>seal\<close> writes the footer before it rewrites the header. If the process
  dies after \<open>k\<close> bytes of the footer (or the header rewrite fails), the file opens with all its tables
  and pages while \<open>k < 64\<close>, but from 64 bytes on, the footer of any segment with a page included, the
  reader takes the footer for a block and refuses the whole file: every page in it is lost although
  all blocks are complete and checksummed.
\<close>

theorem crash_during_seal:
  assumes "pco_lossless p" "segment_create xxh os now opened io path = Inr w0" "seg_run xxh p w0 ops = (rs, w)"
    and "Inl OsError \<notin> set rs" "\<forall>(io, op)\<in>set ops. seg_op_ok p op" "length ops + 1 < 2 ^ 32"
    and "k \<le> length (footer_bytes xxh (sw_pages w))" "length (sw_file w) + k < 2 ^ 64"
  shows "if k < 64
    then \<exists>r. from_mmap xxh (sw_file w @ take k (footer_bytes xxh (sw_pages w))) path' = Inr r \<and>
      sr_tables r = log_tables (seg_log ops rs) \<and>
      map (read_page xxh p r) [0..<length (sr_pages r)] = map Inr (log_columns (seg_log ops rs))
    else from_mmap xxh (sw_file w @ take k (footer_bytes xxh (sw_pages w))) path' = Inl ''MEMC block header invalid''"
  using crash_in_footer [OF seg_history_rep(1) [OF assms(2-6)] assms(1,7,8), of path']
  unfolding reads_log_def by (auto split: if_splits)

theorem crash_during_seal_witness:
  "\<exists>w. seg_run demo_xxh demo_pco demo_segment demo_ops = ([Inr (Some 1), Inr None], w) \<and>
    from_mmap demo_xxh (sw_file w @ take 80 (footer_bytes demo_xxh (sw_pages w))) ''x'' = Inl ''MEMC block header invalid''"
proof -
  from demo_run obtain w where w: "seg_run demo_xxh demo_pco demo_segment demo_ops = ([Inr (Some 1), Inr None], w)"
    "length (sw_file w) = 320" "length (sw_pages w) = 1" by blast
  have n: "length demo_ops + 1 < 2 ^ 32" by (simp add: demo_ops_def)
  have k: "80 \<le> length (footer_bytes demo_xxh (sw_pages w))" "length (sw_file w) + 80 < 2 ^ 64"
    by (simp_all add: footer_length w)
  from crash_during_seal [OF demo_pco_lossless demo_create w(1) _ demo_ops_ok n k, of "''x''"] w(1) show ?thesis by auto
qed

text \<open>
  C23. A torn block. When writing a block fails after at least one byte, the writer keeps its offset
  but the bytes stay in the file. Sealing it afterwards succeeds, and the sealed file cannot be
  opened: the footer is not at the offset the header records, so the pages written before the failure
  are lost too.
\<close>

theorem torn_block_loses_segment:
  assumes "segment_create xxh os now opened io path = Inr w0" "seg_run xxh p w0 ops = (rs, w)"
    and "Inl OsError \<notin> set rs" "\<forall>(io, op)\<in>set ops. seg_op_ok p op" "length ops + 1 < 2 ^ 32"
    and "seg_step xxh p io' w op = (Inl OsError, w')" "sw_file w' \<noteq> sw_file w"
    and "seal xxh os' now' io'' hdr_io synced w' = (Inr path', f)" "length f < 2 ^ 64"
  shows "from_mmap xxh f path' = Inl ''MEMC footer missing or invalid''"
proof -
  from seg_step_torn [OF assms(6)] obtain n e where
    t: "sw_file w' = sw_file w @ take n (entry_block xxh p e)" "sw_offset w' = sw_offset w" by blast
  show ?thesis by (rule sealed_after_torn [OF seg_history_rep(1) [OF assms(1-5)] t assms(7-9)])
qed

theorem torn_block_loses_segment_witness:
  "\<exists>w w' f. seg_run demo_xxh demo_pco demo_segment demo_ops = ([Inr (Some 1), Inr None], w) \<and>
    seg_step demo_xxh demo_pco (\<lambda>f bytes. Some 10) w (Register [0x75] demo_cols) = (Inl OsError, w') \<and>
    seal demo_xxh seg_os 0 ok_io None True w' = (Inr ''x'', f) \<and>
    from_mmap demo_xxh f ''x'' = Inl ''MEMC footer missing or invalid''"
proof -
  from demo_run obtain w where w: "seg_run demo_xxh demo_pco demo_segment demo_ops = ([Inr (Some 1), Inr None], w)"
    "length (sw_file w) = 320" "length (sw_pages w) = 1" "sw_path w = ''x''" by blast
  from demo_torn [OF w(2-4)] obtain w' f where t:
    "seg_step demo_xxh demo_pco (\<lambda>f bytes. Some 10) w (Register [0x75] demo_cols) = (Inl OsError, w')"
    "sw_file w' \<noteq> sw_file w" "seal demo_xxh seg_os 0 ok_io None True w' = (Inr ''x'', f)" "length f < 2 ^ 64" by blast
  have n: "length demo_ops + 1 < 2 ^ 32" by (simp add: demo_ops_def)
  from torn_block_loses_segment [OF demo_create w(1) _ demo_ops_ok n t] w(1) t(1,3) show ?thesis by auto
qed

text \<open>
  C24. Typing of cold pages. Every page that \<open>read_page\<close> returns from a sealed segment has a table
  definition in the segment, one column of the declared data type per column of that table, and
  columns of equal length, the row count of its directory entry.
\<close>

theorem page_columns_typed:
  assumes "pco_lossless p" "segment_create xxh os now opened io path = Inr w0" "seg_run xxh p w0 ops = (rs, w)"
    and "Inl OsError \<notin> set rs" "\<forall>(io, op)\<in>set ops. seg_op_ok p op" "length ops < 2 ^ 26"
    and "seal xxh os' now' io' hdr_io synced w = (Inr path', f)" "length f < 2 ^ 64"
    and "from_mmap xxh f path' = Inr r" "i < length (sr_pages r)" "read_page xxh p r i = Inr columns"
  shows "\<exists>d. table_def r (pm_table_id (sr_pages r ! i)) = Some d \<and> map column_dtype columns = map snd (td_cols d) \<and>
    (\<forall>c\<in>set columns. column_len c = unat (pm_row_count (sr_pages r ! i)))"
proof -
  have "length ops + 1 < 2 ^ 32" using assms(6) by simp
  note h = seg_history_rep [OF assms(2-5) this]
  have "length (sw_pages w) * 64 < 2 ^ 32" using segment_pages_length [OF h(1)] assms(6) by simp
  from sealed_segment [OF h(1) assms(1) this assms(7,8)] assms(9) have rd: "reads_log xxh p r (seg_log ops rs)" by auto
  from page_of_log [OF rd assms(10,11) segment_repD(6,7) [OF h(1)]] show ?thesis by blast
qed

theorem page_columns_typed_witness:
  "\<exists>r d. table_def r (pm_table_id (sr_pages r ! 0)) = Some d \<and> read_page demo_xxh demo_pco r 0 = Inr [CI64 [5]] \<and>
    map column_dtype [CI64 [5]] = map snd (td_cols d)"
proof -
  from demo_read obtain w f r where t: "seg_run demo_xxh demo_pco demo_segment demo_ops = ([Inr (Some 1), Inr None], w)"
    "seal demo_xxh seg_os 0 ok_io None True w = (Inr ''x'', f)" "length f < 2 ^ 64" "from_mmap demo_xxh f ''x'' = Inr r"
    "0 < length (sr_pages r)" "read_page demo_xxh demo_pco r 0 = Inr [CI64 [5]]" by blast
  have n: "length demo_ops < 2 ^ 26" by (simp add: demo_ops_def)
  have "Inl OsError \<notin> set [Inr (Some 1), Inr None :: seg_result]" by simp
  from page_columns_typed [OF demo_pco_lossless demo_create t(1) this demo_ops_ok n t(2-6)] t(6) show ?thesis by blast
qed

text \<open>
  C25. Pruning by time loses nothing. If a page of a sealed segment holds a row whose timestamp lies
  within the bounds given to \<open>pages_in_range\<close> (either may be absent), the page is among the results
  for its table, and the segment-wide range of the header covers the timestamp.
\<close>

theorem pruning_sound:
  assumes "pco_lossless p" "segment_create xxh os now opened io path = Inr w0" "seg_run xxh p w0 ops = (rs, w)"
    and "Inl OsError \<notin> set rs" "\<forall>(io, op)\<in>set ops. seg_op_ok p op" "length ops < 2 ^ 26"
    and "seal xxh os' now' io' hdr_io synced w = (Inr path', f)" "length f < 2 ^ 64"
    and "from_mmap xxh f path' = Inr r" "i < length (sr_pages r)" "read_page xxh p r i = Inr columns"
    and "table_def r (pm_table_id (sr_pages r ! i)) = Some d" "td_ts_col d = Some ci" "columns ! ci = CI64 v" "t \<in> set v"
    and "case lo of None \<Rightarrow> True | Some l \<Rightarrow> sint l \<le> sint t" "case hi of None \<Rightarrow> True | Some h \<Rightarrow> sint t \<le> sint h"
  shows "i \<in> set (pages_in_range r (pm_table_id (sr_pages r ! i)) lo hi) \<and>
    (\<exists>a b. sr_ts_range r = Some (a, b) \<and> sint a \<le> sint t \<and> sint t \<le> sint b)"
proof -
  have "length ops + 1 < 2 ^ 32" using assms(6) by simp
  note h = seg_history_rep [OF assms(2-5) this]
  have "length (sw_pages w) * 64 < 2 ^ 32" using segment_pages_length [OF h(1)] assms(6) by simp
  from sealed_segment [OF h(1) assms(1) this assms(7,8)] assms(9)
  have rd: "reads_log xxh p r (seg_log ops rs)" "sr_is_sealed r"
    "(sh_ts_min (sr_header r), sh_ts_max (sr_header r)) = log_span (seg_log ops rs)" by auto
  from page_of_log [OF rd(1) assms(10,11) segment_repD(6,7) [OF h(1)]] assms(12,13)
  have rg: "(pm_ts_min (sr_pages r ! i), pm_ts_max (sr_pages r ! i)) = page_ts_range (Some ci) columns" by auto
  have "sint (pm_ts_min (sr_pages r ! i)) \<le> sint t" "sint t \<le> sint (pm_ts_max (sr_pages r ! i))"
    using page_ts_range_bounds [OF assms(14,15)] rg by (metis fst_conv snd_conv)+
  note b = this
  have "i \<in> set (pages_in_range r (pm_table_id (sr_pages r ! i)) lo hi)"
    by (rule overlap_in_range [OF assms(10) ts_overlap [OF b assms(16,17)]])
  moreover have "sint (sh_ts_min (sr_header r)) \<le> sint t" "sint t \<le> sint (sh_ts_max (sr_header r))"
    using page_span [OF rd(1) assms(10)] b unfolding rd(3) [symmetric] fst_conv snd_conv by linarith+
  ultimately show ?thesis using rd(2) by (auto simp: sr_ts_range_def sr_is_sealed_def)
qed

theorem pruning_sound_witness:
  "\<exists>r. read_page demo_xxh demo_pco r 0 = Inr [CI64 [5]] \<and>
    0 \<in> set (pages_in_range r (pm_table_id (sr_pages r ! 0)) (Some 3) None)"
proof -
  from demo_read obtain w f r d where t: "seg_run demo_xxh demo_pco demo_segment demo_ops = ([Inr (Some 1), Inr None], w)"
    "seal demo_xxh seg_os 0 ok_io None True w = (Inr ''x'', f)" "length f < 2 ^ 64" "from_mmap demo_xxh f ''x'' = Inr r"
    "0 < length (sr_pages r)" "read_page demo_xxh demo_pco r 0 = Inr [CI64 [5]]"
    "table_def r (pm_table_id (sr_pages r ! 0)) = Some d" "td_ts_col d = Some 0" by blast
  have n: "length demo_ops < 2 ^ 26" by (simp add: demo_ops_def)
  have c: "[CI64 [5]] ! 0 = CI64 [5]" "(5::i64) \<in> set [5]" "case Some (3::i64) of None \<Rightarrow> True | Some l \<Rightarrow> sint l \<le> sint (5::i64)"
    "case (None :: i64 option) of None \<Rightarrow> True | Some h \<Rightarrow> sint (5::i64) \<le> sint h" by simp_all
  from pruning_sound [OF demo_pco_lossless demo_create t(1) _ demo_ops_ok n t(2-8) c] t(6) show ?thesis by auto
qed

section \<open>The compactor\<close>

text \<open>
  C26. Rows drained are rows kept. When \<open>drain_view\<close> takes a sealed chunk of a table that it can pin
  and the following \<open>flush\<close> succeeds, the last segment file opens as a sealed segment with a page
  that holds exactly the rows of the chunk, column by column, under the name and the columns of the
  table; the number of rows is reported, the watermark of the chunk is its generation and the shared
  table still holds its rows. The segment open before the call may hold any log.
\<close>

theorem drained_rows_readable:
  assumes "represents b s" "i < num_chunks (header b)" "ring_chunks s ! i \<noteq> []"
    and "chunk_state b i = chunk_state_code Sealed" "try_rows os b i = (Inr it, b1)" "it_pin it = Some pin" "quiet env"
    and "map snd cs = table_dtypes b" "cs \<noteq> []"
    and "cp_tables cp name = Some tp" "i < length (tp_drained_gen tp)" "tp_drained_gen tp ! i < chunk_generation b i"
    and "cold_ok xxh p cp name cs" "seg_entry_ok p (TableEntry 0 name cs)"
    and "page_ok p (transposed (table_dtypes b) (ring_chunks s ! i))" "pco_lossless p"
    and "drain_chunk xxh p os env name cs inst i (cp, dir, b) = Some (Inr n, cp', dir', b')"
    and "flush xxh os env' cp' dir' = (Inr res, cp'', dir'')" "length (sf_bytes (last dir'')) < 2 ^ 32"
  shows "n = length (ring_chunks s ! i) \<and> represents b' s \<and>
    (\<exists>t. cp_tables cp' name = Some t \<and> tp_drained_gen t ! i = chunk_generation b i) \<and>
    (\<exists>r k d columns. from_mmap xxh (sf_bytes (last dir'')) (sf_name (last dir'')) = Inr r \<and> sr_is_sealed r \<and>
       k < length (sr_pages r) \<and> read_page xxh p r k = Inr columns \<and>
       table_def r (pm_table_id (sr_pages r ! k)) = Some d \<and> td_name d = name \<and> td_cols d = cs \<and>
       length columns = length cs \<and>
       (\<forall>j<length cs. column_values (columns ! j) = map (\<lambda>row. row ! j) (ring_chunks s ! i)))"
proof -
  note dr = drain_chunk_page [OF assms(1,2,7,5,6,4,8,9,10,11,12,13,14,15,3,17)]
  let ?cols = "transposed (table_dtypes b) (ring_chunks s ! i)"
  from dr(3) obtain es tid d where es: "log_tables es tid = Some d" "td_name d = name" "td_cols d = cs"
    "stored_log xxh p os env cp' dir dir' (es @ [PageEntry tid ?cols (page_ts_range (td_ts_col d) ?cols)
        (word_of_nat (chunk_generation b i)) (word_of_nat i) (word_of_nat inst)])" by blast
  from stored_log_open [OF es(4) refl assms(18,16,19)] obtain r where
    r: "from_mmap xxh (sf_bytes (last dir'')) (sf_name (last dir'')) = Inr r" "sr_is_sealed r"
    "length (sr_pages r) = length (log_columns es) + 1" "pm_table_id (last (sr_pages r)) = tid"
    "read_page xxh p r (length (log_columns es)) = Inr ?cols"
    and tb: "sr_tables r tid = Some d"
    using es(1) by (auto simp: log_tables_def)
  have last: "sr_pages r ! length (log_columns es) = last (sr_pages r)"
    using r(3) by (metis add_diff_cancel_right' last_conv_nth length_0_conv Suc_eq_plus1 nat.distinct(1))
  have len: "length cs = length (table_dtypes b)" using assms(8) by (metis length_map)
  have typed: "\<forall>row\<in>set (ring_chunks s ! i). map value_dtype row = table_dtypes b"
    using rows_typed [OF assms(1,2)] by blast
  have vals: "\<forall>j<length cs. column_values (?cols ! j) = map (\<lambda>row. row ! j) (ring_chunks s ! i)"
    using transposed_columns(1) [OF typed] len by simp
  obtain t where t: "cp_tables cp' name = Some t" "tp_drained_gen t ! i = chunk_generation b i"
    using dr(4) assms(11) by auto
  have "table_def r (pm_table_id (sr_pages r ! length (log_columns es))) = Some d"
    unfolding last r(4) using tb by (simp add: table_def_def)
  then show ?thesis
    using dr(1,2) t r(1,2,5) es(2,3) vals len r(3)
    by (intro conjI exI [of _ t] exI [of _ r] exI [of _ "length (log_columns es)"] exI [of _ d] exI [of _ ?cols])
      (simp_all add: transposed_def)
qed


theorem drained_rows_readable_witness:
  "\<exists>b it b1 pin cp' b' res cp'' dir''. try_rows demo_os b 0 = (Inr it, b1) \<and> it_pin it = Some pin \<and>
    drain_chunk demo_xxh demo_pco demo_os demo_env [0x74] demo_cols 9 0 (demo_compactor 9, [], b) = Some (Inr 1, cp', [], b') \<and>
    flush demo_xxh demo_os demo_env cp' [] = (Inr res, cp'', dir'') \<and> represents b' demo_ring \<and>
    (\<exists>r k columns. from_mmap demo_xxh (sf_bytes (last dir'')) (sf_name (last dir'')) = Inr r \<and> sr_is_sealed r \<and>
       read_page demo_xxh demo_pco r k = Inr columns \<and> column_values (columns ! 0) = [VI64 5])"
proof -
  from demo_sealed obtain b where b: "represents b demo_ring" "num_chunks (header b) = 2" "lease_slots (header b) = 16"
    "chunk_state b 0 = chunk_state_code Sealed" "chunk_generation b 0 = 1" "table_dtypes b = [DI64]"
    "\<forall>k<16. lease_state (reader_lease b 0 k) = 0" by blast
  from demo_sealed_pin [OF b(1-3,7)] obtain it b1 pin where t: "try_rows demo_os b 0 = (Inr it, b1)" "it_pin it = Some pin" by blast
  from demo_drain [OF b(1,2,4-6) t] obtain cp' b' res cp'' dir'' where d:
    "drain_chunk demo_xxh demo_pco demo_os demo_env [0x74] demo_cols 9 0 (demo_compactor 9, [], b) = Some (Inr 1, cp', [], b')"
    "flush demo_xxh demo_os demo_env cp' [] = (Inr res, cp'', dir'')" "length (sf_bytes (last dir'')) < 2 ^ 32" by blast
  have i: "0 < num_chunks (header b)" "ring_chunks demo_ring ! 0 \<noteq> []" using b(2) by (simp_all add: demo_ring)
  have cs: "map snd demo_cols = table_dtypes b" "demo_cols \<noteq> []" by (simp_all add: demo_cols_def b(6))
  have pk: "page_ok demo_pco (transposed (table_dtypes b) (ring_chunks demo_ring ! 0))"
    using demo_page_ok demo_columns by (simp add: b(6) demo_ring)
  note p = drained_rows_readable [OF b(1) i b(4) t demo_quiet cs demo_compactor(1) _ _ demo_cold_ok demo_table_ok pk
      demo_pco_lossless d]
  show ?thesis
    using p t d b(5) by (simp add: demo_ring demo_cols_def) blast
qed



text \<open>
  C28. A chunk whose lease slots are all taken is lost. \<open>transpose_chunk\<close> reads the rows with
  \<open>rows()\<close>, which answers an exhausted lease table with an empty iterator. If every slot of a sealed
  chunk is held by other live processes, \<open>drain_view\<close> writes no page, reports no row, and yet raises
  the watermark of the chunk to its generation; every later call finds that generation drained and
  does nothing, also when the readers are gone.
\<close>

theorem full_lease_table_loses_chunk:
  assumes "table_geom b" "i < num_chunks (header b)" "chunk_state b i = chunk_state_code Sealed"
    and "\<forall>k<lease_slots (header b). held_elsewhere os (reader_lease b i k)" "de_world env = id"
    and "cp_tables cp name = Some tp" "i < length (tp_drained_gen tp)" "tp_drained_gen tp ! i < chunk_generation b i"
  shows "\<exists>cp' b'. drain_chunk xxh p os env name cs inst i (cp, dir, b) = Some (Inr 0, cp', dir, b') \<and>
    cp_current cp' = cp_current cp \<and>
    (\<forall>os' env' dir' b2. chunk_generation b2 i \<le> chunk_generation b i \<longrightarrow>
      drain_chunk xxh p os' env' name cs inst i (cp', dir', b2) = Some (Inr 0, cp', dir', b2))"
proof -
  from held_try_rows [OF assms(1-4)] obtain b1 where
    t: "try_rows os b i = (Inl ReaderLeaseExhausted, b1)" "chunk_generation b1 i = chunk_generation b i" by blast
  note d = drain_unpinned_chunk [OF t(1) assms(5) t(2) assms(3,6-8), of xxh p cs inst dir]
  show ?thesis
    by (intro exI conjI allI impI, rule d) (use assms(7) in \<open>simp_all add: drain_drained_chunk\<close>)
qed

theorem full_lease_table_loses_chunk_witness:
  "\<exists>b cp' b'. represents b demo_ring \<and> ring_chunks demo_ring ! 0 = [[VI64 5]] \<and>
    drain_chunk demo_xxh demo_pco busy_os demo_env [0x74] demo_cols 9 0 (demo_compactor 9, [], b) = Some (Inr 0, cp', [], b') \<and>
    cp_current cp' = None \<and>
    drain_chunk demo_xxh demo_pco demo_os demo_env [0x74] demo_cols 9 0 (cp', [], b) = Some (Inr 0, cp', [], b)"
proof -
  from demo_busy obtain b where b: "table_geom b" "num_chunks (header b) = 2" "chunk_state b 0 = chunk_state_code Sealed"
    "chunk_generation b 0 = 1" "represents b demo_ring"
    "\<forall>k<lease_slots (header b). held_elsewhere busy_os (reader_lease b 0 k)" by blast
  have i: "0 < num_chunks (header b)" using b(2) by simp
  have q: "de_world demo_env = id" by (simp add: demo_env_def)
  have "\<exists>cp' b'. drain_chunk demo_xxh demo_pco busy_os demo_env [0x74] demo_cols 9 0 (demo_compactor 9, [], b) = Some (Inr 0, cp', [], b') \<and>
    cp_current cp' = cp_current (demo_compactor 9) \<and>
    (\<forall>os' env' dir' b2. chunk_generation b2 0 \<le> chunk_generation b 0 \<longrightarrow>
      drain_chunk demo_xxh demo_pco os' env' [0x74] demo_cols 9 0 (cp', dir', b2) = Some (Inr 0, cp', dir', b2))"
    by (rule full_lease_table_loses_chunk [OF b(1) i b(3,6) q demo_compactor(1)]) (simp_all add: b(4))
  then show ?thesis using b(5) demo_compactor(2) demo_ring(1) by (metis nth_Cons_0 order_refl)
qed


section \<open>The cold store\<close>

text \<open>
  C29. What a retention pass removes. When every call succeeds, \<open>enforce_limits_checked\<close> removes the
  oldest \<open>k\<close> files among those that are neither the newest nor unsealed: each was, when its turn
  came, older than the TTL or in a directory over its budget, and the next one, if there is one, is
  neither. The newest file and every unsealed one stay.
\<close>

theorem retention_exact:
  assumes "segment_paths_checked calls dir = Inr paths" "2 \<le> length paths" "protected_segments xxh calls paths = Inr ps"
    and "\<forall>f\<in>set paths. fc_size calls (sf_name f) \<and> fc_stat calls (sf_name f) = Done \<and> fc_remove calls (sf_name f) = Done"
    and "sizes paths < 2 ^ 64"
  shows "\<exists>k ev removed. ev = evictable (insert (sf_name (last paths)) ps) paths \<and> removed = map sf_name (take k ev) \<and>
    k \<le> length ev \<and>
    enforce_limits_checked xxh calls now mx ttl dir = (Inr removed, filter (\<lambda>f. sf_name f \<notin> set removed) dir) \<and>
    sf_name (last paths) \<notin> set removed \<and>
    (\<forall>f\<in>set paths. segment_protected xxh calls f = Inr True \<longrightarrow> sf_name f \<notin> set removed) \<and>
    (\<forall>j<k. must_go now mx ttl (sizes paths - sizes (take j ev)) (ev ! j)) \<and>
    (k < length ev \<longrightarrow> \<not> must_go now mx ttl (sizes paths - sizes (take k ev)) (ev ! k))"
proof -
  let ?ps = "insert (sf_name (last paths)) ps"
  let ?ev = "evictable ?ps paths"
  have ok: "\<forall>f\<in>set paths. fc_stat calls (sf_name f) = Done \<and> fc_remove calls (sf_name f) = Done" using assms(4) by blast
  from evict_exact [OF ok, of ?ps now mx ttl "sizes paths"] obtain k where
    k: "k \<le> length ?ev" "evict calls now mx ttl ?ps (sizes paths) paths = (Inr (), map sf_name (take k ?ev))"
    "\<forall>j<k. must_go now mx ttl (sizes paths - sizes (take j ?ev)) (?ev ! j)"
    "k < length ?ev \<longrightarrow> \<not> must_go now mx ttl (sizes paths - sizes (take k ?ev)) (?ev ! k)" by blast
  have sz: "list_all (\<lambda>f. fc_size calls (sf_name f)) paths" using assms(4) by (simp add: list_all_iff)
  have run: "enforce_limits_checked xxh calls now mx ttl dir =
      (Inr (map sf_name (take k ?ev)), filter (\<lambda>f. sf_name f \<notin> set (map sf_name (take k ?ev))) dir)"
    using assms(1-3) sz k(2) by (simp add: enforce_limits_checked_def total_size_sum [OF assms(5)])
  have pr: "set (map sf_name (take k ?ev)) \<inter> ?ps = {}" using evict_removed [OF k(2)] by blast
  have keep: "\<forall>f\<in>set paths. segment_protected xxh calls f = Inr True \<longrightarrow> sf_name f \<in> ?ps"
    using protected_segments_ok [OF assms(3)] by force
  define removed where "removed = map sf_name (take k ?ev)"
  have "sf_name (last paths) \<notin> set removed" using pr unfolding removed_def by blast
  moreover have "\<forall>f\<in>set paths. segment_protected xxh calls f = Inr True \<longrightarrow> sf_name f \<notin> set removed"
    using pr keep unfolding removed_def by blast
  moreover note run [folded removed_def] k(1,3,4)
  ultimately show ?thesis
    by (intro exI [of _ k] exI [of _ ?ev] exI [of _ removed] conjI) (assumption | rule refl removed_def)+
qed

theorem retention_exact_witness:
  "\<exists>f. f \<noteq> [] \<and> enforce_limits_checked demo_xxh good_calls 0 (Some 0) None (two_files f f) =
    (Inr [''a.memc''], [\<lparr>sf_name = ''b.memc'', sf_bytes = f, sf_mtime = 1\<rparr>])"
proof -
  from demo_cold_file obtain f where f: "length f < 2 ^ 32" "f \<noteq> []"
    "\<forall>path. \<exists>r. from_mmap demo_xxh f path = Inr r \<and> sr_is_sealed r \<and>
       List.map_filter (page_source r) (sr_pages r) = [(([0x74], 9), 0, 3)]" by blast
  let ?d = "two_files f f"
  have sp: "segment_protected demo_xxh good_calls x = Inr False" if "x \<in> set ?d" for x
  proof -
    obtain r where "from_mmap demo_xxh f (sf_name x) = Inr r" "sr_is_sealed r" using f(3) by blast
    then show ?thesis using that by (auto simp: segment_protected_def good_calls_def two_files_def)
  qed
  have ps: "protected_segments demo_xxh good_calls ?d = Inr {}" using sp by (simp add: two_files_def)
  have ok: "\<forall>x\<in>set ?d. fc_size good_calls (sf_name x) \<and> fc_stat good_calls (sf_name x) = Done \<and> fc_remove good_calls (sf_name x) = Done"
    by (simp add: good_calls_def)
  have ev: "evictable (insert (sf_name (last ?d)) {}) ?d = [\<lparr>sf_name = ''a.memc'', sf_bytes = f, sf_mtime = 0\<rparr>]"
    by (simp add: evictable_def two_files_def)
  have sz: "sizes ?d < 2 ^ 64" "sizes ?d = 2 * length f" using f(1) by (simp_all add: two_files_def)
  have len: "2 \<le> length ?d" by (simp add: two_files_def)
  from retention_exact [OF two_files_paths len ps ok sz(1), of 0 "Some 0" None] obtain k removed where
    k: "removed = map sf_name (take k [\<lparr>sf_name = ''a.memc'', sf_bytes = f, sf_mtime = 0\<rparr>])" "k \<le> 1"
    "enforce_limits_checked demo_xxh good_calls 0 (Some 0) None ?d = (Inr removed, filter (\<lambda>x. sf_name x \<notin> set removed) ?d)"
    "k < 1 \<longrightarrow> \<not> must_go 0 (Some 0) None (sizes ?d - sizes (take k [\<lparr>sf_name = ''a.memc'', sf_bytes = f, sf_mtime = 0\<rparr>]))
      ([\<lparr>sf_name = ''a.memc'', sf_bytes = f, sf_mtime = 0\<rparr>] ! k)"
    unfolding ev by auto
  have "k \<noteq> 0"
  proof
    assume "k = 0"
    then have "\<not> must_go 0 (Some 0) None (sizes ?d) \<lparr>sf_name = ''a.memc'', sf_bytes = f, sf_mtime = 0\<rparr>" using k(4) by simp
    then show False using f(2) by (simp add: must_go_def sz(2))
  qed
  then have "removed = [''a.memc'']" using k(1,2) by (cases k) auto
  then show ?thesis using k(3) f(2) by (intro exI [of _ f]) (simp add: two_files_def)
qed

text \<open>
  One unreadable segment stops retention. As soon as a directory of two or more segments holds
  one that can be opened but is not a valid segment of this version nor a sealed one of the previous
  version, such as a file left by a crash inside \<open>seal\<close>, no segment is ever removed, whatever the budget and the TTL:
  \<open>enforce_limits_checked\<close> fails and \<open>enforce_limits\<close> answers with an empty list.
\<close>

theorem unreadable_segment_blocks_retention:
  assumes "segment_paths_checked calls dir = Inr paths" "2 \<le> length paths" "f \<in> set paths"
    and "from_mmap xxh (sf_bytes f) (sf_name f) = Inl e" "\<not> legacy_segment_is_sealed xxh (sf_bytes f)"
  shows "\<forall>now mx ttl. (\<exists>e. enforce_limits_checked xxh calls now mx ttl dir = (Inl e, dir)) \<and>
    enforce_limits xxh calls now mx ttl dir = ([], dir)"
  using retention_blocked [OF assms] by blast

theorem unreadable_segment_blocks_retention_witness:
  "\<exists>f e. from_mmap demo_xxh f ''a.memc'' = Inl e \<and>
    enforce_limits demo_xxh good_calls 0 (Some 0) None (two_files f f) = ([], two_files f f)"
proof -
  from demo_crashed_file obtain f e where f: "\<forall>path. from_mmap demo_xxh f path = Inl e" "\<not> legacy_segment_is_sealed demo_xxh f"
    by blast
  have m: "2 \<le> length (two_files f f)" "hd (two_files f f) \<in> set (two_files f f)" "sf_bytes (hd (two_files f f)) = f"
    by (simp_all add: two_files_def)
  have e: "from_mmap demo_xxh (sf_bytes (hd (two_files f f))) (sf_name (hd (two_files f f))) = Inl e"
    "\<not> legacy_segment_is_sealed demo_xxh (sf_bytes (hd (two_files f f)))" using f by (simp_all add: m(3))
  show ?thesis using unreadable_segment_blocks_retention [OF two_files_paths m(1,2) e] f(1) by blast
qed

text \<open>
  Names of segments. Creating a segment in a directory of less than \<open>2^32\<close> files comes to an end
  within one more attempt than there are files, at a name that no file has, with the extension that
  the store looks for, and from which the writer id and the sequence number are read back. A store
  just opened finds its first name free, unless the sequence numbers of its own files are used up.
\<close>

theorem segment_names_fresh:
  assumes "length dir < 2 ^ 32"
  shows "(\<exists>k\<le>length dir. nth_name s k \<notin> sf_name ` set dir \<and>
      create_segment (length dir + 1) create dir s =
        (Some (create (nth_name s k)), s\<lparr>st_next_seq := st_next_seq s + word_of_nat (Suc k)\<rparr>) \<and>
      file_extension (nth_name s k) = Some SEGMENT_EXT \<and>
      parse_segment_name (nth_name s k) = Some (st_writer_id s, unat (st_next_seq s + word_of_nat k))) \<and>
    (\<forall>xxh os created calls. store_open xxh os created calls dir = Inr s \<longrightarrow>
      max_seq_for dir (st_writer_id s) < 2 ^ 32 - 1 \<longrightarrow> nth_name s 0 \<notin> sf_name ` set dir)"
proof -
  have "file_extension (nth_name s k) = Some SEGMENT_EXT" for k
    by (simp add: nth_name_def name_extension SEGMENT_EXT_def)
  moreover have "parse_segment_name (nth_name s k) = Some (st_writer_id s, unat (st_next_seq s + word_of_nat k))" for k
    using unat_bound [of "st_next_seq s + word_of_nat k"] by (simp add: nth_name_def parse_name)
  ultimately show ?thesis using create_segment_fresh [OF assms, of s create] store_open_fresh by blast
qed

theorem segment_names_fresh_witness:
  "\<exists>k\<le>2. nth_name demo_store k \<notin> sf_name ` set (two_files [] []) \<and>
    parse_segment_name (nth_name demo_store k) = Some (''w'', unat (1 + word_of_nat k :: u32))"
proof -
  have l: "length (two_files [] []) < 2 ^ 32" by (simp add: two_files_def)
  have "st_writer_id demo_store = ''w''" "st_next_seq demo_store = 1" "length (two_files [] []) = 2"
    by (simp_all add: demo_store_def two_files_def)
  then show ?thesis
    using conjunct1 [OF segment_names_fresh [OF l, of demo_store "\<lambda>_. Inl OsError"]] by metis
qed

text \<open>
  C30. What a restarted compactor does with a chunk. After \<open>prime_from_cold\<close> succeeds on a new
  compactor, the watermark that \<open>drain_view\<close> starts with for a chunk of a table instance is the highest
  generation among the pages of that chunk in all segment files, zero when there is none. Hence both
  halves. Stored is not stored again: a chunk of which some file holds a page at its generation or a
  later one is skipped, with nothing changed. Not stored is drained: a sealed chunk with rows that is
  newer than every page the files hold of it, and that the compactor can pin and read (C28 is what
  happens when it cannot), is never skipped. A \<open>drain_chunk\<close> that succeeds reports all its rows and
  sets its watermark, and after a successful \<open>flush\<close> the last file is a sealed segment with a page of
  exactly this chunk and generation that decodes to its rows, which the next restart finds.
\<close>

theorem restart_watermarks:
  assumes "prime_from_cold xxh calls dir (compactor_new store config now) = (Inr (), cp)" "i < n"
  shows "\<exists>paths t. segment_paths_checked calls dir = Inr paths \<and>
    cp_tables (prepare_progress cp name inst n) name = Some t \<and> length (tp_drained_gen t) = n \<and>
    tp_drained_gen t ! i = foldl max 0 (cold_gens xxh paths (name, inst) i) \<and>
    (\<forall>f\<in>set paths. \<forall>r page g. from_mmap xxh (sf_bytes f) (sf_name f) = Inr r \<longrightarrow> page \<in> set (sr_pages r) \<longrightarrow>
      page_source r page = Some ((name, inst), i, g) \<longrightarrow>
      (\<forall>p os env cs dir' b. chunk_generation b i \<le> g \<longrightarrow>
        drain_chunk xxh p os env name cs inst i (prepare_progress cp name inst n, dir', b) =
          Some (Inr 0, prepare_progress cp name inst n, dir', b))) \<and>
    (\<forall>p os env cs dir' b s m cp' dir'' b'. drainable p os env name cs b s i \<longrightarrow>
      (\<forall>g\<in>set (cold_gens xxh paths (name, inst) i). g < chunk_generation b i) \<longrightarrow>
      drain_chunk xxh p os env name cs inst i (prepare_progress cp name inst n, dir', b) = Some (Inr m, cp', dir'', b') \<longrightarrow>
      m = length (ring_chunks s ! i) \<and> represents b' s \<and>
      (\<exists>t'. cp_tables cp' name = Some t' \<and> tp_drained_gen t' ! i = chunk_generation b i) \<and>
      (\<forall>env' res cp'' dir3. pco_lossless p \<longrightarrow> i + 1 < 2 ^ 32 \<longrightarrow> inst < 2 ^ 64 \<longrightarrow>
        flush xxh os env' cp' dir'' = (Inr res, cp'', dir3) \<longrightarrow> length (sf_bytes (last dir3)) < 2 ^ 32 \<longrightarrow>
        holds_page xxh p (last dir3) (name, inst) i (chunk_generation b i)
          (transposed (table_dtypes b) (ring_chunks s ! i))))"
proof -
  from assms(1) obtain paths where ps: "segment_paths_checked calls dir = Inr paths"
    and pr: "prime_segments xxh calls paths (compactor_new store config now) = (Inr (), cp)"
    by (auto simp: prime_from_cold_def split: sum.splits)
  note at = prime_segments_at [OF pr]
  have sd: "seed_at (cp_seed cp) (name, inst) i = foldl max 0 (cold_gens xxh paths (name, inst) i)"
    using at by (simp add: compactor_new_def seed_at_def)
  have new: "cp_tables cp name = None" "cp_current cp = None" using at by (simp_all add: compactor_new_def)
  from primed_progress [OF new(1) assms(2)] obtain t where t: "cp_tables (prepare_progress cp name inst n) name = Some t"
    "length (tp_drained_gen t) = n" "tp_drained_gen t ! i = foldl max 0 (cold_gens xxh paths (name, inst) i)"
    using sd by metis
  have "g \<le> tp_drained_gen t ! i"
    if f: "f \<in> set paths" "from_mmap xxh (sf_bytes f) (sf_name f) = Inr r" "page \<in> set (sr_pages r)"
      "page_source r page = Some ((name, inst), i, g)" for f r page g
    unfolding t(3) by (rule foldl_max_ge(1) [OF cold_gens_page [OF f]])
  then have skip: "drain_chunk xxh p os env name cs inst i (prepare_progress cp name inst n, dir', b) =
      Some (Inr 0, prepare_progress cp name inst n, dir', b)"
    if "f \<in> set paths" "from_mmap xxh (sf_bytes f) (sf_name f) = Inr r" "page \<in> set (sr_pages r)"
      "page_source r page = Some ((name, inst), i, g)" "chunk_generation b i \<le> g" for f r page g p os env cs dir' b
    using that assms(2) t(2) by (intro drain_drained_chunk [OF t(1)]) (simp, blast intro: order_trans)
  have take: "m = length (ring_chunks s ! i) \<and> represents b' s \<and>
      (\<exists>t'. cp_tables cp' name = Some t' \<and> tp_drained_gen t' ! i = chunk_generation b i) \<and>
      (\<forall>env' res cp'' dir3. pco_lossless p \<longrightarrow> i + 1 < 2 ^ 32 \<longrightarrow> inst < 2 ^ 64 \<longrightarrow>
        flush xxh os env' cp' dir'' = (Inr res, cp'', dir3) \<longrightarrow> length (sf_bytes (last dir3)) < 2 ^ 32 \<longrightarrow>
        holds_page xxh p (last dir3) (name, inst) i (chunk_generation b i)
          (transposed (table_dtypes b) (ring_chunks s ! i)))"
    if c: "drainable p os env name cs b s i" "\<forall>g\<in>set (cold_gens xxh paths (name, inst) i). g < chunk_generation b i"
      "drain_chunk xxh p os env name cs inst i (prepare_progress cp name inst n, dir', b) = Some (Inr m, cp', dir'', b')"
    for p os env cs dir' b s m cp' dir'' b'
  proof -
    have "tp_drained_gen t ! i < chunk_generation b i"
      unfolding t(3) by (rule foldl_max_less [OF drainable_generation [OF c(1)] c(2)])
    note dr = drainable_drained [OF c(1) primed_cold_ok [OF new(2)] t(1) _ this c(3)]
    show ?thesis using dr assms(2) t(2) by auto
  qed
  show ?thesis
  proof (intro exI [of _ paths] exI [of _ t] conjI)
    show "segment_paths_checked calls dir = Inr paths" by (rule ps)
  qed ((use t skip in blast)+, intro allI impI, rule take, assumption+)
qed

theorem restart_watermarks_witness:
  "\<exists>f cp t b cp' b' res cp'' dir3.
    prime_from_cold demo_xxh good_calls (two_files f f) (compactor_new demo_store demo_config 0) = (Inr (), cp) \<and>
    cp_tables (prepare_progress cp [0x74] 9 1) [0x74] = Some t \<and> tp_drained_gen t ! 0 = 3 \<and>
    drain_chunk demo_xxh demo_pco demo_os demo_env [0x74] demo_cols 9 0 (prepare_progress cp [0x74] 9 1, [], b) =
      Some (Inr 0, prepare_progress cp [0x74] 9 1, [], b) \<and>
    prime_from_cold demo_xxh good_calls [] (compactor_new demo_store demo_config 0) = (Inr (), compactor_new demo_store demo_config 0) \<and>
    drain_chunk demo_xxh demo_pco demo_os demo_env [0x74] demo_cols 9 0
      (prepare_progress (compactor_new demo_store demo_config 0) [0x74] 9 2, [], b) = Some (Inr 1, cp', [], b') \<and>
    flush demo_xxh demo_os demo_env cp' [] = (Inr res, cp'', dir3) \<and>
    holds_page demo_xxh demo_pco (last dir3) ([0x74], 9) 0 1 [CI64 [5]]"
proof -
  let ?c = "compactor_new demo_store demo_config 0"
  from demo_primed obtain f cp r page where f: "prime_from_cold demo_xxh good_calls (two_files f f) ?c = (Inr (), cp)"
    "foldl max 0 (cold_gens demo_xxh (two_files f f) ([0x74], 9) 0) = 3"
    "from_mmap demo_xxh f ''a.memc'' = Inr r" "page \<in> set (sr_pages r)" "page_source r page = Some (([0x74], 9), 0, 3)" by blast
  from demo_fresh_drain obtain b cp' b' res cp'' dir3 where d:
    "drainable demo_pco demo_os demo_env [0x74] demo_cols b demo_ring 0" "chunk_generation b 0 = 1" "table_dtypes b = [DI64]"
    "drain_chunk demo_xxh demo_pco demo_os demo_env [0x74] demo_cols 9 0 (prepare_progress ?c [0x74] 9 2, [], b) = Some (Inr 1, cp', [], b')"
    "flush demo_xxh demo_os demo_env cp' [] = (Inr res, cp'', dir3)" "length (sf_bytes (last dir3)) < 2 ^ 32" by blast
  have nums: "(0::nat) < 1" "(0::nat) < 2" "(0::nat) + 1 < 2 ^ 32" "(9::nat) < 2 ^ 64" "(1::nat) \<le> 3" by simp_all
  have files: "\<lparr>sf_name = ''a.memc'', sf_bytes = f, sf_mtime = 0\<rparr> \<in> set (two_files f f)" by (simp add: two_files_def)
  from restart_watermarks [OF f(1) nums(1), of "[0x74]" 9] obtain t where
    t: "cp_tables (prepare_progress cp [0x74] 9 1) [0x74] = Some t" "tp_drained_gen t ! 0 = 3"
    and skip: "drain_chunk demo_xxh demo_pco demo_os demo_env [0x74] demo_cols 9 0 (prepare_progress cp [0x74] 9 1, [], b) =
      Some (Inr 0, prepare_progress cp [0x74] 9 1, [], b)"
    using f(2-5) files d(2) nums(5) unfolding two_files_paths by (metis segment_file.select_convs(1,2) sum.inject(2))
  have pr0: "prime_from_cold demo_xxh good_calls [] ?c = (Inr (), ?c)" by (simp add: prime_from_cold_def no_files_paths)
  have none: "\<forall>paths. segment_paths_checked good_calls [] = Inr paths \<longrightarrow> cold_gens demo_xxh paths ([0x74], 9) 0 = []"
    by (simp add: no_files_paths cold_gens_def)
  from restart_watermarks [OF pr0 nums(2), of "[0x74]" 9] none d(1,4-6) demo_pco_lossless nums(3,4)
  have "holds_page demo_xxh demo_pco (last dir3) ([0x74], 9) 0 (chunk_generation b 0)
      (transposed (table_dtypes b) (ring_chunks demo_ring ! 0))"
    by (metis empty_iff empty_set)
  then have "holds_page demo_xxh demo_pco (last dir3) ([0x74], 9) 0 1 [CI64 [5]]"
    by (simp add: d(2,3) demo_ring demo_columns)
  then show ?thesis using f(1) t skip pr0 d(4,5) by blast
qed

section \<open>The cluster registry\<close>

text \<open>
  C31. Whatever sequence of updates, removals, sweeps and snapshots a registry went through, every node is
  stored under its own key, no two nodes hold the same rank, and the rank index is exact: looking up a
  rank returns the node that holds it, if any, and looking up an address the node at that address.
\<close>

theorem registry_invariant:
  assumes "registry_change\<^sup>*\<^sup>* cluster_default c"
  shows "(\<forall>k n. cl_nodes c k = Some n \<longrightarrow> node_key n = k) \<and>
    (\<forall>r n. cluster_get r c = Some n \<longleftrightarrow> n \<in> ran (cl_nodes c) \<and> nd_rank n = Some r) \<and>
    (\<forall>n \<in> ran (cl_nodes c). cluster_get_by_addr (nd_host n) (nd_addr n) c = Some n) \<and>
    (\<forall>n \<in> ran (cl_nodes c). \<forall>m \<in> ran (cl_nodes c). nd_rank n \<noteq> None \<and> nd_rank n = nd_rank m \<longrightarrow> n = m)"
proof -
  note inv = registry_reachable_inv [OF assms]
  have key: "cl_nodes c (node_key n) = Some n" if "n \<in> ran (cl_nodes c)" for n
    using that reg_invD(2) [OF inv] by (auto simp: ran_def)
  have get: "cluster_get r c = Some n \<longleftrightarrow> n \<in> ran (cl_nodes c) \<and> nd_rank n = Some r" for r n
    using key [of n] reg_invD(2,3) [OF inv] by (auto simp: cluster_get_def bind_eq_Some_conv ranI)
  have same: "n = m" if "n \<in> ran (cl_nodes c)" "m \<in> ran (cl_nodes c)" "nd_rank n \<noteq> None" "nd_rank n = nd_rank m" for n m
    using get [of "the (nd_rank n)" n] get [of "the (nd_rank n)" m] that by auto
  have addr: "cluster_get_by_addr (nd_host n) (nd_addr n) c = Some n" if "n \<in> ran (cl_nodes c)" for n
    using key [OF that] by (simp add: cluster_get_by_addr_def node_key_def)
  show ?thesis using reg_invD(2) [OF inv] get addr same by blast
qed

theorem registry_invariant_witness:
  "let c = demo_cluster in
    (\<forall>k n. cl_nodes c k = Some n \<longrightarrow> node_key n = k) \<and>
    (\<forall>r n. cluster_get r c = Some n \<longleftrightarrow> n \<in> ran (cl_nodes c) \<and> nd_rank n = Some r) \<and>
    (\<forall>n \<in> ran (cl_nodes c). cluster_get_by_addr (nd_host n) (nd_addr n) c = Some n) \<and>
    (\<forall>n \<in> ran (cl_nodes c). \<forall>m \<in> ran (cl_nodes c). nd_rank n \<noteq> None \<and> nd_rank n = nd_rank m \<longrightarrow> n = m)"
  unfolding Let_def
  by (rule registry_invariant) (unfold demo_cluster_def, rule r_into_rtranclp, rule registry_change.updates)

text \<open>
  C32. A sweep does to every node exactly what its age says: alive and older than the threshold, it is
  marked dead and listed as newly dead; dead already and older than twice the threshold, it is removed and
  listed as expired; otherwise it is unchanged. The order in which the hash map is walked does not matter.
\<close>

theorem sweep_exact:
  assumes "registry_change\<^sup>*\<^sup>* cluster_default c" "set order = dom (cl_nodes c)"
    "sweep_stale_nodes order threshold now c = ((newly_dead, expired), c')"
  shows "(\<forall>k. cl_nodes c' k = (case cl_nodes c k of None \<Rightarrow> None | Some n \<Rightarrow>
        if nd_timestamp n \<noteq> 0 \<and> threshold < now - nd_timestamp n \<and> nd_status n \<noteq> Some ''dead''
        then Some (n\<lparr>nd_status := Some ''dead''\<rparr>)
        else if nd_status n = Some ''dead'' \<and> min (2 ^ 64 - 1) (2 * threshold) < now - nd_timestamp n then None
        else Some n)) \<and>
    set newly_dead = {k. \<exists>n n'. cl_nodes c k = Some n \<and> cl_nodes c' k = Some n' \<and> nd_status n \<noteq> nd_status n'} \<and>
    set expired = dom (cl_nodes c) - dom (cl_nodes c')"
proof -
  note s = sweep_nodes [OF registry_reachable_inv [OF assms(1)] assms(2,3)]
  have stale: "node_stale threshold now n \<longleftrightarrow> nd_timestamp n \<noteq> 0 \<and> threshold < now - nd_timestamp n \<and> nd_status n \<noteq> Some ''dead''" for n
    by (auto simp: node_stale_def)
  have expired: "node_expired threshold now n \<longleftrightarrow> nd_status n = Some ''dead'' \<and> min (2 ^ 64 - 1) (2 * threshold) < now - nd_timestamp n" for n
    by (simp add: node_expired_def saturating_mul2_def mult.commute)
  have nodes: "cl_nodes c' k = (case cl_nodes c k of None \<Rightarrow> None | Some n \<Rightarrow>
      if node_stale threshold now n then Some (n\<lparr>nd_status := Some ''dead''\<rparr>)
      else if node_expired threshold now n then None else Some n)" for k
    by (simp add: s(2) swept_node_def split: option.split)
  have "set newly_dead = {k. \<exists>n n'. cl_nodes c k = Some n \<and> cl_nodes c' k = Some n' \<and> nd_status n \<noteq> nd_status n'}"
    by (auto simp: s(3) nodes node_stale_def split: option.splits if_splits)
  moreover have "set expired = dom (cl_nodes c) - dom (cl_nodes c')"
    by (auto simp: s(4) nodes split: option.splits if_splits)
  ultimately show ?thesis using nodes unfolding stale expired by blast
qed

theorem sweep_exact_witness:
  "let s = sweep_stale_nodes demo_order 25000000 26000000 demo_cluster; newly_dead = fst (fst s); expired = snd (fst s); c' = snd s in
    (\<forall>k. cl_nodes c' k = (case cl_nodes demo_cluster k of None \<Rightarrow> None | Some n \<Rightarrow>
        if nd_timestamp n \<noteq> 0 \<and> 25000000 < 26000000 - nd_timestamp n \<and> nd_status n \<noteq> Some ''dead''
        then Some (n\<lparr>nd_status := Some ''dead''\<rparr>)
        else if nd_status n = Some ''dead'' \<and> min (2 ^ 64 - 1) (2 * 25000000) < 26000000 - nd_timestamp n then None
        else Some n)) \<and>
    set newly_dead = {k. \<exists>n n'. cl_nodes demo_cluster k = Some n \<and> cl_nodes c' k = Some n' \<and> nd_status n \<noteq> nd_status n'} \<and>
    set expired = dom (cl_nodes demo_cluster) - dom (cl_nodes c')"
proof -
  have r: "registry_change\<^sup>*\<^sup>* cluster_default demo_cluster"
    unfolding demo_cluster_def by (rule r_into_rtranclp, rule registry_change.updates)
  show ?thesis unfolding Let_def by (rule sweep_exact [OF r demo_order_ok(2)]) simp
qed

section \<open>Reports to the coordinator\<close>

text \<open>
  C33. One report of an up-to-date reporter keeps the two registries in step: if both hold the same nodes
  apart from their time stamps, the reporter has seen the coordinator's version, the reported nodes have
  different keys and ranks and none of them had its endpoint under a rank another one reports, then
  after the round both registries again hold the same nodes and the reporter knows the new version.
\<close>

theorem report_round_syncs:
  assumes "reg_inv (cs_cluster cst)" "reg_inv (cs_cluster (rp_state rp))"
    and "same_view (cl_nodes (cs_cluster cst)) (cl_nodes (cs_cluster (rp_state rp)))"
    and "cs_version cst \<le> rp_seen rp" "0 < rp_seen rp" "nodes \<noteq> []" "reported_ok nodes"
    and "set (replaced_node_keys nodes (cs_cluster cst)) \<inter> node_key ` set nodes = {}"
    and clocks: "\<And>ns. map snd (cclock ns) = ns" "\<And>ns. map snd (rclock ns) = ns"
    and "\<forall>(t, n) \<in> set (cclock nodes). now - t \<le> threshold" "threshold < 2 ^ 64"
    and "distinct order" "set order = dom (cl_nodes (update_nodes (cclock nodes) (cs_cluster cst)))"
    and "global_rank \<noteq> 0"
    and rp': "rp' = report_once global_rank 0 rclock
      (\<lambda>ns seen. Some (fst (coordinator_put order threshold now cclock cst ns seen))) nodes rp"
    and cst': "cst' = snd (coordinator_put order threshold now cclock cst nodes (rp_seen rp))"
  shows "same_view (cl_nodes (cs_cluster cst')) (cl_nodes (cs_cluster (rp_state rp'))) \<and>
    rp_seen rp' = cs_version cst' \<and> cs_version (rp_state rp') = cs_version cst' \<and> cs_version cst' = cs_version cst + 1"
proof -
  obtain resp where run: "apply_node_report order threshold now (cclock nodes) (rp_seen rp) cst = (resp, cst')"
    using cst' by (metis coordinator_put_def prod.collapse)
  have ok: "reported_ok (map snd (cclock nodes))" "cclock nodes \<noteq> []" using assms(6,7) clocks(1) [of nodes] by auto
  note r = round_in_sync [OF assms(1-3) ok assms(13,14,11,12,4,5) _ run clocks(2)]
  have "nr_nodes resp \<noteq> [] \<and> nr_version resp = cs_version cst + 1 \<and> cs_version cst' = cs_version cst + 1"
    by (rule report_answer [OF assms(1) ok assms(13,14,11,12,4,5) run]) (use ok(2) in simp)
  then show ?thesis
    using r [of "nr_version resp"] assms(8,15) clocks(1)
    by (simp add: rp' report_once_def coordinator_put_def run Let_def apply_global_snapshot_def apply_snapshot_delta_def)
qed

theorem report_round_syncs_witness:
  "let put = (\<lambda>ns seen. Some (fst (coordinator_put demo_order 25000000 2000 (demo_clock 2000) (demo_registry 5) ns seen)));
       rp' = report_once 2 0 (demo_clock 2001) put [demo_n2] \<lparr>rp_seen = 5, rp_state = demo_registry 5\<rparr>;
       cst' = snd (coordinator_put demo_order 25000000 2000 (demo_clock 2000) (demo_registry 5) [demo_n2] 5)
   in same_view (cl_nodes (cs_cluster cst')) (cl_nodes (cs_cluster (rp_state rp'))) \<and>
    rp_seen rp' = cs_version cst' \<and> cs_version (rp_state rp') = cs_version cst' \<and> cs_version cst' = cs_version (demo_registry 5) + 1"
proof -
  have ok: "reported_ok [demo_n2]" by (simp add: reported_ok_def)
  have hold: "holds_rank (cl_nodes demo_cluster) (Some 2) k \<longleftrightarrow> k = ''b:b1''" for k
    by (auto simp: holds_rank_def demo_cluster_nodes)
  have dom: "set demo_order = dom (cl_nodes (update_nodes (demo_clock 2000 [demo_n2]) demo_cluster))"
  proof (rule demo_update_dom [OF ok])
    show "k \<in> node_key ` set [demo_n2]" if "n \<in> set [demo_n2]" "holds_rank (cl_nodes demo_cluster) (nd_rank n) k" for n k
      using that by (auto simp: hold)
    show "node_key ` set [demo_n2] \<subseteq> dom (cl_nodes demo_cluster)" by (simp add: demo_cluster_nodes)
  qed
  have "k \<notin> set (replaced_node_keys [demo_n2] demo_cluster)" for k
    unfolding replaced_keys [OF demo_cluster_inv] by (auto simp: hold)
  then have repl: "set (replaced_node_keys [demo_n2] demo_cluster) \<inter> node_key ` set [demo_n2] = {}" by blast
  show ?thesis unfolding Let_def
    by (rule report_round_syncs [where order = demo_order and threshold = 25000000 and now = 2000 and cclock = "demo_clock 2000"
          and rclock = "demo_clock 2001" and global_rank = 2 and nodes = "[demo_n2]" and cst = "demo_registry 5" and rp = "\<lparr>rp_seen = 5, rp_state = demo_registry 5\<rparr>"])
      (use demo_cluster_inv ok dom repl demo_order_ok(1) in \<open>simp_all add: demo_registry_def same_view_def demo_clock_def comp_def\<close>)
qed

text \<open>
  C34. A reporter loses live nodes when ranks move between endpoints that are reported together: a node
  whose endpoint held, until now, a rank that another node of the same report takes, is stored by the
  coordinator but listed among the removed keys of the answer, so the reporter deletes it.
\<close>

theorem rank_exchange_loses_nodes:
  assumes "reg_inv (cs_cluster cst)" "reg_inv (cs_cluster (rp_state rp))"
    and "cs_version cst \<le> rp_seen rp" "0 < rp_seen rp" "reported_ok nodes"
    and clocks: "\<And>ns. map snd (cclock ns) = ns" "\<And>ns. map snd (rclock ns) = ns"
    and "\<forall>(t, n) \<in> set (cclock nodes). now - t \<le> threshold" "threshold < 2 ^ 64"
    and "distinct order" "set order = dom (cl_nodes (update_nodes (cclock nodes) (cs_cluster cst)))"
    and "global_rank \<noteq> 0" "n \<in> set nodes" "node_key n \<in> set (replaced_node_keys nodes (cs_cluster cst))"
    and rp': "rp' = report_once global_rank 0 rclock
      (\<lambda>ns seen. Some (fst (coordinator_put order threshold now cclock cst ns seen))) nodes rp"
    and cst': "cst' = snd (coordinator_put order threshold now cclock cst nodes (rp_seen rp))"
  shows "(\<exists>stored. cl_nodes (cs_cluster cst') (node_key n) = Some stored \<and> nd_rank stored = nd_rank n) \<and>
    cl_nodes (cs_cluster (rp_state rp')) (node_key n) = None \<and> rp_seen rp' = cs_version cst'"
proof -
  obtain resp where run: "apply_node_report order threshold now (cclock nodes) (rp_seen rp) cst = (resp, cst')"
    using cst' by (metis coordinator_put_def prod.collapse)
  have ne: "nodes \<noteq> []" using assms(13) by auto
  have ok: "reported_ok (map snd (cclock nodes))" "cclock nodes \<noteq> []" using assms(5) clocks(1) [of nodes] ne by auto
  note r = rank_taken_over [OF assms(1,2) ok assms(10,11,8,9,3,4) run]
  have "nr_nodes resp \<noteq> [] \<and> nr_version resp = cs_version cst'"
    by (rule report_answer [OF assms(1) ok assms(10,11,8,9,3,4) run]) (use ok(2) in simp)
  then show ?thesis
    using r(1) [of n] r(2) [of n "rclock (nr_nodes resp)" "nr_version resp"] assms(12-14) clocks(1)
    by (auto simp: rp' report_once_def coordinator_put_def run Let_def apply_global_snapshot_def)
qed

theorem rank_exchange_loses_nodes_witness:
  "let nodes = [demo_node ''a'' ''a1'' 1 0 0, demo_node ''a'' ''a2'' 0 1 0];
       put = (\<lambda>ns seen. Some (fst (coordinator_put demo_order 25000000 2000 (demo_clock 2000) (demo_registry 5) ns seen)));
       rp' = report_once 2 0 (demo_clock 2001) put nodes \<lparr>rp_seen = 5, rp_state = demo_registry 5\<rparr>;
       cst' = snd (coordinator_put demo_order 25000000 2000 (demo_clock 2000) (demo_registry 5) nodes 5);
       n = demo_node ''a'' ''a1'' 1 0 0
   in (\<exists>stored. cl_nodes (cs_cluster cst') (node_key n) = Some stored \<and> nd_rank stored = nd_rank n) \<and>
    cl_nodes (cs_cluster (rp_state rp')) (node_key n) = None \<and> rp_seen rp' = cs_version cst'"
proof -
  let ?a = "demo_node ''a'' ''a1'' 1 0 0" and ?b = "demo_node ''a'' ''a2'' 0 1 0"
  have ok: "reported_ok [?a, ?b]" by (simp add: reported_ok_def)
  have hold: "holds_rank (cl_nodes demo_cluster) (Some 0) k \<longleftrightarrow> k = ''a:a1''" "holds_rank (cl_nodes demo_cluster) (Some 1) k \<longleftrightarrow> k = ''a:a2''" for k
    by (auto simp: holds_rank_def demo_cluster_nodes)
  have dom: "set demo_order = dom (cl_nodes (update_nodes (demo_clock 2000 [?a, ?b]) demo_cluster))"
  proof (rule demo_update_dom [OF ok])
    show "k \<in> node_key ` set [?a, ?b]" if "n \<in> set [?a, ?b]" "holds_rank (cl_nodes demo_cluster) (nd_rank n) k" for n k
      using that by (auto simp: hold)
    show "node_key ` set [?a, ?b] \<subseteq> dom (cl_nodes demo_cluster)" by (simp add: demo_cluster_nodes)
  qed
  have repl: "node_key ?a \<in> set (replaced_node_keys [?a, ?b] demo_cluster)"
    unfolding replaced_keys [OF demo_cluster_inv] by (simp add: hold)
  show ?thesis unfolding Let_def
    by (rule rank_exchange_loses_nodes [where order = demo_order and threshold = 25000000 and now = 2000 and cclock = "demo_clock 2000"
          and rclock = "demo_clock 2001" and global_rank = 2 and nodes = "[?a, ?b]" and cst = "demo_registry 5" and rp = "\<lparr>rp_seen = 5, rp_state = demo_registry 5\<rparr>"])
      (use demo_cluster_inv ok dom repl demo_order_ok(1) in \<open>simp_all add: demo_registry_def demo_clock_def comp_def\<close>)
qed

text \<open>
  C35. A reporter learns nothing when another one reported first: the coordinator's version moved on with
  that report, so the next answer carries no nodes, yet the reporter takes the new version for its own
  and never fetches the list. Its registry gains nothing.
\<close>

theorem interleaved_report_gets_nothing:
  assumes "reg_inv (cs_cluster (rp_state rp))" "rp_seen rp \<le> cs_version cst" "unat (cs_version cst) < 2 ^ 64 - 1"
    and "other \<noteq> []" "map snd (cclock other) = other" "map snd (rclock []) = []"
    and cst1: "cst1 = snd (coordinator_put order threshold now cclock cst other osv)"
    and rp': "rp' = report_once global_rank 0 rclock
      (\<lambda>ns sv. Some (fst (coordinator_put order' threshold now' cclock cst1 ns sv))) nodes rp"
    and cst2: "cst2 = snd (coordinator_put order' threshold now' cclock cst1 nodes (rp_seen rp))"
  shows "rp_seen rp' = cs_version cst2 \<and>
    (\<forall>k n. cl_nodes (cs_cluster (rp_state rp')) k = Some n \<longrightarrow> cl_nodes (cs_cluster (rp_state rp)) k = Some n)"
proof -
  obtain resp1 where run1: "apply_node_report order threshold now (cclock other) osv cst = (resp1, cst1)"
    using cst1 by (metis coordinator_put_def prod.collapse)
  have "cclock other \<noteq> []" using assms(4,5) by auto
  from report_version [OF this run1] have v: "cs_version cst1 = cs_version cst + 1" .
  have "cs_version cst < cs_version cst1" 
    unfolding v using assms(3) unat_add_lem [of "cs_version cst" 1] by (simp add: word_less_nat_alt)
  then have lt: "rp_seen rp < cs_version cst1" using assms(2) by simp
  obtain resp where run: "apply_node_report order' threshold now' (cclock nodes) (rp_seen rp) cst1 = (resp, cst2)"
    using cst2 by (metis coordinator_put_def prod.collapse)
  note b = report_behind [OF lt run]
  have nil: "rclock [] = []" using assms(6) by simp
  have "rp_seen rp' = cs_version cst2"
    by (simp add: rp' report_once_def coordinator_put_def run Let_def b)
  moreover have "cl_nodes (cs_cluster (rp_state rp)) k = Some n" if "cl_nodes (cs_cluster (rp_state rp')) k = Some n" for k n
    using that snapshot_of_nothing [OF assms(1), of "nr_removed resp" "nr_version resp" k]
    by (auto simp: rp' report_once_def coordinator_put_def run Let_def b apply_global_snapshot_def nil split: if_splits)
  ultimately show ?thesis by blast
qed

theorem interleaved_report_gets_nothing_witness:
  "let cst1 = snd (coordinator_put demo_order 25000000 2000 (demo_clock 2000) (demo_registry 5) [demo_n0] 5);
       put = (\<lambda>ns sv. Some (fst (coordinator_put demo_order 25000000 2001 (demo_clock 2000) cst1 ns sv)));
       rp = \<lparr>rp_seen = 5, rp_state = \<lparr>cs_cluster = cluster_default, cs_version = 5\<rparr>\<rparr>;
       rp' = report_once 2 0 (demo_clock 2001) put [demo_n2] rp;
       cst2 = snd (coordinator_put demo_order 25000000 2001 (demo_clock 2000) cst1 [demo_n2] 5)
   in rp_seen rp' = cs_version cst2 \<and>
    (\<forall>k n. cl_nodes (cs_cluster (rp_state rp')) k = Some n \<longrightarrow> cl_nodes (cs_cluster (rp_state rp)) k = Some n)"
  unfolding Let_def
  by (rule interleaved_report_gets_nothing [where cst = "demo_registry 5" and other = "[demo_n0]" and order = demo_order and now = 2000 and osv = 5])
    (simp_all add: demo_registry_def reg_inv_default demo_clock_def)

section \<open>Cluster queries\<close>

text \<open>
  C36. A hierarchical cluster query from the coordinator returns the rows of every process it should reach,
  each exactly once and tagged with its node, when all processes hold the same registry and every request
  is answered: the processes of the coordinator's own group and of each group that has an alive process
  of local rank 0. The processes of other groups are left out, and the result does not count as partial.
\<close>

theorem hierarchical_query_rows:
  assumes "job_ok net order c names kinds result" "s \<in> set (alive_nodes order c)" "nd_local_rank s = Some 0"
    and "runs_as order c result s p" "pr_hierarchical p"
    and "\<forall>a \<in> set (alive_nodes order c). nd_local_rank a = Some 0 \<and> nd_group_rank a = nd_group_rank s \<longrightarrow> a = s"
    and targets: "targets = filter (\<lambda>n. \<exists>a \<in> set (alive_nodes order c). nd_local_rank a = Some 0 \<and> nd_group_rank a = nd_group_rank n)
      (alive_nodes order c)"
  shows "\<exists>out. fanout_query p net catalog True FanAuto = Inr out \<and>
    mset (df_iter (fo_dataframe out)) = mset (concat (map (\<lambda>n. map (\<lambda>row. row @ node_tags n) (df_iter (result n))) targets)) \<and>
    fm_nodes_queried (fo_meta out) = length targets \<and> fm_nodes_failed (fo_meta out) = [] \<and> \<not> fm_partial (fo_meta out)"
proof -
  have "(\<lambda>n. map (\<lambda>row. row @ node_tags n) (df_iter (result n))) = node_rows result" by (simp add: fun_eq_iff node_rows_def)
  moreover have "reached_nodes (alive_nodes order c) = targets" by (simp add: targets reached_nodes_def)
  ultimately show ?thesis using coordinator_complete [OF assms(1-6), of catalog] by (auto simp: complete_for_def)
qed

theorem hierarchical_query_rows_witness:
  "let alive = alive_nodes demo_order demo_cluster;
       targets = filter (\<lambda>n. \<exists>a \<in> set alive. nd_local_rank a = Some 0 \<and> nd_group_rank a = nd_group_rank n) alive
   in \<exists>out. fanout_query (demo_process demo_n0) demo_network None True FanAuto = Inr out \<and>
    mset (df_iter (fo_dataframe out)) = mset (concat (map (\<lambda>n. map (\<lambda>row. row @ node_tags n) (df_iter (demo_frame n))) targets)) \<and>
    fm_nodes_queried (fo_meta out) = length targets \<and> fm_nodes_failed (fo_meta out) = [] \<and> \<not> fm_partial (fo_meta out)"
  unfolding Let_def
  by (rule hierarchical_query_rows [OF demo_job _ _ demo_runs _ _ refl, of demo_n0])
    (simp_all add: demo_alive demo_process_def)

text \<open>
  C37. Merging the frames of several processes concatenates their rows, in order, when the frames that
  have rows agree on names and types of columns and no column is boolean; frames without rows are
  skipped whatever their columns.
\<close>

theorem merge_concatenates:
  assumes "schema_ok names kinds" "\<forall>d \<in> set parts. df_is_empty d \<or> frame_of names kinds d"
  shows "df_iter (merge_dataframes parts) = concat (map df_iter parts) \<and>
    df_size (merge_dataframes parts) = length (concat (map df_iter parts))"
proof -
  have "df_size (merge_dataframes parts) = length (df_iter (merge_dataframes parts))"
    by (simp add: merge_dataframes_def Let_def df_iter_def)
  then show ?thesis using merge_frames(1) [OF assms] by simp
qed

theorem merge_concatenates_witness:
  "df_iter (merge_dataframes [demo_frame demo_n0, df_default, demo_frame demo_n1]) =
      concat (map df_iter [demo_frame demo_n0, df_default, demo_frame demo_n1]) \<and>
    df_size (merge_dataframes [demo_frame demo_n0, df_default, demo_frame demo_n1]) =
      length (concat (map df_iter [demo_frame demo_n0, df_default, demo_frame demo_n1]))"
  by (rule merge_concatenates [of "[''x'']" "[3]"]) (simp_all add: schema_ok_def demo_frame_of df_default_empty)

text \<open>
  C38. Merging frames of different columns gives rows that no process has. If the second of three frames
  lacks the column \<open>y\<close>, its rows get the \<open>y\<close> values of the third frame, because a missing value is never
  pushed; and if a column that is not text first appears in a later frame, all its values are lost.
\<close>

theorem merge_misaligns:
  assumes "schema_ok [x, y] [kx, ky]" "frame_of [x, y] [kx, ky] a" "frame_of [x] [kx] b" "frame_of [x, y] [kx, ky] c"
    and "\<not> df_is_empty a" "\<not> df_is_empty b" "\<not> df_is_empty c" "i < df_row_count b" "i < df_row_count c" "ky \<noteq> 6"
  shows "df_row (merge_dataframes [a, b, c]) (df_row_count a + i) = [df_row b i ! 0, df_row c i ! 1] \<and>
    df_row (merge_dataframes [b, a]) r ! 1 = (if r < df_row_count b then EleText [] else EleNil)"
  using lacking_shifts [OF assms(1-9)] late_column_lost [OF assms(1,3,2,6,5,10), of r] by blast

theorem merge_misaligns_witness:
  "df_row (merge_dataframes [demo_xy 1 10, demo_x 2, demo_xy 3 30]) (df_row_count (demo_xy 1 10) + 0) =
      [df_row (demo_x 2) 0 ! 0, df_row (demo_xy 3 30) 0 ! 1] \<and>
    df_row (merge_dataframes [demo_x 2, demo_xy 1 10]) 1 ! 1 = (if 1 < df_row_count (demo_x 2) then EleText [] else EleNil)"
  by (rule merge_misaligns [of "''x''" "''y''" 3 3]) (simp_all add: schema_ok_def demo_xy_props df_is_empty_def)

section \<open>The supervisor\<close>

text \<open>
  C39. No listener escapes the supervisor: after any sequence of starts, promotions, completions, silent
  ends and shutdowns, every task that has not ended is the active listener, the candidate, or was told to
  abort; the two are never the same task nor told to abort; a state that says running or starting names
  the active listener or the candidate; and only the current candidate can be promoted. The same holds
  of the replaceable components, which have an active task only.
\<close>

theorem no_listener_escapes:
  assumes "(listener_step ^^ n) listener_initial (slot, p)" "n < 2 ^ 64"
    and "(component_step ^^ m) component_initial (cslot, q)" "m < 2 ^ 64"
  shows "(\<forall>g \<in> tp_live p. g \<in> tp_aborted p \<or> has_generation g (rl_active slot) \<or> has_generation g (rl_candidate slot)) \<and>
    (\<forall>g. has_generation g (rl_active slot) \<longrightarrow> g \<notin> tp_aborted p \<and> \<not> has_generation g (rl_candidate slot)) \<and>
    (\<forall>g. has_generation g (rl_candidate slot) \<longrightarrow> g \<notin> tp_aborted p) \<and>
    (\<forall>g k. rl_state slot = Running g k \<longrightarrow> rl_active slot = Some \<lparr>mt_generation = g, mt_key = k\<rparr>) \<and>
    (\<forall>g k. rl_state slot = Starting g k \<longrightarrow> rl_candidate slot = Some \<lparr>mt_generation = g, mt_key = k\<rparr>) \<and>
    (\<forall>g. fst (promote_remote_listener g (slot, p)) = has_generation g (rl_candidate slot)) \<and>
    (\<forall>g \<in> tp_live q. g \<in> tp_aborted q \<or> has_generation g (rt_active cslot)) \<and>
    (\<forall>g. has_generation g (rt_active cslot) \<longrightarrow> g \<notin> tp_aborted q) \<and>
    (\<forall>g k. rt_state cslot = Starting g k \<or> rt_state cslot = Running g k \<longrightarrow>
       rt_active cslot = Some \<lparr>mt_generation = g, mt_key = k\<rparr>)"
proof -
  have "listener_inv (slot, p)" using listener_reachable [OF assms(1,2)] by simp
  moreover have "component_inv (cslot, q)" using component_reachable [OF assms(3,4)] by simp
  moreover have "fst (promote_remote_listener g (slot, p)) = has_generation g (rl_candidate slot)" for g
    by (cases "rl_candidate slot") (auto simp: promote_remote_listener_def)
  ultimately show ?thesis by (auto simp: known_def)
qed

theorem no_listener_escapes_witness:
  "let w = start_remote_listener ''0.0.0.0:8080'' None listener_initial; slot = fst w; p = snd w;
       v = start_component ''http://10.0.0.1:8080'' None component_initial; cslot = fst v; q = snd v in
    (\<forall>g \<in> tp_live p. g \<in> tp_aborted p \<or> has_generation g (rl_active slot) \<or> has_generation g (rl_candidate slot)) \<and>
    (\<forall>g. has_generation g (rl_active slot) \<longrightarrow> g \<notin> tp_aborted p \<and> \<not> has_generation g (rl_candidate slot)) \<and>
    (\<forall>g. has_generation g (rl_candidate slot) \<longrightarrow> g \<notin> tp_aborted p) \<and>
    (\<forall>g k. rl_state slot = Running g k \<longrightarrow> rl_active slot = Some \<lparr>mt_generation = g, mt_key = k\<rparr>) \<and>
    (\<forall>g k. rl_state slot = Starting g k \<longrightarrow> rl_candidate slot = Some \<lparr>mt_generation = g, mt_key = k\<rparr>) \<and>
    (\<forall>g. fst (promote_remote_listener g (slot, p)) = has_generation g (rl_candidate slot)) \<and>
    (\<forall>g \<in> tp_live q. g \<in> tp_aborted q \<or> has_generation g (rt_active cslot)) \<and>
    (\<forall>g. has_generation g (rt_active cslot) \<longrightarrow> g \<notin> tp_aborted q) \<and>
    (\<forall>g k. rt_state cslot = Starting g k \<or> rt_state cslot = Running g k \<longrightarrow>
       rt_active cslot = Some \<lparr>mt_generation = g, mt_key = k\<rparr>)"
  unfolding Let_def
  by (rule no_listener_escapes [of 1 _ _ 1]) (simp_all add: eq_OO listener_step.start component_step.start)

text \<open>
  C40. The last request does not always win: asking for the address of the active listener while a
  candidate for another address is still binding changes nothing, so the candidate is promoted
  afterwards and the listener that was asked for last is aborted.
\<close>

theorem last_request_loses:
  assumes "rl_active slot = Some a" "mt_generation a \<in> tp_live p" "rl_candidate slot = Some b"
  shows "\<exists>slot' p'. start_remote_listener (mt_key a) spawn (slot, p) = (slot, p) \<and>
    promote_remote_listener (mt_generation b) (start_remote_listener (mt_key a) spawn (slot, p)) = (True, slot', p') \<and>
    rl_active slot' = Some b \<and> rl_candidate slot' = None \<and> rl_state slot' = Running (mt_generation b) (mt_key b) \<and>
    mt_generation a \<in> tp_aborted p'"
  using assms by (simp add: start_remote_listener_def serves_key_def promote_remote_listener_def)

theorem last_request_loses_witness:
  "let w = start_remote_listener ''B'' None (snd (promote_remote_listener 1 (start_remote_listener ''A'' None listener_initial)));
       a = \<lparr>mt_generation = 1, mt_key = ''A''\<rparr>; b = \<lparr>mt_generation = 2, mt_key = ''B''\<rparr>
   in \<exists>slot' p'. start_remote_listener (mt_key a) None (fst w, snd w) = (fst w, snd w) \<and>
    promote_remote_listener (mt_generation b) (start_remote_listener (mt_key a) None (fst w, snd w)) = (True, slot', p') \<and>
    rl_active slot' = Some b \<and> rl_candidate slot' = None \<and> rl_state slot' = Running (mt_generation b) (mt_key b) \<and>
    mt_generation a \<in> tp_aborted p'"
  unfolding Let_def
  by (rule last_request_loses)
    (simp_all add: start_remote_listener_def promote_remote_listener_def listener_initial_def remote_slot_default_def
      serves_key_def bump_generation_def spawn_task_def abort_task_def max_def word_le_nat_alt)

end
